(* ===== verification/Prelude.thy ===== *)
theory Prelude
  imports Main "HOL-Library.Word" "HOL-Library.Monad_Syntax"
begin

unbundle bit_operations_syntax

text \<open>
  Shared vocabulary of the development: bytes and C integers as machine words, the byte order
  of the host (little endian) and of the network, raw memory as a function from offsets to
  bytes, signed C additions, and singly linked chains of handles inside a pool.

  A C++ function that may run into undefined behaviour (an access outside an array, a negative
  \<open>memcpy\<close> length, a signed overflow, a null dereference, a division by zero) or that may not
  return is an \<open>option\<close>: \<open>None\<close> is exactly that outcome. Total correctness of an operation is
  then a statement that its result is \<open>Some\<close>.
\<close>

section \<open>Types\<close>

type_synonym byte = "8 word"
type_synonym c_short = "16 word"
type_synonym c_int = "32 word"
type_synonym memory = "nat \<Rightarrow> byte"

named_theorems byte_simps \<open>byte order and memory blocks\<close>

section \<open>Byte order\<close>

definition le16 :: "c_short \<Rightarrow> byte list" where
  "le16 w = [ucast w, ucast (drop_bit 8 w)]"

fun of_le16 :: "byte list \<Rightarrow> c_short" where
  "of_le16 [a, b] = ucast a OR push_bit 8 (ucast b)"
| "of_le16 _ = 0"

definition le32 :: "c_int \<Rightarrow> byte list" where
  "le32 w = [ucast w, ucast (drop_bit 8 w), ucast (drop_bit 16 w), ucast (drop_bit 24 w)]"

fun of_le32 :: "byte list \<Rightarrow> c_int" where
  "of_le32 [a, b, c, d] =
     ucast a OR push_bit 8 (ucast b) OR push_bit 16 (ucast c) OR push_bit 24 (ucast d)"
| "of_le32 _ = 0"

definition ntohs :: "c_short \<Rightarrow> c_short" where
  "ntohs w = of_le16 (rev (le16 w))"

definition ntohl :: "c_int \<Rightarrow> c_int" where
  "ntohl w = of_le32 (rev (le32 w))"

abbreviation htons :: "c_short \<Rightarrow> c_short" where "htons \<equiv> ntohs"
abbreviation htonl :: "c_int \<Rightarrow> c_int" where "htonl \<equiv> ntohl"

lemma length_le16 [simp]: "length (le16 w) = 2"
  by (simp add: le16_def)

lemma length_le32 [simp]: "length (le32 w) = 4"
  by (simp add: le32_def)

lemma of_le16_le16 [simp]: "of_le16 (le16 w) = w"
  by (rule bit_word_eqI) (auto simp: le16_def bit_simps)

lemma of_le32_le32 [simp]: "of_le32 (le32 w) = w"
proof (rule bit_word_eqI)
  fix n assume "n < LENGTH(32)"
  then consider "n < 8" | "8 \<le> n" "n < 16" | "16 \<le> n" "n < 24" | "24 \<le> n" "n < 32"
    by fastforce
  then show "bit (of_le32 (le32 w)) n = bit w n"
    by cases (auto simp: le32_def bit_simps)
qed

lemma bit_byte_high [simp]: "\<not> bit (b :: byte) (8 + n)" "8 \<le> n \<Longrightarrow> \<not> bit (b :: byte) n"
  by (auto dest: bit_imp_le_length)

lemma le16_of_le16:
  assumes "length bs = 2"
  shows "le16 (of_le16 bs) = bs"
proof -
  obtain a b where bs: "bs = [a, b]"
    using assms by (auto simp: numeral_2_eq_2 length_Suc_conv)
  have "ucast (of_le16 [a, b]) = a" and "ucast (drop_bit 8 (of_le16 [a, b])) = b"
    by (auto intro!: bit_word_eqI simp: bit_simps)
  then show ?thesis by (simp add: le16_def bs)
qed

lemma le32_of_le32:
  assumes "length bs = 4"
  shows "le32 (of_le32 bs) = bs"
proof -
  obtain a b c d where bs: "bs = [a, b, c, d]"
    using assms by (auto simp: numeral_eq_Suc length_Suc_conv)
  have "ucast (of_le32 [a, b, c, d]) = a"
    and "ucast (drop_bit 8 (of_le32 [a, b, c, d])) = b"
    and "ucast (drop_bit 16 (of_le32 [a, b, c, d])) = c"
    and "ucast (drop_bit 24 (of_le32 [a, b, c, d])) = d"
    by (rule bit_word_eqI; simp add: bit_simps)+
  then show ?thesis by (simp add: le32_def bs)
qed

lemma ntohs_ntohs [simp]: "ntohs (ntohs w) = w"
  by (simp add: ntohs_def le16_of_le16)

lemma ntohl_ntohl [simp]: "ntohl (ntohl w) = w"
  by (simp add: ntohl_def le32_of_le32)

section \<open>Raw memory\<close>

definition mem_read :: "memory \<Rightarrow> nat \<Rightarrow> nat \<Rightarrow> byte list" where
  "mem_read m off n = map m [off..<off + n]"

definition mem_write :: "memory \<Rightarrow> nat \<Rightarrow> byte list \<Rightarrow> memory" where
  "mem_write m off bs = (\<lambda>i. if off \<le> i \<and> i < off + length bs then bs ! (i - off) else m i)"

lemma length_mem_read [simp]: "length (mem_read m off n) = n"
  by (simp add: mem_read_def)

lemma mem_read_0 [simp]: "mem_read m off 0 = []"
  by (simp add: mem_read_def)

lemma mem_read_add: "mem_read m off (a + b) = mem_read m off a @ mem_read m (off + a) b"
  by (rule nth_equalityI) (auto simp: mem_read_def nth_append add.assoc)

lemma mem_read_Suc: "mem_read m off (Suc n) = m off # mem_read m (Suc off) n"
  using mem_read_add [of m off 1 n] by (simp add: mem_read_def)

lemma mem_read_write_same [byte_simps]:
  "n = length bs \<Longrightarrow> mem_read (mem_write m off bs) off n = bs"
  by (rule nth_equalityI) (auto simp: mem_read_def mem_write_def)

lemma mem_read_write_other [byte_simps]:
  "off + n \<le> off' \<or> off' + length bs \<le> off \<Longrightarrow>
     mem_read (mem_write m off' bs) off n = mem_read m off n"
  by (rule nth_equalityI) (auto simp: mem_read_def mem_write_def)

lemma mem_write_apply [byte_simps]:
  "mem_write m off bs i = (if off \<le> i \<and> i < off + length bs then bs ! (i - off) else m i)"
  by (simp add: mem_write_def)

lemma mem_write_Nil [simp]: "mem_write m off [] = m"
  by (rule ext) (auto simp: mem_write_def)

lemma mem_write_append [byte_simps]:
  "off' = off + length a \<Longrightarrow> mem_write (mem_write m off a) off' b = mem_write m off (a @ b)"
  by (rule ext) (auto simp: mem_write_def nth_append)

text \<open>Strings of the program are byte sequences; literals are converted through the codes
  of their characters.\<close>

definition bytes_of_string :: "string \<Rightarrow> byte list" where
  "bytes_of_string s = map of_char s"

lemma length_bytes_of_string [simp]: "length (bytes_of_string s) = length s"
  by (simp add: bytes_of_string_def)

section \<open>Signed C arithmetic\<close>

definition int_min :: int where "int_min = - (2 ^ 31)"
definition int_max :: int where "int_max = 2 ^ 31 - 1"

text \<open>Signed addition of two \<open>int\<close>s: overflow is undefined behaviour.\<close>

definition c_add :: "int \<Rightarrow> int \<Rightarrow> int option" where
  "c_add a b = (if int_min \<le> a + b \<and> a + b \<le> int_max then Some (a + b) else None)"

lemma c_add_small [simp]:
  "- 1073741823 \<le> a \<Longrightarrow> a \<le> 1073741823 \<Longrightarrow> - 1073741823 \<le> b \<Longrightarrow> b \<le> 1073741823 \<Longrightarrow> c_add a b = Some (a + b)"
  by (simp add: c_add_def int_min_def int_max_def)

lemma c_add_SomeD: "c_add a b = Some c \<Longrightarrow> c = a + b"
  by (simp add: c_add_def split: if_splits)

lemma sint_c_int_range: "int_min \<le> sint (w :: c_int)" "sint (w :: c_int) \<le> int_max"
  using sint_range_size [of w] by (auto simp: int_min_def int_max_def word_size)

lemma sint_word_of_int_c_int [simp]:
  "int_min \<le> n \<Longrightarrow> n \<le> int_max \<Longrightarrow> sint (word_of_int n :: c_int) = n"
  by (simp add: int_min_def int_max_def sint_sbintrunc' signed_take_bit_int_eq_self)

lemma word_of_int_eq_minus_one:
  "0 \<le> n \<Longrightarrow> n \<le> int_max \<Longrightarrow> (word_of_int n :: c_int) \<noteq> -1"
proof
  assume n: "0 \<le> n" "n \<le> int_max" and "(word_of_int n :: c_int) = -1"
  then have "sint (word_of_int n :: c_int) = sint (-1 :: c_int)" by simp
  moreover have "sint (word_of_int n :: c_int) = n"
    using n by (intro sint_word_of_int_c_int) (simp_all add: int_min_def)
  ultimately show False using n by simp
qed

section \<open>Chains of handles\<close>

text \<open>
  The chunk allocator and the hash map keep their nodes in a memory pool and link them by
  \<open>BC_MEM_HANDLER\<close> offsets, \<open>-1\<close> being \<open>INVALID_BC_MEM_HANDLER\<close>. A chain is described by
  the list of its handles; the functions below say which handle the head, the tail, the
  successor and the predecessor fields of a well-formed chain must hold.
\<close>

abbreviation INVALID_BC_MEM_HANDLER :: int where "INVALID_BC_MEM_HANDLER \<equiv> - 1"

definition lhead :: "int list \<Rightarrow> int" where
  "lhead xs = (case xs of [] \<Rightarrow> INVALID_BC_MEM_HANDLER | x # _ \<Rightarrow> x)"

definition llast :: "int list \<Rightarrow> int" where
  "llast xs = (if xs = [] then INVALID_BC_MEM_HANDLER else last xs)"

fun lnext :: "int list \<Rightarrow> int \<Rightarrow> int" where
  "lnext [] y = INVALID_BC_MEM_HANDLER"
| "lnext (x # xs) y = (if y = x then lhead xs else lnext xs y)"

fun lprev :: "int list \<Rightarrow> int \<Rightarrow> int" where
  "lprev [] y = INVALID_BC_MEM_HANDLER"
| "lprev (x # xs) y = (if y = lhead xs \<and> xs \<noteq> [] then x else lprev xs y)"

named_theorems chain_simps \<open>successors and predecessors in chains\<close>

lemma lhead_simps [simp]: "lhead [] = -1" "lhead (x # xs) = x"
  by (simp_all add: lhead_def)

lemma llast_simps [simp]: "llast [] = -1" "llast (x # xs) = (if xs = [] then x else llast xs)"
  by (simp_all add: llast_def)

lemma lhead_in: "xs \<noteq> [] \<Longrightarrow> lhead xs \<in> set xs"
  by (cases xs) auto

lemma llast_in: "xs \<noteq> [] \<Longrightarrow> llast xs \<in> set xs"
  by (simp add: llast_def)

lemma lhead_eq_invalid: "-1 \<notin> set xs \<Longrightarrow> lhead xs = -1 \<longleftrightarrow> xs = []"
  by (cases xs) auto

lemma llast_eq_invalid: "-1 \<notin> set xs \<Longrightarrow> llast xs = -1 \<longleftrightarrow> xs = []"
  using llast_in [of xs] by (cases "xs = []") auto

lemma lnext_notin [chain_simps]: "y \<notin> set xs \<Longrightarrow> lnext xs y = -1"
  by (induction xs) auto

lemma lprev_notin [chain_simps]: "y \<notin> set xs \<Longrightarrow> lprev xs y = -1"
  by (induction xs) (auto dest: lhead_in)

lemma lnext_in: "lnext xs y \<noteq> -1 \<Longrightarrow> lnext xs y \<in> set xs"
  by (induction xs) (auto split: if_splits dest: lhead_in simp: lhead_def split: list.splits)

lemma lprev_in: "lprev xs y \<noteq> -1 \<Longrightarrow> lprev xs y \<in> set xs"
  by (induction xs) (auto split: if_splits)

lemma lprev_lhead [chain_simps]: "distinct xs \<Longrightarrow> lprev xs (lhead xs) = -1"
  by (cases xs) (auto simp: lprev_notin dest: lhead_in)

lemma lnext_eq_iff:
  "distinct xs \<Longrightarrow> -1 \<notin> set xs \<Longrightarrow> x \<in> set xs \<Longrightarrow> y \<in> set xs \<Longrightarrow> lnext xs y = x \<longleftrightarrow> lprev xs x = y"
proof (induction xs)
  case (Cons a xs)
  show ?case
  proof (cases "xs = []")
    case False
    have h: "lhead xs \<in> set xs" using False by (rule lhead_in)
    have p: "lprev xs (lhead xs) = -1" using Cons.prems by (simp add: lprev_lhead)
    consider "y = a" | "y \<noteq> a" "x = a" | "y \<noteq> a" "x \<noteq> a" by blast
    then show ?thesis
    proof cases
      case 1
      then show ?thesis
        using Cons.prems h lprev_in [of xs x] by (auto simp: lprev_notin)
    next
      case 2
      then show ?thesis
        using Cons.prems h lnext_in [of xs y] by (auto simp: lprev_notin)
    next
      case 3
      then show ?thesis using Cons h p by auto
    qed
  qed (use Cons.prems in auto)
qed simp

lemma lhead_remove1:
  "distinct xs \<Longrightarrow> lhead (remove1 x xs) = (if lhead xs = x \<and> xs \<noteq> [] then lnext xs x else lhead xs)"
  by (cases xs) auto

lemma lnext_remove1:
  "distinct xs \<Longrightarrow> -1 \<notin> set xs \<Longrightarrow> x \<in> set xs \<Longrightarrow> y \<noteq> x \<Longrightarrow>
     lnext (remove1 x xs) y = (if lnext xs y = x then lnext xs x else lnext xs y)"
proof (induction xs)
  case (Cons a xs)
  then show ?case
    using lnext_in [of xs y] by (cases "a = x") (auto simp: lhead_remove1 lnext_notin)
qed simp

lemma lprev_remove1:
  "distinct xs \<Longrightarrow> -1 \<notin> set xs \<Longrightarrow> x \<in> set xs \<Longrightarrow> y \<noteq> x \<Longrightarrow>
     lprev (remove1 x xs) y = (if lprev xs y = x then lprev xs x else lprev xs y)"
proof (induction xs)
  case (Cons a xs)
  consider "a = x" | b ys where "a \<noteq> x" "xs = b # ys" "b = x" | b ys where "a \<noteq> x" "xs = b # ys" "b \<noteq> x"
    using Cons.prems by (cases xs) auto
  then show ?case
  proof cases
    case 1
    then show ?thesis using Cons.prems lprev_in [of xs y]
      by (auto simp: lprev_notin lprev_lhead dest: lhead_in)
  next
    case 2
    then show ?thesis using Cons.prems lprev_in [of ys y] lprev_in [of ys x]
      by (auto simp: lprev_notin dest: lhead_in)
  next
    case 3
    then have "lprev (remove1 x xs) y = (if lprev xs y = x then lprev xs x else lprev xs y)"
      using Cons by simp
    moreover have "x \<in> set xs" using 3 Cons.prems by auto
    ultimately show ?thesis using 3 Cons.prems by auto
  qed
qed simp

lemma llast_remove1:
  "distinct xs \<Longrightarrow> -1 \<notin> set xs \<Longrightarrow> x \<in> set xs \<Longrightarrow>
     llast (remove1 x xs) = (if llast xs = x then lprev xs x else llast xs)"
proof (induction xs)
  case (Cons a xs)
  then show ?case
    by (cases xs) (auto simp: lprev_notin dest: llast_in split: if_splits)
qed simp

lemma lnext_neq: "distinct xs \<Longrightarrow> -1 \<notin> set xs \<Longrightarrow> x \<in> set xs \<Longrightarrow> lnext xs x \<noteq> x"
proof (induction xs)
  case (Cons a xs)
  then show ?case using lhead_in [of xs] by (cases "xs = []") auto
qed simp

lemma lprev_neq: "distinct xs \<Longrightarrow> -1 \<notin> set xs \<Longrightarrow> x \<in> set xs \<Longrightarrow> lprev xs x \<noteq> x"
  using lnext_eq_iff [of xs x x] lnext_neq [of xs x] by auto

lemma lprev_eq_invalid: "distinct xs \<Longrightarrow> -1 \<notin> set xs \<Longrightarrow> x \<in> set xs \<Longrightarrow> lprev xs x = -1 \<longleftrightarrow> lhead xs = x"
proof (induction xs)
  case (Cons a xs)
  then show ?case using lhead_in [of xs] by (cases "xs = []") (auto simp: lprev_notin)
qed simp

lemma lnext_eq_invalid: "distinct xs \<Longrightarrow> -1 \<notin> set xs \<Longrightarrow> x \<in> set xs \<Longrightarrow> lnext xs x = -1 \<longleftrightarrow> llast xs = x"
proof (induction xs)
  case (Cons a xs)
  then show ?case using llast_in [of xs] lhead_in [of xs] by (cases "xs = []") auto
qed simp


text \<open>The same, by the neighbours of the removed handle.\<close>

lemma lnext_unlink:
  assumes "distinct xs" "-1 \<notin> set xs" "x \<in> set xs" "y \<noteq> x" "y \<noteq> -1"
  shows "lnext (remove1 x xs) y = (if y = lprev xs x then lnext xs x else lnext xs y)"
proof (cases "y \<in> set xs")
  case True
  then show ?thesis using assms lnext_remove1 lnext_eq_iff [of xs x y] by auto
next
  case False
  then show ?thesis using assms lprev_in [of xs x] by (auto simp: lnext_notin)
qed

lemma lprev_unlink:
  assumes "distinct xs" "-1 \<notin> set xs" "x \<in> set xs" "y \<noteq> x" "y \<noteq> -1"
  shows "lprev (remove1 x xs) y = (if y = lnext xs x then lprev xs x else lprev xs y)"
proof (cases "y \<in> set xs")
  case True
  then show ?thesis using assms lprev_remove1 lnext_eq_iff [of xs y x] by auto
next
  case False
  then show ?thesis using assms lnext_in [of xs x] by (auto simp: lprev_notin)
qed

text \<open>Singly linked chains: from handle \<open>h\<close> the successor function visits exactly \<open>xs\<close>.\<close>

fun chain :: "(int \<Rightarrow> int option) \<Rightarrow> int \<Rightarrow> int list \<Rightarrow> bool" where
  "chain nx h [] \<longleftrightarrow> h = INVALID_BC_MEM_HANDLER"
| "chain nx h (x # xs) \<longleftrightarrow> h = x \<and> x \<noteq> INVALID_BC_MEM_HANDLER \<and> (\<exists>n. nx x = Some n \<and> chain nx n xs)"

lemma chain_cong: "(\<And>x. x \<in> set xs \<Longrightarrow> nx x = nx' x) \<Longrightarrow> chain nx h xs \<longleftrightarrow> chain nx' h xs"
  by (induction xs arbitrary: h) auto

lemma chain_lhead: "chain nx h xs \<Longrightarrow> h = lhead xs"
  by (cases xs) auto

lemma chain_invalid: "chain nx h xs \<Longrightarrow> -1 \<notin> set xs"
  by (induction xs arbitrary: h) auto

lemma chain_dom: "chain nx h xs \<Longrightarrow> x \<in> set xs \<Longrightarrow> nx x \<noteq> None"
  by (induction xs arbitrary: h) auto

lemma chain_lnext:
  "distinct xs \<Longrightarrow> -1 \<notin> set xs \<Longrightarrow> (\<And>x. x \<in> set xs \<Longrightarrow> nx x = Some (lnext xs x)) \<Longrightarrow> chain nx (lhead xs) xs"
proof (induction xs)
  case (Cons a xs)
  have "nx x = Some (lnext xs x)" if "x \<in> set xs" for x
    using Cons.prems(3) [of x] Cons.prems(1) that by auto
  then have "chain nx (lhead xs) xs" using Cons by auto
  then show ?case using Cons.prems by auto
qed simp

end
