(* ===== verification/ChunkAlloc.thy ===== *)
theory ChunkAlloc
  imports Prelude "HOL-Library.Signed_Division"
begin

text \<open>
  \<open>Server/ChunkAlloc.hpp\<close>, \<open>Server/ChunkAlloc.cpp\<close>: the allocator of fixed-size chunks inside a
  memory pool. A chunk is addressed by its offset from the start of the pool
  (\<open>BC_MEM_HANDLER\<close>); a C pointer into the pool is such an offset, \<open>None\<close> being \<open>NULL\<close>. The pool is a
  record of the header \<open>TChunk\<close> and of the chunk nodes at their offsets; a dereference of \<open>NULL\<close> or of
  an offset that holds no node is \<open>None\<close>. A member \<open>x_\<close> of the C++ structures is the field \<open>ca_x\<close>.
\<close>

section \<open>State\<close>

record TChunkNode =
  ca_next :: int
  ca_data :: "byte list"

record CChunkAllocator =
  ca_pool_tail :: int
  ca_chunk_total :: int
  ca_chunk_size :: int
  ca_free_total :: int
  ca_free_list :: int
  ca_chunk_nodes :: "int \<Rightarrow> TChunkNode option"

type_synonym c_ptr = "int option"

abbreviation CHUNK_ALLOCATOR_ERROR_INVALID_PARAM :: int where "CHUNK_ALLOCATOR_ERROR_INVALID_PARAM \<equiv> - 2"
abbreviation CHUNK_ALLOCATOR_ERROR_DATA_VERIFY_FAIL :: int where "CHUNK_ALLOCATOR_ERROR_DATA_VERIFY_FAIL \<equiv> - 4"

text \<open>\<open>sizeof(TChunkNode)\<close> is 9 and \<open>sizeof(TChunk)\<close> is 29, both structures being packed.\<close>

definition ca_get_chunk_size :: "int \<Rightarrow> int \<Rightarrow> int" where
  "ca_get_chunk_size n_chunks chunk_size = 9 - 1 + chunk_size"

definition ca_get_pool_size :: "int \<Rightarrow> int \<Rightarrow> int" where
  "ca_get_pool_size n_chunks chunk_size =
     (let chunk_total_size = n_chunks * ca_get_chunk_size n_chunks chunk_size;
          head_size = 29 - 9
      in head_size + chunk_total_size)"

definition ca_deref :: "CChunkAllocator \<Rightarrow> c_ptr \<Rightarrow> TChunkNode option" where
  "ca_deref a ptr = (case ptr of None \<Rightarrow> None | Some off \<Rightarrow> ca_chunk_nodes a off)"

definition ca_store :: "c_ptr \<Rightarrow> (TChunkNode \<Rightarrow> TChunkNode) \<Rightarrow> CChunkAllocator \<Rightarrow> CChunkAllocator option" where
  "ca_store ptr f a =
     do { off \<leftarrow> ptr; nd \<leftarrow> ca_chunk_nodes a off; Some (a\<lparr>ca_chunk_nodes := (ca_chunk_nodes a)(off \<mapsto> f nd)\<rparr>) }"

section \<open>Operations\<close>

definition ca_handler2ptr :: "int \<Rightarrow> c_ptr" where
  "ca_handler2ptr handler = (if handler = INVALID_BC_MEM_HANDLER then None else Some handler)"

definition ca_ptr2handler :: "CChunkAllocator \<Rightarrow> c_ptr \<Rightarrow> int" where
  "ca_ptr2handler a ptr =
     (case ptr of None \<Rightarrow> INVALID_BC_MEM_HANDLER
      | Some off \<Rightarrow> if off < 0 \<or> off \<ge> ca_pool_tail a then INVALID_BC_MEM_HANDLER else off)"

definition ca_free_list_insert :: "c_ptr \<Rightarrow> CChunkAllocator \<Rightarrow> CChunkAllocator option" where
  "ca_free_list_insert node a =
     do {
       a \<leftarrow> ca_store node (ca_next_update (\<lambda>_. ca_free_list a)) a;
       let node_hdr = ca_ptr2handler a node;
       Some (a\<lparr>ca_free_list := node_hdr\<rparr>)
     }"

definition ca_free_list_remove :: "CChunkAllocator \<Rightarrow> (c_ptr \<times> CChunkAllocator) option" where
  "ca_free_list_remove a =
     (if ca_free_list a = INVALID_BC_MEM_HANDLER then Some (None, a)
      else do {
        let head_node = ca_handler2ptr (ca_free_list a);
        nd \<leftarrow> ca_deref a head_node;
        let a = a\<lparr>ca_free_list := ca_next nd\<rparr>;
        a \<leftarrow> ca_store head_node (ca_next_update (\<lambda>_. INVALID_BC_MEM_HANDLER)) a;
        Some (head_node, a)
      })"

text \<open>The loop of \<open>malloc\<close>; a \<open>NULL\<close> node is dereferenced.\<close>

fun ca_malloc_loop :: "nat \<Rightarrow> c_ptr \<Rightarrow> CChunkAllocator \<Rightarrow> (c_ptr \<times> CChunkAllocator) option" where
  "ca_malloc_loop 0 head a = Some (head, a)"
| "ca_malloc_loop (Suc i) head a =
     do {
       (node, a) \<leftarrow> ca_free_list_remove a;
       let head_hdr = ca_ptr2handler a head;
       a \<leftarrow> ca_store node (ca_next_update (\<lambda>_. head_hdr)) a;
       ca_malloc_loop i node a
     }"

definition ca_malloc :: "int \<Rightarrow> CChunkAllocator \<Rightarrow> (int \<times> CChunkAllocator) option" where
  "ca_malloc chunk_num a =
     (if ca_free_total a < chunk_num then Some (INVALID_BC_MEM_HANDLER, a)
      else do {
        (head, a) \<leftarrow> ca_malloc_loop (nat chunk_num) None a;
        let a = a\<lparr>ca_free_total := ca_free_total a - chunk_num\<rparr>;
        Some (ca_ptr2handler a head, a)
      })"

partial_function (option) ca_free :: "int \<Rightarrow> CChunkAllocator \<Rightarrow> CChunkAllocator option" where
  "ca_free chunk_hdr a =
     (if chunk_hdr = INVALID_BC_MEM_HANDLER then Some a
      else do {
        let node = ca_handler2ptr chunk_hdr;
        nd \<leftarrow> ca_deref a node;
        let next_chunk_hdr = ca_next nd;
        a \<leftarrow> ca_free_list_insert node a;
        let a = a\<lparr>ca_free_total := ca_free_total a + 1\<rparr>;
        ca_free next_chunk_hdr a
      })"

fun ca_init_loop :: "nat \<Rightarrow> int \<Rightarrow> int \<Rightarrow> int \<Rightarrow> CChunkAllocator \<Rightarrow> CChunkAllocator option" where
  "ca_init_loop 0 i n_chunks chunk_size a = Some a"
| "ca_init_loop (Suc k) i n_chunks chunk_size a =
     do {
       let offset = i * ca_get_chunk_size n_chunks chunk_size;
       let chunk_node = Some (20 + offset);
       a \<leftarrow> ca_store chunk_node (ca_next_update (\<lambda>_. INVALID_BC_MEM_HANDLER)) a;
       a \<leftarrow> ca_free_list_insert chunk_node a;
       ca_init_loop k (i + 1) n_chunks chunk_size a
     }"

definition ca_init_pool_data :: "int \<Rightarrow> int \<Rightarrow> CChunkAllocator \<Rightarrow> CChunkAllocator option" where
  "ca_init_pool_data n_chunks chunk_size a =
     do {
       let a = a\<lparr>ca_free_list := INVALID_BC_MEM_HANDLER\<rparr>;
       a \<leftarrow> ca_init_loop (nat n_chunks) 0 n_chunks chunk_size a;
       Some (a\<lparr>ca_chunk_total := n_chunks, ca_chunk_size := chunk_size, ca_free_total := n_chunks\<rparr>)
     }"

partial_function (option) ca_count_free :: "CChunkAllocator \<Rightarrow> c_ptr \<Rightarrow> int \<Rightarrow> int option" where
  "ca_count_free a free_node free_total =
     (if free_node = None then Some free_total
      else do {
        nd \<leftarrow> ca_deref a free_node;
        ca_count_free a (ca_handler2ptr (ca_next nd)) (free_total + 1)
      })"

definition ca_verify_pool_data :: "int \<Rightarrow> int \<Rightarrow> CChunkAllocator \<Rightarrow> int option" where
  "ca_verify_pool_data n_chunks chunk_size a =
     (if ca_chunk_size a \<noteq> chunk_size \<or> ca_chunk_total a \<noteq> n_chunks
      then Some CHUNK_ALLOCATOR_ERROR_DATA_VERIFY_FAIL
      else do {
        free_total \<leftarrow> ca_count_free a (ca_handler2ptr (ca_free_list a)) 0;
        Some (if free_total \<noteq> ca_free_total a then CHUNK_ALLOCATOR_ERROR_DATA_VERIFY_FAIL else 0)
      })"

text \<open>\<open>open\<close> places the allocator on a pool. The nodes of the pool are those of a layout of
  \<open>n_chunks\<close> chunks of \<open>chunk_size\<close> bytes, whatever they hold.\<close>

definition ca_open :: "bool \<Rightarrow> int \<Rightarrow> int \<Rightarrow> CChunkAllocator \<Rightarrow> (int \<times> CChunkAllocator) option" where
  "ca_open init n_chunks chunk_size a =
     do {
       let pool_size = ca_get_pool_size n_chunks chunk_size;
       let a = a\<lparr>ca_pool_tail := pool_size\<rparr>;
       if init then do { a \<leftarrow> ca_init_pool_data n_chunks chunk_size a; Some (0, a) }
       else do { ret \<leftarrow> ca_verify_pool_data n_chunks chunk_size a; Some (ret, a) }
     }"

definition ca_get_chunk_num :: "int \<Rightarrow> CChunkAllocator \<Rightarrow> int option" where
  "ca_get_chunk_num data_len a =
     (if ca_chunk_size a = 0 then None
      else let num = data_len sdiv ca_chunk_size a in
        Some (if data_len smod ca_chunk_size a \<noteq> 0 then num + 1 else num))"

definition ca_get_used_chunk_num :: "CChunkAllocator \<Rightarrow> int" where
  "ca_get_used_chunk_num a = ca_chunk_total a - ca_free_total a"

definition ca_get_free_chunk_num :: "CChunkAllocator \<Rightarrow> int" where
  "ca_get_free_chunk_num a = ca_free_total a"

text \<open>\<open>memcpy\<close> of \<open>n\<close> bytes out of and into the data of a chunk: a negative length or one beyond the
  chunk is undefined.\<close>

definition chunk_get :: "int \<Rightarrow> TChunkNode \<Rightarrow> byte list option" where
  "chunk_get n nd = (if 0 \<le> n \<and> n \<le> int (length (ca_data nd)) then Some (take (nat n) (ca_data nd)) else None)"

definition chunk_put :: "int \<Rightarrow> byte list \<Rightarrow> TChunkNode \<Rightarrow> TChunkNode option" where
  "chunk_put n bs nd =
     (if 0 \<le> n \<and> n \<le> int (length (ca_data nd)) \<and> n \<le> int (length bs)
      then Some (nd\<lparr>ca_data := take (nat n) bs @ drop (nat n) (ca_data nd)\<rparr>) else None)"

partial_function (option) ca_merge_loop :: "CChunkAllocator \<Rightarrow> int \<Rightarrow> int \<Rightarrow> byte list \<Rightarrow> byte list option" where
  "ca_merge_loop a chunk_node_hdr remain_len out =
     (if chunk_node_hdr = INVALID_BC_MEM_HANDLER then Some out
      else do {
        let chunk_node = ca_handler2ptr chunk_node_hdr;
        nd \<leftarrow> ca_deref a chunk_node;
        if remain_len < ca_chunk_size a
        then do { bs \<leftarrow> chunk_get remain_len nd; Some (out @ bs) }
        else do {
          bs \<leftarrow> chunk_get (ca_chunk_size a) nd;
          ca_merge_loop a (ca_next nd) (remain_len - ca_chunk_size a) (out @ bs)
        }
      })"

text \<open>\<open>merge\<close> returns its code, the bytes written to \<open>data_buf\<close> and the final \<open>*data_len\<close>.\<close>

definition ca_merge :: "int \<Rightarrow> int \<Rightarrow> int \<Rightarrow> CChunkAllocator \<Rightarrow> (int \<times> byte list \<times> int) option" where
  "ca_merge chunk_node_hdr chunk_len data_len a =
     (if data_len < chunk_len then Some (CHUNK_ALLOCATOR_ERROR_INVALID_PARAM, [], chunk_len)
      else do {
        out \<leftarrow> ca_merge_loop a chunk_node_hdr chunk_len [];
        Some (0, out, chunk_len)
      })"

partial_function (option) ca_split_loop :: "c_ptr \<Rightarrow> byte list \<Rightarrow> int \<Rightarrow> CChunkAllocator \<Rightarrow> CChunkAllocator option" where
  "ca_split_loop chunk_node read_pos remain_len a =
     (if chunk_node = None then Some a
      else do {
        nd \<leftarrow> ca_deref a chunk_node;
        if remain_len < ca_chunk_size a
        then do { nd' \<leftarrow> chunk_put remain_len read_pos nd; ca_store chunk_node (\<lambda>_. nd') a }
        else do {
          nd' \<leftarrow> chunk_put (ca_chunk_size a) read_pos nd;
          a' \<leftarrow> ca_store chunk_node (\<lambda>_. nd') a;
          ca_split_loop (ca_handler2ptr (ca_next nd)) (drop (nat (ca_chunk_size a)) read_pos)
            (remain_len - ca_chunk_size a) a'
        }
      })"

definition ca_split :: "int \<Rightarrow> byte list \<Rightarrow> int \<Rightarrow> CChunkAllocator \<Rightarrow> CChunkAllocator option" where
  "ca_split head_hdr data_buf data_len a = ca_split_loop (ca_handler2ptr head_hdr) data_buf data_len a"

section \<open>Invariant\<close>

text \<open>The pool splits into the free list and the allocated chains: \<open>fl\<close> lists the free chunks
  in order and \<open>C\<close> maps the head of every allocated chain to its chunks.\<close>

definition ca_nx :: "CChunkAllocator \<Rightarrow> int \<Rightarrow> int option" where
  "ca_nx a x = map_option ca_next (ca_chunk_nodes a x)"

definition ca_dt :: "CChunkAllocator \<Rightarrow> int \<Rightarrow> byte list option" where
  "ca_dt a x = map_option ca_data (ca_chunk_nodes a x)"

definition ca_blob :: "CChunkAllocator \<Rightarrow> int list \<Rightarrow> byte list" where
  "ca_blob a xs = concat (map (\<lambda>x. the (ca_dt a x)) xs)"

definition ca_wf :: "CChunkAllocator \<Rightarrow> bool" where
  "ca_wf a \<longleftrightarrow> 0 < ca_chunk_size a \<and>
     (\<forall>x d. ca_dt a x = Some d \<longrightarrow> 0 \<le> x \<and> x < ca_pool_tail a \<and> int (length d) = ca_chunk_size a)"

definition ca_inv :: "CChunkAllocator \<Rightarrow> int list \<Rightarrow> (int \<Rightarrow> int list option) \<Rightarrow> bool" where
  "ca_inv a fl C \<longleftrightarrow> ca_wf a \<and>
     distinct fl \<and> chain (ca_nx a) (ca_free_list a) fl \<and> ca_free_total a = int (length fl) \<and>
     (\<forall>h xs. C h = Some xs \<longrightarrow> xs \<noteq> [] \<and> distinct xs \<and> chain (ca_nx a) h xs \<and> set xs \<inter> set fl = {}) \<and>
     (\<forall>h h' xs xs'. C h = Some xs \<longrightarrow> C h' = Some xs' \<longrightarrow> h \<noteq> h' \<longrightarrow> set xs \<inter> set xs' = {})"

text \<open>Two pools with the same layout and data that differ at most in the links of the chunks in \<open>S\<close>.\<close>

definition ca_relinked :: "int set \<Rightarrow> CChunkAllocator \<Rightarrow> CChunkAllocator \<Rightarrow> bool" where
  "ca_relinked S a a' \<longleftrightarrow> ca_pool_tail a' = ca_pool_tail a \<and> ca_chunk_total a' = ca_chunk_total a \<and>
     ca_chunk_size a' = ca_chunk_size a \<and> ca_dt a' = ca_dt a \<and> (\<forall>x. x \<notin> S \<longrightarrow> ca_nx a' x = ca_nx a x)"

lemma ca_relinked_refl: "ca_relinked S a a"
  by (simp add: ca_relinked_def)

lemma ca_relinked_trans: "ca_relinked S a b \<Longrightarrow> ca_relinked T b c \<Longrightarrow> S \<subseteq> U \<Longrightarrow> T \<subseteq> U \<Longrightarrow> ca_relinked U a c"
  unfolding ca_relinked_def by (metis subsetD)

lemma ca_nx_header [simp]:
  "ca_nx (a\<lparr>ca_free_list := v\<rparr>) = ca_nx a" "ca_nx (a\<lparr>ca_free_total := n\<rparr>) = ca_nx a"
  "ca_dt (a\<lparr>ca_free_list := v\<rparr>) = ca_dt a" "ca_dt (a\<lparr>ca_free_total := n\<rparr>) = ca_dt a"
  by (simp_all add: fun_eq_iff ca_nx_def ca_dt_def)

lemma ca_relinked_wf: "ca_relinked S a a' \<Longrightarrow> ca_wf a \<Longrightarrow> ca_wf a'"
  by (simp add: ca_relinked_def ca_wf_def)

lemma ca_relinked_chain: "ca_relinked S a a' \<Longrightarrow> set xs \<inter> S = {} \<Longrightarrow> chain (ca_nx a') h xs = chain (ca_nx a) h xs"
  unfolding ca_relinked_def by (intro chain_cong) auto

lemma ca_relinked_blob: "ca_relinked S a a' \<Longrightarrow> ca_blob a' = ca_blob a"
  by (rule ext) (simp add: ca_relinked_def ca_blob_def)

text \<open>Setting the link of one chunk.\<close>

lemma ca_store_next:
  assumes "ca_nx a x = Some n"
  shows "\<exists>a'. ca_store (Some x) (ca_next_update (\<lambda>_. v)) a = Some a' \<and> ca_relinked {x} a a' \<and>
     ca_nx a' x = Some v \<and> ca_free_list a' = ca_free_list a \<and> ca_free_total a' = ca_free_total a"
  using assms by (auto simp: ca_store_def ca_nx_def ca_relinked_def ca_dt_def fun_eq_iff)

lemma ca_wf_handle:
  assumes "ca_wf a" "ca_nx a x = Some n"
  shows "ca_ptr2handler a (Some x) = x" "x \<noteq> -1"
proof -
  obtain d where "ca_dt a x = Some d" using assms(2) by (auto simp: ca_nx_def ca_dt_def)
  then have "0 \<le> x" "x < ca_pool_tail a" using assms(1) by (auto simp: ca_wf_def)
  then show "ca_ptr2handler a (Some x) = x" "x \<noteq> -1" by (auto simp: ca_ptr2handler_def)
qed

lemma ca_free_list_insert_link:
  assumes "0 \<le> x" "x < ca_pool_tail a" "ca_nx a x = Some n" "chain (ca_nx a) (ca_free_list a) fl" "x \<notin> set fl"
  shows "\<exists>a'. ca_free_list_insert (Some x) a = Some a' \<and> ca_relinked {x} a a' \<and>
     chain (ca_nx a') (ca_free_list a') (x # fl) \<and> ca_free_total a' = ca_free_total a"
proof -
  obtain a' where a': "ca_store (Some x) (ca_next_update (\<lambda>_. ca_free_list a)) a = Some a'"
      "ca_relinked {x} a a'" "ca_nx a' x = Some (ca_free_list a)" "ca_free_total a' = ca_free_total a"
    using ca_store_next [OF assms(3), of "ca_free_list a"] by auto
  have "chain (ca_nx a') (ca_free_list a) fl"
    using ca_relinked_chain [OF a'(2)] assms(4,5) by simp
  moreover have "ca_ptr2handler a' (Some x) = x"
    using assms(1,2) a'(2) by (simp add: ca_relinked_def ca_ptr2handler_def)
  ultimately show ?thesis
    using a' assms(1) by (simp add: ca_free_list_insert_def ca_relinked_def)
qed

lemma ca_free_list_insert_ok:
  assumes "ca_wf a" "ca_nx a x = Some n" "chain (ca_nx a) (ca_free_list a) fl" "x \<notin> set fl"
  shows "\<exists>a'. ca_free_list_insert (Some x) a = Some a' \<and> ca_relinked {x} a a' \<and>
     chain (ca_nx a') (ca_free_list a') (x # fl) \<and> ca_free_total a' = ca_free_total a"
proof -
  obtain d where "ca_dt a x = Some d" using assms(2) by (auto simp: ca_nx_def ca_dt_def)
  then have "0 \<le> x" "x < ca_pool_tail a" using assms(1) by (auto simp: ca_wf_def)
  then show ?thesis using ca_free_list_insert_link assms(2-) by blast
qed

lemma ca_free_list_remove_ok:
  assumes "chain (ca_nx a) (ca_free_list a) (x # fl)" "x \<notin> set fl"
  shows "\<exists>a'. ca_free_list_remove a = Some (Some x, a') \<and> ca_relinked {x} a a' \<and>
     chain (ca_nx a') (ca_free_list a') fl \<and> ca_nx a' x = Some (-1) \<and> ca_free_total a' = ca_free_total a"
proof -
  obtain n where n: "ca_nx a x = Some n" "chain (ca_nx a) n fl" "ca_free_list a = x" "x \<noteq> -1"
    using assms(1) by auto
  let ?a = "a\<lparr>ca_free_list := n\<rparr>"
  have nx: "ca_nx ?a = ca_nx a" by (simp add: fun_eq_iff ca_nx_def)
  obtain a' where a': "ca_store (Some x) (ca_next_update (\<lambda>_. -1)) ?a = Some a'"
      "ca_relinked {x} ?a a'" "ca_nx a' x = Some (-1)" "ca_free_list a' = n" "ca_free_total a' = ca_free_total a"
    using ca_store_next [of ?a x n "-1"] n(1) nx by auto
  have "chain (ca_nx a') n fl" using ca_relinked_chain [OF a'(2)] n(2) assms(2) nx by simp
  moreover obtain nd where "ca_chunk_nodes a x = Some nd" "ca_next nd = n"
    using n(1) by (auto simp: ca_nx_def)
  ultimately show ?thesis
    using a' n by (simp add: ca_free_list_remove_def ca_handler2ptr_def ca_deref_def ca_relinked_def)
qed

definition ptr_of :: "int list \<Rightarrow> c_ptr" where
  "ptr_of xs = (case xs of [] \<Rightarrow> None | x # _ \<Rightarrow> Some x)"

lemma ca_malloc_loop_ok:
  assumes "ca_wf a" "distinct fl" "chain (ca_nx a) (ca_free_list a) fl" "k \<le> length fl"
    "chain (ca_nx a) (lhead xs) xs" "set xs \<inter> set fl = {}"
  shows "\<exists>a'. ca_malloc_loop k (ptr_of xs) a = Some (ptr_of (rev (take k fl) @ xs), a') \<and>
     ca_relinked (set (take k fl)) a a' \<and> chain (ca_nx a') (ca_free_list a') (drop k fl) \<and>
     chain (ca_nx a') (lhead (rev (take k fl) @ xs)) (rev (take k fl) @ xs) \<and> ca_free_total a' = ca_free_total a"
  using assms
proof (induction k arbitrary: fl xs a)
  case 0
  then show ?case by (simp add: ca_relinked_refl)
next
  case (Suc k)
  obtain x gl where fl: "fl = x # gl" using Suc.prems by (cases fl) auto
  obtain a1 where a1: "ca_free_list_remove a = Some (Some x, a1)" "ca_relinked {x} a a1"
      "chain (ca_nx a1) (ca_free_list a1) gl" "ca_nx a1 x = Some (-1)" "ca_free_total a1 = ca_free_total a"
    using ca_free_list_remove_ok [of a x gl] Suc.prems fl by auto
  have wf1: "ca_wf a1" using a1(2) Suc.prems(1) ca_relinked_wf by blast
  have xs1: "chain (ca_nx a1) (lhead xs) xs"
    using ca_relinked_chain [OF a1(2)] Suc.prems fl by simp
  have hd: "ca_ptr2handler a1 (ptr_of xs) = lhead xs"
    using xs1 wf1 ca_wf_handle(1) [OF wf1, of "lhead xs"]
    by (cases xs) (auto simp: ptr_of_def ca_ptr2handler_def)
  obtain a2 where a2: "ca_store (Some x) (ca_next_update (\<lambda>_. lhead xs)) a1 = Some a2"
      "ca_relinked {x} a1 a2" "ca_nx a2 x = Some (lhead xs)" "ca_free_list a2 = ca_free_list a1"
      "ca_free_total a2 = ca_free_total a1"
    using ca_store_next [OF a1(4)] by auto
  have wf2: "ca_wf a2" using a2(2) wf1 ca_relinked_wf by blast
  have xs2: "chain (ca_nx a2) x (x # xs)"
    using ca_relinked_chain [OF a2(2)] xs1 a2(3) Suc.prems fl ca_wf_handle(2) [OF wf2 a2(3)] by auto
  have gl2: "chain (ca_nx a2) (ca_free_list a2) gl"
    using ca_relinked_chain [OF a2(2)] a1(3) a2(4) Suc.prems fl by simp
  obtain a' where a': "ca_malloc_loop k (ptr_of (x # xs)) a2 = Some (ptr_of (rev (take k gl) @ x # xs), a')"
      "ca_relinked (set (take k gl)) a2 a'" "chain (ca_nx a') (ca_free_list a') (drop k gl)"
      "chain (ca_nx a') (lhead (rev (take k gl) @ x # xs)) (rev (take k gl) @ x # xs)"
      "ca_free_total a' = ca_free_total a2"
    using Suc.IH [OF wf2 _ gl2 _ _, of "x # xs"] Suc.prems fl xs2 by auto
  have "ca_relinked (set (take (Suc k) fl)) a a'"
    using ca_relinked_trans [OF ca_relinked_trans [OF a1(2) a2(2) subset_refl subset_refl] a'(2)] fl by auto
  then show ?case
    using a1 a2 a' hd fl by (auto simp: ptr_of_def)
qed

lemma ca_node_of:
  assumes "ca_nx a x = Some n"
  obtains nd where "ca_chunk_nodes a x = Some nd" "ca_next nd = n" "ca_dt a x = Some (ca_data nd)"
  using assms by (auto simp: ca_nx_def ca_dt_def)

lemma ca_free_ok:
  assumes "ca_wf a" "distinct xs" "chain (ca_nx a) h xs" "chain (ca_nx a) (ca_free_list a) fl" "set xs \<inter> set fl = {}"
  shows "\<exists>a'. ca_free h a = Some a' \<and> ca_relinked (set xs) a a' \<and>
     chain (ca_nx a') (ca_free_list a') (rev xs @ fl) \<and> ca_free_total a' = ca_free_total a + int (length xs)"
  using assms
proof (induction xs arbitrary: h fl a)
  case Nil
  then show ?case by (subst ca_free.simps) (simp add: ca_relinked_refl)
next
  case (Cons x xs)
  obtain n where n: "h = x" "x \<noteq> -1" "ca_nx a x = Some n" "chain (ca_nx a) n xs"
    using Cons.prems(3) by auto
  obtain nd where nd: "ca_chunk_nodes a x = Some nd" "ca_next nd = n" using ca_node_of [OF n(3)] by metis
  obtain a1 where a1: "ca_free_list_insert (Some x) a = Some a1" "ca_relinked {x} a a1"
      "chain (ca_nx a1) (ca_free_list a1) (x # fl)" "ca_free_total a1 = ca_free_total a"
    using ca_free_list_insert_ok [OF Cons.prems(1) n(3) Cons.prems(4)] Cons.prems(5) by auto
  let ?a = "a1\<lparr>ca_free_total := ca_free_total a1 + 1\<rparr>"
  have r: "ca_relinked {x} a ?a" using a1(2) by (simp add: ca_relinked_def)
  have wf: "ca_wf ?a" using ca_relinked_wf [OF r Cons.prems(1)] .
  have ch: "chain (ca_nx ?a) n xs" using ca_relinked_chain [OF r] n(4) Cons.prems(2) by simp
  have dj: "set xs \<inter> set (x # fl) = {}" using Cons.prems(2,5) by auto
  have fl: "chain (ca_nx ?a) (ca_free_list ?a) (x # fl)" using a1(3) by simp
  obtain a' where a': "ca_free n ?a = Some a'" "ca_relinked (set xs) ?a a'"
      "chain (ca_nx a') (ca_free_list a') (rev xs @ x # fl)" "ca_free_total a' = ca_free_total ?a + int (length xs)"
    using Cons.IH [OF wf _ ch fl dj] Cons.prems(2) by auto
  have "ca_relinked (set (x # xs)) a a'" by (rule ca_relinked_trans [OF r a'(2)]) auto
  moreover have "ca_free h a = Some a'"
    using n(1,2) nd a1(1) a'(1) by (subst ca_free.simps) (simp add: ca_handler2ptr_def ca_deref_def)
  ultimately show ?case using a' a1(4) by auto
qed

lemma ca_blob_simps [simp]: "ca_blob a [] = []" "ca_blob a (x # xs) = the (ca_dt a x) @ ca_blob a xs"
  by (simp_all add: ca_blob_def)

lemma ca_blob_length: "ca_wf a \<Longrightarrow> chain (ca_nx a) h xs \<Longrightarrow> int (length (ca_blob a xs)) = ca_chunk_size a * int (length xs)"
  by (induction xs arbitrary: h) (auto simp: ca_wf_def algebra_simps elim!: ca_node_of)

lemma ca_chunk_length:
  "ca_wf a \<Longrightarrow> ca_dt a x = Some d \<Longrightarrow> int (length d) = ca_chunk_size a"
  by (auto simp: ca_wf_def)

lemma ca_merge_loop_ok:
  assumes "ca_wf a" "chain (ca_nx a) h xs" "0 \<le> r" "r \<le> int (length (ca_blob a xs))"
  shows "ca_merge_loop a h r out = Some (out @ take (nat r) (ca_blob a xs))"
  using assms(2-)
proof (induction xs arbitrary: h r out)
  case Nil
  then show ?case by (subst ca_merge_loop.simps) simp
next
  case (Cons x xs)
  obtain n where n: "h = x" "x \<noteq> -1" "ca_nx a x = Some n" "chain (ca_nx a) n xs"
    using Cons.prems(1) by auto
  obtain nd where nd: "ca_chunk_nodes a x = Some nd" "ca_next nd = n" "ca_dt a x = Some (ca_data nd)"
    using ca_node_of [OF n(3)] by metis
  have len: "int (length (ca_data nd)) = ca_chunk_size a" using ca_chunk_length [OF assms(1) nd(3)] .
  show ?case
  proof (cases "r < ca_chunk_size a")
    case True
    then show ?thesis using n nd len Cons.prems(2)
      by (subst ca_merge_loop.simps) (simp add: ca_handler2ptr_def ca_deref_def chunk_get_def nat_le_iff)
  next
    case False
    then have "ca_merge_loop a n (r - ca_chunk_size a) (out @ ca_data nd) =
        Some ((out @ ca_data nd) @ take (nat (r - ca_chunk_size a)) (ca_blob a xs))"
      using Cons.prems nd len by (intro Cons.IH [OF n(4)]) auto
    moreover have "nat (r - ca_chunk_size a) = nat r - length (ca_data nd)" "length (ca_data nd) \<le> nat r"
      using len False by linarith+
    ultimately show ?thesis
      using False n nd len by (subst ca_merge_loop.simps) (simp add: ca_handler2ptr_def ca_deref_def chunk_get_def)
  qed
qed

text \<open>\<open>ca_refilled xs a a'\<close>: only the data of the chunks in \<open>xs\<close> changed.\<close>

definition ca_refilled :: "int set \<Rightarrow> CChunkAllocator \<Rightarrow> CChunkAllocator \<Rightarrow> bool" where
  "ca_refilled S a a' \<longleftrightarrow> ca_pool_tail a' = ca_pool_tail a \<and> ca_chunk_total a' = ca_chunk_total a \<and>
     ca_chunk_size a' = ca_chunk_size a \<and> ca_free_list a' = ca_free_list a \<and> ca_free_total a' = ca_free_total a \<and>
     ca_nx a' = ca_nx a \<and> (\<forall>x. x \<notin> S \<longrightarrow> ca_dt a' x = ca_dt a x) \<and> ca_wf a'"

lemma ca_refilled_trans: "ca_refilled S a b \<Longrightarrow> ca_refilled T b c \<Longrightarrow> S \<subseteq> U \<Longrightarrow> T \<subseteq> U \<Longrightarrow> ca_refilled U a c"
  unfolding ca_refilled_def by (simp, metis subsetD)

lemma ca_refilled_blob: "ca_refilled S a a' \<Longrightarrow> set xs \<inter> S = {} \<Longrightarrow> ca_blob a' xs = ca_blob a xs"
  by (induction xs) (auto simp: ca_refilled_def)

lemma ca_store_data:
  assumes "ca_wf a" "ca_chunk_nodes a x = Some nd" "chunk_put n bs nd = Some nd'"
  shows "\<exists>a'. ca_store (Some x) (\<lambda>_. nd') a = Some a' \<and> ca_refilled {x} a a' \<and>
     ca_dt a' x = Some (take (nat n) bs @ drop (nat n) (ca_data nd))"
proof -
  have nd': "nd' = nd\<lparr>ca_data := take (nat n) bs @ drop (nat n) (ca_data nd)\<rparr>"
    and n: "0 \<le> n" "n \<le> int (length (ca_data nd))" "n \<le> int (length bs)"
    using assms(3) by (auto simp: chunk_put_def split: if_splits)
  have len: "length (take (nat n) bs @ drop (nat n) (ca_data nd)) = length (ca_data nd)"
    using n by auto
  let ?a = "a\<lparr>ca_chunk_nodes := (ca_chunk_nodes a)(x \<mapsto> nd')\<rparr>"
  have dt: "ca_dt ?a = (ca_dt a)(x \<mapsto> take (nat n) bs @ drop (nat n) (ca_data nd))"
    using nd' by (auto simp: ca_dt_def fun_eq_iff)
  have old: "ca_dt a x = Some (ca_data nd)" using assms(2) by (simp add: ca_dt_def)
  have "ca_wf ?a"
    using assms(1) len old unfolding ca_wf_def dt by (auto simp del: length_append split: if_splits)
  moreover have "ca_nx ?a = ca_nx a" using nd' assms(2) by (auto simp: ca_nx_def fun_eq_iff)
  ultimately have "ca_refilled {x} a ?a" unfolding ca_refilled_def using dt by simp
  then show ?thesis using assms(2) dt by (simp add: ca_store_def)
qed

lemma ca_split_loop_ok:
  assumes "ca_wf a" "distinct xs" "chain (ca_nx a) h xs" "int (length bs) \<le> int (length (ca_blob a xs))"
  shows "\<exists>a'. ca_split_loop (ca_handler2ptr h) bs (int (length bs)) a = Some a' \<and> ca_refilled (set xs) a a' \<and>
     ca_blob a' xs = bs @ drop (length bs) (ca_blob a xs)"
  using assms
proof (induction xs arbitrary: h bs a)
  case Nil
  then show ?case
    by (subst ca_split_loop.simps) (simp add: ca_handler2ptr_def ca_refilled_def)
next
  case (Cons x xs)
  obtain n where n: "h = x" "x \<noteq> -1" "ca_nx a x = Some n" "chain (ca_nx a) n xs"
    using Cons.prems(3) by auto
  obtain nd where nd: "ca_chunk_nodes a x = Some nd" "ca_next nd = n" "ca_dt a x = Some (ca_data nd)"
    using ca_node_of [OF n(3)] by metis
  have len: "int (length (ca_data nd)) = ca_chunk_size a" using ca_chunk_length [OF Cons.prems(1) nd(3)] .
  have hp: "ca_handler2ptr h = Some x" using n by (simp add: ca_handler2ptr_def)
  show ?case
  proof (cases "int (length bs) < ca_chunk_size a")
    case True
    obtain nd' where nd': "chunk_put (int (length bs)) bs nd = Some nd'"
      using True len by (simp add: chunk_put_def)
    obtain a' where a': "ca_store (Some x) (\<lambda>_. nd') a = Some a'" "ca_refilled {x} a a'"
        "ca_dt a' x = Some (bs @ drop (length bs) (ca_data nd))"
      using ca_store_data [OF Cons.prems(1) nd(1) nd'] by auto
    have "ca_blob a' xs = ca_blob a xs" using ca_refilled_blob [OF a'(2)] Cons.prems(2) by simp
    moreover have "ca_refilled (set (x # xs)) a a'" using a'(2) by (auto simp: ca_refilled_def)
    ultimately show ?thesis
      using True hp nd nd' a' len by (subst ca_split_loop.simps) (auto simp: ca_deref_def)
  next
    case False
    obtain nd' where nd': "chunk_put (ca_chunk_size a) bs nd = Some nd'"
      using False len by (simp add: chunk_put_def)
    have z: "nat (ca_chunk_size a) = length (ca_data nd)" using len by linarith
    obtain a1 where a1: "ca_store (Some x) (\<lambda>_. nd') a = Some a1" "ca_refilled {x} a a1"
        "ca_dt a1 x = Some (take (length (ca_data nd)) bs)"
      using ca_store_data [OF Cons.prems(1) nd(1) nd'] z by auto
    let ?bs = "drop (length (ca_data nd)) bs"
    have wf1: "ca_wf a1" and nx1: "ca_nx a1 = ca_nx a" using a1(2) by (simp_all add: ca_refilled_def)
    have xs1: "ca_blob a1 xs = ca_blob a xs" using ca_refilled_blob [OF a1(2)] Cons.prems(2) by simp
    have le: "int (length ?bs) \<le> int (length (ca_blob a1 xs))"
      using Cons.prems(4) nd(3) xs1 by simp
    obtain a' where a': "ca_split_loop (ca_handler2ptr n) ?bs (int (length ?bs)) a1 = Some a'"
        "ca_refilled (set xs) a1 a'" "ca_blob a' xs = ?bs @ drop (length ?bs) (ca_blob a xs)"
      using Cons.IH [OF wf1 _ _ le, of n] Cons.prems(2) n(4) nx1 xs1 by auto
    have "ca_refilled (set (x # xs)) a a'" by (rule ca_refilled_trans [OF a1(2) a'(2)]) auto
    moreover have "ca_dt a' x = Some (take (length (ca_data nd)) bs)"
      using a'(2) a1(3) Cons.prems(2) by (auto simp: ca_refilled_def)
    moreover have "int (length ?bs) = int (length bs) - ca_chunk_size a" using False len by auto
    ultimately show ?thesis
      using False hp nd nd' a1(1) a' z len by (subst ca_split_loop.simps) (auto simp: ca_deref_def)
  qed
qed


section \<open>Interface\<close>

text \<open>
  What the hash map relies on. \<open>rep s z n B\<close> says that the pool \<open>s\<close> of chunks of \<open>z\<close> bytes has
  \<open>n\<close> free chunks and holds the blocks \<open>B\<close>, a map from the handle of a block to its bytes.
\<close>

locale chunk_store =
  fixes rep :: "'s \<Rightarrow> int \<Rightarrow> int \<Rightarrow> (int \<Rightarrow> byte list option) \<Rightarrow> bool"
    and chunk_num :: "int \<Rightarrow> 's \<Rightarrow> int option"
    and free_num :: "'s \<Rightarrow> int"
    and malloc :: "int \<Rightarrow> 's \<Rightarrow> (int \<times> 's) option"
    and free :: "int \<Rightarrow> 's \<Rightarrow> 's option"
    and split :: "int \<Rightarrow> byte list \<Rightarrow> int \<Rightarrow> 's \<Rightarrow> 's option"
    and merge :: "int \<Rightarrow> int \<Rightarrow> int \<Rightarrow> 's \<Rightarrow> (int \<times> byte list \<times> int) option"
  assumes rep_size: "rep s z n B \<Longrightarrow> 0 < z \<and> 0 \<le> n"
    and rep_handle: "rep s z n B \<Longrightarrow> B h = Some d \<Longrightarrow> h \<noteq> -1"
    and chunk_num_ok: "rep s z n B \<Longrightarrow> 0 \<le> l \<Longrightarrow> chunk_num l s = Some ((l + z - 1) div z)"
    and free_num_ok: "rep s z n B \<Longrightarrow> free_num s = n"
    and malloc_ok: "rep s z n B \<Longrightarrow> 0 < k \<Longrightarrow> k \<le> n \<Longrightarrow>
      \<exists>h d s'. malloc k s = Some (h, s') \<and> B h = None \<and> int (length d) = k * z \<and> rep s' z (n - k) (B(h \<mapsto> d))"
    and malloc_fail: "rep s z n B \<Longrightarrow> n < k \<Longrightarrow> malloc k s = Some (-1, s)"
    and split_ok: "rep s z n B \<Longrightarrow> B h = Some d \<Longrightarrow> length bs \<le> length d \<Longrightarrow>
      \<exists>s'. split h bs (int (length bs)) s = Some s' \<and> rep s' z n (B(h \<mapsto> bs @ drop (length bs) d))"
    and merge_ok: "rep s z n B \<Longrightarrow> B h = Some d \<Longrightarrow> 0 \<le> l \<Longrightarrow> l \<le> int (length d) \<Longrightarrow> l \<le> m \<Longrightarrow>
      merge h l m s = Some (0, take (nat l) d, l)"
    and merge_short: "m < l \<Longrightarrow> merge h l m s = Some (-2, [], l)"
    and free_ok: "rep s z n B \<Longrightarrow> B h = Some d \<Longrightarrow>
      \<exists>s'. free h s = Some s' \<and> rep s' z (n + int (length d) div z) (B(h := None))"
begin

text \<open>The number of chunks of \<open>l\<close> bytes is enough, and no more than needed.\<close>

lemma chunk_num_enough:
  fixes l z :: int
  assumes "0 < z"
  shows "l \<le> ((l + z - 1) div z) * z" and "((l + z - 1) div z) * z < l + z"
proof -
  have "((l + z - 1) div z) * z = l + z - 1 - (l + z - 1) mod z" by (simp add: minus_mod_eq_div_mult)
  moreover have "0 \<le> (l + z - 1) mod z" "(l + z - 1) mod z < z" using assms by simp_all
  ultimately show "l \<le> ((l + z - 1) div z) * z" "((l + z - 1) div z) * z < l + z" by linarith+
qed

lemma chunk_num_pos: "0 < z \<Longrightarrow> 0 < l \<Longrightarrow> 0 < (l + z - 1) div (z :: int)"
  by (simp add: pos_imp_zdiv_pos_iff)

text \<open>Storing a non-empty byte string in a fresh block.\<close>

lemma put_ok:
  assumes "rep s z n B" and "bs \<noteq> []" and "k = (int (length bs) + z - 1) div z" and "k \<le> n"
  shows "\<exists>h d s' s''. malloc k s = Some (h, s') \<and> h \<noteq> -1 \<and> split h bs (int (length bs)) s' = Some s'' \<and>
     B h = None \<and> int (length d) = k * z \<and> take (length bs) d = bs \<and> rep s'' z (n - k) (B(h \<mapsto> d))"
proof -
  have z: "0 < z" using rep_size [OF assms(1)] by simp
  have "0 < k" using chunk_num_pos [OF z, of "int (length bs)"] assms(2,3) by simp
  then obtain h d s' where m: "malloc k s = Some (h, s')" "B h = None" "int (length d) = k * z"
      "rep s' z (n - k) (B(h \<mapsto> d))"
    using malloc_ok [OF assms(1)] assms(4) by metis
  have le: "length bs \<le> length d"
    using chunk_num_enough(1) [OF z, of "int (length bs)"] m(3) assms(3) by simp
  obtain s'' where "split h bs (int (length bs)) s' = Some s''"
      "rep s'' z (n - k) (B(h \<mapsto> bs @ drop (length bs) d))"
    using split_ok [OF m(4), of h d bs] le by auto
  moreover have "h \<noteq> -1" using rep_handle [OF m(4), of h d] by simp
  ultimately show ?thesis using m le by (intro exI [of _ h] exI [of _ "bs @ drop (length bs) d"]) auto
qed

end

definition chunk_rep :: "CChunkAllocator \<Rightarrow> int \<Rightarrow> int \<Rightarrow> (int \<Rightarrow> byte list option) \<Rightarrow> bool" where
  "chunk_rep a z n B \<longleftrightarrow> ca_chunk_size a = z \<and>
     (\<exists>fl C. ca_inv a fl C \<and> n = int (length fl) \<and> B = (\<lambda>h. map_option (ca_blob a) (C h)))"

lemma chunk_repI:
  "ca_inv a fl C \<Longrightarrow> z = ca_chunk_size a \<Longrightarrow> n = int (length fl) \<Longrightarrow> B = (\<lambda>h. map_option (ca_blob a) (C h)) \<Longrightarrow> chunk_rep a z n B"
  by (auto simp: chunk_rep_def)

lemma chunk_repE:
  assumes "chunk_rep a z n B"
  obtains fl C where "ca_inv a fl C" "ca_chunk_size a = z" "n = int (length fl)" "B = (\<lambda>h. map_option (ca_blob a) (C h))"
  using assms by (auto simp: chunk_rep_def)

lemma ca_invD:
  assumes "ca_inv a fl C"
  shows "ca_wf a" "distinct fl" "chain (ca_nx a) (ca_free_list a) fl" "ca_free_total a = int (length fl)"
    "C h = Some xs \<Longrightarrow> xs \<noteq> []" "C h = Some xs \<Longrightarrow> distinct xs" "C h = Some xs \<Longrightarrow> chain (ca_nx a) h xs"
    "C h = Some xs \<Longrightarrow> set xs \<inter> set fl = {}"
    "C h = Some xs \<Longrightarrow> C h' = Some xs' \<Longrightarrow> h \<noteq> h' \<Longrightarrow> set xs \<inter> set xs' = {}"
  using assms unfolding ca_inv_def by blast+

lemma ca_inv_relinked:
  assumes inv: "ca_inv a fl C" and r: "ca_relinked S a a'" and S: "\<And>h xs. C' h = Some xs \<Longrightarrow> C h = Some xs \<and> set xs \<inter> S = {} \<or>
      (h = hh \<and> xs = ys)" and ys: "C' hh = None \<or> C' hh = Some ys \<and> ys \<noteq> [] \<and> distinct ys \<and> chain (ca_nx a') hh ys \<and> set ys \<inter> set fl' = {} \<and> set ys \<subseteq> S"
    and fl: "distinct fl'" "chain (ca_nx a') (ca_free_list a') fl'" "ca_free_total a' = int (length fl')"
      "set fl' \<subseteq> set fl \<union> S"
  shows "ca_inv a' fl' C'"
proof -
  have old: "xs \<noteq> [] \<and> distinct xs \<and> chain (ca_nx a') h xs \<and> set xs \<inter> set fl' = {}"
    if "C h = Some xs" "set xs \<inter> S = {}" for h xs
    using ca_invD [OF inv] that ca_relinked_chain [OF r, of xs h] fl(4) by fastforce
  show ?thesis
    unfolding ca_inv_def
  proof (intro conjI allI impI)
    show "ca_wf a'" using ca_relinked_wf [OF r ca_invD(1) [OF inv]] .
  next
    fix h xs assume "C' h = Some xs"
    then show "xs \<noteq> []" "distinct xs" "chain (ca_nx a') h xs" "set xs \<inter> set fl' = {}"
      using S old ys by (metis option.distinct(1) option.inject)+
  next
    fix h h' xs xs' assume "C' h = Some xs" "C' h' = Some xs'" "h \<noteq> h'"
    then show "set xs \<inter> set xs' = {}"
      using S [of h xs] S [of h' xs'] ys ca_invD(9) [OF inv, of h xs h' xs'] by auto
  qed (use fl in auto)
qed


lemma chain_head_in: "chain nx h xs \<Longrightarrow> xs \<noteq> [] \<Longrightarrow> h \<in> set xs"
  by (cases xs) auto

lemma ca_inv_fresh:
  assumes "ca_inv a fl C" "h \<in> set fl"
  shows "C h = None"
proof (cases "C h")
  case (Some xs)
  then have "h \<in> set xs" using ca_invD(5,7) [OF assms(1) Some] chain_head_in by blast
  then show ?thesis using ca_invD(8) [OF assms(1) Some] assms(2) by auto
qed

lemma ca_malloc_ok:
  assumes "chunk_rep a z n B" "0 < k" "k \<le> n"
  shows "\<exists>h d a'. ca_malloc k a = Some (h, a') \<and> B h = None \<and> int (length d) = k * z \<and> chunk_rep a' z (n - k) (B(h \<mapsto> d))"
proof -
  obtain fl C where inv: "ca_inv a fl C" and z: "ca_chunk_size a = z" and n: "n = int (length fl)"
    and B: "B = (\<lambda>h. map_option (ca_blob a) (C h))" using assms(1) by (rule chunk_repE)
  note I = ca_invD [OF inv]
  define j where "j = nat k"
  define ys where "ys = rev (take j fl)"
  define h where "h = lhead ys"
  have j: "j \<le> length fl" "int j = k" "0 < j" using assms n by (auto simp: j_def)
  obtain a1 where a1: "ca_malloc_loop j None a = Some (ptr_of ys, a1)" "ca_relinked (set ys) a a1"
      "chain (ca_nx a1) (ca_free_list a1) (drop j fl)" "chain (ca_nx a1) h ys" "ca_free_total a1 = ca_free_total a"
    using ca_malloc_loop_ok [OF I(1,2,3) j(1), of "[]"] by (auto simp: ptr_of_def ys_def h_def)
  let ?a = "a1\<lparr>ca_free_total := ca_free_total a1 - k\<rparr>"
  have ne: "ys \<noteq> []" using j by (auto simp: ys_def)
  have h: "h \<in> set ys" "h \<in> set fl" using ne lhead_in [OF ne] by (auto simp: h_def ys_def dest: in_set_takeD)
  have fresh: "C h = None" using ca_inv_fresh [OF inv h(2)] .
  have r: "ca_relinked (set ys) a ?a" using a1(2) by (simp add: ca_relinked_def)
  have wf1: "ca_wf ?a" using ca_relinked_wf [OF r I(1)] .
  have sub: "set ys \<subseteq> set fl" by (auto simp: ys_def dest: in_set_takeD)
  have tl: "set ys \<inter> set (drop j fl) = {}"
    using set_take_disj_set_drop_if_distinct [OF I(2), of j j] by (simp add: ys_def)
  have inv': "ca_inv ?a (drop j fl) (C(h \<mapsto> ys))"
  proof (rule ca_inv_relinked [OF inv r, where hh = h and ys = ys])
    fix h' xs assume "(C(h \<mapsto> ys)) h' = Some xs"
    then show "C h' = Some xs \<and> set xs \<inter> set ys = {} \<or> h' = h \<and> xs = ys"
      using I(8) [of h' xs] sub by (auto split: if_splits)
  qed (use a1 I(2,4) ne j tl in \<open>auto simp: ys_def distinct_rev dest: in_set_dropD\<close>)
  have "chain (ca_nx ?a) h ys" using a1(4) by simp
  then have len: "int (length (ca_blob ?a ys)) = k * z"
    using ca_blob_length [OF wf1, of h ys] j r z by (simp add: ca_relinked_def ys_def)
  have hd: "ca_ptr2handler ?a (ptr_of ys) = h"
    using a1(4) ne ca_wf_handle(1) [OF wf1, of h] by (cases ys) (auto simp: ptr_of_def h_def ca_nx_def)
  have m: "ca_malloc k a = Some (h, ?a)"
    using a1(1) hd assms(3) n I(4) j by (simp add: ca_malloc_def j_def [symmetric])
  have "chunk_rep ?a z (n - k) (B(h \<mapsto> ca_blob ?a ys))"
    by (rule chunk_repI [OF inv']) (use r z n j B ca_relinked_blob [OF r] in \<open>auto simp: ca_relinked_def intro!: ext\<close>)
  then show ?thesis using m len B fresh by auto
qed

lemma ca_free_rep:
  assumes "chunk_rep a z n B" "B h = Some d"
  shows "\<exists>a'. ca_free h a = Some a' \<and> chunk_rep a' z (n + int (length d) div z) (B(h := None))"
proof -
  obtain fl C where inv: "ca_inv a fl C" and z: "ca_chunk_size a = z" and n: "n = int (length fl)"
    and B: "B = (\<lambda>h. map_option (ca_blob a) (C h))" using assms(1) by (rule chunk_repE)
  note I = ca_invD [OF inv]
  obtain xs where xs: "C h = Some xs" "d = ca_blob a xs" using assms(2) B by auto
  obtain a' where a': "ca_free h a = Some a'" "ca_relinked (set xs) a a'"
      "chain (ca_nx a') (ca_free_list a') (rev xs @ fl)" "ca_free_total a' = ca_free_total a + int (length xs)"
    using ca_free_ok [OF I(1) I(6) [OF xs(1)] I(7) [OF xs(1)] I(3) I(8) [OF xs(1)]] by auto
  have inv': "ca_inv a' (rev xs @ fl) (C(h := None))"
  proof (rule ca_inv_relinked [OF inv a'(2), where hh = h and ys = xs])
    fix h' ys assume "(C(h := None)) h' = Some ys"
    then show "C h' = Some ys \<and> set ys \<inter> set xs = {} \<or> h' = h \<and> ys = xs"
      using I(9) [of h' ys h xs] xs(1) by (auto split: if_splits)
  qed (use a' I(2,4,6,8) xs in auto)
  have "int (length d) div z = int (length xs)"
    using ca_blob_length [OF I(1) I(7) [OF xs(1)]] xs(2) z I(1) by (simp add: ca_wf_def)
  then have "chunk_rep a' z (n + int (length d) div z) (B(h := None))"
    by (intro chunk_repI [OF inv']) (use a' z n B ca_relinked_blob [OF a'(2)] in \<open>auto simp: ca_relinked_def intro!: ext\<close>)
  then show ?thesis using a'(1) by blast
qed

lemma ca_split_rep:
  assumes "chunk_rep a z n B" "B h = Some d" "length bs \<le> length d"
  shows "\<exists>a'. ca_split h bs (int (length bs)) a = Some a' \<and> chunk_rep a' z n (B(h \<mapsto> bs @ drop (length bs) d))"
proof -
  obtain fl C where inv: "ca_inv a fl C" and z: "ca_chunk_size a = z" and n: "n = int (length fl)"
    and B: "B = (\<lambda>h. map_option (ca_blob a) (C h))" using assms(1) by (rule chunk_repE)
  note I = ca_invD [OF inv]
  obtain xs where xs: "C h = Some xs" "d = ca_blob a xs" using assms(2) B by auto
  obtain a' where a': "ca_split_loop (ca_handler2ptr h) bs (int (length bs)) a = Some a'"
      "ca_refilled (set xs) a a'" "ca_blob a' xs = bs @ drop (length bs) d"
    using ca_split_loop_ok [OF I(1) I(6) [OF xs(1)] I(7) [OF xs(1)], of bs] assms(3) xs(2) by auto
  have inv': "ca_inv a' fl C" using inv a'(2) by (simp add: ca_inv_def ca_refilled_def)
  have "ca_blob a' ys = ca_blob a ys" if "C h' = Some ys" "h' \<noteq> h" for h' ys
    using ca_refilled_blob [OF a'(2)] I(9) [of h' ys h xs] that xs(1) by simp
  then have "B(h \<mapsto> bs @ drop (length bs) d) = (\<lambda>h'. map_option (ca_blob a') (C h'))"
    using B a'(3) xs(1) by (auto simp: fun_eq_iff map_option_case split: option.split)
  then have "chunk_rep a' z n (B(h \<mapsto> bs @ drop (length bs) d))"
    by (intro chunk_repI [OF inv']) (use a' z n in \<open>auto simp: ca_refilled_def\<close>)
  then show ?thesis using a'(1) by (simp add: ca_split_def)
qed

lemma ca_merge_rep:
  assumes "chunk_rep a z n B" "B h = Some d" "0 \<le> l" "l \<le> int (length d)" "l \<le> m"
  shows "ca_merge h l m a = Some (0, take (nat l) d, l)"
proof -
  obtain fl C where inv: "ca_inv a fl C" and B: "B = (\<lambda>h. map_option (ca_blob a) (C h))"
    using assms(1) by (rule chunk_repE)
  obtain xs where xs: "C h = Some xs" "d = ca_blob a xs" using assms(2) B by auto
  show ?thesis
    using ca_merge_loop_ok [OF ca_invD(1,7) [OF inv], of h xs l "[]"] xs assms by (simp add: ca_merge_def)
qed

lemma ca_get_chunk_num_ok:
  assumes "0 < ca_chunk_size a" "0 \<le> l"
  shows "ca_get_chunk_num l a = Some ((l + ca_chunk_size a - 1) div ca_chunk_size a)"
proof -
  let ?z = "ca_chunk_size a"
  have q: "l sdiv ?z = l div ?z" "l smod ?z = l mod ?z"
    using assms by (simp_all add: signed_divide_int_def signed_modulo_int_def sgn_if)
  have "(l + ?z - 1) div ?z = l div ?z + (l mod ?z + ?z - 1) div ?z"
  proof -
    have "l + ?z - 1 = (l div ?z) * ?z + (l mod ?z + ?z - 1)" by simp
    then show ?thesis using assms by (metis div_mult_self3 less_irrefl)
  qed
  moreover have "(l mod ?z + ?z - 1) div ?z = (if l mod ?z = 0 then 0 else 1)"
  proof (cases "l mod ?z = 0")
    case False
    then have "0 < l mod ?z" "l mod ?z < ?z" 
      using assms pos_mod_sign [of ?z l] pos_mod_bound [of ?z l] by linarith+
    then have "(l mod ?z - 1) div ?z = 0" by simp
    moreover have "l mod ?z + ?z - 1 = ?z + (l mod ?z - 1)" by simp
    ultimately show ?thesis using False assms by (simp only: div_add_self1) simp
  qed (use assms in simp)
  ultimately show ?thesis using assms q by (simp add: ca_get_chunk_num_def)
qed

interpretation ca: chunk_store chunk_rep ca_get_chunk_num ca_get_free_chunk_num ca_malloc ca_free ca_split ca_merge
proof unfold_locales
  fix s z n B assume rep: "chunk_rep s z n B"
  obtain fl C where inv: "ca_inv s fl C" and z: "ca_chunk_size s = z" and n: "n = int (length fl)"
    and B: "B = (\<lambda>h. map_option (ca_blob s) (C h))" using rep by (rule chunk_repE)
  note I = ca_invD [OF inv]
  show "0 < z \<and> 0 \<le> n" using I(1) z n by (simp add: ca_wf_def)
  show "ca_get_free_chunk_num s = n" using I(4) n by (simp add: ca_get_free_chunk_num_def)
  show "ca_malloc k s = Some (-1, s)" if "n < k" for k
    using I(4) n that by (simp add: ca_malloc_def)
  show "ca_get_chunk_num l s = Some ((l + z - 1) div z)" if "0 \<le> l" for l
    using ca_get_chunk_num_ok [of s l] that I(1) z by (simp add: ca_wf_def)
  show "h \<noteq> -1" if "B h = Some d" for h d
    using that B I(5,7) chain_head_in chain_invalid by fastforce
next
  show "ca_merge h l m s = Some (-2, [], l)" if "m < l" for m l h s
    using that by (simp add: ca_merge_def)
qed (fact ca_malloc_ok ca_free_rep ca_split_rep ca_merge_rep)+

section \<open>Initialisation and verification\<close>

text \<open>A pool laid out for \<open>n\<close> chunks of \<open>z\<close> bytes, with arbitrary contents.\<close>

definition ca_layout :: "CChunkAllocator \<Rightarrow> int \<Rightarrow> int \<Rightarrow> bool" where
  "ca_layout a n z \<longleftrightarrow>
     (\<forall>x. ca_chunk_nodes a x \<noteq> None \<longleftrightarrow> (\<exists>i. 0 \<le> i \<and> i < n \<and> x = 20 + i * (8 + z))) \<and>
     (\<forall>x d. ca_dt a x = Some d \<longrightarrow> int (length d) = z)"

lemma ca_init_loop_ok:
  assumes "0 < z" "0 \<le> i" "i + int k = n" "ca_layout a n z" "ca_pool_tail a = 20 + n * (8 + z)"
    "distinct fl" "chain (ca_nx a) (ca_free_list a) fl" "\<forall>x \<in> set fl. x < 20 + i * (8 + z)"
  shows "\<exists>a' fl'. ca_init_loop k i n z a = Some a' \<and> ca_relinked UNIV a a' \<and> distinct fl' \<and>
     chain (ca_nx a') (ca_free_list a') fl' \<and> length fl' = length fl + k"
  using assms
proof (induction k arbitrary: i a fl)
  case 0
  then show ?case by (auto simp: ca_relinked_refl)
next
  case (Suc k)
  let ?x = "20 + i * (8 + z)"
  have x: "0 \<le> ?x" "?x < ca_pool_tail a" "\<exists>n. ca_nx a ?x = Some n"
    using Suc.prems by (auto simp: ca_layout_def ca_nx_def)
  obtain m where m: "ca_nx a ?x = Some m" using x(3) by blast
  obtain a1 where a1: "ca_store (Some ?x) (ca_next_update (\<lambda>_. -1)) a = Some a1" "ca_relinked {?x} a a1"
      "ca_nx a1 ?x = Some (-1)" "ca_free_list a1 = ca_free_list a"
    using ca_store_next [OF m, of "-1"] by auto
  have fl1: "chain (ca_nx a1) (ca_free_list a1) fl" "?x \<notin> set fl"
    using ca_relinked_chain [OF a1(2)] Suc.prems(7,8) a1(4) by auto
  obtain a2 where a2: "ca_free_list_insert (Some ?x) a1 = Some a2" "ca_relinked {?x} a1 a2"
      "chain (ca_nx a2) (ca_free_list a2) (?x # fl)"
    using ca_free_list_insert_link [OF x(1) _ a1(3) fl1] x(2) a1(2) by (auto simp: ca_relinked_def)
  have r: "ca_relinked {?x} a a2" by (rule ca_relinked_trans [OF a1(2) a2(2)]) auto
  have lay: "ca_layout a2 n z"
    using r Suc.prems(4) unfolding ca_layout_def ca_relinked_def by (metis ca_dt_def map_option_is_None)
  have "\<forall>x \<in> set (?x # fl). x < 20 + (i + 1) * (8 + z)"
    using Suc.prems(1,8) by (auto simp: algebra_simps)
  then obtain a' fl' where a': "ca_init_loop k (i + 1) n z a2 = Some a'" "ca_relinked UNIV a2 a'" "distinct fl'"
      "chain (ca_nx a') (ca_free_list a') fl'" "length fl' = length (?x # fl) + k"
    using Suc.IH [of "i + 1" a2 "?x # fl"] Suc.prems lay a2(3) r fl1(2) by (auto simp: ca_relinked_def)
  have "ca_relinked UNIV a a'" by (rule ca_relinked_trans [OF r a'(2)]) auto
  then show ?case
    using a1(1) a2(1) a' by (auto simp: ca_get_chunk_size_def add.commute)
qed

lemma ca_open_init:
  assumes "0 < z" "0 \<le> n" "ca_layout a n z"
  shows "\<exists>a'. ca_open True n z a = Some (0, a') \<and> chunk_rep a' z n Map.empty \<and> ca_chunk_total a' = n \<and>
     ca_pool_tail a' = ca_get_pool_size n z \<and> ca_layout a' n z"
proof -
  let ?a = "a\<lparr>ca_pool_tail := 20 + n * (8 + z), ca_free_list := -1\<rparr>"
  have lay: "ca_layout ?a n z" using assms(3) by (simp add: ca_layout_def ca_dt_def)
  obtain a1 fl where a1: "ca_init_loop (nat n) 0 n z ?a = Some a1" "ca_relinked UNIV ?a a1" "distinct fl"
      "chain (ca_nx a1) (ca_free_list a1) fl" "length fl = nat n"
    using ca_init_loop_ok [OF assms(1) _ _ lay, of 0 "nat n" "[]"] assms(2) by auto
  let ?b = "a1\<lparr>ca_chunk_total := n, ca_chunk_size := z, ca_free_total := n\<rparr>"
  have eq: "ca_nx ?b = ca_nx a1" "ca_dt ?b = ca_dt a" "ca_pool_tail a1 = 20 + n * (8 + z)"
    using a1(2) by (auto simp: ca_relinked_def ca_nx_def ca_dt_def fun_eq_iff)
  have "ca_wf ?b"
    unfolding ca_wf_def eq(2)
  proof (intro conjI allI impI)
    fix x d assume d: "ca_dt a x = Some d"
    then obtain i where i: "0 \<le> i" "i < n" "x = 20 + i * (8 + z)"
      using assms(3) unfolding ca_layout_def ca_dt_def by (metis map_option_is_None option.distinct(1))
    have "i * (8 + z) < n * (8 + z)" using i assms(1) by (intro mult_strict_right_mono) auto
    then show "0 \<le> x" "x < ca_pool_tail ?b" using i eq(3) assms(1) by auto
    show "int (length d) = ca_chunk_size ?b" using d assms(3) by (simp add: ca_layout_def)
  qed (use assms(1) in simp)
  then have "ca_inv ?b fl Map.empty"
    using a1 eq(1) assms(2) by (simp add: ca_inv_def)
  then have "chunk_rep ?b z n Map.empty"
    by (rule chunk_repI) (use a1(5) assms(2) in auto)
  moreover have "ca_open True n z a = Some (0, ?b)"
    using a1(1) by (simp add: ca_open_def ca_get_pool_size_def ca_get_chunk_size_def ca_init_pool_data_def)
  moreover have "ca_layout ?b n z"
    using a1(2) assms(3) eq(2) unfolding ca_layout_def ca_relinked_def by (metis ca_dt_def map_option_is_None)
  ultimately show ?thesis using eq(3) by (auto simp: ca_get_pool_size_def ca_get_chunk_size_def)
qed

lemma ca_count_free_ok:
  "chain (ca_nx a) h xs \<Longrightarrow> ca_count_free a (ca_handler2ptr h) c = Some (c + int (length xs))"
proof (induction xs arbitrary: h c)
  case Nil
  then show ?case by (subst ca_count_free.simps) (simp add: ca_handler2ptr_def)
next
  case (Cons x xs)
  obtain n where n: "h = x" "x \<noteq> -1" "ca_nx a x = Some n" "chain (ca_nx a) n xs" using Cons.prems by auto
  obtain nd where nd: "ca_chunk_nodes a x = Some nd" "ca_next nd = n" using ca_node_of [OF n(3)] by metis
  have "ca_count_free a (ca_handler2ptr n) (c + 1) = Some (c + 1 + int (length xs))"
    using Cons.IH [OF n(4)] .
  moreover have "ca_handler2ptr h = Some x" using n(1,2) by (simp add: ca_handler2ptr_def)
  ultimately show ?case
    using nd by (subst ca_count_free.simps) (simp add: ca_deref_def)
qed

lemma ca_verify_ok:
  assumes "chunk_rep a z n B"
  shows "ca_verify_pool_data (ca_chunk_total a) z a = Some 0"
proof -
  obtain fl C where inv: "ca_inv a fl C" and z: "ca_chunk_size a = z" using assms by (rule chunk_repE)
  show ?thesis
    using ca_count_free_ok [OF ca_invD(3) [OF inv], of 0] ca_invD(4) [OF inv] z
    by (simp add: ca_verify_pool_data_def)
qed

end
