(* ===== verification/HashMap.thy ===== *)
theory HashMap
  imports ChunkAlloc
begin

text \<open>
  \<open>Server/HashMap.hpp\<close>, \<open>Server/HashMapImp.hpp\<close>: \<open>CHashMap<int>\<close>, a chained hash table inside a memory
  pool. Nodes are addressed by their offset from the start of the pool. A node lies either on
  the free list or on exactly one bucket list and on the additional list, which orders the
  nodes by last use; its data is a block of the chunk allocator that follows the table in the
  pool. Pointers, \<open>NULL\<close> and dereferences are treated as in the allocator; an index outside the
  bucket array is \<open>None\<close>. The visit counter \<open>add_info_2_\<close> is a 32-bit word.
\<close>

section \<open>State\<close>

record HashNode =
  hn_key :: c_int
  hn_chunk_len :: int
  hn_chunk_head :: int
  hn_node_prev :: int
  hn_node_next :: int
  hn_add_prev :: int
  hn_add_next :: int
  hn_add_info_1 :: c_int
  hn_add_info_2 :: c_int
  hn_flag :: c_int

record CHashMap =
  hm_pool_tail :: int
  hm_node_total :: int
  hm_bucket_size :: int
  hm_used_node_num :: int
  hm_used_bucket_num :: int
  hm_add_head :: int
  hm_add_tail :: int
  hm_free_list :: int
  hm_bucket :: "int \<Rightarrow> int"
  hm_node :: "int \<Rightarrow> HashNode option"
  hm_allocator :: CChunkAllocator

abbreviation HASH_MAP_ERROR_BASE :: int where "HASH_MAP_ERROR_BASE \<equiv> - 1000"
abbreviation NODE_FLAG_UNCHG :: c_int where "NODE_FLAG_UNCHG \<equiv> 0"
abbreviation NODE_FLAG_DIRTY :: c_int where "NODE_FLAG_DIRTY \<equiv> 1"

text \<open>\<open>sizeof(THashMap)\<close> without its bucket is 40, \<open>sizeof(HashNode<int>)\<close> is 60, both packed.\<close>

definition hm_get_pool_size :: "int \<Rightarrow> int \<Rightarrow> int" where
  "hm_get_pool_size node_total bucket_size =
     (let head_size = 48 - 8;
          bucket_total_size = bucket_size * 8;
          node_total_size = node_total * 60
      in head_size + bucket_total_size + node_total_size)"

definition hm_get_total_pool_size :: "int \<Rightarrow> int \<Rightarrow> int \<Rightarrow> int \<Rightarrow> int" where
  "hm_get_total_pool_size node_total bucket_size n_chunks chunk_size =
     hm_get_pool_size node_total bucket_size + ca_get_pool_size n_chunks chunk_size"

definition hm_deref :: "CHashMap \<Rightarrow> c_ptr \<Rightarrow> HashNode option" where
  "hm_deref m ptr = (case ptr of None \<Rightarrow> None | Some off \<Rightarrow> hm_node m off)"

definition hm_store :: "c_ptr \<Rightarrow> (HashNode \<Rightarrow> HashNode) \<Rightarrow> CHashMap \<Rightarrow> CHashMap option" where
  "hm_store ptr f m =
     do { off \<leftarrow> ptr; nd \<leftarrow> hm_node m off; Some (m\<lparr>hm_node := (hm_node m)(off \<mapsto> f nd)\<rparr>) }"

text \<open>An assignment through a handle, guarded by \<open>hdr != INVALID_BC_MEM_HANDLER\<close>.\<close>

definition hm_store_if :: "int \<Rightarrow> (HashNode \<Rightarrow> HashNode) \<Rightarrow> CHashMap \<Rightarrow> CHashMap option" where
  "hm_store_if hdr f m =
     (if hdr \<noteq> INVALID_BC_MEM_HANDLER then hm_store (Some hdr) f m else Some m)"

definition hm_get_bucket :: "int \<Rightarrow> CHashMap \<Rightarrow> int option" where
  "hm_get_bucket i m = (if 0 \<le> i \<and> i < hm_bucket_size m then Some (hm_bucket m i) else None)"

definition hm_set_bucket :: "int \<Rightarrow> int \<Rightarrow> CHashMap \<Rightarrow> CHashMap option" where
  "hm_set_bucket i v m =
     (if 0 \<le> i \<and> i < hm_bucket_size m then Some (m\<lparr>hm_bucket := (hm_bucket m)(i := v)\<rparr>) else None)"

section \<open>Addresses and buckets\<close>

definition hm_handler2ptr :: "int \<Rightarrow> c_ptr" where
  "hm_handler2ptr handler = (if handler = INVALID_BC_MEM_HANDLER then None else Some handler)"

definition hm_ptr2handler :: "CHashMap \<Rightarrow> c_ptr \<Rightarrow> int" where
  "hm_ptr2handler m ptr =
     (case ptr of None \<Rightarrow> INVALID_BC_MEM_HANDLER
      | Some off \<Rightarrow> if off < 0 \<or> off \<ge> hm_pool_tail m then INVALID_BC_MEM_HANDLER else off)"

text \<open>\<open>hash<int>\<close> is the identity; the modulus is taken on unsigned values.\<close>

definition hm_get_bucket_id :: "c_int \<Rightarrow> CHashMap \<Rightarrow> int option" where
  "hm_get_bucket_id key m =
     (let d = (word_of_int (hm_bucket_size m) :: c_int) in
        if d = 0 then None else Some (sint (key mod d)))"

partial_function (option) hm_bucket_len_loop :: "CHashMap \<Rightarrow> int \<Rightarrow> int \<Rightarrow> int option" where
  "hm_bucket_len_loop m node_hdr num =
     (if node_hdr = INVALID_BC_MEM_HANDLER then Some num
      else do {
        let num = num + 1;
        let node = hm_handler2ptr node_hdr;
        nd \<leftarrow> hm_deref m node;
        hm_bucket_len_loop m (hn_node_next nd) num
      })"

definition hm_get_bucket_list_len :: "int \<Rightarrow> CHashMap \<Rightarrow> int option" where
  "hm_get_bucket_list_len bucket_id m =
     do { node_hdr \<leftarrow> hm_get_bucket bucket_id m; hm_bucket_len_loop m node_hdr 0 }"

definition hm_get_bucket_list_head :: "int \<Rightarrow> CHashMap \<Rightarrow> c_ptr option" where
  "hm_get_bucket_list_head bucket_id m =
     do { node_hdr \<leftarrow> hm_get_bucket bucket_id m;
          Some (if node_hdr \<noteq> INVALID_BC_MEM_HANDLER then hm_handler2ptr node_hdr else None) }"

definition hm_get_bucket_list_prev :: "c_ptr \<Rightarrow> CHashMap \<Rightarrow> c_ptr option" where
  "hm_get_bucket_list_prev node m =
     do { nd \<leftarrow> hm_deref m node;
          Some (if hn_node_prev nd \<noteq> INVALID_BC_MEM_HANDLER then hm_handler2ptr (hn_node_prev nd) else None) }"

definition hm_get_bucket_list_next :: "c_ptr \<Rightarrow> CHashMap \<Rightarrow> c_ptr option" where
  "hm_get_bucket_list_next node m =
     do { nd \<leftarrow> hm_deref m node;
          Some (if hn_node_next nd \<noteq> INVALID_BC_MEM_HANDLER then hm_handler2ptr (hn_node_next nd) else None) }"

definition hm_set_node_flag :: "c_ptr \<Rightarrow> c_int \<Rightarrow> CHashMap \<Rightarrow> CHashMap option" where
  "hm_set_node_flag node f m = hm_store node (hn_flag_update (\<lambda>_. f)) m"

definition hm_get_node_flag :: "c_ptr \<Rightarrow> CHashMap \<Rightarrow> c_int option" where
  "hm_get_node_flag node m = do { nd \<leftarrow> hm_deref m node; Some (hn_flag nd) }"

section \<open>The free list\<close>

definition hm_free_list_insert :: "c_ptr \<Rightarrow> CHashMap \<Rightarrow> CHashMap option" where
  "hm_free_list_insert node m =
     do {
       m \<leftarrow> hm_store node (hn_node_next_update (\<lambda>_. hm_free_list m)) m;
       let node_hdr = hm_ptr2handler m node;
       Some (m\<lparr>hm_free_list := node_hdr\<rparr>)
     }"

definition hm_free_list_remove :: "CHashMap \<Rightarrow> (c_ptr \<times> CHashMap) option" where
  "hm_free_list_remove m =
     (if hm_free_list m = INVALID_BC_MEM_HANDLER then Some (None, m)
      else do {
        let head_node = hm_handler2ptr (hm_free_list m);
        nd \<leftarrow> hm_deref m head_node;
        let m = m\<lparr>hm_free_list := hn_node_next nd\<rparr>;
        m \<leftarrow> hm_store head_node (hn_node_next_update (\<lambda>_. INVALID_BC_MEM_HANDLER)) m;
        Some (head_node, m)
      })"

definition hm_init_node :: "c_ptr \<Rightarrow> CHashMap \<Rightarrow> CHashMap option" where
  "hm_init_node node m =
     hm_store node (\<lambda>nd. nd\<lparr>hn_chunk_len := 0, hn_add_info_1 := 0, hn_add_info_2 := 0, hn_flag := NODE_FLAG_UNCHG,
       hn_chunk_head := INVALID_BC_MEM_HANDLER, hn_node_next := INVALID_BC_MEM_HANDLER,
       hn_node_prev := INVALID_BC_MEM_HANDLER, hn_add_next := INVALID_BC_MEM_HANDLER,
       hn_add_prev := INVALID_BC_MEM_HANDLER\<rparr>) m"

section \<open>The additional list\<close>

definition hm_delete_from_add_list :: "c_ptr \<Rightarrow> CHashMap \<Rightarrow> CHashMap option" where
  "hm_delete_from_add_list node m =
     do {
       let node_hdr = hm_ptr2handler m node;
       nd \<leftarrow> hm_deref m node;
       let next_add_hdr = hn_add_next nd;
       let prev_add_hdr = hn_add_prev nd;
       if next_add_hdr = INVALID_BC_MEM_HANDLER \<and> prev_add_hdr = INVALID_BC_MEM_HANDLER \<and>
          hm_add_head m \<noteq> node_hdr \<and> hm_add_tail m \<noteq> node_hdr
       then Some m
       else do {
         m \<leftarrow> hm_store_if prev_add_hdr (hn_add_next_update (\<lambda>_. next_add_hdr)) m;
         nd \<leftarrow> hm_deref m node;
         m \<leftarrow> hm_store_if next_add_hdr (hn_add_prev_update (\<lambda>_. hn_add_prev nd)) m;
         let m = m\<lparr>hm_add_head := (if hm_add_head m = node_hdr then next_add_hdr else hm_add_head m)\<rparr>;
         let m = m\<lparr>hm_add_tail := (if hm_add_tail m = node_hdr then prev_add_hdr else hm_add_tail m)\<rparr>;
         hm_store node (\<lambda>nd. nd\<lparr>hn_add_prev := INVALID_BC_MEM_HANDLER, hn_add_next := INVALID_BC_MEM_HANDLER\<rparr>) m
       }
     }"

definition hm_insert_add_list_head :: "c_ptr \<Rightarrow> CHashMap \<Rightarrow> CHashMap option" where
  "hm_insert_add_list_head node m =
     do {
       m \<leftarrow> hm_delete_from_add_list node m;
       let node_hdr = hm_ptr2handler m node;
       let head = hm_add_head m;
       m \<leftarrow> hm_store node (hn_add_next_update (\<lambda>_. head)) m;
       let m = m\<lparr>hm_add_head := node_hdr\<rparr>;
       let m = m\<lparr>hm_add_tail := (if hm_add_tail m = INVALID_BC_MEM_HANDLER then node_hdr else hm_add_tail m)\<rparr>;
       m \<leftarrow> hm_store node (hn_add_prev_update (\<lambda>_. INVALID_BC_MEM_HANDLER)) m;
       nd \<leftarrow> hm_deref m node;
       hm_store_if (hn_add_next nd) (hn_add_prev_update (\<lambda>_. node_hdr)) m
     }"

definition hm_insert_add_list_tail :: "c_ptr \<Rightarrow> CHashMap \<Rightarrow> CHashMap option" where
  "hm_insert_add_list_tail node m =
     do {
       m \<leftarrow> hm_delete_from_add_list node m;
       let node_hdr = hm_ptr2handler m node;
       let tail = hm_add_tail m;
       m \<leftarrow> hm_store node (hn_add_prev_update (\<lambda>_. tail)) m;
       let m = m\<lparr>hm_add_tail := node_hdr\<rparr>;
       let m = m\<lparr>hm_add_head := (if hm_add_head m = INVALID_BC_MEM_HANDLER then node_hdr else hm_add_head m)\<rparr>;
       m \<leftarrow> hm_store node (hn_add_next_update (\<lambda>_. INVALID_BC_MEM_HANDLER)) m;
       nd \<leftarrow> hm_deref m node;
       hm_store_if (hn_add_prev nd) (hn_add_next_update (\<lambda>_. node_hdr)) m
     }"

definition hm_get_add_list_head :: "CHashMap \<Rightarrow> c_ptr" where
  "hm_get_add_list_head m = hm_handler2ptr (hm_add_head m)"

definition hm_get_add_list_tail :: "CHashMap \<Rightarrow> c_ptr" where
  "hm_get_add_list_tail m = hm_handler2ptr (hm_add_tail m)"

definition hm_get_add_list_prev :: "c_ptr \<Rightarrow> CHashMap \<Rightarrow> c_ptr option" where
  "hm_get_add_list_prev node m = do { nd \<leftarrow> hm_deref m node; Some (hm_handler2ptr (hn_add_prev nd)) }"

definition hm_get_add_list_next :: "c_ptr \<Rightarrow> CHashMap \<Rightarrow> c_ptr option" where
  "hm_get_add_list_next node m = do { nd \<leftarrow> hm_deref m node; Some (hm_handler2ptr (hn_add_next nd)) }"

section \<open>Bucket lists\<close>

definition hm_insert_node_list :: "c_ptr \<Rightarrow> CHashMap \<Rightarrow> CHashMap option" where
  "hm_insert_node_list node m =
     do {
       nd \<leftarrow> hm_deref m node;
       bucket_id \<leftarrow> hm_get_bucket_id (hn_key nd) m;
       let node_hdr = hm_ptr2handler m node;
       b \<leftarrow> hm_get_bucket bucket_id m;
       m \<leftarrow> hm_store node (\<lambda>nd. nd\<lparr>hn_node_next := b, hn_node_prev := INVALID_BC_MEM_HANDLER\<rparr>) m;
       m \<leftarrow> hm_set_bucket bucket_id node_hdr m;
       m \<leftarrow> hm_store_if b (hn_node_prev_update (\<lambda>_. node_hdr)) m;
       Some (m\<lparr>hm_used_node_num := hm_used_node_num m + 1\<rparr>)
     }"

definition hm_delete_from_node_list :: "c_ptr \<Rightarrow> CHashMap \<Rightarrow> CHashMap option" where
  "hm_delete_from_node_list node m =
     do {
       nd \<leftarrow> hm_deref m node;
       let next_node_hdr = hn_node_next nd;
       let prev_node_hdr = hn_node_prev nd;
       m \<leftarrow> hm_store_if prev_node_hdr (hn_node_next_update (\<lambda>_. next_node_hdr)) m;
       nd \<leftarrow> hm_deref m node;
       m \<leftarrow> hm_store_if next_node_hdr (hn_node_prev_update (\<lambda>_. hn_node_prev nd)) m;
       let node_hdr = hm_ptr2handler m node;
       nd \<leftarrow> hm_deref m node;
       bucket_id \<leftarrow> hm_get_bucket_id (hn_key nd) m;
       b \<leftarrow> hm_get_bucket bucket_id m;
       m \<leftarrow> hm_set_bucket bucket_id (if node_hdr = b then next_node_hdr else b) m;
       m \<leftarrow> hm_store node (\<lambda>nd. nd\<lparr>hn_node_next := INVALID_BC_MEM_HANDLER, hn_node_prev := INVALID_BC_MEM_HANDLER\<rparr>) m;
       Some (m\<lparr>hm_used_node_num := hm_used_node_num m - 1\<rparr>)
     }"

definition hm_free_node :: "c_ptr \<Rightarrow> CHashMap \<Rightarrow> CHashMap option" where
  "hm_free_node node m =
     do {
       m \<leftarrow> hm_delete_from_node_list node m;
       nd \<leftarrow> hm_deref m node;
       a \<leftarrow> ca_free (hn_chunk_head nd) (hm_allocator m);
       let m = m\<lparr>hm_allocator := a\<rparr>;
       bucket_id \<leftarrow> hm_get_bucket_id (hn_key nd) m;
       bucket_list_len \<leftarrow> hm_get_bucket_list_len bucket_id m;
       let m = m\<lparr>hm_used_bucket_num := (if bucket_list_len = 0 then hm_used_bucket_num m - 1 else hm_used_bucket_num m)\<rparr>;
       hm_init_node node m
     }"

definition hm_use_node :: "c_ptr \<Rightarrow> c_int \<Rightarrow> int \<Rightarrow> int \<Rightarrow> CHashMap \<Rightarrow> CHashMap option" where
  "hm_use_node node key chunk_len chunk_head m =
     do {
       m \<leftarrow> hm_store node (\<lambda>nd. nd\<lparr>hn_key := key, hn_chunk_len := chunk_len, hn_chunk_head := chunk_head,
              hn_add_info_1 := 0, hn_add_info_2 := 0\<rparr>) m;
       bucket_id \<leftarrow> hm_get_bucket_id key m;
       bucket_list_len \<leftarrow> hm_get_bucket_list_len bucket_id m;
       let m = m\<lparr>hm_used_bucket_num := (if bucket_list_len = 0 then hm_used_bucket_num m + 1 else hm_used_bucket_num m)\<rparr>;
       hm_insert_node_list node m
     }"

section \<open>Operations on entries\<close>

text \<open>\<open>now\<close> is the value of \<open>time(NULL)\<close>, cast to \<open>int\<close>.\<close>

definition hm_touch :: "c_int \<Rightarrow> c_ptr \<Rightarrow> CHashMap \<Rightarrow> CHashMap option" where
  "hm_touch now node m =
     do {
       m \<leftarrow> hm_store node (\<lambda>nd. nd\<lparr>hn_add_info_1 := now, hn_add_info_2 := hn_add_info_2 nd + 1\<rparr>) m;
       hm_insert_add_list_head node m
     }"

partial_function (option) hm_find_loop :: "c_int \<Rightarrow> c_int \<Rightarrow> int \<Rightarrow> CHashMap \<Rightarrow> (c_ptr \<times> CHashMap) option" where
  "hm_find_loop now key node_hdr m =
     (if node_hdr = INVALID_BC_MEM_HANDLER then Some (None, m)
      else do {
        let node = hm_handler2ptr node_hdr;
        nd \<leftarrow> hm_deref m node;
        if hn_key nd = key then do { m \<leftarrow> hm_touch now node m; Some (node, m) }
        else hm_find_loop now key (hn_node_next nd) m
      })"

definition hm_find_node :: "c_int \<Rightarrow> c_int \<Rightarrow> CHashMap \<Rightarrow> (c_ptr \<times> CHashMap) option" where
  "hm_find_node now key m =
     do {
       bucket_id \<leftarrow> hm_get_bucket_id key m;
       node_hdr \<leftarrow> hm_get_bucket bucket_id m;
       hm_find_loop now key node_hdr m
     }"

definition hm_insert_node :: "c_int \<Rightarrow> c_int \<Rightarrow> byte list \<Rightarrow> int \<Rightarrow> CHashMap \<Rightarrow> (c_ptr \<times> CHashMap) option" where
  "hm_insert_node now key new_data new_len m =
     do {
       (node, m) \<leftarrow> hm_free_list_remove m;
       if node = None then Some (None, m)
       else do {
         new_chunk_num \<leftarrow> ca_get_chunk_num new_len (hm_allocator m);
         (head_hdr, a) \<leftarrow> ca_malloc new_chunk_num (hm_allocator m);
         let m = m\<lparr>hm_allocator := a\<rparr>;
         if head_hdr = INVALID_BC_MEM_HANDLER
         then do { m \<leftarrow> hm_free_list_insert node m; Some (None, m) }
         else do {
           a \<leftarrow> ca_split head_hdr new_data new_len (hm_allocator m);
           let m = m\<lparr>hm_allocator := a\<rparr>;
           m \<leftarrow> hm_use_node node key new_len head_hdr m;
           m \<leftarrow> hm_touch now node m;
           Some (node, m)
         }
       }
     }"

text \<open>The optional output arguments \<open>old_data\<close>, \<open>old_len\<close> of \<open>update_node\<close> and \<open>delete_node\<close>.\<close>

datatype out_args = NoOut | LenOut | DataOut int

definition hm_old_data :: "out_args \<Rightarrow> HashNode \<Rightarrow> CHashMap \<Rightarrow> (int \<times> byte list \<times> int option) option" where
  "hm_old_data args nd m =
     (case args of
        DataOut cap \<Rightarrow> do { (ret, bs, l) \<leftarrow> ca_merge (hn_chunk_head nd) (hn_chunk_len nd) cap (hm_allocator m); Some (ret, bs, Some l) }
      | LenOut \<Rightarrow> Some (0, [], Some (hn_chunk_len nd))
      | NoOut \<Rightarrow> Some (0, [], None))"

definition hm_update_node ::
  "c_ptr \<Rightarrow> byte list \<Rightarrow> int \<Rightarrow> out_args \<Rightarrow> CHashMap \<Rightarrow> (c_ptr \<times> (byte list \<times> int option) \<times> CHashMap) option" where
  "hm_update_node node new_data new_len args m =
     do {
       nd \<leftarrow> hm_deref m node;
       (ret, out) \<leftarrow> hm_old_data args nd m;
       if ret \<noteq> 0 then Some (None, out, m)
       else do {
         old_chunk_num \<leftarrow> ca_get_chunk_num (hn_chunk_len nd) (hm_allocator m);
         new_chunk_num \<leftarrow> ca_get_chunk_num new_len (hm_allocator m);
         if old_chunk_num \<noteq> new_chunk_num then
           (if new_chunk_num > old_chunk_num \<and> ca_get_free_chunk_num (hm_allocator m) < new_chunk_num - old_chunk_num
            then Some (None, out, m)
            else do {
              a \<leftarrow> ca_free (hn_chunk_head nd) (hm_allocator m);
              (head_hdr, a) \<leftarrow> ca_malloc new_chunk_num a;
              a \<leftarrow> ca_split head_hdr new_data new_len a;
              m \<leftarrow> hm_store node (\<lambda>nd. nd\<lparr>hn_chunk_len := new_len, hn_chunk_head := head_hdr\<rparr>) (m\<lparr>hm_allocator := a\<rparr>);
              Some (node, out, m)
            })
         else do {
           a \<leftarrow> ca_split (hn_chunk_head nd) new_data new_len (hm_allocator m);
           m \<leftarrow> hm_store node (hn_chunk_len_update (\<lambda>_. new_len)) (m\<lparr>hm_allocator := a\<rparr>);
           Some (node, out, m)
         }
       }
     }"

definition hm_replace_node ::
  "c_int \<Rightarrow> c_int \<Rightarrow> byte list \<Rightarrow> int \<Rightarrow> out_args \<Rightarrow> CHashMap \<Rightarrow> (c_ptr \<times> (byte list \<times> int option) \<times> CHashMap) option" where
  "hm_replace_node now key new_data new_len args m =
     do {
       (node, m) \<leftarrow> hm_find_node now key m;
       if node \<noteq> None then hm_update_node node new_data new_len args m
       else do { (node, m) \<leftarrow> hm_insert_node now key new_data new_len m; Some (node, ([], None), m) }
     }"

definition hm_delete_node :: "c_ptr \<Rightarrow> out_args \<Rightarrow> CHashMap \<Rightarrow> (int \<times> (byte list \<times> int option) \<times> CHashMap) option" where
  "hm_delete_node node args m =
     do {
       nd \<leftarrow> hm_deref m node;
       (ret, out) \<leftarrow> hm_old_data args nd m;
       if ret \<noteq> 0 then Some (-1, out, m)
       else do {
         m \<leftarrow> hm_delete_from_add_list node m;
         m \<leftarrow> hm_free_node node m;
         m \<leftarrow> hm_free_list_insert node m;
         Some (0, out, m)
       }
     }"

text \<open>\<open>merge_node_data\<close> returns its code, the bytes written and the final \<open>*data_len\<close>.\<close>

definition hm_merge_node_data :: "c_ptr \<Rightarrow> out_args \<Rightarrow> CHashMap \<Rightarrow> (int \<times> byte list \<times> int option) option" where
  "hm_merge_node_data node args m =
     do {
       nd \<leftarrow> hm_deref m node;
       (case args of
          DataOut cap \<Rightarrow> do { (ret, bs, l) \<leftarrow> ca_merge (hn_chunk_head nd) (hn_chunk_len nd) cap (hm_allocator m); Some (ret, bs, Some l) }
        | LenOut \<Rightarrow> Some (-1, [], Some (hn_chunk_len nd))
        | NoOut \<Rightarrow> Some (-1, [], None))
     }"

section \<open>Opening a pool\<close>

fun hm_init_buckets :: "nat \<Rightarrow> int \<Rightarrow> CHashMap \<Rightarrow> CHashMap option" where
  "hm_init_buckets 0 i m = Some m"
| "hm_init_buckets (Suc k) i m =
     do { m \<leftarrow> hm_set_bucket i INVALID_BC_MEM_HANDLER m; hm_init_buckets k (i + 1) m }"

fun hm_init_nodes :: "nat \<Rightarrow> int \<Rightarrow> int \<Rightarrow> CHashMap \<Rightarrow> CHashMap option" where
  "hm_init_nodes 0 i hash_node_base m = Some m"
| "hm_init_nodes (Suc k) i hash_node_base m =
     do {
       let offset = i * 60;
       let hash_node = Some (hash_node_base + offset);
       m \<leftarrow> hm_init_node hash_node m;
       m \<leftarrow> hm_free_list_insert hash_node m;
       hm_init_nodes k (i + 1) hash_node_base m
     }"

definition hm_init_pool_data :: "int \<Rightarrow> int \<Rightarrow> CHashMap \<Rightarrow> CHashMap option" where
  "hm_init_pool_data node_total bucket_size m =
     do {
       let m = m\<lparr>hm_node_total := node_total, hm_bucket_size := bucket_size, hm_used_node_num := 0,
                 hm_used_bucket_num := 0, hm_add_head := INVALID_BC_MEM_HANDLER,
                 hm_add_tail := INVALID_BC_MEM_HANDLER, hm_free_list := INVALID_BC_MEM_HANDLER\<rparr>;
       m \<leftarrow> hm_init_buckets (nat bucket_size) 0 m;
       hm_init_nodes (nat node_total) 0 (40 + bucket_size * 8) m
     }"

fun hm_count_buckets :: "nat \<Rightarrow> int \<Rightarrow> int \<Rightarrow> CHashMap \<Rightarrow> int option" where
  "hm_count_buckets 0 i n m = Some n"
| "hm_count_buckets (Suc k) i n m =
     do { b \<leftarrow> hm_get_bucket i m;
          hm_count_buckets k (i + 1) (if b \<noteq> INVALID_BC_MEM_HANDLER then n + 1 else n) m }"

partial_function (option) hm_count_free :: "CHashMap \<Rightarrow> c_ptr \<Rightarrow> int \<Rightarrow> int option" where
  "hm_count_free m free_node free_node_count =
     (if free_node = None then Some free_node_count
      else do {
        nd \<leftarrow> hm_deref m free_node;
        hm_count_free m (hm_handler2ptr (hn_node_next nd)) (free_node_count + 1)
      })"

definition hm_verify_pool_data :: "int \<Rightarrow> int \<Rightarrow> CHashMap \<Rightarrow> int option" where
  "hm_verify_pool_data node_total bucket_size m =
     (if node_total \<noteq> hm_node_total m then Some HASH_MAP_ERROR_BASE
      else if bucket_size \<noteq> hm_bucket_size m then Some HASH_MAP_ERROR_BASE
      else do {
        used_bucket_count \<leftarrow> hm_count_buckets (nat (hm_bucket_size m)) 0 0 m;
        if used_bucket_count \<noteq> hm_used_bucket_num m then Some HASH_MAP_ERROR_BASE
        else do {
          free_node_count \<leftarrow> hm_count_free m (hm_handler2ptr (hm_free_list m)) 0;
          Some (if hm_used_node_num m + free_node_count \<noteq> hm_node_total m then HASH_MAP_ERROR_BASE else 0)
        }
      })"

text \<open>As for the allocator, the pool handed to \<open>open\<close> has the layout of the given sizes.\<close>

definition hm_open :: "bool \<Rightarrow> int \<Rightarrow> int \<Rightarrow> int \<Rightarrow> int \<Rightarrow> CHashMap \<Rightarrow> (int \<times> CHashMap) option" where
  "hm_open init node_total bucket_size n_chunks chunk_size m =
     do {
       let m = m\<lparr>hm_pool_tail := hm_get_pool_size node_total bucket_size\<rparr>;
       (ret, m) \<leftarrow> (if init then do { m \<leftarrow> hm_init_pool_data node_total bucket_size m; Some (0, m) }
                  else do { ret \<leftarrow> hm_verify_pool_data node_total bucket_size m; Some (ret, m) });
       if ret \<noteq> 0 then Some (ret, m)
       else do {
         (ret, a) \<leftarrow> ca_open init n_chunks chunk_size (hm_allocator m);
         Some (ret, m\<lparr>hm_allocator := a\<rparr>)
       }
     }"

definition hm_free_node_num :: "CHashMap \<Rightarrow> int" where
  "hm_free_node_num m = hm_node_total m - hm_used_node_num m"

definition hm_free_bucket_num :: "CHashMap \<Rightarrow> int" where
  "hm_free_bucket_num m = hm_bucket_size m - hm_used_bucket_num m"

end
