(* ===== verification/HashMapLists.thy ===== *)
theory HashMapLists
  imports HashMap
begin

text \<open>
  The linked lists of the hash map: the effect of every list operation of \<open>HashMapImp.hpp\<close> on the
  list of handles it maintains. The additional list, the free list and the bucket lists live in
  different fields of the nodes; each operation changes one of them and frames the others.
\<close>

section \<open>Projections\<close>

definition KY :: "CHashMap \<Rightarrow> int \<Rightarrow> c_int option" where "KY m x = map_option hn_key (hm_node m x)"
definition CL :: "CHashMap \<Rightarrow> int \<Rightarrow> int option" where "CL m x = map_option hn_chunk_len (hm_node m x)"
definition CH :: "CHashMap \<Rightarrow> int \<Rightarrow> int option" where "CH m x = map_option hn_chunk_head (hm_node m x)"
definition NX :: "CHashMap \<Rightarrow> int \<Rightarrow> int option" where "NX m x = map_option hn_node_next (hm_node m x)"
definition NP :: "CHashMap \<Rightarrow> int \<Rightarrow> int option" where "NP m x = map_option hn_node_prev (hm_node m x)"
definition AN :: "CHashMap \<Rightarrow> int \<Rightarrow> int option" where "AN m x = map_option hn_add_next (hm_node m x)"
definition AP :: "CHashMap \<Rightarrow> int \<Rightarrow> int option" where "AP m x = map_option hn_add_prev (hm_node m x)"

lemmas hm_proj = KY_def CL_def CH_def NX_def NP_def AN_def AP_def

text \<open>Changing one node; nothing happens where there is none.\<close>

definition hm_upd :: "int \<Rightarrow> (HashNode \<Rightarrow> HashNode) \<Rightarrow> CHashMap \<Rightarrow> CHashMap" where
  "hm_upd x f m = m\<lparr>hm_node := (\<lambda>y. if y = x then map_option f (hm_node m y) else hm_node m y)\<rparr>"

lemma hm_upd_sel [simp]:
  "hm_node (hm_upd x f m) y = (if y = x then map_option f (hm_node m y) else hm_node m y)"
  "hm_pool_tail (hm_upd x f m) = hm_pool_tail m" "hm_node_total (hm_upd x f m) = hm_node_total m"
  "hm_bucket_size (hm_upd x f m) = hm_bucket_size m" "hm_used_node_num (hm_upd x f m) = hm_used_node_num m"
  "hm_used_bucket_num (hm_upd x f m) = hm_used_bucket_num m" "hm_add_head (hm_upd x f m) = hm_add_head m"
  "hm_add_tail (hm_upd x f m) = hm_add_tail m" "hm_free_list (hm_upd x f m) = hm_free_list m"
  "hm_bucket (hm_upd x f m) = hm_bucket m" "hm_allocator (hm_upd x f m) = hm_allocator m"
  by (simp_all add: hm_upd_def)

definition hm_dom_ok :: "CHashMap \<Rightarrow> bool" where
  "hm_dom_ok m \<longleftrightarrow> (\<forall>x nd. hm_node m x = Some nd \<longrightarrow> 0 \<le> x \<and> x < hm_pool_tail m)"

lemma hm_dom_ok_upd [simp]: "hm_dom_ok (hm_upd x f m) = hm_dom_ok m"
  by (auto simp: hm_dom_ok_def)

lemma hm_dom_handle:
  assumes "hm_dom_ok m" "hm_node m x = Some nd"
  shows "hm_ptr2handler m (Some x) = x" "hm_handler2ptr x = Some x" "x \<noteq> -1"
proof -
  have "0 \<le> x" "x < hm_pool_tail m" using assms by (auto simp: hm_dom_ok_def)
  then show "hm_ptr2handler m (Some x) = x" "hm_handler2ptr x = Some x" "x \<noteq> -1"
    by (auto simp: hm_ptr2handler_def hm_handler2ptr_def)
qed

lemma hm_ptr2handler_upd [simp]: "hm_ptr2handler (hm_upd x f m) = hm_ptr2handler m"
  by (simp add: hm_ptr2handler_def fun_eq_iff split: option.split)

lemma hm_deref_Some [simp]: "hm_deref m (Some x) = hm_node m x"
  by (simp add: hm_deref_def)

lemma hm_store_eq: "hm_node m x = Some nd \<Longrightarrow> hm_store (Some x) f m = Some (hm_upd x f m)"
  by (simp add: hm_store_def hm_upd_def fun_upd_def) (rule CHashMap.equality; auto)

lemma hm_upd_invalid: "hm_dom_ok m \<Longrightarrow> hm_upd (-1) f m = m"
proof -
  assume "hm_dom_ok m"
  then have "hm_node m (-1) = None" unfolding hm_dom_ok_def by (cases "hm_node m (-1)") force+
  then have "(\<lambda>y. if y = -1 then map_option f (hm_node m y) else hm_node m y) = hm_node m" by (auto simp: fun_eq_iff)
  then show ?thesis by (simp add: hm_upd_def)
qed

text \<open>The guarded updates of a neighbour.\<close>

lemma hm_store_if_ok:
  assumes "hm_dom_ok m" "p \<noteq> -1 \<Longrightarrow> hm_node m p \<noteq> None"
  shows "hm_store_if p f m = Some (hm_upd p f m)"
  using assms hm_upd_invalid [OF assms(1)] by (auto simp: hm_store_if_def hm_store_eq)

section \<open>The additional list\<close>

definition add_ok :: "CHashMap \<Rightarrow> int list \<Rightarrow> bool" where
  "add_ok m as \<longleftrightarrow> distinct as \<and> hm_add_head m = lhead as \<and> hm_add_tail m = llast as \<and>
     (\<forall>x \<in> set as. hm_node m x \<noteq> None) \<and>
     (\<forall>x nd. hm_node m x = Some nd \<longrightarrow> hn_add_next nd = lnext as x \<and> hn_add_prev nd = lprev as x)"

text \<open>The operations on the additional list leave everything else alone.\<close>

definition frame_add :: "CHashMap \<Rightarrow> CHashMap \<Rightarrow> bool" where
  "frame_add m m' \<longleftrightarrow> hm_pool_tail m' = hm_pool_tail m \<and> hm_node_total m' = hm_node_total m \<and>
     hm_bucket_size m' = hm_bucket_size m \<and> hm_used_node_num m' = hm_used_node_num m \<and>
     hm_used_bucket_num m' = hm_used_bucket_num m \<and> hm_free_list m' = hm_free_list m \<and>
     hm_bucket m' = hm_bucket m \<and> hm_allocator m' = hm_allocator m \<and>
     KY m' = KY m \<and> CL m' = CL m \<and> CH m' = CH m \<and> NX m' = NX m \<and> NP m' = NP m"

lemma frame_add_refl: "frame_add m m"
  by (simp add: frame_add_def)

lemma frame_add_trans: "frame_add a b \<Longrightarrow> frame_add b c \<Longrightarrow> frame_add a c"
  by (simp add: frame_add_def)

lemma hm_dom_ok_frame: "frame_add m m' \<Longrightarrow> hm_dom_ok m \<Longrightarrow> hm_dom_ok m'"
  unfolding hm_dom_ok_def frame_add_def KY_def fun_eq_iff by (metis map_option_eq_Some)

lemma hm_node_frame: "frame_add m m' \<Longrightarrow> hm_node m' x = None \<longleftrightarrow> hm_node m x = None"
  unfolding frame_add_def KY_def fun_eq_iff by (metis map_option_is_None)

lemma frame_add_upd:
  "(\<And>nd. hn_key (f nd) = hn_key nd \<and> hn_chunk_len (f nd) = hn_chunk_len nd \<and> hn_chunk_head (f nd) = hn_chunk_head nd \<and>
      hn_node_next (f nd) = hn_node_next nd \<and> hn_node_prev (f nd) = hn_node_prev nd) \<Longrightarrow> frame_add m (hm_upd x f m)"
  by (auto simp: frame_add_def hm_proj fun_eq_iff option.map_comp comp_def intro!: option.map_cong)

lemma add_ok_invalid: "add_ok m as \<Longrightarrow> hm_dom_ok m \<Longrightarrow> -1 \<notin> set as"
  unfolding add_ok_def hm_dom_ok_def by force

lemma delete_from_add_list_ok:
  assumes ok: "add_ok m as" and dom: "hm_dom_ok m" and x: "hm_node m x = Some nd"
  shows "\<exists>m'. hm_delete_from_add_list (Some x) m = Some m' \<and> add_ok m' (remove1 x as) \<and> frame_add m m'"
proof (cases "x \<in> set as")
  case False
  have "lhead as \<noteq> x \<and> llast as \<noteq> x"
    using False hm_dom_handle(3) [OF dom x] lhead_in [of as] llast_in [of as] by (cases "as = []") auto
  then have "hm_delete_from_add_list (Some x) m = Some m"
    using ok x False hm_dom_handle(1) [OF dom x]
    by (simp add: hm_delete_from_add_list_def add_ok_def lnext_notin lprev_notin)
  then show ?thesis using ok False frame_add_refl by (auto simp: remove1_idem)
next
  case True
  let ?p = "lprev as x" and ?q = "lnext as x"
  have dist: "distinct as" and inv: "-1 \<notin> set as" using ok add_ok_invalid [OF ok dom] by (auto simp: add_ok_def)
  have nd: "hn_add_next nd = ?q" "hn_add_prev nd = ?p" using ok x by (auto simp: add_ok_def)
  have pq: "?p \<noteq> x" "?q \<noteq> x" using lprev_neq [OF dist inv True] lnext_neq [OF dist inv True] by auto
  have in': "?p \<noteq> -1 \<Longrightarrow> hm_node m ?p \<noteq> None" "?q \<noteq> -1 \<Longrightarrow> hm_node m ?q \<noteq> None"
    using lprev_in [of as x] lnext_in [of as x] ok by (auto simp: add_ok_def)
  let ?m1 = "hm_upd ?p (hn_add_next_update (\<lambda>_. ?q)) m"
  let ?m2 = "hm_upd ?q (hn_add_prev_update (\<lambda>_. ?p)) ?m1"
  let ?m3 = "?m2\<lparr>hm_add_head := (if hm_add_head m = x then ?q else hm_add_head m),
                  hm_add_tail := (if hm_add_tail m = x then ?p else hm_add_tail m)\<rparr>"
  let ?f = "\<lambda>nd :: HashNode. nd\<lparr>hn_add_prev := -1, hn_add_next := -1\<rparr>"
  have m1: "hm_store_if ?p (hn_add_next_update (\<lambda>_. ?q)) m = Some ?m1"
    by (rule hm_store_if_ok [OF dom in'(1)])
  have m2: "hm_store_if ?q (hn_add_prev_update (\<lambda>_. ?p)) ?m1 = Some ?m2"
    by (rule hm_store_if_ok) (use dom in'(2) in auto)
  have x1: "hm_node ?m1 x = Some nd" "hm_node ?m2 x = Some nd" using x pq by auto
  have m3: "hm_store (Some x) ?f ?m3 = Some (hm_upd x ?f ?m3)" using x1 by (intro hm_store_eq) simp
  have guard: "(?q = -1 \<and> ?p = -1 \<and> hm_add_head m \<noteq> x \<and> hm_add_tail m \<noteq> x) = False"
    using lprev_eq_invalid [OF dist inv True] ok by (auto simp: add_ok_def)
  have "hm_delete_from_add_list (Some x) m = Some (hm_upd x ?f ?m3)"
    unfolding hm_delete_from_add_list_def
    by (simp add: Let_def x nd m1 m2 m3 x1 guard hm_dom_handle(1) [OF dom x] del: hm_upd_sel(1) split del: if_split cong: if_cong)
  moreover have "frame_add m (hm_upd x ?f ?m3)"
  proof -
    have "frame_add m ?m2" by (rule frame_add_trans [OF frame_add_upd frame_add_upd]) simp_all
    then have "frame_add m ?m3" by (simp add: frame_add_def hm_proj fun_eq_iff)
    then show ?thesis by (rule frame_add_trans) (rule frame_add_upd, simp)
  qed
  moreover have "add_ok (hm_upd x ?f ?m3) (remove1 x as)"
    unfolding add_ok_def
  proof (intro conjI ballI allI impI)
    show "distinct (remove1 x as)" using dist by simp
    show "hm_add_head (hm_upd x ?f ?m3) = lhead (remove1 x as)"
      using ok True by (auto simp: add_ok_def lhead_remove1)
    show "hm_add_tail (hm_upd x ?f ?m3) = llast (remove1 x as)"
      using ok True llast_remove1 [OF dist inv True] by (auto simp: add_ok_def)
  next
    fix y assume "y \<in> set (remove1 x as)"
    then show "hm_node (hm_upd x ?f ?m3) y \<noteq> None"
      using ok dist by (auto simp: add_ok_def)
  next
    fix y yd assume y: "hm_node (hm_upd x ?f ?m3) y = Some yd"
    then have "y \<noteq> -1" using hm_dom_handle(3) [OF dom, of y] by (auto split: if_splits)
    then show "hn_add_next yd = lnext (remove1 x as) y" "hn_add_prev yd = lprev (remove1 x as) y"
      using y ok dist pq lnext_unlink [OF dist inv True] lprev_unlink [OF dist inv True]
      by (auto simp: add_ok_def lnext_notin lprev_notin split: if_splits)
  qed
  ultimately show ?thesis by blast
qed


lemma insert_add_list_head_ok:
  assumes ok: "add_ok m as" and dom: "hm_dom_ok m" and x: "hm_node m x = Some nd"
  shows "\<exists>m'. hm_insert_add_list_head (Some x) m = Some m' \<and> add_ok m' (x # remove1 x as) \<and> frame_add m m'"
proof -
  obtain m1 where m1: "hm_delete_from_add_list (Some x) m = Some m1" "add_ok m1 (remove1 x as)" "frame_add m m1"
    using delete_from_add_list_ok [OF assms] by blast
  let ?as = "remove1 x as"
  have dom1: "hm_dom_ok m1" using hm_dom_ok_frame [OF m1(3) dom] .
  obtain nd1 where x1: "hm_node m1 x = Some nd1" using hm_node_frame [OF m1(3), of x] x by auto
  note h = hm_dom_handle [OF dom1 x1]
  have dist: "distinct ?as" "x \<notin> set ?as" and inv: "-1 \<notin> set ?as"
    using ok m1(2) add_ok_invalid [OF m1(2) dom1] by (auto simp: add_ok_def)
  let ?q = "lhead ?as"
  have q: "?q \<noteq> -1 \<Longrightarrow> hm_node m1 ?q \<noteq> None" using m1(2) lhead_in [of ?as] by (cases "?as = []") (auto simp: add_ok_def)
  have qx: "?q \<noteq> x" using lhead_in [of ?as] dist h(3) by (cases "?as = []") auto
  let ?m2 = "hm_upd x (hn_add_next_update (\<lambda>_. ?q)) m1"
  let ?m3 = "?m2\<lparr>hm_add_head := x, hm_add_tail := (if hm_add_tail m1 = -1 then x else hm_add_tail m1)\<rparr>"
  let ?m4 = "hm_upd x (hn_add_prev_update (\<lambda>_. -1)) ?m3"
  let ?m5 = "hm_upd ?q (hn_add_prev_update (\<lambda>_. x)) ?m4"
  have s2: "hm_store (Some x) (hn_add_next_update (\<lambda>_. ?q)) m1 = Some ?m2" using x1 by (rule hm_store_eq)
  have s4: "hm_store (Some x) (hn_add_prev_update (\<lambda>_. -1)) ?m3 = Some ?m4" using x1 by (intro hm_store_eq) simp
  have s5: "hm_store_if ?q (hn_add_prev_update (\<lambda>_. x)) ?m4 = Some ?m5"
    by (rule hm_store_if_ok) (use dom1 q in \<open>auto simp: hm_dom_ok_def\<close>)
  have x4: "hm_node ?m4 x = Some (nd1\<lparr>hn_add_next := ?q, hn_add_prev := -1\<rparr>)" using x1 by simp
  have "hm_insert_add_list_head (Some x) m = Some ?m5"
    using m1(1,2) s2 s4 s5 x4 h(1) unfolding hm_insert_add_list_head_def add_ok_def
    by (simp add: Let_def del: hm_upd_sel(1) split del: if_split cong: if_cong)
  moreover have "frame_add m ?m5"
  proof -
    have "frame_add m1 ?m3" using frame_add_upd [of "hn_add_next_update (\<lambda>_. ?q)" m1 x]
      by (simp add: frame_add_def hm_proj fun_eq_iff)
    then have "frame_add m1 ?m5"
      by (rule frame_add_trans [OF frame_add_trans, OF _ frame_add_upd frame_add_upd]) simp_all
    with m1(3) show ?thesis by (rule frame_add_trans)
  qed
  moreover have "add_ok ?m5 (x # ?as)"
    unfolding add_ok_def
  proof (intro conjI ballI allI impI)
    show "hm_add_tail ?m5 = llast (x # ?as)"
      using m1(2) inv llast_eq_invalid [of ?as] by (auto simp: add_ok_def)
  next
    fix y assume "y \<in> set (x # ?as)"
    then show "hm_node ?m5 y \<noteq> None" using m1(2) x1 by (auto simp: add_ok_def)
  next
    fix y yd assume y: "hm_node ?m5 y = Some yd"
    then have "y \<noteq> -1" using hm_dom_handle(3) [OF dom1, of y] by (auto split: if_splits)
    then have "lprev (x # ?as) y = (if y = ?q then x else lprev ?as y)" by (cases "?as = []") auto
    then show "hn_add_next yd = lnext (x # ?as) y" "hn_add_prev yd = lprev (x # ?as) y"
      using y m1(2) qx dist by (auto simp: add_ok_def lprev_notin split: if_splits)
  qed (use dist in auto)
  ultimately show ?thesis by blast
qed

lemma hm_touch_ok:
  assumes ok: "add_ok m as" and dom: "hm_dom_ok m" and x: "hm_node m x = Some nd"
  shows "\<exists>m'. hm_touch now (Some x) m = Some m' \<and> add_ok m' (x # remove1 x as) \<and> frame_add m m'"
proof -
  let ?f = "\<lambda>nd. nd\<lparr>hn_add_info_1 := now, hn_add_info_2 := hn_add_info_2 nd + 1\<rparr>"
  let ?m = "hm_upd x ?f m"
  have ok': "add_ok ?m as" using ok by (auto simp: add_ok_def split: if_splits)
  have x': "hm_node ?m x = Some (?f nd)" using x by simp
  have "frame_add m ?m" by (rule frame_add_upd) simp
  then show ?thesis
    using insert_add_list_head_ok [OF ok' _ x'] dom hm_store_eq [OF x, of ?f]
    by (auto simp: hm_touch_def intro: frame_add_trans)
qed

section \<open>Buckets\<close>

definition hm_bid :: "int \<Rightarrow> c_int \<Rightarrow> int" where "hm_bid n k = uint k mod n"

lemma hm_bid_range: "0 < n \<Longrightarrow> 0 \<le> hm_bid n k \<and> hm_bid n k < n"
  by (simp add: hm_bid_def)

lemma hm_get_bucket_id_ok:
  assumes "0 < hm_bucket_size m" "hm_bucket_size m \<le> int_max"
  shows "hm_get_bucket_id k m = Some (hm_bid (hm_bucket_size m) k)"
proof -
  let ?n = "hm_bucket_size m"
  have u: "uint (word_of_int ?n :: c_int) = ?n"
    using assms by (simp add: unsigned_of_int take_bit_int_eq_self_iff int_max_def)
  then have nz: "(word_of_int ?n :: c_int) \<noteq> 0" using assms(1) by (metis less_irrefl unsigned_0)
  have "k mod word_of_int ?n = word_of_int (uint k mod ?n)"
    by (simp add: word_mod_def u)
  moreover have "0 \<le> uint k mod ?n" "uint k mod ?n < ?n" using assms(1) by simp_all
  ultimately have "sint (k mod word_of_int ?n) = uint k mod ?n"
    using assms(2) by (simp add: int_min_def)
  then show ?thesis using nz by (simp add: hm_get_bucket_id_def hm_bid_def)
qed

definition list_ok :: "CHashMap \<Rightarrow> int list \<Rightarrow> (int \<Rightarrow> int list) \<Rightarrow> bool" where
  "list_ok m fs bs \<longleftrightarrow> 0 < hm_bucket_size m \<and> hm_bucket_size m \<le> int_max \<and>
     distinct fs \<and> hm_free_list m = lhead fs \<and> (\<forall>x \<in> set fs. NX m x = Some (lnext fs x)) \<and>
     (\<forall>b. 0 \<le> b \<and> b < hm_bucket_size m \<longrightarrow> distinct (bs b) \<and> hm_bucket m b = lhead (bs b) \<and>
        (\<forall>x \<in> set (bs b). NX m x = Some (lnext (bs b) x) \<and> NP m x = Some (lprev (bs b) x) \<and> x \<notin> set fs \<and>
           (\<exists>k. KY m x = Some k \<and> hm_bid (hm_bucket_size m) k = b)))"

lemma list_okD:
  assumes "list_ok m fs bs"
  shows "0 < hm_bucket_size m" "hm_bucket_size m \<le> int_max" "distinct fs" "hm_free_list m = lhead fs"
    "x \<in> set fs \<Longrightarrow> NX m x = Some (lnext fs x)"
    "0 \<le> b \<Longrightarrow> b < hm_bucket_size m \<Longrightarrow> distinct (bs b)"
    "0 \<le> b \<Longrightarrow> b < hm_bucket_size m \<Longrightarrow> hm_bucket m b = lhead (bs b)"
    "0 \<le> b \<Longrightarrow> b < hm_bucket_size m \<Longrightarrow> x \<in> set (bs b) \<Longrightarrow> NX m x = Some (lnext (bs b) x)"
    "0 \<le> b \<Longrightarrow> b < hm_bucket_size m \<Longrightarrow> x \<in> set (bs b) \<Longrightarrow> NP m x = Some (lprev (bs b) x)"
    "0 \<le> b \<Longrightarrow> b < hm_bucket_size m \<Longrightarrow> x \<in> set (bs b) \<Longrightarrow> x \<notin> set fs"
    "0 \<le> b \<Longrightarrow> b < hm_bucket_size m \<Longrightarrow> x \<in> set (bs b) \<Longrightarrow> \<exists>k. KY m x = Some k \<and> hm_bid (hm_bucket_size m) k = b"
  using assms unfolding list_ok_def by blast+

lemma list_ok_cong:
  assumes "list_ok m fs bs" "hm_bucket_size m' = hm_bucket_size m" "hm_free_list m' = hm_free_list m" "hm_bucket m' = hm_bucket m"
    "\<And>x. x \<notin> S \<Longrightarrow> KY m' x = KY m x \<and> NX m' x = NX m x \<and> NP m' x = NP m x"
    "S \<inter> set fs = {}" "\<And>b. 0 \<le> b \<Longrightarrow> b < hm_bucket_size m \<Longrightarrow> S \<inter> set (bs b) = {}"
  shows "list_ok m' fs bs"
  unfolding list_ok_def
proof (intro conjI ballI allI impI)
  note L = list_okD [OF assms(1)]
  show "0 < hm_bucket_size m'" "hm_bucket_size m' \<le> int_max" "distinct fs" "hm_free_list m' = lhead fs"
    using L(1-4) assms(2-4) by simp_all
  show "NX m' x = Some (lnext fs x)" if "x \<in> set fs" for x
    using L(5) [OF that] assms(5) [of x] assms(6) that by auto
  fix b assume b: "0 \<le> b \<and> b < hm_bucket_size m'"
  show "distinct (bs b)" "hm_bucket m' b = lhead (bs b)" using L(6,7) [of b] b assms(2,4) by simp_all
  fix x assume x: "x \<in> set (bs b)"
  have "x \<notin> S" using assms(7) [of b] b assms(2) x by auto
  then show "NX m' x = Some (lnext (bs b) x)" "NP m' x = Some (lprev (bs b) x)" "x \<notin> set fs"
    "\<exists>k. KY m' x = Some k \<and> hm_bid (hm_bucket_size m') k = b"
    using L(8-11) [of b x] b assms(2) assms(5) [of x] x by simp_all
qed

lemma NX_dom: "NX m x = Some n \<Longrightarrow> \<exists>nd. hm_node m x = Some nd \<and> hn_node_next nd = n"
  by (auto simp: NX_def)

lemma list_ok_bucket_invalid:
  "list_ok m fs bs \<Longrightarrow> hm_dom_ok m \<Longrightarrow> 0 \<le> b \<Longrightarrow> b < hm_bucket_size m \<Longrightarrow> -1 \<notin> set (bs b)"
  using list_okD(8) [of m fs bs b "-1"] NX_dom [of m "-1"] hm_dom_handle(3) [of m "-1"] by blast

lemma list_ok_free_invalid: "list_ok m fs bs \<Longrightarrow> hm_dom_ok m \<Longrightarrow> -1 \<notin> set fs"
  using list_okD(5) [of m fs bs "-1"] NX_dom [of m "-1"] hm_dom_handle(3) [of m "-1"] by blast

lemma list_ok_bucket_chain:
  assumes "list_ok m fs bs" "hm_dom_ok m" "0 \<le> b" "b < hm_bucket_size m"
  shows "hm_get_bucket b m = Some (lhead (bs b))" "chain (NX m) (lhead (bs b)) (bs b)"
proof -
  show "hm_get_bucket b m = Some (lhead (bs b))"
    using list_okD(7) [OF assms(1,3,4)] assms(3,4) by (simp add: hm_get_bucket_def)
  show "chain (NX m) (lhead (bs b)) (bs b)"
    using list_okD(6,8) [OF assms(1,3,4)] list_ok_bucket_invalid [OF assms] by (intro chain_lnext) auto
qed

lemma hm_bucket_len_loop_ok:
  "chain (NX m) h xs \<Longrightarrow> hm_bucket_len_loop m h c = Some (c + int (length xs))"
proof (induction xs arbitrary: h c)
  case Nil
  then show ?case by (subst hm_bucket_len_loop.simps) simp
next
  case (Cons x xs)
  then obtain n nd where n: "h = x" "x \<noteq> -1" "chain (NX m) n xs" "hm_node m x = Some nd" "hn_node_next nd = n"
    by (auto dest: NX_dom)
  then show ?case
    using Cons.IH [of n "c + 1"] by (subst hm_bucket_len_loop.simps) (simp add: hm_handler2ptr_def)
qed

lemma hm_get_bucket_list_len_ok:
  "list_ok m fs bs \<Longrightarrow> hm_dom_ok m \<Longrightarrow> 0 \<le> b \<Longrightarrow> b < hm_bucket_size m \<Longrightarrow>
     hm_get_bucket_list_len b m = Some (int (length (bs b)))"
  using list_ok_bucket_chain [of m fs bs b] hm_bucket_len_loop_ok [of m "lhead (bs b)" "bs b" 0]
  by (simp add: hm_get_bucket_list_len_def)

text \<open>The operations on the bucket lists and on the free list leave the additional list, the keys and the data alone.\<close>

definition frame_list :: "CHashMap \<Rightarrow> CHashMap \<Rightarrow> bool" where
  "frame_list m m' \<longleftrightarrow> hm_pool_tail m' = hm_pool_tail m \<and> hm_node_total m' = hm_node_total m \<and>
     hm_bucket_size m' = hm_bucket_size m \<and> hm_used_bucket_num m' = hm_used_bucket_num m \<and>
     hm_add_head m' = hm_add_head m \<and> hm_add_tail m' = hm_add_tail m \<and> hm_allocator m' = hm_allocator m \<and>
     KY m' = KY m \<and> CL m' = CL m \<and> CH m' = CH m \<and> AN m' = AN m \<and> AP m' = AP m"

lemma frame_list_trans: "frame_list a b \<Longrightarrow> frame_list b c \<Longrightarrow> frame_list a c"
  by (simp add: frame_list_def)

lemma frame_list_upd:
  "(\<And>nd. hn_key (f nd) = hn_key nd \<and> hn_chunk_len (f nd) = hn_chunk_len nd \<and> hn_chunk_head (f nd) = hn_chunk_head nd \<and>
      hn_add_next (f nd) = hn_add_next nd \<and> hn_add_prev (f nd) = hn_add_prev nd) \<Longrightarrow> frame_list m (hm_upd x f m)"
  by (auto simp: frame_list_def hm_proj fun_eq_iff option.map_comp comp_def intro!: option.map_cong)

lemma frame_list_header:
  "frame_list m m' \<Longrightarrow> frame_list m (m'\<lparr>hm_bucket := v\<rparr>)" "frame_list m m' \<Longrightarrow> frame_list m (m'\<lparr>hm_used_node_num := n\<rparr>)"
  "frame_list m m' \<Longrightarrow> frame_list m (m'\<lparr>hm_free_list := n\<rparr>)"
  by (simp_all add: frame_list_def hm_proj fun_eq_iff)

lemma hm_dom_ok_frame_list: "frame_list m m' \<Longrightarrow> hm_dom_ok m \<Longrightarrow> hm_dom_ok m'"
  unfolding hm_dom_ok_def frame_list_def KY_def fun_eq_iff by (metis map_option_eq_Some)

lemma frame_list_node:
  assumes "frame_list m m'"
  shows "hm_node m' x = None \<longleftrightarrow> hm_node m x = None"
    and "hm_node m' x = Some nd' \<Longrightarrow> \<exists>nd. hm_node m x = Some nd \<and> hn_add_next nd = hn_add_next nd' \<and>
       hn_add_prev nd = hn_add_prev nd' \<and> hn_key nd = hn_key nd' \<and> hn_chunk_head nd = hn_chunk_head nd'"
proof -
  have "AN m' x = AN m x" "AP m' x = AP m x" "KY m' x = KY m x" "CH m' x = CH m x"
    using assms by (simp_all add: frame_list_def)
  then show "hm_node m' x = None \<longleftrightarrow> hm_node m x = None"
    and "hm_node m' x = Some nd' \<Longrightarrow> \<exists>nd. hm_node m x = Some nd \<and> hn_add_next nd = hn_add_next nd' \<and>
       hn_add_prev nd = hn_add_prev nd' \<and> hn_key nd = hn_key nd' \<and> hn_chunk_head nd = hn_chunk_head nd'"
    by (cases "hm_node m x"; cases "hm_node m' x"; simp add: AN_def AP_def KY_def CH_def)+
qed

lemma add_ok_frame_list:
  assumes "frame_list m m'" "add_ok m as"
  shows "add_ok m' as"
  unfolding add_ok_def
proof (intro conjI ballI allI impI)
  fix x nd' assume "hm_node m' x = Some nd'"
  then show "hn_add_next nd' = lnext as x" "hn_add_prev nd' = lprev as x"
    using frame_list_node(2) [OF assms(1)] assms(2) by (force simp: add_ok_def)+
qed (use assms frame_list_node(1) [OF assms(1)] in \<open>auto simp: add_ok_def frame_list_def\<close>)

text \<open>Pointwise values after an update.\<close>

lemma proj_upd:
  "NX (hm_upd x f m) y = (if y = x then map_option (hn_node_next \<circ> f) (hm_node m y) else NX m y)"
  "NP (hm_upd x f m) y = (if y = x then map_option (hn_node_prev \<circ> f) (hm_node m y) else NP m y)"
  "KY (hm_upd x f m) y = (if y = x then map_option (hn_key \<circ> f) (hm_node m y) else KY m y)"
  by (simp_all add: hm_proj option.map_comp)


lemma hm_dom_invalid: "hm_dom_ok m \<Longrightarrow> hm_node m (-1) = None"
  using hm_dom_handle(3) [of m "-1"] by (cases "hm_node m (-1)") auto

text \<open>A handle is on the list of one bucket only.\<close>

lemma list_ok_bucket_unique:
  assumes "list_ok m fs bs" "0 \<le> b" "b < hm_bucket_size m" "x \<in> set (bs b)" "KY m x = Some k"
  shows "b = hm_bid (hm_bucket_size m) k"
  using list_okD(11) [OF assms(1-4)] assms(5) by auto

lemma hm_free_list_insert_ok:
  assumes ok: "list_ok m fs bs" and dom: "hm_dom_ok m" and x: "hm_node m x = Some nd"
    and free: "x \<notin> set fs" "\<And>b. 0 \<le> b \<Longrightarrow> b < hm_bucket_size m \<Longrightarrow> x \<notin> set (bs b)"
  shows "\<exists>m'. hm_free_list_insert (Some x) m = Some m' \<and> list_ok m' (x # fs) bs \<and> frame_list m m' \<and>
     hm_used_node_num m' = hm_used_node_num m"
proof -
  let ?m1 = "hm_upd x (hn_node_next_update (\<lambda>_. hm_free_list m)) m"
  let ?m2 = "?m1\<lparr>hm_free_list := x\<rparr>"
  note L = list_okD [OF ok]
  have e: "hm_free_list_insert (Some x) m = Some ?m2"
    using hm_store_eq [OF x] hm_dom_handle(1) [OF dom x] by (simp add: hm_free_list_insert_def)
  have f: "frame_list m ?m2" by (rule frame_list_header(3)) (rule frame_list_upd, simp)
  have p: "NX ?m2 y = (if y = x then Some (lhead fs) else NX m y)" "NP ?m2 y = NP m y" "KY ?m2 y = KY m y" for y
    using x L(4) by (auto simp: hm_proj)
  have "list_ok ?m2 (x # fs) bs"
    unfolding list_ok_def
  proof (intro conjI ballI allI impI)
    fix y assume "y \<in> set (x # fs)"
    then show "NX ?m2 y = Some (lnext (x # fs) y)" using L(5) free(1) unfolding p by auto
  next
    fix b y assume b: "0 \<le> b \<and> b < hm_bucket_size ?m2" and y: "y \<in> set (bs b)"
    then have "y \<noteq> x" using free(2) [of b] by auto
    then show "NX ?m2 y = Some (lnext (bs b) y)" "NP ?m2 y = Some (lprev (bs b) y)" "y \<notin> set (x # fs)"
      "\<exists>k. KY ?m2 y = Some k \<and> hm_bid (hm_bucket_size ?m2) k = b"
      using L(8-11) [of b y] b y unfolding p by auto
  qed (use L(1,2,3,6,7) free(1) in auto)
  then show ?thesis using e f by auto
qed

lemma hm_free_list_remove_ok:
  assumes ok: "list_ok m (x # fs) bs" and dom: "hm_dom_ok m"
  shows "\<exists>m'. hm_free_list_remove m = Some (Some x, m') \<and> list_ok m' fs bs \<and> frame_list m m' \<and>
     hm_used_node_num m' = hm_used_node_num m \<and> hm_free_list_insert (Some x) m' = Some m"
proof -
  note L = list_okD [OF ok]
  have "NX m x = Some (lhead fs)" using L(5) [of x] by simp
  then obtain nd where nd: "hm_node m x = Some nd" "hn_node_next nd = lhead fs" by (auto dest: NX_dom)
  let ?m1 = "m\<lparr>hm_free_list := lhead fs\<rparr>"
  let ?m2 = "hm_upd x (hn_node_next_update (\<lambda>_. -1)) ?m1"
  have s: "hm_store (Some x) (hn_node_next_update (\<lambda>_. -1)) ?m1 = Some ?m2" using nd by (intro hm_store_eq) simp
  have e: "hm_free_list_remove m = Some (Some x, ?m2)"
    using L(4) nd s hm_dom_handle(2,3) [OF dom nd(1)] by (simp add: hm_free_list_remove_def)
  have f: "frame_list m ?m2"
    by (rule frame_list_trans [OF frame_list_header(3) frame_list_upd]) (simp_all add: frame_list_def)
  have p: "NX ?m2 y = NX m y \<and> NP ?m2 y = NP m y \<and> KY ?m2 y = KY m y" if "y \<noteq> x" for y
    using that by (auto simp: hm_proj)
  have "list_ok ?m2 fs bs"
    unfolding list_ok_def
  proof (intro conjI ballI allI impI)
    fix y assume y: "y \<in> set fs"
    then have "y \<noteq> x" using L(3) by auto
    then show "NX ?m2 y = Some (lnext fs y)" using p [of y] L(5) [of y] y by simp
  next
    fix b y assume b: "0 \<le> b \<and> b < hm_bucket_size ?m2" and y: "y \<in> set (bs b)"
    then have "y \<noteq> x" using L(10) [of b y] by auto
    then show "NX ?m2 y = Some (lnext (bs b) y)" "NP ?m2 y = Some (lprev (bs b) y)" "y \<notin> set fs"
      "\<exists>k. KY ?m2 y = Some k \<and> hm_bid (hm_bucket_size ?m2) k = b"
      using L(8-11) [of b y] b y p [of y] by auto
  qed (use L(1-4,6,7) in auto)
  moreover have "hm_free_list_insert (Some x) ?m2 = Some m"
  proof -
    have d2: "hm_dom_ok ?m2" using hm_dom_ok_frame_list [OF f dom] .
    have x2: "hm_node ?m2 x = Some (nd\<lparr>hn_node_next := -1\<rparr>)" using nd by simp
    have "hm_free_list_insert (Some x) ?m2 = Some ((hm_upd x (hn_node_next_update (\<lambda>_. lhead fs)) ?m2)\<lparr>hm_free_list := x\<rparr>)"
      using hm_store_eq [OF x2] hm_dom_handle(1) [OF d2 x2] by (simp add: hm_free_list_insert_def)
    also have "(hm_upd x (hn_node_next_update (\<lambda>_. lhead fs)) ?m2)\<lparr>hm_free_list := x\<rparr> = m"
      using nd L(4) by (intro CHashMap.equality) (auto simp: fun_eq_iff)
    finally show ?thesis .
  qed
  ultimately show ?thesis using e f by auto
qed

lemma hm_insert_node_list_ok:
  assumes ok: "list_ok m fs bs" and dom: "hm_dom_ok m" and x: "hm_node m x = Some nd" and b: "b = hm_bid (hm_bucket_size m) (hn_key nd)"
    and free: "x \<notin> set fs" "x \<notin> set (bs b)"
  shows "\<exists>m'. hm_insert_node_list (Some x) m = Some m' \<and> list_ok m' fs (bs(b := x # bs b)) \<and> frame_list m m' \<and>
     hm_used_node_num m' = hm_used_node_num m + 1"
proof -
  note L = list_okD [OF ok]
  have br: "0 \<le> b" "b < hm_bucket_size m" using hm_bid_range [OF L(1)] b by auto
  have inv: "-1 \<notin> set (bs b)" using list_ok_bucket_invalid [OF ok dom br] .
  let ?q = "lhead (bs b)"
  have q: "?q \<noteq> -1 \<Longrightarrow> \<exists>n. hm_node m ?q = Some n"
    using lhead_in [of "bs b"] L(8) [OF br, of ?q] NX_dom [of m ?q] by (cases "bs b = []") auto
  have qx: "?q \<noteq> x" using lhead_in [of "bs b"] free(2) hm_dom_handle(3) [OF dom x] by (cases "bs b = []") auto
  let ?m1 = "hm_upd x (\<lambda>nd. nd\<lparr>hn_node_next := ?q, hn_node_prev := -1\<rparr>) m"
  let ?m2 = "?m1\<lparr>hm_bucket := (hm_bucket m)(b := x)\<rparr>"
  let ?m3 = "hm_upd ?q (hn_node_prev_update (\<lambda>_. x)) ?m2"
  let ?m4 = "?m3\<lparr>hm_used_node_num := hm_used_node_num m + 1\<rparr>"
  have s1: "hm_store (Some x) (\<lambda>nd. nd\<lparr>hn_node_next := ?q, hn_node_prev := -1\<rparr>) m = Some ?m1" using x by (rule hm_store_eq)
  have s2: "hm_set_bucket b x ?m1 = Some ?m2" using br by (simp add: hm_set_bucket_def)
  have s3: "hm_store_if ?q (hn_node_prev_update (\<lambda>_. x)) ?m2 = Some ?m3"
    by (rule hm_store_if_ok) (use dom q in \<open>auto simp: hm_dom_ok_def\<close>)
  have e: "hm_insert_node_list (Some x) m = Some ?m4"
    using x b s1 s2 s3 hm_get_bucket_id_ok [OF L(1,2), of "hn_key nd"] list_ok_bucket_chain(1) [OF ok dom br] hm_dom_handle(1) [OF dom x]
    by (simp add: hm_insert_node_list_def Let_def)
  have f: "frame_list m ?m4"
    by (intro frame_list_header frame_list_trans [OF frame_list_header(1) frame_list_upd] frame_list_upd) simp_all
  have p: "NX ?m4 y = (if y = x then Some ?q else NX m y)"
      "NP ?m4 y = (if y = x then Some (-1) else if y = ?q \<and> bs b \<noteq> [] then Some x else NP m y)" "KY ?m4 y = KY m y" for y
    using x q qx inv lhead_eq_invalid [OF inv] hm_dom_invalid [OF dom]
    by (auto simp: hm_proj split: if_splits)
  have "list_ok ?m4 fs (bs(b := x # bs b))"
    unfolding list_ok_def
  proof (intro conjI ballI allI impI)
    fix y assume "y \<in> set fs"
    then show "NX ?m4 y = Some (lnext fs y)" using L(5) free(1) unfolding p by auto
  next
    fix c y assume c: "0 \<le> c \<and> c < hm_bucket_size ?m4" and y: "y \<in> set ((bs(b := x # bs b)) c)"
    have K: "KY m x = Some (hn_key nd)" using x by (simp add: KY_def)
    have q_in: "bs b \<noteq> [] \<Longrightarrow> ?q \<in> set (bs b)" by (rule lhead_in)
    have far: "y \<noteq> x" "\<not> (y = ?q \<and> bs b \<noteq> [])" if "c \<noteq> b"
      using that y c L(11) [OF br, of ?q] q_in list_ok_bucket_unique [OF ok, of c y] K b by auto
    show "NX ?m4 y = Some (lnext ((bs(b := x # bs b)) c) y)"
      using L(8) [of c y] c y free(2) far unfolding p by (cases "c = b") auto
    show "NP ?m4 y = Some (lprev ((bs(b := x # bs b)) c) y)"
      using L(9) [of c y] c y free(2) far qx unfolding p by (cases "c = b") (auto simp: lprev_notin)
    show "y \<notin> set fs" using L(10) [of c y] c y free(1) by (auto split: if_splits)
    show "\<exists>k. KY ?m4 y = Some k \<and> hm_bid (hm_bucket_size ?m4) k = c"
      using L(11) [of c y] c y K b unfolding p by (auto split: if_splits)
  qed (use L(1-4,6,7) free in \<open>auto split: if_splits\<close>)
  then show ?thesis using e f by auto
qed

lemma hm_delete_from_node_list_ok:
  assumes ok: "list_ok m fs bs" and dom: "hm_dom_ok m" and x: "hm_node m x = Some nd" and b: "b = hm_bid (hm_bucket_size m) (hn_key nd)"
    and mem: "x \<in> set (bs b)"
  shows "\<exists>m'. hm_delete_from_node_list (Some x) m = Some m' \<and> list_ok m' fs (bs(b := remove1 x (bs b))) \<and> frame_list m m' \<and>
     hm_used_node_num m' = hm_used_node_num m - 1"
proof -
  note L = list_okD [OF ok]
  have br: "0 \<le> b" "b < hm_bucket_size m" using hm_bid_range [OF L(1)] b by auto
  have inv: "-1 \<notin> set (bs b)" and dist: "distinct (bs b)" using list_ok_bucket_invalid [OF ok dom br] L(6) [OF br] by auto
  let ?p = "lprev (bs b) x" and ?q = "lnext (bs b) x"
  have nd: "hn_node_next nd = ?q" "hn_node_prev nd = ?p"
    using L(8,9) [OF br mem] x by (auto simp: NX_def NP_def)
  have pq: "?p \<noteq> x" "?q \<noteq> x" using lprev_neq [OF dist inv mem] lnext_neq [OF dist inv mem] by auto
  have ex: "hm_node m y \<noteq> None" if "y \<in> set (bs b)" for y using L(8) [OF br that] NX_dom by fastforce
  have in': "?p \<noteq> -1 \<Longrightarrow> hm_node m ?p \<noteq> None" "?q \<noteq> -1 \<Longrightarrow> hm_node m ?q \<noteq> None"
    using lprev_in [of "bs b" x] lnext_in [of "bs b" x] ex by auto
  let ?m1 = "hm_upd ?p (hn_node_next_update (\<lambda>_. ?q)) m"
  let ?m2 = "hm_upd ?q (hn_node_prev_update (\<lambda>_. ?p)) ?m1"
  let ?h = "if x = lhead (bs b) then hn_node_next nd else lhead (bs b)"
  let ?m3 = "?m2\<lparr>hm_bucket := (hm_bucket m)(b := ?h)\<rparr>"
  let ?f = "\<lambda>nd :: HashNode. nd\<lparr>hn_node_next := -1, hn_node_prev := -1\<rparr>"
  let ?m4 = "(hm_upd x ?f ?m3)\<lparr>hm_used_node_num := hm_used_node_num m - 1\<rparr>"
  have s1: "hm_store_if ?p (hn_node_next_update (\<lambda>_. ?q)) m = Some ?m1"
    by (rule hm_store_if_ok [OF dom in'(1)])
  have s2: "hm_store_if ?q (hn_node_prev_update (\<lambda>_. ?p)) ?m1 = Some ?m2"
    by (rule hm_store_if_ok) (use dom in'(2) in auto)
  have x1: "hm_node ?m1 x = Some nd" "hm_node ?m2 x = Some nd" using x pq by auto
  have s3: "hm_set_bucket b ?h ?m2 = Some ?m3" "hm_get_bucket b ?m2 = Some (lhead (bs b))"
    using br L(7) [OF br] by (simp_all add: hm_set_bucket_def hm_get_bucket_def)
  have s4: "hm_store (Some x) ?f ?m3 = Some (hm_upd x ?f ?m3)" using x1 by (intro hm_store_eq) simp
  have i2: "hm_get_bucket_id (hn_key nd) ?m2 = Some b"
    using hm_get_bucket_id_ok [of ?m2 "hn_key nd"] L(1,2) b by simp
  have e: "hm_delete_from_node_list (Some x) m = Some ?m4"
    unfolding hm_delete_from_node_list_def
    by (simp add: Let_def x nd s1 s2 s3 s4 x1 i2 hm_dom_handle(1) [OF dom x] del: hm_upd_sel(1) split del: if_split)
  have f: "frame_list m ?m4"
    by (intro frame_list_header frame_list_trans [OF frame_list_header(1) frame_list_upd]
        frame_list_trans [OF frame_list_upd frame_list_upd]) simp_all
  have p: "NX ?m4 y = (if y = x then Some (-1) else if y = ?p then Some ?q else NX m y)"
      "NP ?m4 y = (if y = x then Some (-1) else if y = ?q then Some ?p else NP m y)" "KY ?m4 y = KY m y"
    if "y \<noteq> -1" for y
    using that x in' pq by (auto simp: hm_proj option.map_comp comp_def split: if_splits)
  have "list_ok ?m4 fs (bs(b := remove1 x (bs b)))"
    unfolding list_ok_def
  proof (intro conjI ballI allI impI)
    fix y assume y: "y \<in> set fs"
    have y1: "y \<noteq> -1" using list_ok_free_invalid [OF ok dom] y by auto
    have "y \<notin> set (bs b)" using L(10) [OF br, of y] y by auto
    then have "y \<noteq> x \<and> y \<noteq> ?p" using mem lprev_in [of "bs b" x] y1 by auto
    then show "NX ?m4 y = Some (lnext fs y)" using L(5) [OF y] unfolding p [OF y1] by simp
  next
    fix c assume c: "0 \<le> c \<and> c < hm_bucket_size ?m4"
    show "distinct ((bs(b := remove1 x (bs b))) c)" using L(6) [of c] c by auto
    show "hm_bucket ?m4 c = lhead ((bs(b := remove1 x (bs b))) c)"
      using L(7) [of c] c mem nd(1) lhead_remove1 [OF dist, of x] by auto
    fix y assume y: "y \<in> set ((bs(b := remove1 x (bs b))) c)"
    have yc: "y \<in> set (bs c)" using y set_remove1_subset [of x "bs b"] by (auto split: if_splits)
    have y1: "y \<noteq> -1" using list_ok_bucket_invalid [OF ok dom, of c] c yc by auto
    have yx: "y \<noteq> x"
      using y dist x b list_ok_bucket_unique [OF ok, of c y "hn_key nd"] c yc by (auto simp: KY_def split: if_splits)
    have far: "y \<noteq> ?p" "y \<noteq> ?q" if "c \<noteq> b"
    proof -
      have "y \<notin> set (bs b)"
        using that list_okD(11) [OF ok, of c y] list_ok_bucket_unique [OF ok br, of y] yc c by auto
      then show "y \<noteq> ?p" "y \<noteq> ?q" using lprev_in [of "bs b" x] lnext_in [of "bs b" x] y1 by auto
    qed
    show "NX ?m4 y = Some (lnext ((bs(b := remove1 x (bs b))) c) y)"
      using L(8) [of c y] c yc yx far lnext_unlink [OF dist inv mem yx y1] unfolding p [OF y1] by (cases "c = b") auto
    show "NP ?m4 y = Some (lprev ((bs(b := remove1 x (bs b))) c) y)"
      using L(9) [of c y] c yc yx far lprev_unlink [OF dist inv mem yx y1] unfolding p [OF y1] by (cases "c = b") auto
    show "y \<notin> set fs" using L(10) [of c y] c yc by auto
    show "\<exists>k. KY ?m4 y = Some k \<and> hm_bid (hm_bucket_size ?m4) k = c"
      using L(11) [of c y] c yc unfolding p [OF y1] by auto
  qed (use L(1-4) in auto)
  then show ?thesis using e f by auto
qed

section \<open>Lookup\<close>

lemma KY_node: "KY m x = Some k \<Longrightarrow> \<exists>nd. hm_node m x = Some nd \<and> hn_key nd = k"
  by (auto simp: KY_def)

lemma hm_find_loop_none:
  "chain (NX m) h xs \<Longrightarrow> \<forall>x \<in> set xs. KY m x \<noteq> Some k \<Longrightarrow> hm_find_loop now k h m = Some (None, m)"
proof (induction xs arbitrary: h)
  case Nil
  then show ?case by (subst hm_find_loop.simps) simp
next
  case (Cons x xs)
  then obtain n nd where n: "h = x" "x \<noteq> -1" "chain (NX m) n xs" "hm_node m x = Some nd" "hn_node_next nd = n"
    by (auto dest: NX_dom)
  moreover have "hn_key nd \<noteq> k" using Cons.prems(2) n(4) by (auto simp: KY_def)
  ultimately show ?case
    using Cons.IH [of n] Cons.prems(2) by (subst hm_find_loop.simps) (simp add: hm_handler2ptr_def)
qed

lemma hm_find_loop_found:
  "chain (NX m) h (ys @ x # zs) \<Longrightarrow> \<forall>y \<in> set ys. KY m y \<noteq> Some k \<Longrightarrow> KY m x = Some k \<Longrightarrow>
     hm_find_loop now k h m = do { m \<leftarrow> hm_touch now (Some x) m; Some (Some x, m) }"
proof (induction ys arbitrary: h)
  case Nil
  then show ?case by (subst hm_find_loop.simps) (auto simp: hm_handler2ptr_def Let_def dest!: KY_node)
next
  case (Cons y ys)
  then obtain n nd where n: "h = y" "y \<noteq> -1" "chain (NX m) n (ys @ x # zs)" "hm_node m y = Some nd" "hn_node_next nd = n"
    by (auto dest: NX_dom)
  moreover have "hn_key nd \<noteq> k" using Cons.prems(2) n(4) by (auto simp: KY_def)
  ultimately show ?case
    using Cons.IH [of n] Cons.prems(2,3) by (subst hm_find_loop.simps) (simp add: hm_handler2ptr_def)
qed

lemma hm_find_node_none:
  assumes ok: "list_ok m fs bs" and dom: "hm_dom_ok m"
    and no: "\<forall>x \<in> set (bs (hm_bid (hm_bucket_size m) k)). KY m x \<noteq> Some k"
  shows "hm_find_node now k m = Some (None, m)"
proof -
  note L = list_okD [OF ok]
  let ?b = "hm_bid (hm_bucket_size m) k"
  have br: "0 \<le> ?b" "?b < hm_bucket_size m" using hm_bid_range [OF L(1)] by auto
  note c = list_ok_bucket_chain [OF ok dom br]
  show ?thesis
    using hm_get_bucket_id_ok [OF L(1,2)] c(1) hm_find_loop_none [OF c(2) no] by (simp add: hm_find_node_def)
qed

lemma hm_find_node_found:
  assumes ok: "list_ok m fs bs" and dom: "hm_dom_ok m" and add: "add_ok m as"
    and x: "x \<in> set (bs (hm_bid (hm_bucket_size m) k))" "KY m x = Some k"
    and uniq: "\<And>y. y \<in> set (bs (hm_bid (hm_bucket_size m) k)) \<Longrightarrow> KY m y = Some k \<Longrightarrow> y = x"
  shows "\<exists>m'. hm_find_node now k m = Some (Some x, m') \<and> add_ok m' (x # remove1 x as) \<and> frame_add m m'"
proof -
  note L = list_okD [OF ok]
  let ?b = "hm_bid (hm_bucket_size m) k"
  have br: "0 \<le> ?b" "?b < hm_bucket_size m" using hm_bid_range [OF L(1)] by auto
  note c = list_ok_bucket_chain [OF ok dom br]
  obtain ys zs where ys: "bs ?b = ys @ x # zs" using split_list [OF x(1)] by blast
  have no: "\<forall>y \<in> set ys. KY m y \<noteq> Some k"
    using uniq ys L(6) [OF br] by auto
  obtain nd where nd: "hm_node m x = Some nd" using KY_node [OF x(2)] by auto
  show ?thesis
    using hm_get_bucket_id_ok [OF L(1,2)] c(1) hm_find_loop_found [OF _ no x(2), of "lhead (bs ?b)" zs] c(2) ys
      hm_touch_ok [OF add dom nd, of now]
    by (auto simp: hm_find_node_def)
qed

end
