(* ===== verification/HashMapInv.thy ===== *)
theory HashMapInv
  imports HashMapLists
begin

text \<open>
  The invariant of the hash map and the refinement of its operations: \<open>find_node\<close>, \<open>insert_node\<close>,
  \<open>update_node\<close>, \<open>replace_node\<close> and \<open>delete_node\<close> act on the pool exactly as lookup, insertion, update and
  deletion act on an association list kept in order of last use.
\<close>

section \<open>Invariant\<close>

text \<open>The blocks of the entries: a chunk chain of its own for every used node, just long enough.\<close>

definition data_ok :: "CHashMap \<Rightarrow> int list \<Rightarrow> int \<Rightarrow> int \<Rightarrow> (int \<Rightarrow> byte list option) \<Rightarrow> bool" where
  "data_ok m as z n B \<longleftrightarrow> chunk_rep (hm_allocator m) z n B \<and>
     (\<forall>x \<in> set as. \<exists>k h l d. KY m x = Some k \<and> CH m x = Some h \<and> CL m x = Some l \<and> B h = Some d \<and> 0 < l \<and>
        int (length d) = ((l + z - 1) div z) * z) \<and>
     inj_on (CH m) (set as) \<and> inj_on (KY m) (set as) \<and> (\<forall>h. B h \<noteq> None \<longrightarrow> Some h \<in> CH m ` set as)"

definition used_buckets :: "int \<Rightarrow> (int \<Rightarrow> int list) \<Rightarrow> int set" where
  "used_buckets n bs = {b. 0 \<le> b \<and> b < n \<and> bs b \<noteq> []}"

definition hm_inv :: "CHashMap \<Rightarrow> int list \<Rightarrow> (int \<Rightarrow> int list) \<Rightarrow> int list \<Rightarrow> int \<Rightarrow> int \<Rightarrow> (int \<Rightarrow> byte list option) \<Rightarrow> bool" where
  "hm_inv m fs bs as z n B \<longleftrightarrow> hm_dom_ok m \<and> add_ok m as \<and> list_ok m fs bs \<and> data_ok m as z n B \<and>
     (\<forall>x. hm_node m x \<noteq> None \<longleftrightarrow> x \<in> set fs \<or> x \<in> set as) \<and> set fs \<inter> set as = {} \<and>
     (\<forall>x k. x \<in> set as \<longrightarrow> KY m x = Some k \<longrightarrow> x \<in> set (bs (hm_bid (hm_bucket_size m) k))) \<and>
     (\<forall>b. 0 \<le> b \<longrightarrow> b < hm_bucket_size m \<longrightarrow> set (bs b) \<subseteq> set as) \<and>
     hm_used_node_num m = int (length as) \<and> hm_node_total m = int (length as + length fs) \<and>
     hm_used_bucket_num m = int (card (used_buckets (hm_bucket_size m) bs))"

lemma hm_invD:
  assumes "hm_inv m fs bs as z n B"
  shows "hm_dom_ok m" "add_ok m as" "list_ok m fs bs" "data_ok m as z n B"
    "hm_node m x \<noteq> None \<longleftrightarrow> x \<in> set fs \<or> x \<in> set as" "set fs \<inter> set as = {}"
    "x \<in> set as \<Longrightarrow> KY m x = Some k \<Longrightarrow> x \<in> set (bs (hm_bid (hm_bucket_size m) k))"
    "0 \<le> b \<Longrightarrow> b < hm_bucket_size m \<Longrightarrow> set (bs b) \<subseteq> set as"
    "hm_used_node_num m = int (length as)" "hm_node_total m = int (length as + length fs)"
    "hm_used_bucket_num m = int (card (used_buckets (hm_bucket_size m) bs))"
    "distinct as" "x \<in> set as \<Longrightarrow> \<exists>k. KY m x = Some k"
  using assms unfolding hm_inv_def add_ok_def data_ok_def by blast+

definition hm_entry :: "CHashMap \<Rightarrow> (int \<Rightarrow> byte list option) \<Rightarrow> int \<Rightarrow> c_int \<times> byte list" where
  "hm_entry m B x = (the (KY m x), take (nat (the (CL m x))) (the (B (the (CH m x)))))"

text \<open>
  \<open>hm_rep m z n f E\<close>: the table \<open>m\<close> has \<open>f\<close> free nodes and \<open>n\<close> free chunks of \<open>z\<close> bytes and
  holds the entries \<open>E\<close>, most recently used first.
\<close>

definition hm_rep :: "CHashMap \<Rightarrow> int \<Rightarrow> int \<Rightarrow> nat \<Rightarrow> (c_int \<times> byte list) list \<Rightarrow> bool" where
  "hm_rep m z n f E \<longleftrightarrow>
     (\<exists>fs bs as B. hm_inv m fs bs as z n B \<and> f = length fs \<and> E = map (hm_entry m B) as)"

text \<open>The abstract table: an association list in order of last use.\<close>

definition lru_touch :: "'k \<Rightarrow> ('k \<times> 'v) list \<Rightarrow> ('k \<times> 'v) list" where
  "lru_touch k E = (case map_of E k of None \<Rightarrow> E | Some v \<Rightarrow> (k, v) # filter (\<lambda>e. fst e \<noteq> k) E)"

definition lru_set :: "'k \<Rightarrow> 'v \<Rightarrow> ('k \<times> 'v) list \<Rightarrow> ('k \<times> 'v) list" where
  "lru_set k v E = (k, v) # filter (\<lambda>e. fst e \<noteq> k) E"

definition lru_delete :: "'k \<Rightarrow> ('k \<times> 'v) list \<Rightarrow> ('k \<times> 'v) list" where
  "lru_delete k E = filter (\<lambda>e. fst e \<noteq> k) E"

lemma frame_add_proj: "frame_add m m' \<Longrightarrow> KY m' = KY m \<and> CL m' = CL m \<and> CH m' = CH m \<and> hm_bucket_size m' = hm_bucket_size m"
  by (simp add: frame_add_def)

lemma hm_inv_frame_add:
  assumes inv: "hm_inv m fs bs as z n B" and f: "frame_add m m'" and add: "add_ok m' as'" and s: "set as' = set as" "length as' = length as"
  shows "hm_inv m' fs bs as' z n B"
proof -
  note I = hm_invD [OF inv]
  have "list_ok m' fs bs"
    by (rule list_ok_cong [OF I(3), where S = "{}"]) (use f in \<open>simp_all add: frame_add_def\<close>)
  moreover have "data_ok m' as' z n B"
    using I(4) f s unfolding data_ok_def frame_add_def by simp
  moreover have "hm_node m' x \<noteq> None \<longleftrightarrow> x \<in> set fs \<or> x \<in> set as'" for x
    using I(5) [of x] hm_node_frame [OF f, of x] s by simp
  ultimately show ?thesis
    unfolding hm_inv_def using hm_dom_ok_frame [OF f I(1)] add I(6-11) f s by (simp add: frame_add_def)
qed

lemma hm_entry_cong: "KY m' = KY m \<Longrightarrow> CL m' = CL m \<Longrightarrow> CH m' = CH m \<Longrightarrow> hm_entry m' B = hm_entry m B"
  by (simp add: hm_entry_def fun_eq_iff)

text \<open>Keys of the entries.\<close>

lemma hm_inv_key:
  assumes "hm_inv m fs bs as z n B" "x \<in> set as"
  shows "fst (hm_entry m B x) = k \<longleftrightarrow> KY m x = Some k"
  using hm_invD(13) [OF assms] by (auto simp: hm_entry_def)

lemma hm_inv_filter:
  assumes "hm_inv m fs bs as z n B" "x \<in> set as" "KY m x = Some k"
  shows "filter (\<lambda>e. fst e \<noteq> k) (map (hm_entry m B) as) = map (hm_entry m B) (remove1 x as)"
proof -
  have "fst (hm_entry m B y) = k \<longleftrightarrow> y = x" if "y \<in> set as" for y
    using hm_inv_key [OF assms(1) that] assms hm_invD(4) [OF assms(1)] that
    by (auto simp: data_ok_def inj_on_def)
  then have "filter (\<lambda>y. fst (hm_entry m B y) \<noteq> k) as = filter (\<lambda>y. y \<noteq> x) as"
    by (intro filter_cong) auto
  also have "\<dots> = remove1 x as"
    using distinct_remove1_removeAll [OF hm_invD(12) [OF assms(1)]] by (simp add: removeAll_filter_not_eq eq_commute)
  finally show ?thesis by (simp add: filter_map comp_def)
qed

lemma hm_inv_map_of:
  assumes "hm_inv m fs bs as z n B" "x \<in> set as" "KY m x = Some k"
  shows "map_of (map (hm_entry m B) as) k = Some (snd (hm_entry m B x))"
proof -
  have "inj_on (fst \<circ> hm_entry m B) (set as)"
    using hm_inv_key [OF assms(1)] hm_invD(4,13) [OF assms(1)]
    by (intro inj_onI) (metis comp_apply data_ok_def inj_onD)
  then have "distinct (map fst (map (hm_entry m B) as))"
    using hm_invD(12) [OF assms(1)] by (simp add: distinct_map)
  moreover have "(k, snd (hm_entry m B x)) \<in> set (map (hm_entry m B) as)"
    using assms(2) hm_inv_key [OF assms(1,2), of k] assms(3) by (auto simp: image_iff prod_eq_iff)
  ultimately show ?thesis by (simp only: map_of_is_SomeI)
qed

lemma hm_inv_map_of_None:
  assumes "hm_inv m fs bs as z n B"
  shows "map_of (map (hm_entry m B) as) k = None \<longleftrightarrow> (\<forall>x \<in> set as. KY m x \<noteq> Some k)"
  using hm_inv_key [OF assms, of _ k] by (auto simp: map_of_eq_None_iff image_iff dest: sym)

lemma hm_find_inv:
  assumes inv: "hm_inv m fs bs as z n B"
  shows "\<forall>x \<in> set as. KY m x \<noteq> Some k \<Longrightarrow> hm_find_node now k m = Some (None, m)"
    and "x \<in> set as \<Longrightarrow> KY m x = Some k \<Longrightarrow>
      \<exists>m'. hm_find_node now k m = Some (Some x, m') \<and> hm_inv m' fs bs (x # remove1 x as) z n B \<and> frame_add m m'"
proof -
  note I = hm_invD [OF inv]
  have br: "0 \<le> hm_bid (hm_bucket_size m) k \<and> hm_bid (hm_bucket_size m) k < hm_bucket_size m"
    using hm_bid_range [OF list_okD(1) [OF I(3)]] .
  show "hm_find_node now k m = Some (None, m)" if "\<forall>x \<in> set as. KY m x \<noteq> Some k"
    using hm_find_node_none [OF I(3,1)] I(8) br that by blast
  assume x: "x \<in> set as" "KY m x = Some k"
  have "y = x" if "y \<in> set (bs (hm_bid (hm_bucket_size m) k))" "KY m y = Some k" for y
  proof -
    have "y \<in> set as" using I(8) br that(1) by blast
    then show ?thesis using I(4) x that(2) by (simp add: data_ok_def inj_on_def)
  qed
  then obtain m' where "hm_find_node now k m = Some (Some x, m')" "add_ok m' (x # remove1 x as)" "frame_add m m'"
    using hm_find_node_found [OF I(3,1,2) I(7) [OF x] x(2), of now] by blast
  moreover have "set (x # remove1 x as) = set as" "length (x # remove1 x as) = length as"
    using x(1) I(12) length_pos_if_in_set [OF x(1)] by (auto simp: length_remove1)
  ultimately show "\<exists>m'. hm_find_node now k m = Some (Some x, m') \<and> hm_inv m' fs bs (x # remove1 x as) z n B \<and> frame_add m m'"
    using hm_inv_frame_add [OF inv] by blast
qed

section \<open>Insertion\<close>

lemma used_buckets_finite: "finite (used_buckets n bs)"
  by (rule finite_subset [of _ "{0..<n}"]) (auto simp: used_buckets_def)

lemma used_buckets_insert:
  assumes "0 \<le> b" "b < n"
  shows "int (card (used_buckets n (bs(b := x # bs b)))) =
     (if length (bs b) = 0 then int (card (used_buckets n bs)) + 1 else int (card (used_buckets n bs)))"
proof -
  have "used_buckets n (bs(b := x # bs b)) = insert b (used_buckets n bs)"
    using assms by (auto simp: used_buckets_def)
  moreover have "b \<in> used_buckets n bs \<longleftrightarrow> bs b \<noteq> []" using assms by (simp add: used_buckets_def)
  ultimately show ?thesis using used_buckets_finite [of n bs] by (simp add: card_insert_if)
qed

lemma used_buckets_remove:
  assumes "0 \<le> b" "b < n" "bs b \<noteq> []"
  shows "int (card (used_buckets n (bs(b := ys)))) =
     (if length ys = 0 then int (card (used_buckets n bs)) - 1 else int (card (used_buckets n bs)))"
proof -
  have "used_buckets n (bs(b := ys)) = (if ys = [] then used_buckets n bs - {b} else used_buckets n bs)"
    using assms by (auto simp: used_buckets_def)
  moreover have b: "b \<in> used_buckets n bs" using assms by (simp add: used_buckets_def)
  moreover have "0 < card (used_buckets n bs)" using b used_buckets_finite [of n bs] by (auto simp: card_gt_0_iff)
  ultimately show ?thesis using used_buckets_finite [of n bs] by (auto simp: card_Diff_singleton)
qed

lemma hm_use_node_ok:
  assumes ok: "list_ok m fs bs" and dom: "hm_dom_ok m" and add: "add_ok m as" and x: "hm_node m x = Some nd"
    and free: "x \<notin> set fs" "\<And>b. 0 \<le> b \<Longrightarrow> b < hm_bucket_size m \<Longrightarrow> x \<notin> set (bs b)"
    and b: "b = hm_bid (hm_bucket_size m) k"
    and cnt: "hm_used_bucket_num m = int (card (used_buckets (hm_bucket_size m) bs))"
  shows "\<exists>m'. hm_use_node (Some x) k l h m = Some m' \<and> list_ok m' fs (bs(b := x # bs b)) \<and> add_ok m' as \<and>
     hm_dom_ok m' \<and> hm_bucket_size m' = hm_bucket_size m \<and> hm_node_total m' = hm_node_total m \<and>
     hm_allocator m' = hm_allocator m \<and> hm_used_node_num m' = hm_used_node_num m + 1 \<and>
     hm_used_bucket_num m' = int (card (used_buckets (hm_bucket_size m') (bs(b := x # bs b)))) \<and>
     KY m' = (KY m)(x \<mapsto> k) \<and> CL m' = (CL m)(x \<mapsto> l) \<and> CH m' = (CH m)(x \<mapsto> h)"
proof -
  note L = list_okD [OF ok]
  have br: "0 \<le> b" "b < hm_bucket_size m" using hm_bid_range [OF L(1)] b by auto
  let ?f = "\<lambda>nd. nd\<lparr>hn_key := k, hn_chunk_len := l, hn_chunk_head := h, hn_add_info_1 := 0, hn_add_info_2 := 0\<rparr>"
  let ?m1 = "hm_upd x ?f m"
  let ?m2 = "?m1\<lparr>hm_used_bucket_num := (if length (bs b) = 0 then hm_used_bucket_num m + 1 else hm_used_bucket_num m)\<rparr>"
  have x2: "hm_node ?m2 x = Some (?f nd)" using x by simp
  have ok1: "list_ok ?m1 fs bs"
    by (rule list_ok_cong [OF ok, where S = "{x}"]) (use free in \<open>auto simp: hm_proj\<close>)
  have ok2: "list_ok ?m2 fs bs"
    by (rule list_ok_cong [OF ok, where S = "{x}"]) (use free in \<open>auto simp: hm_proj\<close>)
  have dom2: "hm_dom_ok ?m2" using dom by (auto simp: hm_dom_ok_def)
  have add2: "add_ok ?m2 as" using add by (auto simp: add_ok_def split: if_splits)
  have len: "hm_get_bucket_list_len b ?m1 = Some (int (length (bs b)))"
    using hm_get_bucket_list_len_ok [OF ok1, of b] dom br by simp
  have bid: "hm_get_bucket_id k ?m1 = Some b" using hm_get_bucket_id_ok [of ?m1 k] L(1,2) b by simp
  obtain m' where m': "hm_insert_node_list (Some x) ?m2 = Some m'" "list_ok m' fs (bs(b := x # bs b))"
      "frame_list ?m2 m'" "hm_used_node_num m' = hm_used_node_num ?m2 + 1"
    using hm_insert_node_list_ok [OF ok2 dom2 x2, of b] b br free by auto
  have e: "hm_use_node (Some x) k l h m = Some m'"
    using hm_store_eq [OF x, of ?f] bid len m'(1) by (simp add: hm_use_node_def Let_def split del: if_split cong: if_cong)
  have "KY ?m2 = (KY m)(x \<mapsto> k)" "CL ?m2 = (CL m)(x \<mapsto> l)" "CH ?m2 = (CH m)(x \<mapsto> h)"
    using x by (auto simp: hm_proj fun_eq_iff)
  moreover have "hm_used_bucket_num m' = int (card (used_buckets (hm_bucket_size m') (bs(b := x # bs b))))"
    using m'(3) cnt used_buckets_insert [OF br, of bs x] by (simp add: frame_list_def)
  ultimately show ?thesis
    using e m' add_ok_frame_list [OF m'(3) add2] hm_dom_ok_frame_list [OF m'(3) dom2] by (simp add: frame_list_def)
qed

lemma data_okE:
  assumes "data_ok m as z n B" "x \<in> set as"
  obtains k h l d where "KY m x = Some k" "CH m x = Some h" "CL m x = Some l" "B h = Some d" "0 < l"
    "int (length d) = ((l + z - 1) div z) * z"
  using assms unfolding data_ok_def by blast

lemma data_ok_insert:
  assumes d: "data_ok m as z n B" and x: "x \<notin> set as" and k: "\<forall>y \<in> set as. KY m y \<noteq> Some k"
    and fresh: "B h = None" and len: "int (length d) = ((int (length bs) + z - 1) div z) * z" "bs \<noteq> []"
    and rep: "chunk_rep (hm_allocator m') z n' (B(h \<mapsto> d))"
    and p: "KY m' = (KY m)(x \<mapsto> k)" "CL m' = (CL m)(x \<mapsto> int (length bs))" "CH m' = (CH m)(x \<mapsto> h)"
  shows "data_ok m' (x # as) z n' (B(h \<mapsto> d))"
proof -
  have h: "CH m y \<noteq> Some h" if "y \<in> set as" for y
    using d fresh that unfolding data_ok_def by fastforce
  have "inj_on (CH m') (set (x # as))" "inj_on (KY m') (set (x # as))"
    using d x k h by (auto simp: p data_ok_def inj_on_def)
  moreover have "\<exists>k h' l d'. KY m' y = Some k \<and> CH m' y = Some h' \<and> CL m' y = Some l \<and> (B(h \<mapsto> d)) h' = Some d' \<and>
      0 < l \<and> int (length d') = ((l + z - 1) div z) * z" if y: "y \<in> set (x # as)" for y
  proof (cases "y = x")
    case True
    then show ?thesis using len by (simp add: p)
  next
    case False
    then show ?thesis using d y h [of y] unfolding data_ok_def by (auto simp: p) metis
  qed
  moreover have "Some h' \<in> CH m' ` set (x # as)" if "(B(h \<mapsto> d)) h' \<noteq> None" for h'
    using d x that unfolding data_ok_def by (cases "h' = h") (auto simp: p image_iff)
  ultimately show ?thesis using rep unfolding data_ok_def by blast
qed


lemma hm_insert_inv:
  assumes inv: "hm_inv m (x # fs) bs as z n B" and k: "\<forall>y \<in> set as. KY m y \<noteq> Some k" and ne: "data \<noteq> []"
    and c: "c = (int (length data) + z - 1) div z" "c \<le> n"
  shows "\<exists>m' bs' B'. hm_insert_node now k data (int (length data)) m = Some (Some x, m') \<and>
     hm_inv m' fs bs' (x # as) z (n - c) B' \<and> map (hm_entry m' B') (x # as) = (k, data) # map (hm_entry m B) as"
proof -
  note I = hm_invD [OF inv]
  have D: "chunk_rep (hm_allocator m) z n B" using I(4) by (simp add: data_ok_def)
  have xf: "x \<notin> set as" "x \<notin> set fs" using I(6) list_okD(3) [OF I(3)] by auto
  obtain m1 where m1: "hm_free_list_remove m = Some (Some x, m1)" "list_ok m1 fs bs" "frame_list m m1"
      "hm_used_node_num m1 = hm_used_node_num m"
    using hm_free_list_remove_ok [OF I(3,1)] by auto
  have al: "hm_allocator m1 = hm_allocator m" "hm_bucket_size m1 = hm_bucket_size m" using m1(3) by (simp_all add: frame_list_def)
  obtain h d a1 a2 where a: "ca_malloc c (hm_allocator m) = Some (h, a1)" "h \<noteq> -1"
      "ca_split h data (int (length data)) a1 = Some a2" "B h = None" "int (length d) = c * z"
      "take (length data) d = data" "chunk_rep a2 z (n - c) (B(h \<mapsto> d))"
    using ca.put_ok [OF D ne c] by blast
  let ?m2 = "m1\<lparr>hm_allocator := a2\<rparr>"
  have dom1: "hm_dom_ok m1" using hm_dom_ok_frame_list [OF m1(3) I(1)] .
  obtain nd where nd: "hm_node ?m2 x = Some nd"
    using frame_list_node(1) [OF m1(3), of x] I(5) [of x] by auto
  have ok2: "list_ok ?m2 fs bs"
    by (rule list_ok_cong [OF m1(2), where S = "{}"]) (simp_all add: hm_proj)
  have dom2: "hm_dom_ok ?m2" using dom1 by (simp add: hm_dom_ok_def)
  have add2: "add_ok ?m2 as" using add_ok_frame_list [OF m1(3) I(2)] by (simp add: add_ok_def)
  define b where "b = hm_bid (hm_bucket_size ?m2) k"
  have free2: "x \<notin> set (bs c)" if "0 \<le> c" "c < hm_bucket_size ?m2" for c
    using I(8) [of c] that xf al by auto
  have cnt2: "hm_used_bucket_num ?m2 = int (card (used_buckets (hm_bucket_size ?m2) bs))"
    using I(11) m1(3) by (simp add: frame_list_def)
  obtain m3 where m3: "hm_use_node (Some x) k (int (length data)) h ?m2 = Some m3" "list_ok m3 fs (bs(b := x # bs b))"
      "add_ok m3 as" "hm_dom_ok m3" "hm_bucket_size m3 = hm_bucket_size m" "hm_node_total m3 = hm_node_total m"
      "hm_allocator m3 = a2" "hm_used_node_num m3 = hm_used_node_num m + 1"
      "hm_used_bucket_num m3 = int (card (used_buckets (hm_bucket_size m3) (bs(b := x # bs b))))"
      "KY m3 = (KY m)(x \<mapsto> k)" "CL m3 = (CL m)(x \<mapsto> int (length data))" "CH m3 = (CH m)(x \<mapsto> h)"
    using hm_use_node_ok [OF ok2 dom2 add2 nd xf(2) free2 b_def cnt2, of "int (length data)" h] m1(3,4) al
    by (auto simp: frame_list_def hm_proj fun_eq_iff)
  have x3: "\<exists>nd. hm_node m3 x = Some nd" using KY_node [of m3 x k] m3(10) by auto
  obtain m4 where m4: "hm_touch now (Some x) m3 = Some m4" "add_ok m4 (x # as)" "frame_add m3 m4"
    using hm_touch_ok [OF m3(3,4)] x3 xf(1) by (metis remove1_idem)
  have e: "hm_insert_node now k data (int (length data)) m = Some (Some x, m4)"
    using m1(1) al ca.chunk_num_ok [OF D, of "int (length data)"] c(1) a(1,2,3) m3(1) m4(1)
    by (simp add: hm_insert_node_def)
  have br: "0 \<le> b" "b < hm_bucket_size m" using hm_bid_range [OF list_okD(1) [OF I(3)], of k] al by (auto simp: b_def)
  have p4: "KY m4 = (KY m)(x \<mapsto> k)" "CL m4 = (CL m)(x \<mapsto> int (length data))" "CH m4 = (CH m)(x \<mapsto> h)"
      "hm_bucket_size m4 = hm_bucket_size m" "hm_allocator m4 = a2"
    using m3(5,7,10-12) m4(3) by (simp_all add: frame_add_def)
  let ?bs = "bs(b := x # bs b)"
  have "hm_inv m4 fs ?bs (x # as) z (n - c) (B(h \<mapsto> d))"
    unfolding hm_inv_def
  proof (intro conjI allI impI)
    show "hm_dom_ok m4" using hm_dom_ok_frame [OF m4(3) m3(4)] .
    show "list_ok m4 fs ?bs"
      by (rule list_ok_cong [OF m3(2), where S = "{}"]) (use m4(3) in \<open>simp_all add: frame_add_def\<close>)
    show "data_ok m4 (x # as) z (n - c) (B(h \<mapsto> d))"
      using data_ok_insert [OF I(4) xf(1) k a(4) _ ne _ p4(1-3), of d] a(5,7) c(1) p4(5) by simp
    show "hm_node m4 y \<noteq> None \<longleftrightarrow> y \<in> set fs \<or> y \<in> set (x # as)" for y
    proof -
      have "hm_node m4 y = None \<longleftrightarrow> KY m4 y = None" by (simp add: KY_def)
      also have "\<dots> \<longleftrightarrow> y \<noteq> x \<and> hm_node m y = None" by (simp add: p4 KY_def)
      finally show ?thesis using I(5) [of y] by auto
    qed
    show "set fs \<inter> set (x # as) = {}" using I(6) xf by auto
    show "y \<in> set (?bs (hm_bid (hm_bucket_size m4) k'))" if "y \<in> set (x # as)" "KY m4 y = Some k'" for y k'
      using that I(7) [of y k'] al(2) by (auto simp: p4 b_def split: if_splits)
    show "set (?bs b') \<subseteq> set (x # as)" if "0 \<le> b'" "b' < hm_bucket_size m4" for b'
      using I(8) [of b'] I(8) [OF br] that by (auto simp: p4)
    show "hm_used_node_num m4 = int (length (x # as))" "hm_node_total m4 = int (length (x # as) + length fs)"
      "hm_used_bucket_num m4 = int (card (used_buckets (hm_bucket_size m4) ?bs))"
      using m4(3) m3(6,8,9) I(9,10) by (simp_all add: frame_add_def)
  qed (rule m4(2))
  moreover have "map (hm_entry m4 (B(h \<mapsto> d))) (x # as) = (k, data) # map (hm_entry m B) as"
  proof -
    have "hm_entry m4 (B(h \<mapsto> d)) y = hm_entry m B y" if y: "y \<in> set as" for y
    proof -
      obtain h' d' where "CH m y = Some h'" "B h' = Some d'" using data_okE [OF I(4) y] by metis
      then show ?thesis using y xf(1) a(4) by (auto simp: hm_entry_def p4)
    qed
    then show ?thesis using a(6) by (auto simp: hm_entry_def p4)
  qed
  ultimately show ?thesis using e by (intro exI conjI)
qed

lemma hm_insert_full:
  assumes inv: "hm_inv m fs bs as z n B" and "data \<noteq> []" and "fs = [] \<or> n < (int (length data) + z - 1) div z"
  shows "hm_insert_node now k data (int (length data)) m = Some (None, m)"
proof (cases fs)
  case Nil
  then show ?thesis
    using list_okD(4) [OF hm_invD(3) [OF inv]] by (simp add: hm_insert_node_def hm_free_list_remove_def)
next
  case (Cons x gs)
  note I = hm_invD [OF inv]
  have D: "chunk_rep (hm_allocator m) z n B" using I(4) by (simp add: data_ok_def)
  obtain m1 where m1: "hm_free_list_remove m = Some (Some x, m1)" "frame_list m m1"
      "hm_free_list_insert (Some x) m1 = Some m"
    using hm_free_list_remove_ok [OF _ I(1), of x gs bs] I(3) Cons by auto
  have al: "hm_allocator m1 = hm_allocator m" using m1(2) by (simp add: frame_list_def)
  then have eq: "m1\<lparr>hm_allocator := hm_allocator m\<rparr> = m1" by (intro CHashMap.equality) simp_all
  show ?thesis
    using m1 al assms(2,3) Cons ca.chunk_num_ok [OF D, of "int (length data)"] ca.malloc_fail [OF D]
    by (simp add: hm_insert_node_def eq)
qed

section \<open>Update\<close>

lemma data_ok_update:
  assumes d: "data_ok m as z n B" and x: "x \<in> set as" "CH m x = Some h" and fresh: "(B(h := None)) h' = None"
    and len: "int (length d') = ((int (length bs) + z - 1) div z) * z" "bs \<noteq> []"
    and rep: "chunk_rep (hm_allocator m') z n' (B(h := None, h' \<mapsto> d'))"
    and p: "KY m' = KY m" "CL m' = (CL m)(x \<mapsto> int (length bs))" "CH m' = (CH m)(x \<mapsto> h')"
  shows "data_ok m' as z n' (B(h := None, h' \<mapsto> d'))"
proof -
  have other: "CH m y \<noteq> Some h" "CH m y \<noteq> Some h'" if y: "y \<in> set as" "y \<noteq> x" for y
  proof -
    show h: "CH m y \<noteq> Some h" using d y x unfolding data_ok_def inj_on_def by metis
    obtain g e where "CH m y = Some g" "B g = Some e" using data_okE [OF d y(1)] by metis
    then show "CH m y \<noteq> Some h'" using fresh h by (auto split: if_splits)
  qed
  have inj: "inj_on (CH m') (set as)" "inj_on (KY m') (set as)"
    using d other by (auto simp: p data_ok_def inj_on_def)
  have blocks: "\<exists>k g l e. KY m' y = Some k \<and> CH m' y = Some g \<and> CL m' y = Some l \<and> (B(h := None, h' \<mapsto> d')) g = Some e \<and>
      0 < l \<and> int (length e) = ((l + z - 1) div z) * z" if y: "y \<in> set as" for y
  proof -
    obtain k g l e where e: "KY m y = Some k" "CH m y = Some g" "CL m y = Some l" "B g = Some e" "0 < l"
        "int (length e) = ((l + z - 1) div z) * z" using data_okE [OF d y] by metis
    show ?thesis using e len other [OF y] by (cases "y = x") (auto simp: p)
  qed
  have heads: "Some g \<in> CH m' ` set as" if "(B(h := None, h' \<mapsto> d')) g \<noteq> None" for g
  proof (cases "g = h'")
    case True
    then show ?thesis using x by (auto simp: p image_iff)
  next
    case False
    then have "g \<noteq> h" "B g \<noteq> None" using that by (auto split: if_splits)
    then obtain y where "y \<in> set as" "CH m y = Some g" using d unfolding data_ok_def by fastforce
    then show ?thesis using x \<open>g \<noteq> h\<close> unfolding p by (intro image_eqI [of _ _ y]) auto
  qed
  show ?thesis using rep blocks inj heads unfolding data_ok_def by blast
qed

lemma hm_inv_update:
  assumes inv: "hm_inv m fs bs as z n B" and x: "x \<in> set as" "KY m x = Some k" "CH m x = Some h"
    and fresh: "(B(h := None)) h' = None"
    and len: "int (length d') = ((int (length data) + z - 1) div z) * z" "data \<noteq> []" "take (length data) d' = data"
    and rep: "chunk_rep a z n' (B(h := None, h' \<mapsto> d'))"
    and m': "m' = (hm_upd x (\<lambda>nd. nd\<lparr>hn_chunk_len := int (length data), hn_chunk_head := h'\<rparr>) m)\<lparr>hm_allocator := a\<rparr>"
  shows "hm_inv m' fs bs as z n' (B(h := None, h' \<mapsto> d'))"
    and "map (hm_entry m' (B(h := None, h' \<mapsto> d'))) as = map (\<lambda>e. if fst e = k then (k, data) else e) (map (hm_entry m B) as)"
proof -
  note I = hm_invD [OF inv]
  obtain nd where nd: "hm_node m x = Some nd" using I(5) [of x] x(1) by auto
  have p: "KY m' = KY m" "CL m' = (CL m)(x \<mapsto> int (length data))" "CH m' = (CH m)(x \<mapsto> h')" "NX m' = NX m" "NP m' = NP m"
    using nd by (auto simp: m' hm_proj fun_eq_iff)
  have "data_ok m' as z n' (B(h := None, h' \<mapsto> d'))"
    by (rule data_ok_update [OF I(4) x(1,3) fresh len(1,2) _ p(1-3)]) (simp add: m' rep)
  moreover have "list_ok m' fs bs"
    by (rule list_ok_cong [OF I(3), where S = "{}"]) (simp_all add: p, simp_all add: m')
  moreover have "hm_dom_ok m'" "add_ok m' as"
    using I(1,2) by (auto simp: m' hm_dom_ok_def add_ok_def split: if_splits)
  moreover have "hm_node m' y = None \<longleftrightarrow> hm_node m y = None" for y by (simp add: m')
  ultimately show "hm_inv m' fs bs as z n' (B(h := None, h' \<mapsto> d'))"
    using I(5-11) unfolding hm_inv_def p by (simp add: m')
  show "map (hm_entry m' (B(h := None, h' \<mapsto> d'))) as = map (\<lambda>e. if fst e = k then (k, data) else e) (map (hm_entry m B) as)"
    unfolding map_map
  proof (rule map_cong [OF refl])
    fix y assume y: "y \<in> set as"
    obtain g e where g: "CH m y = Some g" "B g = Some e" using data_okE [OF I(4) y] by metis
    have yx: "fst (hm_entry m B y) = k \<longleftrightarrow> y = x"
      using hm_inv_key [OF inv y, of k] x(1,2) y I(4) by (auto simp: data_ok_def inj_on_def)
    show "hm_entry m' (B(h := None, h' \<mapsto> d')) y = ((\<lambda>e. if fst e = k then (k, data) else e) \<circ> hm_entry m B) y"
    proof (cases "y = x")
      case True
      then show ?thesis using yx x(2) len(3) by (simp add: hm_entry_def p)
    next
      case False
      then have "g \<noteq> h" using I(4) g x(1,3) y unfolding data_ok_def inj_on_def by metis
      then show ?thesis using False yx g fresh by (auto simp: hm_entry_def p split: if_splits)
    qed
  qed
qed

lemma hm_update_inv:
  assumes inv: "hm_inv m fs bs as z n B" and x: "x \<in> set as" "KY m x = Some k" "CL m x = Some l" and ne: "data \<noteq> []"
    and c: "c = (int (length data) + z - 1) div z" "o' = (l + z - 1) div z"
  shows "c \<le> n + o' \<Longrightarrow> \<exists>m' B'. hm_update_node (Some x) data (int (length data)) NoOut m = Some (Some x, ([], None), m') \<and>
       hm_inv m' fs bs as z (n + o' - c) B' \<and>
       map (hm_entry m' B') as = map (\<lambda>e. if fst e = k then (k, data) else e) (map (hm_entry m B) as)"
    and "n + o' < c \<Longrightarrow> hm_update_node (Some x) data (int (length data)) NoOut m = Some (None, ([], None), m)"
proof -
  note I = hm_invD [OF inv]
  have D: "chunk_rep (hm_allocator m) z n B" using I(4) by (simp add: data_ok_def)
  have z: "0 < z" "0 \<le> n" using ca.rep_size [OF D] by auto
  obtain h d where h: "CH m x = Some h" "B h = Some d" "0 < l" "int (length d) = o' * z"
    using data_okE [OF I(4) x(1)] x(3) c(2) by (metis option.inject)
  obtain nd where nd: "hm_node m x = Some nd" "hn_chunk_len nd = l" "hn_chunk_head nd = h"
    using I(5) [of x] x(1,3) h(1) by (auto simp: CL_def CH_def)
  have num: "ca_get_chunk_num l (hm_allocator m) = Some o'" "ca_get_chunk_num (int (length data)) (hm_allocator m) = Some c"
    using ca.chunk_num_ok [OF D, of l] ca.chunk_num_ok [OF D, of "int (length data)"] h(3) c by auto
  have fn: "ca_get_free_chunk_num (hm_allocator m) = n" using ca.free_num_ok [OF D] .
  have op: "0 < o'" "0 < c" using ca.chunk_num_pos [OF z(1) h(3)] ca.chunk_num_pos [OF z(1), of "int (length data)"] c ne by auto
  show "hm_update_node (Some x) data (int (length data)) NoOut m = Some (None, ([], None), m)" if "n + o' < c"
    using that z nd num fn by (simp add: hm_update_node_def hm_old_data_def)
  assume le: "c \<le> n + o'"
  show "\<exists>m' B'. hm_update_node (Some x) data (int (length data)) NoOut m = Some (Some x, ([], None), m') \<and>
       hm_inv m' fs bs as z (n + o' - c) B' \<and>
       map (hm_entry m' B') as = map (\<lambda>e. if fst e = k then (k, data) else e) (map (hm_entry m B) as)"
  proof (cases "o' = c")
    case True
    have "int (length data) \<le> int (length d)" using ca.chunk_num_enough(1) [OF z(1), of "int (length data)"] c h(4) True by simp
    then have ld: "length data \<le> length d" by simp
    obtain a where a: "ca_split h data (int (length data)) (hm_allocator m) = Some a"
        "chunk_rep a z n (B(h \<mapsto> data @ drop (length data) d))"
      using ca.split_ok [OF D h(2) ld] by blast
    let ?m = "(hm_upd x (\<lambda>nd. nd\<lparr>hn_chunk_len := int (length data), hn_chunk_head := h\<rparr>) m)\<lparr>hm_allocator := a\<rparr>"
    have nd': "hm_node (m\<lparr>hm_allocator := a\<rparr>) x = Some nd" using nd by simp
    have "hm_upd x (hn_chunk_len_update (\<lambda>_. int (length data))) (m\<lparr>hm_allocator := a\<rparr>) = ?m"
      using nd by (intro CHashMap.equality) (auto simp: fun_eq_iff)
    then have "hm_update_node (Some x) data (int (length data)) NoOut m = Some (Some x, ([], None), ?m)"
      using nd num a(1) True hm_store_eq [OF nd', of "hn_chunk_len_update (\<lambda>_. int (length data))"]
      by (simp add: hm_update_node_def hm_old_data_def)
    moreover note hm_inv_update [OF inv x(1,2) h(1) _ _ ne, of h "data @ drop (length data) d" a n ?m]
    ultimately show ?thesis using a(2) ld h(4) True c(1) by (intro exI conjI) (assumption | simp)+
  next
    case False
    obtain a1 where a1: "ca_free h (hm_allocator m) = Some a1" "chunk_rep a1 z (n + o') (B(h := None))"
      using ca.free_ok [OF D h(2)] h(4) z(1) by auto
    obtain h' d' a2 a3 where a2: "ca_malloc c a1 = Some (h', a2)" "ca_split h' data (int (length data)) a2 = Some a3"
        "(B(h := None)) h' = None" "int (length d') = c * z" "take (length data) d' = data"
        "chunk_rep a3 z (n + o' - c) (B(h := None, h' \<mapsto> d'))"
      using ca.put_ok [OF a1(2) ne c(1) le] by blast
    let ?f = "\<lambda>nd. nd\<lparr>hn_chunk_len := int (length data), hn_chunk_head := h'\<rparr>"
    let ?m = "(hm_upd x ?f m)\<lparr>hm_allocator := a3\<rparr>"
    have nd': "hm_node (m\<lparr>hm_allocator := a3\<rparr>) x = Some nd" using nd by simp
    have "hm_upd x ?f (m\<lparr>hm_allocator := a3\<rparr>) = ?m"
      by (intro CHashMap.equality) (auto simp: fun_eq_iff)
    then have "hm_update_node (Some x) data (int (length data)) NoOut m = Some (Some x, ([], None), ?m)"
      using nd num fn False le a1(1) a2(1,2) hm_store_eq [OF nd', of ?f]
      by (simp add: hm_update_node_def hm_old_data_def)
    moreover note hm_inv_update [OF inv x(1,2) h(1) a2(3) _ ne a2(5,6) refl]
    ultimately show ?thesis using a2(4) c(1) by blast
  qed
qed

section \<open>Deletion\<close>

lemma data_ok_delete:
  assumes d: "data_ok m as z n B" and x: "x \<in> set as" "CH m x = Some h" "distinct as"
    and rep: "chunk_rep (hm_allocator m') z n' (B(h := None))"
    and p: "\<And>y. y \<noteq> x \<Longrightarrow> KY m' y = KY m y \<and> CL m' y = CL m y \<and> CH m' y = CH m y"
  shows "data_ok m' (remove1 x as) z n' (B(h := None))"
proof -
  have s: "set (remove1 x as) = set as - {x}" using x(3) by simp
  have other: "CH m y \<noteq> Some h" if y: "y \<in> set as" "y \<noteq> x" for y
    using d y x unfolding data_ok_def inj_on_def by metis
  have inj: "inj_on (CH m') (set as - {x})" "inj_on (KY m') (set as - {x})"
    using d p unfolding data_ok_def inj_on_def by (metis DiffE singletonI)+
  have blocks: "\<exists>k g l e. KY m' y = Some k \<and> CH m' y = Some g \<and> CL m' y = Some l \<and> (B(h := None)) g = Some e \<and>
      0 < l \<and> int (length e) = ((l + z - 1) div z) * z" if y: "y \<in> set as - {x}" for y
  proof -
    obtain k g l e where e: "KY m y = Some k" "CH m y = Some g" "CL m y = Some l" "B g = Some e" "0 < l"
        "int (length e) = ((l + z - 1) div z) * z" using data_okE [OF d, of y] y by blast
    then show ?thesis using other [of y] p [of y] y by auto
  qed
  have heads: "Some g \<in> CH m' ` (set as - {x})" if "(B(h := None)) g \<noteq> None" for g
  proof -
    have g: "g \<noteq> h" "B g \<noteq> None" using that by (auto split: if_splits)
    then obtain y where y: "y \<in> set as" "CH m y = Some g" using d unfolding data_ok_def by fastforce
    then have "y \<noteq> x" using x(2) g(1) by auto
    then show ?thesis using y p [of y] by (intro image_eqI [of _ _ y]) auto
  qed
  show ?thesis using rep blocks inj heads unfolding data_ok_def s by blast
qed

lemma hm_free_node_ok:
  assumes ok: "list_ok m fs bs" and dom: "hm_dom_ok m" and add: "add_ok m as" and x: "hm_node m x = Some nd" "x \<notin> set as"
    and b: "b = hm_bid (hm_bucket_size m) (hn_key nd)" "x \<in> set (bs b)"
    and cnt: "hm_used_bucket_num m = int (card (used_buckets (hm_bucket_size m) bs))"
    and fr: "ca_free (hn_chunk_head nd) (hm_allocator m) = Some a"
  shows "\<exists>m'. hm_free_node (Some x) m = Some m' \<and> list_ok m' fs (bs(b := remove1 x (bs b))) \<and> add_ok m' as \<and>
     hm_dom_ok m' \<and> hm_bucket_size m' = hm_bucket_size m \<and> hm_node_total m' = hm_node_total m \<and>
     hm_allocator m' = a \<and> hm_used_node_num m' = hm_used_node_num m - 1 \<and>
     hm_used_bucket_num m' = int (card (used_buckets (hm_bucket_size m') (bs(b := remove1 x (bs b))))) \<and>
     KY m' = KY m \<and> (\<forall>y. y \<noteq> x \<longrightarrow> CL m' y = CL m y \<and> CH m' y = CH m y)"
proof -
  note L = list_okD [OF ok]
  have br: "0 \<le> b" "b < hm_bucket_size m" using hm_bid_range [OF L(1)] b(1) by auto
  let ?bs = "bs(b := remove1 x (bs b))"
  obtain m1 where m1: "hm_delete_from_node_list (Some x) m = Some m1" "list_ok m1 fs ?bs" "frame_list m m1"
      "hm_used_node_num m1 = hm_used_node_num m - 1"
    using hm_delete_from_node_list_ok [OF ok dom x(1) b] by blast
  obtain nd1 where nd1: "hm_node m1 x = Some nd1" "hn_key nd1 = hn_key nd" "hn_chunk_head nd1 = hn_chunk_head nd"
    using frame_list_node [OF m1(3), of x] x(1) by (cases "hm_node m1 x") auto
  have h1: "hm_allocator m1 = hm_allocator m" "hm_bucket_size m1 = hm_bucket_size m" "hm_used_bucket_num m1 = hm_used_bucket_num m"
      "hm_node_total m1 = hm_node_total m" using m1(3) by (simp_all add: frame_list_def)
  let ?m2 = "m1\<lparr>hm_allocator := a\<rparr>"
  have dom1: "hm_dom_ok m1" using hm_dom_ok_frame_list [OF m1(3) dom] .
  have dom2: "hm_dom_ok ?m2" using dom1 by (simp add: hm_dom_ok_def)
  have ok2: "list_ok ?m2 fs ?bs" by (rule list_ok_cong [OF m1(2), where S = "{}"]) (simp_all add: hm_proj)
  have len: "hm_get_bucket_list_len b ?m2 = Some (int (length (?bs b)))"
    using hm_get_bucket_list_len_ok [OF ok2 dom2, of b] br h1 by simp
  have bid: "hm_get_bucket_id (hn_key nd) ?m2 = Some b" using hm_get_bucket_id_ok [of ?m2 "hn_key nd"] L(1,2) b h1 by simp
  let ?m3 = "?m2\<lparr>hm_used_bucket_num := (if length (?bs b) = 0 then hm_used_bucket_num m - 1 else hm_used_bucket_num m)\<rparr>"
  let ?f = "\<lambda>nd. nd\<lparr>hn_chunk_len := 0, hn_add_info_1 := 0, hn_add_info_2 := 0, hn_flag := 0,
       hn_chunk_head := -1, hn_node_next := -1, hn_node_prev := -1, hn_add_next := -1, hn_add_prev := -1\<rparr>"
  let ?m4 = "hm_upd x ?f ?m3"
  have nd3: "hm_node ?m3 x = Some nd1" using nd1 by simp
  have e: "hm_free_node (Some x) m = Some ?m4"
    using m1(1) nd1 fr h1 bid len hm_store_eq [OF nd3, of ?f]
    by (simp add: hm_free_node_def hm_init_node_def Let_def split del: if_split cong: if_cong)
  have nin: "x \<notin> set (?bs c)" if "0 \<le> c" "c < hm_bucket_size m" for c
  proof (cases "c = b")
    case True
    then show ?thesis using L(6) [OF br] by simp
  next
    case False
    have "KY m x = Some (hn_key nd)" using x(1) by (simp add: KY_def)
    then show ?thesis using False list_ok_bucket_unique [OF ok that] b(1) by auto
  qed
  have ok4: "list_ok ?m4 fs ?bs"
    by (rule list_ok_cong [OF m1(2), where S = "{x}"])
      (use L(10) [OF br b(2)] nin h1 in \<open>auto simp: hm_proj\<close>)
  have add1: "add_ok m1 as" using add_ok_frame_list [OF m1(3) add] .
  have add4: "add_ok ?m4 as"
    using add1 x(2) by (auto simp: add_ok_def lnext_notin lprev_notin split: if_splits)
  have dom4: "hm_dom_ok ?m4" using dom1 by (auto simp: hm_dom_ok_def)
  have bucket: "hm_used_bucket_num ?m4 = int (card (used_buckets (hm_bucket_size ?m4) ?bs))"
  proof -
    have "bs b \<noteq> []" using b(2) by auto
    then show ?thesis using used_buckets_remove [OF br, of bs "remove1 x (bs b)"] cnt h1 by simp
  qed
  have p: "KY ?m4 = KY m" "y \<noteq> x \<Longrightarrow> CL ?m4 y = CL m y \<and> CH ?m4 y = CH m y" for y
  proof -
    have "KY ?m4 = KY m1" by (auto simp: KY_def fun_eq_iff option.map_comp comp_def)
    then show "KY ?m4 = KY m" using m1(3) by (simp add: frame_list_def)
    have "CL m1 y = CL m y" "CH m1 y = CH m y" using m1(3) by (simp_all add: frame_list_def)
    then show "y \<noteq> x \<Longrightarrow> CL ?m4 y = CL m y \<and> CH ?m4 y = CH m y" by (simp add: CL_def CH_def)
  qed
  have hdr: "hm_bucket_size ?m4 = hm_bucket_size m" "hm_node_total ?m4 = hm_node_total m" "hm_allocator ?m4 = a"
      "hm_used_node_num ?m4 = hm_used_node_num m - 1" using h1 m1(4) by simp_all
  have "\<forall>y. y \<noteq> x \<longrightarrow> CL ?m4 y = CL m y \<and> CH ?m4 y = CH m y" using p(2) by blast
  then show ?thesis using e ok4 add4 dom4 hdr bucket p(1) by (intro exI conjI)
qed

lemma hm_delete_inv:
  assumes inv: "hm_inv m fs bs as z n B" and x: "x \<in> set as" "CL m x = Some l"
  shows "\<exists>m' bs' B'. hm_delete_node (Some x) NoOut m = Some (0, ([], None), m') \<and>
     hm_inv m' (x # fs) bs' (remove1 x as) z (n + (l + z - 1) div z) B' \<and>
     map (hm_entry m' B') (remove1 x as) = map (hm_entry m B) (remove1 x as)"
proof -
  note I = hm_invD [OF inv]
  have D: "chunk_rep (hm_allocator m) z n B" using I(4) by (simp add: data_ok_def)
  have z: "0 < z" using ca.rep_size [OF D] by auto
  let ?as = "remove1 x as"
  obtain k h d where h: "KY m x = Some k" "CH m x = Some h" "B h = Some d" "int (length d) = ((l + z - 1) div z) * z"
    using data_okE [OF I(4) x(1)] x(2) by (metis option.inject)
  obtain nd where nd: "hm_node m x = Some nd" using I(5) [of x] x(1) by auto
  obtain a where a: "ca_free h (hm_allocator m) = Some a" "chunk_rep a z (n + (l + z - 1) div z) (B(h := None))"
    using ca.free_ok [OF D h(3)] h(4) z by auto
  obtain m1 where m1: "hm_delete_from_add_list (Some x) m = Some m1" "add_ok m1 ?as" "frame_add m m1"
    using delete_from_add_list_ok [OF I(2,1) nd] by blast
  have f1: "hm_bucket_size m1 = hm_bucket_size m" "hm_allocator m1 = hm_allocator m" "hm_used_bucket_num m1 = hm_used_bucket_num m"
      "hm_used_node_num m1 = hm_used_node_num m" "hm_node_total m1 = hm_node_total m" "KY m1 = KY m" "CL m1 = CL m" "CH m1 = CH m"
    using m1(3) by (simp_all add: frame_add_def)
  obtain nd1 where nd1: "hm_node m1 x = Some nd1" "hn_key nd1 = k" "hn_chunk_head nd1 = h"
  proof -
    have "KY m1 x = Some k" "CH m1 x = Some h" using h f1 by simp_all
    then show ?thesis using that by (auto simp: KY_def CH_def)
  qed
  have ok1: "list_ok m1 fs bs" by (rule list_ok_cong [OF I(3), where S = "{}"]) (use m1(3) in \<open>simp_all add: frame_add_def\<close>)
  have dom1: "hm_dom_ok m1" using hm_dom_ok_frame [OF m1(3) I(1)] .
  define b where "b = hm_bid (hm_bucket_size m1) k"
  let ?bs = "bs(b := remove1 x (bs b))"
  have xb: "x \<in> set (bs b)" using I(7) [OF x(1) h(1)] f1 by (simp add: b_def)
  have xa: "x \<notin> set ?as" using I(12) by simp
  have cnt1: "hm_used_bucket_num m1 = int (card (used_buckets (hm_bucket_size m1) bs))" using I(11) f1 by simp
  have fr: "b = hm_bid (hm_bucket_size m1) (hn_key nd1)" "ca_free (hn_chunk_head nd1) (hm_allocator m1) = Some a"
    using nd1 a(1) f1(2) by (simp_all add: b_def)
  obtain m2 where m2: "hm_free_node (Some x) m1 = Some m2" "list_ok m2 fs ?bs" "add_ok m2 ?as" "hm_dom_ok m2"
      "hm_bucket_size m2 = hm_bucket_size m1" "hm_node_total m2 = hm_node_total m1" "hm_allocator m2 = a"
      "hm_used_node_num m2 = hm_used_node_num m1 - 1" "hm_used_bucket_num m2 = int (card (used_buckets (hm_bucket_size m2) ?bs))"
      "KY m2 = KY m1" "\<forall>y. y \<noteq> x \<longrightarrow> CL m2 y = CL m1 y \<and> CH m2 y = CH m1 y"
    using hm_free_node_ok [OF ok1 dom1 m1(2) nd1(1) xa fr(1) xb cnt1 fr(2)] by blast
  obtain nd2 where nd2: "hm_node m2 x = Some nd2" using m2(10) f1 h(1) KY_node [of m2 x k] by auto
  have xf: "x \<notin> set fs" using I(6) x(1) by auto
  have nb: "x \<notin> set (?bs c)" if "0 \<le> c" "c < hm_bucket_size m2" for c
  proof (cases "c = b")
    case True
    then show ?thesis using list_okD(6) [OF I(3), of b] that m2(5) f1(1) by simp
  next
    case False
    then show ?thesis using list_ok_bucket_unique [OF I(3), of c x k] h(1) that m2(5) f1(1) by (auto simp: b_def)
  qed
  obtain m3 where m3: "hm_free_list_insert (Some x) m2 = Some m3" "list_ok m3 (x # fs) ?bs" "frame_list m2 m3"
      "hm_used_node_num m3 = hm_used_node_num m2"
    using hm_free_list_insert_ok [OF m2(2,4) nd2 xf nb] by blast
  have e: "hm_delete_node (Some x) NoOut m = Some (0, ([], None), m3)"
    using nd m1(1) m2(1) m3(1) by (simp add: hm_delete_node_def hm_old_data_def)
  have p3: "KY m3 = KY m" "y \<noteq> x \<Longrightarrow> CL m3 y = CL m y \<and> CH m3 y = CH m y" "hm_allocator m3 = a" "hm_bucket_size m3 = hm_bucket_size m" for y
    using m3(3) m2 f1 by (simp_all add: frame_list_def)
  have sa: "set ?as = set as - {x}" "int (length ?as) = int (length as) - 1"
    using I(12) x(1) length_pos_if_in_set [OF x(1)] by (simp_all add: length_remove1 of_nat_diff Suc_le_eq)
  have "hm_inv m3 (x # fs) ?bs ?as z (n + (l + z - 1) div z) (B(h := None))"
    unfolding hm_inv_def
  proof (intro conjI allI impI)
    show "hm_dom_ok m3" using hm_dom_ok_frame_list [OF m3(3) m2(4)] .
    show "add_ok m3 ?as" using add_ok_frame_list [OF m3(3) m2(3)] .
    show "data_ok m3 ?as z (n + (l + z - 1) div z) (B(h := None))"
      by (rule data_ok_delete [OF I(4) x(1) h(2) I(12)]) (use a(2) p3 in simp_all)
    show "hm_node m3 y \<noteq> None \<longleftrightarrow> y \<in> set (x # fs) \<or> y \<in> set ?as" for y
    proof -
      have "hm_node m3 y = None \<longleftrightarrow> hm_node m y = None"
        using arg_cong [OF p3(1), of "\<lambda>f. f y = None"] by (simp add: KY_def)
      then show ?thesis using I(5) [of y] x(1) unfolding sa by auto
    qed
    show "set (x # fs) \<inter> set ?as = {}" using I(6) unfolding sa by auto
    show "y \<in> set (?bs (hm_bid (hm_bucket_size m3) k'))" if "y \<in> set ?as" "KY m3 y = Some k'" for y k'
      using that I(7) [of y k'] f1 unfolding sa by (auto simp: p3)
    show "set (?bs b') \<subseteq> set ?as" if "0 \<le> b'" "b' < hm_bucket_size m3" for b'
    proof -
      have "set (?bs b') \<subseteq> set as" using I(8) [of b'] that set_remove1_subset [of x "bs b"] by (auto simp: p3)
      then show ?thesis using nb [of b'] that p3(4) m2(5) f1 unfolding sa by auto
    qed
    show "hm_used_node_num m3 = int (length ?as)" "hm_node_total m3 = int (length ?as + length (x # fs))"
      "hm_used_bucket_num m3 = int (card (used_buckets (hm_bucket_size m3) ?bs))"
      using m3(3,4) m2(5,6,8,9) f1 I(9,10) sa(2) by (simp_all add: frame_list_def)
  qed (rule m3(2))
  moreover have "map (hm_entry m3 (B(h := None))) ?as = map (hm_entry m B) ?as"
  proof (rule map_cong [OF refl])
    fix y assume y: "y \<in> set ?as"
    then have y': "y \<in> set as" "y \<noteq> x" unfolding sa by auto
    have "CH m y \<noteq> Some h" using I(4) y' x(1) h(2) unfolding data_ok_def inj_on_def by metis
    moreover obtain g e where "CH m y = Some g" "B g = Some e" using data_okE [OF I(4) y'(1)] by metis
    ultimately show "hm_entry m3 (B(h := None)) y = hm_entry m B y"
      using p3(2) [OF y'(2)] by (simp add: hm_entry_def p3(1))
  qed
  ultimately show ?thesis using e by (intro exI conjI)
qed

section \<open>Refinement\<close>

lemma hm_repE:
  assumes "hm_rep m z n f E"
  obtains fs bs as B where "hm_inv m fs bs as z n B" "f = length fs" "E = map (hm_entry m B) as"
  using assms unfolding hm_rep_def by blast

lemma hm_repI: "hm_inv m fs bs as z n B \<Longrightarrow> f = length fs \<Longrightarrow> E = map (hm_entry m B) as \<Longrightarrow> hm_rep m z n f E"
  unfolding hm_rep_def by blast

lemma hm_inv_entry_len:
  assumes "hm_inv m fs bs as z n B" "x \<in> set as"
  obtains l d where "CL m x = Some l" "0 < l" "length (snd (hm_entry m B x)) = nat l" "CH m x \<noteq> None"
proof -
  obtain k h l d where d: "KY m x = Some k" "CH m x = Some h" "CL m x = Some l" "B h = Some d" "0 < l"
    "int (length d) = ((l + z - 1) div z) * z" using data_okE [OF hm_invD(4) [OF assms(1)] assms(2)] by metis
  have "0 < z" using ca.rep_size hm_invD(4) [OF assms(1)] unfolding data_ok_def by blast
  then have "l \<le> int (length d)" using ca.chunk_num_enough(1) [of z l] d(6) by simp
  then show ?thesis using that d by (simp add: hm_entry_def nat_le_iff)
qed

text \<open>The entries have distinct keys and are not empty; the counters of the table agree with them.\<close>

lemma hm_rep_entries:
  assumes "hm_rep m z n f E"
  shows "distinct (map fst E)" "\<forall>e \<in> set E. snd e \<noteq> []" "hm_used_node_num m = int (length E)"
    "hm_node_total m = int (length E + f)" "0 < z" "0 \<le> n"
proof -
  obtain fs bs as B where inv: "hm_inv m fs bs as z n B" "f = length fs" "E = map (hm_entry m B) as"
    using assms by (rule hm_repE)
  note I = hm_invD [OF inv(1)]
  have "x = y" if xy: "x \<in> set as" "y \<in> set as" "fst (hm_entry m B x) = fst (hm_entry m B y)" for x y
  proof -
    obtain k where "KY m x = Some k" "KY m y = Some k"
      using I(13) [OF xy(1)] hm_inv_key [OF inv(1) xy(1)] hm_inv_key [OF inv(1) xy(2)] xy(3) by metis
    then show ?thesis using I(4) xy(1,2) by (simp add: data_ok_def inj_on_def)
  qed
  then show "distinct (map fst E)" using inv(3) I(12) by (simp add: distinct_map inj_on_def)
  show "\<forall>e \<in> set E. snd e \<noteq> []"
  proof
    fix e assume "e \<in> set E"
    then obtain x where x: "x \<in> set as" "e = hm_entry m B x" using inv(3) by auto
    then obtain l where "0 < l" "length (snd e) = nat l" using hm_inv_entry_len [OF inv(1) x(1)] by metis
    then show "snd e \<noteq> []" by auto
  qed
  show "hm_used_node_num m = int (length E)" "hm_node_total m = int (length E + f)"
    using I(9,10) inv(2,3) by simp_all
  show "0 < z" "0 \<le> n" using ca.rep_size I(4) unfolding data_ok_def by blast+
qed

lemma hm_find_rep_None:
  "hm_rep m z n f E \<Longrightarrow> map_of E k = None \<Longrightarrow> hm_find_node now k m = Some (None, m)"
  by (erule hm_repE) (metis hm_find_inv(1) hm_inv_map_of_None)

text \<open>A found node: its handle heads the list of last use, and its data can be read back.\<close>

lemma hm_find_rep_Some:
  assumes "hm_rep m z n f E" "map_of E k = Some v"
  obtains x m' fs bs as B where "hm_find_node now k m = Some (Some x, m')" "hm_inv m' fs bs (x # as) z n B" "f = length fs"
     "KY m' x = Some k" "CL m' x = Some (int (length v))" "snd (hm_entry m' B x) = v"
     "map (hm_entry m' B) (x # as) = (k, v) # filter (\<lambda>e. fst e \<noteq> k) E"
proof -
  obtain fs bs as B where inv: "hm_inv m fs bs as z n B" "f = length fs" "E = map (hm_entry m B) as"
    using assms(1) by (rule hm_repE)
  obtain x where x: "x \<in> set as" "KY m x = Some k" using hm_inv_map_of_None [OF inv(1), of k] assms(2) inv(3) by auto
  have v: "snd (hm_entry m B x) = v" using hm_inv_map_of [OF inv(1) x] assms(2) inv(3) by simp
  obtain l where l: "CL m x = Some l" "0 < l" "length (snd (hm_entry m B x)) = nat l" using hm_inv_entry_len [OF inv(1) x(1)] by metis
  obtain m' where m': "hm_find_node now k m = Some (Some x, m')" "hm_inv m' fs bs (x # remove1 x as) z n B" "frame_add m m'"
    using hm_find_inv(2) [OF inv(1) x] by blast
  note p = frame_add_proj [OF m'(3)]
  have ent: "hm_entry m' B = hm_entry m B" using p by (intro hm_entry_cong) auto
  have "hm_entry m B x = (k, v)" using v hm_inv_key [OF inv(1) x(1), of k] x(2) by (simp add: prod_eq_iff)
  then have "map (hm_entry m' B) (x # remove1 x as) = (k, v) # filter (\<lambda>e. fst e \<noteq> k) E"
    using hm_inv_filter [OF inv(1) x] ent inv(3) by simp
  moreover have "CL m' x = Some (int (length v))" using p l v by simp
  moreover have "KY m' x = Some k" "snd (hm_entry m' B x) = v" using p x v ent by simp_all
  ultimately show ?thesis using m'(1,2) inv(2) by (intro that)
qed

lemma hm_merge_node_inv:
  assumes "hm_inv m fs bs as z n B" "x \<in> set as" "CL m x = Some l"
  shows "hm_merge_node_data (Some x) (DataOut cap) m =
     Some (if cap < l then (-2, [], Some l) else (0, snd (hm_entry m B x), Some l))"
proof -
  note I = hm_invD [OF assms(1)]
  have D: "chunk_rep (hm_allocator m) z n B" using I(4) by (simp add: data_ok_def)
  obtain h d where h: "CH m x = Some h" "B h = Some d" "0 < l" "int (length d) = ((l + z - 1) div z) * z"
    using data_okE [OF I(4) assms(2)] assms(3) by (metis option.inject)
  have "l \<le> int (length d)" using ca.chunk_num_enough(1) [of z l] ca.rep_size [OF D] h(4) by simp
  then show ?thesis
    using h assms(3) ca.merge_ok [OF D h(2), of l cap] ca.merge_short [of cap l h]
    by (auto simp: hm_merge_node_data_def CH_def CL_def hm_entry_def not_less)
qed

text \<open>\<open>replace_node\<close> on a key that is not in the table.\<close>

lemma hm_replace_rep_new:
  assumes rep: "hm_rep m z n f E" and k: "map_of E k = None" and ne: "data \<noteq> []" and c: "c = (int (length data) + z - 1) div z"
  shows "0 < f \<Longrightarrow> c \<le> n \<Longrightarrow> \<exists>x m'. hm_replace_node now k data (int (length data)) NoOut m = Some (Some x, ([], None), m') \<and>
       hm_rep m' z (n - c) (f - 1) (lru_set k data E)"
    and "f = 0 \<or> n < c \<Longrightarrow> hm_replace_node now k data (int (length data)) NoOut m = Some (None, ([], None), m)"
proof -
  obtain fs bs as B where inv: "hm_inv m fs bs as z n B" "f = length fs" "E = map (hm_entry m B) as"
    using rep by (rule hm_repE)
  have none: "hm_find_node now k m = Some (None, m)" using hm_find_rep_None [OF rep k] .
  have nk: "\<forall>y \<in> set as. KY m y \<noteq> Some k" using hm_inv_map_of_None [OF inv(1)] k inv(3) by simp
  show "hm_replace_node now k data (int (length data)) NoOut m = Some (None, ([], None), m)" if "f = 0 \<or> n < c"
    using hm_insert_full [OF inv(1) ne, of now k] none that inv(2) c by (auto simp: hm_replace_node_def)
  assume f: "0 < f" "c \<le> n"
  obtain x gs where fs: "fs = x # gs" using f inv(2) by (cases fs) auto
  obtain m' bs' B' where m': "hm_insert_node now k data (int (length data)) m = Some (Some x, m')"
      "hm_inv m' gs bs' (x # as) z (n - c) B'" "map (hm_entry m' B') (x # as) = (k, data) # map (hm_entry m B) as"
    using hm_insert_inv [OF inv(1) [unfolded fs] nk ne c f(2), of now] by metis
  have "filter (\<lambda>e. fst e \<noteq> k) E = E" using k by (auto simp: map_of_eq_None_iff filter_id_conv)
  then have "hm_rep m' z (n - c) (f - 1) (lru_set k data E)"
    using m'(3) inv(2,3) fs by (intro hm_repI [OF m'(2)]) (simp_all add: lru_set_def)
  then show "\<exists>x m'. hm_replace_node now k data (int (length data)) NoOut m = Some (Some x, ([], None), m') \<and>
       hm_rep m' z (n - c) (f - 1) (lru_set k data E)"
    using none m'(1) by (auto simp: hm_replace_node_def)
qed

text \<open>\<open>replace_node\<close> on a key that is in the table.\<close>

lemma hm_replace_rep_old:
  assumes rep: "hm_rep m z n f E" and k: "map_of E k = Some v" and ne: "data \<noteq> []"
    and c: "c = (int (length data) + z - 1) div z" "o' = (int (length v) + z - 1) div z"
  shows "c \<le> n + o' \<Longrightarrow> \<exists>x m'. hm_replace_node now k data (int (length data)) NoOut m = Some (Some x, ([], None), m') \<and>
       hm_rep m' z (n + o' - c) f (lru_set k data E)"
    and "n + o' < c \<Longrightarrow> \<exists>m'. hm_replace_node now k data (int (length data)) NoOut m = Some (None, ([], None), m') \<and>
       hm_rep m' z n f (lru_touch k E)"
proof -
  obtain x m1 fs bs as B where m1: "hm_find_node now k m = Some (Some x, m1)" "hm_inv m1 fs bs (x # as) z n B" "f = length fs"
      "KY m1 x = Some k" "CL m1 x = Some (int (length v))" "snd (hm_entry m1 B x) = v" "map (hm_entry m1 B) (x # as) = (k, v) # filter (\<lambda>e. fst e \<noteq> k) E"
    by (rule hm_find_rep_Some [OF rep k])
  note U = hm_update_inv [OF m1(2) _ m1(4,5) ne c]
  show "\<exists>m'. hm_replace_node now k data (int (length data)) NoOut m = Some (None, ([], None), m') \<and>
       hm_rep m' z n f (lru_touch k E)" if "n + o' < c"
    using U(2) that m1(1) hm_repI [OF m1(2,3)] m1(7) k by (simp add: hm_replace_node_def lru_touch_def)
  assume "c \<le> n + o'"
  then obtain m' B' where m': "hm_update_node (Some x) data (int (length data)) NoOut m1 = Some (Some x, ([], None), m')"
      "hm_inv m' fs bs (x # as) z (n + o' - c) B'"
      "map (hm_entry m' B') (x # as) = map (\<lambda>e. if fst e = k then (k, data) else e) (map (hm_entry m1 B) (x # as))"
    using U(1) by auto
  have "map (\<lambda>e. if fst e = k then (k, data) else e) (filter (\<lambda>e. fst e \<noteq> k) E) = filter (\<lambda>e. fst e \<noteq> k) E"
    by (rule map_idI) auto
  then have "lru_set k data E = map (hm_entry m' B') (x # as)" unfolding m'(3) m1(7) by (simp add: lru_set_def)
  then have "hm_rep m' z (n + o' - c) f (lru_set k data E)" by (rule hm_repI [OF m'(2) m1(3)])
  then show "\<exists>x m'. hm_replace_node now k data (int (length data)) NoOut m = Some (Some x, ([], None), m') \<and>
       hm_rep m' z (n + o' - c) f (lru_set k data E)"
    using m1(1) m'(1) by (auto simp: hm_replace_node_def)
qed

text \<open>Deleting the node a lookup returned.\<close>

lemma hm_delete_rep:
  assumes rep: "hm_rep m z n f E" and k: "map_of E k = Some v"
  shows "\<exists>x m1 m'. hm_find_node now k m = Some (Some x, m1) \<and> hm_delete_node (Some x) NoOut m1 = Some (0, ([], None), m') \<and>
     hm_rep m' z (n + (int (length v) + z - 1) div z) (f + 1) (lru_delete k E)"
proof -
  obtain x m1 fs bs as B where m1: "hm_find_node now k m = Some (Some x, m1)" "hm_inv m1 fs bs (x # as) z n B" "f = length fs"
      "KY m1 x = Some k" "CL m1 x = Some (int (length v))" "snd (hm_entry m1 B x) = v" "map (hm_entry m1 B) (x # as) = (k, v) # filter (\<lambda>e. fst e \<noteq> k) E"
    by (rule hm_find_rep_Some [OF rep k])
  obtain m' bs' B' where m': "hm_delete_node (Some x) NoOut m1 = Some (0, ([], None), m')"
      "hm_inv m' (x # fs) bs' as z (n + (int (length v) + z - 1) div z) B'" "map (hm_entry m' B') as = map (hm_entry m1 B) as"
    using hm_delete_inv [OF m1(2) _ m1(5)] by auto
  have "hm_rep m' z (n + (int (length v) + z - 1) div z) (f + 1) (lru_delete k E)"
    by (rule hm_repI [OF m'(2)]) (use m1(3) m'(3) m1(7) in \<open>simp_all add: lru_delete_def del: map_eq_conv\<close>)
  then show ?thesis using m1(1) m'(1) by blast
qed

section \<open>Opening a pool\<close>

definition hm_layout :: "CHashMap \<Rightarrow> int \<Rightarrow> int \<Rightarrow> bool" where
  "hm_layout m N nb \<longleftrightarrow> (\<forall>x. hm_node m x \<noteq> None \<longleftrightarrow> (\<exists>i. 0 \<le> i \<and> i < N \<and> x = 40 + nb * 8 + i * 60))"

lemma hm_init_buckets_ok:
  "0 \<le> i \<Longrightarrow> i + int k = hm_bucket_size m \<Longrightarrow>
     hm_init_buckets k i m = Some (m\<lparr>hm_bucket := (\<lambda>b. if i \<le> b \<and> b < i + int k then -1 else hm_bucket m b)\<rparr>)"
proof (induction k arbitrary: i m)
  case 0
  have "(\<lambda>b. if i \<le> b \<and> b < i then -1 else hm_bucket m b) = hm_bucket m" by auto
  then show ?case by simp
next
  case (Suc k)
  let ?m = "m\<lparr>hm_bucket := (hm_bucket m)(i := -1)\<rparr>"
  have "(\<lambda>b. if i + 1 \<le> b \<and> b < i + 1 + int k then -1 else hm_bucket ?m b) =
      (\<lambda>b. if i \<le> b \<and> b < i + int (Suc k) then -1 else hm_bucket m b)" by auto
  moreover have "hm_set_bucket i (-1) m = Some ?m" using Suc.prems by (simp add: hm_set_bucket_def)
  ultimately show ?case using Suc.IH [of "i + 1" ?m] Suc.prems by simp
qed

text \<open>The nodes initialised so far form the free list.\<close>

definition hm_fresh :: "CHashMap \<Rightarrow> int list \<Rightarrow> bool" where
  "hm_fresh m fs \<longleftrightarrow> distinct fs \<and> hm_free_list m = lhead fs \<and>
     (\<forall>x \<in> set fs. \<exists>nd. hm_node m x = Some nd \<and> hn_node_next nd = lnext fs x \<and> hn_add_next nd = -1 \<and> hn_add_prev nd = -1)"

definition hm_hdr_eq :: "CHashMap \<Rightarrow> CHashMap \<Rightarrow> bool" where
  "hm_hdr_eq m m' \<longleftrightarrow> hm_pool_tail m' = hm_pool_tail m \<and> hm_node_total m' = hm_node_total m \<and>
     hm_bucket_size m' = hm_bucket_size m \<and> hm_used_node_num m' = hm_used_node_num m \<and>
     hm_used_bucket_num m' = hm_used_bucket_num m \<and> hm_add_head m' = hm_add_head m \<and> hm_add_tail m' = hm_add_tail m \<and>
     hm_bucket m' = hm_bucket m \<and> hm_allocator m' = hm_allocator m"

lemma hm_init_nodes_ok:
  assumes "0 \<le> i" "i + int k = N" "hm_layout m N nb" "0 \<le> nb" "hm_pool_tail m = 40 + nb * 8 + N * 60" "hm_fresh m fs"
    "\<forall>x. x \<in> set fs \<longleftrightarrow> (\<exists>j. 0 \<le> j \<and> j < i \<and> x = 40 + nb * 8 + j * 60)"
  shows "\<exists>m' fs'. hm_init_nodes k i (40 + nb * 8) m = Some m' \<and> hm_fresh m' fs' \<and> hm_layout m' N nb \<and>
     (\<forall>x. x \<in> set fs' \<longleftrightarrow> (\<exists>j. 0 \<le> j \<and> j < N \<and> x = 40 + nb * 8 + j * 60)) \<and> length fs' = length fs + k \<and>
     hm_hdr_eq m m'"
  using assms
proof (induction k arbitrary: i m fs)
  case 0
  then have "hm_init_nodes 0 i (40 + nb * 8) m = Some m" "i = N" by simp_all
  then show ?case using 0 by (intro exI [of _ m] exI [of _ fs]) (simp add: hm_hdr_eq_def)
next
  case (Suc k)
  let ?x = "40 + nb * 8 + i * 60"
  obtain nd where nd: "hm_node m ?x = Some nd" using Suc.prems(1-3) unfolding hm_layout_def by (metis less_add_same_cancel1 not_None_eq of_nat_0_less_iff zero_less_Suc)
  let ?f = "\<lambda>nd. nd\<lparr>hn_chunk_len := 0, hn_add_info_1 := 0, hn_add_info_2 := 0, hn_flag := 0,
       hn_chunk_head := -1, hn_node_next := -1, hn_node_prev := -1, hn_add_next := -1, hn_add_prev := -1\<rparr>"
  let ?m1 = "hm_upd ?x ?f m"
  define m2 where "m2 = (hm_upd ?x (hn_node_next_update (\<lambda>_. hm_free_list m)) ?m1)\<lparr>hm_free_list := ?x\<rparr>"
  have s1: "hm_init_node (Some ?x) m = Some ?m1" using hm_store_eq [OF nd] by (simp add: hm_init_node_def)
  have nd1: "hm_node ?m1 ?x = Some (?f nd)" using nd by simp
  have ptr: "hm_ptr2handler m (Some ?x) = ?x" using Suc.prems by (simp add: hm_ptr2handler_def)
  have s2: "hm_free_list_insert (Some ?x) ?m1 = Some m2"
    using hm_store_eq [OF nd1] ptr by (simp add: hm_free_list_insert_def m2_def)
  have nin: "?x \<notin> set fs" using Suc.prems(7) by auto
  have fresh: "hm_fresh m2 (?x # fs)"
    using Suc.prems(6) nin nd unfolding hm_fresh_def m2_def by auto
  have "hm_node m2 y \<noteq> None \<longleftrightarrow> hm_node m y \<noteq> None" for y by (simp add: m2_def)
  then have lay: "hm_layout m2 N nb" using Suc.prems(3) unfolding hm_layout_def by (simp only: simp_thms)
  have mem: "\<forall>x. x \<in> set (?x # fs) \<longleftrightarrow> (\<exists>j. 0 \<le> j \<and> j < i + 1 \<and> x = 40 + nb * 8 + j * 60)"
  proof
    fix x
    have "(\<exists>j. 0 \<le> j \<and> j < i + 1 \<and> x = 40 + nb * 8 + j * 60) \<longleftrightarrow> x = ?x \<or> (\<exists>j. 0 \<le> j \<and> j < i \<and> x = 40 + nb * 8 + j * 60)"
      using Suc.prems(1) by (metis zless_add1_eq less_irrefl)
    then show "x \<in> set (?x # fs) \<longleftrightarrow> (\<exists>j. 0 \<le> j \<and> j < i + 1 \<and> x = 40 + nb * 8 + j * 60)" using Suc.prems(7) by simp
  qed
  have tail: "hm_pool_tail m2 = 40 + nb * 8 + N * 60" using Suc.prems(5) by (simp add: m2_def)
  have i1: "0 \<le> i + 1" "i + 1 + int k = N" using Suc.prems(1,2) by simp_all
  obtain m' fs' where m': "hm_init_nodes k (i + 1) (40 + nb * 8) m2 = Some m'" "hm_fresh m' fs'" "hm_layout m' N nb"
      "\<forall>x. x \<in> set fs' \<longleftrightarrow> (\<exists>j. 0 \<le> j \<and> j < N \<and> x = 40 + nb * 8 + j * 60)" "length fs' = length (?x # fs) + k"
      "hm_hdr_eq m2 m'"
    using Suc.IH [OF i1 lay Suc.prems(4) tail fresh mem] by metis
  have "hm_hdr_eq m m'" using m'(6) by (simp add: hm_hdr_eq_def m2_def)
  moreover have "hm_init_nodes (Suc k) i (40 + nb * 8) m = Some m'" using s1 s2 m'(1) by simp
  moreover have "length fs' = length fs + Suc k" using m'(5) by simp
  ultimately show ?case using m'(2-4) by metis
qed

text \<open>A pool of \<open>N\<close> nodes, \<open>nb\<close> buckets and \<open>n\<close> chunks of \<open>z\<close> bytes: the header fields and the places
  of the nodes and chunks. Initialisation establishes it and verification relies on it.\<close>

definition hm_formatted :: "CHashMap \<Rightarrow> int \<Rightarrow> int \<Rightarrow> int \<Rightarrow> int \<Rightarrow> bool" where
  "hm_formatted m N nb n z \<longleftrightarrow> hm_node_total m = N \<and> hm_bucket_size m = nb \<and> hm_pool_tail m = hm_get_pool_size N nb \<and>
     hm_layout m N nb \<and> ca_chunk_total (hm_allocator m) = n \<and> ca_pool_tail (hm_allocator m) = ca_get_pool_size n z \<and>
     ca_layout (hm_allocator m) n z"

lemma hm_open_init:
  assumes sz: "0 < nb" "nb \<le> int_max" "0 \<le> N" "0 < z" "0 \<le> n" and lay: "hm_layout m N nb" "ca_layout (hm_allocator m) n z"
  shows "\<exists>m'. hm_open True N nb n z m = Some (0, m') \<and> hm_rep m' z n (nat N) [] \<and> hm_formatted m' N nb n z"
proof -
  let ?m0 = "m\<lparr>hm_pool_tail := 40 + nb * 8 + N * 60, hm_node_total := N, hm_bucket_size := nb, hm_used_node_num := 0,
              hm_used_bucket_num := 0, hm_add_head := -1, hm_add_tail := -1, hm_free_list := -1\<rparr>"
  define m1 where "m1 = ?m0\<lparr>hm_bucket := (\<lambda>b. if 0 \<le> b \<and> b < nb then -1 else hm_bucket m b)\<rparr>"
  have b: "hm_init_buckets (nat nb) 0 ?m0 = Some m1"
    using hm_init_buckets_ok [of 0 "nat nb" ?m0] sz by (simp add: m1_def cong: if_cong)
  have lay1: "hm_layout m1 N nb" using lay(1) by (simp add: hm_layout_def m1_def)
  have fr1: "hm_fresh m1 []" by (simp add: hm_fresh_def m1_def)
  have c1: "(0::int) \<le> 0" "0 + int (nat N) = N" "0 \<le> nb" "hm_pool_tail m1 = 40 + nb * 8 + N * 60"
    "\<forall>x. x \<in> set [] \<longleftrightarrow> (\<exists>j. 0 \<le> j \<and> j < 0 \<and> x = 40 + nb * 8 + j * 60)"
    using sz by (simp_all add: m1_def)
  obtain m2 fs where m2: "hm_init_nodes (nat N) 0 (40 + nb * 8) m1 = Some m2" "hm_fresh m2 fs" "hm_layout m2 N nb"
      "\<forall>x. x \<in> set fs \<longleftrightarrow> (\<exists>j. 0 \<le> j \<and> j < N \<and> x = 40 + nb * 8 + j * 60)" "length fs = length ([] :: int list) + nat N"
      "hm_hdr_eq m1 m2"
    using hm_init_nodes_ok [OF c1(1,2) lay1 c1(3,4) fr1 c1(5)] by metis
  have hdr: "hm_pool_tail m2 = 40 + nb * 8 + N * 60" "hm_node_total m2 = N" "hm_bucket_size m2 = nb" "hm_used_node_num m2 = 0"
      "hm_used_bucket_num m2 = 0" "hm_add_head m2 = -1" "hm_add_tail m2 = -1" "hm_allocator m2 = hm_allocator m"
      "\<And>b. 0 \<le> b \<Longrightarrow> b < nb \<Longrightarrow> hm_bucket m2 b = -1"
    using m2(6) by (simp_all add: hm_hdr_eq_def m1_def)
  obtain a where a: "ca_open True n z (hm_allocator m) = Some (0, a)" "chunk_rep a z n Map.empty" "ca_chunk_total a = n"
      "ca_pool_tail a = ca_get_pool_size n z" "ca_layout a n z"
    using ca_open_init [OF sz(4,5) lay(2)] by blast
  let ?m = "m2\<lparr>hm_allocator := a\<rparr>"
  have e: "hm_open True N nb n z m = Some (0, ?m)"
    using b m2(1) a(1) hdr(8)
    by (simp add: hm_open_def hm_get_pool_size_def hm_init_pool_data_def Let_def algebra_simps)
  have nodes: "hm_node m2 x \<noteq> None \<longleftrightarrow> x \<in> set fs" for x using m2(3,4) unfolding hm_layout_def by blast
  have dom: "hm_dom_ok ?m"
    unfolding hm_dom_ok_def
  proof (intro allI impI)
    fix x nd assume "hm_node ?m x = Some nd"
    then obtain j where "0 \<le> j" "j < N" "x = 40 + nb * 8 + j * 60" using nodes [of x] m2(4) by auto
    then show "0 \<le> x \<and> x < hm_pool_tail ?m" using sz hdr(1) by simp
  qed
  have fresh: "hn_node_next nd = lnext fs x" "hn_add_next nd = -1" "hn_add_prev nd = -1" if "hm_node m2 x = Some nd" for x nd
  proof -
    have "x \<in> set fs" using nodes [of x] that by simp
    then obtain nd' where "hm_node m2 x = Some nd'" "hn_node_next nd' = lnext fs x" "hn_add_next nd' = -1" "hn_add_prev nd' = -1"
      using m2(2) unfolding hm_fresh_def by blast
    then show "hn_node_next nd = lnext fs x" "hn_add_next nd = -1" "hn_add_prev nd = -1" using that by simp_all
  qed
  have fl: "distinct fs" "hm_free_list m2 = lhead fs" using m2(2) by (simp_all add: hm_fresh_def)
  have "NX ?m x = Some (lnext fs x)" if "x \<in> set fs" for x
    using nodes [of x] that fresh(1) [of x] by (cases "hm_node m2 x") (simp_all add: NX_def)
  then have "list_ok ?m fs (\<lambda>_. [])"
    using fl sz(1,2) hdr(3,9) by (simp add: list_ok_def)
  moreover have "add_ok ?m []"
    using fresh(2,3) hdr(6,7) by (simp add: add_ok_def)
  moreover have "data_ok ?m [] z n Map.empty" using a(2) by (simp add: data_ok_def)
  ultimately have "hm_inv ?m fs (\<lambda>_. []) [] z n Map.empty"
    unfolding hm_inv_def using dom nodes hdr m2(5) sz by (simp add: used_buckets_def)
  then have "hm_rep ?m z n (nat N) []" by (rule hm_repI) (use m2(5) in simp_all)
  moreover have "hm_formatted ?m N nb n z"
    using a(3-5) hdr(1-3) m2(3) by (simp add: hm_formatted_def hm_layout_def hm_get_pool_size_def mult.commute)
  ultimately show ?thesis using e by blast
qed

text \<open>A pool in use passes the verification of a restart.\<close>

lemma hm_count_free_ok:
  "chain (NX m) h xs \<Longrightarrow> hm_count_free m (hm_handler2ptr h) c = Some (c + int (length xs))"
proof (induction xs arbitrary: h c)
  case Nil
  then show ?case by (subst hm_count_free.simps) (simp add: hm_handler2ptr_def)
next
  case (Cons x xs)
  then obtain n nd where n: "h = x" "x \<noteq> -1" "chain (NX m) n xs" "hm_node m x = Some nd" "hn_node_next nd = n"
    by (auto dest: NX_dom)
  moreover have "hm_handler2ptr h = Some x" using n(1,2) by (simp add: hm_handler2ptr_def)
  ultimately show ?case using Cons.IH [of n "c + 1"] by (subst hm_count_free.simps) simp
qed

lemma hm_count_buckets_ok:
  assumes "\<And>b. 0 \<le> b \<Longrightarrow> b < hm_bucket_size m \<Longrightarrow> hm_bucket m b = -1 \<longleftrightarrow> bs b = []"
  shows "0 \<le> i \<Longrightarrow> i + int k = hm_bucket_size m \<Longrightarrow>
     hm_count_buckets k i c m = Some (c + int (card {b. i \<le> b \<and> b < hm_bucket_size m \<and> bs b \<noteq> []}))"
proof (induction k arbitrary: i c)
  case 0
  then have "{b. i \<le> b \<and> b < hm_bucket_size m \<and> bs b \<noteq> []} = {}" by auto
  then show ?case by (simp only: hm_count_buckets.simps) simp
next
  case (Suc k)
  let ?S = "\<lambda>i. {b. i \<le> b \<and> b < hm_bucket_size m \<and> bs b \<noteq> []}"
  have fin: "finite (?S j)" for j by (rule finite_subset [of _ "{j..<hm_bucket_size m}"]) auto
  have "?S i = (if bs i = [] then ?S (i + 1) else insert i (?S (i + 1)))"
    using Suc.prems by (auto simp: order_le_less)
  then have "int (card (?S i)) = (if bs i = [] then 0 else 1) + int (card (?S (i + 1)))" using fin [of "i + 1"] by simp
  then show ?case
    using Suc.IH [of "i + 1"] Suc.prems assms [of i] by (simp add: hm_get_bucket_def)
qed

lemma hm_verify_ok:
  assumes "hm_rep m z n f E"
  shows "hm_verify_pool_data (hm_node_total m) (hm_bucket_size m) m = Some 0"
proof -
  obtain fs bs as B where inv: "hm_inv m fs bs as z n B" "f = length fs" "E = map (hm_entry m B) as"
    using assms by (rule hm_repE)
  note I = hm_invD [OF inv(1)] and L = list_okD [OF hm_invD(3) [OF inv(1)]]
  have b: "hm_bucket m b = -1 \<longleftrightarrow> bs b = []" if "0 \<le> b" "b < hm_bucket_size m" for b
    using L(7) [OF that] lhead_eq_invalid [OF list_ok_bucket_invalid [OF I(3,1) that]] by simp
  have "hm_count_buckets (nat (hm_bucket_size m)) 0 0 m = Some (hm_used_bucket_num m)"
    using hm_count_buckets_ok [OF b, of 0 "nat (hm_bucket_size m)" 0] I(11) L(1) by (simp add: used_buckets_def)
  moreover have "chain (NX m) (hm_free_list m) fs"
    using chain_lnext [OF L(3) list_ok_free_invalid [OF I(3,1)] L(5)] L(4) by simp
  then have "hm_count_free m (hm_handler2ptr (hm_free_list m)) 0 = Some (int (length fs))"
    using hm_count_free_ok [of m _ fs 0] by simp
  ultimately show ?thesis using I(9,10) by (simp add: hm_verify_pool_data_def)
qed

lemma hm_update_ids:
  "hm_pool_tail m = t \<Longrightarrow> m\<lparr>hm_pool_tail := t\<rparr> = m" "m\<lparr>hm_allocator := hm_allocator m\<rparr> = m"
  "ca_pool_tail a = t \<Longrightarrow> a\<lparr>ca_pool_tail := t\<rparr> = a"
  by (auto simp: CHashMap.equality CChunkAllocator.equality)

lemma hm_open_verify:
  assumes rep: "hm_rep m z c f E" and fmt: "hm_formatted m N nb n z"
  shows "hm_open False N nb n z m = Some (0, m)"
proof -
  obtain B where D: "chunk_rep (hm_allocator m) z c B"
    using rep unfolding hm_rep_def hm_inv_def data_ok_def by blast
  note F = fmt [unfolded hm_formatted_def]
  have eq: "m\<lparr>hm_pool_tail := hm_get_pool_size N nb\<rparr> = m"
    "(hm_allocator m)\<lparr>ca_pool_tail := ca_get_pool_size n z\<rparr> = hm_allocator m" "m\<lparr>hm_allocator := hm_allocator m\<rparr> = m"
    using F by (simp_all add: hm_update_ids)
  show ?thesis
    using hm_verify_ok [OF rep] ca_verify_ok [OF D] F by (simp add: hm_open_def ca_open_def eq Let_def)
qed

end
