(* ===== verification/ShmHashMap.thy ===== *)
theory ShmHashMap
  imports HashMapInv
begin

text \<open>
  \<open>Server/SVShm.cpp\<close> and \<open>Server/ShmHashMap.hpp\<close>: the shared memory segment and the hash map placed in
  it. The system calls \<open>shmget\<close>, \<open>shmat\<close> and \<open>shmctl(IPC_RMID)\<close> are the functions of a parameter
  \<open>os\<close> over a state of the operating system; the memory of a segment is a parameter that gives, for
  an address, the hash map pool found there.
\<close>

section \<open>CSVShm\<close>

text \<open>\<open>os_shmget key size create s\<close> returns an identifier or, on failure, whether \<open>errno\<close> is
  \<open>EEXIST\<close>; \<open>create\<close> stands for \<open>IPC_CREAT | IPC_EXCL\<close>.\<close>

record 'o shm_os =
  os_shmget :: "int \<Rightarrow> int \<Rightarrow> bool \<Rightarrow> 'o \<Rightarrow> (int option \<times> bool \<times> 'o)"
  os_shmat :: "int \<Rightarrow> 'o \<Rightarrow> (int option \<times> 'o)"
  os_shmrm :: "int \<Rightarrow> 'o \<Rightarrow> (bool \<times> 'o)"

record CSVShm =
  internal_id :: int
  segment_size :: int
  segment_ptr :: "int option"

definition sv_open :: "'o shm_os \<Rightarrow> int \<Rightarrow> int \<Rightarrow> bool \<Rightarrow> CSVShm \<Rightarrow> 'o \<Rightarrow> (int \<times> bool \<times> CSVShm \<times> 'o)" where
  "sv_open os key sz create sv s =
     (let (r, eexist, s) = os_shmget os key sz create s;
          sv = sv\<lparr>segment_ptr := None, segment_size := sz, internal_id := (case r of None \<Rightarrow> -1 | Some i \<Rightarrow> i)\<rparr>
      in (if internal_id sv = -1 then -1 else 0, eexist, sv, s))"

definition sv_attach :: "'o shm_os \<Rightarrow> CSVShm \<Rightarrow> 'o \<Rightarrow> (int \<times> CSVShm \<times> 'o)" where
  "sv_attach os sv s =
     (let (r, s) = os_shmat os (internal_id sv) s;
          sv = sv\<lparr>segment_ptr := r\<rparr>
      in (if r = None then -1 else 0, sv, s))"

definition sv_remove :: "'o shm_os \<Rightarrow> CSVShm \<Rightarrow> 'o \<Rightarrow> (int \<times> 'o)" where
  "sv_remove os sv s = (let (ok, s) = os_shmrm os (internal_id sv) s in (if ok then 0 else -1, s))"

text \<open>Returns the result, the value of the output argument \<open>init\<close>, the object and the system state.\<close>

definition sv_force_open_and_attach ::
  "'o shm_os \<Rightarrow> int \<Rightarrow> int \<Rightarrow> CSVShm \<Rightarrow> 'o \<Rightarrow> (int \<times> int \<times> CSVShm \<times> 'o)" where
  "sv_force_open_and_attach os key sz sv s =
     (let init = 1;
          (ret, eexist, sv, s) = sv_open os key sz True sv s
      in
        if ret = -1 then
          (if \<not> eexist then (-1, init, sv, s)
           else
             let (ret, _, sv, s) = sv_open os key sz False sv s in
               if ret = -1 then
                 let (ret, _, sv, s) = sv_open os key 0 False sv s in
                   if ret = -1 then (-1, init, sv, s)
                   else
                     let (ret, s) = sv_remove os sv s in
                       if ret = -1 then (-1, init, sv, s)
                       else
                         let (ret, _, sv, s) = sv_open os key sz True sv s in
                           if ret = -1 then (-1, init, sv, s)
                           else (let (ret, sv, s) = sv_attach os sv s in (ret, init, sv, s))
               else (let (ret, sv, s) = sv_attach os sv s in (ret, 0, sv, s)))
        else (let (ret, sv, s) = sv_attach os sv s in (ret, init, sv, s)))"

section \<open>CShmHashMap\<close>

record THashPara =
  bucket_size_cfg :: int
  node_total_cfg :: int
  chunk_total_cfg :: int
  chunk_size_cfg :: int

record THashInfo =
  hash_para :: THashPara
  shm_key :: int
  sem_key :: int

record CShmHashMap =
  shm_seg :: CSVShm
  shm_map :: CHashMap

text \<open>\<open>Init\<close>. The local variable \<open>init\<close> is assigned only when the segment is new; \<open>init0\<close> is the
  indeterminate value it starts with. \<open>mem\<close> gives the contents of the attached segment.\<close>

definition shm_Init ::
  "'o shm_os \<Rightarrow> int \<Rightarrow> (int \<Rightarrow> CHashMap) \<Rightarrow> THashInfo \<Rightarrow> CShmHashMap \<Rightarrow> 'o \<Rightarrow> (int \<times> CShmHashMap \<times> 'o) option" where
  "shm_Init os init0 mem hash_info h s =
     do {
       let para = hash_para hash_info;
       let pool_size = hm_get_total_pool_size (node_total_cfg para) (bucket_size_cfg para) (chunk_total_cfg para) (chunk_size_cfg para);
       let (ret, tmp_init, sv, s) = sv_force_open_and_attach os (shm_key hash_info) pool_size (shm_seg h) s;
       let h = h\<lparr>shm_seg := sv\<rparr>;
       if ret < 0 then Some (-1, h, s)
       else do {
         let init = (if tmp_init \<noteq> 0 then tmp_init else init0);
         ptr \<leftarrow> segment_ptr sv;
         (ret, m) \<leftarrow> hm_open (init \<noteq> 0) (node_total_cfg para) (bucket_size_cfg para) (chunk_total_cfg para) (chunk_size_cfg para) (mem ptr);
         let h = h\<lparr>shm_map := m\<rparr>;
         if ret < 0 then Some (-1, h, s) else Some (0, h, s)
       }
     }"

definition shm_Find :: "c_int \<Rightarrow> c_int \<Rightarrow> CShmHashMap \<Rightarrow> (bool \<times> CShmHashMap) option" where
  "shm_Find now key h =
     do { (node, m) \<leftarrow> hm_find_node now key (shm_map h); Some (node \<noteq> None, h\<lparr>shm_map := m\<rparr>) }"

text \<open>The lookup into a buffer of \<open>buf_len\<close> bytes returns its code, the bytes written and \<open>*buf_len\<close>.\<close>

definition shm_Find_buf :: "c_int \<Rightarrow> c_int \<Rightarrow> int \<Rightarrow> CShmHashMap \<Rightarrow> (int \<times> byte list \<times> int \<times> CShmHashMap) option" where
  "shm_Find_buf now key buf_len h =
     do {
       (node, m) \<leftarrow> hm_find_node now key (shm_map h);
       let h = h\<lparr>shm_map := m\<rparr>;
       if node \<noteq> None then do {
         (ret, bs, l) \<leftarrow> hm_merge_node_data node (DataOut buf_len) m;
         Some (ret, bs, (case l of None \<Rightarrow> buf_len | Some n \<Rightarrow> n), h)
       }
       else Some (-1, [], buf_len, h)
     }"

definition shm_Insert :: "c_int \<Rightarrow> c_int \<Rightarrow> byte list \<Rightarrow> int \<Rightarrow> CShmHashMap \<Rightarrow> (int \<times> CShmHashMap) option" where
  "shm_Insert now key data data_len h =
     do {
       (node, m) \<leftarrow> hm_insert_node now key data data_len (shm_map h);
       Some (if node = None then -1 else 0, h\<lparr>shm_map := m\<rparr>)
     }"

definition shm_SetValue :: "c_int \<Rightarrow> c_int \<Rightarrow> byte list \<Rightarrow> int \<Rightarrow> CShmHashMap \<Rightarrow> (int \<times> CShmHashMap) option" where
  "shm_SetValue now key data data_len h =
     do {
       (node, _, m) \<leftarrow> hm_replace_node now key data data_len NoOut (shm_map h);
       Some (if node = None then -1 else 0, h\<lparr>shm_map := m\<rparr>)
     }"

definition shm_Delete :: "c_int \<Rightarrow> c_int \<Rightarrow> CShmHashMap \<Rightarrow> (int \<times> CShmHashMap) option" where
  "shm_Delete now key h =
     do {
       (node, m) \<leftarrow> hm_find_node now key (shm_map h);
       if node \<noteq> None then do {
         (ret, _, m) \<leftarrow> hm_delete_node node NoOut m;
         Some (ret, h\<lparr>shm_map := m\<rparr>)
       }
       else Some (-1, h\<lparr>shm_map := m\<rparr>)
     }"

definition shm_GetSize :: "CShmHashMap \<Rightarrow> int" where
  "shm_GetSize h = hm_node_total (shm_map h)"

definition shm_GetCount :: "CShmHashMap \<Rightarrow> int" where
  "shm_GetCount h = hm_used_node_num (shm_map h)"

section \<open>The visitor\<close>

definition vistor_begin :: "CShmHashMap \<Rightarrow> c_ptr" where
  "vistor_begin h = hm_get_add_list_head (shm_map h)"

definition vistor_end :: "CShmHashMap \<Rightarrow> c_ptr" where
  "vistor_end h = hm_get_add_list_tail (shm_map h)"

definition vistor_next :: "c_ptr \<Rightarrow> CShmHashMap \<Rightarrow> c_ptr option" where
  "vistor_next node h = hm_get_add_list_next node (shm_map h)"

definition vistor_prev :: "c_ptr \<Rightarrow> CShmHashMap \<Rightarrow> c_ptr option" where
  "vistor_prev node h = hm_get_add_list_prev node (shm_map h)"

definition vistor_GetData :: "c_ptr \<Rightarrow> int \<Rightarrow> CShmHashMap \<Rightarrow> (int \<times> byte list \<times> int option) option" where
  "vistor_GetData node data_len h = hm_merge_node_data node (DataOut data_len) (shm_map h)"

definition vistor_Erase :: "c_ptr \<Rightarrow> CShmHashMap \<Rightarrow> (int \<times> CShmHashMap) option" where
  "vistor_Erase node h =
     (if node = None then Some (-1, h)
      else do { (ret, _, m) \<leftarrow> hm_delete_node node NoOut (shm_map h); Some (ret, h\<lparr>shm_map := m\<rparr>) })"

definition vistor_UpdateData :: "c_ptr \<Rightarrow> byte list \<Rightarrow> int \<Rightarrow> CShmHashMap \<Rightarrow> (c_ptr \<times> CShmHashMap) option" where
  "vistor_UpdateData node data data_len h =
     (if node = None then Some (None, h)
      else do { (r, _, m) \<leftarrow> hm_update_node node data data_len NoOut (shm_map h); Some (r, h\<lparr>shm_map := m\<rparr>) })"

section \<open>Contract\<close>

text \<open>
  Records of one size \<open>z\<close>, the chunk size: \<open>shm_rep h z f E\<close> says that the map holds the records
  \<open>E\<close>, most recently used first, and has room for \<open>f\<close> more.
\<close>

definition shm_rep :: "CShmHashMap \<Rightarrow> nat \<Rightarrow> nat \<Rightarrow> (c_int \<times> byte list) list \<Rightarrow> bool" where
  "shm_rep h z f E \<longleftrightarrow>
     (\<exists>n. hm_rep (shm_map h) (int z) n f E \<and> int f \<le> n) \<and> (\<forall>e \<in> set E. length (snd e) = z)"

lemma one_chunk: "0 < (z :: nat) \<Longrightarrow> (int z + int z - 1) div int z = 1"
  by (simp add: div_pos_geq)

lemma shm_rep_distinct: "shm_rep h z f E \<Longrightarrow> distinct (map fst E) \<and> 0 < z"
  unfolding shm_rep_def using hm_rep_entries(1,5) by force

lemma shm_Find_buf_rep:
  assumes rep: "shm_rep h z f E"
  shows "map_of E k = None \<Longrightarrow> shm_Find_buf now k (int z) h = Some (-1, [], int z, h)"
    and "map_of E k = Some v \<Longrightarrow> \<exists>h'. shm_Find_buf now k (int z) h = Some (0, v, int z, h') \<and> shm_rep h' z f (lru_touch k E)"
proof -
  obtain n where n: "hm_rep (shm_map h) (int z) n f E" "int f \<le> n" and len: "\<forall>e \<in> set E. length (snd e) = z"
    using rep by (auto simp: shm_rep_def)
  show "shm_Find_buf now k (int z) h = Some (-1, [], int z, h)" if "map_of E k = None"
    using hm_find_rep_None [OF n(1) that] by (simp add: shm_Find_buf_def)
  assume k: "map_of E k = Some v"
  have v: "length v = z" using len map_of_SomeD [OF k] by auto
  obtain x m' fs bs as B where m': "hm_find_node now k (shm_map h) = Some (Some x, m')" "hm_inv m' fs bs (x # as) (int z) n B"
      "f = length fs" "KY m' x = Some k" "CL m' x = Some (int (length v))" "snd (hm_entry m' B x) = v"
      "map (hm_entry m' B) (x # as) = (k, v) # filter (\<lambda>e. fst e \<noteq> k) E"
    by (rule hm_find_rep_Some [OF n(1) k])
  have "shm_Find_buf now k (int z) h = Some (0, v, int z, h\<lparr>shm_map := m'\<rparr>)"
    using m'(1,5,6) hm_merge_node_inv [OF m'(2) _ m'(5), of "int z"] v by (simp add: shm_Find_buf_def)
  moreover have "hm_rep m' (int z) n f (lru_touch k E)"
    by (rule hm_repI [OF m'(2,3)]) (use k m'(7) in \<open>simp add: lru_touch_def del: map_eq_conv\<close>)
  then have "shm_rep (h\<lparr>shm_map := m'\<rparr>) z f (lru_touch k E)"
    using n(2) len v k by (auto simp: shm_rep_def lru_touch_def)
  ultimately show "\<exists>h'. shm_Find_buf now k (int z) h = Some (0, v, int z, h') \<and> shm_rep h' z f (lru_touch k E)" by blast
qed

lemma shm_SetValue_rep:
  assumes rep: "shm_rep h z f E" and len: "length d = z"
  shows "map_of E k \<noteq> None \<Longrightarrow> \<exists>h'. shm_SetValue now k d (int z) h = Some (0, h') \<and> shm_rep h' z f (lru_set k d E)"
    and "map_of E k = None \<Longrightarrow> 0 < f \<Longrightarrow> \<exists>h'. shm_SetValue now k d (int z) h = Some (0, h') \<and> shm_rep h' z (f - 1) (lru_set k d E)"
    and "map_of E k = None \<Longrightarrow> f = 0 \<Longrightarrow> shm_SetValue now k d (int z) h = Some (-1, h)"
proof -
  obtain n where n: "hm_rep (shm_map h) (int z) n f E" "int f \<le> n" and lens: "\<forall>e \<in> set E. length (snd e) = z"
    using rep by (auto simp: shm_rep_def)
  have z: "0 < z" using shm_rep_distinct [OF rep] by simp
  have ne: "d \<noteq> []" using len z by auto
  have one: "1 = (int (length d) + int z - 1) div int z" using one_chunk [OF z] len by simp
  have lens': "\<forall>e \<in> set (lru_set k d E). length (snd e) = z" using lens len by (auto simp: lru_set_def)
  show "\<exists>h'. shm_SetValue now k d (int z) h = Some (0, h') \<and> shm_rep h' z f (lru_set k d E)" if some: "map_of E k \<noteq> None"
  proof -
    obtain v where v: "map_of E k = Some v" using some by auto
    have "length v = z" using lens map_of_SomeD [OF v] by auto
    then have one': "1 = (int (length v) + int z - 1) div int z" using one_chunk [OF z] by simp
    obtain x m' where "hm_replace_node now k d (int z) NoOut (shm_map h) = Some (Some x, ([], None), m')" "hm_rep m' (int z) n f (lru_set k d E)"
      using hm_replace_rep_old(1) [OF n(1) v ne one one', of now] hm_rep_entries(6) [OF n(1)] len by auto
    then show ?thesis using n(2) lens' by (auto simp: shm_SetValue_def shm_rep_def)
  qed
  show "\<exists>h'. shm_SetValue now k d (int z) h = Some (0, h') \<and> shm_rep h' z (f - 1) (lru_set k d E)" if k: "map_of E k = None" and f: "0 < f"
  proof -
    have "1 \<le> n" using f n(2) by simp
    then obtain x m' where m': "hm_replace_node now k d (int z) NoOut (shm_map h) = Some (Some x, ([], None), m')"
        "hm_rep m' (int z) (n - 1) (f - 1) (lru_set k d E)"
      using hm_replace_rep_new(1) [OF n(1) k ne one f, of now] len by auto
    have "int (f - 1) \<le> n - 1" using f n(2) by linarith
    with m' show ?thesis using lens' by (auto simp: shm_SetValue_def shm_rep_def)
  qed
  show "shm_SetValue now k d (int z) h = Some (-1, h)" if "map_of E k = None" "f = 0"
    using hm_replace_rep_new(2) [OF n(1) that(1) ne one, of now] that(2) len by (simp add: shm_SetValue_def)
qed

lemma shm_Delete_rep:
  assumes rep: "shm_rep h z f E"
  shows "map_of E k = None \<Longrightarrow> shm_Delete now k h = Some (-1, h)"
    and "map_of E k \<noteq> None \<Longrightarrow> \<exists>h'. shm_Delete now k h = Some (0, h') \<and> shm_rep h' z (f + 1) (lru_delete k E)"
proof -
  obtain n where n: "hm_rep (shm_map h) (int z) n f E" "int f \<le> n" and lens: "\<forall>e \<in> set E. length (snd e) = z"
    using rep by (auto simp: shm_rep_def)
  have z: "0 < z" using shm_rep_distinct [OF rep] by simp
  show "shm_Delete now k h = Some (-1, h)" if "map_of E k = None"
    using hm_find_rep_None [OF n(1) that, of now] by (simp add: shm_Delete_def)
  assume "map_of E k \<noteq> None"
  then obtain v where v: "map_of E k = Some v" by auto
  have "length v = z" using lens map_of_SomeD [OF v] by auto
  then have one: "(int (length v) + int z - 1) div int z = 1" using one_chunk [OF z] by simp
  obtain x m1 m' where "hm_find_node now k (shm_map h) = Some (Some x, m1)" "hm_delete_node (Some x) NoOut m1 = Some (0, ([], None), m')"
      "hm_rep m' (int z) (n + 1) (f + 1) (lru_delete k E)"
    using hm_delete_rep [OF n(1) v, of now] one by auto
  then show "\<exists>h'. shm_Delete now k h = Some (0, h') \<and> shm_rep h' z (f + 1) (lru_delete k E)"
    using n(2) lens by (auto simp: shm_Delete_def shm_rep_def lru_delete_def)
qed


section \<open>Traversal\<close>

text \<open>The visitor walks the records in order of last use.\<close>

lemma hm_rep_walk:
  assumes "hm_inv m fs bs (ys @ x # zs) z n B"
  shows "hm_get_add_list_head m = Some (hd (ys @ x # zs))"
    and "hm_get_add_list_next (Some x) m = Some (case zs of [] \<Rightarrow> None | y # _ \<Rightarrow> Some y)"
proof -
  note I = hm_invD [OF assms]
  have inv: "-1 \<notin> set (ys @ x # zs)" using add_ok_invalid [OF I(2,1)] .
  have hd: "hm_add_head m = lhead (ys @ x # zs)" using I(2) by (simp add: add_ok_def)
  show "hm_get_add_list_head m = Some (hd (ys @ x # zs))"
    using hd inv by (cases ys) (auto simp: hm_get_add_list_head_def hm_handler2ptr_def)
  obtain nd where nd: "hm_node m x = Some nd" using I(5) [of x] by auto
  have "lnext (ys @ x # zs) x = lhead zs" using I(12) by (induction ys) auto
  then have "hn_add_next nd = lhead zs" using I(2) nd by (simp add: add_ok_def)
  then show "hm_get_add_list_next (Some x) m = Some (case zs of [] \<Rightarrow> None | y # _ \<Rightarrow> Some y)"
    using nd inv by (cases zs) (auto simp: hm_get_add_list_next_def hm_handler2ptr_def)
qed

lemma hm_rep_walk_nil: "hm_inv m fs bs [] z n B \<Longrightarrow> hm_get_add_list_head m = None"
  using hm_invD(2) [of m fs bs "[]"] by (simp add: add_ok_def hm_get_add_list_head_def hm_handler2ptr_def)

end
