(* ===== verification/GameUser.thy ===== *)
theory GameUser
  imports ShmHashMap
begin

text \<open>
  \<open>Server/GameUser.h\<close>, \<open>Server/GameUser.cpp\<close>, \<open>Server/GameUserSHM.h\<close>, \<open>Server/GameUserSHM.cpp\<close>: the record kept for an online
  user and the store of these records. A \<open>CGameUser\<close> is packed into 20 bytes in host order; the
  store keeps the bytes under the user id.
\<close>

section \<open>CGameUser\<close>

record CGameUser =
  m_nUid :: c_int
  m_nHallServerId :: c_int
  m_nTid :: c_int
  m_nTerminalType :: c_short
  m_nServerLevel :: c_short
  m_nUpdateTime :: c_int

definition CGameUser_new :: "c_int \<Rightarrow> c_int \<Rightarrow> c_short \<Rightarrow> c_int \<Rightarrow> CGameUser" where
  "CGameUser_new uid svid terminalType updateTime =
     \<lparr>m_nUid = uid, m_nHallServerId = svid, m_nTid = 0, m_nTerminalType = terminalType, m_nServerLevel = -1,
      m_nUpdateTime = updateTime\<rparr>"

definition CGameUser_default :: CGameUser where
  "CGameUser_default =
     \<lparr>m_nUid = 0, m_nHallServerId = 0, m_nTid = 0, m_nTerminalType = 0, m_nServerLevel = -1, m_nUpdateTime = 0\<rparr>"

abbreviation sizeof_CGameUser :: nat where "sizeof_CGameUser \<equiv> 20"

text \<open>The bytes of the packed class and the object some bytes denote.\<close>

definition user_bytes :: "CGameUser \<Rightarrow> byte list" where
  "user_bytes u = le32 (m_nUid u) @ le32 (m_nHallServerId u) @ le32 (m_nTid u) @ le16 (m_nTerminalType u) @
     le16 (m_nServerLevel u) @ le32 (m_nUpdateTime u)"

definition user_of_bytes :: "byte list \<Rightarrow> CGameUser" where
  "user_of_bytes bs =
     \<lparr>m_nUid = of_le32 (take 4 bs), m_nHallServerId = of_le32 (take 4 (drop 4 bs)), m_nTid = of_le32 (take 4 (drop 8 bs)),
      m_nTerminalType = of_le16 (take 2 (drop 12 bs)), m_nServerLevel = of_le16 (take 2 (drop 14 bs)),
      m_nUpdateTime = of_le32 (take 4 (drop 16 bs))\<rparr>"

lemma length_user_bytes [simp]: "length (user_bytes u) = 20"
  by (simp add: user_bytes_def)

lemma user_of_user_bytes [simp]: "user_of_bytes (user_bytes u) = u"
  by (simp add: user_of_bytes_def user_bytes_def)

lemma user_bytes_of_bytes:
  assumes "length bs = 20"
  shows "user_bytes (user_of_bytes bs) = bs"
proof -
  have "bs = take 4 bs @ take 4 (drop 4 bs) @ take 4 (drop 8 bs) @ take 2 (drop 12 bs) @ take 2 (drop 14 bs) @ take 4 (drop 16 bs)"
    using assms by (intro nth_equalityI) (auto simp: nth_append nth_drop)
  then show ?thesis using assms by (simp add: user_bytes_def user_of_bytes_def le32_of_le32 le16_of_le16)
qed

section \<open>GameUserSHM\<close>

record GameUserSHM =
  m_HashInfo :: THashInfo
  m_ShmHashMap :: CShmHashMap

definition gshm_SetHashInfo :: "THashPara \<Rightarrow> int \<Rightarrow> int \<Rightarrow> GameUserSHM \<Rightarrow> GameUserSHM" where
  "gshm_SetHashInfo hashPara shmkey semkey g =
     g\<lparr>m_HashInfo := \<lparr>hash_para = hashPara\<lparr>chunk_size_cfg := int sizeof_CGameUser\<rparr>, shm_key = shmkey, sem_key = semkey\<rparr>\<rparr>"

definition gshm_Init :: "'o shm_os \<Rightarrow> int \<Rightarrow> (int \<Rightarrow> CHashMap) \<Rightarrow> GameUserSHM \<Rightarrow> 'o \<Rightarrow> (int \<times> GameUserSHM \<times> 'o) option" where
  "gshm_Init os init0 mem g s =
     do { (ret, h, s) \<leftarrow> shm_Init os init0 mem (m_HashInfo g) (m_ShmHashMap g) s; Some (ret, g\<lparr>m_ShmHashMap := h\<rparr>, s) }"

definition gshm_Insert :: "c_int \<Rightarrow> CGameUser \<Rightarrow> GameUserSHM \<Rightarrow> (int \<times> GameUserSHM) option" where
  "gshm_Insert now user g =
     do { (ret, h) \<leftarrow> shm_Insert now (m_nUid user) (user_bytes user) (int sizeof_CGameUser) (m_ShmHashMap g);
          Some (ret, g\<lparr>m_ShmHashMap := h\<rparr>) }"

text \<open>\<open>Find\<close> copies the stored bytes over the object \<open>user\<close>.\<close>

definition gshm_Find :: "c_int \<Rightarrow> c_int \<Rightarrow> CGameUser \<Rightarrow> GameUserSHM \<Rightarrow> (int \<times> CGameUser \<times> GameUserSHM) option" where
  "gshm_Find now uid user g =
     do {
       (ret, bs, _, h) \<leftarrow> shm_Find_buf now uid (int sizeof_CGameUser) (m_ShmHashMap g);
       Some (ret, user_of_bytes (bs @ drop (length bs) (user_bytes user)), g\<lparr>m_ShmHashMap := h\<rparr>)
     }"

definition gshm_Delete :: "c_int \<Rightarrow> c_int \<Rightarrow> GameUserSHM \<Rightarrow> (int \<times> GameUserSHM) option" where
  "gshm_Delete now uid g =
     do { (ret, h) \<leftarrow> shm_Delete now uid (m_ShmHashMap g); Some (ret, g\<lparr>m_ShmHashMap := h\<rparr>) }"

definition gshm_SetValue :: "c_int \<Rightarrow> CGameUser \<Rightarrow> GameUserSHM \<Rightarrow> (int \<times> GameUserSHM) option" where
  "gshm_SetValue now user g =
     do { (ret, h) \<leftarrow> shm_SetValue now (m_nUid user) (user_bytes user) (int sizeof_CGameUser) (m_ShmHashMap g);
          Some (ret, g\<lparr>m_ShmHashMap := h\<rparr>) }"

section \<open>Interface\<close>

text \<open>
  A store of users: \<open>rep s f U\<close> says that \<open>s\<close> holds the users \<open>U\<close>, each under its own id and
  most recently used first, and has room for \<open>f\<close> more.
\<close>

locale user_store =
  fixes rep :: "'s \<Rightarrow> nat \<Rightarrow> (c_int \<times> CGameUser) list \<Rightarrow> bool"
    and find :: "c_int \<Rightarrow> c_int \<Rightarrow> CGameUser \<Rightarrow> 's \<Rightarrow> (int \<times> CGameUser \<times> 's) option"
    and set_value :: "c_int \<Rightarrow> CGameUser \<Rightarrow> 's \<Rightarrow> (int \<times> 's) option"
    and del :: "c_int \<Rightarrow> c_int \<Rightarrow> 's \<Rightarrow> (int \<times> 's) option"
  assumes rep_keys: "rep s f U \<Longrightarrow> distinct (map fst U) \<and> (\<forall>e \<in> set U. m_nUid (snd e) = fst e)"
    and find_none: "rep s f U \<Longrightarrow> map_of U k = None \<Longrightarrow> find now k u s = Some (-1, u, s)"
    and find_some: "rep s f U \<Longrightarrow> map_of U k = Some v \<Longrightarrow>
      \<exists>s'. find now k u s = Some (0, v, s') \<and> rep s' f (lru_touch k U)"
    and set_old: "rep s f U \<Longrightarrow> map_of U (m_nUid u) \<noteq> None \<Longrightarrow>
      \<exists>s'. set_value now u s = Some (0, s') \<and> rep s' f (lru_set (m_nUid u) u U)"
    and set_new: "rep s f U \<Longrightarrow> map_of U (m_nUid u) = None \<Longrightarrow> 0 < f \<Longrightarrow>
      \<exists>s'. set_value now u s = Some (0, s') \<and> rep s' (f - 1) (lru_set (m_nUid u) u U)"
    and set_full: "rep s f U \<Longrightarrow> map_of U (m_nUid u) = None \<Longrightarrow> f = 0 \<Longrightarrow> set_value now u s = Some (-1, s)"
    and del_none: "rep s f U \<Longrightarrow> map_of U k = None \<Longrightarrow> del now k s = Some (-1, s)"
    and del_some: "rep s f U \<Longrightarrow> map_of U k \<noteq> None \<Longrightarrow>
      \<exists>s'. del now k s = Some (0, s') \<and> rep s' (f + 1) (lru_delete k U)"
begin

lemma map_of_set: "map_of (lru_set k v U) = (map_of U)(k \<mapsto> v)"
proof
  fix k'
  show "map_of (lru_set k v U) k' = ((map_of U)(k \<mapsto> v)) k'"
    by (induction U) (auto simp: lru_set_def)
qed

lemma map_of_delete: "map_of (lru_delete k U) = (map_of U)(k := None)"
proof
  fix k'
  show "map_of (lru_delete k U) k' = ((map_of U)(k := None)) k'"
    by (induction U) (auto simp: lru_delete_def)
qed

lemma map_of_touch: "map_of (lru_touch k U) = map_of U"
proof (cases "map_of U k")
  case (Some v)
  then show ?thesis using map_of_set [of k v U] by (auto simp: lru_touch_def lru_set_def fun_upd_idem)
qed (simp add: lru_touch_def)

text \<open>A stored user is found again, unchanged, and no other user is affected.\<close>

lemma find_after_set:
  assumes rep: "rep s f U" and room: "map_of U (m_nUid u) \<noteq> None \<or> 0 < f"
  shows "\<exists>s' s''. set_value now u s = Some (0, s') \<and> find now' (m_nUid u) u0 s' = Some (0, u, s'') \<and>
     (\<forall>k. k \<noteq> m_nUid u \<longrightarrow> (\<forall>v. map_of U k = Some v \<longrightarrow> (\<exists>t. find now' k u0 s' = Some (0, v, t))))"
proof -
  obtain s' f' where s': "set_value now u s = Some (0, s')" "rep s' f' (lru_set (m_nUid u) u U)"
    using set_old [OF rep] set_new [OF rep] room by blast
  have "\<exists>t. find now' k u0 s' = Some (0, v, t)" if "((map_of U)(m_nUid u \<mapsto> u)) k = Some v" for k v
    using find_some [OF s'(2), of k v now' u0] that by (auto simp: map_of_set)
  then show ?thesis using s'(1) by fastforce
qed

lemma find_after_delete:
  assumes rep: "rep s f U" and k: "map_of U k \<noteq> None"
  shows "\<exists>s'. del now k s = Some (0, s') \<and> find now' k u0 s' = Some (-1, u0, s')"
proof -
  obtain s' where s': "del now k s = Some (0, s')" "rep s' (f + 1) (lru_delete k U)" using del_some [OF rep k] by blast
  then show ?thesis using find_none [OF s'(2), of k] by (auto simp: map_of_delete)
qed

end

definition user_rep :: "GameUserSHM \<Rightarrow> nat \<Rightarrow> (c_int \<times> CGameUser) list \<Rightarrow> bool" where
  "user_rep g f U \<longleftrightarrow> shm_rep (m_ShmHashMap g) sizeof_CGameUser f (map (\<lambda>(k, u). (k, user_bytes u)) U) \<and>
     (\<forall>e \<in> set U. m_nUid (snd e) = fst e)"

lemma lru_map:
  "lru_set k (g v) (map (\<lambda>(k, u). (k, g u)) U) = map (\<lambda>(k, u). (k, g u)) (lru_set k v U)"
  "lru_delete k (map (\<lambda>(k, u). (k, g u)) U) = map (\<lambda>(k, u). (k, g u)) (lru_delete k U)"
  "lru_touch k (map (\<lambda>(k, u). (k, g u)) U) = map (\<lambda>(k, u). (k, g u)) (lru_touch k U)"
proof -
  have f: "filter (\<lambda>e. fst e \<noteq> k) (map (\<lambda>(k, u). (k, g u)) U) = map (\<lambda>(k, u). (k, g u)) (filter (\<lambda>e. fst e \<noteq> k) U)"
    by (induction U) auto
  have m: "map_of (map (\<lambda>(k, u). (k, g u)) U) k = map_option g (map_of U k)"
    by (simp add: map_of_map)
  show "lru_set k (g v) (map (\<lambda>(k, u). (k, g u)) U) = map (\<lambda>(k, u). (k, g u)) (lru_set k v U)"
    "lru_delete k (map (\<lambda>(k, u). (k, g u)) U) = map (\<lambda>(k, u). (k, g u)) (lru_delete k U)"
    "lru_touch k (map (\<lambda>(k, u). (k, g u)) U) = map (\<lambda>(k, u). (k, g u)) (lru_touch k U)"
    by (simp_all add: lru_set_def lru_delete_def lru_touch_def f m split: option.split)
qed

lemma map_of_user_bytes: "map_of (map (\<lambda>(k, u). (k, user_bytes u)) U) k = map_option user_bytes (map_of U k)"
  by (simp add: map_of_map)

interpretation us: user_store user_rep gshm_Find gshm_SetValue gshm_Delete
proof unfold_locales
  fix s f U assume rep: "user_rep s f U"
  have R: "shm_rep (m_ShmHashMap s) 20 f (map (\<lambda>(k, u). (k, user_bytes u)) U)" and K: "\<forall>e \<in> set U. m_nUid (snd e) = fst e"
    using rep by (auto simp: user_rep_def)
  have "map fst (map (\<lambda>(k, u). (k, user_bytes u)) U) = map fst U" by (simp add: case_prod_unfold)
  then show "distinct (map fst U) \<and> (\<forall>e \<in> set U. m_nUid (snd e) = fst e)"
    using conjunct1 [OF shm_rep_distinct [OF R]] K by (simp only: simp_thms)
  show "gshm_Find now k u s = Some (-1, u, s)" if "map_of U k = None" for k now u
    using shm_Find_buf_rep(1) [OF R, of k now] that by (simp add: map_of_user_bytes gshm_Find_def)
  show "\<exists>s'. gshm_Find now k u s = Some (0, v, s') \<and> user_rep s' f (lru_touch k U)" if v: "map_of U k = Some v" for k v now u
  proof -
    obtain h' where h': "shm_Find_buf now k 20 (m_ShmHashMap s) = Some (0, user_bytes v, 20, h')"
        "shm_rep h' 20 f (lru_touch k (map (\<lambda>(k, u). (k, user_bytes u)) U))"
      using shm_Find_buf_rep(2) [OF R, of k "user_bytes v" now] v by (auto simp: map_of_user_bytes)
    have "\<forall>e \<in> set (lru_touch k U). m_nUid (snd e) = fst e" using K map_of_SomeD [OF v] v by (auto simp: lru_touch_def)
    then show ?thesis using h' by (simp add: gshm_Find_def user_rep_def lru_map)
  qed
  show "gshm_Delete now k s = Some (-1, s)" if "map_of U k = None" for k now
    using shm_Delete_rep(1) [OF R, of k now] that by (simp add: map_of_user_bytes gshm_Delete_def)
  show "\<exists>s'. gshm_Delete now k s = Some (0, s') \<and> user_rep s' (f + 1) (lru_delete k U)" if some: "map_of U k \<noteq> None" for k now
  proof -
    obtain h' where "shm_Delete now k (m_ShmHashMap s) = Some (0, h')"
        "shm_rep h' 20 (f + 1) (lru_delete k (map (\<lambda>(k, u). (k, user_bytes u)) U))"
      using shm_Delete_rep(2) [OF R, of k now] some by (auto simp: map_of_user_bytes)
    moreover have "\<forall>e \<in> set (lru_delete k U). m_nUid (snd e) = fst e" using K by (simp add: lru_delete_def)
    ultimately show ?thesis by (simp add: gshm_Delete_def user_rep_def lru_map)
  qed
  fix u now
  note S = shm_SetValue_rep [OF R, of "user_bytes u" "m_nUid u" now, unfolded map_of_user_bytes lru_map]
  have K': "\<forall>e \<in> set (lru_set (m_nUid u) u U). m_nUid (snd e) = fst e" using K by (auto simp: lru_set_def)
  show "\<exists>s'. gshm_SetValue now u s = Some (0, s') \<and> user_rep s' f (lru_set (m_nUid u) u U)" if "map_of U (m_nUid u) \<noteq> None"
    using S(1) that K' by (auto simp: gshm_SetValue_def user_rep_def)
  show "\<exists>s'. gshm_SetValue now u s = Some (0, s') \<and> user_rep s' (f - 1) (lru_set (m_nUid u) u U)" if "map_of U (m_nUid u) = None" "0 < f"
    using S(2) that K' by (auto simp: gshm_SetValue_def user_rep_def)
  show "gshm_SetValue now u s = Some (-1, s)" if "map_of U (m_nUid u) = None" "f = 0"
    using S(3) that by (simp add: gshm_SetValue_def)
qed

section \<open>A new segment\<close>

text \<open>The pool found in a newly created, zero-filled segment.\<close>

definition zero_node :: HashNode where
  "zero_node = \<lparr>hn_key = 0, hn_chunk_len = 0, hn_chunk_head = 0, hn_node_prev = 0, hn_node_next = 0, hn_add_prev = 0,
     hn_add_next = 0, hn_add_info_1 = 0, hn_add_info_2 = 0, hn_flag = 0\<rparr>"

definition zero_chunks :: "int \<Rightarrow> int \<Rightarrow> CChunkAllocator" where
  "zero_chunks n z = \<lparr>ca_pool_tail = 0, ca_chunk_total = 0, ca_chunk_size = 0, ca_free_total = 0, ca_free_list = 0,
     ca_chunk_nodes = (\<lambda>x. if 20 \<le> x \<and> x < 20 + n * (8 + z) \<and> (x - 20) mod (8 + z) = 0
                           then Some \<lparr>ca_next = 0, ca_data = replicate (nat z) 0\<rparr> else None)\<rparr>"

definition zero_pool :: "int \<Rightarrow> int \<Rightarrow> int \<Rightarrow> int \<Rightarrow> CHashMap" where
  "zero_pool N nb n z = \<lparr>hm_pool_tail = 0, hm_node_total = 0, hm_bucket_size = 0, hm_used_node_num = 0, hm_used_bucket_num = 0,
     hm_add_head = 0, hm_add_tail = 0, hm_free_list = 0, hm_bucket = (\<lambda>_. 0),
     hm_node = (\<lambda>x. if 40 + nb * 8 \<le> x \<and> x < 40 + nb * 8 + N * 60 \<and> (x - (40 + nb * 8)) mod 60 = 0
                    then Some zero_node else None),
     hm_allocator = zero_chunks n z\<rparr>"

lemma slots: 
  assumes "0 < (s :: int)"
  shows "(b \<le> x \<and> x < b + n * s \<and> (x - b) mod s = 0) \<longleftrightarrow> (\<exists>i. 0 \<le> i \<and> i < n \<and> x = b + i * s)"
proof
  assume a: "b \<le> x \<and> x < b + n * s \<and> (x - b) mod s = 0"
  then have "x = b + ((x - b) div s) * s" by (metis add.commute diff_add_cancel add.right_neutral mult_div_mod_eq mult.commute)
  moreover have "0 \<le> (x - b) div s" using a assms by (simp add: pos_imp_zdiv_nonneg_iff)
  moreover have "(x - b) div s < n"
  proof (rule ccontr)
    assume "\<not> (x - b) div s < n"
    then have "n * s \<le> (x - b) div s * s" using assms by (simp add: mult_right_mono)
    then show False using a \<open>x = b + ((x - b) div s) * s\<close> by linarith
  qed
  ultimately show "\<exists>i. 0 \<le> i \<and> i < n \<and> x = b + i * s" by blast
next
  assume "\<exists>i. 0 \<le> i \<and> i < n \<and> x = b + i * s"
  then obtain i where "0 \<le> i" "i < n" "x = b + i * s" by blast
  then show "b \<le> x \<and> x < b + n * s \<and> (x - b) mod s = 0" using assms by simp
qed

lemma zero_pool_layout: "0 < z \<Longrightarrow> hm_layout (zero_pool N nb n z) N nb"
  using slots [of 60 "40 + nb * 8" _ N] by (simp add: hm_layout_def zero_pool_def)

lemma zero_chunks_layout: "0 < z \<Longrightarrow> ca_layout (zero_chunks n z) n z"
  using slots [of "8 + z" 20 _ n] by (simp add: ca_layout_def zero_chunks_def ca_dt_def split: if_splits)

lemma zero_pool_open:
  assumes "0 < nb" "nb \<le> int_max" "0 \<le> N" "0 < z" "0 \<le> n"
  shows "\<exists>m'. hm_open True N nb n z (zero_pool N nb n z) = Some (0, m') \<and> hm_rep m' z n (nat N) [] \<and> hm_formatted m' N nb n z"
  using hm_open_init [OF assms zero_pool_layout [OF assms(4)]] zero_chunks_layout [OF assms(4)] by (simp add: zero_pool_def)


lemma hm_rep_user_rep:
  assumes "hm_rep (shm_map (m_ShmHashMap g)) 20 n f []" "int f \<le> n"
  shows "user_rep g f []"
  using assms by (auto simp: user_rep_def shm_rep_def)

lemma user_rep_pool: "user_rep g f U \<Longrightarrow> \<exists>n. hm_rep (shm_map (m_ShmHashMap g)) 20 n f (map (\<lambda>(k, u). (k, user_bytes u)) U)"
  by (auto simp: user_rep_def shm_rep_def)

lemma user_rep_cong: "shm_map (m_ShmHashMap g) = shm_map (m_ShmHashMap g') \<Longrightarrow> user_rep g f U = user_rep g' f U"
  by (simp add: user_rep_def shm_rep_def)

text \<open>The configuration of the store and its size in bytes.\<close>

abbreviation store_config :: "GameUserSHM \<Rightarrow> int \<Rightarrow> int \<Rightarrow> int \<Rightarrow> int \<Rightarrow> bool" where
  "store_config g key N nb n \<equiv> shm_key (m_HashInfo g) = key \<and>
     hash_para (m_HashInfo g) = \<lparr>bucket_size_cfg = nb, node_total_cfg = N, chunk_total_cfg = n, chunk_size_cfg = 20\<rparr>"

text \<open>An operating system with one segment, new or existing, and the configuration of a small store.\<close>

definition os_fresh :: "unit shm_os" where
  "os_fresh = \<lparr>os_shmget = (\<lambda>key sz create s. (Some 7, False, s)), os_shmat = (\<lambda>i s. (Some 4096, s)), os_shmrm = (\<lambda>i s. (True, s))\<rparr>"

definition os_existing :: "unit shm_os" where
  "os_existing = \<lparr>os_shmget = (\<lambda>key sz create s. if create then (None, True, s) else (Some 7, False, s)),
     os_shmat = (\<lambda>i s. (Some 4096, s)), os_shmrm = (\<lambda>i s. (True, s))\<rparr>"

definition small_store :: "CHashMap \<Rightarrow> GameUserSHM" where
  "small_store m = \<lparr>m_HashInfo = \<lparr>hash_para = \<lparr>bucket_size_cfg = 3, node_total_cfg = 2, chunk_total_cfg = 2, chunk_size_cfg = 20\<rparr>,
       shm_key = 5, sem_key = 0\<rparr>,
     m_ShmHashMap = \<lparr>shm_seg = \<lparr>internal_id = 0, segment_size = 0, segment_ptr = None\<rparr>, shm_map = m\<rparr>\<rparr>"

lemma gshm_Init_new:
  assumes cfg: "store_config g key N nb n" "0 < nb" "nb \<le> int_max" "0 \<le> N" "N \<le> n"
    and new: "os_shmget os key (hm_get_total_pool_size N nb n 20) True s = (Some i, e, s1)" "i \<noteq> -1" "os_shmat os i s1 = (Some p, s2)"
    and zero: "mem p = zero_pool N nb n 20"
  shows "\<exists>g'. gshm_Init os init0 mem g s = Some (0, g', s2) \<and> user_rep g' (nat N) []"
proof -
  obtain m where m: "hm_open True N nb n 20 (mem p) = Some (0, m)" "hm_rep m 20 n (nat N) []"
    using zero_pool_open [of nb N 20 n] cfg zero by auto
  have "int (nat N) \<le> n" using cfg by simp
  then show ?thesis
    using m cfg(1) new hm_rep_user_rep [of _ n "nat N"]
    by (auto simp: gshm_Init_def shm_Init_def sv_force_open_and_attach_def sv_open_def sv_attach_def)
qed

text \<open>On a machine without the segment, \<open>Init\<close> creates and formats it: a store with room for all the configured users
  and no user in it. The hypotheses on \<open>os\<close> are what \<open>shmget\<close> and \<open>shmat\<close> do for a new key; a new segment is filled with zeros.\<close>

theorem Init_new_segment:
  assumes cfg: "store_config g key N nb n" "0 < nb" "nb \<le> int_max" "0 \<le> N" "N \<le> n"
    and new: "os_shmget os key (hm_get_total_pool_size N nb n 20) True s = (Some i, e, s1)" "i \<noteq> -1" "os_shmat os i s1 = (Some p, s2)"
    and zero: "mem p = zero_pool N nb n 20"
  shows "\<exists>g'. gshm_Init os init0 mem g s = Some (0, g', s2) \<and> user_rep g' (nat N) []"
  by (rule gshm_Init_new [OF cfg new, of mem, OF zero])

theorem Init_new_segment_witness:
  "\<exists>g'. gshm_Init os_fresh 5 (\<lambda>_. zero_pool 2 3 2 20) (small_store (zero_pool 2 3 2 20)) () = Some (0, g', ()) \<and> user_rep g' 2 []"
proof -
  let ?g = "small_store (zero_pool 2 3 2 20)"
  have "\<exists>g'. gshm_Init os_fresh 5 (\<lambda>_. zero_pool 2 3 2 20) ?g () = Some (0, g', ()) \<and> user_rep g' (nat 2) []"
    by (rule Init_new_segment [of ?g 5 3 2 2 os_fresh _ 7 False _ 4096])
      (simp_all add: small_store_def os_fresh_def int_max_def)
  then show ?thesis by simp
qed

text \<open>C29: when the segment exists, the outcome of \<open>Init\<close> depends on the uninitialised variable \<open>init\<close>: if it happens to be zero
  the store of the previous process is verified and every user is kept; otherwise the segment is formatted and every user is lost.\<close>

theorem Init_existing_segment:
  assumes cfg: "store_config g key N nb n" "0 < nb" "nb \<le> int_max" "0 \<le> N" "N \<le> n"
    and old: "os_shmget os key (hm_get_total_pool_size N nb n 20) True s = (None, True, s1)"
      "os_shmget os key (hm_get_total_pool_size N nb n 20) False s1 = (Some i, e, s2)" "i \<noteq> -1" "os_shmat os i s2 = (Some p, s3)"
    and mem: "mem p = shm_map (m_ShmHashMap prev)" "user_rep prev f U" "hm_formatted (shm_map (m_ShmHashMap prev)) N nb n 20"
  shows "\<exists>g'. gshm_Init os init0 mem g s = Some (0, g', s3) \<and>
     (if init0 = 0 then user_rep g' f U else user_rep g' (nat N) [])"
proof -
  obtain c where rep: "hm_rep (mem p) 20 c f (map (\<lambda>(k, u). (k, user_bytes u)) U)" using user_rep_pool [OF mem(2)] mem(1) by auto
  obtain m where m: "hm_open True N nb n 20 (mem p) = Some (0, m)" "hm_rep m 20 n (nat N) []"
    using hm_open_init [of nb N 20 n "mem p"] cfg mem(1,3) by (auto simp: hm_formatted_def)
  have v: "hm_open False N nb n 20 (mem p) = Some (0, mem p)" using hm_open_verify [OF rep] mem(1,3) by simp
  let ?sv = "\<lparr>internal_id = i, segment_size = hm_get_total_pool_size N nb n 20, segment_ptr = Some p\<rparr>"
  let ?g = "\<lambda>m. g\<lparr>m_ShmHashMap := m_ShmHashMap g\<lparr>shm_seg := ?sv, shm_map := m\<rparr>\<rparr>"
  have "gshm_Init os init0 mem g s = Some (0, ?g (if init0 = 0 then mem p else m), s3)"
    using m(1) v cfg(1) old
    by (auto simp: gshm_Init_def shm_Init_def sv_force_open_and_attach_def sv_open_def sv_attach_def)
  moreover have "user_rep (?g (mem p)) f U" using mem(1,2) user_rep_cong [of prev "?g (mem p)"] by simp
  moreover have "user_rep (?g m) (nat N) []" using hm_rep_user_rep [of "?g m" n "nat N"] m(2) cfg by simp
  ultimately show ?thesis by auto
qed

theorem Init_existing_segment_witness:
  "\<exists>m g'. gshm_Init os_existing 0 (\<lambda>_. m) (small_store m) () = Some (0, g', ()) \<and> user_rep g' 2 []"
proof -
  obtain m where m: "hm_rep m 20 2 2 []" "hm_formatted m 2 3 2 20" using zero_pool_open [of 3 2 20 2] by (auto simp: int_max_def)
  then have "user_rep (small_store m) 2 []" by (intro hm_rep_user_rep [of _ 2]) (simp_all add: small_store_def)
  then show ?thesis
    using Init_existing_segment [of "small_store m" 5 3 2 2 os_existing "()" "()" 7 False "()" 4096 "()" "\<lambda>_. m" "small_store m" 2 "[]" 0] m(2)
    by (auto simp: small_store_def os_existing_def int_max_def)
qed

text \<open>A small empty store, as the witnesses of the client components use it.\<close>

lemma user_rep_exists: "\<exists>g. user_rep g 2 []"
proof -
  obtain m where "hm_rep m 20 2 2 []" using zero_pool_open [of 3 2 20 2] by (auto simp: int_max_def)
  then have "user_rep (small_store m) 2 []" by (intro hm_rep_user_rep [of _ 2]) (simp_all add: small_store_def)
  then show ?thesis by blast
qed

section \<open>Sequences of calls\<close>

text \<open>The calls the server makes on its store, and their results: the return code and, for \<open>Find\<close>, the object.
  The reference machine is a finite map of bounded size.\<close>

datatype store_call = CallFind c_int CGameUser | CallSetValue CGameUser | CallDelete c_int

fun store_exec :: "c_int \<Rightarrow> store_call \<Rightarrow> GameUserSHM \<Rightarrow> ((int \<times> CGameUser option) \<times> GameUserSHM) option" where
  "store_exec now (CallFind k u) g = do { (ret, v, g) \<leftarrow> gshm_Find now k u g; Some ((ret, Some v), g) }"
| "store_exec now (CallSetValue u) g = do { (ret, g) \<leftarrow> gshm_SetValue now u g; Some ((ret, None), g) }"
| "store_exec now (CallDelete k) g = do { (ret, g) \<leftarrow> gshm_Delete now k g; Some ((ret, None), g) }"

fun store_run :: "(c_int \<times> store_call) list \<Rightarrow> GameUserSHM \<Rightarrow> ((int \<times> CGameUser option) list \<times> GameUserSHM) option" where
  "store_run [] g = Some ([], g)"
| "store_run ((now, c) # cs) g = do { (r, g) \<leftarrow> store_exec now c g; (rs, g) \<leftarrow> store_run cs g; Some (r # rs, g) }"

fun spec_exec :: "nat \<Rightarrow> store_call \<Rightarrow> (c_int \<rightharpoonup> CGameUser) \<Rightarrow> (int \<times> CGameUser option) \<times> (c_int \<rightharpoonup> CGameUser)" where
  "spec_exec cap (CallFind k u) M = (case M k of None \<Rightarrow> ((-1, Some u), M) | Some v \<Rightarrow> ((0, Some v), M))"
| "spec_exec cap (CallSetValue u) M =
     (if M (m_nUid u) \<noteq> None \<or> card (dom M) < cap then ((0, None), M(m_nUid u \<mapsto> u)) else ((-1, None), M))"
| "spec_exec cap (CallDelete k) M = (if M k = None then ((-1, None), M) else ((0, None), M(k := None)))"

fun spec_run :: "nat \<Rightarrow> (c_int \<times> store_call) list \<Rightarrow> (c_int \<rightharpoonup> CGameUser) \<Rightarrow> (int \<times> CGameUser option) list" where
  "spec_run cap [] M = []"
| "spec_run cap ((now, c) # cs) M = (let (r, M) = spec_exec cap c M in r # spec_run cap cs M)"

lemma card_dom_map_of: "distinct (map fst U) \<Longrightarrow> card (dom (map_of U)) = length U"
  by (simp add: dom_map_of_conv_image_fst distinct_card flip: set_map)

lemma length_lru:
  assumes "distinct (map fst U)"
  shows "map_of U k = None \<Longrightarrow> length (lru_set k v U) = length U + 1"
    and "map_of U k \<noteq> None \<Longrightarrow> length (lru_set k v U) = length U"
    and "map_of U k \<noteq> None \<Longrightarrow> length (lru_touch k U) = length U"
    and "map_of U k \<noteq> None \<Longrightarrow> length (lru_delete k U) = length U - 1"
proof -
  have f: "length (filter (\<lambda>e. fst e \<noteq> k) U) = (if map_of U k = None then length U else length U - 1)"
    using assms
  proof (induction U)
    case (Cons e U)
    then have "map_of U (fst e) = None" by (simp add: map_of_eq_None_iff)
    moreover have "map_of U k \<noteq> None \<Longrightarrow> 0 < length U" by (cases U) auto
    ultimately show ?case using Cons by (cases "fst e = k") auto
  qed simp
  have p: "map_of U k \<noteq> None \<Longrightarrow> 0 < length U" by (cases U) auto
  show "map_of U k = None \<Longrightarrow> length (lru_set k v U) = length U + 1"
    and "map_of U k \<noteq> None \<Longrightarrow> length (lru_set k v U) = length U"
    and "map_of U k \<noteq> None \<Longrightarrow> length (lru_touch k U) = length U"
    and "map_of U k \<noteq> None \<Longrightarrow> length (lru_delete k U) = length U - 1"
    using f p by (auto simp: lru_set_def lru_touch_def lru_delete_def)
qed

lemma store_exec_spec:
  assumes rep: "user_rep g f U" and cap: "length U + f = cap"
  shows "\<exists>g' f' U'. store_exec now c g = Some (fst (spec_exec cap c (map_of U)), g') \<and> user_rep g' f' U' \<and>
     length U' + f' = cap \<and> map_of U' = snd (spec_exec cap c (map_of U))"
proof -
  have d: "distinct (map fst U)" using us.rep_keys [OF rep] by simp
  show ?thesis
  proof (cases c)
    case (CallFind k u)
    show ?thesis
    proof (cases "map_of U k")
      case None
      then show ?thesis using us.find_none [OF rep None, of now u] rep cap CallFind by (intro exI) auto
    next
      case (Some v)
      obtain g' where "gshm_Find now k u g = Some (0, v, g')" "user_rep g' f (lru_touch k U)" using us.find_some [OF rep Some] by blast
      then show ?thesis using CallFind Some length_lru(3) [OF d] cap us.map_of_touch [of k U]
        by (intro exI [of _ g'] exI [of _ f] exI [of _ "lru_touch k U"]) simp
    qed
  next
    case (CallSetValue u)
    let ?U = "lru_set (m_nUid u) u U"
    consider "map_of U (m_nUid u) \<noteq> None" | "map_of U (m_nUid u) = None" "0 < f" | "map_of U (m_nUid u) = None" "f = 0" by blast
    then show ?thesis
    proof cases
      case 1
      obtain g' where "gshm_SetValue now u g = Some (0, g')" "user_rep g' f ?U" using us.set_old [OF rep 1] by blast
      then show ?thesis using CallSetValue 1 length_lru(2) [OF d 1] cap
        by (intro exI [of _ g'] exI [of _ f] exI [of _ ?U]) (simp add: us.map_of_set)
    next
      case 2
      obtain g' where "gshm_SetValue now u g = Some (0, g')" "user_rep g' (f - 1) ?U" using us.set_new [OF rep 2] by blast
      then show ?thesis using CallSetValue 2 length_lru(1) [OF d 2(1)] cap
        by (intro exI [of _ g'] exI [of _ "f - 1"] exI [of _ ?U]) (simp add: us.map_of_set card_dom_map_of [OF d])
    next
      case 3
      then show ?thesis using us.set_full [OF rep 3] CallSetValue rep cap
        by (intro exI [of _ g] exI [of _ f] exI [of _ U]) (simp add: card_dom_map_of [OF d])
    qed
  next
    case (CallDelete k)
    show ?thesis
    proof (cases "map_of U k = None")
      case True
      then show ?thesis using us.del_none [OF rep True] CallDelete rep cap by (intro exI [of _ g] exI [of _ f] exI [of _ U]) simp
    next
      case False
      obtain g' where "gshm_Delete now k g = Some (0, g')" "user_rep g' (f + 1) (lru_delete k U)" using us.del_some [OF rep False] by blast
      moreover have "0 < length U" using False by (cases U) auto
      moreover have "length U - 1 + (f + 1) = cap" using \<open>0 < length U\<close> cap by linarith
      ultimately show ?thesis using CallDelete False length_lru(4) [OF d False]
        by (intro exI [of _ g'] exI [of _ "f + 1"] exI [of _ "lru_delete k U"]) (simp add: us.map_of_delete)
    qed
  qed
qed

text \<open>C5: the store in shared memory behaves as a finite map of bounded size. Whatever the sequence of calls, each returns, with the
  code and the object that the map gives: \<open>Find\<close> reports the last value set and not deleted since, and \<open>SetValue\<close>
  fails exactly when the user is new and the store is full.\<close>

theorem store_refines_map:
  assumes "user_rep g f U"
  shows "\<exists>g'. store_run cs g = Some (spec_run (length U + f) cs (map_of U), g')"
  using assms
proof (induction cs arbitrary: g f U)
  case (Cons nc cs)
  obtain now c where nc: "nc = (now, c)" by fastforce
  obtain g' f' U' where s: "store_exec now c g = Some (fst (spec_exec (length U + f) c (map_of U)), g')" "user_rep g' f' U'"
      "length U' + f' = length U + f" "map_of U' = snd (spec_exec (length U + f) c (map_of U))"
    using store_exec_spec [OF Cons.prems refl] by blast
  show ?case using Cons.IH [OF s(2)] s nc by (auto simp: case_prod_unfold Let_def)
qed simp

theorem store_refines_map_witness:
  "\<exists>g g'. user_rep g 2 [] \<and>
     store_run [(1, CallFind 5 CGameUser_default), (2, CallSetValue (CGameUser_new 5 1 2 0)), (3, CallFind 5 CGameUser_default),
        (4, CallDelete 5), (5, CallDelete 5)] g =
       Some ([(-1, Some CGameUser_default), (0, None), (0, Some (CGameUser_new 5 1 2 0)), (0, None), (-1, None)], g')"
proof -
  let ?cs = "[(1, CallFind 5 CGameUser_default), (2, CallSetValue (CGameUser_new 5 1 2 0)), (3, CallFind 5 CGameUser_default),
        (4, CallDelete 5), (5, CallDelete 5)] :: (c_int \<times> store_call) list"
  obtain g where g: "user_rep g 2 []" using user_rep_exists by blast
  have "spec_run (length ([] :: (c_int \<times> CGameUser) list) + 2) ?cs (map_of []) =
      [(-1, Some CGameUser_default), (0, None), (0, Some (CGameUser_new 5 1 2 0)), (0, None), (-1, None)]"
    by (simp add: CGameUser_new_def)
  then show ?thesis using store_refines_map [OF g, of ?cs] g by metis
qed

end
