(* ===== verification/CStrings.thy ===== *)
theory CStrings
  imports Prelude
begin

text \<open>
  The string routines of \<open>Server/Options.cpp\<close> and \<open>Server/ClientHandler.cpp\<close>, \<open>split_str\<close> and \<open>ToLower\<close>, and what they
  and the readers of memcached records use of the C library: \<open>strtok_r\<close>, \<open>atoi\<close> and the format \<open>%d\<close>. A string
  is the list of its bytes; \<open>c_str\<close> is what a C function sees of it.
\<close>

section \<open>The C library\<close>

definition c_str :: "byte list \<Rightarrow> byte list" where
  "c_str s = takeWhile (\<lambda>b. b \<noteq> 0) s"

text \<open>\<open>strtok_r\<close>: skip separators, then take the token up to the next separator, which is overwritten.
  \<open>None\<close> is the null pointer, otherwise the token and the place where the next call goes on.\<close>

definition strtok_r :: "byte list \<Rightarrow> byte list \<Rightarrow> (byte list \<times> byte list) option" where
  "strtok_r s seps =
     (let s = dropWhile (\<lambda>b. b \<in> set seps) s in
      if s = [] then None
      else Some (takeWhile (\<lambda>b. b \<notin> set seps) s, drop 1 (dropWhile (\<lambda>b. b \<notin> set seps) s)))"

definition is_space :: "byte \<Rightarrow> bool" where
  "is_space b \<longleftrightarrow> b = 32 \<or> 9 \<le> b \<and> b \<le> 13"

definition is_digit :: "byte \<Rightarrow> bool" where
  "is_digit b \<longleftrightarrow> 48 \<le> b \<and> b \<le> 57"

fun digits_value :: "int \<Rightarrow> byte list \<Rightarrow> int" where
  "digits_value n [] = n"
| "digits_value n (b # bs) = digits_value (10 * n + (uint b - 48)) bs"

text \<open>\<open>atoi\<close> as glibc has it: \<open>strtol\<close>, which saturates at the limits of a 64-bit \<open>long\<close>, cut to an \<open>int\<close>.\<close>

definition atoi :: "byte list \<Rightarrow> c_int" where
  "atoi s =
     (let s = dropWhile is_space s;
          (neg, s) = (case s of b # t \<Rightarrow> if b = 45 then (True, t) else if b = 43 then (False, t) else (False, s) | [] \<Rightarrow> (False, s));
          v = digits_value 0 (takeWhile is_digit s);
          v = (if neg then - v else v)
      in word_of_int (max (- (2 ^ 63)) (min (2 ^ 63 - 1) v)))"

text \<open>\<open>snprintf("%d")\<close>.\<close>

function nat_digits :: "nat \<Rightarrow> byte list" where
  "nat_digits n = (if n < 10 then [word_of_nat (48 + n)] else nat_digits (n div 10) @ [word_of_nat (48 + n mod 10)])"
  by auto
termination by (relation "measure id") auto

declare nat_digits.simps [simp del]

definition print_d :: "c_int \<Rightarrow> byte list" where
  "print_d w = (if sint w < 0 then 45 # nat_digits (nat (- sint w)) else nat_digits (nat (sint w)))"

section \<open>split_str\<close>

function split_tokens :: "byte list \<Rightarrow> byte list \<Rightarrow> byte list list" where
  "split_tokens s seps = (case strtok_r s seps of None \<Rightarrow> [] | Some (p, rem) \<Rightarrow> p # split_tokens rem seps)"
  by auto
termination
proof (relation "measure (\<lambda>(s, _). length s)")
  fix s seps pl p rem
  assume "strtok_r s seps = Some pl" "(p, rem) = pl"
  then have ne: "dropWhile (\<lambda>b. b \<in> set seps) s \<noteq> []"
    and rem: "rem = drop 1 (dropWhile (\<lambda>b. b \<notin> set seps) (dropWhile (\<lambda>b. b \<in> set seps) s))"
    by (auto simp: strtok_r_def Let_def split: if_splits)
  let ?t = "dropWhile (\<lambda>b. b \<in> set seps) s"
  have "length (dropWhile (\<lambda>b. b \<notin> set seps) ?t) \<le> length ?t" "length ?t \<le> length s" by (simp_all add: length_dropWhile_le)
  moreover have "0 < length ?t" using ne by simp
  ultimately have "length (drop 1 (dropWhile (\<lambda>b. b \<notin> set seps) ?t)) < length s" unfolding length_drop by linarith
  then show "((rem, seps), (s, seps)) \<in> measure (\<lambda>(s, _). length s)" using rem by simp
qed simp

declare split_tokens.simps [simp del]

definition split_str :: "byte list \<Rightarrow> byte list \<Rightarrow> byte list list \<Rightarrow> byte list list" where
  "split_str ps_str ps_sp v_ret = v_ret @ split_tokens (c_str ps_str) ps_sp"

section \<open>ToLower\<close>

text \<open>The string is first copied into a buffer of 512 bytes.\<close>

definition ToLower :: "byte list \<Rightarrow> byte list" where
  "ToLower str =
     (if str = [] then []
      else map (\<lambda>b. if 65 \<le> b \<and> b \<le> 90 then b + 32 else b) (take 511 (c_str str)))"

section \<open>Lemmas\<close>

lemma digits_value_append: "digits_value n (a @ b) = digits_value (digits_value n a) b"
  by (induction n a rule: digits_value.induct) auto

lemma digit_byte:
  assumes "n < 10"
  shows "is_digit (word_of_nat (48 + n))" "uint (word_of_nat (48 + n) :: byte) = 48 + int n"
proof -
  have u: "unat (word_of_nat (48 + n) :: byte) = 48 + n"
    using assms unat_of_nat [where ?'a = 8, of "48 + n"] by simp
  then show "uint (word_of_nat (48 + n) :: byte) = 48 + int n" by (metis of_nat_add of_nat_numeral uint_nat)
  show "is_digit (word_of_nat (48 + n))" using u assms by (simp add: is_digit_def word_le_nat_alt)
qed

lemma nat_digits_digit: "list_all is_digit (nat_digits n)"
proof (induction n rule: nat_digits.induct)
  case (1 n)
  then show ?case using digit_byte(1) [of n] digit_byte(1) [of "n mod 10"]
    by (subst nat_digits.simps) (auto simp del: of_nat_add)
qed

lemma nat_digits_value: "digits_value 0 (nat_digits n) = int n"
proof (induction n rule: nat_digits.induct)
  case (1 n)
  have d: "10 * int (n div 10) + int (n mod 10) = int n" by presburger
  show ?case
  proof (cases "n < 10")
    case True
    then show ?thesis using digit_byte(2) [of n] by (subst nat_digits.simps) (simp del: of_nat_add)
  next
    case False
    then show ?thesis using 1 digit_byte(2) [of "n mod 10"] d
      by (subst nat_digits.simps) (simp add: digits_value_append del: of_nat_add)
  qed
qed

lemma nat_digits_neq_Nil [simp]: "nat_digits n \<noteq> []"
  by (subst nat_digits.simps) simp

lemma is_digit_not: "is_digit b \<Longrightarrow> \<not> is_space b \<and> b \<noteq> 45 \<and> b \<noteq> 43 \<and> b \<noteq> 44 \<and> b \<noteq> 0"
  by (auto simp: is_digit_def is_space_def word_le_nat_alt)

lemma atoi_nat_digits: "atoi (nat_digits n) = word_of_int (min (2 ^ 63 - 1) (int n))"
proof -
  obtain b t where bt: "nat_digits n = b # t" by (cases "nat_digits n") auto
  have all: "list_all is_digit (b # t)" using nat_digits_digit [of n] bt by simp
  then have "takeWhile is_digit (b # t) = b # t" by (simp add: takeWhile_eq_all_conv list_all_iff)
  moreover have "\<not> is_space b \<and> b \<noteq> 45 \<and> b \<noteq> 43" using all is_digit_not [of b] by simp
  moreover have "digits_value 0 (b # t) = int n" using nat_digits_value [of n] bt by simp
  ultimately show ?thesis unfolding bt atoi_def by (simp del: digits_value.simps)
qed

text \<open>Reading back a printed number gives the number.\<close>

lemma atoi_print_d: "atoi (print_d w) = w"
proof -
  have r: "- (2 ^ 31) \<le> sint w" "sint w < 2 ^ 31" using sint_range_size [of w] by (auto simp: word_size)
  show ?thesis
  proof (cases "sint w < 0")
    case False
    then show ?thesis using r by (simp add: print_d_def atoi_nat_digits)
  next
    case True
    let ?n = "nat (- sint w)"
    obtain b t where bt: "nat_digits ?n = b # t" by (cases "nat_digits ?n") auto
    have "takeWhile is_digit (b # t) = b # t" using nat_digits_digit [of ?n] bt by (simp add: takeWhile_eq_all_conv list_all_iff)
    moreover have "digits_value 0 (b # t) = - sint w" using nat_digits_value [of ?n] bt True by simp
    ultimately show ?thesis using True r bt
      by (simp add: print_d_def atoi_def is_space_def del: digits_value.simps)
  qed
qed

lemma split_tokens_join:
  assumes "\<forall>b \<in> set t. b \<notin> set seps" "t \<noteq> []"
  shows "split_tokens t seps = [t]" and "c \<in> set seps \<Longrightarrow> split_tokens (t @ c # r) seps = t # split_tokens r seps"
proof -
  have d: "dropWhile (\<lambda>b. b \<in> set seps) (t @ x) = t @ x" for x using assms by (cases t) auto
  have n: "split_tokens [] seps = []" by (subst split_tokens.simps) (simp add: strtok_r_def)
  have e: "takeWhile (\<lambda>b. b \<notin> set seps) t = t" "dropWhile (\<lambda>b. b \<notin> set seps) t = []"
    using assms(1) by (simp_all add: takeWhile_eq_all_conv)
  have s: "strtok_r t seps = Some (t, [])"
    unfolding strtok_r_def Let_def using d [of "[]"] assms(2) e by (simp del: dropWhile_eq_Nil_conv)
  show "split_tokens t seps = [t]" by (subst split_tokens.simps) (simp add: s n)
  assume c: "c \<in> set seps"
  have t: "takeWhile (\<lambda>b. b \<notin> set seps) (t @ c # r) = t" "dropWhile (\<lambda>b. b \<notin> set seps) (t @ c # r) = c # r"
    using assms(1) c by (simp_all add: takeWhile_append2 dropWhile_append2)
  have s': "strtok_r (t @ c # r) seps = Some (t, r)" using d [of "c # r"] t by (simp add: strtok_r_def)
  show "split_tokens (t @ c # r) seps = t # split_tokens r seps" by (subst split_tokens.simps) (simp add: s')
qed

text \<open>The tokens of a list written with a separator between them.\<close>

fun join_tokens :: "byte \<Rightarrow> byte list list \<Rightarrow> byte list" where
  "join_tokens c [] = []"
| "join_tokens c [t] = t"
| "join_tokens c (t # ts) = t @ c # join_tokens c ts"

text \<open>\<open>split_str\<close> undoes writing tokens with a separator between them, for any number of tokens that are not empty and contain neither a
  separator nor a NUL, and appends them to the vector it is given.\<close>

theorem split_str_join:
  assumes "\<forall>t \<in> set ts. t \<noteq> [] \<and> (\<forall>b \<in> set t. b \<noteq> c \<and> b \<noteq> 0)" "c \<noteq> 0"
  shows "split_str (join_tokens c ts) [c] acc = acc @ ts"
proof -
  have s: "split_tokens (join_tokens c ts) [c] = ts"
    using assms(1)
  proof (induction ts rule: join_tokens.induct [of _ c])
    case (1 c)
    then show ?case by (subst split_tokens.simps) (simp add: strtok_r_def)
  next
    case (2 c t)
    then show ?case by (simp add: split_tokens_join(1))
  next
    case (3 c t t' ts)
    then show ?case by (simp add: split_tokens_join(2))
  qed
  have "0 \<notin> set (join_tokens c ts)" using assms by (induction ts rule: join_tokens.induct [of _ c]) auto
  then have "c_str (join_tokens c ts) = join_tokens c ts" by (auto simp: c_str_def takeWhile_eq_all_conv)
  then show ?thesis using s by (simp add: split_str_def)
qed

theorem split_str_join_witness:
  "split_str (join_tokens 44 [[49], [50, 51]]) [44] [] = [[49], [50, 51]]"
  using split_str_join [of "[[49], [50, 51]]" 44 "[]"] by simp

end
