(* ===== verification/StdMap.thy ===== *)
theory StdMap
  imports Prelude
begin

text \<open>
  \<open>std::map\<close> with integer keys, as the statistics and the options use it: an association list kept in
  the order of its (signed) keys, which is the order of iteration. Only the operations the server
  calls are here: \<open>find\<close>, assignment through \<open>operator[]\<close>, the reference \<open>operator[]\<close> gives to an existing or a new
  element, \<open>erase\<close> and \<open>size\<close>.
\<close>

section \<open>Operations\<close>

type_synonym ('k, 'v) std_map = "('k word \<times> 'v) list"

abbreviation sm_find :: "'k::len word \<Rightarrow> ('k, 'v) std_map \<Rightarrow> 'v option" where
  "sm_find k m \<equiv> map_of m k"

fun sm_set :: "'k::len word \<Rightarrow> 'v \<Rightarrow> ('k, 'v) std_map \<Rightarrow> ('k, 'v) std_map" where
  "sm_set k v [] = [(k, v)]"
| "sm_set k v ((k', v') # m) =
     (if k = k' then (k, v) # m
      else if sint k < sint k' then (k, v) # (k', v') # m
      else (k', v') # sm_set k v m)"

definition sm_erase :: "'k::len word \<Rightarrow> ('k, 'v) std_map \<Rightarrow> ('k, 'v) std_map" where
  "sm_erase k m = filter (\<lambda>e. fst e \<noteq> k) m"

text \<open>The value \<open>m[k]\<close> refers to: a new element starts as \<open>d\<close>. A later write through the reference is \<open>sm_set\<close>;
  a reference that is only read still leaves the new element behind.\<close>

definition sm_at :: "'v \<Rightarrow> 'k::len word \<Rightarrow> ('k, 'v) std_map \<Rightarrow> 'v" where
  "sm_at d k m = (case sm_find k m of None \<Rightarrow> d | Some v \<Rightarrow> v)"

definition sm_touch :: "'v \<Rightarrow> 'k::len word \<Rightarrow> ('k, 'v) std_map \<Rightarrow> ('k, 'v) std_map" where
  "sm_touch d k m = (case sm_find k m of None \<Rightarrow> sm_set k d m | Some _ \<Rightarrow> m)"

definition sm_update :: "'v \<Rightarrow> 'k::len word \<Rightarrow> ('v \<Rightarrow> 'v) \<Rightarrow> ('k, 'v) std_map \<Rightarrow> ('k, 'v) std_map" where
  "sm_update d k f m = sm_set k (f (sm_at d k m)) m"

section \<open>The order\<close>

definition sm_ok :: "('k::len, 'v) std_map \<Rightarrow> bool" where
  "sm_ok m \<longleftrightarrow> sorted_wrt (\<lambda>a b. sint (fst a) < sint (fst b)) m"

lemma sm_ok_Nil [simp]: "sm_ok []"
  by (simp add: sm_ok_def)

lemma sm_ok_Cons: "sm_ok (e # m) \<longleftrightarrow> (\<forall>e' \<in> set m. sint (fst e) < sint (fst e')) \<and> sm_ok m"
  by (simp add: sm_ok_def)

lemma sm_ok_distinct: "sm_ok m \<Longrightarrow> distinct (map fst m)"
  by (induction m) (auto simp: sm_ok_Cons)

lemma set_sm_set: "set (sm_set k v m) \<subseteq> insert (k, v) (set m)"
  by (induction k v m rule: sm_set.induct) auto

lemma sm_ok_set [simp, intro]: "sm_ok m \<Longrightarrow> sm_ok (sm_set k v m)"
proof (induction k v m rule: sm_set.induct)
  case (2 k v k' v' m)
  have "\<forall>e' \<in> set (sm_set k v m). sint k' < sint (fst e')" if "k \<noteq> k'" "\<not> sint k < sint k'"
  proof
    fix e' assume "e' \<in> set (sm_set k v m)"
    moreover have "sint k' < sint k" using that by (metis linorder_neqE_linordered_idom signed_word_eqI)
    ultimately show "sint k' < sint (fst e')" using set_sm_set [of k v m] 2(2) by (auto simp: sm_ok_Cons)
  qed
  then show ?case using 2 by (auto simp: sm_ok_Cons)
qed (simp add: sm_ok_Cons)

lemma sm_ok_erase [simp, intro]: "sm_ok m \<Longrightarrow> sm_ok (sm_erase k m)"
  by (induction m) (auto simp: sm_erase_def sm_ok_Cons)

lemma sm_ok_touch [simp, intro]: "sm_ok m \<Longrightarrow> sm_ok (sm_touch d k m)"
  by (simp add: sm_touch_def split: option.split)

lemma sm_ok_update [simp, intro]: "sm_ok m \<Longrightarrow> sm_ok (sm_update d k f m)"
  by (simp add: sm_update_def)

section \<open>The laws of a map\<close>

text \<open>What the server relies on: lookups after an assignment and after an erasure. The ordering makes the lookup
  after an assignment right: the search for the place of a new key stops at the first larger one.\<close>

locale ordered_map =
  fixes ok :: "'m \<Rightarrow> bool"
    and lookup :: "'k \<Rightarrow> 'm \<Rightarrow> 'v option"
    and assign :: "'k \<Rightarrow> 'v \<Rightarrow> 'm \<Rightarrow> 'm"
    and erase :: "'k \<Rightarrow> 'm \<Rightarrow> 'm"
  assumes ok_assign: "ok m \<Longrightarrow> ok (assign k v m)"
    and ok_erase: "ok m \<Longrightarrow> ok (erase k m)"
    and lookup_assign: "ok m \<Longrightarrow> lookup k' (assign k v m) = (if k' = k then Some v else lookup k' m)"
    and lookup_erase: "ok m \<Longrightarrow> lookup k' (erase k m) = (if k' = k then None else lookup k' m)"
begin

lemma lookup_assign_erase: "ok m \<Longrightarrow> lookup k' (assign k v (erase k m)) = lookup k' (assign k v m)"
  by (simp add: lookup_assign lookup_erase ok_erase)

lemma lookup_erase_assign: "ok m \<Longrightarrow> lookup k' (erase k (assign k v m)) = lookup k' (erase k m)"
  by (simp add: lookup_assign lookup_erase ok_assign)

end

lemma sm_find_set: "sm_ok m \<Longrightarrow> sm_find k' (sm_set k v m) = (if k' = k then Some v else sm_find k' m)"
  by (induction k v m rule: sm_set.induct) (auto simp: sm_ok_Cons)

lemma sm_find_erase: "sm_find k' (sm_erase k m) = (if k' = k then None else sm_find k' m)"
  by (induction m) (auto simp: sm_erase_def)

interpretation sm: ordered_map sm_ok "\<lambda>k m. sm_find k m" sm_set sm_erase
  by unfold_locales (auto simp: sm_find_set sm_find_erase)

lemma sm_at_set: "sm_ok m \<Longrightarrow> sm_at d k' (sm_set k v m) = (if k' = k then v else sm_at d k' m)"
  by (simp add: sm_at_def sm_find_set)

lemma sm_at_touch: "sm_ok m \<Longrightarrow> sm_at d k' (sm_touch d k m) = sm_at d k' m"
  by (auto simp: sm_at_def sm_touch_def sm_find_set split: option.split)

lemma sm_at_update: "sm_ok m \<Longrightarrow> sm_at d k' (sm_update d k f m) = (if k' = k then f (sm_at d k m) else sm_at d k' m)"
  by (simp add: sm_update_def sm_at_set)

lemma sm_at_Nil [simp]: "sm_at d k [] = d"
  by (simp add: sm_at_def)

end
