(* ===== verification/Stat.thy ===== *)
theory Stat
  imports StdMap
begin

text \<open>
  \<open>Server/Stat.h\<close>, \<open>Server/Stat.cpp\<close>: the counters of users online, playing and looking on, per terminal type, and of
  users playing and looking on per room level. The counters are \<open>int\<close>s, here words that wrap, guarded
  by signed comparisons; the keys are \<open>short\<close>s, so an \<open>int\<close> argument used as a key is cut to 16 bits.
  References into the maps are followed one write at a time, since two of them may denote the same counter.
\<close>

section \<open>Data\<close>

record DATAINFO =
  onlineCount :: c_int
  onPlayCount :: c_int
  onLookOnCount :: c_int

definition DATAINFO_new :: DATAINFO where
  "DATAINFO_new = \<lparr>onlineCount = 0, onPlayCount = 0, onLookOnCount = 0\<rparr>"

record LEVELINFO =
  playCount :: c_int
  lookCount :: c_int

definition LEVELINFO_new :: LEVELINFO where
  "LEVELINFO_new = \<lparr>playCount = 0, lookCount = 0\<rparr>"

record USERSTAT =
  us_terminalType :: c_int
  us_tid :: c_int

datatype terminal_event = TERMINAL_LOGINTABLE | TERMINAL_LOGOUTTABLE | TERMINAL_LOGINHALL | TERMINAL_LOGOUTHALL
  | TERMINAL_STANDTABLE | TERMINAL_STANDLEAVETABLE

datatype level_event = LEVEL_LOGIN | LEVEL_LOGOUT | LEVEL_STANDIN | LEVEL_STANDOUT

record CStat =
  m_terminalStatMap :: "(16, DATAINFO) std_map"
  m_LevelMgr :: "(16, LEVELINFO) std_map"

definition CStat_new :: CStat where
  "CStat_new = \<lparr>m_terminalStatMap = [], m_LevelMgr = []\<rparr>"

text \<open>\<open>DATAINFO & info = m_terminalStatMap[type]\<close>: reading the counters and writing them back.\<close>

abbreviation terminal_key :: "c_int \<Rightarrow> c_short" where "terminal_key t \<equiv> ucast t"

definition stat_at :: "c_int \<Rightarrow> CStat \<Rightarrow> DATAINFO" where
  "stat_at t s = sm_at DATAINFO_new (terminal_key t) (m_terminalStatMap s)"

definition stat_ref :: "c_int \<Rightarrow> CStat \<Rightarrow> CStat" where
  "stat_ref t s = s\<lparr>m_terminalStatMap := sm_touch DATAINFO_new (terminal_key t) (m_terminalStatMap s)\<rparr>"

definition stat_upd :: "c_int \<Rightarrow> (DATAINFO \<Rightarrow> DATAINFO) \<Rightarrow> CStat \<Rightarrow> CStat" where
  "stat_upd t f s = s\<lparr>m_terminalStatMap := sm_update DATAINFO_new (terminal_key t) f (m_terminalStatMap s)\<rparr>"

section \<open>Operations\<close>

definition UserLoginHall :: "c_int \<Rightarrow> USERSTAT option \<Rightarrow> CStat \<Rightarrow> CStat" where
  "UserLoginHall terminalType preStat s =
     (case preStat of
        None \<Rightarrow> stat_upd terminalType (\<lambda>d. d\<lparr>onlineCount := onlineCount d + 1\<rparr>) s
      | Some pre \<Rightarrow>
          let old = us_terminalType pre;
              s = stat_ref terminalType (stat_ref old s)
          in
            if old \<noteq> terminalType then
              let s = (if us_tid pre \<noteq> 0 \<and> sint (onPlayCount (stat_at old s)) > 0 then
                         stat_upd terminalType (\<lambda>d. d\<lparr>onPlayCount := onPlayCount d + 1\<rparr>)
                           (stat_upd old (\<lambda>d. d\<lparr>onPlayCount := onPlayCount d - 1\<rparr>) s)
                       else s);
                  s = (if sint (onlineCount (stat_at old s)) > 0 then
                         stat_upd old (\<lambda>d. d\<lparr>onlineCount := onlineCount d - 1\<rparr>) s
                       else s)
              in stat_upd terminalType (\<lambda>d. d\<lparr>onlineCount := onlineCount d + 1\<rparr>) s
            else s)"

definition UserLogoutHall :: "c_int \<Rightarrow> CStat \<Rightarrow> CStat" where
  "UserLogoutHall terminalType s =
     (let s = stat_ref terminalType s in
      if sint (onlineCount (stat_at terminalType s)) > 0
      then stat_upd terminalType (\<lambda>d. d\<lparr>onlineCount := onlineCount d - 1\<rparr>) s else s)"

definition UserLogoutTable :: "c_int \<Rightarrow> CStat \<Rightarrow> CStat" where
  "UserLogoutTable terminalType s =
     (let s = stat_ref terminalType s in
      if sint (onPlayCount (stat_at terminalType s)) > 0
      then stat_upd terminalType (\<lambda>d. d\<lparr>onPlayCount := onPlayCount d - 1\<rparr>) s else s)"

definition UserStandTable :: "c_int \<Rightarrow> CStat \<Rightarrow> CStat" where
  "UserStandTable terminalType s = stat_upd terminalType (\<lambda>d. d\<lparr>onLookOnCount := onLookOnCount d + 1\<rparr>) s"

definition UserStandLeaveTable :: "c_int \<Rightarrow> CStat \<Rightarrow> CStat" where
  "UserStandLeaveTable terminalType s =
     (let s = stat_ref terminalType s in
      if sint (onLookOnCount (stat_at terminalType s)) > 0
      then stat_upd terminalType (\<lambda>d. d\<lparr>onLookOnCount := onLookOnCount d - 1\<rparr>) s else s)"

definition UserLoginTable :: "c_int \<Rightarrow> CStat \<Rightarrow> CStat" where
  "UserLoginTable terminalType s = stat_upd terminalType (\<lambda>d. d\<lparr>onPlayCount := onPlayCount d + 1\<rparr>) s"

fun UpdateTerminalInfo :: "terminal_event \<Rightarrow> c_int \<Rightarrow> USERSTAT option \<Rightarrow> CStat \<Rightarrow> CStat" where
  "UpdateTerminalInfo TERMINAL_LOGINHALL terminalType privatedata s = UserLoginHall terminalType privatedata s"
| "UpdateTerminalInfo TERMINAL_LOGOUTHALL terminalType _ s = UserLogoutHall terminalType s"
| "UpdateTerminalInfo TERMINAL_LOGINTABLE terminalType _ s = UserLoginTable terminalType s"
| "UpdateTerminalInfo TERMINAL_LOGOUTTABLE terminalType _ s = UserLogoutTable terminalType s"
| "UpdateTerminalInfo TERMINAL_STANDTABLE terminalType _ s = UserStandTable terminalType s"
| "UpdateTerminalInfo TERMINAL_STANDLEAVETABLE terminalType _ s = UserStandLeaveTable terminalType s"

text \<open>The level counters: an event for a level that is not in the map changes nothing, except \<open>LEVEL_LOGIN\<close>, which adds it.\<close>

definition level_upd :: "c_short \<Rightarrow> (LEVELINFO \<Rightarrow> LEVELINFO) \<Rightarrow> CStat \<Rightarrow> CStat" where
  "level_upd l f s = s\<lparr>m_LevelMgr := sm_update LEVELINFO_new l f (m_LevelMgr s)\<rparr>"

fun UpdateLevelInfo :: "level_event \<Rightarrow> c_int \<Rightarrow> CStat \<Rightarrow> CStat" where
  "UpdateLevelInfo LEVEL_LOGIN level s =
     (let l = terminal_key level in
      case sm_find l (m_LevelMgr s) of
        Some _ \<Rightarrow> level_upd l (\<lambda>i. i\<lparr>playCount := playCount i + 1\<rparr>) s
      | None \<Rightarrow> s\<lparr>m_LevelMgr := sm_set l \<lparr>playCount = 1, lookCount = 0\<rparr> (m_LevelMgr s)\<rparr>)"
| "UpdateLevelInfo LEVEL_LOGOUT level s =
     (let l = terminal_key level in
      case sm_find l (m_LevelMgr s) of
        Some i \<Rightarrow> if sint (playCount i) > 0 then level_upd l (\<lambda>i. i\<lparr>playCount := playCount i - 1\<rparr>) s else s
      | None \<Rightarrow> s)"
| "UpdateLevelInfo LEVEL_STANDIN level s =
     (let l = terminal_key level in
      case sm_find l (m_LevelMgr s) of
        Some i \<Rightarrow> level_upd l (\<lambda>i. i\<lparr>lookCount := lookCount i + 1\<rparr>) s
      | None \<Rightarrow> s)"
| "UpdateLevelInfo LEVEL_STANDOUT level s =
     (let l = terminal_key level in
      case sm_find l (m_LevelMgr s) of
        Some i \<Rightarrow> if sint (lookCount i) > 0 then level_upd l (\<lambda>i. i\<lparr>lookCount := lookCount i - 1\<rparr>) s else s
      | None \<Rightarrow> s)"

section \<open>The counters as functions\<close>

definition stat_ok :: "CStat \<Rightarrow> bool" where
  "stat_ok s \<longleftrightarrow> sm_ok (m_terminalStatMap s) \<and> sm_ok (m_LevelMgr s)"

text \<open>The counter of a terminal type, zero for a type never seen.\<close>

definition term_info :: "CStat \<Rightarrow> c_short \<Rightarrow> DATAINFO" where
  "term_info s k = sm_at DATAINFO_new k (m_terminalStatMap s)"

definition level_info :: "CStat \<Rightarrow> c_short \<Rightarrow> LEVELINFO" where
  "level_info s l = sm_at LEVELINFO_new l (m_LevelMgr s)"

named_theorems stat_simps \<open>the counters after an update\<close>

lemma stat_at_info [stat_simps]: "stat_at t s = term_info s (terminal_key t)"
  by (simp add: stat_at_def term_info_def)

lemma stat_ok_new [simp]: "stat_ok CStat_new"
  by (simp add: stat_ok_def CStat_new_def)

lemma info_new [simp]: "term_info CStat_new k = DATAINFO_new" "level_info CStat_new l = LEVELINFO_new"
  by (simp_all add: term_info_def level_info_def CStat_new_def)

lemma stat_ref_info [stat_simps]:
  "stat_ok s \<Longrightarrow> stat_ok (stat_ref t s)" "stat_ok s \<Longrightarrow> term_info (stat_ref t s) k = term_info s k"
  "level_info (stat_ref t s) l = level_info s l" "m_LevelMgr (stat_ref t s) = m_LevelMgr s"
  by (simp_all add: stat_ref_def stat_ok_def term_info_def level_info_def sm_at_touch)

lemma stat_upd_info [stat_simps]:
  "stat_ok s \<Longrightarrow> stat_ok (stat_upd t f s)"
  "stat_ok s \<Longrightarrow> term_info (stat_upd t f s) k = (if k = terminal_key t then f (term_info s k) else term_info s k)"
  "level_info (stat_upd t f s) l = level_info s l" "m_LevelMgr (stat_upd t f s) = m_LevelMgr s"
  by (simp_all add: stat_upd_def stat_ok_def term_info_def level_info_def sm_at_update)

lemma level_upd_info [stat_simps]:
  "stat_ok s \<Longrightarrow> stat_ok (level_upd l f s)"
  "stat_ok s \<Longrightarrow> level_info (level_upd l f s) k = (if k = l then f (level_info s k) else level_info s k)"
  "term_info (level_upd l f s) t = term_info s t"
  by (simp_all add: level_upd_def stat_ok_def term_info_def level_info_def sm_at_update)

lemmas stat_op_defs = UserLoginHall_def UserLogoutHall_def UserLogoutTable_def UserStandTable_def UserStandLeaveTable_def
  UserLoginTable_def

lemma UpdateTerminalInfo_ok [simp, intro]: "stat_ok s \<Longrightarrow> stat_ok (UpdateTerminalInfo e t pre s)"
  by (cases e) (auto simp: stat_op_defs stat_simps Let_def split: option.splits)

lemma UpdateLevelInfo_ok [simp, intro]: "stat_ok s \<Longrightarrow> stat_ok (UpdateLevelInfo e l s)"
  by (cases e) (auto simp: stat_simps Let_def stat_ok_def level_upd_def split: option.splits)

lemma UpdateTerminalInfo_level [simp]: "level_info (UpdateTerminalInfo e t pre s) l = level_info s l"
  by (cases e) (auto simp: stat_op_defs stat_simps Let_def split: option.splits)

lemma UpdateLevelInfo_term [simp]: "term_info (UpdateLevelInfo e l s) k = term_info s k"
  by (cases e) (auto simp: term_info_def level_upd_def Let_def split: option.splits)

lemma terminal_key_scast [simp]: "terminal_key (scast (t :: c_short)) = t"
  by (rule bit_word_eqI) (simp add: bit_simps)

text \<open>The effect of each event on the counters of a terminal type.\<close>

lemma UserLoginHall_new_info:
  "stat_ok s \<Longrightarrow> term_info (UserLoginHall t None s) k =
     (if k = terminal_key t then (term_info s k)\<lparr>onlineCount := onlineCount (term_info s k) + 1\<rparr> else term_info s k)"
  by (simp add: UserLoginHall_def stat_simps)

lemma UserLogoutHall_info:
  "stat_ok s \<Longrightarrow> term_info (UserLogoutHall t s) k =
     (if k = terminal_key t \<and> 0 < sint (onlineCount (term_info s k))
      then (term_info s k)\<lparr>onlineCount := onlineCount (term_info s k) - 1\<rparr> else term_info s k)"
  by (simp add: UserLogoutHall_def stat_simps Let_def)

lemma UserLogoutTable_info:
  "stat_ok s \<Longrightarrow> term_info (UserLogoutTable t s) k =
     (if k = terminal_key t \<and> 0 < sint (onPlayCount (term_info s k))
      then (term_info s k)\<lparr>onPlayCount := onPlayCount (term_info s k) - 1\<rparr> else term_info s k)"
  by (simp add: UserLogoutTable_def stat_simps Let_def)

lemma UserLoginTable_info:
  "stat_ok s \<Longrightarrow> term_info (UserLoginTable t s) k =
     (if k = terminal_key t then (term_info s k)\<lparr>onPlayCount := onPlayCount (term_info s k) + 1\<rparr> else term_info s k)"
  by (simp add: UserLoginTable_def stat_simps)

lemma UserLoginHall_reload_online:
  assumes "stat_ok s" "terminal_key (us_terminalType pre) \<noteq> terminal_key t"
    "0 < sint (onlineCount (term_info s (terminal_key (us_terminalType pre))))"
  shows "onlineCount (term_info (UserLoginHall t (Some pre) s) k) =
     (if k = terminal_key t then onlineCount (term_info s k) + 1
      else if k = terminal_key (us_terminalType pre) then onlineCount (term_info s k) - 1 else onlineCount (term_info s k))"
  using assms by (auto simp: UserLoginHall_def stat_simps Let_def)

lemma UserLoginHall_same:
  assumes "stat_ok s" "us_terminalType pre = t"
  shows "term_info (UserLoginHall t (Some pre) s) k = term_info s k"
  using assms by (simp add: UserLoginHall_def stat_simps)

lemma UserLoginHall_reload_play:
  assumes "stat_ok s" "terminal_key (us_terminalType pre) \<noteq> terminal_key t"
    "us_tid pre \<noteq> 0 \<Longrightarrow> 0 < sint (onPlayCount (term_info s (terminal_key (us_terminalType pre))))"
  shows "onPlayCount (term_info (UserLoginHall t (Some pre) s) k) =
     (if us_tid pre = 0 then onPlayCount (term_info s k)
      else if k = terminal_key t then onPlayCount (term_info s k) + 1
      else if k = terminal_key (us_terminalType pre) then onPlayCount (term_info s k) - 1 else onPlayCount (term_info s k))"
  using assms by (auto simp: UserLoginHall_def stat_simps Let_def)

section \<open>Bounds of the counters\<close>

lemma sint_step:
  assumes "int_min \<le> sint (x :: c_int) + d" "sint x + d \<le> int_max"
  shows "sint (x + word_of_int d) = sint x + d"
proof -
  have "x + word_of_int d = word_of_int (sint x + d)" by simp
  then show ?thesis using sint_word_of_int_c_int [of "sint x + d"] assms by simp
qed

text \<open>Every counter of every terminal type and level lies between zero and \<open>n\<close>.\<close>

definition counters_within :: "int \<Rightarrow> CStat \<Rightarrow> bool" where
  "counters_within n s \<longleftrightarrow>
     (\<forall>k. sint (onlineCount (term_info s k)) \<in> {0..n} \<and> sint (onPlayCount (term_info s k)) \<in> {0..n} \<and>
       sint (onLookOnCount (term_info s k)) \<in> {0..n} \<and> sint (playCount (level_info s k)) \<in> {0..n} \<and> sint (lookCount (level_info s k)) \<in> {0..n})"

lemma sint_inc_dec:
  "0 \<le> sint (x :: c_int) \<Longrightarrow> sint x < int_max \<Longrightarrow> sint (x + 1) = sint x + 1"
  "0 < sint (x :: c_int) \<Longrightarrow> sint (x - 1) = sint x - 1"
  using sint_step [of x 1] sint_step [of x "-1"] sint_lt [of x] by (auto simp: int_min_def int_max_def)

text \<open>One counter moved by at most one.\<close>

lemma within_step:
  assumes "0 \<le> sint (x :: c_int)" "sint x \<le> n" "n < int_max"
  shows "0 \<le> sint (x + 1) \<and> sint (x + 1) \<le> n + 1" "0 < sint x \<Longrightarrow> 0 \<le> sint (x - 1) \<and> sint (x - 1) \<le> n + 1" "sint x \<le> n + 1"
  using assms sint_inc_dec [of x] by auto

lemma UpdateLevelInfo_info:
  assumes "stat_ok s"
  shows "level_info (UpdateLevelInfo e l s) k =
     (if k = terminal_key l then
        (case e of
           LEVEL_LOGIN \<Rightarrow> (level_info s k)\<lparr>playCount := playCount (level_info s k) + 1\<rparr>
         | LEVEL_LOGOUT \<Rightarrow> if 0 < sint (playCount (level_info s k)) then (level_info s k)\<lparr>playCount := playCount (level_info s k) - 1\<rparr> else level_info s k
         | LEVEL_STANDIN \<Rightarrow> if sm_find k (m_LevelMgr s) = None then level_info s k else (level_info s k)\<lparr>lookCount := lookCount (level_info s k) + 1\<rparr>
         | LEVEL_STANDOUT \<Rightarrow> if 0 < sint (lookCount (level_info s k)) then (level_info s k)\<lparr>lookCount := lookCount (level_info s k) - 1\<rparr> else level_info s k)
      else level_info s k)"
  using assms
  by (cases e) (auto simp: Let_def stat_simps level_info_def sm_at_def LEVELINFO_new_def level_upd_def stat_ok_def sm_find_set sm_update_def split: option.splits)

text \<open>The counters after any event: a counter of one terminal type goes up by one, or down by one when it is positive.\<close>

definition moved :: "c_int \<Rightarrow> c_int \<Rightarrow> bool" where
  "moved x y \<longleftrightarrow> y = x \<or> y = x + 1 \<or> 0 < sint x \<and> y = x - 1"

lemma moved_simps [simp]: "moved x x" "moved x (x + 1)" "0 < sint x \<Longrightarrow> moved x (x - 1)"
  by (simp_all add: moved_def)

lemma moved_within: "moved x y \<Longrightarrow> 0 \<le> sint x \<Longrightarrow> sint x \<le> n \<Longrightarrow> n < int_max \<Longrightarrow> 0 \<le> sint y \<and> sint y \<le> n + 1"
  using within_step [of x n] by (auto simp: moved_def)

lemma UserLoginHall_moved:
  assumes "stat_ok s"
  shows "moved (onlineCount (term_info s k)) (onlineCount (term_info (UserLoginHall t pre s) k))"
    and "moved (onPlayCount (term_info s k)) (onPlayCount (term_info (UserLoginHall t pre s) k))"
    and "onLookOnCount (term_info (UserLoginHall t pre s) k) = onLookOnCount (term_info s k)"
proof -
  show "moved (onlineCount (term_info s k)) (onlineCount (term_info (UserLoginHall t pre s) k))"
    using assms by (cases pre) (auto simp: UserLoginHall_def stat_simps Let_def)
  show "moved (onPlayCount (term_info s k)) (onPlayCount (term_info (UserLoginHall t pre s) k))"
    using assms by (cases pre) (auto simp: UserLoginHall_def stat_simps Let_def)
  show "onLookOnCount (term_info (UserLoginHall t pre s) k) = onLookOnCount (term_info s k)"
    using assms by (cases pre) (auto simp: UserLoginHall_def stat_simps Let_def)
qed

lemma UpdateTerminalInfo_moved:
  assumes "stat_ok s"
  shows "moved (onlineCount (term_info s k)) (onlineCount (term_info (UpdateTerminalInfo e t pre s) k))"
    and "moved (onPlayCount (term_info s k)) (onPlayCount (term_info (UpdateTerminalInfo e t pre s) k))"
    and "moved (onLookOnCount (term_info s k)) (onLookOnCount (term_info (UpdateTerminalInfo e t pre s) k))"
  using assms UserLoginHall_moved [OF assms]
  by (cases e; simp add: stat_op_defs(2-6) stat_simps Let_def)+

lemma UpdateLevelInfo_moved:
  assumes "stat_ok s"
  shows "moved (playCount (level_info s k)) (playCount (level_info (UpdateLevelInfo e l s) k))"
    and "moved (lookCount (level_info s k)) (lookCount (level_info (UpdateLevelInfo e l s) k))"
  using assms by (cases e; simp add: UpdateLevelInfo_info del: UpdateLevelInfo.simps)+

text \<open>A run of events, of either kind, from the empty statistics.\<close>

datatype stat_event = Terminal terminal_event c_int "USERSTAT option" | Level level_event c_int

fun stat_apply :: "stat_event \<Rightarrow> CStat \<Rightarrow> CStat" where
  "stat_apply (Terminal e t pre) s = UpdateTerminalInfo e t pre s"
| "stat_apply (Level e l) s = UpdateLevelInfo e l s"

lemma stat_apply_within:
  assumes "counters_within n s" "n < int_max" "stat_ok s"
  shows "counters_within (n + 1) (stat_apply ev s) \<and> stat_ok (stat_apply ev s)"
proof (cases ev)
  case (Terminal e t pre)
  then show ?thesis using assms UpdateTerminalInfo_moved [OF assms(3), THEN moved_within, OF _ _ assms(2)]
    by (simp add: counters_within_def add_increasing2 del: UpdateTerminalInfo.simps)
next
  case (Level e l)
  then show ?thesis using assms UpdateLevelInfo_moved [OF assms(3), THEN moved_within, OF _ _ assms(2)]
    by (simp add: counters_within_def add_increasing2 del: UpdateLevelInfo.simps)
qed

lemma stat_run_within:
  assumes "counters_within n s" "n + int (length es) \<le> int_max" "stat_ok s"
  shows "counters_within (n + int (length es)) (fold stat_apply es s)"
  using assms
proof (induction es arbitrary: n s)
  case (Cons ev es)
  then have "counters_within (n + 1) (stat_apply ev s) \<and> stat_ok (stat_apply ev s)" by (intro stat_apply_within) simp_all
  then show ?case using Cons.IH [of "n + 1" "stat_apply ev s"] Cons.prems(2) by (simp add: add.assoc)
qed simp

text \<open>C28: after any sequence of fewer than two billion events, no counter of a terminal type or a level has gone below zero or wrapped around: each is at
  most the number of events.\<close>

theorem counters_bounded:
  assumes "int (length es) \<le> int_max"
  shows "counters_within (int (length es)) (fold stat_apply es CStat_new)"
proof -
  have "counters_within 0 CStat_new" by (simp add: counters_within_def DATAINFO_new_def LEVELINFO_new_def)
  then show ?thesis using stat_run_within [of 0 CStat_new es] assms by simp
qed

theorem counters_bounded_witness:
  "counters_within 2 (fold stat_apply [Terminal TERMINAL_LOGOUTHALL 1 None, Level LEVEL_LOGIN 3] CStat_new)"
  using counters_bounded [of "[Terminal TERMINAL_LOGOUTHALL 1 None, Level LEVEL_LOGIN 3]"] by (simp add: int_max_def del: fold_simps)

end
