(* ===== verification/DataPacket.thy ===== *)
theory DataPacket
  imports Prelude
begin

text \<open>
  \<open>Server/Data_PacketBase.h\<close>: the packet buffer template \<open>DataPacketBase<_buffer_size>\<close> and its
  reader \<open>DataInputPacket\<close> and writer \<open>DataOutputPacket\<close>, which exchange fields in host (little
  endian) order with the statistics server. The template parameter is the argument \<open>N\<close>.
  \<open>Dpb_\<close>, \<open>Din_\<close> and \<open>Dout_\<close> prefix the members of the three classes.

  A packet is its buffer, a total size and a read position, both C \<open>int\<close>s. Every \<open>memcpy\<close> is
  checked against the array: an access outside it is \<open>None\<close>. A reader returns the bytes copied
  out (\<open>None\<close> inside the pair when the C++ function returns false and leaves the output alone).
\<close>

section \<open>State\<close>

record packet =
  m_strBuf :: memory
  m_nPacketSize :: int
  m_nBufPos :: int

record output_packet = packet +
  m_isCheckCode :: bool

text \<open>Freshly cleared packets, for concrete runs.\<close>

abbreviation packet0 :: packet where
  "packet0 \<equiv> \<lparr>m_strBuf = (\<lambda>_. 0), m_nPacketSize = 9, m_nBufPos = 9\<rparr>"

abbreviation output_packet0 :: output_packet where
  "output_packet0 \<equiv> \<lparr>m_strBuf = (\<lambda>_. 0), m_nPacketSize = 9, m_nBufPos = 9, m_isCheckCode = False\<rparr>"

abbreviation PACKET_HEADER_SIZE :: int where "PACKET_HEADER_SIZE \<equiv> 9"

abbreviation SERVER_PACKET_DEFAULT_VER :: byte where "SERVER_PACKET_DEFAULT_VER \<equiv> 1"
abbreviation SERVER_PACKET_DEFAULT_SUBVER :: byte where "SERVER_PACKET_DEFAULT_SUBVER \<equiv> 1"

text \<open>\<open>memcpy\<close> inside one buffer: overlapping ranges are undefined.\<close>

definition mem_copy :: "memory \<Rightarrow> nat \<Rightarrow> nat \<Rightarrow> nat \<Rightarrow> memory option" where
  "mem_copy m dst src n =
     (if n = 0 \<or> dst + n \<le> src \<or> src + n \<le> dst then Some (mem_write m dst (mem_read m src n)) else None)"

text \<open>A C string starting at an offset of a buffer of \<open>N\<close> bytes: running past the end without
  meeting the terminator is undefined.\<close>

definition c_string :: "int \<Rightarrow> memory \<Rightarrow> int \<Rightarrow> byte list option" where
  "c_string N m off =
     (if off < 0 \<or> N \<le> off then None
      else let bs = mem_read m (nat off) (nat (N - off)) in
        if 0 \<in> set bs then Some (takeWhile (\<lambda>b. b \<noteq> 0) bs) else None)"

section \<open>DataPacketBase\<close>

definition Dpb_reset :: "'a packet_scheme \<Rightarrow> 'a packet_scheme" where
  "Dpb_reset p = p\<lparr>m_strBuf := (\<lambda>_. 0), m_nBufPos := PACKET_HEADER_SIZE, m_nPacketSize := PACKET_HEADER_SIZE\<rparr>"

definition Dpb_copy :: "int \<Rightarrow> byte list \<Rightarrow> int \<Rightarrow> 'a packet_scheme \<Rightarrow> (bool \<times> 'a packet_scheme) option" where
  "Dpb_copy N pInBuf nLen p =
     (if nLen > N then Some (False, p)
      else if nLen < 0 \<or> length pInBuf < nat nLen then None
      else let q = Dpb_reset p in
        Some (True, q\<lparr>m_strBuf := mem_write (m_strBuf q) 0 (take (nat nLen) pInBuf), m_nPacketSize := nLen\<rparr>))"

definition Dpb_readHeader :: "int \<Rightarrow> int \<Rightarrow> int \<Rightarrow> 'a packet_scheme \<Rightarrow> byte list option" where
  "Dpb_readHeader N nLen nPos p =
     (if nPos > 0 \<or> nPos + nLen < PACKET_HEADER_SIZE
      then (if 0 \<le> nPos \<and> 0 \<le> nLen \<and> nPos + nLen \<le> N
            then Some (mem_read (m_strBuf p) (nat nPos) (nat nLen)) else None)
      else None)"

definition Dpb_writeHeader :: "int \<Rightarrow> byte list \<Rightarrow> int \<Rightarrow> 'a packet_scheme \<Rightarrow> 'a packet_scheme option" where
  "Dpb_writeHeader N pIn nPos p =
     (if nPos > 0 \<or> nPos + int (length pIn) < PACKET_HEADER_SIZE
      then (if 0 \<le> nPos \<and> nPos + int (length pIn) \<le> N
            then Some (p\<lparr>m_strBuf := mem_write (m_strBuf p) (nat nPos) pIn\<rparr>) else None)
      else Some p)"

definition Dpb_begin :: "int \<Rightarrow> c_short \<Rightarrow> byte \<Rightarrow> byte \<Rightarrow> 'a packet_scheme \<Rightarrow> 'a packet_scheme option" where
  "Dpb_begin N nCmdType cVersion cSubVersion p =
     do {
       let p = Dpb_reset p;
       let cmd = nCmdType;
       p \<leftarrow> Dpb_writeHeader N (bytes_of_string ''BY'') 2 p;
       p \<leftarrow> Dpb_writeHeader N [cVersion] 4 p;
       p \<leftarrow> Dpb_writeHeader N [cSubVersion] 5 p;
       Dpb_writeHeader N (le16 cmd) 6 p
     }"

definition Dpb_SetBegin :: "int \<Rightarrow> c_short \<Rightarrow> 'a packet_scheme \<Rightarrow> 'a packet_scheme option" where
  "Dpb_SetBegin N nCmdType p = Dpb_writeHeader N (le16 nCmdType) 6 p"

definition Dpb_GetCmdType :: "int \<Rightarrow> 'a packet_scheme \<Rightarrow> c_short option" where
  "Dpb_GetCmdType N p = do { bs \<leftarrow> Dpb_readHeader N 2 6 p; Some (of_le16 bs) }"

definition Dpb_GetVersion :: "int \<Rightarrow> 'a packet_scheme \<Rightarrow> byte option" where
  "Dpb_GetVersion N p = do { bs \<leftarrow> Dpb_readHeader N 1 4 p; Some (hd bs) }"

definition Dpb_GetSubVersion :: "int \<Rightarrow> 'a packet_scheme \<Rightarrow> byte option" where
  "Dpb_GetSubVersion N p = do { bs \<leftarrow> Dpb_readHeader N 1 5 p; Some (hd bs) }"

definition Dpb_GetBodyLength :: "int \<Rightarrow> 'a packet_scheme \<Rightarrow> c_short option" where
  "Dpb_GetBodyLength N p = do { bs \<leftarrow> Dpb_readHeader N 2 0 p; Some (of_le16 bs) }"

definition Dpb_GetcbCheckCode :: "int \<Rightarrow> 'a packet_scheme \<Rightarrow> byte option" where
  "Dpb_GetcbCheckCode N p = do { bs \<leftarrow> Dpb_readHeader N 1 8 p; Some (hd bs) }"

definition Dpb_end :: "int \<Rightarrow> 'a packet_scheme \<Rightarrow> 'a packet_scheme option" where
  "Dpb_end N p =
     do {
       let nBody = (word_of_int (m_nPacketSize p - 2) :: c_short);
       p \<leftarrow> Dpb_writeHeader N (le16 nBody) 0 p;
       Dpb_writeHeader N [0] 8 p
     }"

definition Dpb_oldend :: "int \<Rightarrow> 'a packet_scheme \<Rightarrow> 'a packet_scheme option" where
  "Dpb_oldend N p =
     do {
       let nBody = (word_of_int (m_nPacketSize p - 2) :: c_short);
       Dpb_writeHeader N (le16 nBody) 0 p
     }"

definition Dpb_Read :: "int \<Rightarrow> int \<Rightarrow> 'a packet_scheme \<Rightarrow> (byte list option \<times> 'a packet_scheme) option" where
  "Dpb_Read N nLen p =
     do {
       e \<leftarrow> c_add nLen (m_nBufPos p);
       if e > m_nPacketSize p \<or> e > N then Some (None, p)
       else if nLen < 0 \<or> m_nBufPos p < 0 then None
       else Some (Some (mem_read (m_strBuf p) (nat (m_nBufPos p)) (nat nLen)), p\<lparr>m_nBufPos := e\<rparr>)
     }"

definition Dpb_ReadDel :: "int \<Rightarrow> int \<Rightarrow> 'a packet_scheme \<Rightarrow> (byte list option \<times> 'a packet_scheme) option" where
  "Dpb_ReadDel N nLen p =
     do {
       (r, p) \<leftarrow> Dpb_Read N nLen p;
       (case r of
          None \<Rightarrow> Some (None, p)
        | Some out \<Rightarrow>
            do {
              b \<leftarrow> mem_copy (m_strBuf p) (nat (m_nBufPos p - nLen)) (nat (m_nBufPos p)) (nat (N - m_nBufPos p));
              let p = p\<lparr>m_strBuf := b, m_nBufPos := m_nBufPos p - nLen, m_nPacketSize := m_nPacketSize p - nLen\<rparr>;
              p \<leftarrow> Dpb_end N p;
              Some (Some out, p)
            })
     }"

definition Dpb_readundo :: "int \<Rightarrow> 'a packet_scheme \<Rightarrow> 'a packet_scheme" where
  "Dpb_readundo nLen p = p\<lparr>m_nBufPos := m_nBufPos p - nLen\<rparr>"

definition Dpb_readpoint :: "int \<Rightarrow> 'a packet_scheme \<Rightarrow> (int option \<times> 'a packet_scheme) option" where
  "Dpb_readpoint nLen p =
     do {
       e \<leftarrow> c_add nLen (m_nBufPos p);
       if e > m_nPacketSize p then Some (None, p)
       else Some (Some (m_nBufPos p), p\<lparr>m_nBufPos := e\<rparr>)
     }"

definition Dpb_Write :: "int \<Rightarrow> byte list \<Rightarrow> int \<Rightarrow> 'a packet_scheme \<Rightarrow> (bool \<times> 'a packet_scheme) option" where
  "Dpb_Write N pIn nLen p =
     (if m_nPacketSize p < 0 then Some (False, p)
      else do {
        e \<leftarrow> c_add nLen (m_nPacketSize p);
        if e > N then Some (False, p)
        else if nLen < 0 \<or> length pIn < nat nLen then None
        else Some (True, p\<lparr>m_strBuf := mem_write (m_strBuf p) (nat (m_nPacketSize p)) (take (nat nLen) pIn),
                           m_nPacketSize := e\<rparr>)
      })"

definition Dpb_Insert :: "int \<Rightarrow> byte list \<Rightarrow> int \<Rightarrow> 'a packet_scheme \<Rightarrow> (bool \<times> 'a packet_scheme) option" where
  "Dpb_Insert N pIn nLen p =
     do {
       e \<leftarrow> c_add nLen (m_nPacketSize p);
       if e > N then Some (False, p)
       else if nLen < 0 \<or> length pIn < nat nLen \<or> m_nPacketSize p < PACKET_HEADER_SIZE then None
       else do {
         b \<leftarrow> mem_copy (m_strBuf p) (nat (PACKET_HEADER_SIZE + nLen)) (nat PACKET_HEADER_SIZE)
                (nat (m_nPacketSize p - PACKET_HEADER_SIZE));
         let p = p\<lparr>m_strBuf := mem_write b (nat PACKET_HEADER_SIZE) (take (nat nLen) pIn), m_nPacketSize := e\<rparr>;
         p \<leftarrow> Dpb_end N p;
         Some (True, p)
       }
     }"

definition Dpb_writezero :: "int \<Rightarrow> 'a packet_scheme \<Rightarrow> (bool \<times> 'a packet_scheme) option" where
  "Dpb_writezero N p =
     do {
       e \<leftarrow> c_add (m_nPacketSize p) 1;
       if e > N then Some (False, p)
       else if m_nPacketSize p < 0 then None
       else Some (True, p\<lparr>m_strBuf := mem_write (m_strBuf p) (nat (m_nPacketSize p)) [0], m_nPacketSize := e\<rparr>)
     }"

section \<open>DataInputPacket\<close>

definition Din_ReadInt :: "int \<Rightarrow> 'a packet_scheme \<Rightarrow> (c_int \<times> 'a packet_scheme) option" where
  "Din_ReadInt N p =
     do { (r, p) \<leftarrow> Dpb_Read N 4 p; Some (case r of None \<Rightarrow> -1 | Some bs \<Rightarrow> of_le32 bs, p) }"

definition Din_ReadIntDel :: "int \<Rightarrow> 'a packet_scheme \<Rightarrow> (c_int \<times> 'a packet_scheme) option" where
  "Din_ReadIntDel N p =
     do { (r, p) \<leftarrow> Dpb_ReadDel N 4 p; Some (case r of None \<Rightarrow> -1 | Some bs \<Rightarrow> of_le32 bs, p) }"

definition Din_ReadShort :: "int \<Rightarrow> 'a packet_scheme \<Rightarrow> (c_short \<times> 'a packet_scheme) option" where
  "Din_ReadShort N p =
     do { (r, p) \<leftarrow> Dpb_Read N 2 p; Some (case r of None \<Rightarrow> -1 | Some bs \<Rightarrow> of_le16 bs, p) }"

definition Din_ReadByte :: "int \<Rightarrow> 'a packet_scheme \<Rightarrow> (byte \<times> 'a packet_scheme) option" where
  "Din_ReadByte N p =
     do { (r, p) \<leftarrow> Dpb_Read N 1 p; Some (case r of None \<Rightarrow> -1 | Some bs \<Rightarrow> hd bs, p) }"

definition Din_ReadString_buf :: "int \<Rightarrow> int \<Rightarrow> 'a packet_scheme \<Rightarrow> (byte list option \<times> 'a packet_scheme) option" where
  "Din_ReadString_buf N nMaxLen p =
     do {
       (nLen, p) \<leftarrow> Din_ReadInt N p;
       if nLen = -1 then Some (None, p)
       else if sint nLen > nMaxLen then Some (None, Dpb_readundo 2 p)
       else Dpb_Read N (sint nLen) p
     }"

definition Din_ReadChar :: "int \<Rightarrow> 'a packet_scheme \<Rightarrow> (int option \<times> 'a packet_scheme) option" where
  "Din_ReadChar N p =
     do {
       (nLen, p) \<leftarrow> Din_ReadInt N p;
       if nLen = -1 then Some (None, p) else Dpb_readpoint (sint nLen) p
     }"

definition Din_ReadString :: "int \<Rightarrow> 'a packet_scheme \<Rightarrow> (byte list \<times> 'a packet_scheme) option" where
  "Din_ReadString N p =
     do {
       (q, p) \<leftarrow> Din_ReadChar N p;
       (case q of
          None \<Rightarrow> Some ([], p)
        | Some off \<Rightarrow> do { s \<leftarrow> c_string N (m_strBuf p) off; Some (s, p) })
     }"

text \<open>\<open>ReadBinary\<close> returns its result and the bytes it copied into \<open>pBuf\<close>.\<close>

definition Din_ReadBinary :: "int \<Rightarrow> int \<Rightarrow> 'a packet_scheme \<Rightarrow> (int \<times> byte list \<times> 'a packet_scheme) option" where
  "Din_ReadBinary N nMaxLen p =
     do {
       (nLen, p) \<leftarrow> Din_ReadInt N p;
       if nLen = -1 then Some (-1, [], p)
       else if sint nLen > nMaxLen then Some (-1, [], Dpb_readundo 4 p)
       else do {
         (r, p) \<leftarrow> Dpb_Read N (sint nLen) p;
         (case r of None \<Rightarrow> Some (0, [], p) | Some bs \<Rightarrow> Some (sint nLen, bs, p))
       }
     }"

definition Din_Copy :: "int \<Rightarrow> byte list \<Rightarrow> int \<Rightarrow> 'a packet_scheme \<Rightarrow> (bool \<times> 'a packet_scheme) option" where
  "Din_Copy N pInBuf nLen p = Dpb_copy N pInBuf nLen p"

definition Din_WriteBody :: "int \<Rightarrow> byte list \<Rightarrow> int \<Rightarrow> 'a packet_scheme \<Rightarrow> (bool \<times> 'a packet_scheme) option" where
  "Din_WriteBody N pIn nLen p = Dpb_Write N pIn nLen p"

section \<open>DataOutputPacket\<close>

definition Dout_WriteInt :: "int \<Rightarrow> c_int \<Rightarrow> 'a packet_scheme \<Rightarrow> (bool \<times> 'a packet_scheme) option" where
  "Dout_WriteInt N nValue p = Dpb_Write N (le32 nValue) 4 p"

definition Dout_WriteByte :: "int \<Rightarrow> byte \<Rightarrow> 'a packet_scheme \<Rightarrow> (bool \<times> 'a packet_scheme) option" where
  "Dout_WriteByte N nValue p = Dpb_Write N [nValue] 1 p"

definition Dout_WriteShort :: "int \<Rightarrow> c_short \<Rightarrow> 'a packet_scheme \<Rightarrow> (bool \<times> 'a packet_scheme) option" where
  "Dout_WriteShort N nValue p = Dpb_Write N (le16 nValue) 2 p"

definition Dout_InsertInt :: "int \<Rightarrow> c_int \<Rightarrow> 'a packet_scheme \<Rightarrow> (bool \<times> 'a packet_scheme) option" where
  "Dout_InsertInt N nValue p = Dpb_Insert N (le32 nValue) 4 p"

definition Dout_InsertByte :: "int \<Rightarrow> byte \<Rightarrow> 'a packet_scheme \<Rightarrow> (bool \<times> 'a packet_scheme) option" where
  "Dout_InsertByte N nValue p = Dpb_Insert N [nValue] 1 p"

definition Dout_WriteString :: "int \<Rightarrow> byte list \<Rightarrow> 'a packet_scheme \<Rightarrow> (bool \<times> 'a packet_scheme) option" where
  "Dout_WriteString N s p =
     do {
       let nLen = int (length s);
       (_, p) \<leftarrow> Dout_WriteInt N (word_of_int (nLen + 1)) p;
       if nLen > 0 then do {
         (ok, p) \<leftarrow> Dpb_Write N s nLen p;
         if ok then Dpb_writezero N p else Some (False, p)
       }
       else Dpb_writezero N p
     }"

text \<open>The overload on \<open>const char *\<close> takes the bytes up to the terminator.\<close>

definition Dout_WriteCString :: "int \<Rightarrow> byte list \<Rightarrow> 'a packet_scheme \<Rightarrow> (bool \<times> 'a packet_scheme) option" where
  "Dout_WriteCString N s p = Dout_WriteString N (takeWhile (\<lambda>b. b \<noteq> 0) s) p"

definition Dout_WriteBinary :: "int \<Rightarrow> byte list \<Rightarrow> int \<Rightarrow> 'a packet_scheme \<Rightarrow> (bool \<times> 'a packet_scheme) option" where
  "Dout_WriteBinary N pBuf nLen p =
     do {
       (_, p) \<leftarrow> Dout_WriteInt N (word_of_int nLen) p;
       Dpb_Write N pBuf nLen p
     }"

definition Dout_Begin :: "int \<Rightarrow> c_short \<Rightarrow> byte \<Rightarrow> byte \<Rightarrow> 'a output_packet_scheme \<Rightarrow> 'a output_packet_scheme option" where
  "Dout_Begin N nCommand cVersion cSubVersion p =
     do { p \<leftarrow> Dpb_begin N nCommand cVersion cSubVersion p; Some (p\<lparr>m_isCheckCode := False\<rparr>) }"

definition Dout_End :: "int \<Rightarrow> 'a output_packet_scheme \<Rightarrow> 'a output_packet_scheme option" where
  "Dout_End N p = Dpb_end N (p\<lparr>m_isCheckCode := False\<rparr>)"

definition Dout_oldEnd :: "int \<Rightarrow> 'a output_packet_scheme \<Rightarrow> 'a output_packet_scheme option" where
  "Dout_oldEnd N p = Dpb_oldend N (p\<lparr>m_isCheckCode := False\<rparr>)"

definition Dout_WritecbCheckCode :: "int \<Rightarrow> byte \<Rightarrow> 'a output_packet_scheme \<Rightarrow> 'a output_packet_scheme option" where
  "Dout_WritecbCheckCode N nValue p =
     do { p \<leftarrow> Dpb_writeHeader N [nValue] 8 p; Some (p\<lparr>m_isCheckCode := True\<rparr>) }"

section \<open>Well-formed packets\<close>

text \<open>The size stays inside the buffer and the cursor between the header and the end of the
  packet (a packet shorter than its header has the cursor at the header's end).\<close>

definition pk_wf :: "int \<Rightarrow> 'a packet_scheme \<Rightarrow> bool" where
  "pk_wf N p \<longleftrightarrow> 9 \<le> N \<and> N \<le> 100000 \<and> 0 \<le> m_nPacketSize p \<and> m_nPacketSize p \<le> N \<and>
     9 \<le> m_nBufPos p \<and> m_nBufPos p \<le> max 9 (m_nPacketSize p)"

definition payload :: "'a packet_scheme \<Rightarrow> byte list" where
  "payload p = mem_read (m_strBuf p) 9 (nat (m_nPacketSize p - 9))"

definition rest :: "'a packet_scheme \<Rightarrow> byte list" where
  "rest p = mem_read (m_strBuf p) (nat (m_nBufPos p)) (nat (m_nPacketSize p - m_nBufPos p))"

definition packet_bytes :: "'a packet_scheme \<Rightarrow> byte list" where
  "packet_bytes p = mem_read (m_strBuf p) 0 (nat (m_nPacketSize p))"

definition pk_append :: "byte list \<Rightarrow> 'a packet_scheme \<Rightarrow> 'a packet_scheme" where
  "pk_append bs p = p\<lparr>m_strBuf := mem_write (m_strBuf p) (nat (m_nPacketSize p)) bs,
                      m_nPacketSize := m_nPacketSize p + int (length bs)\<rparr>"

named_theorems packet_simps \<open>packets under construction\<close>

lemma pk_append_fields [packet_simps]:
  "m_nPacketSize (pk_append bs p) = m_nPacketSize p + int (length bs)"
  "m_nBufPos (pk_append bs p) = m_nBufPos p"
  by (simp_all add: pk_append_def)

lemma pk_append_Nil [packet_simps]: "pk_append [] p = p"
  by (simp add: pk_append_def)

lemma pk_append_append [packet_simps]:
  assumes "0 \<le> m_nPacketSize p"
  shows "pk_append b (pk_append a p) = pk_append (a @ b) p"
  using assms by (simp add: pk_append_def nat_add_distrib byte_simps)

lemma payload_append [packet_simps]:
  assumes "9 \<le> m_nPacketSize p"
  shows "payload (pk_append bs p) = payload p @ bs"
proof -
  have "nat (m_nPacketSize p + int (length bs) - 9) = nat (m_nPacketSize p - 9) + length bs"
    using assms by simp
  moreover have "9 + nat (m_nPacketSize p - 9) = nat (m_nPacketSize p)"
    using assms by simp
  ultimately show ?thesis
    using assms by (simp add: payload_def pk_append_def mem_read_add byte_simps)
qed

lemma pk_wf_append: "pk_wf N p \<Longrightarrow> m_nPacketSize p + int (length bs) \<le> N \<Longrightarrow> pk_wf N (pk_append bs p)"
  by (auto simp: pk_wf_def packet_simps)

lemma length_rest: "pk_wf N p \<Longrightarrow> length (rest p) = nat (m_nPacketSize p - m_nBufPos p)"
  by (simp add: rest_def)

lemma Dpb_Write_ok:
  assumes "pk_wf N p" and "m_nPacketSize p + int (length bs) \<le> N" and "n = int (length bs)"
  shows "Dpb_Write N bs n p = Some (True, pk_append bs p)"
  using assms by (auto simp: Dpb_Write_def pk_wf_def pk_append_def add.commute)

lemma Dpb_Write_full:
  assumes "pk_wf N p" and "N < m_nPacketSize p + n" and "n \<le> 1073741823"
  shows "Dpb_Write N bs n p = Some (False, p)"
  using assms by (auto simp: Dpb_Write_def pk_wf_def add.commute)

lemma Dpb_writezero_ok:
  assumes "pk_wf N p" and "m_nPacketSize p + 1 \<le> N"
  shows "Dpb_writezero N p = Some (True, pk_append [0] p)"
  using assms by (auto simp: Dpb_writezero_def pk_wf_def pk_append_def)

lemma Dpb_Read_ok:
  assumes wf: "pk_wf N p" and le: "m_nBufPos p \<le> m_nPacketSize p"
    and r: "rest p = bs @ r" and n: "n = int (length bs)"
  shows "Dpb_Read N n p = Some (Some bs, p\<lparr>m_nBufPos := m_nBufPos p + n\<rparr>)"
    and "rest (p\<lparr>m_nBufPos := m_nBufPos p + n\<rparr>) = r"
    and "pk_wf N (p\<lparr>m_nBufPos := m_nBufPos p + n\<rparr>)"
    and "m_nBufPos p + n \<le> m_nPacketSize p"
proof -
  obtain P S where P: "m_nBufPos p = int P" and S: "m_nPacketSize p = int S"
    using wf le by (metis pk_wf_def nonneg_int_cases order_trans zero_le_numeral)
  have len: "S - P = length bs + length r"
    using r length_rest [OF wf] P S by simp
  then have PS: "P + length bs \<le> S" using le P S by simp
  have "nat (int S - int P) = length bs + length r" using len by linarith
  then have eq: "mem_read (m_strBuf p) P (length bs) @ mem_read (m_strBuf p) (P + length bs) (length r) = bs @ r"
    using r P S by (simp add: rest_def mem_read_add [symmetric])
  then have split: "mem_read (m_strBuf p) P (length bs) = bs"
    "mem_read (m_strBuf p) (P + length bs) (length r) = r"
    by simp_all
  show fits: "m_nBufPos p + n \<le> m_nPacketSize p" using PS P S n by simp
  show "pk_wf N (p\<lparr>m_nBufPos := m_nBufPos p + n\<rparr>)"
    using wf fits n by (simp add: pk_wf_def)
  have "nat (m_nPacketSize p - (m_nBufPos p + n)) = length r" using len PS P S n by simp
  moreover have "nat (m_nBufPos p + n) = P + length bs" using P n by simp
  ultimately show "rest (p\<lparr>m_nBufPos := m_nBufPos p + n\<rparr>) = r"
    by (simp add: rest_def split)
  show "Dpb_Read N n p = Some (Some bs, p\<lparr>m_nBufPos := m_nBufPos p + n\<rparr>)"
    using wf fits split(1) P n by (simp add: Dpb_Read_def pk_wf_def add.commute)
qed

lemma Dpb_Read_short:
  assumes "pk_wf N p" and "int (length (rest p)) < n" and "n \<le> 1073741823"
  shows "Dpb_Read N n p = Some (None, p)"
  using assms by (cases "m_nBufPos p \<le> m_nPacketSize p") (auto simp: Dpb_Read_def pk_wf_def rest_def)

text \<open>A negative length passes both guards and reaches \<open>memcpy\<close>.\<close>

lemma Dpb_Read_negative:
  assumes "pk_wf N p" and "m_nBufPos p \<le> m_nPacketSize p" and "int_min \<le> n" and "n < 0"
  shows "Dpb_Read N n p = None"
  using assms by (simp add: Dpb_Read_def pk_wf_def c_add_def int_max_def)

lemma Dpb_Read_wf:
  assumes "pk_wf N p" and "Dpb_Read N n p = Some (r, q)"
  shows "pk_wf N q" and "m_nPacketSize q = m_nPacketSize p" and "m_strBuf q = m_strBuf p"
  using assms
  by (auto simp: Dpb_Read_def pk_wf_def split: if_splits option.splits bind_splits dest!: c_add_SomeD)

lemma Dpb_Read_defined:
  assumes "pk_wf N p" and "0 \<le> n" and "n \<le> 1073741823"
  shows "\<exists>r q. Dpb_Read N n p = Some (r, q)"
  using assms by (auto simp: Dpb_Read_def pk_wf_def)

section \<open>Messages under construction\<close>

text \<open>A packet holding a nine-byte header \<open>h\<close> and a body \<open>b\<close>, the cursor after the header.\<close>

definition pk_msg :: "byte list \<Rightarrow> byte list \<Rightarrow> 'a packet_scheme \<Rightarrow> 'a packet_scheme" where
  "pk_msg h b p = p\<lparr>m_strBuf := mem_write (\<lambda>_. 0) 0 (h @ b), m_nPacketSize := 9 + int (length b), m_nBufPos := 9\<rparr>"

lemma pk_msg_fields [packet_simps]:
  "m_nPacketSize (pk_msg h b p) = 9 + int (length b)"
  "m_nBufPos (pk_msg h b p) = 9"
  "m_strBuf (pk_msg h b p) = mem_write (\<lambda>_. 0) 0 (h @ b)"
  by (simp_all add: pk_msg_def)

lemma pk_append_msg [packet_simps]: "length h = 9 \<Longrightarrow> pk_append bs (pk_msg h b p) = pk_msg h (b @ bs) p"
  by (simp add: pk_append_def pk_msg_def nat_add_distrib byte_simps)

lemma pk_wf_msg [packet_simps]: "9 + int (length b) \<le> N \<Longrightarrow> N \<le> 100000 \<Longrightarrow> pk_wf N (pk_msg h b p)"
  by (simp add: pk_wf_def packet_simps)

lemma packet_bytes_msg [packet_simps]: "length h = 9 \<Longrightarrow> packet_bytes (pk_msg h b p) = h @ b"
  by (simp add: packet_bytes_def pk_msg_def byte_simps nat_add_distrib)

lemma payload_msg [packet_simps]:
  assumes "length h = 9"
  shows "payload (pk_msg h b p) = b"
proof -
  have "mem_read (mem_write (\<lambda>_. 0) 0 (h @ b)) 0 (9 + length b) = h @ b"
    using assms by (simp add: byte_simps)
  then show ?thesis using assms by (simp add: payload_def pk_msg_def mem_read_add)
qed

lemma rest_msg [packet_simps]: "length h = 9 \<Longrightarrow> rest (pk_msg h b p) = b"
  using payload_msg [of h b p] by (simp add: rest_def payload_def packet_simps)

lemma mem_write_inside:
  "off + length b \<le> length a \<Longrightarrow>
     mem_write (mem_write m 0 a) off b = mem_write m 0 (take off a @ b @ drop (off + length b) a)"
  by (rule ext) (auto simp: mem_write_def nth_append)

lemma Dpb_reset_msg [packet_simps]: "Dpb_reset p = pk_msg (replicate 9 0) [] p"
proof -
  have "mem_write (\<lambda>_. 0) 0 (replicate 9 0) = (\<lambda>_. 0)"
    by (rule ext) (simp add: mem_write_def)
  then show ?thesis by (simp only: Dpb_reset_def pk_msg_def append_Nil2) simp
qed

lemma Dpb_writeHeader_msg [packet_simps]:
  assumes "length h = 9" and "0 \<le> pos" and "pos + int (length bs) \<le> 9" and "9 \<le> N"
    and "0 < pos \<or> pos + int (length bs) < 9"
  shows "Dpb_writeHeader N bs pos (pk_msg h b p) =
     Some (pk_msg (take (nat pos) h @ bs @ drop (nat pos + length bs) h) b p)"
proof -
  have "nat pos + length bs \<le> length h" using assms by linarith
  then show ?thesis
    using assms by (auto simp: Dpb_writeHeader_def pk_msg_def mem_write_inside)
qed

lemma Dpb_begin_msg [packet_simps]:
  "9 \<le> N \<Longrightarrow> Dpb_begin N cmd v sv p = Some (pk_msg ([0, 0] @ bytes_of_string ''BY'' @ [v, sv] @ le16 cmd @ [0]) [] p)"
  by (simp add: Dpb_begin_def packet_simps bytes_of_string_def le16_def Let_def numeral_eq_Suc)

lemma Dpb_end_msg [packet_simps]:
  assumes "length h = 9" and "9 \<le> N"
  shows "Dpb_end N (pk_msg h b p) =
     Some (pk_msg (le16 (word_of_int (7 + int (length b))) @ take 6 (drop 2 h) @ [0]) b p)"
  using assms by (simp add: Dpb_end_def packet_simps Let_def take_drop numeral_2_eq_2)

section \<open>Field sequences\<close>

text \<open>A message body is a sequence of fields. The interface \<open>packet_class\<close> is what a reader and
  a writer class promise together: a field that fits is appended in its encoding, and a
  field at the cursor is read back; message round trips follow for every such pair.\<close>

datatype field = FInt c_int | FShort c_short | FByte byte | FString "byte list" | FBinary "byte list"

datatype field_kind = KInt | KShort | KByte | KString | KBinary

fun kind_of :: "field \<Rightarrow> field_kind" where
  "kind_of (FInt _) = KInt"
| "kind_of (FShort _) = KShort"
| "kind_of (FByte _) = KByte"
| "kind_of (FString _) = KString"
| "kind_of (FBinary _) = KBinary"

fun field_ok :: "field \<Rightarrow> bool" where
  "field_ok (FString s) = (0 \<notin> set s)"
| "field_ok _ = True"

fun enc_field :: "(c_int \<Rightarrow> c_int) \<Rightarrow> (c_short \<Rightarrow> c_short) \<Rightarrow> field \<Rightarrow> byte list" where
  "enc_field o32 o16 (FInt w) = le32 (o32 w)"
| "enc_field o32 o16 (FShort w) = le16 (o16 w)"
| "enc_field o32 o16 (FByte b) = [b]"
| "enc_field o32 o16 (FString s) = le32 (o32 (word_of_int (int (length s) + 1))) @ s @ [0]"
| "enc_field o32 o16 (FBinary s) = le32 (o32 (word_of_int (int (length s)))) @ s"

fun write_fields :: "('f \<Rightarrow> 'p \<Rightarrow> (bool \<times> 'p) option) \<Rightarrow> 'f list \<Rightarrow> 'p \<Rightarrow> 'p option" where
  "write_fields wr [] p = Some p"
| "write_fields wr (f # fs) p = do { (_, p) \<leftarrow> wr f p; write_fields wr fs p }"

fun read_fields :: "('k \<Rightarrow> 'p \<Rightarrow> ('f \<times> 'p) option) \<Rightarrow> 'k list \<Rightarrow> 'p \<Rightarrow> ('f list \<times> 'p) option" where
  "read_fields rd [] p = Some ([], p)"
| "read_fields rd (k # ks) p =
     do { (f, p) \<leftarrow> rd k p; (fs, p) \<leftarrow> read_fields rd ks p; Some (f # fs, p) }"

fun Dout_field :: "int \<Rightarrow> field \<Rightarrow> 'a packet_scheme \<Rightarrow> (bool \<times> 'a packet_scheme) option" where
  "Dout_field N (FInt w) = Dout_WriteInt N w"
| "Dout_field N (FShort w) = Dout_WriteShort N w"
| "Dout_field N (FByte b) = Dout_WriteByte N b"
| "Dout_field N (FString s) = Dout_WriteString N s"
| "Dout_field N (FBinary s) = Dout_WriteBinary N s (int (length s))"

fun Din_field :: "int \<Rightarrow> field_kind \<Rightarrow> 'a packet_scheme \<Rightarrow> (field \<times> 'a packet_scheme) option" where
  "Din_field N KInt p = do { (w, p) \<leftarrow> Din_ReadInt N p; Some (FInt w, p) }"
| "Din_field N KShort p = do { (w, p) \<leftarrow> Din_ReadShort N p; Some (FShort w, p) }"
| "Din_field N KByte p = do { (b, p) \<leftarrow> Din_ReadByte N p; Some (FByte b, p) }"
| "Din_field N KString p = do { (s, p) \<leftarrow> Din_ReadString N p; Some (FString s, p) }"
| "Din_field N KBinary p = do { (_, s, p) \<leftarrow> Din_ReadBinary N N p; Some (FBinary s, p) }"

locale packet_class =
  fixes N :: int
    and wr :: "field \<Rightarrow> 'w packet_scheme \<Rightarrow> (bool \<times> 'w packet_scheme) option"
    and rd :: "field_kind \<Rightarrow> 'r packet_scheme \<Rightarrow> (field \<times> 'r packet_scheme) option"
    and enc :: "field \<Rightarrow> byte list"
  assumes wr_ok: "pk_wf N p \<Longrightarrow> field_ok f \<Longrightarrow> m_nPacketSize p + int (length (enc f)) \<le> N \<Longrightarrow>
      wr f p = Some (True, pk_append (enc f) p)"
    and rd_ok: "pk_wf N q \<Longrightarrow> m_nBufPos q \<le> m_nPacketSize q \<Longrightarrow> field_ok f \<Longrightarrow> rest q = enc f @ r \<Longrightarrow>
      \<exists>q'. rd (kind_of f) q = Some (f, q') \<and> rest q' = r \<and> pk_wf N q' \<and> m_nBufPos q' \<le> m_nPacketSize q'"
begin

lemma write_all:
  "pk_wf N p \<Longrightarrow> list_all field_ok fs \<Longrightarrow> m_nPacketSize p + int (length (concat (map enc fs))) \<le> N \<Longrightarrow>
     write_fields wr fs p = Some (pk_append (concat (map enc fs)) p)"
proof (induction fs arbitrary: p)
  case Nil
  then show ?case by (simp add: packet_simps)
next
  case (Cons f fs)
  have "wr f p = Some (True, pk_append (enc f) p)"
    using Cons.prems by (intro wr_ok) auto
  moreover have "pk_wf N (pk_append (enc f) p)"
    using Cons.prems by (intro pk_wf_append) auto
  then have "write_fields wr fs (pk_append (enc f) p)
      = Some (pk_append (concat (map enc fs)) (pk_append (enc f) p))"
    using Cons.prems by (intro Cons.IH) (auto simp: packet_simps)
  ultimately show ?case
    using Cons.prems by (simp add: pk_append_append pk_wf_def)
qed

lemma read_all:
  "pk_wf N q \<Longrightarrow> m_nBufPos q \<le> m_nPacketSize q \<Longrightarrow> list_all field_ok fs \<Longrightarrow>
     rest q = concat (map enc fs) @ r \<Longrightarrow>
     \<exists>q'. read_fields rd (map kind_of fs) q = Some (fs, q') \<and> rest q' = r"
proof (induction fs arbitrary: q)
  case Nil
  then show ?case by simp
next
  case (Cons f fs)
  obtain q' where q': "rd (kind_of f) q = Some (f, q')" "rest q' = concat (map enc fs) @ r"
    "pk_wf N q'" "m_nBufPos q' \<le> m_nPacketSize q'"
    using rd_ok [of q f "concat (map enc fs) @ r"] Cons.prems by auto
  then show ?case using Cons.IH [of q'] Cons.prems by auto
qed

end

section \<open>The reader and writer of DataPacketBase\<close>

lemma c_string_ok:
  assumes "mem_read m (nat off) n = s @ 0 # r" and "0 \<notin> set s" and "0 \<le> off" and "off + int n \<le> N"
  shows "c_string N m off = Some s"
proof -
  have n: "length s < n"
    using arg_cong [OF assms(1), of length] by simp
  define k where "k = nat (N - off) - n"
  have "nat (N - off) = n + k" using assms(4) by (simp add: k_def)
  then have eq: "mem_read m (nat off) (nat (N - off)) = s @ 0 # r @ mem_read m (nat off + n) k"
    using assms(1) by (simp add: mem_read_add)
  have "takeWhile (\<lambda>b. b \<noteq> 0) (s @ 0 # r @ mem_read m (nat off + n) k) = s"
    using assms(2) by (subst takeWhile_append2) auto
  with eq assms(3,4) n show ?thesis
    by (simp add: c_string_def Let_def)
qed

lemma Dpb_readpoint_string:
  assumes wf: "pk_wf N p" and le: "m_nBufPos p \<le> m_nPacketSize p"
    and r: "rest p = (s @ [0]) @ r" and s: "0 \<notin> set s" and n: "n = int (length s) + 1"
  shows "\<exists>q. Dpb_readpoint n p = Some (Some (m_nBufPos p), q) \<and>
     c_string N (m_strBuf q) (m_nBufPos p) = Some s \<and> rest q = r \<and> pk_wf N q \<and>
     m_nBufPos q \<le> m_nPacketSize q"
proof -
  let ?q = "p\<lparr>m_nBufPos := m_nBufPos p + n\<rparr>"
  have n': "n = int (length (s @ [0]))" using n by simp
  note ok = Dpb_Read_ok [OF wf le r n']
  have str: "c_string N (m_strBuf p) (m_nBufPos p) = Some s"
    using r s wf le by (intro c_string_ok [where n = "nat (m_nPacketSize p - m_nBufPos p)" and r = r])
      (auto simp: rest_def pk_wf_def)
  have "Dpb_readpoint n p = Some (Some (m_nBufPos p), ?q)"
    using ok(4) wf n by (simp add: Dpb_readpoint_def pk_wf_def add.commute)
  with str ok(2,3,4) show ?thesis by auto
qed

lemma rest_bound: "pk_wf N p \<Longrightarrow> rest p = bs @ r \<Longrightarrow> length bs \<le> 100000"
  using length_rest [of N p] by (auto simp: pk_wf_def)

text \<open>The length prefix of a string or of a binary block, in either byte order.\<close>

lemma length_prefix:
  assumes "0 \<le> n" "n \<le> 100001"
  shows "sint (word_of_int n :: c_int) = n" "(word_of_int n :: c_int) \<noteq> -1"
  using assms word_of_int_eq_minus_one [of n] by (simp_all add: int_min_def int_max_def)

lemma Din_ReadInt_ok:
  assumes "pk_wf N p" "m_nBufPos p \<le> m_nPacketSize p" "rest p = le32 w @ r"
  shows "\<exists>q. Din_ReadInt N p = Some (w, q) \<and> rest q = r \<and> pk_wf N q \<and> m_nBufPos q \<le> m_nPacketSize q"
  using Dpb_Read_ok [OF assms, of 4] by (simp add: Din_ReadInt_def)

lemma Din_ReadString_ok:
  assumes wf: "pk_wf N p" "m_nBufPos p \<le> m_nPacketSize p" and s: "0 \<notin> set s"
    and r: "rest p = enc_field id id (FString s) @ r"
  shows "\<exists>q. Din_ReadString N p = Some (s, q) \<and> rest q = r \<and> pk_wf N q \<and> m_nBufPos q \<le> m_nPacketSize q"
proof -
  have len: "int (length s) + 1 \<le> 100001" using rest_bound [OF wf(1) r] by simp
  obtain q where q: "Din_ReadInt N p = Some (word_of_int (int (length s) + 1), q)"
      "rest q = (s @ [0]) @ r" "pk_wf N q" "m_nBufPos q \<le> m_nPacketSize q"
    using Din_ReadInt_ok [OF wf, of "word_of_int (int (length s) + 1)" "(s @ [0]) @ r"] r by auto
  have w: "sint (word_of_int (int (length s) + 1) :: c_int) = int (length s) + 1"
    "(word_of_int (int (length s) + 1) :: c_int) \<noteq> -1"
    using length_prefix [of "int (length s) + 1"] len by simp_all
  show ?thesis
    using Dpb_readpoint_string [OF q(3,4,2) s refl] q(1) w
    by (auto simp: Din_ReadString_def Din_ReadChar_def simp del: of_int_add)
qed

lemma Din_ReadBinary_ok:
  assumes wf: "pk_wf N p" "m_nBufPos p \<le> m_nPacketSize p" and r: "rest p = enc_field id id (FBinary s) @ r"
    and max: "int (length s) \<le> nMax"
  shows "\<exists>q. Din_ReadBinary N nMax p = Some (int (length s), s, q) \<and> rest q = r \<and> pk_wf N q \<and>
     m_nBufPos q \<le> m_nPacketSize q"
proof -
  have len: "int (length s) \<le> 100001" using rest_bound [OF wf(1) r] by simp
  obtain q where q: "Din_ReadInt N p = Some (word_of_int (int (length s)), q)"
      "rest q = s @ r" "pk_wf N q" "m_nBufPos q \<le> m_nPacketSize q"
    using Din_ReadInt_ok [OF wf, of "word_of_int (int (length s))" "s @ r"] r by auto
  note w = length_prefix [of "int (length s)", OF of_nat_0_le_iff len]
  show ?thesis
    using Dpb_Read_ok [OF q(3,4,2) refl] q(1) w max
    by (auto simp: Din_ReadBinary_def)
qed

lemma Dout_WriteString_ok:
  assumes "pk_wf N p" and "m_nPacketSize p + int (length s) + 5 \<le> N"
  shows "Dout_WriteString N s p = Some (True, pk_append (enc_field id id (FString s)) p)"
proof -
  let ?p1 = "pk_append (le32 (word_of_int (int (length s) + 1))) p"
  have 1: "Dout_WriteInt N (word_of_int (int (length s) + 1)) p = Some (True, ?p1)"
    unfolding Dout_WriteInt_def using assms by (intro Dpb_Write_ok) auto
  have 2: "pk_wf N ?p1" using assms by (intro pk_wf_append) auto
  have 3: "Dpb_Write N s (int (length s)) ?p1 = Some (True, pk_append s ?p1)"
    using assms 2 by (intro Dpb_Write_ok) (auto simp: packet_simps)
  have 4: "Dpb_writezero N (pk_append s ?p1) = Some (True, pk_append [0] (pk_append s ?p1))"
    using assms 2 by (intro Dpb_writezero_ok pk_wf_append) (auto simp: packet_simps)
  show ?thesis
    using assms 1 3 4 by (cases "s = []")
      (simp_all add: Dout_WriteString_def Let_def packet_simps pk_wf_def del: of_int_add)
qed

lemma Dout_WriteBinary_ok:
  assumes "pk_wf N p" and "m_nPacketSize p + int (length s) + 4 \<le> N"
  shows "Dout_WriteBinary N s (int (length s)) p = Some (True, pk_append (enc_field id id (FBinary s)) p)"
proof -
  let ?p1 = "pk_append (le32 (word_of_int (int (length s)))) p"
  have 1: "Dout_WriteInt N (word_of_int (int (length s))) p = Some (True, ?p1)"
    unfolding Dout_WriteInt_def using assms by (intro Dpb_Write_ok) auto
  have 2: "pk_wf N ?p1" using assms by (intro pk_wf_append) auto
  have 3: "Dpb_Write N s (int (length s)) ?p1 = Some (True, pk_append s ?p1)"
    using assms 2 by (intro Dpb_Write_ok) (auto simp: packet_simps)
  show ?thesis
    using assms 1 3 by (simp add: Dout_WriteBinary_def packet_simps pk_wf_def)
qed

interpretation dpk: packet_class N "Dout_field N" "Din_field N" "enc_field id id" for N
proof unfold_locales
  fix p :: "'a packet_scheme" and f
  assume "pk_wf N p" "field_ok f" "m_nPacketSize p + int (length (enc_field id id f)) \<le> N"
  then show "Dout_field N f p = Some (True, pk_append (enc_field id id f) p)"
    using Dout_WriteString_ok [of N p] Dout_WriteBinary_ok [of N p]
    by (cases f) (simp_all add: Dout_WriteInt_def Dout_WriteShort_def Dout_WriteByte_def Dpb_Write_ok)
next
  fix q :: "'b packet_scheme" and f r
  assume wf: "pk_wf N q" "m_nBufPos q \<le> m_nPacketSize q" and ok: "field_ok f"
    and r: "rest q = enc_field id id f @ r"
  show "\<exists>q'. Din_field N (kind_of f) q = Some (f, q') \<and> rest q' = r \<and> pk_wf N q' \<and> m_nBufPos q' \<le> m_nPacketSize q'"
  proof (cases f)
    case (FInt w)
    then show ?thesis using Din_ReadInt_ok [OF wf, of w r] r by auto
  next
    case (FShort w)
    then show ?thesis using Dpb_Read_ok [OF wf, of "le16 w" r 2] r by (simp add: Din_ReadShort_def)
  next
    case (FByte b)
    then show ?thesis using Dpb_Read_ok [OF wf, of "[b]" r 1] r by (simp add: Din_ReadByte_def)
  next
    case (FString s)
    then show ?thesis using Din_ReadString_ok [OF wf, of s r] r ok by auto
  next
    case (FBinary s)
    have "int (length s) \<le> N"
      using length_rest [OF wf(1)] wf r FBinary by (auto simp: pk_wf_def)
    then show ?thesis using Din_ReadBinary_ok [OF wf, of s r N] r FBinary by auto
  qed
qed

section \<open>Messages are always built\<close>

text \<open>Writing into a started message never fails badly: a field that does not fit is left out.\<close>

lemma Dpb_Write_msg:
  assumes "length h = 9" "9 + int (length b) \<le> N" "N \<le> 100000" "length bs \<le> 1073741823" "n = int (length bs)"
  shows "\<exists>r b'. Dpb_Write N bs n (pk_msg h b p) = Some (r, pk_msg h b' p) \<and> 9 + int (length b') \<le> N"
proof (cases "9 + int (length b) + int (length bs) \<le> N")
  case True
  then show ?thesis
    using Dpb_Write_ok [OF pk_wf_msg [of b N h p], of bs n] assms by (auto simp: packet_simps intro!: exI [of _ "b @ bs"])
next
  case False
  then show ?thesis
    using Dpb_Write_full [OF pk_wf_msg [of b N h p], of n bs] assms by (auto simp: packet_simps)
qed

lemma Dpb_writezero_msg:
  assumes "length h = 9" "9 + int (length b) \<le> N" "N \<le> 100000"
  shows "\<exists>r b'. Dpb_writezero N (pk_msg h b p) = Some (r, pk_msg h b' p) \<and> 9 + int (length b') \<le> N"
proof (cases "9 + int (length b) + 1 \<le> N")
  case True
  then show ?thesis
    using Dpb_writezero_ok [OF pk_wf_msg [of b N h p]] assms by (auto simp: packet_simps intro!: exI [of _ "b @ [0]"])
next
  case False
  then have "c_add (9 + int (length b)) 1 = Some (9 + int (length b) + 1)" using assms by (intro c_add_small) auto
  with False show ?thesis using assms(2) by (auto simp: Dpb_writezero_def packet_simps)
qed

fun field_small :: "field \<Rightarrow> bool" where
  "field_small (FString s) \<longleftrightarrow> length s \<le> 1073741823"
| "field_small (FBinary s) \<longleftrightarrow> length s \<le> 1073741823"
| "field_small _ \<longleftrightarrow> True"

lemma prefixed_write_msg:
  assumes "length h = 9" "9 + int (length b) \<le> N" "N \<le> 100000" "length s \<le> 1073741823"
  shows "\<exists>r b'. do { (_, p) \<leftarrow> Dpb_Write N (le32 w) 4 (pk_msg h b p);
       if 0 < int (length s) then do {
         (ok, p) \<leftarrow> Dpb_Write N s (int (length s)) p; if ok then Dpb_writezero N p else Some (False, p) }
       else Dpb_writezero N p } = Some (r, pk_msg h b' p) \<and> 9 + int (length b') \<le> N"
    and "\<exists>r b'. do { (_, p) \<leftarrow> Dpb_Write N (le32 w) 4 (pk_msg h b p); Dpb_Write N s (int (length s)) p } = Some (r, pk_msg h b' p) \<and>
       9 + int (length b') \<le> N"
proof -
  note W = Dpb_Write_msg [OF assms(1) _ assms(3)] and Z = Dpb_writezero_msg [OF assms(1) _ assms(3)]
  have "\<exists>r b'. Dpb_Write N (le32 w) 4 (pk_msg h b p) = Some (r, pk_msg h b' p) \<and> 9 + int (length b') \<le> N"
    by (rule W [OF assms(2)]) simp_all
  then obtain r b1 where b1: "Dpb_Write N (le32 w) 4 (pk_msg h b p) = Some (r, pk_msg h b1 p)" "9 + int (length b1) \<le> N" by blast
  obtain r2 b2 where b2: "Dpb_Write N s (int (length s)) (pk_msg h b1 p) = Some (r2, pk_msg h b2 p)" "9 + int (length b2) \<le> N"
    using W [OF b1(2) assms(4) refl] by blast
  show "\<exists>r b'. do { (_, p) \<leftarrow> Dpb_Write N (le32 w) 4 (pk_msg h b p);
       if 0 < int (length s) then do {
         (ok, p) \<leftarrow> Dpb_Write N s (int (length s)) p; if ok then Dpb_writezero N p else Some (False, p) }
       else Dpb_writezero N p } = Some (r, pk_msg h b' p) \<and> 9 + int (length b') \<le> N"
  proof (cases "0 < int (length s)")
    case True
    then show ?thesis using Z [OF b2(2)] b1(1) b2 by (cases r2) auto
  next
    case False
    then show ?thesis using Z [OF b1(2)] b1(1) by auto
  qed
  show "\<exists>r b'. do { (_, p) \<leftarrow> Dpb_Write N (le32 w) 4 (pk_msg h b p); Dpb_Write N s (int (length s)) p } = Some (r, pk_msg h b' p) \<and>
       9 + int (length b') \<le> N"
    using b1(1) b2 by auto
qed

lemma Dout_field_msg:
  assumes "length h = 9" "9 + int (length b) \<le> N" "N \<le> 100000" "field_small f"
  shows "\<exists>r b'. Dout_field N f (pk_msg h b p) = Some (r, pk_msg h b' p) \<and> 9 + int (length b') \<le> N"
proof (cases f)
  case (FString s)
  then show ?thesis using prefixed_write_msg(1) [OF assms(1-3), of s] assms(4) by (simp add: Dout_WriteString_def Dout_WriteInt_def)
next
  case (FBinary s)
  then show ?thesis using prefixed_write_msg(2) [OF assms(1-3), of s] assms(4) by (simp add: Dout_WriteBinary_def Dout_WriteInt_def)
qed (simp_all add: Dout_WriteInt_def Dout_WriteShort_def Dout_WriteByte_def Dpb_Write_msg [OF assms(1-3)])

lemma write_fields_msg:
  assumes "\<And>f b. f \<in> set fs \<Longrightarrow> 9 + int (length b) \<le> N \<Longrightarrow>
      \<exists>r b'. wr f (pk_msg h b p) = Some (r, pk_msg h b' p) \<and> 9 + int (length b') \<le> N"
    and "9 + int (length b) \<le> N"
  shows "\<exists>b'. write_fields wr fs (pk_msg h b p) = Some (pk_msg h b' p) \<and> 9 + int (length b') \<le> N"
  using assms
proof (induction fs arbitrary: b)
  case (Cons f fs)
  obtain r b1 where b1: "wr f (pk_msg h b p) = Some (r, pk_msg h b1 p)" "9 + int (length b1) \<le> N"
    using Cons.prems(1) [of f b] Cons.prems(2) by auto
  have "\<exists>b'. write_fields wr fs (pk_msg h b1 p) = Some (pk_msg h b' p) \<and> 9 + int (length b') \<le> N"
    by (rule Cons.IH [OF Cons.prems(1) b1(2)]) auto
  then show ?case using b1(1) by simp
qed auto

end
