(* ===== verification/Packet.thy ===== *)
theory Packet
  imports DataPacket
begin

text \<open>
  \<open>Server/Packet.h\<close> and \<open>Server/Packet.cpp\<close>: the packets exchanged with the hall servers.
  \<open>PacketBase\<close> repeats the code of the \<open>DataPacketBase\<close> template with a buffer of
  \<open>ICHAT_TCP_DEFAULT_BUFFER\<close> bytes, except that multi-byte fields travel in network order; its members are
  prefixed \<open>Pb_\<close>, those of \<open>InputPacket\<close> \<open>In_\<close> and those of \<open>OutputPacket\<close> \<open>Out_\<close>. The body of
  a client packet is enciphered by a substitution table and protected by a checksum
  (\<open>EncryptBuffer\<close>, \<open>CrevasseBuffer\<close>).
\<close>

section \<open>PacketBase\<close>

abbreviation PACKET_BUFFER_SIZE :: int where "PACKET_BUFFER_SIZE \<equiv> 8192"

definition Pb_reset :: "'a packet_scheme \<Rightarrow> 'a packet_scheme" where
  "Pb_reset = Dpb_reset"

definition Pb_copy :: "byte list \<Rightarrow> int \<Rightarrow> 'a packet_scheme \<Rightarrow> (bool \<times> 'a packet_scheme) option" where
  "Pb_copy = Dpb_copy PACKET_BUFFER_SIZE"

definition Pb_readHeader :: "int \<Rightarrow> int \<Rightarrow> 'a packet_scheme \<Rightarrow> byte list option" where
  "Pb_readHeader = Dpb_readHeader PACKET_BUFFER_SIZE"

definition Pb_writeHeader :: "byte list \<Rightarrow> int \<Rightarrow> 'a packet_scheme \<Rightarrow> 'a packet_scheme option" where
  "Pb_writeHeader = Dpb_writeHeader PACKET_BUFFER_SIZE"

definition Pb_begin :: "c_short \<Rightarrow> byte \<Rightarrow> byte \<Rightarrow> 'a packet_scheme \<Rightarrow> 'a packet_scheme option" where
  "Pb_begin nCmdType cVersion cSubVersion p =
     do {
       let p = Pb_reset p;
       let cmd = htons nCmdType;
       p \<leftarrow> Pb_writeHeader (bytes_of_string ''BY'') 2 p;
       p \<leftarrow> Pb_writeHeader [cVersion] 4 p;
       p \<leftarrow> Pb_writeHeader [cSubVersion] 5 p;
       Pb_writeHeader (le16 cmd) 6 p
     }"

definition Pb_SetBegin :: "c_short \<Rightarrow> 'a packet_scheme \<Rightarrow> 'a packet_scheme option" where
  "Pb_SetBegin nCmdType p = (let cmd = htons nCmdType in Pb_writeHeader (le16 cmd) 6 p)"

definition Pb_GetCmdType :: "'a packet_scheme \<Rightarrow> c_short option" where
  "Pb_GetCmdType p = do { bs \<leftarrow> Pb_readHeader 2 6 p; let nCmdType = of_le16 bs; Some (ntohs nCmdType) }"

definition Pb_GetVersion :: "'a packet_scheme \<Rightarrow> byte option" where
  "Pb_GetVersion p = do { bs \<leftarrow> Pb_readHeader 1 4 p; Some (hd bs) }"

definition Pb_GetSubVersion :: "'a packet_scheme \<Rightarrow> byte option" where
  "Pb_GetSubVersion p = do { bs \<leftarrow> Pb_readHeader 1 5 p; Some (hd bs) }"

definition Pb_GetBodyLength :: "'a packet_scheme \<Rightarrow> c_short option" where
  "Pb_GetBodyLength p = do { bs \<leftarrow> Pb_readHeader 2 0 p; let nLen = of_le16 bs; Some (ntohs nLen) }"

definition Pb_GetcbCheckCode :: "'a packet_scheme \<Rightarrow> byte option" where
  "Pb_GetcbCheckCode p = do { bs \<leftarrow> Pb_readHeader 1 8 p; Some (hd bs) }"

definition Pb_end :: "'a packet_scheme \<Rightarrow> 'a packet_scheme option" where
  "Pb_end p =
     do {
       let nBody = (word_of_int (m_nPacketSize p - 2) :: c_short);
       let len = htons nBody;
       p \<leftarrow> Pb_writeHeader (le16 len) 0 p;
       Pb_writeHeader [0] 8 p
     }"

definition Pb_oldend :: "'a packet_scheme \<Rightarrow> 'a packet_scheme option" where
  "Pb_oldend p =
     do {
       let nBody = (word_of_int (m_nPacketSize p - 2) :: c_short);
       let len = ntohs nBody;
       Pb_writeHeader (le16 len) 0 p
     }"

definition Pb_Read :: "int \<Rightarrow> 'a packet_scheme \<Rightarrow> (byte list option \<times> 'a packet_scheme) option" where
  "Pb_Read = Dpb_Read PACKET_BUFFER_SIZE"

definition Pb_ReadDel :: "int \<Rightarrow> 'a packet_scheme \<Rightarrow> (byte list option \<times> 'a packet_scheme) option" where
  "Pb_ReadDel nLen p =
     do {
       (r, p) \<leftarrow> Pb_Read nLen p;
       (case r of
          None \<Rightarrow> Some (None, p)
        | Some out \<Rightarrow>
            do {
              b \<leftarrow> mem_copy (m_strBuf p) (nat (m_nBufPos p - nLen)) (nat (m_nBufPos p))
                     (nat (PACKET_BUFFER_SIZE - m_nBufPos p));
              let p = p\<lparr>m_strBuf := b, m_nBufPos := m_nBufPos p - nLen, m_nPacketSize := m_nPacketSize p - nLen\<rparr>;
              p \<leftarrow> Pb_end p;
              Some (Some out, p)
            })
     }"

definition Pb_readundo :: "int \<Rightarrow> 'a packet_scheme \<Rightarrow> 'a packet_scheme" where
  "Pb_readundo = Dpb_readundo"

definition Pb_readpoint :: "int \<Rightarrow> 'a packet_scheme \<Rightarrow> (int option \<times> 'a packet_scheme) option" where
  "Pb_readpoint = Dpb_readpoint"

definition Pb_Write :: "byte list \<Rightarrow> int \<Rightarrow> 'a packet_scheme \<Rightarrow> (bool \<times> 'a packet_scheme) option" where
  "Pb_Write = Dpb_Write PACKET_BUFFER_SIZE"

definition Pb_Insert :: "byte list \<Rightarrow> int \<Rightarrow> 'a packet_scheme \<Rightarrow> (bool \<times> 'a packet_scheme) option" where
  "Pb_Insert pIn nLen p =
     do {
       e \<leftarrow> c_add nLen (m_nPacketSize p);
       if e > PACKET_BUFFER_SIZE then Some (False, p)
       else if nLen < 0 \<or> length pIn < nat nLen \<or> m_nPacketSize p < PACKET_HEADER_SIZE then None
       else do {
         b \<leftarrow> mem_copy (m_strBuf p) (nat (PACKET_HEADER_SIZE + nLen)) (nat PACKET_HEADER_SIZE)
                (nat (m_nPacketSize p - PACKET_HEADER_SIZE));
         let p = p\<lparr>m_strBuf := mem_write b (nat PACKET_HEADER_SIZE) (take (nat nLen) pIn), m_nPacketSize := e\<rparr>;
         p \<leftarrow> Pb_end p;
         Some (True, p)
       }
     }"

definition Pb_writezero :: "'a packet_scheme \<Rightarrow> (bool \<times> 'a packet_scheme) option" where
  "Pb_writezero = Dpb_writezero PACKET_BUFFER_SIZE"

section \<open>InputPacket\<close>

definition In_ReadInt :: "'a packet_scheme \<Rightarrow> (c_int \<times> 'a packet_scheme) option" where
  "In_ReadInt p =
     do { (r, p) \<leftarrow> Pb_Read 4 p; Some (ntohl (case r of None \<Rightarrow> -1 | Some bs \<Rightarrow> of_le32 bs), p) }"

text \<open>\<open>unsigned long\<close> has eight bytes; \<open>ntohl\<close> keeps and swaps the low four.\<close>

definition In_ReadULong :: "'a packet_scheme \<Rightarrow> (64 word \<times> 'a packet_scheme) option" where
  "In_ReadULong p =
     do { (r, p) \<leftarrow> Pb_Read 8 p;
          Some (ucast (ntohl (case r of None \<Rightarrow> -1 | Some bs \<Rightarrow> of_le32 (take 4 bs))), p) }"

definition In_ReadIntDel :: "'a packet_scheme \<Rightarrow> (c_int \<times> 'a packet_scheme) option" where
  "In_ReadIntDel p =
     do { (r, p) \<leftarrow> Pb_ReadDel 4 p; Some (ntohl (case r of None \<Rightarrow> -1 | Some bs \<Rightarrow> of_le32 bs), p) }"

definition In_ReadShort :: "'a packet_scheme \<Rightarrow> (c_short \<times> 'a packet_scheme) option" where
  "In_ReadShort p =
     do { (r, p) \<leftarrow> Pb_Read 2 p; Some (ntohs (case r of None \<Rightarrow> -1 | Some bs \<Rightarrow> of_le16 bs), p) }"

definition In_ReadByte :: "'a packet_scheme \<Rightarrow> (byte \<times> 'a packet_scheme) option" where
  "In_ReadByte p =
     do { (r, p) \<leftarrow> Pb_Read 1 p; Some (case r of None \<Rightarrow> -1 | Some bs \<Rightarrow> hd bs, p) }"

definition In_ReadString_buf :: "int \<Rightarrow> 'a packet_scheme \<Rightarrow> (byte list option \<times> 'a packet_scheme) option" where
  "In_ReadString_buf nMaxLen p =
     do {
       (nLen, p) \<leftarrow> In_ReadInt p;
       if nLen = -1 then Some (None, p)
       else if sint nLen > nMaxLen then Some (None, Pb_readundo 2 p)
       else Pb_Read (sint nLen) p
     }"

definition In_ReadChar :: "'a packet_scheme \<Rightarrow> (int option \<times> 'a packet_scheme) option" where
  "In_ReadChar p =
     do {
       (nLen, p) \<leftarrow> In_ReadInt p;
       if nLen = -1 then Some (None, p) else Pb_readpoint (sint nLen) p
     }"

definition In_ReadString :: "'a packet_scheme \<Rightarrow> (byte list \<times> 'a packet_scheme) option" where
  "In_ReadString p =
     do {
       (q, p) \<leftarrow> In_ReadChar p;
       (case q of
          None \<Rightarrow> Some ([], p)
        | Some off \<Rightarrow> do { s \<leftarrow> c_string PACKET_BUFFER_SIZE (m_strBuf p) off; Some (s, p) })
     }"

definition In_ReadBinary :: "int \<Rightarrow> 'a packet_scheme \<Rightarrow> (int \<times> byte list \<times> 'a packet_scheme) option" where
  "In_ReadBinary nMaxLen p =
     do {
       (nLen, p) \<leftarrow> In_ReadInt p;
       if nLen = -1 then Some (-1, [], p)
       else if sint nLen > nMaxLen then Some (-1, [], Pb_readundo 4 p)
       else do {
         (r, p) \<leftarrow> Pb_Read (sint nLen) p;
         (case r of None \<Rightarrow> Some (0, [], p) | Some bs \<Rightarrow> Some (sint nLen, bs, p))
       }
     }"

definition In_Copy :: "byte list \<Rightarrow> int \<Rightarrow> 'a packet_scheme \<Rightarrow> (bool \<times> 'a packet_scheme) option" where
  "In_Copy pInBuf nLen p = Pb_copy pInBuf nLen p"

definition In_WriteBody :: "byte list \<Rightarrow> int \<Rightarrow> 'a packet_scheme \<Rightarrow> (bool \<times> 'a packet_scheme) option" where
  "In_WriteBody pIn nLen p = Pb_Write pIn nLen p"

section \<open>OutputPacket\<close>

definition Out_WriteInt :: "c_int \<Rightarrow> 'a packet_scheme \<Rightarrow> (bool \<times> 'a packet_scheme) option" where
  "Out_WriteInt nValue p = (let value = htonl nValue in Pb_Write (le32 value) 4 p)"

definition Out_WriteULong :: "64 word \<Rightarrow> 'a packet_scheme \<Rightarrow> (bool \<times> 'a packet_scheme) option" where
  "Out_WriteULong nValue p = (let value = htonl (ucast nValue) in Pb_Write (le32 value @ [0, 0, 0, 0]) 8 p)"

definition Out_WriteByte :: "byte \<Rightarrow> 'a packet_scheme \<Rightarrow> (bool \<times> 'a packet_scheme) option" where
  "Out_WriteByte nValue p = Pb_Write [nValue] 1 p"

definition Out_WriteShort :: "c_short \<Rightarrow> 'a packet_scheme \<Rightarrow> (bool \<times> 'a packet_scheme) option" where
  "Out_WriteShort nValue p = (let value = htons nValue in Pb_Write (le16 value) 2 p)"

definition Out_InsertInt :: "c_int \<Rightarrow> 'a packet_scheme \<Rightarrow> (bool \<times> 'a packet_scheme) option" where
  "Out_InsertInt nValue p = (let value = htonl nValue in Pb_Insert (le32 value) 4 p)"

definition Out_InsertByte :: "byte \<Rightarrow> 'a packet_scheme \<Rightarrow> (bool \<times> 'a packet_scheme) option" where
  "Out_InsertByte nValue p = Pb_Insert [nValue] 1 p"

definition Out_WriteString :: "byte list \<Rightarrow> 'a packet_scheme \<Rightarrow> (bool \<times> 'a packet_scheme) option" where
  "Out_WriteString s p =
     do {
       let nLen = int (length s);
       (_, p) \<leftarrow> Out_WriteInt (word_of_int (nLen + 1)) p;
       if nLen > 0 then do {
         (ok, p) \<leftarrow> Pb_Write s nLen p;
         if ok then Pb_writezero p else Some (False, p)
       }
       else Pb_writezero p
     }"

definition Out_WriteCString :: "byte list \<Rightarrow> 'a packet_scheme \<Rightarrow> (bool \<times> 'a packet_scheme) option" where
  "Out_WriteCString s p = Out_WriteString (takeWhile (\<lambda>b. b \<noteq> 0) s) p"

definition Out_WriteBinary :: "byte list \<Rightarrow> int \<Rightarrow> 'a packet_scheme \<Rightarrow> (bool \<times> 'a packet_scheme) option" where
  "Out_WriteBinary pBuf nLen p =
     do {
       (_, p) \<leftarrow> Out_WriteInt (word_of_int nLen) p;
       Pb_Write pBuf nLen p
     }"

definition Out_Begin :: "c_short \<Rightarrow> 'a output_packet_scheme \<Rightarrow> 'a output_packet_scheme option" where
  "Out_Begin nCommand p =
     do { p \<leftarrow> Pb_begin nCommand SERVER_PACKET_DEFAULT_VER SERVER_PACKET_DEFAULT_SUBVER p;
          Some (p\<lparr>m_isCheckCode := False\<rparr>) }"

definition Out_End :: "'a output_packet_scheme \<Rightarrow> 'a output_packet_scheme option" where
  "Out_End p = Pb_end (p\<lparr>m_isCheckCode := False\<rparr>)"

definition Out_oldEnd :: "'a output_packet_scheme \<Rightarrow> 'a output_packet_scheme option" where
  "Out_oldEnd p = Pb_oldend (p\<lparr>m_isCheckCode := False\<rparr>)"

definition Out_WritecbCheckCode :: "byte \<Rightarrow> 'a output_packet_scheme \<Rightarrow> 'a output_packet_scheme option" where
  "Out_WritecbCheckCode nValue p =
     do { p \<leftarrow> Pb_writeHeader [nValue] 8 p; Some (p\<lparr>m_isCheckCode := True\<rparr>) }"

section \<open>The cipher\<close>

definition m_RecvByteMap :: "byte list" where
  "m_RecvByteMap = [
    0x51, 0xA1, 0x9E, 0xB0, 0x1E, 0x83, 0x1C, 0x2D, 0xE9, 0x77, 0x3D, 0x13, 0x93, 0x10, 0x45, 0xFF,
    0x6D, 0xC9, 0x20, 0x2F, 0x1B, 0x82, 0x1A, 0x7D, 0xF5, 0xCF, 0x52, 0xA8, 0xD2, 0xA4, 0xB4, 0x0B,
    0x31, 0x97, 0x57, 0x19, 0x34, 0xDF, 0x5B, 0x41, 0x58, 0x49, 0xAA, 0x5F, 0x0A, 0xEF, 0x88, 0x01,
    0xDC, 0x95, 0xD4, 0xAF, 0x7B, 0xE3, 0x11, 0x8E, 0x9D, 0x16, 0x61, 0x8C, 0x84, 0x3C, 0x1F, 0x5A,
    0x02, 0x4F, 0x39, 0xFE, 0x04, 0x07, 0x5C, 0x8B, 0xEE, 0x66, 0x33, 0xC4, 0xC8, 0x59, 0xB5, 0x5D,
    0xC2, 0x6C, 0xF6, 0x4D, 0xFB, 0xAE, 0x4A, 0x4B, 0xF3, 0x35, 0x2C, 0xCA, 0x21, 0x78, 0x3B, 0x03,
    0xFD, 0x24, 0xBD, 0x25, 0x37, 0x29, 0xAC, 0x4E, 0xF9, 0x92, 0x3A, 0x32, 0x4C, 0xDA, 0x06, 0x5E,
    0x00, 0x94, 0x60, 0xEC, 0x17, 0x98, 0xD7, 0x3E, 0xCB, 0x6A, 0xA9, 0xD9, 0x9C, 0xBB, 0x08, 0x8F,
    0x40, 0xA0, 0x6F, 0x55, 0x67, 0x87, 0x54, 0x80, 0xB2, 0x36, 0x47, 0x22, 0x44, 0x63, 0x05, 0x6B,
    0xF0, 0x0F, 0xC7, 0x90, 0xC5, 0x65, 0xE2, 0x64, 0xFA, 0xD5, 0xDB, 0x12, 0x7A, 0x0E, 0xD8, 0x7E,
    0x99, 0xD1, 0xE8, 0xD6, 0x86, 0x27, 0xBF, 0xC1, 0x6E, 0xDE, 0x9A, 0x09, 0x0D, 0xAB, 0xE1, 0x91,
    0x56, 0xCD, 0xB3, 0x76, 0x0C, 0xC3, 0xD3, 0x9F, 0x42, 0xB6, 0x9B, 0xE5, 0x23, 0xA7, 0xAD, 0x18,
    0xC6, 0xF4, 0xB8, 0xBE, 0x15, 0x43, 0x70, 0xE0, 0xE7, 0xBC, 0xF1, 0xBA, 0xA5, 0xA6, 0x53, 0x75,
    0xE4, 0xEB, 0xE6, 0x85, 0x14, 0x48, 0xDD, 0x38, 0x2A, 0xCC, 0x7F, 0xB1, 0xC0, 0x71, 0x96, 0xF8,
    0x3F, 0x28, 0xF2, 0x69, 0x74, 0x68, 0xB7, 0xA3, 0x50, 0xD0, 0x79, 0x1D, 0xFC, 0xCE, 0x8A, 0x8D,
    0x2E, 0x62, 0x30, 0xEA, 0xED, 0x2B, 0x26, 0xB9, 0x81, 0x7C, 0x46, 0x89, 0x73, 0xA2, 0xF7, 0x72
  ]"

definition m_SendByteMap :: "byte list" where
  "m_SendByteMap = [
    0x70, 0x2F, 0x40, 0x5F, 0x44, 0x8E, 0x6E, 0x45, 0x7E, 0xAB, 0x2C, 0x1F, 0xB4, 0xAC, 0x9D, 0x91,
    0x0D, 0x36, 0x9B, 0x0B, 0xD4, 0xC4, 0x39, 0x74, 0xBF, 0x23, 0x16, 0x14, 0x06, 0xEB, 0x04, 0x3E,
    0x12, 0x5C, 0x8B, 0xBC, 0x61, 0x63, 0xF6, 0xA5, 0xE1, 0x65, 0xD8, 0xF5, 0x5A, 0x07, 0xF0, 0x13,
    0xF2, 0x20, 0x6B, 0x4A, 0x24, 0x59, 0x89, 0x64, 0xD7, 0x42, 0x6A, 0x5E, 0x3D, 0x0A, 0x77, 0xE0,
    0x80, 0x27, 0xB8, 0xC5, 0x8C, 0x0E, 0xFA, 0x8A, 0xD5, 0x29, 0x56, 0x57, 0x6C, 0x53, 0x67, 0x41,
    0xE8, 0x00, 0x1A, 0xCE, 0x86, 0x83, 0xB0, 0x22, 0x28, 0x4D, 0x3F, 0x26, 0x46, 0x4F, 0x6F, 0x2B,
    0x72, 0x3A, 0xF1, 0x8D, 0x97, 0x95, 0x49, 0x84, 0xE5, 0xE3, 0x79, 0x8F, 0x51, 0x10, 0xA8, 0x82,
    0xC6, 0xDD, 0xFF, 0xFC, 0xE4, 0xCF, 0xB3, 0x09, 0x5D, 0xEA, 0x9C, 0x34, 0xF9, 0x17, 0x9F, 0xDA,
    0x87, 0xF8, 0x15, 0x05, 0x3C, 0xD3, 0xA4, 0x85, 0x2E, 0xFB, 0xEE, 0x47, 0x3B, 0xEF, 0x37, 0x7F,
    0x93, 0xAF, 0x69, 0x0C, 0x71, 0x31, 0xDE, 0x21, 0x75, 0xA0, 0xAA, 0xBA, 0x7C, 0x38, 0x02, 0xB7,
    0x81, 0x01, 0xFD, 0xE7, 0x1D, 0xCC, 0xCD, 0xBD, 0x1B, 0x7A, 0x2A, 0xAD, 0x66, 0xBE, 0x55, 0x33,
    0x03, 0xDB, 0x88, 0xB2, 0x1E, 0x4E, 0xB9, 0xE6, 0xC2, 0xF7, 0xCB, 0x7D, 0xC9, 0x62, 0xC3, 0xA6,
    0xDC, 0xA7, 0x50, 0xB5, 0x4B, 0x94, 0xC0, 0x92, 0x4C, 0x11, 0x5B, 0x78, 0xD9, 0xB1, 0xED, 0x19,
    0xE9, 0xA1, 0x1C, 0xB6, 0x32, 0x99, 0xA3, 0x76, 0x9E, 0x7B, 0x6D, 0x9A, 0x30, 0xD6, 0xA9, 0x25,
    0xC7, 0xAE, 0x96, 0x35, 0xD0, 0xBB, 0xD2, 0xC8, 0xA2, 0x08, 0xF3, 0xD1, 0x73, 0xF4, 0x48, 0x2D,
    0x90, 0xCA, 0xE2, 0x58, 0xC1, 0x18, 0x52, 0xFE, 0xDF, 0x68, 0x98, 0x54, 0xEC, 0x60, 0x43, 0x0F
  ]"

definition recv_byte :: "byte \<Rightarrow> byte" where
  "recv_byte b = m_RecvByteMap ! unat b"

definition send_byte :: "byte \<Rightarrow> byte" where
  "send_byte b = m_SendByteMap ! unat b"

text \<open>The two loops; the index is checked against the packet buffer.\<close>

fun crevasse_loop :: "nat \<Rightarrow> nat \<Rightarrow> byte \<Rightarrow> memory \<Rightarrow> (byte \<times> memory) option" where
  "crevasse_loop 0 i cbCheckCode m = Some (cbCheckCode, m)"
| "crevasse_loop (Suc n) i cbCheckCode m =
     (if PACKET_BUFFER_SIZE \<le> PACKET_HEADER_SIZE + int i then None
      else let b = recv_byte (m (9 + i)) in crevasse_loop n (Suc i) (cbCheckCode + b) (m(9 + i := b)))"

definition In_CrevasseBuffer :: "'a packet_scheme \<Rightarrow> (int \<times> 'a packet_scheme) option" where
  "In_CrevasseBuffer p =
     do {
       len \<leftarrow> Pb_GetBodyLength p;
       let wDataSize = len - 9 + 2;
       cbCheckCode \<leftarrow> Pb_GetcbCheckCode p;
       (code, m) \<leftarrow> crevasse_loop (unat wDataSize) 0 cbCheckCode (m_strBuf p);
       let p = p\<lparr>m_strBuf := m\<rparr>;
       Some (if code \<noteq> 0 then -1 else uint wDataSize, p)
     }"

fun encrypt_loop :: "nat \<Rightarrow> nat \<Rightarrow> byte \<Rightarrow> memory \<Rightarrow> (byte \<times> memory) option" where
  "encrypt_loop 0 i cbCheckCode m = Some (cbCheckCode, m)"
| "encrypt_loop (Suc n) i cbCheckCode m =
     (if PACKET_BUFFER_SIZE \<le> PACKET_HEADER_SIZE + int i then None
      else encrypt_loop n (Suc i) (cbCheckCode + m (9 + i)) (m(9 + i := send_byte (m (9 + i)))))"

definition Out_EncryptBuffer :: "'a output_packet_scheme \<Rightarrow> (c_short \<times> 'a output_packet_scheme) option" where
  "Out_EncryptBuffer p =
     (if m_isCheckCode p then Some (0, p)
      else do {
        len \<leftarrow> Pb_GetBodyLength p;
        let wDataSize = len - 9 + 2;
        (cbCheckCode, m) \<leftarrow> encrypt_loop (unat wDataSize) 0 0 (m_strBuf p);
        p \<leftarrow> Out_WritecbCheckCode (NOT cbCheckCode + 1) (p\<lparr>m_strBuf := m\<rparr>);
        Some (wDataSize, p)
      })"

section \<open>Messages\<close>

text \<open>\<open>net_header\<close> is the nine-byte header of a message in network order.\<close>

definition net_header :: "c_short \<Rightarrow> c_short \<Rightarrow> byte \<Rightarrow> byte list" where
  "net_header len cmd check =
     le16 (htons len) @ bytes_of_string ''BY'' @ [SERVER_PACKET_DEFAULT_VER, SERVER_PACKET_DEFAULT_SUBVER] @
     le16 (htons cmd) @ [check]"

lemma length_net_header [simp]: "length (net_header len cmd check) = 9"
  by (simp add: net_header_def)

lemmas Pb_base = Pb_reset_def Pb_copy_def Pb_readHeader_def Pb_writeHeader_def Pb_Read_def
  Pb_readundo_def Pb_readpoint_def Pb_Write_def Pb_writezero_def

lemma ntohs_0 [simp]: "ntohs 0 = 0"
  by (simp add: ntohs_def le16_def)

lemma ntohl_minus_1 [simp]: "ntohl (-1) = -1"
  by (rule bit_word_eqI) (auto simp: ntohl_def le32_def bit_simps)

lemma Out_Begin_msg [packet_simps]:
  "Out_Begin cmd p = Some (pk_msg (net_header 0 cmd 0) [] (p\<lparr>m_isCheckCode := False\<rparr>))"
  by (simp add: Out_Begin_def Pb_begin_def Pb_base packet_simps net_header_def bytes_of_string_def le16_def
      Let_def numeral_eq_Suc) (simp add: pk_msg_def)

lemma net_header_parts [packet_simps]:
  "take 6 (drop 2 (net_header len cmd check)) =
     bytes_of_string ''BY'' @ [SERVER_PACKET_DEFAULT_VER, SERVER_PACKET_DEFAULT_SUBVER] @ le16 (htons cmd)"
  "take 8 (net_header len cmd check) =
     le16 (htons len) @ bytes_of_string ''BY'' @ [SERVER_PACKET_DEFAULT_VER, SERVER_PACKET_DEFAULT_SUBVER] @
     le16 (htons cmd)"
  by (simp_all add: net_header_def bytes_of_string_def le16_def)

lemma Out_End_msg [packet_simps]:
  "Out_End (pk_msg (net_header l cmd c) b p) =
     Some (pk_msg (net_header (word_of_int (7 + int (length b))) cmd 0) b (p\<lparr>m_isCheckCode := False\<rparr>))"
proof -
  have "(pk_msg (net_header l cmd c) b p)\<lparr>m_isCheckCode := False\<rparr> =
      pk_msg (net_header l cmd c) b (p\<lparr>m_isCheckCode := False\<rparr>)"
    by (simp add: pk_msg_def)
  then show ?thesis
    by (simp add: Out_End_def Pb_end_def Pb_base packet_simps Let_def)
      (simp add: net_header_def bytes_of_string_def le16_def numeral_eq_Suc)
qed

lemma net_header_read [packet_simps]:
  "mem_read (mem_write m 0 (net_header len cmd c @ b)) 0 2 = le16 (htons len)"
  "mem_read (mem_write m 0 (net_header len cmd c @ b)) 6 2 = le16 (htons cmd)"
  "mem_read (mem_write m 0 (net_header len cmd c @ b)) 8 (Suc 0) = [c]"
  by (simp_all add: mem_read_def mem_write_def net_header_def bytes_of_string_def le16_def
      upt_rec numeral_eq_Suc)

lemma net_header_get [packet_simps]:
  "Pb_GetCmdType (pk_msg (net_header len cmd c) b p) = Some cmd"
  "Pb_GetBodyLength (pk_msg (net_header len cmd c) b p) = Some len"
  "Pb_GetcbCheckCode (pk_msg (net_header len cmd c) b p) = Some c"
  by (simp_all add: Pb_GetCmdType_def Pb_GetBodyLength_def Pb_GetcbCheckCode_def Pb_base Dpb_readHeader_def
      packet_simps)

lemma Out_WritecbCheckCode_msg [packet_simps]:
  "Out_WritecbCheckCode v (pk_msg (net_header len cmd c) b p) =
     Some (pk_msg (net_header len cmd v) b (p\<lparr>m_isCheckCode := True\<rparr>))"
  by (simp add: Out_WritecbCheckCode_def Pb_base packet_simps)
    (simp add: net_header_def bytes_of_string_def le16_def pk_msg_def)

lemma In_Copy_msg [packet_simps]:
  assumes "length h = 9" and "9 + int (length b) \<le> PACKET_BUFFER_SIZE" and "n = 9 + int (length b)"
  shows "In_Copy (h @ b) n q = Some (True, pk_msg h b q)"
  using assms by (simp add: In_Copy_def Pb_base Dpb_copy_def Dpb_reset_def pk_msg_def Let_def nat_add_distrib)

section \<open>The reader and writer of PacketBase\<close>

fun Out_field :: "field \<Rightarrow> 'a packet_scheme \<Rightarrow> (bool \<times> 'a packet_scheme) option" where
  "Out_field (FInt w) = Out_WriteInt w"
| "Out_field (FShort w) = Out_WriteShort w"
| "Out_field (FByte b) = Out_WriteByte b"
| "Out_field (FString s) = Out_WriteString s"
| "Out_field (FBinary s) = Out_WriteBinary s (int (length s))"

fun In_field :: "field_kind \<Rightarrow> 'a packet_scheme \<Rightarrow> (field \<times> 'a packet_scheme) option" where
  "In_field KInt p = do { (w, p) \<leftarrow> In_ReadInt p; Some (FInt w, p) }"
| "In_field KShort p = do { (w, p) \<leftarrow> In_ReadShort p; Some (FShort w, p) }"
| "In_field KByte p = do { (b, p) \<leftarrow> In_ReadByte p; Some (FByte b, p) }"
| "In_field KString p = do { (s, p) \<leftarrow> In_ReadString p; Some (FString s, p) }"
| "In_field KBinary p = do { (_, s, p) \<leftarrow> In_ReadBinary PACKET_BUFFER_SIZE p; Some (FBinary s, p) }"

abbreviation enc_net :: "field \<Rightarrow> byte list" where "enc_net \<equiv> enc_field htonl htons"

lemma In_ReadInt_ok:
  assumes "pk_wf 8192 p" "m_nBufPos p \<le> m_nPacketSize p" "rest p = le32 (htonl w) @ r"
  shows "\<exists>q. In_ReadInt p = Some (w, q) \<and> rest q = r \<and> pk_wf 8192 q \<and> m_nBufPos q \<le> m_nPacketSize q"
  using Dpb_Read_ok [OF assms, of 4] by (simp add: In_ReadInt_def Pb_Read_def)

lemma In_ReadInt_short: "pk_wf 8192 p \<Longrightarrow> length (rest p) < 4 \<Longrightarrow> In_ReadInt p = Some (-1, p)"
  using Dpb_Read_short [of 8192 p 4] by (simp add: In_ReadInt_def Pb_Read_def)

lemma In_ReadString_ok:
  assumes wf: "pk_wf 8192 p" "m_nBufPos p \<le> m_nPacketSize p" and s: "0 \<notin> set s"
    and r: "rest p = enc_net (FString s) @ r"
  shows "\<exists>q. In_ReadString p = Some (s, q) \<and> rest q = r \<and> pk_wf 8192 q \<and> m_nBufPos q \<le> m_nPacketSize q"
proof -
  have len: "int (length s) + 1 \<le> 100001" using rest_bound [OF wf(1) r] by simp
  obtain q where q: "In_ReadInt p = Some (word_of_int (int (length s) + 1), q)"
      "rest q = (s @ [0]) @ r" "pk_wf 8192 q" "m_nBufPos q \<le> m_nPacketSize q"
    using In_ReadInt_ok [OF wf, of "word_of_int (int (length s) + 1)" "(s @ [0]) @ r"] r by auto
  have w: "sint (word_of_int (int (length s) + 1) :: c_int) = int (length s) + 1"
    "(word_of_int (int (length s) + 1) :: c_int) \<noteq> -1"
    using length_prefix [of "int (length s) + 1"] len by simp_all
  show ?thesis
    using Dpb_readpoint_string [OF q(3,4,2) s refl] q(1) w
    by (auto simp: In_ReadString_def In_ReadChar_def Pb_base simp del: of_int_add)
qed

lemma In_ReadBinary_ok:
  assumes wf: "pk_wf 8192 p" "m_nBufPos p \<le> m_nPacketSize p" and r: "rest p = enc_net (FBinary s) @ r"
    and max: "int (length s) \<le> nMax"
  shows "\<exists>q. In_ReadBinary nMax p = Some (int (length s), s, q) \<and> rest q = r \<and> pk_wf 8192 q \<and>
     m_nBufPos q \<le> m_nPacketSize q"
proof -
  have len: "int (length s) \<le> 100001" using rest_bound [OF wf(1) r] by simp
  obtain q where q: "In_ReadInt p = Some (word_of_int (int (length s)), q)"
      "rest q = s @ r" "pk_wf 8192 q" "m_nBufPos q \<le> m_nPacketSize q"
    using In_ReadInt_ok [OF wf, of "word_of_int (int (length s))" "s @ r"] r by auto
  note w = length_prefix [of "int (length s)", OF of_nat_0_le_iff len]
  show ?thesis
    using Dpb_Read_ok [OF q(3,4,2) refl] q(1) w max
    by (auto simp: In_ReadBinary_def Pb_base)
qed

text \<open>The string and block writers differ from those of \<open>DataOutputPacket\<close> in the order of the
  length prefix only.\<close>

lemma Out_WriteString_ok:
  assumes "pk_wf 8192 p" and "m_nPacketSize p + int (length s) + 5 \<le> 8192"
  shows "Out_WriteString s p = Some (True, pk_append (enc_net (FString s)) p)"
proof -
  let ?p1 = "pk_append (le32 (htonl (word_of_int (int (length s) + 1)))) p"
  have 1: "Out_WriteInt (word_of_int (int (length s) + 1)) p = Some (True, ?p1)"
    unfolding Out_WriteInt_def Pb_base Let_def using assms by (intro Dpb_Write_ok) auto
  have 2: "pk_wf 8192 ?p1" using assms by (intro pk_wf_append) auto
  have 3: "Dpb_Write 8192 s (int (length s)) ?p1 = Some (True, pk_append s ?p1)"
    using assms 2 by (intro Dpb_Write_ok) (auto simp: packet_simps)
  have 4: "Dpb_writezero 8192 (pk_append s ?p1) = Some (True, pk_append [0] (pk_append s ?p1))"
    using assms 2 by (intro Dpb_writezero_ok pk_wf_append) (auto simp: packet_simps)
  show ?thesis
    using assms 1 3 4 by (cases "s = []")
      (simp_all add: Out_WriteString_def Pb_base Let_def packet_simps pk_wf_def del: of_int_add)
qed

lemma Out_WriteBinary_ok:
  assumes "pk_wf 8192 p" and "m_nPacketSize p + int (length s) + 4 \<le> 8192"
  shows "Out_WriteBinary s (int (length s)) p = Some (True, pk_append (enc_net (FBinary s)) p)"
proof -
  let ?p1 = "pk_append (le32 (htonl (word_of_int (int (length s))))) p"
  have 1: "Out_WriteInt (word_of_int (int (length s))) p = Some (True, ?p1)"
    unfolding Out_WriteInt_def Pb_base Let_def using assms by (intro Dpb_Write_ok) auto
  have 2: "pk_wf 8192 ?p1" using assms by (intro pk_wf_append) auto
  have 3: "Dpb_Write 8192 s (int (length s)) ?p1 = Some (True, pk_append s ?p1)"
    using assms 2 by (intro Dpb_Write_ok) (auto simp: packet_simps)
  show ?thesis
    using assms 1 3 by (simp add: Out_WriteBinary_def Pb_base packet_simps pk_wf_def)
qed

interpretation pk: packet_class PACKET_BUFFER_SIZE Out_field In_field enc_net
proof unfold_locales
  fix p :: "'a packet_scheme" and f
  assume "pk_wf 8192 p" "field_ok f" "m_nPacketSize p + int (length (enc_net f)) \<le> 8192"
  then show "Out_field f p = Some (True, pk_append (enc_net f) p)"
    using Out_WriteString_ok [of p] Out_WriteBinary_ok [of p]
    by (cases f) (simp_all add: Out_WriteInt_def Out_WriteShort_def Out_WriteByte_def Pb_base Dpb_Write_ok Let_def)
next
  fix q :: "'b packet_scheme" and f r
  assume wf: "pk_wf 8192 q" "m_nBufPos q \<le> m_nPacketSize q" and ok: "field_ok f"
    and r: "rest q = enc_net f @ r"
  show "\<exists>q'. In_field (kind_of f) q = Some (f, q') \<and> rest q' = r \<and> pk_wf 8192 q' \<and> m_nBufPos q' \<le> m_nPacketSize q'"
  proof (cases f)
    case (FInt w)
    then show ?thesis using In_ReadInt_ok [OF wf, of w r] r by auto
  next
    case (FShort w)
    then show ?thesis using Dpb_Read_ok [OF wf, of "le16 (htons w)" r 2] r
      by (simp add: In_ReadShort_def Pb_base)
  next
    case (FByte b)
    then show ?thesis using Dpb_Read_ok [OF wf, of "[b]" r 1] r by (simp add: In_ReadByte_def Pb_base)
  next
    case (FString s)
    then show ?thesis using In_ReadString_ok [OF wf, of s r] r ok by auto
  next
    case (FBinary s)
    have "int (length s) \<le> 8192"
      using length_rest [OF wf(1)] wf r FBinary by (auto simp: pk_wf_def)
    then show ?thesis using In_ReadBinary_ok [OF wf, of s r 8192] r FBinary by auto
  qed
qed

section \<open>Encryption\<close>

lemma recv_send_table: "map recv_byte m_SendByteMap = map word_of_nat [0..<256]"
  by code_simp

lemma byte_table:
  assumes "map f t = map word_of_nat [0..<256]"
  shows "f (t ! unat (b :: byte)) = b"
proof -
  have len: "length t = 256" using arg_cong [OF assms, of length] by simp
  have lt: "unat b < 256" using unsigned_less [of b] by simp
  have "f (t ! unat b) = map f t ! unat b" using len lt by simp
  also have "\<dots> = b" unfolding assms using lt by simp
  finally show ?thesis .
qed

lemma recv_send [simp]: "recv_byte (send_byte b) = b"
  unfolding send_byte_def by (rule byte_table) (rule recv_send_table)

text \<open>On the finite set of bytes, a left inverse is a right inverse.\<close>

lemma recv_byte_eq_iff [simp]: "recv_byte a = recv_byte b \<longleftrightarrow> a = b"
proof -
  have "surj recv_byte" by (rule surjI [of _ send_byte]) simp
  then have "inj recv_byte" by (rule finite_UNIV_surj_inj [OF finite])
  then show ?thesis by (simp add: inj_eq)
qed

lemma mem_write_Cons: "mem_write m off (b # bs) = mem_write (m(off := b)) (Suc off) bs"
  by (rule ext) (auto simp: mem_write_def nth_Cons' Suc_le_eq)

lemma mem_read_upd_before: "i < off \<Longrightarrow> mem_read (m(i := b)) off n = mem_read m off n"
  by (simp add: mem_read_def)

lemma crevasse_loop_eq:
  "9 + int i + int n \<le> 8192 \<Longrightarrow>
     (let d = map recv_byte (mem_read m (9 + i) n) in
        crevasse_loop n i c m = Some (c + sum_list d, mem_write m (9 + i) d))"
  by (induction n arbitrary: i c m)
    (simp_all add: Let_def mem_read_Suc mem_write_Cons mem_read_upd_before add.assoc)

lemma encrypt_loop_eq:
  "9 + int i + int n \<le> 8192 \<Longrightarrow>
     (let d = mem_read m (9 + i) n in
        encrypt_loop n i c m = Some (c + sum_list d, mem_write m (9 + i) (map send_byte d)))"
  by (induction n arbitrary: i c m)
    (simp_all add: Let_def mem_read_Suc mem_write_Cons mem_read_upd_before add.assoc)

lemma body_write_msg:
  assumes "length h = 9" "length b' = length b"
  shows "(pk_msg h b p)\<lparr>m_strBuf := mem_write (m_strBuf (pk_msg h b p)) 9 b'\<rparr> = pk_msg h b' p"
  using assms by (simp add: pk_msg_def mem_write_inside)

lemma body_read_msg:
  "length h = 9 \<Longrightarrow> n = length b \<Longrightarrow> mem_read (m_strBuf (pk_msg h b p)) 9 n = b"
  using payload_msg [of h b p] by (simp add: payload_def packet_simps)

text \<open>The body length announced by a header counts seven header bytes.\<close>

lemma data_size:
  assumes "9 + length b \<le> 8192" and "L = word_of_int (7 + int (length b))"
  shows "(L :: c_short) - 7 = word_of_nat (length b)" and "unat (word_of_nat (length b) :: c_short) = length b"
    and "uint (word_of_nat (length b) :: c_short) = int (length b)"
  using assms by (simp_all add: unsigned_of_nat take_bit_nat_eq_self)

lemma Out_EncryptBuffer_msg:
  assumes "9 + length b \<le> 8192" and L: "L = word_of_int (7 + int (length b))"
  shows "Out_EncryptBuffer (pk_msg (net_header L cmd c) b (p\<lparr>m_isCheckCode := False\<rparr>)) =
     Some (word_of_nat (length b), pk_msg (net_header L cmd (- sum_list b)) (map send_byte b) (p\<lparr>m_isCheckCode := True\<rparr>))"
proof -
  let ?p = "pk_msg (net_header L cmd c) b (p\<lparr>m_isCheckCode := False\<rparr>)"
  have loop: "encrypt_loop (length b) 0 0 (m_strBuf ?p) =
      Some (sum_list b, mem_write (m_strBuf ?p) 9 (map send_byte b))"
    using encrypt_loop_eq [of 0 "length b" "m_strBuf ?p" 0] assms(1) by (simp add: body_read_msg Let_def)
  have flag: "m_isCheckCode ?p = False" by (simp add: pk_msg_def)
  have "NOT (sum_list b) + 1 = - sum_list b" by (simp add: not_eq_complement)
  moreover have "?p\<lparr>m_strBuf := mem_write (m_strBuf ?p) 9 (map send_byte b)\<rparr> =
      pk_msg (net_header L cmd c) (map send_byte b) (p\<lparr>m_isCheckCode := False\<rparr>)"
    by (rule body_write_msg) simp_all
  ultimately show ?thesis
    using loop flag data_size [OF assms]
    by (simp add: Out_EncryptBuffer_def net_header_get Out_WritecbCheckCode_msg Let_def)
qed

lemma In_CrevasseBuffer_msg:
  assumes "9 + length b \<le> 8192" and L: "L = word_of_int (7 + int (length b))"
  shows "In_CrevasseBuffer (pk_msg (net_header L cmd c) b p) =
     Some (if c + sum_list (map recv_byte b) \<noteq> 0 then -1 else int (length b),
           pk_msg (net_header L cmd c) (map recv_byte b) p)"
proof -
  let ?p = "pk_msg (net_header L cmd c) b p"
  have loop: "crevasse_loop (length b) 0 c (m_strBuf ?p) =
      Some (c + sum_list (map recv_byte b), mem_write (m_strBuf ?p) 9 (map recv_byte b))"
    using crevasse_loop_eq [of 0 "length b" "m_strBuf ?p" c] assms(1) by (simp add: body_read_msg Let_def)
  moreover have "?p\<lparr>m_strBuf := mem_write (m_strBuf ?p) 9 (map recv_byte b)\<rparr> =
      pk_msg (net_header L cmd c) (map recv_byte b) p"
    by (rule body_write_msg) simp_all
  ultimately show ?thesis
    using data_size [OF assms] by (simp add: In_CrevasseBuffer_def net_header_get Let_def)
qed

section \<open>Properties\<close>

text \<open>A message as the server builds it: \<open>Begin\<close>, the field writers, \<open>End\<close>.\<close>

definition build_message :: "c_short \<Rightarrow> field list \<Rightarrow> 'a output_packet_scheme \<Rightarrow> 'a output_packet_scheme option" where
  "build_message cmd fs p =
     do { p \<leftarrow> Out_Begin cmd p; p \<leftarrow> write_fields Out_field fs p; Out_End p }"

lemma build_message_eq:
  assumes "list_all field_ok fs" and "9 + length (concat (map enc_net fs)) \<le> 8192"
  shows "build_message cmd fs p =
     Some (pk_msg (net_header (word_of_int (7 + int (length (concat (map enc_net fs))))) cmd 0)
             (concat (map enc_net fs)) (p\<lparr>m_isCheckCode := False\<rparr>))"
proof -
  let ?b = "concat (map enc_net fs)" and ?p = "p\<lparr>m_isCheckCode := False\<rparr>"
  have "write_fields Out_field fs (pk_msg (net_header 0 cmd 0) [] ?p) =
      Some (pk_append ?b (pk_msg (net_header 0 cmd 0) [] ?p))"
    using assms by (intro pk.write_all) (auto simp: packet_simps)
  then show ?thesis
    unfolding build_message_def by (simp add: packet_simps del: of_int_add)
qed

text \<open>C25: a message written field by field, enciphered with \<open>EncryptBuffer\<close> and sent is accepted by
  \<open>Copy\<close> and \<open>CrevasseBuffer\<close> at the other end, carries the command it was begun with, and the
  field readers return the very fields that were written, leaving nothing unread.\<close>

theorem encrypted_message_round_trip:
  assumes "list_all field_ok fs" and "9 + length (concat (map enc_net fs)) \<le> 8192"
  shows "\<exists>p n p' q q' q''.
     build_message cmd fs p0 = Some p \<and> Out_EncryptBuffer p = Some (n, p') \<and>
     In_Copy (packet_bytes p') (m_nPacketSize p') q0 = Some (True, q) \<and>
     In_CrevasseBuffer q = Some (int (length (concat (map enc_net fs))), q') \<and>
     Pb_GetCmdType q' = Some cmd \<and>
     read_fields In_field (map kind_of fs) q' = Some (fs, q'') \<and> rest q'' = []"
proof -
  define b where "b = concat (map enc_net fs)"
  define L :: c_short where "L = word_of_int (7 + int (length b))"
  have len: "9 + length b \<le> 8192" "length (map send_byte b) = length b" using assms by (simp_all add: b_def)
  let ?p = "pk_msg (net_header L cmd 0) b (p0\<lparr>m_isCheckCode := False\<rparr>)"
  let ?p' = "pk_msg (net_header L cmd (- sum_list b)) (map send_byte b) (p0\<lparr>m_isCheckCode := True\<rparr>)"
  let ?q = "pk_msg (net_header L cmd (- sum_list b)) (map send_byte b) q0"
  let ?q' = "pk_msg (net_header L cmd (- sum_list b)) b q0"
  have build: "build_message cmd fs p0 = Some ?p"
    using build_message_eq [OF assms] by (simp add: b_def L_def)
  have enc: "Out_EncryptBuffer ?p = Some (word_of_nat (length b), ?p')"
    by (rule Out_EncryptBuffer_msg) (use len in \<open>simp_all add: L_def\<close>)
  have copy: "In_Copy (packet_bytes ?p') (m_nPacketSize ?p') q0 = Some (True, ?q)"
    using len by (simp add: packet_simps)
  have dec: "In_CrevasseBuffer ?q = Some (int (length b), ?q')"
    using In_CrevasseBuffer_msg [of "map send_byte b" L cmd "- sum_list b" q0] len
    by (simp add: L_def comp_def)
  have "\<exists>q''. read_fields In_field (map kind_of fs) ?q' = Some (fs, q'') \<and> rest q'' = []"
    using assms len by (intro pk.read_all) (auto simp: packet_simps b_def)
  with build enc copy dec show ?thesis
    by (simp add: packet_simps b_def)
qed

theorem encrypted_message_round_trip_witness:
  "\<exists>p n p' q q' q''.
     build_message 0x206 [FInt 1001, FShort 7, FString [104, 105]] output_packet0 = Some p \<and>
     Out_EncryptBuffer p = Some (n, p') \<and>
     In_Copy (packet_bytes p') (m_nPacketSize p') packet0 = Some (True, q) \<and>
     In_CrevasseBuffer q = Some (13, q') \<and> Pb_GetCmdType q' = Some 0x206 \<and>
     read_fields In_field [KInt, KShort, KString] q' = Some ([FInt 1001, FShort 7, FString [104, 105]], q'') \<and>
     rest q'' = []"
  using encrypted_message_round_trip [of "[FInt 1001, FShort 7, FString [104, 105]]" "0x206"
      output_packet0 packet0]
  by simp



text \<open>A string or block field whose length prefix is negative (and not \<open>-1\<close>) passes every guard of
  \<open>ReadBinary\<close> and reaches \<open>memcpy\<close> with a negative length: the call is undefined.\<close>

theorem ReadBinary_negative_length:
  assumes "pk_wf 8192 p" and "m_nBufPos p \<le> m_nPacketSize p" and "0 \<le> nMax"
    and "rest p = le32 (htonl w) @ r" and "w <s 0" and "w \<noteq> -1"
  shows "In_ReadBinary nMax p = None"
proof -
  obtain q where q: "In_ReadInt p = Some (w, q)" "pk_wf 8192 q" "m_nBufPos q \<le> m_nPacketSize q"
    using In_ReadInt_ok [OF assms(1,2,4)] by auto
  have "sint w < 0" using assms(5) by (simp add: word_sless_alt)
  then show ?thesis
    using q assms(3,6) Dpb_Read_negative [OF q(2,3), of "sint w"] sint_c_int_range [of w]
    by (simp add: In_ReadBinary_def Pb_base)
qed

theorem ReadBinary_negative_length_witness:
  "In_ReadBinary 4096 (pk_msg (net_header 11 0x203 0) (le32 (htonl (-2))) packet0) = None"
  by (rule ReadBinary_negative_length [where w = "-2" and r = "[]"]) (simp_all add: packet_simps word_sless_alt)

section \<open>Messages are always built\<close>

lemma Out_field_msg:
  assumes "length h = 9" "9 + int (length b) \<le> 8192" "field_small f"
  shows "\<exists>r b'. Out_field f (pk_msg h b p) = Some (r, pk_msg h b' p) \<and> 9 + int (length b') \<le> 8192"
proof -
  note D = Out_WriteString_def Out_WriteBinary_def Out_WriteInt_def Out_WriteShort_def Out_WriteByte_def Pb_Write_def Pb_writezero_def Let_def
  show ?thesis
  proof (cases f)
    case (FString s)
    show ?thesis unfolding FString Out_field.simps D
      by (rule prefixed_write_msg(1) [OF assms(1,2)]) (use assms(3) FString in simp_all)
  next
    case (FBinary s)
    show ?thesis unfolding FBinary Out_field.simps D
      by (rule prefixed_write_msg(2) [OF assms(1,2)]) (use assms(3) FBinary in simp_all)
  qed (simp_all only: Out_field.simps D, (rule Dpb_Write_msg [OF assms(1,2)]; simp)+)
qed

text \<open>A message is always built, whatever its fields: at worst it is cut short.\<close>

lemma build_message_total:
  assumes "list_all field_small fs"
  shows "\<exists>b. build_message cmd fs p =
     Some (pk_msg (net_header (word_of_int (7 + int (length b))) cmd 0) b (p\<lparr>m_isCheckCode := False\<rparr>)) \<and> 9 + int (length b) \<le> 8192"
proof -
  let ?h = "net_header 0 cmd 0" and ?p = "p\<lparr>m_isCheckCode := False\<rparr>"
  have "\<exists>b'. write_fields Out_field fs (pk_msg ?h [] ?p) = Some (pk_msg ?h b' ?p) \<and> 9 + int (length b') \<le> 8192"
  proof (rule write_fields_msg)
    fix f and b :: "byte list" assume f: "f \<in> set fs" and b: "9 + int (length b) \<le> 8192"
    show "\<exists>r b'. Out_field f (pk_msg ?h b ?p) = Some (r, pk_msg ?h b' ?p) \<and> 9 + int (length b') \<le> 8192"
      by (rule Out_field_msg [OF _ b]) (use assms f in \<open>simp_all add: list_all_iff\<close>)
  qed simp
  then obtain b where "write_fields Out_field fs (pk_msg ?h [] ?p) = Some (pk_msg ?h b ?p)" "9 + int (length b) \<le> 8192" by blast
  then show ?thesis unfolding build_message_def by (auto simp: packet_simps simp del: of_int_add)
qed

end
