(* ===== verification/IniParser.thy ===== *)
theory IniParser
  imports CStrings
begin

text \<open>
  \<open>Server/IniFile.h\<close>, \<open>Server/IniFile.cpp\<close>: the reader and writer of the configuration file. The object holds the content of the file with a
  terminating NUL, and a shadow of it in lower case in which names are searched. Pointers into the content and into the shadow are offsets,
  so \<open>MapToContent\<close> and \<open>MapToShadow\<close> keep them; the null pointer is \<^term>\<open>None\<close>. A function that searches returns an option in the option
  monad: the outer \<^term>\<open>None\<close> is a read outside the buffer or a search that does not end.
\<close>

section \<open>The file in memory\<close>

record IniFile =
  m_pszFilename :: "byte list option"
  m_pszContent :: "byte list option"
  m_pszShadow :: "byte list option"
  m_nSize :: nat
  m_bIsOpen :: bool

definition IniFile_new :: IniFile where
  "IniFile_new = \<lparr>m_pszFilename = None, m_pszContent = None, m_pszShadow = None, m_nSize = 0, m_bIsOpen = False\<rparr>"

definition lower :: "byte \<Rightarrow> byte" where
  "lower b = (if 65 \<le> b \<and> b \<le> 90 then b + 32 else b)"

definition IniFile_ToLower :: "byte list \<Rightarrow> byte list" where
  "IniFile_ToLower s = map lower s"

definition CloseFile :: "IniFile \<Rightarrow> IniFile" where
  "CloseFile ini = ini\<lparr>m_pszFilename := None, m_pszContent := None, m_pszShadow := None, m_nSize := 0, m_bIsOpen := False\<rparr>"

text \<open>\<open>fopen\<close> gives the content of the file of that name, \<open>seek_end\<close> and \<open>seek_set\<close> tell whether the two calls of \<open>fseek\<close> succeed. A buffer
  that was allocated and not filled has no content here: it is not read while the file is not open.\<close>

definition OpenFile :: "byte list option \<Rightarrow> (byte list \<Rightarrow> byte list option) \<Rightarrow> bool \<Rightarrow> bool \<Rightarrow> IniFile \<Rightarrow> int \<times> IniFile" where
  "OpenFile name fopen seek_end seek_set ini =
     (let ini = CloseFile ini in
      case name of
        None \<Rightarrow> (-1, ini)
      | Some name \<Rightarrow>
          let ini = ini\<lparr>m_pszFilename := Some name\<rparr> in
          (case fopen name of
             None \<Rightarrow> (-1, ini)
           | Some text \<Rightarrow>
               if \<not> seek_end \<or> \<not> seek_set then (-1, ini)
               else (0, ini\<lparr>m_nSize := length text, m_pszContent := Some (text @ [0]), m_pszShadow := Some (IniFile_ToLower (text @ [0])), m_bIsOpen := True\<rparr>)))"

section \<open>Searching\<close>

text \<open>\<open>strstr\<close> returns the offset of the first occurrence.\<close>

fun strstr :: "byte list \<Rightarrow> byte list \<Rightarrow> nat option" where
  "strstr [] pat = (if pat = [] then Some 0 else None)"
| "strstr (b # s) pat = (if take (length pat) (b # s) = pat then Some 0 else map_option Suc (strstr s pat))"

definition blank :: "byte \<Rightarrow> bool" where
  "blank b \<longleftrightarrow> b = 32 \<or> b = 9 \<or> b = 13 \<or> b = 10"

definition eol :: "byte \<Rightarrow> bool" where
  "eol b \<longleftrightarrow> b = 13 \<or> b = 10"

text \<open>A pointer into a string is the rest of the string; what follows the rest is its NUL.\<close>

partial_function (option) SearchMarchStr :: "byte list \<Rightarrow> byte list \<Rightarrow> nat option option" where
  "SearchMarchStr s pat =
     (case strstr s pat of
        None \<Rightarrow> Some None
      | Some j \<Rightarrow>
          let k = j + length pat in
          if 0 < j \<and> \<not> blank (s ! (j - 1)) then do { r \<leftarrow> SearchMarchStr (drop k s) pat; Some (map_option ((+) k) r) }
          else if k < length s \<and> (blank (s ! k) \<or> s ! k = 61) then Some (Some j)
          else do { r \<leftarrow> SearchMarchStr (drop k s) pat; Some (map_option ((+) k) r) })"

text \<open>From the offset \<open>p\<close> of the shadow; the result is an offset of the shadow.\<close>

definition LocateStr :: "byte list \<Rightarrow> byte list \<Rightarrow> nat \<Rightarrow> nat \<Rightarrow> nat option option" where
  "LocateStr pat shadow p q =
     (if q \<le> p then Some None
      else do {
        r \<leftarrow> SearchMarchStr (c_str (drop p shadow)) pat;
        Some (case r of None \<Rightarrow> None | Some j \<Rightarrow> if q < p + j + length pat then None else Some (p + j))
      })"

text \<open>\<open>for (; p < q; p++) if (stop *p) break;\<close>\<close>

function scan :: "(byte \<Rightarrow> bool) \<Rightarrow> byte list \<Rightarrow> nat \<Rightarrow> nat \<Rightarrow> nat option" where
  "scan stop buf p q =
     (if q \<le> p then Some p else if length buf \<le> p then None else if stop (buf ! p) then Some p else scan stop buf (Suc p) q)"
  by auto
termination by (relation "measure (\<lambda>(stop, buf, p, q). q - p)") auto

declare scan.simps [simp del]

definition char_at :: "byte list \<Rightarrow> nat \<Rightarrow> byte option" where
  "char_at buf p = (if p < length buf then Some (buf ! p) else None)"

text \<open>The end of a section: the first line whose first character that is not a space or a tab is an opening bracket, or the end of the string.\<close>

function section_end :: "byte list \<Rightarrow> bool \<Rightarrow> nat \<Rightarrow> nat \<Rightarrow> nat option" where
  "section_end buf bIsFirst p q =
     (if q \<le> p then Some p
      else if length buf \<le> p then None
      else
        let c = buf ! p in
        if bIsFirst \<and> c = 91 then Some p
        else if c = 0 then Some p
        else if eol c then section_end buf True (Suc p) q
        else if c \<noteq> 32 \<and> c \<noteq> 9 then section_end buf False (Suc p) q
        else section_end buf bIsFirst (Suc p) q)"
  by auto
termination by (relation "measure (\<lambda>(buf, first, p, q). q - p)") auto

declare section_end.simps [simp del]

definition LocateSection :: "byte list \<Rightarrow> IniFile \<Rightarrow> (nat \<times> nat) option option" where
  "LocateSection name ini =
     (case (m_pszContent ini, m_pszShadow ini) of
        (Some content, Some shadow) \<Rightarrow> do {
          let pat = IniFile_ToLower ([91] @ name @ [93]);
          r \<leftarrow> LocateStr pat shadow 0 (m_nSize ini);
          case r of
            None \<Rightarrow> Some None
          | Some p \<Rightarrow> do {
              b \<leftarrow> scan eol content (p + length pat) (m_nSize ini);
              b \<leftarrow> scan (\<lambda>c. \<not> eol c) content b (m_nSize ini);
              e \<leftarrow> section_end content True b (m_nSize ini + 1);
              Some (Some (b, e))
            }
        }
      | _ \<Rightarrow> Some None)"

partial_function (option) LocateKeyRange :: "byte list \<Rightarrow> nat \<Rightarrow> nat \<Rightarrow> IniFile \<Rightarrow> (nat \<times> nat) option option" where
  "LocateKeyRange key p q ini =
     (if q \<le> p then Some None
      else case (m_pszContent ini, m_pszShadow ini) of
        (Some content, Some shadow) \<Rightarrow> do {
          r \<leftarrow> LocateStr (IniFile_ToLower key) shadow p q;
          case r of
            None \<Rightarrow> Some None
          | Some b \<Rightarrow> do {
              e \<leftarrow> scan (\<lambda>c. c \<noteq> 32 \<and> c \<noteq> 9) content (b + length key) q;
              c \<leftarrow> char_at content e;
              if c \<noteq> 61 then LocateKeyRange key e q ini
              else do {
                e \<leftarrow> scan eol content (Suc e) q;
                e \<leftarrow> scan (\<lambda>c. \<not> eol c) content e q;
                Some (if b < e then Some (b, e) else None)
              }
            }
        }
      | _ \<Rightarrow> Some None)"

partial_function (option) LocateKeyValue :: "byte list \<Rightarrow> nat \<Rightarrow> nat \<Rightarrow> IniFile \<Rightarrow> (nat \<times> nat) option option" where
  "LocateKeyValue key p q ini =
     (if q \<le> p then Some None
      else case (m_pszContent ini, m_pszShadow ini) of
        (Some content, Some shadow) \<Rightarrow> do {
          r \<leftarrow> LocateStr (IniFile_ToLower key) shadow p q;
          case r of
            None \<Rightarrow> Some None
          | Some k \<Rightarrow> do {
              b \<leftarrow> scan (\<lambda>c. c \<noteq> 32 \<and> c \<noteq> 9) content (k + length key) q;
              c \<leftarrow> char_at content b;
              if c \<noteq> 61 then LocateKeyValue key b q ini
              else do {
                b \<leftarrow> scan (\<lambda>c. eol c \<or> c \<noteq> 9 \<and> c \<noteq> 32) content (Suc b) q;
                e \<leftarrow> scan (\<lambda>c. c = 9 \<or> eol c) content b q;
                Some (if b < e then Some (b, e) else None)
              }
            }
        }
      | _ \<Rightarrow> Some None)"

section \<open>Reading\<close>

text \<open>The result is the string left in the buffer of \<open>nSize\<close> bytes; the function returns its length, and zero when there is no value.\<close>

definition GetItemValue :: "byte list \<Rightarrow> byte list \<Rightarrow> nat \<Rightarrow> IniFile \<Rightarrow> byte list option" where
  "GetItemValue sec key nSize ini =
     (if \<not> m_bIsOpen ini \<or> nSize = 0 then Some []
      else do {
        r \<leftarrow> LocateSection sec ini;
        case r of
          None \<Rightarrow> Some []
        | Some (sb, se) \<Rightarrow> do {
            r \<leftarrow> LocateKeyValue key sb se ini;
            case r of
              None \<Rightarrow> Some []
            | Some (b, e) \<Rightarrow> do {
                content \<leftarrow> m_pszContent ini;
                let n = min (e - b) (nSize - 1);
                let s = take n (drop b content);
                if n = nSize - 1 then
                  (if n = 0 then None else if 127 < s ! (n - 1) then Some (butlast s) else Some s)
                else Some s
              }
          }
      })"

definition GetItemValue_default :: "byte list \<Rightarrow> byte list \<Rightarrow> nat \<Rightarrow> byte list \<Rightarrow> IniFile \<Rightarrow> byte list option" where
  "GetItemValue_default sec key nSize dflt ini =
     (if nSize = 0 then Some []
      else do { s \<leftarrow> GetItemValue sec key nSize ini; Some (if s = [] then take (nSize - 1) (c_str dflt) else s) })"

text \<open>The function returns whether there is a value.\<close>

definition GetItemValue_int :: "byte list \<Rightarrow> byte list \<Rightarrow> IniFile \<Rightarrow> c_int option option" where
  "GetItemValue_int sec key ini = do { s \<leftarrow> GetItemValue sec key 100 ini; Some (if s = [] then None else Some (atoi s)) }"

definition GetItemValue_int_default :: "byte list \<Rightarrow> byte list \<Rightarrow> c_int \<Rightarrow> IniFile \<Rightarrow> (bool \<times> c_int) option" where
  "GetItemValue_int_default sec key dflt ini =
     do { r \<leftarrow> GetItemValue_int sec key ini; Some (case r of None \<Rightarrow> (False, dflt) | Some v \<Rightarrow> (True, v)) }"

definition IniFile_ReadString :: "byte list \<Rightarrow> byte list \<Rightarrow> byte list \<Rightarrow> IniFile \<Rightarrow> byte list option" where
  "IniFile_ReadString sec key dflt ini =
     do { s \<leftarrow> GetItemValue sec key 1024 ini; Some (if s = [] then c_str dflt else c_str s) }"

definition IniFile_ReadInt :: "byte list \<Rightarrow> byte list \<Rightarrow> c_int \<Rightarrow> IniFile \<Rightarrow> c_int option" where
  "IniFile_ReadInt sec key dflt ini =
     do { (ret, v) \<leftarrow> GetItemValue_int_default sec key dflt ini; Some (if \<not> ret then dflt else v) }"

section \<open>Writing\<close>

text \<open>\<open>fwrite\<close> is how many bytes the file takes, or \<^term>\<open>None\<close> when it cannot be opened. The result comes with what was written to the file.\<close>

definition SetItemValue :: "byte list \<Rightarrow> byte list \<Rightarrow> byte list \<Rightarrow> nat option \<Rightarrow> IniFile \<Rightarrow> (bool \<times> IniFile \<times> byte list option) option" where
  "SetItemValue sec key v fwrite ini =
     (if \<not> m_bIsOpen ini then Some (False, ini, None)
      else do {
        r \<leftarrow> LocateSection sec ini;
        case r of
          None \<Rightarrow> Some (False, ini, None)
        | Some (sb, se) \<Rightarrow> do {
            r \<leftarrow> LocateKeyRange key sb se ini;
            let (b, e) = (case r of None \<Rightarrow> (sb, sb) | Some be \<Rightarrow> be);
            content \<leftarrow> m_pszContent ini;
            let line = key @ [32, 61, 32] @ v @ [10];
            let content = take b content @ line @ drop e content;
            let ini = ini\<lparr>m_nSize := m_nSize ini - (e - b) + length line, m_pszContent := Some content, m_pszShadow := Some (IniFile_ToLower content)\<rparr>;
            if m_pszFilename ini = None then Some (False, ini, None)
            else (case fwrite of
                None \<Rightarrow> Some (False, ini, None)
              | Some n \<Rightarrow> Some (m_nSize ini \<le> n, ini, Some (take n (take (m_nSize ini) content))))
          }
      })"

definition SetItemValue_int :: "byte list \<Rightarrow> byte list \<Rightarrow> c_int \<Rightarrow> nat option \<Rightarrow> IniFile \<Rightarrow> (bool \<times> IniFile \<times> byte list option) option" where
  "SetItemValue_int sec key v fwrite ini = SetItemValue sec key (print_d v) fwrite ini"

section \<open>Every search ends\<close>

lemma lower_facts [simp]: "lower 0 = 0" "lower 91 = 91" "lower 93 = 93" "lower 10 = 10" "lower 13 = 13" "lower 9 = 9" "lower 32 = 32" "lower 61 = 61"
  by (simp_all add: lower_def)

lemma lower_bound: "65 \<le> b \<Longrightarrow> b \<le> 90 \<Longrightarrow> 97 \<le> b + 32" for b :: byte
  by (simp add: word_le_nat_alt unat_word_ariths)

lemma lower_eq_iff: "lower b = c \<longleftrightarrow> b = c" if "c < 65 \<or> c = 91 \<or> c = 93" for c :: byte
proof
  assume "lower b = c"
  then show "b = c" using that lower_bound [of b] by (auto simp: lower_def word_less_nat_alt word_le_nat_alt split: if_splits)
qed (use that in \<open>auto simp: lower_def word_less_nat_alt word_le_nat_alt\<close>)

lemma lower_idem [simp]: "lower (lower b) = lower b"
  using lower_bound [of b] by (auto simp: lower_def word_le_nat_alt word_less_nat_alt)

lemma strstr_Some: "strstr s pat = Some j \<Longrightarrow> j + length pat \<le> length s \<and> take (length pat) (drop j s) = pat"
  by (induction s pat arbitrary: j rule: strstr.induct) (auto split: if_splits, metis length_Cons length_take min_def nat_le_linear)

lemma SearchMarchStr_ok:
  "pat \<noteq> [] \<Longrightarrow> \<exists>r. SearchMarchStr s pat = Some r \<and> (\<forall>j. r = Some j \<longrightarrow> j + length pat < length s \<and> take (length pat) (drop j s) = pat)"
proof (induction s rule: length_induct)
  case (1 s)
  show ?case
  proof (cases "strstr s pat")
    case None
    then show ?thesis by (subst SearchMarchStr.simps) simp
  next
    case (Some j)
    let ?k = "j + length pat"
    have k: "?k \<le> length s" "take (length pat) (drop j s) = pat" using strstr_Some [OF Some] by simp_all
    then have "length (drop ?k s) < length s" using 1(2) by (cases pat) auto
    then obtain r where r: "SearchMarchStr (drop ?k s) pat = Some r"
      "\<forall>j. r = Some j \<longrightarrow> j + length pat < length (drop ?k s) \<and> take (length pat) (drop j (drop ?k s)) = pat"
      using 1 by blast
    moreover have "\<forall>i. map_option ((+) ?k) r = Some i \<longrightarrow> i + length pat < length s \<and> take (length pat) (drop i s) = pat"
      using r(2) by (auto simp: add.commute add.left_commute)
    moreover have "SearchMarchStr s pat = (if 0 < j \<and> \<not> blank (s ! (j - 1)) then Some (map_option ((+) ?k) r)
        else if ?k < length s \<and> (blank (s ! ?k) \<or> s ! ?k = 61) then Some (Some j) else Some (map_option ((+) ?k) r))"
      by (subst SearchMarchStr.simps) (simp only: Some r(1) option.case Let_def Option.bind.bind_lunit)
    then have "SearchMarchStr s pat = Some (map_option ((+) ?k) r) \<or> ?k < length s \<and> SearchMarchStr s pat = Some (Some j)" by argo
    ultimately show ?thesis using k(2) by (elim disjE) simp_all
  qed
qed

lemma scan_ok: "p \<le> q \<Longrightarrow> q \<le> length buf \<Longrightarrow>
    \<exists>r. scan stop buf p q = Some r \<and> p \<le> r \<and> r \<le> q \<and> (\<forall>i. p \<le> i \<and> i < r \<longrightarrow> \<not> stop (buf ! i)) \<and> (r < q \<longrightarrow> stop (buf ! r))"
proof (induction stop buf p q rule: scan.induct)
  case (1 stop buf p q)
  show ?case
  proof (cases "q \<le> p \<or> stop (buf ! p)")
    case True
    then show ?thesis using 1(2,3) by (subst scan.simps) auto
  next
    case False
    then obtain r where r: "scan stop buf (Suc p) q = Some r" "Suc p \<le> r" "r \<le> q" "\<forall>i. Suc p \<le> i \<and> i < r \<longrightarrow> \<not> stop (buf ! i)" "r < q \<longrightarrow> stop (buf ! r)"
      using 1 by auto
    have "\<forall>i. p \<le> i \<and> i < r \<longrightarrow> \<not> stop (buf ! i)" using r(4) False by (metis le_eq_less_or_eq Suc_leI)
    then show ?thesis using r False 1(3) by (subst scan.simps) auto
  qed
qed

lemma section_end_ok: "p \<le> q \<Longrightarrow> q \<le> length buf \<Longrightarrow>
    \<exists>r. section_end buf first p q = Some r \<and> p \<le> r \<and> r \<le> q \<and> (\<forall>i. p \<le> i \<and> i < r \<longrightarrow> buf ! i \<noteq> 0)"
proof (induction buf first p q rule: section_end.induct)
  case (1 buf first p q)
  show ?case
  proof (cases "q \<le> p \<or> first \<and> buf ! p = 91 \<or> buf ! p = 0")
    case True
    then show ?thesis using 1(4,5) by (subst section_end.simps) (auto simp: Let_def)
  next
    case False
    have "\<exists>f. section_end buf first p q = section_end buf f (Suc p) q \<and>
        (\<exists>r. section_end buf f (Suc p) q = Some r \<and> Suc p \<le> r \<and> r \<le> q \<and> (\<forall>i. Suc p \<le> i \<and> i < r \<longrightarrow> buf ! i \<noteq> 0))"
      using 1 False by (subst section_end.simps) (auto simp: Let_def)
    then obtain r where r: "section_end buf first p q = Some r" "Suc p \<le> r" "r \<le> q" "\<forall>i. Suc p \<le> i \<and> i < r \<longrightarrow> buf ! i \<noteq> 0" by auto
    have "\<forall>i. p \<le> i \<and> i < r \<longrightarrow> buf ! i \<noteq> 0" using r(4) False by (metis le_eq_less_or_eq Suc_leI)
    then show ?thesis using r by auto
  qed
qed

text \<open>An open file.\<close>

definition ini_file :: "byte list \<Rightarrow> IniFile \<Rightarrow> bool" where
  "ini_file text ini \<longleftrightarrow> m_bIsOpen ini \<and> m_pszFilename ini \<noteq> None \<and> m_pszContent ini = Some (text @ [0]) \<and>
     m_pszShadow ini = Some (IniFile_ToLower (text @ [0])) \<and> m_nSize ini = length text"

lemma OpenFile_ok: "fopen name = Some text \<Longrightarrow> ini_file text (snd (OpenFile (Some name) fopen True True ini))"
  by (simp add: OpenFile_def ini_file_def Let_def)

lemma LocateStr_ok:
  assumes "pat \<noteq> []"
  shows "\<exists>r. LocateStr pat shadow p q = Some r \<and> (\<forall>j. r = Some j \<longrightarrow> p \<le> j \<and> j + length pat \<le> q)"
proof -
  obtain r where r: "SearchMarchStr (c_str (drop p shadow)) pat = Some r" using SearchMarchStr_ok [OF assms] by blast
  then show ?thesis by (cases r) (auto simp: LocateStr_def)
qed

lemma LocateSection_ok:
  assumes "ini_file text ini"
  shows "\<exists>r. LocateSection name ini = Some r \<and> (\<forall>b e. r = Some (b, e) \<longrightarrow> b \<le> e \<and> e \<le> length text)"
proof -
  let ?pat = "IniFile_ToLower ([91] @ name @ [93])" and ?c = "text @ [0]"
  have F: "m_pszContent ini = Some ?c" "m_pszShadow ini = Some (IniFile_ToLower ?c)" "m_nSize ini = length text" using assms by (simp_all add: ini_file_def)
  obtain r where r: "LocateStr ?pat (IniFile_ToLower ?c) 0 (length text) = Some r" "\<forall>j. r = Some j \<longrightarrow> j + length ?pat \<le> length text"
    using LocateStr_ok [of ?pat] by (fastforce simp: IniFile_ToLower_def)
  show ?thesis
  proof (cases r)
    case None
    then show ?thesis using F r by (simp add: LocateSection_def)
  next
    case (Some p)
    have p: "p + length ?pat \<le> length text" using r(2) Some by simp
    obtain b1 where b1: "scan eol ?c (p + length ?pat) (length text) = Some b1" "b1 \<le> length text"
      using scan_ok [OF p, of ?c eol] by auto
    obtain b where b: "scan (\<lambda>c. \<not> eol c) ?c b1 (length text) = Some b" "b \<le> length text"
      using scan_ok [OF b1(2), of ?c "\<lambda>c. \<not> eol c"] by auto
    obtain e where e: "section_end ?c True b (length text + 1) = Some e" "b \<le> e" "e \<le> length text + 1" "\<forall>i. b \<le> i \<and> i < e \<longrightarrow> ?c ! i \<noteq> 0"
      using section_end_ok [of b "length text + 1" ?c True] b(2) by auto
    have "e \<le> length text" using e(4) [rule_format, of "length text"] e(3) b(2) by (cases "e = length text + 1") auto
    then show ?thesis using F r(1) Some b1(1) b(1) e(1,2) by (simp add: LocateSection_def Let_def)
  qed
qed

lemma LocateKeyValue_ok:
  assumes "ini_file text ini" "key \<noteq> []" "q \<le> length text"
  shows "\<exists>r. LocateKeyValue key p q ini = Some r \<and> (\<forall>b e. r = Some (b, e) \<longrightarrow> p \<le> b \<and> b < e \<and> e \<le> q \<and> (\<forall>i. b \<le> i \<and> i < e \<longrightarrow> text ! i \<noteq> 9 \<and> \<not> eol (text ! i)))"
proof (induction "q - p" arbitrary: p rule: less_induct)
  case less
  let ?c = "text @ [0]"
  have F: "m_pszContent ini = Some ?c" "m_pszShadow ini = Some (IniFile_ToLower ?c)" using assms(1) by (simp_all add: ini_file_def)
  obtain r where r: "LocateStr (IniFile_ToLower key) (IniFile_ToLower ?c) p q = Some r" "\<forall>j. r = Some j \<longrightarrow> p \<le> j \<and> j + length key \<le> q"
    using LocateStr_ok [of "IniFile_ToLower key" "IniFile_ToLower ?c" p q] assms(2) by (auto simp: IniFile_ToLower_def)
  show ?case
  proof (cases "q \<le> p \<or> r = None")
    case True
    then show ?thesis using r(1) F by (subst LocateKeyValue.simps) auto
  next
    case False
    then obtain k where k: "r = Some k" "p \<le> k" "k + length key \<le> q" "\<not> q \<le> p" using r(2) by auto
    have q: "q \<le> length ?c" using assms(3) by simp
    obtain b where b: "scan (\<lambda>c. c \<noteq> 32 \<and> c \<noteq> 9) ?c (k + length key) q = Some b" "k + length key \<le> b" "b \<le> q" using scan_ok [OF k(3) q] by blast
    obtain ch where ch: "char_at ?c b = Some ch" using b(3) assms(3) by (simp add: char_at_def)
    show ?thesis
    proof (cases "ch = 61")
      case False
      have "q - b < q - p" using b(2) k(2,4) assms(2) by (cases key) auto
      from less [OF this] obtain r' where r': "LocateKeyValue key b q ini = Some r'"
        "\<forall>b' e. r' = Some (b', e) \<longrightarrow> b \<le> b' \<and> b' < e \<and> e \<le> q \<and> (\<forall>i. b' \<le> i \<and> i < e \<longrightarrow> text ! i \<noteq> 9 \<and> \<not> eol (text ! i))" by blast
      have "LocateKeyValue key p q ini = Some r'" using r(1) F k b(1) ch False r'(1) by (subst LocateKeyValue.simps) simp
      moreover have "p \<le> b" using b(2) k(2) by simp
      ultimately show ?thesis using r'(2) order.trans by blast
    next
      case True
      show ?thesis
      proof (cases "Suc b \<le> q")
        case over: False
        then have "LocateKeyValue key p q ini = Some None"
          using r(1) F k b(1) ch True by (subst LocateKeyValue.simps) (simp add: scan.simps)
        then show ?thesis by simp
      next
        case bq: True
        obtain v where v: "scan (\<lambda>c. eol c \<or> c \<noteq> 9 \<and> c \<noteq> 32) ?c (Suc b) q = Some v" "Suc b \<le> v" "v \<le> q" using scan_ok [OF bq q] by blast
        obtain e where e: "scan (\<lambda>c. c = 9 \<or> eol c) ?c v q = Some e" "v \<le> e" "e \<le> q" "\<forall>i. v \<le> i \<and> i < e \<longrightarrow> \<not> (?c ! i = 9 \<or> eol (?c ! i))"
          using scan_ok [OF v(3) q] by blast
        have "LocateKeyValue key p q ini = Some (if v < e then Some (v, e) else None)"
          using r(1) F k b(1) ch True v(1) e(1) by (subst LocateKeyValue.simps) simp
        moreover have "p \<le> v" using k(2) b(2) v(2) by simp
        moreover have "text ! i \<noteq> 9 \<and> \<not> eol (text ! i)" if "v \<le> i" "i < e" for i
          using e(4) [rule_format, of i] that e(3) assms(3) by (simp add: nth_append)
        ultimately show ?thesis using e(3) by auto
      qed
    qed
  qed
qed

text \<open>What a value found in a file is like.\<close>

definition plain_value :: "byte list \<Rightarrow> bool" where
  "plain_value v \<longleftrightarrow> (\<forall>b \<in> set v. b \<noteq> 9 \<and> \<not> eol b)"

lemma GetItemValue_ok:
  assumes "ini_file text ini" "key \<noteq> []" "2 \<le> n"
  shows "\<exists>v. GetItemValue sec key n ini = Some v \<and> plain_value v \<and> length v < n \<and> (\<exists>i. v = take (length v) (drop i text))"
proof -
  have F: "m_bIsOpen ini" "m_pszContent ini = Some (text @ [0])" using assms(1) by (simp_all add: ini_file_def)
  obtain r where r: "LocateSection sec ini = Some r" "\<forall>b e. r = Some (b, e) \<longrightarrow> b \<le> e \<and> e \<le> length text" using LocateSection_ok [OF assms(1)] by blast
  show ?thesis
  proof (cases r)
    case None
    then show ?thesis using F r(1) assms(3) by (simp add: GetItemValue_def plain_value_def)
  next
    case (Some be)
    obtain sb se where be: "be = (sb, se)" by (cases be)
    have se: "se \<le> length text" using r(2) Some be by simp
    obtain r' where r': "LocateKeyValue key sb se ini = Some r'"
      "\<forall>b e. r' = Some (b, e) \<longrightarrow> b < e \<and> e \<le> se \<and> (\<forall>i. b \<le> i \<and> i < e \<longrightarrow> text ! i \<noteq> 9 \<and> \<not> eol (text ! i))"
      using LocateKeyValue_ok [OF assms(1,2) se] by blast
    show ?thesis
    proof (cases r')
      case None
      then show ?thesis using F r(1) Some be r'(1) assms(3) by (simp add: GetItemValue_def plain_value_def)
    next
      case (Some be')
      obtain b e where b: "be' = (b, e)" by (cases be')
      have be': "b < e" "e \<le> length text" "\<forall>i. b \<le> i \<and> i < e \<longrightarrow> text ! i \<noteq> 9 \<and> \<not> eol (text ! i)" using r'(2) Some b se by auto
      define m where "m = min (e - b) (n - 1)"
      have m: "0 < m" "m < n" "b + m \<le> e" using be'(1) assms(3) by (auto simp: m_def)
      define v where "v = take m (drop b text)"
      have v: "take m (drop b (text @ [0])) = v" "length v = m" using m(3) be'(2) by (simp_all add: v_def)
      have pv: "plain_value v"
        unfolding plain_value_def
      proof
        fix c assume "c \<in> set v"
        then obtain i where "i < m" "c = text ! (b + i)" using v(2) be'(2) m(3) by (auto simp: v_def in_set_conv_nth)
        then show "c \<noteq> 9 \<and> \<not> eol c" using be'(3) m(3) by simp
      qed
      have sub: "butlast v = take (length (butlast v)) (drop b text)" using v(2) be'(2) m(3) by (simp add: v_def butlast_take)
      have n0: "(\<not> m_bIsOpen ini \<or> n = 0) = False" using F(1) assms(3) by simp
      have "GetItemValue sec key n ini = (if m = n - 1 then (if m = 0 then None else if 127 < v ! (m - 1) then Some (butlast v) else Some v) else Some v)"
        unfolding GetItemValue_def F r(1) \<open>r = Some be\<close> be n0 simp_thms if_False Option.bind.bind_lunit option.case prod.case r'(1) Some b Let_def m_def [symmetric] v(1) ..
      then have "GetItemValue sec key n ini = Some v \<or> GetItemValue sec key n ini = Some (butlast v)" using m(1) by presburger
      moreover have "plain_value (butlast v)" using pv by (auto simp: plain_value_def dest: in_set_butlastD)
      moreover have "v = take (length v) (drop b text)" "length v < n" "length (butlast v) < n" using v(2) m(2) by (simp_all add: v_def)
      ultimately show ?thesis using pv sub by blast
    qed
  qed
qed

section \<open>Words and separators\<close>

definition sep :: "byte \<Rightarrow> bool" where
  "sep b \<longleftrightarrow> blank b \<or> b = 61"

definition shift :: "nat \<Rightarrow> nat option option \<Rightarrow> nat option option" where
  "shift k r = map_option (map_option ((+) k)) r"

lemma shift_simps [simp]: "shift k (Some None) = Some None" "shift k (Some (Some j)) = Some (Some (k + j))" "shift 0 r = r" "shift k (shift l r) = shift (k + l) r"
  by (cases r; cases "the r"; simp add: shift_def add.assoc)+

lemma Search_unfold:
  assumes "strstr s pat = Some j"
  shows "SearchMarchStr s pat =
    (if (j = 0 \<or> blank (s ! (j - 1))) \<and> j + length pat < length s \<and> sep (s ! (j + length pat)) then Some (Some j)
     else shift (j + length pat) (SearchMarchStr (drop (j + length pat) s) pat))"
proof -
  have b: "do { r \<leftarrow> x; Some (map_option ((+) k) r) } = shift k x" for x k by (cases x) (simp_all add: shift_def)
  show ?thesis unfolding SearchMarchStr.simps [of s pat] assms option.case Let_def b by (auto simp: sep_def)
qed

lemma Search_None: "strstr s pat = None \<Longrightarrow> SearchMarchStr s pat = Some None"
  by (subst SearchMarchStr.simps) simp

lemma strstr_skip: "\<lbrakk>pat \<noteq> []; \<forall>i < length t. take (length pat) (drop i (t @ s)) \<noteq> pat\<rbrakk> \<Longrightarrow> strstr (t @ s) pat = map_option ((+) (length t)) (strstr s pat)"
proof (induction t)
  case Nil
  then show ?case by (cases "strstr s pat") simp_all
next
  case (Cons b t)
  have "\<forall>i < length t. take (length pat) (drop i (t @ s)) \<noteq> pat"
  proof (intro allI impI)
    fix i assume "i < length t"
    then show "take (length pat) (drop i (t @ s)) \<noteq> pat" using Cons.prems(2) [rule_format, of "Suc i"] by simp
  qed
  moreover have "take (length pat) (b # t @ s) \<noteq> pat" using Cons.prems(2) [rule_format, of 0] by simp
  ultimately show ?case using Cons by (simp add: option.map_comp comp_def)
qed

lemma strstr_exact: "\<lbrakk>pat \<noteq> []; \<forall>i < length t. take (length pat) (drop i (t @ s)) \<noteq> pat; take (length pat) s = pat\<rbrakk> \<Longrightarrow> strstr (t @ s) pat = Some (length t)"
  using strstr_skip [of pat t s] by (cases s) auto

text \<open>The first occurrence lies inside a word, or after the separator that follows it.\<close>

lemma strstr_word:
  assumes "pat \<noteq> []" "c \<notin> set pat"
  shows "(\<exists>j. j + length pat \<le> length t \<and> take (length pat) (drop j t) = pat \<and> strstr (t @ c # s) pat = Some j) \<or>
    strstr (t @ c # s) pat = map_option ((+) (length t)) (strstr (c # s) pat)"
proof -
  let ?occ = "\<lambda>i. take (length pat) (drop i (t @ c # s)) = pat"
  have cross: "i + length pat \<le> length t" if "?occ i" "i < length t" for i
  proof (rule ccontr)
    assume "\<not> i + length pat \<le> length t"
    then have l: "length t - i < length pat" using that(2) by arith
    have "pat ! (length t - i) = take (length pat) (drop i (t @ c # s)) ! (length t - i)" using that(1) by simp
    also have "\<dots> = drop i (t @ c # s) ! (length t - i)" using l by (rule nth_take)
    also have "\<dots> = c" using that(2) by (simp add: nth_append)
    finally have "c = pat ! (length t - i)" by simp
    with l show False using assms(2) nth_mem by metis
  qed
  show ?thesis
  proof (cases "\<exists>i < length t. ?occ i")
    case False
    then show ?thesis using strstr_skip [OF assms(1), of t "c # s"] by auto
  next
    case True
    define j where "j = (LEAST i. ?occ i)"
    obtain i where "i < length t" "?occ i" using True by blast
    have j1: "?occ j" unfolding j_def using \<open>?occ i\<close> by (rule LeastI)
    have j2: "j \<le> i" unfolding j_def using \<open>?occ i\<close> by (rule Least_le)
    have j: "?occ j" "j < length t" "\<forall>i < j. \<not> ?occ i" using j1 j2 \<open>i < length t\<close> not_less_Least [of _ ?occ] by (simp_all add: j_def)
    have jl: "j + length pat \<le> length t" by (rule cross [OF j(1,2)])
    have e: "t @ c # s = take j t @ drop j t @ c # s" by simp
    have "strstr (take j t @ drop j t @ c # s) pat = Some (length (take j t))"
      by (rule strstr_exact [OF assms(1)]) (use j jl in \<open>simp_all flip: append_assoc\<close>)
    then have "strstr (t @ c # s) pat = Some (length (take j t))" by (simp only: e [symmetric])
    then have "strstr (t @ c # s) pat = Some j" using j(2) by simp
    moreover have "take (length pat) (drop j t) = pat" using j(1) jl by simp
    ultimately show ?thesis using jl by blast
  qed
qed

text \<open>A separator before a word does not matter, and neither does anything else that the word cannot start with.\<close>

lemma Search_blank:
  assumes "pat \<noteq> []" "blank c" "c \<notin> set pat"
  shows "SearchMarchStr (c # s) pat = shift 1 (SearchMarchStr s pat)"
proof -
  have n: "take (length pat) (c # s) \<noteq> pat" using assms(1,3) by (cases pat) auto
  show ?thesis
  proof (cases "strstr s pat")
    case None
    then show ?thesis using n by (simp add: Search_None)
  next
    case (Some j)
    then have S: "strstr (c # s) pat = Some (Suc j)" using n by simp
    have "blank ((c # s) ! (Suc j - 1)) \<longleftrightarrow> j = 0 \<or> blank (s ! (j - 1))" using assms(2) by (cases j) simp_all
    then show ?thesis unfolding Search_unfold [OF S] Search_unfold [OF Some] by auto
  qed
qed

lemma Search_other:
  assumes "pat \<noteq> []" "c \<notin> set pat" "d \<notin> set pat"
  shows "SearchMarchStr (c # d # s) pat = shift 1 (SearchMarchStr (d # s) pat)"
proof -
  have n: "take (length pat) (c # d # s) \<noteq> pat" "take (length pat) (d # s) \<noteq> pat" using assms by (cases pat, auto)+
  show ?thesis
  proof (cases "strstr (d # s) pat")
    case None
    then show ?thesis using n by (simp add: Search_None)
  next
    case (Some j)
    then have S: "strstr (c # d # s) pat = Some (Suc j)" "j \<noteq> 0" using n by auto
    have "((c # d # s) ! (Suc j - 1)) = ((d # s) ! (j - 1))" using S(2) by (cases j) simp_all
    then show ?thesis unfolding Search_unfold [OF S(1)] Search_unfold [OF Some] using S(2) by simp
  qed
qed

text \<open>What a search makes of a word and the separator after it: it passes over both, or stops at the last letters of the word, which happens when it is the
  pattern and when it ends with the pattern twice.\<close>

definition stutters :: "byte list \<Rightarrow> byte list \<Rightarrow> bool" where
  "stutters t pat \<longleftrightarrow> 2 * length pat \<le> length t \<and> drop (length t - 2 * length pat) t = pat @ pat"

lemma stutters_iff: "stutters t pat \<longleftrightarrow> (\<exists>a. t = a @ pat @ pat)"
proof
  assume "stutters t pat"
  then have "t = take (length t - 2 * length pat) t @ pat @ pat" unfolding stutters_def by (metis append_take_drop_id)
  then show "\<exists>a. t = a @ pat @ pat" by blast
qed (auto simp: stutters_def)

lemma stutters_length: "stutters t pat \<Longrightarrow> length pat \<le> length t"
  by (auto simp: stutters_iff)

lemma Search_word:
  assumes pat: "pat \<noteq> []" "c \<notin> set pat" and t: "\<forall>b \<in> set t. \<not> sep b" and c: "sep c"
  shows "SearchMarchStr (t @ c # s) pat = shift (length t) (SearchMarchStr (c # s) pat) \<or>
    t = pat \<and> SearchMarchStr (t @ c # s) pat = Some (Some 0) \<or>
    stutters t pat \<and> SearchMarchStr (t @ c # s) pat = Some (Some (length t - length pat))"
  using t
proof (induction t rule: length_induct)
  case (1 t)
  let ?s = "t @ c # s"
  consider (out) "strstr ?s pat = map_option ((+) (length t)) (strstr (c # s) pat)"
    | (inside) j where "j + length pat \<le> length t" "take (length pat) (drop j t) = pat" "strstr ?s pat = Some j"
    using strstr_word [OF pat, of t s] by blast
  then show ?case
  proof cases
    case out
    show ?thesis
    proof (cases "strstr (c # s) pat")
      case None
      then show ?thesis using out by (simp add: Search_None)
    next
      case (Some i)
      have i: "i \<noteq> 0" using strstr_Some [OF Some] pat by (cases pat; cases i) auto
      have S: "strstr ?s pat = Some (length t + i)" using out Some by simp
      have e: "length t + i - 1 = length t + (i - 1)" using i by simp
      have "?s ! (length t + i - 1) = (c # s) ! (i - 1)" "?s ! (length t + i + length pat) = (c # s) ! (i + length pat)"
        using e by (simp_all only: e nth_append_length_plus add.assoc)
      then show ?thesis unfolding Search_unfold [OF S] Search_unfold [OF Some] using i by (simp add: add.assoc)
    qed
  next
    case inside
    let ?k = "j + length pat"
    let ?t = "drop ?k t"
    have tj: "t = take j t @ pat @ ?t" using inside(1,2) by (metis append_take_drop_id drop_drop add.commute)
    show ?thesis
    proof (cases "j = 0 \<and> ?k = length t")
      case True
      then have "t = pat" using tj by simp
      moreover have "SearchMarchStr ?s pat = Some (Some 0)" unfolding Search_unfold [OF inside(3)] using True c by (simp add: nth_append)
      ultimately show ?thesis by simp
    next
      case False
      have "SearchMarchStr ?s pat = shift ?k (SearchMarchStr (?t @ c # s) pat)"
      proof (cases "j = 0")
        case True
        then have "?k < length t" using False inside(1) by simp
        then have "\<not> sep (?s ! ?k)" using "1.prems" by (simp add: nth_append)
        then show ?thesis unfolding Search_unfold [OF inside(3)] using inside(1) by simp
      next
        case False
        then have "j - 1 < length t" using inside(1) by simp
        then have "\<not> sep (t ! (j - 1))" using "1.prems" by simp
        then have "\<not> blank (?s ! (j - 1))" using \<open>j - 1 < length t\<close> by (simp add: nth_append sep_def)
        then show ?thesis unfolding Search_unfold [OF inside(3)] using inside(1) False by simp
      qed
      moreover have "length ?t < length t" using pat(1) inside(1) by (cases pat) auto
      then have "SearchMarchStr (?t @ c # s) pat = shift (length ?t) (SearchMarchStr (c # s) pat) \<or>
          ?t = pat \<and> SearchMarchStr (?t @ c # s) pat = Some (Some 0) \<or>
          stutters ?t pat \<and> SearchMarchStr (?t @ c # s) pat = Some (Some (length ?t - length pat))"
        using 1 by (meson in_set_dropD)
      moreover have "stutters t pat" if "?t = pat" using tj that by (auto simp: stutters_iff)
      moreover have "stutters t pat" if st: "stutters ?t pat"
      proof -
        obtain a where "?t = a @ pat @ pat" using st by (auto simp: stutters_iff)
        then have "t = (take j t @ pat @ a) @ pat @ pat" using tj by simp
        then show ?thesis unfolding stutters_iff by blast
      qed
      moreover have "length t - length pat = ?k" if "?t = pat" using arg_cong [OF that, of length] inside(1) by simp
      moreover have "length pat \<le> length ?t" if "stutters ?t pat" using that by (rule stutters_length)
      ultimately show ?thesis using inside(1) by (elim disjE conjE) (simp_all add: stutters_iff)
    qed
  qed
qed

section \<open>Search for a key\<close>

text \<open>\<open>LocateKeyRange\<close> and \<open>LocateKeyValue\<close> look for the key in the same way and differ in what they do with the equals sign found at \<open>e\<close>, after a key
  found at \<open>k\<close>.\<close>

locale key_search =
  fixes K :: "byte list \<Rightarrow> nat \<Rightarrow> nat \<Rightarrow> IniFile \<Rightarrow> (nat \<times> nat) option option"
    and fin :: "byte list \<Rightarrow> nat \<Rightarrow> nat \<Rightarrow> nat \<Rightarrow> (nat \<times> nat) option option"
  assumes K_eq: "K key p q ini =
     (if q \<le> p then Some None
      else case (m_pszContent ini, m_pszShadow ini) of
        (Some content, Some shadow) \<Rightarrow> do {
          r \<leftarrow> LocateStr (IniFile_ToLower key) shadow p q;
          case r of
            None \<Rightarrow> Some None
          | Some k \<Rightarrow> do {
              e \<leftarrow> scan (\<lambda>c. c \<noteq> 32 \<and> c \<noteq> 9) content (k + length key) q;
              c \<leftarrow> char_at content e;
              if c \<noteq> 61 then K key e q ini else fin content k e q
            }
        }
      | _ \<Rightarrow> Some None)"

definition range_fin :: "byte list \<Rightarrow> nat \<Rightarrow> nat \<Rightarrow> nat \<Rightarrow> (nat \<times> nat) option option" where
  "range_fin content k e q =
     do { e \<leftarrow> scan eol content (Suc e) q; e \<leftarrow> scan (\<lambda>c. \<not> eol c) content e q; Some (if k < e then Some (k, e) else None) }"

definition value_fin :: "byte list \<Rightarrow> nat \<Rightarrow> nat \<Rightarrow> nat \<Rightarrow> (nat \<times> nat) option option" where
  "value_fin content k e q =
     do { b \<leftarrow> scan (\<lambda>c. eol c \<or> c \<noteq> 9 \<and> c \<noteq> 32) content (Suc e) q; e \<leftarrow> scan (\<lambda>c. c = 9 \<or> eol c) content b q; Some (if b < e then Some (b, e) else None) }"

interpretation key_range: key_search LocateKeyRange range_fin
  by unfold_locales (subst LocateKeyRange.simps, simp only: range_fin_def)

interpretation key_value: key_search LocateKeyValue value_fin
  by unfold_locales (subst LocateKeyValue.simps, simp only: value_fin_def)

section \<open>Files written line by line\<close>

definition entry_text :: "byte list \<times> byte list \<Rightarrow> byte list" where
  "entry_text kv = fst kv @ [32, 61, 32] @ snd kv @ [10]"

lemma length_entry_text [simp]: "length (entry_text kv) = length (fst kv) + length (snd kv) + 4" "entry_text kv \<noteq> []"
  by (simp_all add: entry_text_def)

definition word :: "byte list \<Rightarrow> bool" where
  "word w \<longleftrightarrow> w \<noteq> [] \<and> (\<forall>b \<in> set w. b \<noteq> 0 \<and> \<not> sep b \<and> b \<noteq> 91 \<and> b \<noteq> 93)"

definition entries_text :: "(byte list \<times> byte list) list \<Rightarrow> byte list" where
  "entries_text es = concat (map entry_text es)"

abbreviation low :: "byte list \<Rightarrow> byte list" where
  "low \<equiv> map lower"

lemma lower_sep [simp]: "sep (lower b) \<longleftrightarrow> sep b" "lower b = 0 \<longleftrightarrow> b = 0" "lower b = 91 \<longleftrightarrow> b = 91" "lower b = 93 \<longleftrightarrow> b = 93"
  using lower_eq_iff [of 32 b] lower_eq_iff [of 9 b] lower_eq_iff [of 13 b] lower_eq_iff [of 10 b] lower_eq_iff [of 61 b]
    lower_eq_iff [of 0 b] lower_eq_iff [of 91 b] lower_eq_iff [of 93 b]
  by (simp_all add: sep_def blank_def word_less_nat_alt)

lemma lower_eol [simp]: "blank (lower b) \<longleftrightarrow> blank b"
  using lower_eq_iff [of 32 b] lower_eq_iff [of 9 b] lower_eq_iff [of 13 b] lower_eq_iff [of 10 b] by (simp add: blank_def word_less_nat_alt)

lemma wordD: "word w \<Longrightarrow> b \<in> set w \<Longrightarrow> b \<noteq> 0 \<and> \<not> sep b \<and> b \<noteq> 91 \<and> b \<noteq> 93 \<and> b \<noteq> 32 \<and> b \<noteq> 9 \<and> b \<noteq> 61 \<and> \<not> eol b"
  by (auto simp: word_def sep_def blank_def eol_def)

lemma word_low: "word w \<Longrightarrow> low w \<noteq> [] \<and> (\<forall>b \<in> set (low w). \<not> sep b) \<and> (sep c \<longrightarrow> c \<notin> set (low w))"
  by (auto simp: word_def)

lemma scan_word: "\<lbrakk>buf = a @ w @ d # rest; \<forall>b \<in> set w. \<not> stop b; stop d; length a + length w < q\<rbrakk> \<Longrightarrow>
    scan stop buf (length a) q = Some (length a + length w)"
proof (induction w arbitrary: a)
  case Nil
  then show ?case by (subst scan.simps) (simp add: nth_append)
next
  case (Cons b w)
  have "scan stop buf (length (a @ [b])) q = Some (length (a @ [b]) + length w)" by (rule Cons.IH) (use Cons.prems in simp_all)
  then show ?case using Cons.prems by (subst scan.simps) (simp add: nth_append)
qed

lemma c_str_shadow: "0 \<notin> set text \<Longrightarrow> p \<le> length text \<Longrightarrow> c_str (drop p (IniFile_ToLower (text @ [0]))) = low (drop p text)"
  unfolding c_str_def IniFile_ToLower_def map_append drop_append
  by (subst takeWhile_append2) (auto simp: drop_map dest: in_set_dropD)

context key_search
begin

lemma K_step:
  assumes F: "ini_file text ini" "0 \<notin> set text" and p: "p < q" "q \<le> length text"
  shows "K key p q ini = (do { r \<leftarrow> SearchMarchStr (low (drop p text)) (low key);
     case r of None \<Rightarrow> Some None
     | Some j \<Rightarrow> if q < p + j + length key then Some None
        else do { e \<leftarrow> scan (\<lambda>c. c \<noteq> 32 \<and> c \<noteq> 9) (text @ [0]) (p + j + length key) q;
          c \<leftarrow> char_at (text @ [0]) e;
          if c \<noteq> 61 then K key e q ini else fin (text @ [0]) (p + j) e q } })"
proof -
  have f: "m_pszContent ini = Some (text @ [0])" "m_pszShadow ini = Some (IniFile_ToLower (text @ [0]))" using F(1) by (simp_all add: ini_file_def)
  have c: "c_str (drop p (IniFile_ToLower (text @ [0]))) = low (drop p text)" by (rule c_str_shadow [OF F(2)]) (use p in simp)
  have L: "LocateStr (IniFile_ToLower key) (IniFile_ToLower (text @ [0])) p q = do { r \<leftarrow> SearchMarchStr (low (drop p text)) (low key);
      Some (case r of None \<Rightarrow> None | Some j \<Rightarrow> if q < p + j + length key then None else Some (p + j)) }"
    using p(1) unfolding LocateStr_def c by (simp add: IniFile_ToLower_def cong: option.case_cong)
  show ?thesis
    using p(1) unfolding K_eq [of key p q ini] f prod.case option.case L
    by (cases "SearchMarchStr (low (drop p text)) (low key)") (simp_all split: option.split)
qed

lemma K_end: "K key q q ini = Some None"
  by (subst K_eq) simp

lemma K_skip:
  assumes F: "ini_file text ini" "0 \<notin> set text" and p: "p < q" "p \<le> p'" "p' \<le> q" "q \<le> length text" and key: "key \<noteq> []"
    and S: "SearchMarchStr (low (drop p text)) (low key) = shift (p' - p) (SearchMarchStr (low (drop p' text)) (low key))"
  shows "K key p q ini = K key p' q ini"
proof -
  obtain r where r: "SearchMarchStr (low (drop p' text)) (low key) = Some r" using SearchMarchStr_ok [of "low key"] key by blast
  show ?thesis
  proof (cases "p' = q")
    case True
    have r': "SearchMarchStr (low (drop q text)) (low key) = Some r" using r True by simp
    show ?thesis unfolding True K_end K_step [OF F p(1,4)] S r' using p(1) key by (cases r) (auto simp: shift_def True r')
  next
    case False
    then have p': "p' < q" using p(3) by simp
    have e: "p + (p' - p + j) = p' + j" for j using p(2) by simp
    show ?thesis unfolding K_step [OF F p(1,4)] K_step [OF F p' p(4)] S r by (cases r) (simp_all add: shift_def e cong: if_cong)
  qed
qed

lemma K_found:
  assumes F: "ini_file text ini" "0 \<notin> set text" and t: "text = pre @ k @ 32 # 61 # rest" "low k = low key" "word key" "length pre + length k + 2 \<le> q" "q \<le> length text"
  shows "K key (length pre) q ini = fin (text @ [0]) (length pre) (length pre + length k + 1) q"
proof -
  have l: "length key = length k" "key \<noteq> []" using t(2,3) by (auto simp: word_def dest: map_eq_imp_length_eq)
  have S: "SearchMarchStr (low (drop (length pre) text)) (low key) = Some (Some 0)"
  proof -
    have "strstr (low (k @ 32 # 61 # rest)) (low key) = Some 0" using l t(2) by (cases k) (auto simp flip: t(2))
    from Search_unfold [OF this] show ?thesis using t(1,2) l by (simp add: nth_append sep_def blank_def)
  qed
  have "scan (\<lambda>c. c \<noteq> 32 \<and> c \<noteq> 9) (text @ [0]) (length (pre @ k)) q = Some (length (pre @ k) + length [32 :: byte])"
    by (rule scan_word [where d = 61 and rest = "rest @ [0]"]) (use t in simp_all)
  moreover have "char_at (text @ [0]) (length pre + length k + 1) = Some 61"
    using t(1) by (simp add: char_at_def nth_append)
  moreover have "length pre < q" using t(4) by simp
  ultimately show ?thesis unfolding K_step [OF F \<open>length pre < q\<close> t(5)] S using t(4) l by (simp add: add.commute add.left_commute)
qed

text \<open>A line with another key is passed over, unless its key ends with the one looked for twice.\<close>

lemma K_other:
  assumes F: "ini_file text ini" "0 \<notin> set text" and t: "text = pre @ entry_text (k, v) @ rest" and w: "word k" "word v" "word key"
    and ne: "low k \<noteq> low key" "\<not> stutters (low k) (low key)" and q: "length pre + length (entry_text (k, v)) \<le> q" "q \<le> length text"
  shows "K key (length pre) q ini = K key (length pre + length (entry_text (k, v))) q ini"
proof -
  let ?pat = "low key" and ?r = "low rest" and ?L = "length (entry_text (k, v))"
  have key: "key \<noteq> []" "?pat \<noteq> []" "\<And>c. sep c \<Longrightarrow> c \<notin> set ?pat" using word_low [OF w(3)] w(3) by (auto simp: word_def)
  have s: "sep 32" "sep 61" "sep 10" "blank 32" "blank 10" by (simp_all add: sep_def blank_def)
  note k = word_low [OF w(1)] and v = word_low [OF w(2)]
  have L: "?L = length k + 3 + length v + 1" by (simp add: entry_text_def)
  have whole: "low (drop (length pre) text) = low k @ 32 # 61 # 32 # low v @ 10 # ?r" using t by (simp add: entry_text_def)
  have after_k: "SearchMarchStr (low k @ 32 # 61 # 32 # low v @ 10 # ?r) ?pat = shift (length k) (SearchMarchStr (32 # 61 # 32 # low v @ 10 # ?r) ?pat)"
    using Search_word [OF key(2) key(3) [OF s(1)], of "low k" "61 # 32 # low v @ 10 # ?r"] k s(1) ne by auto
  have seps: "SearchMarchStr (32 # 61 # 32 # low v @ 10 # ?r) ?pat = shift 3 (SearchMarchStr (low v @ 10 # ?r) ?pat)"
    using Search_blank [OF key(2) s(4) key(3) [OF s(1)], of "61 # 32 # low v @ 10 # ?r"] Search_other [OF key(2) key(3) [OF s(2)] key(3) [OF s(1)], of "low v @ 10 # ?r"]
      Search_blank [OF key(2) s(4) key(3) [OF s(1)], of "low v @ 10 # ?r"] by (simp add: numeral_3_eq_3)
  have line_end: "SearchMarchStr (10 # ?r) ?pat = shift 1 (SearchMarchStr ?r ?pat)" by (rule Search_blank [OF key(2) s(5) key(3) [OF s(3)]])
  have upto: "SearchMarchStr (low (drop (length pre) text)) ?pat = shift (length k + 3) (SearchMarchStr (low v @ 10 # ?r) ?pat)"
    unfolding whole after_k seps by simp
  have rest: "drop (length pre + ?L) text = rest" using t by simp
  have p: "length pre < q" "length pre \<le> length pre + ?L" using q L by simp_all
  have "low v = ?pat \<Longrightarrow> length v = length key" by (rule map_eq_imp_length_eq)
  then have "SearchMarchStr (low v @ 10 # ?r) ?pat = shift (length v) (SearchMarchStr (10 # ?r) ?pat) \<or>
      SearchMarchStr (low v @ 10 # ?r) ?pat = Some (Some (length v - length key)) \<and> length key \<le> length v"
    using Search_word [OF key(2) key(3) [OF s(3)] _ s(3), of "low v" ?r] v stutters_length [of "low v" ?pat] by (auto simp del: map_eq_conv)
  then consider (past) "SearchMarchStr (low v @ 10 # ?r) ?pat = shift (length v) (SearchMarchStr (10 # ?r) ?pat)"
    | (stop) "SearchMarchStr (low v @ 10 # ?r) ?pat = Some (Some (length v - length key))" "length key \<le> length v" by blast
  then show ?thesis
  proof cases
    case past
    have "SearchMarchStr (low (drop (length pre) text)) ?pat = shift ?L (SearchMarchStr ?r ?pat)" unfolding upto past line_end L by simp
    then show ?thesis using K_skip [OF F p q key(1)] rest by simp
  next
    case stop
    let ?e = "length pre + length k + 3 + length v"
    let ?a = "pre @ k @ [32, 61, 32] @ v"
    have e: "?e < q" "length pre + (length k + 3 + (length v - length key)) + length key = ?e" using q L stop(2) by simp_all
    have "scan (\<lambda>c. c \<noteq> 32 \<and> c \<noteq> 9) (text @ [0]) (length ?a) q = Some (length ?a + length ([] :: byte list))"
      by (rule scan_word [where d = 10 and rest = "rest @ [0]"]) (use t e(1) in \<open>simp_all add: entry_text_def\<close>)
    then have sc: "scan (\<lambda>c. c \<noteq> 32 \<and> c \<noteq> 9) (text @ [0]) ?e q = Some ?e" by (simp add: add.assoc numeral_3_eq_3)
    have ch: "char_at (text @ [0]) ?e = Some 10" using t by (simp add: char_at_def entry_text_def nth_append)
    have "K key (length pre) q ini = K key ?e q ini"
      unfolding K_step [OF F p(1) q(2)] upto stop(1) using e sc ch by (simp add: add.assoc)
    also have "\<dots> = K key (length pre + ?L) q ini"
    proof (rule K_skip [OF F e(1) _ q key(1)])
      have "text = (pre @ k @ [32, 61, 32] @ v) @ 10 # rest" "length (pre @ k @ [32, 61, 32] @ v) = ?e" using t by (simp_all add: entry_text_def)
      then have "drop ?e text = 10 # rest" by (metis append_eq_conv_conj)
      then show "SearchMarchStr (low (drop ?e text)) ?pat = shift (length pre + ?L - ?e) (SearchMarchStr (low (drop (length pre + ?L) text)) ?pat)"
        using line_end rest L by simp
    qed (use L in simp)
    finally show ?thesis .
  qed
qed

lemma K_entries:
  assumes F: "ini_file text ini" "0 \<notin> set text" and key: "word key"
  shows "\<lbrakk>text = pre @ entries_text es @ rest; \<forall>(k, v) \<in> set es. word k \<and> word v \<and> low k \<noteq> low key \<and> \<not> stutters (low k) (low key);
     length pre + length (entries_text es) \<le> q; q \<le> length text\<rbrakk> \<Longrightarrow> K key (length pre) q ini = K key (length pre + length (entries_text es)) q ini"
proof (induction es arbitrary: pre)
  case Nil
  then show ?case by (simp add: entries_text_def)
next
  case (Cons kv es)
  obtain k v where kv: "kv = (k, v)" by (cases kv)
  have t: "text = pre @ entry_text (k, v) @ (entries_text es @ rest)" using Cons.prems(1) kv by (simp add: entries_text_def)
  have "K key (length pre) q ini = K key (length pre + length (entry_text (k, v))) q ini"
    by (rule K_other [OF F t]) (use Cons.prems kv key in \<open>auto simp: entries_text_def\<close>)
  also have "\<dots> = K key (length (pre @ entry_text (k, v))) q ini" by simp
  also have "\<dots> = K key (length (pre @ entry_text (k, v)) + length (entries_text es)) q ini"
    by (rule Cons.IH) (use Cons.prems t kv in \<open>auto simp: entries_text_def\<close>)
  finally show ?case using kv by (simp add: entries_text_def add.assoc)
qed

end

lemma value_fin_ok:
  assumes "content = pre @ entry_text (k, v) @ rest" "word v" "length pre + length (entry_text (k, v)) \<le> q"
  shows "value_fin content i (length pre + length k + 1) q = Some (Some (length pre + length k + 3, length pre + length k + 3 + length v))"
proof -
  obtain b v' where v: "v = b # v'" using assms(2) by (cases v) (simp_all add: word_def)
  let ?a = "pre @ k @ [32, 61]" and ?b = "pre @ k @ [32, 61, 32]"
  note V = wordD [OF assms(2)]
  have "scan (\<lambda>c. eol c \<or> c \<noteq> 9 \<and> c \<noteq> 32) content (length ?a) q = Some (length ?a + length [32 :: byte])"
    by (rule scan_word [where d = b and rest = "v' @ 10 # rest"]) (use assms V [of b] v in \<open>simp_all add: entry_text_def eol_def\<close>)
  moreover have "scan (\<lambda>c. c = 9 \<or> eol c) content (length ?b) q = Some (length ?b + length v)"
    by (rule scan_word [where d = 10 and rest = rest]) (use assms V in \<open>auto simp: entry_text_def eol_def\<close>)
  ultimately show ?thesis using v by (simp add: value_fin_def numeral_3_eq_3 add.assoc)
qed

lemma range_fin_ok:
  assumes c: "content = pre @ entry_text (k, v) @ rest" "word v" "length pre + length (entry_text (k, v)) \<le> q"
    and n: "q = length pre + length (entry_text (k, v)) \<or> (\<exists>d rest'. rest = d # rest' \<and> \<not> eol d)"
  shows "range_fin content (length pre) (length pre + length k + 1) q = Some (Some (length pre, length pre + length (entry_text (k, v))))"
proof -
  let ?a = "pre @ k @ [32, 61]" and ?b = "pre @ k @ [32, 61, 32] @ v" and ?L = "length pre + length (entry_text (k, v))"
  have L: "length ?b + 1 = ?L" "length (?b @ [10]) = ?L" by (simp_all add: entry_text_def)
  have "scan eol content (length ?a) q = Some (length ?a + length (32 # v))"
    by (rule scan_word [where d = 10 and rest = rest]) (use c wordD [OF c(2)] in \<open>auto simp: entry_text_def eol_def\<close>)
  moreover have "scan (\<lambda>c. \<not> eol c) content (length ?b) q = Some ?L"
  proof (cases "q = ?L")
    case True
    have "length ?b < q" "content ! length ?b = 10" "length ?b < length content" using c True by (simp_all add: entry_text_def nth_append)
    then have "scan (\<lambda>c. \<not> eol c) content (length ?b) q = scan (\<lambda>c. \<not> eol c) content (Suc (length ?b)) q"
      by (subst scan.simps) (simp add: eol_def)
    also have "\<dots> = Some ?L" using L True by (subst scan.simps) simp
    finally show ?thesis .
  next
    case False
    then obtain d rest' where d: "rest = d # rest'" "\<not> eol d" using n by blast
    have "scan (\<lambda>c. \<not> eol c) content (length ?b) q = Some (length ?b + length [10 :: byte])"
      by (rule scan_word [where d = d and rest = rest']) (use c d False in \<open>simp_all add: entry_text_def eol_def\<close>)
    then show ?thesis using L by simp
  qed
  ultimately show ?thesis using L by (simp add: range_fin_def add.assoc)
qed

section \<open>Sections\<close>

type_synonym ini = "(byte list \<times> (byte list \<times> byte list) list) list"

definition section_text :: "byte list \<times> (byte list \<times> byte list) list \<Rightarrow> byte list" where
  "section_text se = [91] @ fst se @ [93, 10] @ entries_text (snd se)"

definition ini_text :: "ini \<Rightarrow> byte list" where
  "ini_text secs = concat (map section_text secs)"

definition entries_ok :: "(byte list \<times> byte list) list \<Rightarrow> bool" where
  "entries_ok es \<longleftrightarrow> (\<forall>(k, v) \<in> set es. word k \<and> word v)"

definition ini_ok :: "ini \<Rightarrow> bool" where
  "ini_ok secs \<longleftrightarrow> (\<forall>(n, es) \<in> set secs. word n \<and> entries_ok es)"

lemma entries_text_simps [simp]: "entries_text [] = []" "entries_text (kv # es) = entry_text kv @ entries_text es" "entries_text (a @ b) = entries_text a @ entries_text b"
  by (simp_all add: entries_text_def)

lemma ini_text_simps [simp]: "ini_text [] = []" "ini_text (se # secs) = section_text se @ ini_text secs" "ini_text (a @ b) = ini_text a @ ini_text b"
  by (simp_all add: ini_text_def)

lemma entries_chars: "entries_ok es \<Longrightarrow> b \<in> set (entries_text es) \<Longrightarrow> b \<noteq> 0 \<and> b \<noteq> 91 \<and> b \<noteq> 93"
  by (induction es) (fastforce simp: entries_ok_def entry_text_def dest: wordD)+

lemma ini_chars: "ini_ok secs \<Longrightarrow> 0 \<notin> set (ini_text secs)"
  by (induction secs) (auto simp: ini_ok_def section_text_def dest: wordD entries_chars)

text \<open>The end of a section.\<close>

lemma section_end_inside: "\<lbrakk>buf = a @ w @ rest; \<forall>b \<in> set w. b \<noteq> 0 \<and> \<not> eol b; length a + length w \<le> q\<rbrakk> \<Longrightarrow>
    section_end buf False (length a) q = section_end buf False (length a + length w) q"
proof (induction w arbitrary: a)
  case (Cons b w)
  have "section_end buf False (length (a @ [b])) q = section_end buf False (length (a @ [b]) + length w) q" by (rule Cons.IH) (use Cons.prems in simp_all)
  then show ?case using Cons.prems by (subst section_end.simps) (simp add: nth_append Let_def)
qed simp

lemma section_end_entry:
  assumes "buf = a @ entry_text (k, v) @ rest" "word k" "word v" "length a + length (entry_text (k, v)) \<le> q"
  shows "section_end buf True (length a) q = section_end buf True (length a + length (entry_text (k, v))) q"
proof -
  obtain b k' where k: "k = b # k'" using assms(2) by (cases k) (simp_all add: word_def)
  note W = wordD [OF assms(2)] wordD [OF assms(3)]
  have "section_end buf True (length a) q = section_end buf False (length (a @ [b])) q"
    using assms(1,4) k W(1) [of b] by (subst section_end.simps) (simp add: nth_append Let_def entry_text_def)
  also have "\<dots> = section_end buf False (length (a @ [b]) + length (k' @ [32, 61, 32] @ v)) q"
    by (rule section_end_inside [where rest = "10 # rest"]) (use assms k W in \<open>auto simp: entry_text_def eol_def\<close>)
  also have "\<dots> = section_end buf True (length a + length (entry_text (k, v))) q"
    using assms(1,4) k by (subst section_end.simps) (simp add: nth_append Let_def entry_text_def eol_def)
  finally show ?thesis .
qed

lemma section_end_entries:
  "\<lbrakk>buf = a @ entries_text es @ d # rest; entries_ok es; d = 91 \<or> d = 0; length a + length (entries_text es) < q\<rbrakk> \<Longrightarrow>
    section_end buf True (length a) q = Some (length a + length (entries_text es))"
proof (induction es arbitrary: a)
  case Nil
  then show ?case by (subst section_end.simps) (auto simp: nth_append Let_def)
next
  case (Cons kv es)
  obtain k v where kv: "kv = (k, v)" by (cases kv)
  have "section_end buf True (length a) q = section_end buf True (length a + length (entry_text (k, v))) q"
    by (rule section_end_entry [where rest = "entries_text es @ d # rest"]) (use Cons.prems kv in \<open>auto simp: entries_ok_def\<close>)
  also have "\<dots> = section_end buf True (length (a @ entry_text (k, v))) q" by simp
  also have "\<dots> = Some (length (a @ entry_text (k, v)) + length (entries_text es))"
    by (rule Cons.IH) (use Cons.prems kv in \<open>auto simp: entries_ok_def\<close>)
  finally show ?case using kv by simp
qed

text \<open>The header of the first section of a name.\<close>

lemma strstr_no_head: "x \<notin> set t \<Longrightarrow> strstr (t @ s) (x # p) = map_option ((+) (length t)) (strstr s (x # p))"
  by (rule strstr_skip) (auto simp: drop_append nth_append Cons_nth_drop_Suc [symmetric] take_Suc_Cons dest!: nth_mem)

lemma header_eq:
  fixes n n' r :: "byte list"
  assumes "take (length n + 2) (91 # n' @ 93 # r) = 91 # n @ [93]" "93 \<notin> set n" "93 \<notin> set n'"
  shows "n' = n"
proof -
  have "91 # n' @ 93 # r = (91 # n @ [93]) @ drop (length n + 2) (91 # n' @ 93 # r)" using assms(1) append_take_drop_id [of "length n + 2" "91 # n' @ 93 # r"] by metis
  then have "n' @ 93 # r = n @ 93 # drop (length n + 2) (91 # n' @ 93 # r)" by simp
  then have "takeWhile (\<lambda>b. b \<noteq> 93) (n' @ 93 # r) = takeWhile (\<lambda>b. b \<noteq> 93) (n @ 93 # drop (length n + 2) (91 # n' @ 93 # r))" by (simp only:)
  moreover have "takeWhile (\<lambda>b. b \<noteq> 93) (m @ 93 # x) = m" if "93 \<notin> set m" for m x :: "byte list"
    using that by (subst takeWhile_append2) auto
  ultimately show ?thesis using assms(2,3) by metis
qed

lemma word_brackets: "word w \<Longrightarrow> 91 \<notin> set (low w) \<and> 93 \<notin> set (low w)"
  by (fastforce simp: image_iff dest: wordD sym [of _ "lower _"])

lemma strstr_section:
  assumes "word n" "word n'" "entries_ok es" "low n' \<noteq> low n"
  shows "strstr (low (section_text (n', es)) @ s) (91 # low n @ [93]) = map_option ((+) (length (section_text (n', es)))) (strstr s (91 # low n @ [93]))"
proof -
  let ?t = "low n' @ [93, 10] @ low (entries_text es)" and ?pat = "91 # low n @ [93]"
  have "91 \<notin> set ?t" using wordD [OF assms(2)] entries_chars [OF assms(3)] by (fastforce simp: image_iff dest: sym [of 91])
  then have "strstr (?t @ s) ?pat = map_option ((+) (length ?t)) (strstr s ?pat)" by (rule strstr_no_head)
  moreover have "take (length ?pat) (91 # ?t @ s) \<noteq> ?pat"
    using header_eq [of "low n" "low n'" "10 # low (entries_text es) @ s"] assms(4) word_brackets [OF assms(1)] word_brackets [OF assms(2)] by auto
  ultimately have "strstr (91 # ?t @ s) ?pat = map_option ((+) (Suc (length ?t))) (strstr s ?pat)"
    by (cases "strstr s ?pat") (simp_all del: append.simps append_assoc)
  then show ?thesis by (simp add: section_text_def)
qed

lemma strstr_sections:
  assumes "word n" "ini_ok s1" "\<forall>(n', es) \<in> set s1. low n' \<noteq> low n"
  shows "strstr (low (ini_text s1) @ s) (91 # low n @ [93]) = map_option ((+) (length (ini_text s1))) (strstr s (91 # low n @ [93]))"
  using assms(2,3)
proof (induction s1)
  case Nil
  then show ?case by (cases "strstr s (91 # low n @ [93])") simp_all
next
  case (Cons se s1)
  obtain n' es where se: "se = (n', es)" by (cases se)
  have "strstr (low (section_text (n', es)) @ low (ini_text s1) @ s) (91 # low n @ [93]) =
      map_option ((+) (length (section_text (n', es)))) (strstr (low (ini_text s1) @ s) (91 # low n @ [93]))"
    by (rule strstr_section) (use Cons.prems se assms(1) in \<open>auto simp: ini_ok_def\<close>)
  also have "strstr (low (ini_text s1) @ s) (91 # low n @ [93]) = map_option ((+) (length (ini_text s1))) (strstr s (91 # low n @ [93]))"
    by (rule Cons.IH) (use Cons.prems in \<open>auto simp: ini_ok_def\<close>)
  finally show ?case using se by (simp add: option.map_comp comp_def add.assoc)
qed

lemma last_ini_text: "s1 \<noteq> [] \<Longrightarrow> ini_ok s1 \<Longrightarrow> ini_text s1 \<noteq> [] \<and> last (ini_text s1) = 10"
proof (induction s1)
  case (Cons se s1)
  have "last (section_text se) = 10"
    by (cases "snd se" rule: rev_cases) (simp_all add: section_text_def entry_text_def)
  moreover have "section_text se \<noteq> []" by (simp add: section_text_def)
  ultimately show ?case using Cons by (cases "s1 = []") (auto simp: ini_ok_def)
qed simp

lemma Search_section:
  assumes "word n" "ini_ok s1" "\<forall>(n', es) \<in> set s1. low n' \<noteq> low n" "low n' = low n"
  shows "SearchMarchStr (low (ini_text s1 @ section_text (n', es) @ rest)) (91 # low n @ [93]) = Some (Some (length (ini_text s1)))"
proof -
  let ?pat = "91 # low n @ [93]" and ?s = "low (ini_text s1 @ section_text (n', es) @ rest)"
  have "take (length ?pat) (low (section_text (n', es) @ rest)) = ?pat" using assms(4) by (simp add: section_text_def)
  then have "strstr (low (section_text (n', es) @ rest)) ?pat = Some 0" by (simp add: section_text_def)
  then have S: "strstr ?s ?pat = Some (length (ini_text s1))" using strstr_sections [OF assms(1-3), of "low (section_text (n', es) @ rest)"] by simp
  have "blank (?s ! (length (ini_text s1) - 1))" if "length (ini_text s1) \<noteq> 0"
    using that last_ini_text [OF _ assms(2)] by (cases "s1 = []") (auto simp: nth_append last_conv_nth blank_def)
  moreover have "?s ! (length (ini_text s1) + length ?pat) = 10" "length (ini_text s1) + length ?pat < length ?s"
    using assms(4) by (auto simp: section_text_def nth_append dest: map_eq_imp_length_eq)
  ultimately show ?thesis unfolding Search_unfold [OF S] by (auto simp: sep_def blank_def)
qed

lemma Search_no_section:
  assumes "word n" "ini_ok s1" "\<forall>(n', es) \<in> set s1. low n' \<noteq> low n"
  shows "SearchMarchStr (low (ini_text s1)) (91 # low n @ [93]) = Some None"
  using strstr_sections [OF assms, of "[]"] by (simp add: Search_None)

lemma LocateSection_found:
  assumes F: "ini_file (ini_text (s1 @ (n', es) # s2)) ini" and ok: "ini_ok (s1 @ (n', es) # s2)" "word n"
    and n: "\<forall>(m, es) \<in> set s1. low m \<noteq> low n" "low n' = low n"
  shows "LocateSection n ini = Some (Some (length (ini_text s1) + length n + 3, length (ini_text s1) + length n + 3 + length (entries_text es)))"
proof -
  let ?secs = "s1 @ (n', es) # s2" and ?pat = "91 # low n @ [93]" and ?h = "ini_text s1 @ [91] @ n' @ [93, 10]"
  let ?text = "ini_text ?secs"
  have l: "length n' = length n" using n(2) by (rule map_eq_imp_length_eq)
  have h: "length ?h = length (ini_text s1) + length n + 3" using l by simp
  have tx: "?text = ?h @ entries_text es @ ini_text s2" by (simp add: section_text_def)
  have z: "0 \<notin> set ?text" by (rule ini_chars [OF ok(1)])
  have f: "m_pszContent ini = Some (?text @ [0])" "m_pszShadow ini = Some (IniFile_ToLower (?text @ [0]))" "m_nSize ini = length ?text"
    using F by (simp_all add: ini_file_def)
  have pat: "IniFile_ToLower ([91] @ n @ [93]) = ?pat" by (simp add: IniFile_ToLower_def)
  have ok1: "ini_ok s1" "ini_ok s2" "entries_ok es" using ok(1) by (auto simp: ini_ok_def)
  have S: "SearchMarchStr (low ?text) ?pat = Some (Some (length (ini_text s1)))"
    using Search_section [OF ok(2) ok1(1) n, of es "ini_text s2"] by simp
  have bound: "length (ini_text s1) + length ?pat \<le> length ?text" "0 < length ?text" using l by (simp_all add: section_text_def)
  have L: "LocateStr ?pat (IniFile_ToLower (?text @ [0])) 0 (length ?text) = Some (Some (length (ini_text s1)))"
    using c_str_shadow [OF z, of 0] S bound by (simp add: LocateStr_def)
  have hq: "length ?h \<le> length ?text" "length ?h - 1 < length ?text" using tx by simp_all
  have "scan eol (?text @ [0]) (length (ini_text s1 @ [91] @ n' @ [93])) (length ?text) = Some (length (ini_text s1 @ [91] @ n' @ [93]) + length ([] :: byte list))"
    by (rule scan_word [where d = 10 and rest = "entries_text es @ ini_text s2 @ [0]"]) (use hq in \<open>simp_all add: section_text_def eol_def\<close>)
  then have sc1: "scan eol (?text @ [0]) (length (ini_text s1) + length ?pat) (length ?text) = Some (length ?h - 1)"
    using l by simp
  have sc2: "scan (\<lambda>c. \<not> eol c) (?text @ [0]) (length ?h - 1) (length ?text) = Some (length ?h)"
  proof -
    have "(?text @ [0]) ! (length ?h - 1) = 10" by (simp add: section_text_def nth_append)
    then have "scan (\<lambda>c. \<not> eol c) (?text @ [0]) (length ?h - 1) (length ?text) = scan (\<lambda>c. \<not> eol c) (?text @ [0]) (length ?h) (length ?text)"
      using hq by (subst scan.simps) (simp add: eol_def)
    also have "\<dots> = Some (length ?h)"
    proof (cases "entries_text es @ ini_text s2")
      case Nil
      then have "length ?h = length ?text" using tx by simp
      then show ?thesis by (subst scan.simps) simp
    next
      case (Cons d rest)
      have "\<not> eol d"
      proof (cases es)
        case Nil
        then show ?thesis using Cons by (cases s2) (simp_all add: section_text_def eol_def split: list.splits)
      next
        case (Cons kv es')
        obtain k v where kv: "kv = (k, v)" "word k" using ok1(3) Cons by (cases kv) (auto simp: entries_ok_def)
        then have "k = d # tl k" using \<open>entries_text es @ ini_text s2 = d # rest\<close> Cons by (cases k) (auto simp: entry_text_def word_def)
        then have "d \<in> set k" by (metis list.set_intros(1))
        then show ?thesis using wordD [OF kv(2)] by blast
      qed
      then have "scan (\<lambda>c. \<not> eol c) (?text @ [0]) (length ?h) (length ?text) = Some (length ?h + length ([] :: byte list))"
        by (intro scan_word [where d = d and rest = "rest @ [0]"]) (use tx Cons in simp_all)
      then show ?thesis by simp
    qed
    finally show ?thesis .
  qed
  have sc3: "section_end (?text @ [0]) True (length ?h) (length ?text + 1) = Some (length ?h + length (entries_text es))"
  proof (rule section_end_entries [OF _ ok1(3)])
    show "?text @ [0] = ?h @ entries_text es @ hd (ini_text s2 @ [0]) # tl (ini_text s2 @ [0])" by (simp add: section_text_def)
    show "hd (ini_text s2 @ [0]) = 91 \<or> hd (ini_text s2 @ [0]) = 0" by (cases s2) (simp_all add: section_text_def)
    show "length ?h + length (entries_text es) < length ?text + 1" by (simp add: section_text_def)
  qed
  note sc = sc1 [unfolded h] sc2 [unfolded h] sc3 [unfolded h]
  show ?thesis unfolding LocateSection_def f prod.case option.case pat Let_def L Option.bind.bind_lunit sc ..
qed

lemma LocateSection_none:
  assumes F: "ini_file (ini_text secs) ini" and ok: "ini_ok secs" "word n" "\<forall>(m, es) \<in> set secs. low m \<noteq> low n"
  shows "LocateSection n ini = Some None"
proof -
  have z: "0 \<notin> set (ini_text secs)" by (rule ini_chars [OF ok(1)])
  have "LocateStr (91 # low n @ [93]) (IniFile_ToLower (ini_text secs @ [0])) 0 (length (ini_text secs)) = Some None"
    using c_str_shadow [OF z, of 0] Search_no_section [OF ok(2,1,3)] by (simp add: LocateStr_def)
  then show ?thesis using F by (simp add: LocateSection_def ini_file_def IniFile_ToLower_def)
qed

section \<open>Reading and writing\<close>

text \<open>The entry a name stands for: the first of its section, which is the first of its name, without regard to case. No key of the section ends with the
  key asked for twice.\<close>

definition same_name :: "byte list \<Rightarrow> byte list \<times> 'a \<Rightarrow> bool" where
  "same_name n = (\<lambda>(m, x). low m = low n)"

definition ini_lookup :: "byte list \<Rightarrow> byte list \<Rightarrow> ini \<Rightarrow> byte list option" where
  "ini_lookup sec key secs =
     (case find (same_name sec) secs of None \<Rightarrow> None
      | Some (n, es) \<Rightarrow> map_option snd (find (same_name key) es))"

definition key_ok :: "byte list \<Rightarrow> ini \<Rightarrow> bool" where
  "key_ok key secs \<longleftrightarrow> word key \<and> (\<forall>(n, es) \<in> set secs. \<forall>(k, v) \<in> set es. \<not> stutters (low k) (low key))"

lemma find_split:
  assumes "find P xs = Some x"
  shows "\<exists>a b. xs = a @ x # b \<and> P x \<and> (\<forall>y \<in> set a. \<not> P y)"
proof -
  obtain i where i: "i < length xs" "P (xs ! i)" "x = xs ! i" "\<forall>j < i. \<not> P (xs ! j)" using assms by (auto simp: find_Some_iff)
  have "xs = take i xs @ x # drop (Suc i) xs" unfolding i(3) by (rule id_take_nth_drop [OF i(1)])
  moreover have "\<forall>y \<in> set (take i xs). \<not> P y" using i(1,4) by (auto simp: in_set_conv_nth)
  ultimately show ?thesis using i(2,3) by blast
qed

lemma LocateKeyValue_entry:
  assumes F: "ini_file text ini" "0 \<notin> set text" and t: "text = pre @ entries_text es @ rest" and ok: "entries_ok es" "word key"
    and st: "\<forall>(k, v) \<in> set es. \<not> stutters (low k) (low key)"
  shows "case find (same_name key) es of
      None \<Rightarrow> LocateKeyValue key (length pre) (length pre + length (entries_text es)) ini = Some None \<and>
        LocateKeyRange key (length pre) (length pre + length (entries_text es)) ini = Some None
    | Some (k, v) \<Rightarrow> \<exists>a b. es = a @ (k, v) # b \<and> low k = low key \<and> (\<forall>(k', v') \<in> set a. low k' \<noteq> low key) \<and>
        (let i = length pre + length (entries_text a) in
         LocateKeyValue key (length pre) (length pre + length (entries_text es)) ini = Some (Some (i + length k + 3, i + length k + 3 + length v)) \<and>
         LocateKeyRange key (length pre) (length pre + length (entries_text es)) ini = Some (Some (i, i + length (entry_text (k, v)))))"
proof (cases "find (same_name key) es")
  case None
  then have "\<forall>(k, v) \<in> set es. word k \<and> word v \<and> low k \<noteq> low key \<and> \<not> stutters (low k) (low key)"
    using ok(1) st by (auto simp: find_None_iff same_name_def entries_ok_def)
  then have "LocateKeyValue key (length pre) (length pre + length (entries_text es)) ini = Some None"
    "LocateKeyRange key (length pre) (length pre + length (entries_text es)) ini = Some None"
    using key_value.K_entries [OF F ok(2) t, of "length pre + length (entries_text es)"] key_value.K_end
      key_range.K_entries [OF F ok(2) t, of "length pre + length (entries_text es)"] key_range.K_end t by simp_all
  then show ?thesis using None by simp
next
  case (Some kv)
  obtain k v where kv: "kv = (k, v)" by (cases kv)
  obtain a b where ab: "es = a @ (k, v) # b" "low k = low key" "\<forall>kv \<in> set a. \<not> same_name key kv"
    using find_split [OF Some] kv by (auto simp: same_name_def)
  let ?q = "length pre + length (entries_text es)" and ?pre = "pre @ entries_text a"
  have w: "word k" "word v" "\<forall>(k, v) \<in> set a. word k \<and> word v \<and> low k \<noteq> low key \<and> \<not> stutters (low k) (low key)"
    using ok(1) st ab by (auto simp: entries_ok_def same_name_def)
  have ta: "text = pre @ entries_text a @ (entry_text (k, v) @ entries_text b @ rest)" using t ab(1) by simp
  have tk: "text = ?pre @ k @ 32 # 61 # (32 # v @ 10 # entries_text b @ rest)" using ta by (simp add: entry_text_def)
  have q: "length pre + length (entries_text a) \<le> ?q" "?q \<le> length text" "length ?pre + length k + 2 \<le> ?q" "length ?pre + length (entry_text (k, v)) \<le> ?q"
    using t ab(1) by simp_all
  have c: "text @ [0] = ?pre @ entry_text (k, v) @ (entries_text b @ rest @ [0])" using ta by simp
  have nl: "?q = length ?pre + length (entry_text (k, v)) \<or> (\<exists>d r. entries_text b @ rest @ [0] = d # r \<and> \<not> eol d)"
  proof (cases b)
    case Nil
    then show ?thesis using ab(1) by simp
  next
    case (Cons kv' b')
    obtain k' v' where kv': "kv' = (k', v')" "word k'" using ok(1) ab(1) Cons by (cases kv') (auto simp: entries_ok_def)
    then obtain d k'' where "k' = d # k''" by (cases k') (auto simp: word_def)
    then show ?thesis using Cons kv' wordD [OF kv'(2), of d] by (simp add: entry_text_def)
  qed
  have "LocateKeyValue key (length pre) ?q ini = Some (Some (length ?pre + length k + 3, length ?pre + length k + 3 + length v))"
    using key_value.K_entries [OF F ok(2) ta w(3) q(1,2)] key_value.K_found [OF F tk ab(2) ok(2) q(3,2)] value_fin_ok [OF c w(2) q(4)] by simp
  moreover have "LocateKeyRange key (length pre) ?q ini = Some (Some (length ?pre, length ?pre + length (entry_text (k, v))))"
    using key_range.K_entries [OF F ok(2) ta w(3) q(1,2)] key_range.K_found [OF F tk ab(2) ok(2) q(3,2)] range_fin_ok [OF c w(2) q(4) nl] by simp
  moreover have "\<forall>(k', v') \<in> set a. low k' \<noteq> low key" using w(3) by blast
  ultimately show ?thesis using Some kv ab(1,2) by (simp add: Let_def del: append_eq_append_conv) (intro exI [of _ a] exI [of _ b] conjI refl; simp)
qed

text \<open>The section a name stands for, and where it is in the file.\<close>

lemma section_place:
  assumes "find (same_name sec) secs = Some (n, es)"
  shows "\<exists>s1 s2. secs = s1 @ (n, es) # s2 \<and> low n = low sec \<and> (\<forall>(m, es) \<in> set s1. low m \<noteq> low sec) \<and>
    ini_text secs = (ini_text s1 @ [91] @ n @ [93, 10]) @ entries_text es @ ini_text s2 \<and>
    length (ini_text s1 @ [91] @ n @ [93, 10]) = length (ini_text s1) + length sec + 3"
proof -
  obtain s1 s2 where s: "secs = s1 @ (n, es) # s2" "low n = low sec" "\<forall>y \<in> set s1. \<not> same_name sec y"
    using find_split [OF assms] by (auto simp: same_name_def)
  have "length n = length sec" using s(2) by (rule map_eq_imp_length_eq)
  then show ?thesis using s by (intro exI [of _ s1] exI [of _ s2]) (auto simp: section_text_def same_name_def)
qed

lemma GetItemValue_at:
  assumes F: "ini_file text ini" and S: "LocateSection sec ini = Some (Some (sb, se))" "LocateKeyValue key sb se ini = Some (Some (b, b + length v))"
    and d: "drop b (text @ [0]) = v @ rest" and n: "length v < n - 1"
  shows "GetItemValue sec key n ini = Some v"
proof -
  have f: "m_bIsOpen ini" "m_pszContent ini = Some (text @ [0])" using F by (simp_all add: ini_file_def)
  have m: "min (b + length v - b) (n - 1) = length v" "length v \<noteq> n - 1" using n by auto
  have t: "take (length v) (v @ rest) = v" by simp
  have n0: "(\<not> m_bIsOpen ini \<or> n = 0) = False" using f(1) n by simp
  show ?thesis
    unfolding GetItemValue_def n0 if_False S Option.bind.bind_lunit option.case prod.case f(2) Let_def m(1) d t using m(2) by simp
qed

lemma GetItemValue_lookup:
  assumes F: "ini_file (ini_text secs) ini" and ok: "ini_ok secs" "word sec" "key_ok key secs"
    and n: "2 \<le> n" "\<forall>v. ini_lookup sec key secs = Some v \<longrightarrow> length v < n - 1"
  shows "GetItemValue sec key n ini = Some (case ini_lookup sec key secs of None \<Rightarrow> [] | Some v \<Rightarrow> v)"
proof -
  have f: "m_bIsOpen ini" "m_pszContent ini = Some (ini_text secs @ [0])" using F by (simp_all add: ini_file_def)
  show ?thesis
  proof (cases "find (same_name sec) secs")
    case None
    then have "\<forall>(m, es) \<in> set secs. low m \<noteq> low sec" by (auto simp: find_None_iff same_name_def)
    then have "LocateSection sec ini = Some None" by (rule LocateSection_none [OF F ok(1,2)])
    then show ?thesis using f None n(1) by (simp add: GetItemValue_def ini_lookup_def)
  next
    case (Some se)
    obtain m es where se: "se = (m, es)" by (cases se)
    obtain s1 s2 where s: "secs = s1 @ (m, es) # s2" "low m = low sec" "\<forall>(m, es) \<in> set s1. low m \<noteq> low sec"
      and tx: "ini_text secs = (ini_text s1 @ [91] @ m @ [93, 10]) @ entries_text es @ ini_text s2"
      and h: "length (ini_text s1 @ [91] @ m @ [93, 10]) = length (ini_text s1) + length sec + 3"
      using section_place [OF Some [unfolded se]] by blast
    let ?h = "ini_text s1 @ [91] @ m @ [93, 10]"
    have S: "LocateSection sec ini = Some (Some (length ?h, length ?h + length (entries_text es)))"
      unfolding h by (rule LocateSection_found [OF F [unfolded s(1)] ok(1) [unfolded s(1)] ok(2) s(3,2)])
    have e: "entries_ok es" "\<forall>(k, v) \<in> set es. \<not> stutters (low k) (low key)" "word key" using ok s(1) by (auto simp: ini_ok_def key_ok_def)
    note K = LocateKeyValue_entry [OF F ini_chars [OF ok(1)] tx e(1,3,2)]
    show ?thesis
    proof (cases "find (same_name key) es")
      case none: None
      then have "LocateKeyValue key (length ?h) (length ?h + length (entries_text es)) ini = Some None" using K by simp
      then show ?thesis using f Some se none S n(1) by (simp add: GetItemValue_def ini_lookup_def)
    next
      case some: (Some kv)
      obtain k v where kv: "kv = (k, v)" by (cases kv)
      obtain a b where ab: "es = a @ (k, v) # b"
        "LocateKeyValue key (length ?h) (length ?h + length (entries_text es)) ini =
          Some (Some (length ?h + length (entries_text a) + length k + 3, length ?h + length (entries_text a) + length k + 3 + length v))"
        using K some kv by (auto simp: Let_def)
      let ?i = "length ?h + length (entries_text a) + length k + 3"
      have v: "ini_lookup sec key secs = Some v" using Some se some kv by (simp add: ini_lookup_def)
      have "ini_text secs @ [0] = (?h @ entries_text a @ k @ [32, 61, 32]) @ v @ 10 # entries_text b @ ini_text s2 @ [0]"
        using tx ab(1) by (simp add: entry_text_def)
      moreover have "length (?h @ entries_text a @ k @ [32, 61, 32]) = ?i" by simp
      ultimately have d: "drop ?i (ini_text secs @ [0]) = v @ 10 # entries_text b @ ini_text s2 @ [0]" by (metis append_eq_conv_conj)
      show ?thesis unfolding v option.case by (rule GetItemValue_at [OF F S ab(2) d]) (use n(2) v in simp)
    qed
  qed
qed

lemma word_c_str: "word v \<Longrightarrow> v \<noteq> [] \<and> c_str v = v"
  by (simp add: word_def c_str_def takeWhile_eq_all_conv)

lemma IniFile_ReadInt_lookup:
  assumes "ini_file (ini_text secs) ini" "ini_ok secs" "word sec" "key_ok key secs" "\<forall>v. ini_lookup sec key secs = Some v \<longrightarrow> v \<noteq> [] \<and> length v < 99"
  shows "IniFile_ReadInt sec key i ini = Some (case ini_lookup sec key secs of None \<Rightarrow> i | Some v \<Rightarrow> atoi v)"
proof -
  have "GetItemValue sec key 100 ini = Some (case ini_lookup sec key secs of None \<Rightarrow> [] | Some v \<Rightarrow> v)"
    by (rule GetItemValue_lookup [OF assms(1-4)]) (use assms(5) in simp_all)
  then show ?thesis using assms(5) by (auto simp: IniFile_ReadInt_def GetItemValue_int_default_def GetItemValue_int_def split: option.split)
qed

text \<open>C22: what is written in a configuration file is read back. For a file made of sections \<open>[name]\<close> and lines \<open>key = value\<close>, \<open>ReadString\<close> and \<open>ReadInt\<close>
  give the value of the first entry of that key in the first section of that name, without regard to case, and the default when there is none; the
  exception is a key that ends with the key asked for twice (see \<open>stuttering_key_misread\<close>).\<close>

theorem ini_values_read_back:
  assumes "fopen name = Some (ini_text secs)" "ini_ok secs" "word sec" "key_ok key secs"
    and "\<forall>v. ini_lookup sec key secs = Some v \<longrightarrow> length v < 99"
  shows "IniFile_ReadString sec key d (snd (OpenFile (Some name) fopen True True ini)) =
      Some (case ini_lookup sec key secs of None \<Rightarrow> c_str d | Some v \<Rightarrow> v) \<and>
    IniFile_ReadInt sec key i (snd (OpenFile (Some name) fopen True True ini)) = Some (case ini_lookup sec key secs of None \<Rightarrow> i | Some v \<Rightarrow> atoi v)"
proof -
  have F: "ini_file (ini_text secs) (snd (OpenFile (Some name) fopen True True ini))" by (rule OpenFile_ok) (rule assms(1))
  have v: "v \<noteq> [] \<and> c_str v = v" if lk: "ini_lookup sec key secs = Some v" for v
  proof -
    obtain n es k where "find (same_name sec) secs = Some (n, es)" "find (same_name key) es = Some (k, v)"
      using lk by (auto simp: ini_lookup_def split: option.splits)
    then have "(n, es) \<in> set secs" "(k, v) \<in> set es" by (metis find_Some_iff nth_mem)+
    then have "word v" using assms(2) by (auto simp: ini_ok_def entries_ok_def)
    then show ?thesis by (rule word_c_str)
  qed
  have "GetItemValue sec key 1024 (snd (OpenFile (Some name) fopen True True ini)) = Some (case ini_lookup sec key secs of None \<Rightarrow> [] | Some v \<Rightarrow> v)"
    by (rule GetItemValue_lookup [OF F assms(2-4)]) (use assms(5) in fastforce)+
  moreover have "IniFile_ReadInt sec key i (snd (OpenFile (Some name) fopen True True ini)) = Some (case ini_lookup sec key secs of None \<Rightarrow> i | Some v \<Rightarrow> atoi v)"
    by (rule IniFile_ReadInt_lookup [OF F assms(2-4)]) (use assms(5) v in simp)
  ultimately show ?thesis using v by (auto simp: IniFile_ReadString_def split: option.split)
qed

text \<open>Setting a value: the entry is replaced, or put in front of the others of the section when there is none; a missing section is an error.\<close>

fun replace_entry :: "byte list \<Rightarrow> byte list \<Rightarrow> (byte list \<times> byte list) list \<Rightarrow> (byte list \<times> byte list) list option" where
  "replace_entry key v [] = None"
| "replace_entry key v (kv # es) = (if same_name key kv then Some ((key, v) # es) else map_option ((#) kv) (replace_entry key v es))"

definition set_entry :: "byte list \<Rightarrow> byte list \<Rightarrow> (byte list \<times> byte list) list \<Rightarrow> (byte list \<times> byte list) list" where
  "set_entry key v es = (case replace_entry key v es of None \<Rightarrow> (key, v) # es | Some es' \<Rightarrow> es')"

fun ini_set :: "byte list \<Rightarrow> byte list \<Rightarrow> byte list \<Rightarrow> ini \<Rightarrow> ini option" where
  "ini_set sec key v [] = None"
| "ini_set sec key v (se # secs) =
     (if same_name sec se then Some ((fst se, set_entry key v (snd se)) # secs) else map_option ((#) se) (ini_set sec key v secs))"

lemma replace_entry_split: "\<forall>(k', v') \<in> set a. low k' \<noteq> low key \<Longrightarrow> low k = low key \<Longrightarrow> replace_entry key v (a @ (k, w) # b) = Some (a @ (key, v) # b)"
  by (induction a) (auto simp: same_name_def)

lemma replace_entry_none: "find (same_name key) es = None \<Longrightarrow> replace_entry key v es = None"
  by (induction es) (auto split: if_splits)

lemma ini_set_split: "\<forall>(m, es) \<in> set s1. low m \<noteq> low sec \<Longrightarrow> low n = low sec \<Longrightarrow> ini_set sec key v (s1 @ (n, es) # s2) = Some (s1 @ (n, set_entry key v es) # s2)"
  by (induction s1) (auto simp: same_name_def)

lemma ini_set_none: "find (same_name sec) secs = None \<Longrightarrow> ini_set sec key v secs = None"
  by (induction secs) (auto split: if_splits)

lemma replace_entry_find: "replace_entry key v es = Some es' \<Longrightarrow>
    map_option snd (find (same_name k) es') = (if low k = low key then Some v else map_option snd (find (same_name k) es))"
  by (induction es arbitrary: es') (auto simp: same_name_def split: if_splits)

lemma set_entry_find: "map_option snd (find (same_name k) (set_entry key v es)) = (if low k = low key then Some v else map_option snd (find (same_name k) es))"
proof (cases "replace_entry key v es")
  case None
  then show ?thesis by (auto simp: set_entry_def same_name_def)
next
  case (Some es')
  then show ?thesis using replace_entry_find [OF Some, of k] by (simp add: set_entry_def)
qed

lemma ini_set_lookup: "ini_set sec key v secs = Some secs' \<Longrightarrow> ini_lookup sec k secs' = (if low k = low key then Some v else ini_lookup sec k secs)"
  by (induction secs arbitrary: secs')
    (auto simp: ini_lookup_def same_name_def set_entry_find [unfolded same_name_def] split: if_splits prod.splits)

lemma replace_entry_ok: "replace_entry key v es = Some es' \<Longrightarrow> entries_ok es \<Longrightarrow> word key \<Longrightarrow> word v \<Longrightarrow> entries_ok es'"
  by (induction es arbitrary: es') (auto simp: entries_ok_def split: if_splits)

lemma set_entry_ok: "entries_ok es \<Longrightarrow> word key \<Longrightarrow> word v \<Longrightarrow> entries_ok (set_entry key v es)"
  by (auto simp: set_entry_def replace_entry_ok split: option.split) (simp add: entries_ok_def)

lemma ini_set_ok: "ini_set sec key v secs = Some secs' \<Longrightarrow> ini_ok secs \<Longrightarrow> word key \<Longrightarrow> word v \<Longrightarrow> ini_ok secs'"
  by (induction secs arbitrary: secs') (auto simp: ini_ok_def set_entry_ok split: if_splits)

text \<open>Replacing the bytes of a range.\<close>

lemma SetItemValue_range:
  assumes F: "ini_file text ini" and S: "LocateSection sec ini = Some (Some (sb, se))" and R: "LocateKeyRange key sb se ini = Some r"
    and be: "(case r of None \<Rightarrow> (sb, sb) | Some be \<Rightarrow> be) = (length pre, length pre + length old)" and t: "text = pre @ old @ post"
  shows "\<exists>ini'. SetItemValue sec key v (Some (length (pre @ entry_text (key, v) @ post))) ini = Some (True, ini', Some (pre @ entry_text (key, v) @ post)) \<and>
    ini_file (pre @ entry_text (key, v) @ post) ini'"
proof -
  have f: "m_bIsOpen ini" "m_pszContent ini = Some (text @ [0])" "m_pszFilename ini \<noteq> None" "m_nSize ini = length text" using F by (simp_all add: ini_file_def)
  have new: "take (length pre) (text @ [0]) @ (key @ [32, 61, 32] @ v @ [10]) @ drop (length pre + length old) (text @ [0]) = (pre @ entry_text (key, v) @ post) @ [0]"
    using t by (simp add: entry_text_def)
  have size: "m_nSize ini - (length pre + length old - length pre) + length (key @ [32, 61, 32] @ v @ [10]) = length (pre @ entry_text (key, v) @ post)"
    using t f(4) by simp
  obtain fn where fn: "m_pszFilename ini = Some fn" using f(3) by blast
  let ?ini = "ini\<lparr>m_nSize := length (pre @ entry_text (key, v) @ post), m_pszContent := Some ((pre @ entry_text (key, v) @ post) @ [0]),
      m_pszShadow := Some (IniFile_ToLower ((pre @ entry_text (key, v) @ post) @ [0]))\<rparr>"
  have nf: "(\<not> m_bIsOpen ini) = False" using f(1) by simp
  have "SetItemValue sec key v (Some (length (pre @ entry_text (key, v) @ post))) ini = Some (True, ?ini, Some (pre @ entry_text (key, v) @ post))"
    unfolding SetItemValue_def nf if_False S Option.bind.bind_lunit option.case prod.case R be f(2) Let_def new size by (simp add: fn)
  moreover have "ini_file (pre @ entry_text (key, v) @ post) ?ini" using f(1) fn by (simp add: ini_file_def)
  ultimately show ?thesis by blast
qed

text \<open>C39: \<open>SetItemValue\<close> updates the file. On a file made of sections and lines it writes the file in which the entry of that key in that section has the new
  value and everything else is as it was, and keeps the object in step with the file, so that the value can be read back at once; it fails, and
  changes nothing, exactly when there is no such section.\<close>

theorem set_item_value_updates:
  assumes F: "ini_file (ini_text secs) ini" and ok: "ini_ok secs" "word sec" "key_ok key secs" "word v"
  shows "case ini_set sec key v secs of
      None \<Rightarrow> SetItemValue sec key v fw ini = Some (False, ini, None)
    | Some secs' \<Rightarrow> ini_ok secs' \<and> (\<forall>k. ini_lookup sec k secs' = (if low k = low key then Some v else ini_lookup sec k secs)) \<and>
        (\<exists>ini'. SetItemValue sec key v (Some (length (ini_text secs'))) ini = Some (True, ini', Some (ini_text secs')) \<and> ini_file (ini_text secs') ini')"
proof (cases "find (same_name sec) secs")
  case None
  then have "\<forall>(m, es) \<in> set secs. low m \<noteq> low sec" by (auto simp: find_None_iff same_name_def)
  then have "LocateSection sec ini = Some None" by (rule LocateSection_none [OF F ok(1,2)])
  moreover have "m_bIsOpen ini" using F by (simp add: ini_file_def)
  ultimately show ?thesis using ini_set_none [OF None] by (simp add: SetItemValue_def)
next
  case (Some se)
  obtain n es where se: "se = (n, es)" by (cases se)
  obtain s1 s2 where s: "secs = s1 @ (n, es) # s2" "low n = low sec" "\<forall>(m, es) \<in> set s1. low m \<noteq> low sec"
    and tx: "ini_text secs = (ini_text s1 @ [91] @ n @ [93, 10]) @ entries_text es @ ini_text s2"
    and h: "length (ini_text s1 @ [91] @ n @ [93, 10]) = length (ini_text s1) + length sec + 3"
    using section_place [OF Some [unfolded se]] by blast
  let ?h = "ini_text s1 @ [91] @ n @ [93, 10]"
  have S: "LocateSection sec ini = Some (Some (length ?h, length ?h + length (entries_text es)))"
    unfolding h by (rule LocateSection_found [OF F [unfolded s(1)] ok(1) [unfolded s(1)] ok(2) s(3,2)])
  have e: "entries_ok es" "\<forall>(k, v) \<in> set es. \<not> stutters (low k) (low key)" "word key" using ok s(1) by (auto simp: ini_ok_def key_ok_def)
  note K = LocateKeyValue_entry [OF F ini_chars [OF ok(1)] tx e(1,3,2)]
  let ?secs = "s1 @ (n, set_entry key v es) # s2"
  have set: "ini_set sec key v secs = Some ?secs" unfolding s(1) by (rule ini_set_split [OF s(3,2)])
  have text': "ini_text ?secs = ?h @ entries_text (set_entry key v es) @ ini_text s2" by (simp add: section_text_def)
  have "\<exists>ini'. SetItemValue sec key v (Some (length (ini_text ?secs))) ini = Some (True, ini', Some (ini_text ?secs)) \<and> ini_file (ini_text ?secs) ini'"
  proof (cases "find (same_name key) es")
    case none: None
    then have R: "LocateKeyRange key (length ?h) (length ?h + length (entries_text es)) ini = Some None" using K by simp
    have t: "ini_text ?secs = ?h @ entry_text (key, v) @ entries_text es @ ini_text s2"
      using text' replace_entry_none [OF none] by (simp add: set_entry_def)
    show ?thesis unfolding t
      by (rule SetItemValue_range [OF F S R, where old = "[]"]) (simp_all add: tx)
  next
    case some: (Some kv)
    obtain k w where kv: "kv = (k, w)" by (cases kv)
    obtain a b where ab: "es = a @ (k, w) # b" "low k = low key" "\<forall>(k', v') \<in> set a. low k' \<noteq> low key"
      "LocateKeyRange key (length ?h) (length ?h + length (entries_text es)) ini =
        Some (Some (length ?h + length (entries_text a), length ?h + length (entries_text a) + length (entry_text (k, w))))"
      using K some kv by (auto simp: Let_def)
    have t: "ini_text ?secs = (?h @ entries_text a) @ entry_text (key, v) @ entries_text b @ ini_text s2"
      using text' replace_entry_split [OF ab(3,2), of v w b] ab(1) by (simp add: set_entry_def)
    show ?thesis unfolding t
      by (rule SetItemValue_range [OF F S ab(4), where old = "entry_text (k, w)"]) (simp_all add: tx ab(1))
  qed
  then show ?thesis using set ini_set_ok [OF set ok(1) e(3) ok(4)] ini_set_lookup [OF set] by simp
qed

lemma IniFile_ReadInt_total: "ini_file text ini \<Longrightarrow> key \<noteq> [] \<Longrightarrow> \<exists>w. IniFile_ReadInt sec key n ini = Some w"
  using GetItemValue_ok [of "text" ini key 100 sec] by (auto simp: IniFile_ReadInt_def GetItemValue_int_default_def GetItemValue_int_def)

text \<open>C40: reading the configuration always ends, within the buffer, whatever the file holds: for any key that is not empty \<open>ReadString\<close> returns the default, or
  a piece of the file of less than a kilobyte without tabs and line ends, and \<open>ReadInt\<close> returns.\<close>

theorem ini_reads_end:
  assumes "ini_file text ini" "key \<noteq> []"
  shows "(\<exists>v. IniFile_ReadString sec key d ini = Some v \<and>
      (v = c_str d \<or> plain_value v \<and> length v < 1024 \<and> (\<exists>i. v = take (length v) (drop i text)))) \<and>
    (\<exists>w. IniFile_ReadInt sec key n ini = Some w)"
proof -
  obtain v where v: "GetItemValue sec key 1024 ini = Some v" "plain_value v" "length v < 1024" "\<exists>i. v = take (length v) (drop i text)"
    using GetItemValue_ok [OF assms, of 1024 sec] by auto
  obtain i where i: "v = take (length v) (drop i text)" using v(4) by blast
  have c: "c_str v = take (length (c_str v)) v" "length (c_str v) \<le> length v" unfolding c_str_def by (rule takeWhile_eq_take, rule length_takeWhile_le)
  then have "c_str v = take (length (c_str v)) (drop i text)" using i by (metis min.absorb1 take_take)
  moreover have "plain_value (c_str v)" using v(2) by (auto simp: plain_value_def c_str_def dest: set_takeWhileD)
  ultimately show ?thesis using v(1,3) c(2) IniFile_ReadInt_total [OF assms] by (auto simp: IniFile_ReadString_def)
qed

text \<open>A key can be mistaken for another. After an occurrence of the key that is only part of a longer name, the search goes on right behind it and does not
  look at what is before the next occurrence: in a section with a key that is the one asked for written twice, its value is returned in place of the
  value of the key.\<close>

theorem stuttering_key_misread:
  assumes "ini_file (ini_text [(sec, [(key @ key, v), (key, w)])]) ini" "word sec" "word key" "word v" "word w" "length v < 1023"
  shows "IniFile_ReadString sec key d ini = Some v \<and> ini_lookup sec key [(sec, [(key @ key, v), (key, w)])] = Some w"
proof -
  let ?es = "[(key @ key, v), (key, w)]" and ?secs = "[(sec, [(key @ key, v), (key, w)])]"
  let ?text = "ini_text ?secs" and ?h = "[91] @ sec @ [93, 10]"
  let ?q = "length ?h + length (entries_text ?es)"
  have ok: "ini_ok ?secs" using assms(2-5) by (auto simp: ini_ok_def entries_ok_def word_def)
  have z: "0 \<notin> set ?text" by (rule ini_chars [OF ok])
  have tx: "?text = ?h @ entry_text (key @ key, v) @ entry_text (key, w)" by (simp add: section_text_def)
  have S: "LocateSection sec ini = Some (Some (length ?h, ?q))"
  proof -
    have h: "length ?h = length (ini_text []) + length sec + 3" by simp
    show ?thesis unfolding h by (rule LocateSection_found [of "[]" sec ?es "[]" ini sec]) (use assms(1,2) ok in \<open>simp_all only: append_Nil list.set(1) ball_empty\<close>)
  qed
  obtain b key' where k: "key = b # key'" using assms(3) by (cases key) (auto simp: word_def)
  have b: "\<not> sep b" using assms(3) k by (simp add: word_def)
  let ?r = "low key @ 32 # 61 # 32 # low v @ 10 # low (entry_text (key, w))"
  have 1: "strstr (low key @ ?r) (low key) = Some 0" "strstr ?r (low key) = Some 0" by (simp_all add: k)
  have "SearchMarchStr ?r (low key) = Some (Some 0)" unfolding Search_unfold [OF 1(2)] by (simp add: nth_append sep_def blank_def)
  then have "SearchMarchStr (low key @ ?r) (low key) = Some (Some (length key))"
    unfolding Search_unfold [OF 1(1)] using b by (simp add: nth_append k)
  then have search: "SearchMarchStr (low (drop (length ?h) ?text)) (low key) = Some (Some (length key))" unfolding tx by (simp add: entry_text_def)
  have q: "length ?h < ?q" "?q \<le> length ?text" unfolding tx by simp_all
  have c: "?text @ [0] = ?h @ entry_text (key @ key, v) @ (entry_text (key, w) @ [0])" by (simp add: section_text_def)
  have "scan (\<lambda>c. c \<noteq> 32 \<and> c \<noteq> 9) (?text @ [0]) (length (?h @ key @ key)) ?q = Some (length (?h @ key @ key) + length [32 :: byte])"
    by (rule scan_word [where d = 61 and rest = "32 # v @ [10] @ entry_text (key, w) @ [0]"]) (simp_all add: section_text_def entry_text_def)
  then have sc: "scan (\<lambda>c. c \<noteq> 32 \<and> c \<noteq> 9) (?text @ [0]) (length ?h + length key + length key) ?q = Some (length ?h + length (key @ key) + 1)"
    by (simp add: add.assoc)
  have ch: "char_at (?text @ [0]) (length ?h + length (key @ key) + 1) = Some 61"
    unfolding c by (simp add: char_at_def nth_append entry_text_def)
  have fin: "value_fin (?text @ [0]) (length ?h + length key) (length ?h + length (key @ key) + 1) ?q =
      Some (Some (length ?h + length (key @ key) + 3, length ?h + length (key @ key) + 3 + length v))"
    by (rule value_fin_ok [OF c assms(4)]) simp
  have "\<not> ?q < length ?h + length key + length key" by simp
  then have K: "LocateKeyValue key (length ?h) ?q ini = Some (Some (length ?h + length (key @ key) + 3, length ?h + length (key @ key) + 3 + length v))"
    unfolding key_value.K_step [OF assms(1) z q] search Option.bind.bind_lunit option.case sc ch fin by simp
  have "?text @ [0] = (?h @ key @ key @ [32, 61, 32]) @ v @ 10 # entry_text (key, w) @ [0]" unfolding c by (simp add: entry_text_def)
  moreover have "length (?h @ key @ key @ [32, 61, 32]) = length ?h + length (key @ key) + 3" by simp
  ultimately have "drop (length ?h + length (key @ key) + 3) (?text @ [0]) = v @ 10 # entry_text (key, w) @ [0]" by (metis append_eq_conv_conj)
  then have "GetItemValue sec key 1024 ini = Some v" by (rule GetItemValue_at [OF assms(1) S K]) (use assms(6) in simp)
  moreover have "low (key @ key) \<noteq> low key" using k by (auto dest: map_eq_imp_length_eq)
  ultimately show ?thesis using word_c_str [OF assms(4)] by (simp add: IniFile_ReadString_def ini_lookup_def same_name_def)
qed

section \<open>A sample\<close>

definition ini1 :: ini where
  "ini1 = [(bytes_of_string ''LOG'', [(bytes_of_string ''LOGDIR'', bytes_of_string ''./'')]),
     (bytes_of_string ''LEVELCOUNT'', [(bytes_of_string ''RANDCOUNT'', bytes_of_string ''0''), (bytes_of_string ''ADDCOUNT'', bytes_of_string ''3'')])]"

definition opened :: "byte list \<Rightarrow> IniFile" where
  "opened f = snd (OpenFile (Some (bytes_of_string ''user.ini'')) (\<lambda>_. Some f) True True IniFile_new)"

lemma opened_ok: "ini_file f (opened f)"
  unfolding opened_def by (rule OpenFile_ok) simp

lemma ini1_ok: "ini_ok ini1" "word (bytes_of_string ''LEVELCOUNT'')" "key_ok (bytes_of_string ''ADDCOUNT'') ini1" "key_ok (bytes_of_string ''RANDCOUNT'') ini1"
  by (simp_all add: ini_ok_def entries_ok_def key_ok_def stutters_def ini1_def word_def bytes_of_string_def sep_def blank_def lower_def)

lemma ini1_lookup: "ini_lookup (bytes_of_string ''LEVELCOUNT'') (bytes_of_string ''ADDCOUNT'') ini1 = Some (bytes_of_string ''3'')"
  "ini_lookup (bytes_of_string ''LEVELCOUNT'') (bytes_of_string ''RANDCOUNT'') ini1 = Some (bytes_of_string ''0'')"
  by (simp_all add: ini_lookup_def same_name_def ini1_def bytes_of_string_def lower_def)

theorem ini_values_read_back_witness:
  "IniFile_ReadInt (bytes_of_string ''LEVELCOUNT'') (bytes_of_string ''ADDCOUNT'') 0 (opened (ini_text ini1)) = Some (atoi (bytes_of_string ''3''))"
  using ini_values_read_back [of "\<lambda>_. Some (ini_text ini1)" "bytes_of_string ''user.ini''" ini1, OF refl ini1_ok(1-3)]
  by (simp add: ini1_lookup opened_def)

theorem set_item_value_updates_witness:
  "\<exists>ini' secs'. SetItemValue (bytes_of_string ''LEVELCOUNT'') (bytes_of_string ''ADDCOUNT'') (bytes_of_string ''12'') (Some (length (ini_text secs'))) (opened (ini_text ini1)) =
     Some (True, ini', Some (ini_text secs')) \<and> ini_lookup (bytes_of_string ''LEVELCOUNT'') (bytes_of_string ''ADDCOUNT'') secs' = Some (bytes_of_string ''12'')"
proof -
  have "word (bytes_of_string ''12'')" by (simp add: word_def bytes_of_string_def sep_def blank_def)
  moreover obtain secs' where "ini_set (bytes_of_string ''LEVELCOUNT'') (bytes_of_string ''ADDCOUNT'') (bytes_of_string ''12'') ini1 = Some secs'"
    by (simp add: ini1_def same_name_def bytes_of_string_def lower_def)
  ultimately show ?thesis using set_item_value_updates [OF opened_ok ini1_ok(1-3)] by (fastforce split: option.splits)
qed

theorem ini_reads_end_witness:
  "\<exists>v w. IniFile_ReadString [65] [66] [67] (opened [91, 65, 93, 10, 66, 66, 61, 66, 61]) = Some v \<and> IniFile_ReadInt [65] [66] 7 (opened [91, 65, 93, 10, 66, 66, 61, 66, 61]) = Some w"
  using ini_reads_end [OF opened_ok, of "[66]" "[65]" "[67]" "[91, 65, 93, 10, 66, 66, 61, 66, 61]" 7] by blast

theorem stuttering_key_misread_witness:
  "IniFile_ReadString (bytes_of_string ''TJSvr'') (bytes_of_string ''PORT'') [] (opened (ini_text [(bytes_of_string ''TJSvr'',
     [(bytes_of_string ''PORTPORT'', bytes_of_string ''1''), (bytes_of_string ''PORT'', bytes_of_string ''9000'')])])) = Some (bytes_of_string ''1'')"
proof -
  have "bytes_of_string ''PORTPORT'' = bytes_of_string ''PORT'' @ bytes_of_string ''PORT''" by (simp add: bytes_of_string_def)
  moreover have "word (bytes_of_string ''TJSvr'')" "word (bytes_of_string ''PORT'')" "word (bytes_of_string ''1'')" "word (bytes_of_string ''9000'')"
    by (simp_all add: word_def bytes_of_string_def sep_def blank_def)
  ultimately show ?thesis using stuttering_key_misread [OF opened_ok] by simp
qed

end
