(* ===== verification/Options.thy ===== *)
theory Options
  imports CStrings Stat Packet IniParser
begin

text \<open>
  \<open>Server/Options.h\<close>, \<open>Server/Options.cpp\<close> (configuration, server list, offline list, level totals), \<open>Server/LogicServer.cpp\<close>,
  the timers of \<open>include/ICC_Timer_Handler.h\<close> and \<open>Server/Timer.h\<close>, and the data members of \<open>Server/CBackServer.h\<close>, which
  the options own. The timer handlers of the class are in the theory of the running server, since they work on
  the store of users and on the statistics too.

  What the program asks of its surroundings during one event is collected in a record \<open>env\<close>: the clock, the answers
  of the two memcached servers, the pseudo random generator and the contents of the configuration file.
\<close>

section \<open>Environment\<close>

text \<open>\<open>env_ini\<close> gives the content of a file by its name, when it can be opened.\<close>

record env =
  env_now :: c_int
  env_server_mc :: "byte list \<Rightarrow> byte list option"
  env_online_mc :: "byte list \<Rightarrow> byte list option"
  env_rand :: "c_int \<Rightarrow> c_int"
  env_ini :: "byte list \<Rightarrow> byte list option"

text \<open>\<open>CMemcacheClient::GetRecord\<close>: the value up to its first NUL, empty when there is none.\<close>

definition GetRecord :: "(byte list \<Rightarrow> byte list option) \<Rightarrow> byte list \<Rightarrow> byte list" where
  "GetRecord mc key = (case mc key of Some val \<Rightarrow> c_str val | None \<Rightarrow> [])"

section \<open>Timers\<close>

text \<open>\<open>tm_armed\<close> says that the timer is registered with the reactor; intervals are milliseconds.\<close>

record CCTimer =
  tm_interval :: int
  tm_isloop :: bool
  tm_armed :: bool

definition CCTimer_StartTimer :: "int \<Rightarrow> bool \<Rightarrow> CCTimer \<Rightarrow> CCTimer" where
  "CCTimer_StartTimer interval isloop t = t\<lparr>tm_interval := interval, tm_isloop := isloop, tm_armed := True\<rparr>"

definition CCTimer_StopTimer :: "CCTimer \<Rightarrow> CCTimer" where
  "CCTimer_StopTimer t = t\<lparr>tm_armed := False, tm_isloop := False\<rparr>"

definition CTimer_StartTimer :: "int \<Rightarrow> CCTimer \<Rightarrow> CCTimer" where
  "CTimer_StartTimer interval t = CCTimer_StartTimer (interval * 1000) False t"

section \<open>Data\<close>

record CLogicServer =
  ls_nServerId :: c_short
  ls_nLevel :: c_short
  ls_strIp :: "byte list"
  ls_nPort :: c_int

definition CLogicServer_new :: "c_short \<Rightarrow> c_short \<Rightarrow> byte list \<Rightarrow> c_int \<Rightarrow> CLogicServer" where
  "CLogicServer_new serverId level ip port = \<lparr>ls_nServerId = serverId, ls_nLevel = level, ls_strIp = ip, ls_nPort = port\<rparr>"

text \<open>The connection to the statistics server; \<open>bs_sent\<close> lists the packets handed to \<open>CCSocketHandler::Send\<close>.\<close>

record CBackServer =
  strServer_flag :: "byte list"
  m_bIsConnected :: bool
  bs_timer :: CCTimer
  bs_pPacket :: packet
  bs_sent :: "byte list list"

record Options =
  listen_port :: c_short
  server_id :: c_int
  strLogDir :: "byte list"
  nNum :: c_int
  nSize :: c_int
  nLogLevel :: c_int
  strServerMcAddr :: "byte list"
  strOnlineMcAddr :: "byte list"
  m_strTjIp :: "byte list"
  m_nTjPort :: c_int
  m_nTJSwitch :: c_int
  m_nTJInteval :: c_int
  m_pTJServer :: "CBackServer option"
  m_ServerList :: "(32, CLogicServer) std_map"
  m_OfflineUserMgr :: "(32, c_int) std_map"
  m_LevelTotalMgr :: "(16, LEVELINFO) std_map"
  m_nStartTime :: c_int
  m_nRoundLimit :: c_int
  m_nAddCount :: c_int
  m_nSHMNodeCount :: c_int
  m_CheckTimer :: CCTimer
  m_CheckOfflineTimer :: CCTimer
  m_CheckFlushTimer :: CCTimer

text \<open>The maps are ordered, and the addresses are strings of a length that an \<open>int\<close> can hold. The values memcached returns
  are limited to the size of an item, at most a gigabyte.\<close>

definition options_ok :: "Options \<Rightarrow> bool" where
  "options_ok opt \<longleftrightarrow> sm_ok (m_ServerList opt) \<and> sm_ok (m_OfflineUserMgr opt) \<and> sm_ok (m_LevelTotalMgr opt) \<and>
     (\<forall>e \<in> set (m_ServerList opt). length (ls_strIp (snd e)) \<le> 1073741823)"

definition env_small :: "env \<Rightarrow> bool" where
  "env_small e \<longleftrightarrow> (\<forall>k v. env_server_mc e k = Some v \<longrightarrow> length v \<le> 1073741823)"

abbreviation SERVER_ATTR_COUNT :: nat where "SERVER_ATTR_COUNT \<equiv> 3"
abbreviation ONLINE_ATTR_COUNT :: nat where "ONLINE_ATTR_COUNT \<equiv> 3"
abbreviation TIME_INTEVAL :: int where "TIME_INTEVAL \<equiv> 301"
abbreviation FLUSH_CHECK_TIME :: int where "FLUSH_CHECK_TIME \<equiv> 601"

section \<open>Construction and configuration\<close>

text \<open>The members the constructor does not set keep the indeterminate values of \<open>opt\<close>.\<close>

definition Options_new :: "Options \<Rightarrow> Options" where
  "Options_new opt =
     opt\<lparr>listen_port := 0, server_id := 0, strServerMcAddr := [], strOnlineMcAddr := [], m_strTjIp := [], m_nTjPort := 0,
       m_nTJInteval := 60, m_nTJSwitch := 0, m_pTJServer := None, m_ServerList := [], m_OfflineUserMgr := [], m_LevelTotalMgr := [],
       m_nRoundLimit := 100, m_nAddCount := 0, m_nSHMNodeCount := 0\<rparr>"

text \<open>\<open>getopt_long\<close> yields the option letters with their arguments; \<open>argc = 1\<close> means there are none. The letter
  \<open>d\<close> turns the process into a daemon. The result is the return value and the object.\<close>

fun parse_opts :: "(char \<times> byte list) list \<Rightarrow> Options \<Rightarrow> int \<times> Options" where
  "parse_opts [] opt = (if listen_port opt = 0 then (-1, opt) else if sint (server_id opt) < 0 then (-1, opt) else (0, opt))"
| "parse_opts ((c, optarg) # os) opt =
     (if c = CHR ''p'' then parse_opts os (opt\<lparr>listen_port := ucast (atoi optarg)\<rparr>)
      else if c = CHR ''s'' then parse_opts os (opt\<lparr>server_id := atoi optarg\<rparr>)
      else if c = CHR ''d'' then parse_opts os opt
      else if c = CHR ''m'' then
        let opt = opt\<lparr>m_nSHMNodeCount := atoi optarg\<rparr> in
          if sint (m_nSHMNodeCount opt) \<le> 0 then (-1, opt\<lparr>m_nSHMNodeCount := 0\<rparr>) else parse_opts os opt
      else (-1, opt))"

definition parse_args :: "nat \<Rightarrow> (char \<times> byte list) list \<Rightarrow> Options \<Rightarrow> int \<times> Options" where
  "parse_args argc os opt = (if argc = 1 then (-1, opt) else parse_opts os opt)"

text \<open>\<open>IniFile iniFile(file)\<close>, and its readers for literal names.\<close>

definition IniFile_open :: "env \<Rightarrow> byte list \<Rightarrow> IniFile" where
  "IniFile_open e file = snd (OpenFile (Some file) (env_ini e) True True IniFile_new)"

definition ini_ReadString :: "IniFile \<Rightarrow> string \<Rightarrow> string \<Rightarrow> string \<Rightarrow> byte list option" where
  "ini_ReadString ini sec key dflt = IniFile_ReadString (bytes_of_string sec) (bytes_of_string key) (bytes_of_string dflt) ini"

definition ini_ReadInt :: "IniFile \<Rightarrow> string \<Rightarrow> string \<Rightarrow> c_int \<Rightarrow> c_int option" where
  "ini_ReadInt ini sec key dflt = IniFile_ReadInt (bytes_of_string sec) (bytes_of_string key) dflt ini"

definition read_conf :: "env \<Rightarrow> byte list \<Rightarrow> Options \<Rightarrow> (int \<times> Options) option" where
  "read_conf e file opt =
     (let iniFile = IniFile_open e file in
      if \<not> m_bIsOpen iniFile then Some (-1, opt)
      else do {
        dir \<leftarrow> ini_ReadString iniFile ''LOG'' ''LOGDIR'' ''./'';
        num \<leftarrow> ini_ReadInt iniFile ''LOG'' ''LOGNUM'' 10;
        size \<leftarrow> ini_ReadInt iniFile ''LOG'' ''LOGSIZE'' (10 * 1024 * 1024);
        level \<leftarrow> ini_ReadInt iniFile ''LOG'' ''LOGLEVEL'' 0;
        Some (0, opt\<lparr>strLogDir := dir, nNum := num, nSize := size, nLogLevel := level, m_nStartTime := env_now e\<rparr>)
      })"

definition ReadRandomConfig :: "env \<Rightarrow> byte list \<Rightarrow> Options \<Rightarrow> (int \<times> Options) option" where
  "ReadRandomConfig e file opt =
     (let iniFile = IniFile_open e file in
      if \<not> m_bIsOpen iniFile then Some (-1, opt)
      else do {
        limit \<leftarrow> ini_ReadInt iniFile ''LEVELCOUNT'' ''RANDCOUNT'' 100;
        add \<leftarrow> ini_ReadInt iniFile ''LEVELCOUNT'' ''ADDCOUNT'' 0;
        Some (0, opt\<lparr>m_nRoundLimit := limit, m_nAddCount := add\<rparr>)
      })"

text \<open>\<open>init\<close> is the outcome of \<open>CMemcacheClient::Init\<close> for an address.\<close>

definition InitMeCached :: "(byte list \<Rightarrow> bool) \<Rightarrow> env \<Rightarrow> byte list \<Rightarrow> Options \<Rightarrow> (int \<times> Options) option" where
  "InitMeCached init e file opt =
     (let iniFile = IniFile_open e file in
      if \<not> m_bIsOpen iniFile then Some (-1, opt)
      else do {
        addr \<leftarrow> ini_ReadString iniFile ''MEMCACHED'' ''SERVER_MC'' ''0.0.0.0:0'';
        let opt = opt\<lparr>strServerMcAddr := addr\<rparr>;
        if \<not> init (strServerMcAddr opt) then Some (-1, opt)
        else do {
          addr \<leftarrow> ini_ReadString iniFile ''MEMCACHED'' ''ONLINE_MC'' ''0.0.0.0:0'';
          let opt = opt\<lparr>strOnlineMcAddr := addr\<rparr>;
          if \<not> init (strOnlineMcAddr opt) then Some (-1, opt) else Some (0, opt)
        }
      })"

definition CBackServer_new :: "CBackServer \<Rightarrow> byte list \<Rightarrow> CBackServer" where
  "CBackServer_new b strFlag = b\<lparr>strServer_flag := strFlag, m_bIsConnected := False\<rparr>"

text \<open>\<open>raw\<close> is the fresh memory of the new object; the attempt to connect that follows is input and output.\<close>

definition InitBackServer :: "CBackServer \<Rightarrow> env \<Rightarrow> byte list \<Rightarrow> Options \<Rightarrow> (int \<times> Options) option" where
  "InitBackServer raw e file opt =
     (let iniFile = IniFile_open e file in
      if \<not> m_bIsOpen iniFile then Some (-1, opt)
      else do {
        ip \<leftarrow> ini_ReadString iniFile ''TJSvr'' ''HOST'' ''0.0.0.0'';
        port \<leftarrow> ini_ReadInt iniFile ''TJSvr'' ''PORT'' 0;
        switch \<leftarrow> ini_ReadInt iniFile ''TJSvr'' ''SWITCH'' 0;
        let opt = opt\<lparr>m_strTjIp := ip, m_nTjPort := port, m_nTJSwitch := switch\<rparr>;
        switch \<leftarrow> ini_ReadInt iniFile ''TJSvr'' ''SWITCH'' 0;
        let opt = opt\<lparr>m_nTJSwitch := switch\<rparr>;
        Some (0, opt\<lparr>m_pTJServer := Some (CBackServer_new raw (bytes_of_string ''TJServer''))\<rparr>)
      })"

section \<open>Logic servers\<close>

definition GetServer :: "c_int \<Rightarrow> Options \<Rightarrow> CLogicServer option" where
  "GetServer nServerId opt = sm_find nServerId (m_ServerList opt)"

definition AddLogicServer :: "c_int \<Rightarrow> CLogicServer option \<Rightarrow> Options \<Rightarrow> Options" where
  "AddLogicServer nServerId pLogicServer opt =
     (case pLogicServer of None \<Rightarrow> opt | Some sv \<Rightarrow> opt\<lparr>m_ServerList := sm_set nServerId sv (m_ServerList opt)\<rparr>)"

definition DeleteLogicServer :: "c_int \<Rightarrow> Options \<Rightarrow> Options" where
  "DeleteLogicServer nServerId opt =
     (if sm_find nServerId (m_ServerList opt) \<noteq> None then opt\<lparr>m_ServerList := sm_erase nServerId (m_ServerList opt)\<rparr> else opt)"

definition ClearServerList :: "Options \<Rightarrow> Options" where
  "ClearServerList opt = opt\<lparr>m_ServerList := []\<rparr>"

text \<open>The record of a server is \<open>level,ip,port\<close>; the outputs keep their values unless 1 is returned.\<close>

definition GetServerInfoFromMc ::
  "env \<Rightarrow> c_short \<Rightarrow> c_short \<times> byte list \<times> c_int \<Rightarrow> int \<times> c_short \<times> byte list \<times> c_int" where
  "GetServerInfoFromMc e nServerId outs =
     (let szKey = print_d (scast nServerId);
          value = GetRecord (env_server_mc e) szKey
      in
        if value \<noteq> [] then
          let vec = split_str value (bytes_of_string '','') [] in
            if length vec = SERVER_ATTR_COUNT then (1, ucast (atoi (vec ! 0)), vec ! 1, atoi (vec ! 2)) else (0, outs)
        else (0, outs))"

definition GetServerFromMc :: "env \<Rightarrow> c_short \<Rightarrow> Options \<Rightarrow> CLogicServer option \<times> Options" where
  "GetServerFromMc e nServerId opt =
     (let (r, nLevel, ip, nPort) = GetServerInfoFromMc e nServerId (0, [], 0) in
        if r \<noteq> 1 then (None, opt)
        else
          let pServer = CLogicServer_new nServerId nLevel ip nPort
          in (Some pServer, AddLogicServer (scast nServerId) (Some pServer) opt))"

definition GetUserInfoFromMc :: "env \<Rightarrow> c_int \<Rightarrow> c_int \<Rightarrow> int \<times> c_int" where
  "GetUserInfoFromMc e nUid nTid =
     (let onlineValue = GetRecord (env_online_mc e) (print_d nUid) in
        if onlineValue \<noteq> [] then
          let v = split_str onlineValue (bytes_of_string '','') [] in
            if length v \<noteq> ONLINE_ATTR_COUNT then (0, nTid) else (1, atoi (v ! 0))
        else (0, nTid))"

section \<open>Offline users, level totals, reporting switch, timers\<close>

definition AddOfflineUser :: "c_int \<Rightarrow> c_int \<Rightarrow> Options \<Rightarrow> Options" where
  "AddOfflineUser nUid nTime opt = opt\<lparr>m_OfflineUserMgr := sm_set nUid nTime (m_OfflineUserMgr opt)\<rparr>"

definition DeleteOfflineUser :: "c_int \<Rightarrow> Options \<Rightarrow> Options" where
  "DeleteOfflineUser nUid opt =
     (if sm_find nUid (m_OfflineUserMgr opt) \<noteq> None then opt\<lparr>m_OfflineUserMgr := sm_erase nUid (m_OfflineUserMgr opt)\<rparr> else opt)"

definition SetLevelCount :: "c_int \<Rightarrow> c_int \<Rightarrow> c_int \<Rightarrow> Options \<Rightarrow> Options" where
  "SetLevelCount nLevel nPlayCount nLookCount opt =
     opt\<lparr>m_LevelTotalMgr := sm_set (ucast nLevel) \<lparr>playCount = nPlayCount, lookCount = nLookCount\<rparr> (m_LevelTotalMgr opt)\<rparr>"

definition GetLevelCount :: "c_int \<Rightarrow> Options \<Rightarrow> c_int" where
  "GetLevelCount nLevel opt = (case sm_find (ucast nLevel) (m_LevelTotalMgr opt) of Some i \<Rightarrow> playCount i | None \<Rightarrow> 0)"

definition SetTjSwitch :: "c_int \<Rightarrow> c_int \<Rightarrow> Options \<Rightarrow> Options" where
  "SetTjSwitch nTjSwitch nTjInteval opt = opt\<lparr>m_nTJSwitch := nTjSwitch, m_nTJInteval := nTjInteval\<rparr>"

definition InitTimer :: "Options \<Rightarrow> Options" where
  "InitTimer opt =
     opt\<lparr>m_CheckTimer := CTimer_StartTimer (sint (m_nTJInteval opt)) (m_CheckTimer opt),
       m_CheckFlushTimer := CTimer_StartTimer FLUSH_CHECK_TIME (m_CheckFlushTimer opt),
       m_CheckOfflineTimer := CTimer_StartTimer TIME_INTEVAL (m_CheckOfflineTimer opt)\<rparr>"

section \<open>Lemmas\<close>

lemma split_tokens_length: "t \<in> set (split_tokens s seps) \<Longrightarrow> length t \<le> length s"
proof (induction s seps rule: split_tokens.induct)
  case (1 s seps)
  show ?case
  proof (cases "strtok_r s seps")
    case None
    then show ?thesis using 1(2) by (subst (asm) split_tokens.simps) simp
  next
    case (Some pl)
    obtain p r where pl: "pl = (p, r)" by (cases pl)
    let ?d = "dropWhile (\<lambda>b. b \<in> set seps) s"
    have "p = takeWhile (\<lambda>b. b \<notin> set seps) ?d" "r = drop 1 (dropWhile (\<lambda>b. b \<notin> set seps) ?d)"
      using Some pl by (auto simp: strtok_r_def Let_def split: if_splits)
    then have "length p \<le> length ?d" "length r \<le> length ?d"
      by (simp_all add: length_takeWhile_le le_trans [OF diff_le_self length_dropWhile_le])
    moreover have "length ?d \<le> length s" by (rule length_dropWhile_le)
    moreover have "t = p \<or> t \<in> set (split_tokens r seps)" using 1(2) Some pl by (subst (asm) split_tokens.simps) simp
    ultimately show ?thesis using 1(1) [OF Some] pl by force
  qed
qed

lemma GetServerInfoFromMc_small:
  assumes "env_small e" "GetServerInfoFromMc e i (l, [], p) = (r, lvl, ip, port)"
  shows "length ip \<le> 1073741823"
proof -
  let ?v = "GetRecord (env_server_mc e) (print_d (scast i))"
  have "length (c_str ?v) \<le> length ?v" by (simp add: c_str_def length_takeWhile_le)
  moreover have "length ?v \<le> 1073741823"
    using assms(1) by (auto simp: GetRecord_def env_small_def c_str_def split: option.split intro: le_trans [OF length_takeWhile_le])
  moreover have "length t \<le> length (c_str ?v)" if "t \<in> set (split_str ?v seps [])" for t seps
    using that split_tokens_length by (simp add: split_str_def)
  ultimately have t: "length t \<le> 1073741823" if "t \<in> set (split_str ?v seps [])" for t seps
    using that by (meson le_trans)
  have "ip = [] \<or> ip \<in> set (split_str ?v (bytes_of_string '','') [])"
    using assms(2) by (auto simp: GetServerInfoFromMc_def Let_def split: if_splits)
  then show ?thesis using t by auto
qed

lemma options_ok_ops [simp, intro]:
  assumes "options_ok opt"
  shows "options_ok (DeleteLogicServer k opt)" "options_ok (ClearServerList opt)"
    "options_ok (AddOfflineUser u t opt)" "options_ok (DeleteOfflineUser u opt)" "options_ok (SetLevelCount l p c opt)"
    "options_ok (SetTjSwitch a b opt)" "options_ok (InitTimer opt)"
proof -
  have e: "\<forall>e \<in> set (sm_erase k (m_ServerList opt)). length (ls_strIp (snd e)) \<le> 1073741823"
    using assms by (simp add: options_ok_def sm_erase_def)
  show "options_ok (DeleteLogicServer k opt)" using assms e by (simp add: options_ok_def DeleteLogicServer_def sm_ok_erase)
qed (use assms in \<open>simp_all add: options_ok_def ClearServerList_def AddOfflineUser_def DeleteOfflineUser_def SetLevelCount_def
      SetTjSwitch_def InitTimer_def sm_ok_erase\<close>)

lemma IniFile_open_cases:
  obtains "\<not> m_bIsOpen (IniFile_open e file)" | f where "ini_file f (IniFile_open e file)" "env_ini e file = Some f"
  by (cases "env_ini e file") (auto simp: IniFile_open_def OpenFile_def CloseFile_def ini_file_def Let_def)

lemma ini_ReadInt_total: "ini_file text ini \<Longrightarrow> key \<noteq> [] \<Longrightarrow> \<exists>w. ini_ReadInt ini sec key n = Some w"
  using IniFile_ReadInt_total [of "text" ini "bytes_of_string key"] by (simp add: ini_ReadInt_def bytes_of_string_def)

lemma ReadRandomConfig_ok: "\<exists>r opt'. ReadRandomConfig e file opt = Some (r, opt') \<and> (options_ok opt \<longrightarrow> options_ok opt')"
proof (cases rule: IniFile_open_cases [of e "file"])
  case 1
  then show ?thesis by (simp add: ReadRandomConfig_def)
next
  case (2 f)
  obtain a b where "ini_ReadInt (IniFile_open e file) ''LEVELCOUNT'' ''RANDCOUNT'' 100 = Some a"
    "ini_ReadInt (IniFile_open e file) ''LEVELCOUNT'' ''ADDCOUNT'' 0 = Some b" using ini_ReadInt_total [OF 2(1)] by (metis list.distinct(1))
  then show ?thesis using 2(1) by (simp add: ReadRandomConfig_def ini_file_def options_ok_def)
qed

lemma options_ok_add:
  assumes "options_ok opt" "length (ls_strIp sv) \<le> 1073741823"
  shows "options_ok (AddLogicServer k (Some sv) opt)"
  using assms set_sm_set [of k sv "m_ServerList opt"] by (auto simp: options_ok_def AddLogicServer_def)

lemma options_ok_mc:
  assumes "options_ok opt" "env_small e"
  shows "options_ok (snd (GetServerFromMc e i opt))"
proof -
  obtain r lvl ip port where r: "GetServerInfoFromMc e i (0, [], 0) = (r, lvl, ip, port)" by (metis prod_cases4)
  have "length ip \<le> 1073741823" by (rule GetServerInfoFromMc_small [OF assms(2) r])
  then show ?thesis using r assms(1) options_ok_add [of opt "CLogicServer_new i lvl ip port"]
    by (simp add: GetServerFromMc_def Let_def CLogicServer_new_def)
qed

lemma options_ok_new: "options_ok (Options_new opt)"
  by (simp add: options_ok_def Options_new_def)

lemma print_d_bytes: "\<forall>b \<in> set (print_d w). b \<noteq> 0 \<and> b \<noteq> 44" "print_d w \<noteq> []"
  using nat_digits_digit is_digit_not by (auto simp: print_d_def list_all_iff dest!: bspec)

lemma split_record:
  assumes "\<forall>b \<in> set a \<union> set b \<union> set c. b \<noteq> 0 \<and> b \<noteq> 44" "a \<noteq> []" "b \<noteq> []" "c \<noteq> []"
  shows "split_str (a @ 44 # b @ 44 # c) [44] [] = [a, b, c]"
proof -
  have z: "c_str (a @ 44 # b @ 44 # c) = a @ 44 # b @ 44 # c" using assms(1) by (auto simp: c_str_def takeWhile_eq_all_conv)
  have n: "\<forall>x \<in> set a. x \<notin> set [44]" "\<forall>x \<in> set b. x \<notin> set [44]" "\<forall>x \<in> set c. x \<notin> set [44]" using assms(1) by auto
  show ?thesis
    using split_tokens_join(2) [OF n(1) assms(2), of 44 "b @ 44 # c"] split_tokens_join(2) [OF n(2) assms(3), of 44 c]
      split_tokens_join(1) [OF n(3) assms(4)]
    by (simp add: split_str_def z)
qed

text \<open>The record of a game server written to memcached as \<open>level,ip,port\<close> is read back exactly.\<close>

theorem GetServerInfoFromMc_record:
  assumes "env_server_mc e (print_d (scast nServerId)) = Some (print_d lvl @ 44 # ip @ 44 # print_d port)"
    and "\<forall>b \<in> set ip. b \<noteq> 0 \<and> b \<noteq> 44" "ip \<noteq> []"
  shows "GetServerInfoFromMc e nServerId outs = (1, ucast lvl, ip, port)"
proof -
  let ?v = "print_d lvl @ 44 # ip @ 44 # print_d port"
  have all: "\<forall>b \<in> set (print_d lvl) \<union> set ip \<union> set (print_d port). b \<noteq> 0 \<and> b \<noteq> 44" using print_d_bytes(1) assms(2) by auto
  then have "c_str ?v = ?v" by (auto simp: c_str_def takeWhile_eq_all_conv)
  moreover have "bytes_of_string '','' = [44]" by (simp add: bytes_of_string_def of_char_def)
  ultimately show ?thesis
    using assms(1) split_record [OF all print_d_bytes(2) assms(3) print_d_bytes(2)]
    by (simp add: GetServerInfoFromMc_def GetRecord_def atoi_print_d)
qed

theorem GetServerInfoFromMc_record_witness:
  "GetServerInfoFromMc \<lparr>env_now = 0, env_server_mc = (\<lambda>_. Some (bytes_of_string ''3,10.0.0.7,9001'')), env_online_mc = (\<lambda>_. None),
     env_rand = id, env_ini = Map.empty\<rparr> 7 (0, [], 0) = (1, 3, bytes_of_string ''10.0.0.7'', 9001)"
proof -
  have "print_d 3 = [51]" "print_d 9001 = [57, 48, 48, 49]"
    by (simp_all add: print_d_def nat_digits.simps)
  then show ?thesis
    using GetServerInfoFromMc_record [of "\<lparr>env_now = 0, env_server_mc = (\<lambda>_. Some (bytes_of_string ''3,10.0.0.7,9001'')),
        env_online_mc = (\<lambda>_. None), env_rand = id, env_ini = Map.empty\<rparr>" 7 3 "bytes_of_string ''10.0.0.7''" 9001 "(0, [], 0)"]
    by (simp add: bytes_of_string_def of_char_def)
qed

end
