(* ===== verification/BackServer.thy ===== *)
theory BackServer
  imports Options
begin

text \<open>
  \<open>Server/CBackServer.cpp\<close>: the connection to the statistics server. It reports the counters of \<open>CStat\<close> in host byte order
  and receives the totals per level over all servers, which it stores in the options.
\<close>

abbreviation SYS_SYN_DATA :: c_short where "SYS_SYN_DATA \<equiv> 0x050D"
abbreviation DATA_BUFFER :: int where "DATA_BUFFER \<equiv> 8192"

section \<open>Operations\<close>

definition bs_OnClose :: "CBackServer \<Rightarrow> CBackServer" where
  "bs_OnClose b = b\<lparr>m_bIsConnected := False, bs_timer := CCTimer_StartTimer 5000 True (bs_timer b)\<rparr>"

definition bs_Send :: "'a packet_scheme \<Rightarrow> CBackServer \<Rightarrow> CBackServer" where
  "bs_Send pPacket b = b\<lparr>bs_sent := bs_sent b @ [packet_bytes pPacket]\<rparr>"

text \<open>The fields of the report: the server, the levels and the terminal types, each list after its size.\<close>

fun level_fields :: "c_short \<times> LEVELINFO \<Rightarrow> field list" where
  "level_fields (k, i) = [FShort k, FInt (playCount i), FInt (lookCount i)]"

fun terminal_fields :: "c_short \<times> DATAINFO \<Rightarrow> field list" where
  "terminal_fields (k, i) = [FShort k, FInt (onlineCount i), FInt (onPlayCount i), FInt (onLookOnCount i)]"

definition report_fields :: "c_int \<Rightarrow> (16, LEVELINFO) std_map \<Rightarrow> (16, DATAINFO) std_map \<Rightarrow> field list" where
  "report_fields sid levelMgr terminalTypeMgr =
     [FInt sid, FInt (word_of_nat (length levelMgr))] @ concat (map level_fields levelMgr) @
     [FInt (word_of_nat (length terminalTypeMgr))] @ concat (map terminal_fields terminalTypeMgr)"

definition SynData :: "c_int \<Rightarrow> (16, LEVELINFO) std_map \<Rightarrow> (16, DATAINFO) std_map \<Rightarrow> CBackServer \<Rightarrow> CBackServer option" where
  "SynData sid levelMgr terminalTypeMgr b =
     (if \<not> m_bIsConnected b then Some b
      else do {
        reqPacket \<leftarrow> Dout_Begin DATA_BUFFER SYS_SYN_DATA SERVER_PACKET_DEFAULT_VER SERVER_PACKET_DEFAULT_SUBVER output_packet0;
        reqPacket \<leftarrow> write_fields (Dout_field DATA_BUFFER) (report_fields sid levelMgr terminalTypeMgr) reqPacket;
        reqPacket \<leftarrow> Dout_End DATA_BUFFER reqPacket;
        Some (bs_Send reqPacket b)
      })"

definition ReportData :: "CStat \<Rightarrow> Options \<Rightarrow> Options option" where
  "ReportData st opt =
     (case m_pTJServer opt of
        None \<Rightarrow> Some opt
      | Some b \<Rightarrow> do { b \<leftarrow> SynData (server_id opt) (m_LevelMgr st) (m_terminalStatMap st) b; Some (opt\<lparr>m_pTJServer := Some b\<rparr>) })"

text \<open>The callbacks run on the object the options own.\<close>

definition bs_OnConnected :: "CStat \<Rightarrow> Options \<Rightarrow> Options option" where
  "bs_OnConnected st opt =
     do {
       b \<leftarrow> m_pTJServer opt;
       opt \<leftarrow> ReportData st (opt\<lparr>m_pTJServer := Some (b\<lparr>m_bIsConnected := True\<rparr>)\<rparr>);
       b \<leftarrow> m_pTJServer opt;
       Some (opt\<lparr>m_pTJServer := Some (b\<lparr>bs_timer := CCTimer_StopTimer (bs_timer b)\<rparr>)\<rparr>)
     }"

fun syn_loop :: "nat \<Rightarrow> packet \<Rightarrow> Options \<Rightarrow> (packet \<times> Options) option" where
  "syn_loop 0 p opt = Some (p, opt)"
| "syn_loop (Suc n) p opt =
     do {
       (level, p) \<leftarrow> Din_ReadShort DATA_BUFFER p;
       (playcount, p) \<leftarrow> Din_ReadInt DATA_BUFFER p;
       (lookcount, p) \<leftarrow> Din_ReadInt DATA_BUFFER p;
       syn_loop n p (SetLevelCount (scast level) playcount lookcount opt)
     }"

definition ProcessSynData :: "packet \<Rightarrow> Options \<Rightarrow> (packet \<times> Options) option" where
  "ProcessSynData p opt = do { (size, p) \<leftarrow> Din_ReadInt DATA_BUFFER p; syn_loop (nat (sint size)) p opt }"

definition bs_ProcessPacket :: "packet \<Rightarrow> Options \<Rightarrow> (int \<times> packet \<times> Options) option" where
  "bs_ProcessPacket p opt =
     do {
       cmd \<leftarrow> Dpb_GetCmdType DATA_BUFFER p;
       (p, opt) \<leftarrow> (if cmd = SYS_SYN_DATA then ProcessSynData p opt else Some (p, opt));
       Some (0, p, opt)
     }"

text \<open>The result of \<open>Copy\<close> is not looked at: when the data is larger than the buffer, the previous packet is processed again.\<close>

definition bs_OnPacketComplete :: "byte list \<Rightarrow> int \<Rightarrow> Options \<Rightarrow> (int \<times> Options) option" where
  "bs_OnPacketComplete data len opt =
     do {
       b \<leftarrow> m_pTJServer opt;
       (_, p) \<leftarrow> Din_Copy DATA_BUFFER data len (bs_pPacket b);
       (ret, p, opt) \<leftarrow> bs_ProcessPacket p opt;
       b \<leftarrow> m_pTJServer opt;
       Some (ret, opt\<lparr>m_pTJServer := Some (b\<lparr>bs_pPacket := p\<rparr>)\<rparr>)
     }"

section \<open>Messages in host order\<close>

definition data_header :: "c_short \<Rightarrow> c_short \<Rightarrow> byte list" where
  "data_header len cmd = le16 len @ bytes_of_string ''BY'' @ [SERVER_PACKET_DEFAULT_VER, SERVER_PACKET_DEFAULT_SUBVER] @ le16 cmd @ [0]"

lemma length_data_header [simp]: "length (data_header len cmd) = 9"
  by (simp add: data_header_def)

abbreviation enc_data :: "field \<Rightarrow> byte list" where "enc_data \<equiv> enc_field id id"

lemma Dout_Begin_msg:
  "Dout_Begin DATA_BUFFER cmd SERVER_PACKET_DEFAULT_VER SERVER_PACKET_DEFAULT_SUBVER p =
     Some (pk_msg (data_header 0 cmd) [] (p\<lparr>m_isCheckCode := False\<rparr>))"
  by (simp add: Dout_Begin_def packet_simps data_header_def pk_msg_def le16_def)

lemma Dout_End_msg:
  "Dout_End DATA_BUFFER (pk_msg (data_header len cmd) b p) =
     Some (pk_msg (data_header (word_of_int (7 + int (length b))) cmd) b (p\<lparr>m_isCheckCode := False\<rparr>))"
proof -
  have e: "(pk_msg h b p)\<lparr>m_isCheckCode := False\<rparr> = pk_msg h b (p\<lparr>m_isCheckCode := False\<rparr>)" for h
    by (simp add: pk_msg_def)
  have "take 6 (drop 2 (data_header len cmd)) @ [0] = drop 2 (data_header len cmd)"
    by (simp add: data_header_def bytes_of_string_def le16_def)
  then show ?thesis
    unfolding Dout_End_def e by (subst Dpb_end_msg) (simp_all add: data_header_def le16_def bytes_of_string_def)
qed

lemma data_header_cmd:
  "Dpb_GetCmdType DATA_BUFFER (pk_msg (data_header len cmd) b p) = Some cmd"
proof -
  have "mem_read (mem_write (\<lambda>_. 0) 0 (data_header len cmd @ b)) 6 2 = le16 cmd"
    by (simp add: mem_read_def mem_write_def data_header_def bytes_of_string_def le16_def upt_rec numeral_eq_Suc)
  then show ?thesis by (simp add: Dpb_GetCmdType_def Dpb_readHeader_def packet_simps)
qed

lemma Din_Copy_msg:
  assumes "length h = 9" "9 + int (length b) \<le> DATA_BUFFER" "n = 9 + int (length b)"
  shows "Din_Copy DATA_BUFFER (h @ b) n q = Some (True, pk_msg h b q)"
  using assms by (simp add: Din_Copy_def Dpb_copy_def Dpb_reset_def pk_msg_def Let_def nat_add_distrib)

lemma report_fields_ok: "list_all field_ok (report_fields sid L T)" "list_all field_small (report_fields sid L T)"
  by (auto simp: report_fields_def list_all_iff)

lemma report_length: "length (concat (map enc_data (report_fields sid L T))) = 12 + 10 * length L + 14 * length T"
proof -
  have "length (concat (map enc_data (concat (map level_fields L)))) = 10 * length L" by (induction L) auto
  moreover have "length (concat (map enc_data (concat (map terminal_fields T)))) = 14 * length T" by (induction T) auto
  ultimately show ?thesis by (simp add: report_fields_def)
qed

text \<open>C27: a report of the counters reaches the statistics server unchanged. While the counters fit the packet buffer, the message
  that is sent is accepted by the reader of the other side, carries the command \<open>SYS_SYN_DATA\<close>, and its fields
  are the server id and every level and terminal counter in the order of the maps.\<close>

theorem report_round_trip:
  assumes conn: "m_bIsConnected b" and fits: "21 + 10 * length L + 14 * length T \<le> 8192"
  shows "\<exists>msg q q'. SynData sid L T b = Some (b\<lparr>bs_sent := bs_sent b @ [msg]\<rparr>) \<and>
     Din_Copy DATA_BUFFER msg (int (length msg)) q0 = Some (True, q) \<and> Dpb_GetCmdType DATA_BUFFER q = Some SYS_SYN_DATA \<and>
     read_fields (Din_field DATA_BUFFER) (map kind_of (report_fields sid L T)) q = Some (report_fields sid L T, q') \<and> rest q' = []"
proof -
  define fs where "fs = report_fields sid L T"
  define bd where "bd = concat (map enc_data fs)"
  have len: "9 + int (length bd) \<le> DATA_BUFFER" using fits report_length [of sid L T] by (simp add: bd_def fs_def)
  have ok: "list_all field_ok fs" by (simp add: fs_def report_fields_ok)
  let ?p0 = "output_packet0\<lparr>m_isCheckCode := False\<rparr>" and ?h = "data_header (word_of_int (7 + int (length bd))) SYS_SYN_DATA"
  have "write_fields (Dout_field DATA_BUFFER) fs (pk_msg (data_header 0 SYS_SYN_DATA) [] ?p0) =
      Some (pk_append bd (pk_msg (data_header 0 SYS_SYN_DATA) [] ?p0))"
    unfolding bd_def by (rule dpk.write_all) (use len ok in \<open>simp_all add: packet_simps bd_def\<close>)
  then have w: "write_fields (Dout_field DATA_BUFFER) fs (pk_msg (data_header 0 SYS_SYN_DATA) [] ?p0) =
      Some (pk_msg (data_header 0 SYS_SYN_DATA) bd ?p0)" by (simp add: packet_simps)
  have "SynData sid L T b = Some (b\<lparr>bs_sent := bs_sent b @ [?h @ bd]\<rparr>)"
    using conn w by (simp add: SynData_def Dout_Begin_msg Dout_End_msg fs_def bs_Send_def packet_simps del: of_int_add)
  moreover have "Din_Copy DATA_BUFFER (?h @ bd) (int (length (?h @ bd))) q0 = Some (True, pk_msg ?h bd q0)"
    by (rule Din_Copy_msg) (use len in simp_all)
  moreover have "Dpb_GetCmdType DATA_BUFFER (pk_msg ?h bd q0) = Some SYS_SYN_DATA" by (rule data_header_cmd)
  moreover have "\<exists>q'. read_fields (Din_field DATA_BUFFER) (map kind_of fs) (pk_msg ?h bd q0) = Some (fs, q') \<and> rest q' = []"
    by (rule dpk.read_all) (use len ok in \<open>simp_all add: packet_simps bd_def\<close>)
  ultimately show ?thesis unfolding fs_def by blast
qed

definition tj0 :: CBackServer where
  "tj0 = \<lparr>strServer_flag = [], m_bIsConnected = True, bs_timer = \<lparr>tm_interval = 0, tm_isloop = False, tm_armed = False\<rparr>,
     bs_pPacket = packet0, bs_sent = []\<rparr>"

theorem report_round_trip_witness:
  "\<exists>msg q q'. SynData 9 [(2, \<lparr>playCount = 5, lookCount = 1\<rparr>)] [] tj0 = Some (tj0\<lparr>bs_sent := [msg]\<rparr>) \<and>
     Din_Copy DATA_BUFFER msg (int (length msg)) packet0 = Some (True, q) \<and> Dpb_GetCmdType DATA_BUFFER q = Some SYS_SYN_DATA \<and>
     read_fields (Din_field DATA_BUFFER) [KInt, KInt, KShort, KInt, KInt, KInt] q =
       Some ([FInt 9, FInt 1, FShort 2, FInt 5, FInt 1, FInt 0], q') \<and> rest q' = []"
  using report_round_trip [of tj0 "[(2, \<lparr>playCount = 5, lookCount = 1\<rparr>)]" "[]" 9 packet0]
  by (simp add: tj0_def report_fields_def)

text \<open>Without a connection nothing is sent, and with one a report is always built, however many counters there are.\<close>

lemma SynData_total: "\<exists>b'. SynData sid L T b = Some b' \<and> m_bIsConnected b' = m_bIsConnected b \<and> bs_pPacket b' = bs_pPacket b"
proof (cases "m_bIsConnected b")
  case True
  let ?p0 = "output_packet0\<lparr>m_isCheckCode := False\<rparr>" and ?h = "data_header 0 SYS_SYN_DATA"
  have "\<exists>b'. write_fields (Dout_field DATA_BUFFER) (report_fields sid L T) (pk_msg ?h [] ?p0) = Some (pk_msg ?h b' ?p0) \<and>
      9 + int (length b') \<le> DATA_BUFFER"
  proof (rule write_fields_msg)
    fix f and b :: "byte list" assume f: "f \<in> set (report_fields sid L T)" and b: "9 + int (length b) \<le> DATA_BUFFER"
    show "\<exists>r b'. Dout_field DATA_BUFFER f (pk_msg ?h b ?p0) = Some (r, pk_msg ?h b' ?p0) \<and> 9 + int (length b') \<le> DATA_BUFFER"
      by (rule Dout_field_msg [OF _ b]) (use f report_fields_ok(2) [of sid L T] in \<open>simp_all add: list_all_iff\<close>)
  qed simp
  then show ?thesis by (auto simp: SynData_def Dout_Begin_msg Dout_End_msg bs_Send_def True)
qed (simp add: SynData_def)

lemma ReportData_total:
  "\<exists>b. ReportData st opt = Some (opt\<lparr>m_pTJServer := b\<rparr>)"
proof (cases "m_pTJServer opt")
  case None
  then have "opt\<lparr>m_pTJServer := None\<rparr> = opt" by (metis Options.surjective Options.update_convs(13))
  then show ?thesis using None by (intro exI [of _ None]) (simp add: ReportData_def)
next
  case (Some b)
  then show ?thesis using SynData_total [of "server_id opt" "m_LevelMgr st" "m_terminalStatMap st" b] by (auto simp: ReportData_def)
qed

lemma ReportData_connected:
  assumes "m_pTJServer opt = Some b"
  shows "\<exists>b'. ReportData st opt = Some (opt\<lparr>m_pTJServer := Some b'\<rparr>)"
proof -
  obtain b' where "SynData (server_id opt) (m_LevelMgr st) (m_terminalStatMap st) b = Some b'" using SynData_total by blast
  then show ?thesis using assms by (auto simp: ReportData_def)
qed

text \<open>Reading the totals: each entry of the packet is stored under its level, the last one of a level winning.\<close>

fun set_levels :: "(c_short \<times> LEVELINFO) list \<Rightarrow> Options \<Rightarrow> Options" where
  "set_levels [] opt = opt"
| "set_levels ((l, i) # L) opt = set_levels L (SetLevelCount (scast l) (playCount i) (lookCount i) opt)"

lemma SetLevelCount_get: "sm_ok (m_LevelTotalMgr opt) \<Longrightarrow>
    GetLevelCount (scast l') (SetLevelCount (scast l) p c opt) = (if l' = (l :: c_short) then p else GetLevelCount (scast l') opt)"
  by (simp add: GetLevelCount_def SetLevelCount_def sm_find_set)

lemma set_levels_ok: "sm_ok (m_LevelTotalMgr opt) \<Longrightarrow> sm_ok (m_LevelTotalMgr (set_levels L opt))"
  by (induction L opt rule: set_levels.induct) (auto simp: SetLevelCount_def)

lemma set_levels_get:
  assumes "distinct (map fst L)" "sm_ok (m_LevelTotalMgr opt)"
  shows "GetLevelCount (scast l) (set_levels L opt) =
     (case map_of L l of Some i \<Rightarrow> playCount i | None \<Rightarrow> GetLevelCount (scast l) opt)"
  using assms
proof (induction L opt rule: set_levels.induct)
  case (2 k i L opt)
  have "sm_ok (m_LevelTotalMgr (SetLevelCount (scast k) (playCount i) (lookCount i) opt))" using 2(3) by (simp add: SetLevelCount_def)
  moreover have "k = l \<Longrightarrow> map_of L l = None" using 2(2) by (auto simp: map_of_eq_None_iff)
  ultimately show ?case using 2 by (auto simp: SetLevelCount_get split: option.split)
qed simp

lemma Din_ReadShort_ok:
  assumes "pk_wf N p" "m_nBufPos p \<le> m_nPacketSize p" "rest p = le16 w @ r"
  shows "\<exists>q. Din_ReadShort N p = Some (w, q) \<and> rest q = r \<and> pk_wf N q \<and> m_nBufPos q \<le> m_nPacketSize q"
  using Dpb_Read_ok [OF assms, of 2] by (simp add: Din_ReadShort_def)

lemma syn_loop_levels:
  assumes "pk_wf DATA_BUFFER p" "m_nBufPos p \<le> m_nPacketSize p"
    "rest p = concat (map enc_data (concat (map level_fields L))) @ r"
  shows "\<exists>q. syn_loop (length L) p opt = Some (q, set_levels L opt) \<and> rest q = r"
  using assms
proof (induction L arbitrary: p opt)
  case (Cons e L)
  obtain l i where e: "e = (l, i)" by (cases e)
  let ?t = "concat (map enc_data (concat (map level_fields L))) @ r"
  have "rest p = le16 l @ le32 (playCount i) @ le32 (lookCount i) @ ?t"
    using Cons.prems(3) e by (simp add: id_def)
  then obtain p1 where p1: "Din_ReadShort DATA_BUFFER p = Some (l, p1)" "rest p1 = le32 (playCount i) @ le32 (lookCount i) @ ?t"
      "pk_wf DATA_BUFFER p1" "m_nBufPos p1 \<le> m_nPacketSize p1"
    using Din_ReadShort_ok [OF Cons.prems(1,2)] by blast
  obtain p2 where p2: "Din_ReadInt DATA_BUFFER p1 = Some (playCount i, p2)" "rest p2 = le32 (lookCount i) @ ?t"
      "pk_wf DATA_BUFFER p2" "m_nBufPos p2 \<le> m_nPacketSize p2"
    using Din_ReadInt_ok [OF p1(3,4,2)] by blast
  obtain p3 where p3: "Din_ReadInt DATA_BUFFER p2 = Some (lookCount i, p3)" "rest p3 = ?t"
      "pk_wf DATA_BUFFER p3" "m_nBufPos p3 \<le> m_nPacketSize p3"
    using Din_ReadInt_ok [OF p2(3,4,2)] by blast
  show ?case using Cons.IH [OF p3(3,4,2)] p1(1) p2(1) p3(1) e by simp
qed simp

text \<open>The totals the statistics server sends are taken over. After a packet of \<open>SYS_SYN_DATA\<close> with a list of levels, the number of
  players the server gives for a level is the number in the packet, and that of a level not in the packet is unchanged.\<close>

theorem totals_taken_over:
  assumes tj: "m_pTJServer opt = Some b" and ok: "options_ok opt" and L: "distinct (map fst L)" "13 + 10 * length L \<le> 8192"
    and msg: "msg = data_header len SYS_SYN_DATA @ concat (map enc_data (FInt (word_of_nat (length L)) # concat (map level_fields L)))"
  shows "\<exists>opt'. bs_OnPacketComplete msg (int (length msg)) opt = Some (0, opt') \<and>
     (\<forall>l. GetLevelCount (scast (l :: c_short)) opt' = (case map_of L l of Some i \<Rightarrow> playCount i | None \<Rightarrow> GetLevelCount (scast l) opt))"
proof -
  define bd where "bd = concat (map enc_data (FInt (word_of_nat (length L)) # concat (map level_fields L)))"
  let ?h = "data_header len SYS_SYN_DATA" and ?t = "concat (map enc_data (concat (map level_fields L)))"
  have "length ?t = 10 * length L" by (induction L) auto
  then have len: "length bd = 4 + 10 * length L" and bd: "bd = le32 (word_of_nat (length L)) @ ?t" by (simp_all add: bd_def)
  let ?p = "pk_msg ?h bd (bs_pPacket b)"
  have copy: "Din_Copy DATA_BUFFER msg (int (length msg)) (bs_pPacket b) = Some (True, ?p)"
    unfolding msg bd_def [symmetric] by (rule Din_Copy_msg) (use len L(2) in simp_all)
  have wf: "pk_wf DATA_BUFFER ?p" "m_nBufPos ?p \<le> m_nPacketSize ?p" using len L(2) by (simp_all add: packet_simps)
  obtain q where q: "Din_ReadInt DATA_BUFFER ?p = Some (word_of_nat (length L), q)" "rest q = ?t @ []"
      "pk_wf DATA_BUFFER q" "m_nBufPos q \<le> m_nPacketSize q"
    using Din_ReadInt_ok [OF wf, of "word_of_nat (length L)" "?t @ []"] bd by (auto simp: packet_simps)
  obtain q' where q': "syn_loop (length L) q opt = Some (q', set_levels L opt)" using syn_loop_levels [OF q(3,4,2)] by blast
  have "sint (word_of_nat (length L) :: c_int) = int (length L)"
    using L(2) sint_word_of_int_c_int [of "int (length L)"] by (simp add: int_min_def int_max_def)
  then have ps: "ProcessSynData ?p opt = Some (q', set_levels L opt)" using q(1) q' by (simp add: ProcessSynData_def)
  have "m_pTJServer (set_levels L o') = m_pTJServer o'" for o'
    by (induction L o' rule: set_levels.induct) (simp_all add: SetLevelCount_def)
  then have r: "bs_OnPacketComplete msg (int (length msg)) opt =
      Some (0, (set_levels L opt)\<lparr>m_pTJServer := Some (b\<lparr>bs_pPacket := q'\<rparr>)\<rparr>)"
    using copy ps tj data_header_cmd [of len SYS_SYN_DATA bd "bs_pPacket b"] by (simp add: bs_OnPacketComplete_def bs_ProcessPacket_def)
  have "GetLevelCount (scast l) ((set_levels L opt)\<lparr>m_pTJServer := c\<rparr>) =
      (case map_of L l of Some i \<Rightarrow> playCount i | None \<Rightarrow> GetLevelCount (scast l) opt)" for l :: c_short and c
    using set_levels_get [OF L(1), of opt l] ok by (simp add: options_ok_def GetLevelCount_def)
  then show ?thesis using r by blast
qed

text \<open>The options of a process that has just started and reached the statistics server.\<close>

definition timer0 :: CCTimer where
  "timer0 = \<lparr>tm_interval = 0, tm_isloop = False, tm_armed = False\<rparr>"

definition options0 :: Options where
  "options0 = (Options_new \<lparr>listen_port = 0, server_id = 0, strLogDir = [], nNum = 0, nSize = 0, nLogLevel = 0, strServerMcAddr = [],
     strOnlineMcAddr = [], m_strTjIp = [], m_nTjPort = 0, m_nTJSwitch = 0, m_nTJInteval = 0, m_pTJServer = None, m_ServerList = [],
     m_OfflineUserMgr = [], m_LevelTotalMgr = [], m_nStartTime = 0, m_nRoundLimit = 0, m_nAddCount = 0, m_nSHMNodeCount = 0,
     m_CheckTimer = timer0, m_CheckOfflineTimer = timer0, m_CheckFlushTimer = timer0\<rparr>)\<lparr>m_pTJServer := Some tj0\<rparr>"

lemma options0_simps [simp]:
  "options_ok options0" "m_pTJServer options0 = Some tj0" "m_OfflineUserMgr options0 = []" "m_ServerList options0 = []"
  "m_LevelTotalMgr options0 = []" "m_nStartTime options0 = 0" "m_nRoundLimit options0 = 100" "m_nAddCount options0 = 0"
  by (simp_all add: options0_def Options_new_def options_ok_def)

theorem totals_taken_over_witness:
  "\<exists>opt'. bs_OnPacketComplete (data_header 21 SYS_SYN_DATA @ concat (map enc_data [FInt 1, FShort 2, FInt 50, FInt 3])) 23 options0 =
      Some (0, opt') \<and> GetLevelCount 2 opt' = 50 \<and> GetLevelCount 4 opt' = 0"
proof -
  let ?m = "data_header 21 SYS_SYN_DATA @ concat (map enc_data [FInt 1, FShort 2, FInt 50, FInt 3])"
  have "\<exists>opt'. bs_OnPacketComplete ?m (int (length ?m)) options0 = Some (0, opt') \<and>
     (\<forall>l. GetLevelCount (scast (l :: c_short)) opt' =
        (case map_of [(2, \<lparr>playCount = 50, lookCount = 3\<rparr>)] l of Some i \<Rightarrow> playCount i | None \<Rightarrow> GetLevelCount (scast l) options0))"
    by (rule totals_taken_over [of _ tj0 _ _ 21]) simp_all
  then obtain opt' where o: "bs_OnPacketComplete ?m 23 options0 = Some (0, opt')"
      "\<And>l. GetLevelCount (scast (l :: c_short)) opt' =
        (case map_of [(2, \<lparr>playCount = 50, lookCount = 3\<rparr>)] l of Some i \<Rightarrow> playCount i | None \<Rightarrow> GetLevelCount (scast l) options0)"
    by auto
  show ?thesis using o(1) o(2) [of 2] o(2) [of 4] by (auto simp: GetLevelCount_def)
qed

section \<open>Any packet is handled\<close>

lemma Din_Read_total:
  assumes "pk_wf N p"
  shows "\<exists>w q. Din_ReadInt N p = Some (w, q) \<and> pk_wf N q" "\<exists>v q. Din_ReadShort N p = Some (v, q) \<and> pk_wf N q"
proof -
  obtain r q where "Dpb_Read N 4 p = Some (r, q)" using Dpb_Read_defined [OF assms, of 4] by auto
  then show "\<exists>w q. Din_ReadInt N p = Some (w, q) \<and> pk_wf N q" using Dpb_Read_wf(1) [OF assms] by (auto simp: Din_ReadInt_def)
  obtain r q where "Dpb_Read N 2 p = Some (r, q)" using Dpb_Read_defined [OF assms, of 2] by auto
  then show "\<exists>v q. Din_ReadShort N p = Some (v, q) \<and> pk_wf N q" using Dpb_Read_wf(1) [OF assms] by (auto simp: Din_ReadShort_def)
qed

lemma syn_loop_total:
  "pk_wf DATA_BUFFER p \<Longrightarrow> options_ok opt \<Longrightarrow>
     \<exists>q opt'. syn_loop n p opt = Some (q, opt') \<and> pk_wf DATA_BUFFER q \<and> options_ok opt' \<and> m_pTJServer opt' = m_pTJServer opt"
proof (induction n arbitrary: p opt)
  case (Suc n)
  obtain l p1 where p1: "Din_ReadShort DATA_BUFFER p = Some (l, p1)" "pk_wf DATA_BUFFER p1" using Din_Read_total(2) [OF Suc.prems(1)] by blast
  obtain a p2 where p2: "Din_ReadInt DATA_BUFFER p1 = Some (a, p2)" "pk_wf DATA_BUFFER p2" using Din_Read_total(1) [OF p1(2)] by blast
  obtain c p3 where p3: "Din_ReadInt DATA_BUFFER p2 = Some (c, p3)" "pk_wf DATA_BUFFER p3" using Din_Read_total(1) [OF p2(2)] by blast
  have "m_pTJServer (SetLevelCount (scast l) a c opt) = m_pTJServer opt" by (simp add: SetLevelCount_def)
  then show ?case using Suc.IH [OF p3(2), of "SetLevelCount (scast l) a c opt"] Suc.prems(2) p1(1) p2(1) p3(1) by auto
qed simp

lemma Dpb_copy_total:
  assumes "pk_wf N p" "0 \<le> len" "len \<le> int (length data)"
  shows "\<exists>r q. Dpb_copy N data len p = Some (r, q) \<and> pk_wf N q"
  using assms by (auto simp: Dpb_copy_def Dpb_reset_def pk_wf_def Let_def)

lemma bs_OnPacketComplete_ok:
  assumes b: "m_pTJServer opt = Some b" and o: "options_ok opt"
    and p: "Din_Copy DATA_BUFFER data len (bs_pPacket b) = Some (r, p)" "pk_wf DATA_BUFFER p"
  shows "\<exists>opt' b'. bs_OnPacketComplete data len opt = Some (0, opt') \<and> options_ok opt' \<and> m_pTJServer opt' = Some b' \<and>
     pk_wf DATA_BUFFER (bs_pPacket b')"
proof -
  obtain w q where q: "Din_ReadInt DATA_BUFFER p = Some (w, q)" "pk_wf DATA_BUFFER q" using Din_Read_total(1) [OF p(2)] by blast
  obtain q' opt' where s: "syn_loop (nat (sint w)) q opt = Some (q', opt')" "pk_wf DATA_BUFFER q'" "options_ok opt'"
      "m_pTJServer opt' = m_pTJServer opt"
    using syn_loop_total [OF q(2) o] by blast
  have c: "\<exists>cmd. Dpb_GetCmdType DATA_BUFFER p = Some cmd" by (simp add: Dpb_GetCmdType_def Dpb_readHeader_def)
  have k: "options_ok (o'\<lparr>m_pTJServer := c\<rparr>) = options_ok o'" for o' c by (simp add: options_ok_def)
  show ?thesis
    using p s q(1) c b o by (auto simp: bs_OnPacketComplete_def bs_ProcessPacket_def ProcessSynData_def k)
qed

text \<open>Whatever bytes the statistics server sends, handling the packet stays within the buffer, ends and reports success: the
  loop over the announced number of levels runs to its end even when the packet is shorter, and a packet
  larger than the buffer is not copied.\<close>

theorem back_packet_safe:
  assumes "m_pTJServer opt = Some b" "pk_wf DATA_BUFFER (bs_pPacket b)" "options_ok opt" "0 \<le> len" "len \<le> int (length data)"
  shows "\<exists>opt' b'. bs_OnPacketComplete data len opt = Some (0, opt') \<and> options_ok opt' \<and> m_pTJServer opt' = Some b' \<and>
     pk_wf DATA_BUFFER (bs_pPacket b')"
proof -
  obtain r p where p: "Din_Copy DATA_BUFFER data len (bs_pPacket b) = Some (r, p)" "pk_wf DATA_BUFFER p"
    using Dpb_copy_total [OF assms(2,4,5)] by (auto simp: Din_Copy_def)
  show ?thesis by (rule bs_OnPacketComplete_ok [OF assms(1,3) p])
qed

theorem back_packet_safe_witness:
  "\<exists>opt' b'. bs_OnPacketComplete (data_header 11 SYS_SYN_DATA @ enc_data (FInt 3)) 13 options0 = Some (0, opt') \<and> options_ok opt' \<and>
     m_pTJServer opt' = Some b' \<and> pk_wf DATA_BUFFER (bs_pPacket b')"
proof (rule back_packet_safe)
  show "pk_wf DATA_BUFFER (bs_pPacket tj0)" by (simp add: tj0_def pk_wf_def)
qed simp_all

end
