(* ===== verification/Server.thy ===== *)
theory Server
  imports GameUser BackServer
begin

text \<open>
  The state of the running server and what it does without a client: the traversal of the store with a visitor, the timer handlers of
  \<open>Server/Options.cpp\<close>, and the start of \<open>Server/Main.cpp\<close>. \<open>UserServer\<close> gathers the global objects: the options, the statistics,
  the store of users, the counter of \<open>GetRand\<close>, and the packets handed to \<open>CCSocketHandler::Send\<close> for the connection being served.
  A handler reads the clock once, as \<open>env_now\<close>; differences of times are 32-bit.
\<close>

section \<open>State\<close>

record UserServer =
  w_opt :: Options
  w_stat :: CStat
  w_gshm :: GameUserSHM
  w_nRandCount :: c_int
  w_sent :: "byte list list"

text \<open>\<open>CStat::Instance()->Update...\<close> for a stored user.\<close>

definition stat_terminal :: "terminal_event \<Rightarrow> CGameUser \<Rightarrow> CStat \<Rightarrow> CStat" where
  "stat_terminal e u s = UpdateTerminalInfo e (scast (m_nTerminalType u)) None s"

definition stat_level :: "level_event \<Rightarrow> CGameUser \<Rightarrow> CStat \<Rightarrow> CStat" where
  "stat_level e u s = UpdateLevelInfo e (scast (m_nServerLevel u)) s"

section \<open>Traversal\<close>

text \<open>The loop over the store that four functions share: each record of the size of a user is copied into a fresh object
  and given to the loop body.\<close>

partial_function (option) visit_users :: "(CGameUser \<Rightarrow> 'a \<Rightarrow> 'a) \<Rightarrow> CShmHashMap \<Rightarrow> c_ptr \<Rightarrow> 'a \<Rightarrow> 'a option" where
  "visit_users body h pNode a =
     (if pNode = None then Some a
      else do {
        (ret, bs, l) \<leftarrow> vistor_GetData pNode (int sizeof_CGameUser) h;
        let user = user_of_bytes (bs @ drop (length bs) (user_bytes CGameUser_default));
        let a = (if ret = -1 \<or> l \<noteq> Some (int sizeof_CGameUser) then a else body user a);
        pNode \<leftarrow> vistor_next pNode h;
        visit_users body h pNode a
      })"

section \<open>Timer handlers\<close>

definition ProcessTimeCheck :: "UserServer \<Rightarrow> UserServer option" where
  "ProcessTimeCheck w =
     do {
       let opt = w_opt w;
       let opt = opt\<lparr>m_CheckTimer := CCTimer_StopTimer (m_CheckTimer opt)\<rparr>;
       opt \<leftarrow> ReportData (w_stat w) opt;
       let opt = opt\<lparr>m_CheckTimer := CTimer_StartTimer (sint (m_nTJInteval opt)) (m_CheckTimer opt)\<rparr>;
       Some (w\<lparr>w_opt := opt\<rparr>)
     }"

text \<open>A user who has been offline for five minutes is logged out and removed; the entry leaves the offline list in any case.\<close>

definition offline_user :: "c_int \<Rightarrow> c_int \<Rightarrow> UserServer \<Rightarrow> UserServer option" where
  "offline_user now uid w =
     do {
       (ret, user, g) \<leftarrow> gshm_Find now uid CGameUser_default (w_gshm w);
       let w = w\<lparr>w_gshm := g\<rparr>;
       if ret = 0 then do {
         let s = stat_terminal TERMINAL_LOGOUTHALL user (w_stat w);
         let s = (if 0 < sint (m_nTid user) then stat_terminal TERMINAL_LOGOUTTABLE user s else s);
         let s = (if m_nServerLevel user \<noteq> -1 then stat_level LEVEL_LOGOUT user s else s);
         (_, g) \<leftarrow> gshm_Delete now (m_nUid user) g;
         Some (w\<lparr>w_stat := s, w_gshm := g\<rparr>)
       }
       else Some w
     }"

fun offline_loop :: "c_int \<Rightarrow> (c_int \<times> c_int) list \<Rightarrow> UserServer \<Rightarrow> UserServer option" where
  "offline_loop now [] w = Some w"
| "offline_loop now ((uid, offlineTime) # es) w =
     (if sint (now - offlineTime) \<ge> 5 * 60 then do {
        w \<leftarrow> offline_user now uid w;
        offline_loop now es (w\<lparr>w_opt := (w_opt w)\<lparr>m_OfflineUserMgr := sm_erase uid (m_OfflineUserMgr (w_opt w))\<rparr>\<rparr>)
      }
      else offline_loop now es w)"

definition ProcessOfflineCheck :: "env \<Rightarrow> UserServer \<Rightarrow> UserServer option" where
  "ProcessOfflineCheck e w =
     do {
       let w = w\<lparr>w_opt := (w_opt w)\<lparr>m_CheckOfflineTimer := CCTimer_StopTimer (m_CheckOfflineTimer (w_opt w))\<rparr>\<rparr>;
       w \<leftarrow> offline_loop (env_now e) (m_OfflineUserMgr (w_opt w)) w;
       Some (w\<lparr>w_opt := (w_opt w)\<lparr>m_CheckOfflineTimer := CTimer_StartTimer TIME_INTEVAL (m_CheckOfflineTimer (w_opt w))\<rparr>\<rparr>)
     }"

text \<open>A user whose record has not been updated for an hour, or for two hours when at a table, is logged out and noted for deletion.
  The loop keeps the statistics, the options and the list \<open>needDelUser\<close>.\<close>

definition flush_user :: "c_int \<Rightarrow> CGameUser \<Rightarrow> CStat \<times> Options \<times> c_int list \<Rightarrow> CStat \<times> Options \<times> c_int list" where
  "flush_user now user a =
     (let (s, opt, needDelUser) = a;
          timePass = now - m_nUpdateTime user
      in
        if m_nTid user = 0 then
          (if sint timePass \<ge> 1 * 60 * 60 then
             let s = stat_terminal TERMINAL_LOGOUTHALL user s;
                 s = (if m_nServerLevel user \<noteq> -1 then stat_level LEVEL_LOGOUT user s else s)
             in (s, DeleteOfflineUser (m_nUid user) opt, needDelUser @ [m_nUid user])
           else a)
        else
          (if sint timePass \<ge> 2 * 60 * 60 then
             let s = stat_terminal TERMINAL_LOGOUTHALL user s;
                 s = stat_terminal TERMINAL_LOGOUTTABLE user s;
                 s = (if m_nServerLevel user \<noteq> -1 then stat_level LEVEL_LOGOUT user s else s)
             in (s, DeleteOfflineUser (m_nUid user) opt, needDelUser @ [m_nUid user])
           else a))"

fun delete_users :: "c_int \<Rightarrow> c_int list \<Rightarrow> GameUserSHM \<Rightarrow> GameUserSHM option" where
  "delete_users now [] g = Some g"
| "delete_users now (uid # uids) g = do { (_, g) \<leftarrow> gshm_Delete now uid g; delete_users now uids g }"

definition ProcessFlushCheck :: "env \<Rightarrow> UserServer \<Rightarrow> UserServer option" where
  "ProcessFlushCheck e w =
     do {
       let opt = (w_opt w)\<lparr>m_CheckFlushTimer := CCTimer_StopTimer (m_CheckFlushTimer (w_opt w))\<rparr>;
       let h = m_ShmHashMap (w_gshm w);
       (s, opt, needDelUser) \<leftarrow> visit_users (flush_user (env_now e)) h (vistor_begin h) (w_stat w, opt, []);
       g \<leftarrow> delete_users (env_now e) needDelUser (w_gshm w);
       let opt = opt\<lparr>m_CheckFlushTimer := CTimer_StartTimer FLUSH_CHECK_TIME (m_CheckFlushTimer opt)\<rparr>;
       Some (w\<lparr>w_opt := opt, w_stat := s, w_gshm := g\<rparr>)
     }"

definition ProcessOnTimerOut :: "env \<Rightarrow> int \<Rightarrow> UserServer \<Rightarrow> UserServer option" where
  "ProcessOnTimerOut e nId w =
     (if nId = 1 then ProcessTimeCheck w
      else if nId = 3 then ProcessFlushCheck e w
      else if nId = 2 then ProcessOfflineCheck e w
      else Some w)"

section \<open>Start\<close>

definition start_user :: "CGameUser \<Rightarrow> CStat \<Rightarrow> CStat" where
  "start_user user s =
     (let s = stat_terminal TERMINAL_LOGINHALL user s in
      if 0 < sint (m_nTid user) then stat_level LEVEL_LOGIN user (stat_terminal TERMINAL_LOGINTABLE user s) else s)"

definition ReportStartTJData :: "UserServer \<Rightarrow> UserServer option" where
  "ReportStartTJData w =
     do {
       let h = m_ShmHashMap (w_gshm w);
       s \<leftarrow> visit_users start_user h (vistor_begin h) (w_stat w);
       opt \<leftarrow> ReportData s (w_opt w);
       Some (w\<lparr>w_stat := s, w_opt := opt\<rparr>)
     }"

text \<open>\<open>__KEY_BASE\<close> is \<open>0x20111\<close>. The parameters of \<open>gshm_Init\<close> are those of the shared memory theory.\<close>

definition InitSHM :: "'o shm_os \<Rightarrow> int \<Rightarrow> (int \<Rightarrow> CHashMap) \<Rightarrow> UserServer \<Rightarrow> 'o \<Rightarrow> (int \<times> UserServer \<times> 'o) option" where
  "InitSHM os init0 mem w s =
     do {
       let opt = w_opt w;
       let hashPara = \<lparr>bucket_size_cfg = 65537, node_total_cfg = sint (m_nSHMNodeCount opt), chunk_total_cfg = sint (m_nSHMNodeCount opt),
                       chunk_size_cfg = int sizeof_CGameUser\<rparr>;
       let shmkey = sint (0x20111 + server_id opt);
       let semkey = sint (0x20111 + server_id opt);
       (ret, g, s) \<leftarrow> gshm_Init os init0 mem (gshm_SetHashInfo hashPara shmkey semkey (w_gshm w)) s;
       let w = w\<lparr>w_gshm := g\<rparr>;
       if ret \<noteq> 0 then Some (-1, w, s)
       else do { w \<leftarrow> ReportStartTJData w; Some (0, w, s) }
     }"

section \<open>The traversal visits every user once\<close>

lemma visit_users_from:
  assumes inv: "hm_inv (shm_map h) fs bs (ys @ xs) 20 n B" and U: "map (hm_entry (shm_map h) B) xs = map (\<lambda>(k, u). (k, user_bytes u)) U"
  shows "visit_users body h (case xs of [] \<Rightarrow> None | x # _ \<Rightarrow> Some x) a = Some (fold (\<lambda>e. body (snd e)) U a)"
  using assms
proof (induction xs arbitrary: ys U a)
  case Nil
  then show ?case by (subst visit_users.simps) simp
next
  case (Cons x xs)
  obtain k u V where V: "U = (k, u) # V" "hm_entry (shm_map h) B x = (k, user_bytes u)"
      "map (hm_entry (shm_map h) B) xs = map (\<lambda>(k, u). (k, user_bytes u)) V"
    using Cons.prems(2) by (cases U) auto
  have x: "x \<in> set (ys @ x # xs)" by simp
  obtain l where l: "CL (shm_map h) x = Some l" "length (snd (hm_entry (shm_map h) B x)) = nat l" "0 < l"
    using hm_inv_entry_len [OF Cons.prems(1) x] by metis
  then have l20: "l = 20" using V(2) by simp
  have g: "vistor_GetData (Some x) 20 h = Some (0, user_bytes u, Some 20)"
    using hm_merge_node_inv [OF Cons.prems(1) x l(1), of 20] V(2) l20 by (simp add: vistor_GetData_def)
  have nx: "vistor_next (Some x) h = Some (case xs of [] \<Rightarrow> None | y # _ \<Rightarrow> Some y)"
    using hm_rep_walk(2) [OF Cons.prems(1)] by (simp add: vistor_next_def)
  have "visit_users body h (case xs of [] \<Rightarrow> None | x # _ \<Rightarrow> Some x) (body u a) = Some (fold (\<lambda>e. body (snd e)) V (body u a))"
    by (rule Cons.IH [of "ys @ [x]"]) (use Cons.prems(1) V(3) in simp_all)
  then show ?case using g nx V(1) by (subst visit_users.simps) simp
qed

lemma visit_users_rep:
  assumes "user_rep g f U"
  shows "visit_users body (m_ShmHashMap g) (vistor_begin (m_ShmHashMap g)) a = Some (fold (\<lambda>e. body (snd e)) U a)"
proof -
  obtain n where "hm_rep (shm_map (m_ShmHashMap g)) 20 n f (map (\<lambda>(k, u). (k, user_bytes u)) U)" using user_rep_pool [OF assms] by blast
  then obtain fs bs as B where inv: "hm_inv (shm_map (m_ShmHashMap g)) fs bs as 20 n B"
      and E: "map (\<lambda>(k, u). (k, user_bytes u)) U = map (hm_entry (shm_map (m_ShmHashMap g)) B) as" by (rule hm_repE)
  have "vistor_begin (m_ShmHashMap g) = (case as of [] \<Rightarrow> None | x # _ \<Rightarrow> Some x)"
    using hm_rep_walk(1) [of _ fs bs "[]" "hd as" "tl as" 20 n B] hm_rep_walk_nil inv by (cases as) (auto simp: vistor_begin_def)
  then show ?thesis using visit_users_from [of "m_ShmHashMap g" fs bs "[]" as n B U] inv E by simp
qed

section \<open>Counting users\<close>

definition users_with :: "(CGameUser \<Rightarrow> bool) \<Rightarrow> (c_int \<times> CGameUser) list \<Rightarrow> nat" where
  "users_with P U = length (filter (\<lambda>e. P (snd e)) U)"

lemma users_with_simps [simp]:
  "users_with P [] = 0" "users_with P ((k, u) # U) = (if P u then 1 else 0) + users_with P U"
  by (simp_all add: users_with_def)

lemma users_with_le: "users_with P U \<le> length U"
  by (simp add: users_with_def)

lemma lru_delete_absent: "map_of U k = None \<Longrightarrow> lru_delete k U = U"
  by (auto simp: lru_delete_def filter_id_conv map_of_eq_None_iff)

lemma users_with_delete:
  assumes "distinct (map fst U)" "map_of U k = Some v"
  shows "users_with P U = (if P v then 1 else 0) + users_with P (lru_delete k U)"
  using assms
proof (induction U)
  case (Cons e U)
  obtain k' u where e: "e = (k', u)" by (cases e)
  show ?case
  proof (cases "k' = k")
    case True
    then have "map_of U k = None" using Cons.prems(1) e by (simp add: map_of_eq_None_iff)
    then show ?thesis using lru_delete_absent [of U k] True Cons.prems e by (simp add: lru_delete_def)
  next
    case False
    then show ?thesis using Cons e by (simp add: lru_delete_def)
  qed
qed simp

lemma users_with_set [simp]: "users_with P (lru_set k v U) = (if P v then 1 else 0) + users_with P (lru_delete k U)"
  by (simp add: lru_set_def lru_delete_def)

lemma users_with_touch:
  assumes "distinct (map fst U)"
  shows "users_with P (lru_touch k U) = users_with P U"
proof (cases "map_of U k")
  case (Some v)
  then have "lru_touch k U = lru_set k v U" by (simp add: lru_touch_def lru_set_def)
  then show ?thesis using users_with_delete [OF assms Some, of P] by simp
qed (simp add: lru_touch_def)

end
