(* ===== verification/ServerInv.thy ===== *)
theory ServerInv
  imports Server
begin

text \<open>
  The invariant of the running server: the store is well formed and the counters of users online agree with it. Each timer
  handler, and the start, returns and keeps or establishes it.
\<close>

section \<open>The number of users online\<close>

lemma counter_pos: "n < 2 ^ 31 \<Longrightarrow> 0 < sint (word_of_nat n :: c_int) \<longleftrightarrow> 0 < n"
  using sint_word_of_int_c_int [of "int n"] by (simp add: int_min_def int_max_def)

definition online_exact :: "CStat \<Rightarrow> (c_int \<times> CGameUser) list \<Rightarrow> bool" where
  "online_exact s U \<longleftrightarrow> (\<forall>t. onlineCount (term_info s t) = word_of_nat (users_with (\<lambda>u. m_nTerminalType u = t) U))"

lemma stat_ok_events [simp, intro]:
  "stat_ok s \<Longrightarrow> stat_ok (stat_terminal e u s)" "stat_ok s \<Longrightarrow> stat_ok (stat_level le u s)"
  by (simp_all add: stat_terminal_def stat_level_def)

lemma term_info_level [simp]: "term_info (stat_level e u s) t = term_info s t"
  by (simp add: stat_level_def)

lemma online_table [simp]:
  "stat_ok s \<Longrightarrow> onlineCount (term_info (stat_terminal TERMINAL_LOGOUTTABLE u s) t) = onlineCount (term_info s t)"
  "stat_ok s \<Longrightarrow> onlineCount (term_info (stat_terminal TERMINAL_LOGINTABLE u s) t) = onlineCount (term_info s t)"
  "stat_ok s \<Longrightarrow> onlineCount (term_info (stat_terminal TERMINAL_STANDTABLE u s) t) = onlineCount (term_info s t)"
  "stat_ok s \<Longrightarrow> onlineCount (term_info (stat_terminal TERMINAL_STANDLEAVETABLE u s) t) = onlineCount (term_info s t)"
  by (simp_all add: stat_terminal_def stat_op_defs stat_simps Let_def)

lemma online_exact_level [simp]: "online_exact (stat_level e u s) U = online_exact s U"
  by (simp add: online_exact_def)

lemma online_exact_table [simp]:
  "stat_ok s \<Longrightarrow> online_exact (stat_terminal TERMINAL_LOGOUTTABLE u s) U = online_exact s U"
  "stat_ok s \<Longrightarrow> online_exact (stat_terminal TERMINAL_LOGINTABLE u s) U = online_exact s U"
  "stat_ok s \<Longrightarrow> online_exact (stat_terminal TERMINAL_STANDTABLE u s) U = online_exact s U"
  "stat_ok s \<Longrightarrow> online_exact (stat_terminal TERMINAL_STANDLEAVETABLE u s) U = online_exact s U"
  by (simp_all add: online_exact_def)

lemma online_exact_touch: "distinct (map fst U) \<Longrightarrow> online_exact s (lru_touch k U) = online_exact s U"
  by (simp add: online_exact_def users_with_touch)

text \<open>A change of a stored user that keeps the terminal type.\<close>

lemma online_exact_same:
  assumes "distinct (map fst U)" "map_of U k = Some v" "m_nTerminalType u = m_nTerminalType v"
  shows "online_exact s (lru_set k u U) = online_exact s U"
  using users_with_delete [OF assms(1,2)] assms(3) by (simp add: online_exact_def)

lemma online_exact_logout:
  assumes ok: "stat_ok s" and ex: "online_exact s U" and U: "distinct (map fst U)" "length U < 2 ^ 31" "map_of U k = Some v"
  shows "online_exact (stat_terminal TERMINAL_LOGOUTHALL v s) (lru_delete k U)"
  unfolding online_exact_def
proof
  fix t
  have n: "users_with (\<lambda>u. m_nTerminalType u = t) U = (if m_nTerminalType v = t then 1 else 0) +
      users_with (\<lambda>u. m_nTerminalType u = t) (lru_delete k U)"
    by (rule users_with_delete [OF U(1,3)])
  have "users_with (\<lambda>u. m_nTerminalType u = t) U < 2 ^ 31" using users_with_le [of _ U] U(2) by (rule le_less_trans)
  then have p: "0 < sint (onlineCount (term_info s t)) \<longleftrightarrow> 0 < users_with (\<lambda>u. m_nTerminalType u = t) U"
    using ex counter_pos by (simp add: online_exact_def)
  show "onlineCount (term_info (stat_terminal TERMINAL_LOGOUTHALL v s) t) =
      word_of_nat (users_with (\<lambda>u. m_nTerminalType u = t) (lru_delete k U))"
    using ex n p UserLogoutHall_info [OF ok, of "scast (m_nTerminalType v)" t]
    by (simp add: online_exact_def stat_terminal_def split: if_splits)
qed

lemma online_exact_login:
  assumes ok: "stat_ok s" and ex: "online_exact s U" and U: "map_of U k = None"
  shows "online_exact (stat_terminal TERMINAL_LOGINHALL u s) (lru_set k u U)"
  using ex UserLoginHall_new_info [OF ok] lru_delete_absent [OF U]
  by (auto simp: online_exact_def stat_terminal_def)

section \<open>The invariant of the server\<close>

text \<open>The store is well formed and holds the users \<open>U\<close> with room for \<open>f\<close> more, the maps are ordered, and the number
  of users online on each terminal type is the number of users stored with that type.\<close>

definition server_ok :: "UserServer \<Rightarrow> nat \<Rightarrow> (c_int \<times> CGameUser) list \<Rightarrow> bool" where
  "server_ok w f U \<longleftrightarrow> user_rep (w_gshm w) f U \<and> stat_ok (w_stat w) \<and> options_ok (w_opt w) \<and> length U + f < 2 ^ 31 \<and>
     online_exact (w_stat w) U"

lemma server_okD:
  assumes "server_ok w f U"
  shows "user_rep (w_gshm w) f U" "stat_ok (w_stat w)" "options_ok (w_opt w)" "length U + f < 2 ^ 31" "online_exact (w_stat w) U"
    "distinct (map fst U)" "\<forall>e \<in> set U. m_nUid (snd e) = fst e" "length U < 2 ^ 31"
  using assms us.rep_keys [of "w_gshm w" f U] by (auto simp: server_ok_def)

lemma server_ok_opt:
  "server_ok w f U \<Longrightarrow> options_ok opt \<Longrightarrow> server_ok (w\<lparr>w_opt := opt\<rparr>) f U"
  by (simp add: server_ok_def)

lemma options_ok_fields [simp]:
  "options_ok (opt\<lparr>m_CheckTimer := t\<rparr>) = options_ok opt" "options_ok (opt\<lparr>m_CheckOfflineTimer := t\<rparr>) = options_ok opt"
  "options_ok (opt\<lparr>m_CheckFlushTimer := t\<rparr>) = options_ok opt" "options_ok (opt\<lparr>m_pTJServer := b\<rparr>) = options_ok opt"
  "options_ok opt \<Longrightarrow> options_ok (opt\<lparr>m_OfflineUserMgr := sm_erase k (m_OfflineUserMgr opt)\<rparr>)"
  by (simp_all add: options_ok_def sm_ok_erase)

lemma uid_of: "server_ok w f U \<Longrightarrow> map_of U k = Some v \<Longrightarrow> m_nUid v = k"
  using server_okD(7) map_of_SomeD by fastforce

lemma find_user:
  assumes "server_ok w f U"
  shows "map_of U k = None \<Longrightarrow> gshm_Find now k u (w_gshm w) = Some (-1, u, w_gshm w)"
    and "map_of U k = Some v \<Longrightarrow> \<exists>g. gshm_Find now k u (w_gshm w) = Some (0, v, g) \<and> server_ok (w\<lparr>w_gshm := g\<rparr>) f (lru_touch k U)"
proof -
  note W = server_okD [OF assms]
  show "map_of U k = None \<Longrightarrow> gshm_Find now k u (w_gshm w) = Some (-1, u, w_gshm w)" by (rule us.find_none [OF W(1)])
  assume v: "map_of U k = Some v"
  obtain g where "gshm_Find now k u (w_gshm w) = Some (0, v, g)" "user_rep g f (lru_touch k U)" using us.find_some [OF W(1) v] by blast
  moreover have "length (lru_touch k U) = length U" using length_lru(3) [OF W(6), of k] v by simp
  ultimately show "\<exists>g. gshm_Find now k u (w_gshm w) = Some (0, v, g) \<and> server_ok (w\<lparr>w_gshm := g\<rparr>) f (lru_touch k U)"
    using W by (auto simp: server_ok_def online_exact_touch)
qed

text \<open>Removing a user together with the logout from the hall.\<close>

lemma remove_user:
  assumes ok: "server_ok w f U" and v: "map_of U k = Some v" and s: "stat_ok s" "online_exact s (lru_delete k U)"
  shows "\<exists>g. gshm_Delete now k (w_gshm w) = Some (0, g) \<and> server_ok (w\<lparr>w_stat := s, w_gshm := g\<rparr>) (f + 1) (lru_delete k U)"
proof -
  note W = server_okD [OF ok]
  have k: "map_of U k \<noteq> None" using v by simp
  obtain g where g: "gshm_Delete now k (w_gshm w) = Some (0, g)" "user_rep g (f + 1) (lru_delete k U)"
    using us.del_some [OF W(1) k] by blast
  have "length (lru_delete k U) + (f + 1) < 2 ^ 31"
    using W(4) length_lru(4) [OF W(6) k] v by (cases U) auto
  then show ?thesis using g W s by (auto simp: server_ok_def)
qed

lemma set_user:
  assumes ok: "server_ok w f U" and v: "map_of U (m_nUid u) = Some v" and s: "stat_ok s" "online_exact s (lru_set (m_nUid u) u U)"
    and o: "options_ok opt"
  shows "\<exists>g. gshm_SetValue now u (w_gshm w) = Some (0, g) \<and>
     server_ok (w\<lparr>w_opt := opt, w_stat := s, w_gshm := g\<rparr>) f (lru_set (m_nUid u) u U)"
proof -
  note W = server_okD [OF ok]
  have k: "map_of U (m_nUid u) \<noteq> None" using v by simp
  obtain g where g: "gshm_SetValue now u (w_gshm w) = Some (0, g)" "user_rep g f (lru_set (m_nUid u) u U)"
    using us.set_old [OF W(1) k] by blast
  then show ?thesis using W s o length_lru(2) [OF W(6) k] by (auto simp: server_ok_def)
qed

section \<open>The users in the store\<close>

text \<open>What the store holds, read off by the traversal: the users in order of last use, and the user of an id.\<close>

definition stored_users :: "UserServer \<Rightarrow> CGameUser list" where
  "stored_users w =
     (let h = m_ShmHashMap (w_gshm w) in
      case visit_users (\<lambda>u us. us @ [u]) h (vistor_begin h) [] of Some us \<Rightarrow> us | None \<Rightarrow> [])"

definition stored :: "UserServer \<Rightarrow> c_int \<Rightarrow> CGameUser option" where
  "stored w k = map_of (map (\<lambda>u. (m_nUid u, u)) (stored_users w)) k"

lemma fold_append: "fold (\<lambda>e us. us @ [f e]) xs ys = ys @ map f xs"
  by (induction xs arbitrary: ys) simp_all

lemma stored_ok:
  assumes "server_ok w f U"
  shows "stored_users w = map snd U" "stored w = map_of U"
proof -
  note W = server_okD [OF assms]
  show u: "stored_users w = map snd U"
    using visit_users_rep [OF W(1), of "\<lambda>u us. us @ [u]" "[]"] fold_append [of snd U "[]"] by (simp add: stored_users_def Let_def)
  have "map (\<lambda>e. (m_nUid (snd e), snd e)) U = U" using W(7) by (intro map_idI) (metis prod.collapse)
  then show "stored w = map_of U" by (intro ext) (simp add: stored_def u comp_def)
qed

section \<open>The timer handlers keep the invariant\<close>

lemma lru_map_of:
  "map_of (lru_touch k U) = map_of U" "map_of (lru_set k v U) = (map_of U)(k \<mapsto> v)" "map_of (lru_delete k U) = (map_of U)(k := None)"
  by (simp_all add: us.map_of_touch us.map_of_set us.map_of_delete)

lemma lru_delete_touch: "lru_delete k (lru_touch k U) = lru_delete k U"
  by (simp add: lru_delete_def lru_touch_def split: option.split)

lemma lru_set_touch: "lru_set k u (lru_touch k U) = lru_set k u U"
  by (simp add: lru_set_def lru_touch_def split: option.split)

lemma offline_user_ok:
  assumes ok: "server_ok w f U"
  shows "\<exists>w' f'. offline_user now uid w = Some w' \<and> server_ok w' f' (lru_delete uid U) \<and> w_opt w' = w_opt w \<and>
     length (lru_delete uid U) + f' = length U + f"
proof (cases "map_of U uid")
  case None
  then have "offline_user now uid w = Some w" using find_user(1) [OF ok None] by (simp add: offline_user_def)
  then show ?thesis using ok lru_delete_absent [OF None] by auto
next
  case (Some v)
  obtain g where g: "gshm_Find now uid CGameUser_default (w_gshm w) = Some (0, v, g)" "server_ok (w\<lparr>w_gshm := g\<rparr>) f (lru_touch uid U)"
    using find_user(2) [OF ok Some] by blast
  note W = server_okD [OF g(2)]
  have v: "map_of (lru_touch uid U) uid = Some v" by (simp add: lru_map_of Some)
  have vid: "m_nUid v = uid" by (rule uid_of [OF ok Some])
  define s1 where "s1 = stat_terminal TERMINAL_LOGOUTHALL v (w_stat w)"
  define s2 where "s2 = (if 0 < sint (m_nTid v) then stat_terminal TERMINAL_LOGOUTTABLE v s1 else s1)"
  define s3 where "s3 = (if m_nServerLevel v \<noteq> -1 then stat_level LEVEL_LOGOUT v s2 else s2)"
  have s1: "stat_ok s1" "online_exact s1 (lru_delete uid (lru_touch uid U))"
    using online_exact_logout [OF _ W(5,6,8) v] W(2) by (simp_all add: s1_def)
  then have s3: "stat_ok s3" "online_exact s3 (lru_delete uid (lru_touch uid U))" by (simp_all add: s2_def s3_def)
  obtain g' where g': "gshm_Delete now uid g = Some (0, g')"
      "server_ok (w\<lparr>w_gshm := g, w_stat := s3, w_gshm := g'\<rparr>) (f + 1) (lru_delete uid (lru_touch uid U))"
    using remove_user [OF g(2) v s3, of now] by auto
  have "offline_user now uid w = Some (w\<lparr>w_stat := s3, w_gshm := g'\<rparr>)"
    unfolding offline_user_def using g(1) g'(1) vid by (simp add: Let_def s1_def s2_def s3_def)
  moreover have "length (lru_delete uid U) + (f + 1) = length U + f"
    using length_lru(4) [OF server_okD(6) [OF ok], of uid] Some by (cases U) auto
  ultimately show ?thesis using g'(2) by (auto simp: lru_delete_touch)
qed

lemma offline_loop_ok:
  assumes "server_ok w f U"
  shows "\<exists>w' f' U'. offline_loop now es w = Some w' \<and> server_ok w' f' U' \<and> length U' + f' = length U + f \<and>
     (\<forall>k. map_of U' k = (if \<exists>t. (k, t) \<in> set es \<and> 300 \<le> sint (now - t) then None else map_of U k)) \<and>
     w_opt w' = (w_opt w)\<lparr>m_OfflineUserMgr := filter (\<lambda>e. \<nexists>t. (fst e, t) \<in> set es \<and> 300 \<le> sint (now - t)) (m_OfflineUserMgr (w_opt w))\<rparr>"
  using assms
proof (induction es arbitrary: w f U)
  case Nil
  then show ?case by (intro exI [of _ w] exI [of _ f] exI [of _ U]) simp
next
  case (Cons e es)
  obtain uid t where e: "e = (uid, t)" by (cases e)
  show ?case
  proof (cases "300 \<le> sint (now - t)")
    case True
    obtain w1 f1 where w1: "offline_user now uid w = Some w1" "server_ok w1 f1 (lru_delete uid U)" "w_opt w1 = w_opt w"
        "length (lru_delete uid U) + f1 = length U + f"
      using offline_user_ok [OF Cons.prems] by blast
    let ?w = "w1\<lparr>w_opt := (w_opt w)\<lparr>m_OfflineUserMgr := sm_erase uid (m_OfflineUserMgr (w_opt w))\<rparr>\<rparr>"
    have "server_ok ?w f1 (lru_delete uid U)"
      using server_ok_opt [OF w1(2)] server_okD(3) [OF Cons.prems] by simp
    then obtain w' f' U' where w': "offline_loop now es ?w = Some w'" "server_ok w' f' U'" "length U' + f' = length (lru_delete uid U) + f1"
        "\<forall>k. map_of U' k = (if \<exists>t. (k, t) \<in> set es \<and> 300 \<le> sint (now - t) then None else map_of (lru_delete uid U) k)"
        "w_opt w' = (w_opt ?w)\<lparr>m_OfflineUserMgr := filter (\<lambda>e. \<nexists>t. (fst e, t) \<in> set es \<and> 300 \<le> sint (now - t)) (m_OfflineUserMgr (w_opt ?w))\<rparr>"
      using Cons.IH [of ?w f1 "lru_delete uid U"] by blast
    have "filter (\<lambda>e. \<nexists>t. (fst e, t) \<in> set es \<and> 300 \<le> sint (now - t)) (sm_erase uid m) =
        filter (\<lambda>e. \<nexists>t'. (fst e, t') \<in> set ((uid, t) # es) \<and> 300 \<le> sint (now - t')) m" for m :: "(c_int \<times> c_int) list"
      unfolding sm_erase_def filter_filter by (rule filter_cong) (use True in auto)
    then show ?thesis using w' w1 True e
      by (intro exI [of _ w'] exI [of _ f'] exI [of _ U']) (auto simp: lru_map_of)
  next
    case False
    then have "(\<exists>t'. (k, t') \<in> set (e # es) \<and> 300 \<le> sint (now - t')) \<longleftrightarrow> (\<exists>t'. (k, t') \<in> set es \<and> 300 \<le> sint (now - t'))" for k
      using e by auto
    moreover have "offline_loop now (e # es) w = offline_loop now es w" using e False by simp
    ultimately show ?thesis using Cons.IH [OF Cons.prems] by presburger
  qed
qed

text \<open>The offline check as a whole: the users it removes are those listed as offline for five minutes.\<close>

lemma ProcessOfflineCheck_ok:
  assumes ok: "server_ok w f U"
  shows "\<exists>w' f' U'. ProcessOfflineCheck e w = Some w' \<and> server_ok w' f' U' \<and> length U' + f' = length U + f \<and>
     (\<forall>k. map_of U' k = (case sm_find k (m_OfflineUserMgr (w_opt w)) of
        Some t \<Rightarrow> if 300 \<le> sint (env_now e - t) then None else map_of U k | None \<Rightarrow> map_of U k)) \<and>
     m_OfflineUserMgr (w_opt w') = filter (\<lambda>(k, t). \<not> 300 \<le> sint (env_now e - t)) (m_OfflineUserMgr (w_opt w)) \<and>
     tm_armed (m_CheckOfflineTimer (w_opt w'))"
proof -
  let ?m = "m_OfflineUserMgr (w_opt w)" and ?now = "env_now e"
  let ?w = "w\<lparr>w_opt := (w_opt w)\<lparr>m_CheckOfflineTimer := CCTimer_StopTimer (m_CheckOfflineTimer (w_opt w))\<rparr>\<rparr>"
  have "sm_ok ?m" using server_okD(3) [OF ok] by (simp add: options_ok_def)
  note d = sm_ok_distinct [OF this]
  have iff: "(\<exists>t. (k, t) \<in> set ?m \<and> 300 \<le> sint (?now - t)) \<longleftrightarrow> (\<exists>t. sm_find k ?m = Some t \<and> 300 \<le> sint (?now - t))" for k
    by (simp add: map_of_eq_Some_iff [OF d])
  have "server_ok ?w f U" using server_ok_opt [OF ok] server_okD(3) [OF ok] by simp
  then obtain w1 f' U' where w1: "offline_loop ?now ?m ?w = Some w1" "server_ok w1 f' U'" "length U' + f' = length U + f"
      "\<forall>k. map_of U' k = (if \<exists>t. (k, t) \<in> set ?m \<and> 300 \<le> sint (?now - t) then None else map_of U k)"
      "w_opt w1 = (w_opt ?w)\<lparr>m_OfflineUserMgr := filter (\<lambda>e. \<nexists>t. (fst e, t) \<in> set ?m \<and> 300 \<le> sint (?now - t)) (m_OfflineUserMgr (w_opt ?w))\<rparr>"
    using offline_loop_ok [of ?w f U ?now ?m] by blast
  have "filter (\<lambda>e. \<nexists>t. (fst e, t) \<in> set ?m \<and> 300 \<le> sint (?now - t)) ?m = filter (\<lambda>(k, t). \<not> 300 \<le> sint (?now - t)) ?m"
    by (rule filter_cong) (auto simp: iff dest!: map_of_is_SomeI [OF d])
  moreover have "server_ok (w1\<lparr>w_opt := (w_opt w1)\<lparr>m_CheckOfflineTimer := CTimer_StartTimer TIME_INTEVAL (m_CheckOfflineTimer (w_opt w1))\<rparr>\<rparr>) f' U'"
    using server_ok_opt [OF w1(2)] server_okD(3) [OF w1(2)] by simp
  moreover have "map_of U' k = (case sm_find k ?m of Some t \<Rightarrow> if 300 \<le> sint (?now - t) then None else map_of U k | None \<Rightarrow> map_of U k)" for k
    using w1(4) iff [of k] by (auto split: option.split)
  ultimately show ?thesis
    using w1 by (intro exI [of _ "w1\<lparr>w_opt := (w_opt w1)\<lparr>m_CheckOfflineTimer := CTimer_StartTimer TIME_INTEVAL (m_CheckOfflineTimer (w_opt w1))\<rparr>\<rparr>"]
        exI [of _ f'] exI [of _ U']) (simp add: ProcessOfflineCheck_def Let_def CTimer_StartTimer_def CCTimer_StartTimer_def)
qed

lemma ProcessTimeCheck_ok:
  assumes ok: "server_ok w f U"
  shows "\<exists>w'. ProcessTimeCheck w = Some w' \<and> server_ok w' f U \<and> m_OfflineUserMgr (w_opt w') = m_OfflineUserMgr (w_opt w) \<and>
     tm_armed (m_CheckTimer (w_opt w'))"
proof -
  obtain b where "ReportData (w_stat w) ((w_opt w)\<lparr>m_CheckTimer := CCTimer_StopTimer (m_CheckTimer (w_opt w))\<rparr>) =
      Some ((w_opt w)\<lparr>m_CheckTimer := CCTimer_StopTimer (m_CheckTimer (w_opt w)), m_pTJServer := b\<rparr>)"
    using ReportData_total by fastforce
  then show ?thesis using server_ok_opt [OF ok] server_okD(3) [OF ok]
    by (simp add: ProcessTimeCheck_def Let_def CTimer_StartTimer_def CCTimer_StartTimer_def)
qed

text \<open>The flush check. A user is stale when the record is too old for its table state.\<close>

definition stale :: "c_int \<Rightarrow> CGameUser \<Rightarrow> bool" where
  "stale now u \<longleftrightarrow> (if m_nTid u = 0 then 3600 \<le> sint (now - m_nUpdateTime u) else 7200 \<le> sint (now - m_nUpdateTime u))"

lemma flush_user_eq:
  "flush_user now u (s, opt, D) =
     (if stale now u then
        (let s = stat_terminal TERMINAL_LOGOUTHALL u s;
             s = (if m_nTid u = 0 then s else stat_terminal TERMINAL_LOGOUTTABLE u s)
         in (if m_nServerLevel u \<noteq> -1 then stat_level LEVEL_LOGOUT u s else s, DeleteOfflineUser (m_nUid u) opt, D @ [m_nUid u]))
      else (s, opt, D))"
  by (simp add: flush_user_def stale_def Let_def)

lemma delete_users_rep:
  assumes "user_rep g f U" "distinct ks" "\<forall>k \<in> set ks. map_of U k \<noteq> None"
  shows "\<exists>g'. delete_users now ks g = Some g' \<and> user_rep g' (f + length ks) (filter (\<lambda>e. fst e \<notin> set ks) U)"
  using assms
proof (induction ks arbitrary: g f U)
  case (Cons k ks)
  obtain g1 where g1: "gshm_Delete now k g = Some (0, g1)" "user_rep g1 (f + 1) (lru_delete k U)"
    using us.del_some [OF Cons.prems(1), of k] Cons.prems(3) by auto
  have "\<forall>k' \<in> set ks. map_of (lru_delete k U) k' \<noteq> None" using Cons.prems(2,3) by (auto simp: lru_map_of)
  then obtain g' where g': "delete_users now ks g1 = Some g'" "user_rep g' (f + 1 + length ks) (filter (\<lambda>e. fst e \<notin> set ks) (lru_delete k U))"
    using Cons.IH [OF g1(2)] Cons.prems(2) by auto
  have "filter (\<lambda>e. fst e \<notin> set ks) (lru_delete k U) = filter (\<lambda>e. fst e \<notin> set (k # ks)) U"
    unfolding lru_delete_def filter_filter by (rule filter_cong) auto
  then show ?case using g1(1) g' by simp
qed simp

text \<open>The statistics during the traversal: the counters are those of the users not yet visited and of the kept ones.\<close>

lemma flush_fold:
  assumes "stat_ok s" "options_ok opt" "online_exact s (K @ U)" "distinct (map fst (K @ U))" "length (K @ U) < 2 ^ 31"
    "\<forall>e \<in> set U. m_nUid (snd e) = fst e"
  shows "\<exists>s' opt'. fold (\<lambda>e. flush_user now (snd e)) U (s, opt, D) =
       (s', opt', D @ map fst (filter (\<lambda>e. stale now (snd e)) U)) \<and> stat_ok s' \<and> options_ok opt' \<and>
     online_exact s' (K @ filter (\<lambda>e. \<not> stale now (snd e)) U) \<and> (opt' = opt \<or> (\<exists>m. opt' = opt\<lparr>m_OfflineUserMgr := m\<rparr>))"
  using assms
proof (induction U arbitrary: s opt D K)
  case (Cons e U)
  obtain k u where e: "e = (k, u)" by (cases e)
  have uid: "m_nUid u = k" using Cons.prems(6) e by simp
  show ?case
  proof (cases "stale now u")
    case False
    have p: "online_exact s ((K @ [e]) @ U)" "distinct (map fst ((K @ [e]) @ U))" "length ((K @ [e]) @ U) < 2 ^ 31"
      "\<forall>e \<in> set U. m_nUid (snd e) = fst e"
      using Cons.prems(3-6) by simp_all
    have "fold (\<lambda>e. flush_user now (snd e)) (e # U) (s, opt, D) = fold (\<lambda>e. flush_user now (snd e)) U (s, opt, D)"
      "filter (\<lambda>e. stale now (snd e)) (e # U) = filter (\<lambda>e. stale now (snd e)) U"
      "K @ filter (\<lambda>e. \<not> stale now (snd e)) (e # U) = (K @ [e]) @ filter (\<lambda>e. \<not> stale now (snd e)) U"
      using False e by (simp_all add: flush_user_eq)
    then show ?thesis using Cons.IH [OF Cons.prems(1,2) p, of D] by (simp only:)
  next
    case True
    have mo: "map_of (K @ e # U) k = Some u" using Cons.prems(4) e by (simp add: map_add_Some_iff map_of_eq_None_iff image_iff)
    have nk: "k \<notin> fst ` set K" "k \<notin> fst ` set U" using Cons.prems(4) e by auto
    have "filter (\<lambda>e. fst e \<noteq> k) K = K" using nk(1) by (intro filter_True) auto
    moreover have "filter (\<lambda>e. fst e \<noteq> k) U = U" using nk(2) by (intro filter_True) auto
    ultimately have del: "lru_delete k (K @ e # U) = K @ U" using e by (simp add: lru_delete_def)
    let ?s1 = "stat_terminal TERMINAL_LOGOUTHALL u s"
    let ?s2 = "if m_nTid u = 0 then ?s1 else stat_terminal TERMINAL_LOGOUTTABLE u ?s1"
    let ?s3 = "if m_nServerLevel u \<noteq> -1 then stat_level LEVEL_LOGOUT u ?s2 else ?s2"
    have s1: "stat_ok ?s1" "online_exact ?s1 (K @ U)"
      using online_exact_logout [OF Cons.prems(1,3,4,5) mo] Cons.prems(1) unfolding del by simp_all
    then have s3: "stat_ok ?s3" "online_exact ?s3 (K @ U)" by simp_all
    have o: "options_ok (DeleteOfflineUser k opt)" using Cons.prems(2) by blast
    have k: "distinct (map fst (K @ U))" "length (K @ U) < 2 ^ 31" "\<forall>e \<in> set U. m_nUid (snd e) = fst e" using Cons.prems(4-6) by auto
    obtain s' opt' where r: "fold (\<lambda>e. flush_user now (snd e)) U (?s3, DeleteOfflineUser k opt, D @ [k]) =
        (s', opt', (D @ [k]) @ map fst (filter (\<lambda>e. stale now (snd e)) U))" "stat_ok s'" "options_ok opt'"
        "online_exact s' (K @ filter (\<lambda>e. \<not> stale now (snd e)) U)"
        "opt' = DeleteOfflineUser k opt \<or> (\<exists>m. opt' = (DeleteOfflineUser k opt)\<lparr>m_OfflineUserMgr := m\<rparr>)"
      using Cons.IH [OF s3(1) o s3(2) k, of "D @ [k]"] by blast
    have "opt' = opt \<or> (\<exists>m. opt' = opt\<lparr>m_OfflineUserMgr := m\<rparr>)"
    proof -
      have "DeleteOfflineUser k opt = opt \<or> DeleteOfflineUser k opt = opt\<lparr>m_OfflineUserMgr := sm_erase k (m_OfflineUserMgr opt)\<rparr>"
        by (simp add: DeleteOfflineUser_def)
      then show ?thesis
      proof
        assume d: "DeleteOfflineUser k opt = opt"
        show ?thesis using r(5) unfolding d .
      next
        assume d: "DeleteOfflineUser k opt = opt\<lparr>m_OfflineUserMgr := sm_erase k (m_OfflineUserMgr opt)\<rparr>"
        show ?thesis using r(5) unfolding d by auto
      qed
    qed
    moreover have f: "fold (\<lambda>e. flush_user now (snd e)) (e # U) (s, opt, D) = fold (\<lambda>e. flush_user now (snd e)) U (?s3, DeleteOfflineUser k opt, D @ [k])"
      using True e uid by (simp add: flush_user_eq Let_def)
    moreover have l: "(D @ [k]) @ map fst (filter (\<lambda>e. stale now (snd e)) U) = D @ map fst (filter (\<lambda>e. stale now (snd e)) (e # U))"
      and K: "filter (\<lambda>e. \<not> stale now (snd e)) (e # U) = filter (\<lambda>e. \<not> stale now (snd e)) U" using True e by simp_all
    have "fold (\<lambda>e. flush_user now (snd e)) (e # U) (s, opt, D) = (s', opt', D @ map fst (filter (\<lambda>e. stale now (snd e)) (e # U)))"
      unfolding f r(1) l ..
    moreover have "online_exact s' (K @ filter (\<lambda>e. \<not> stale now (snd e)) (e # U))" unfolding K by (rule r(4))
    ultimately show ?thesis using r(2,3) by (intro exI [of _ s'] exI [of _ opt'] conjI)
  qed
next
  case Nil
  then have "online_exact s (K @ filter (\<lambda>e. \<not> stale now (snd e)) [])" by simp
  with Nil show ?case by (intro exI [of _ s] exI [of _ opt] conjI disjI1) simp_all
qed

lemma ProcessFlushCheck_ok:
  assumes ok: "server_ok w f U"
  shows "\<exists>w' f' U'. ProcessFlushCheck e w = Some w' \<and> server_ok w' f' U' \<and> length U' + f' = length U + f \<and>
     U' = filter (\<lambda>(k, u). \<not> stale (env_now e) u) U \<and> tm_armed (m_CheckFlushTimer (w_opt w'))"
proof -
  note W = server_okD [OF ok]
  let ?opt = "(w_opt w)\<lparr>m_CheckFlushTimer := CCTimer_StopTimer (m_CheckFlushTimer (w_opt w))\<rparr>"
  let ?S = "filter (\<lambda>e'. stale (env_now e) (snd e')) U" and ?K = "filter (\<lambda>e'. \<not> stale (env_now e) (snd e')) U"
  have p: "options_ok ?opt" "online_exact (w_stat w) ([] @ U)" "distinct (map fst ([] @ U))" "length ([] @ U) < 2 ^ 31" using W by simp_all
  obtain s opt where r: "fold (\<lambda>e'. flush_user (env_now e) (snd e')) U (w_stat w, ?opt, []) = (s, opt, [] @ map fst ?S)" "stat_ok s"
      "options_ok opt" "online_exact s ([] @ ?K)" "opt = ?opt \<or> (\<exists>m. opt = ?opt\<lparr>m_OfflineUserMgr := m\<rparr>)"
    using flush_fold [OF W(2) p W(7), of "env_now e" "[]"] by blast
  have d: "distinct (map fst ?S)" using W(6) by (simp add: distinct_map_filter)
  have m: "\<forall>k \<in> set (map fst ?S). map_of U k \<noteq> None" by (auto simp: map_of_eq_None_iff)
  obtain g where g: "delete_users (env_now e) (map fst ?S) (w_gshm w) = Some g"
      "user_rep g (f + length (map fst ?S)) (filter (\<lambda>e'. fst e' \<notin> set (map fst ?S)) U)"
    using delete_users_rep [OF W(1) d m] by blast
  have "fst e' \<in> set (map fst ?S) \<longleftrightarrow> stale (env_now e) (snd e')" if "e' \<in> set U" for e'
  proof
    assume "fst e' \<in> set (map fst ?S)"
    then obtain e'' where "e'' \<in> set U" "stale (env_now e) (snd e'')" "fst e'' = fst e'" by auto
    then show "stale (env_now e) (snd e')" using that W(6) by (metis eq_key_imp_eq_value prod.collapse)
  qed (use that in auto)
  then have K: "filter (\<lambda>e'. fst e' \<notin> set (map fst ?S)) U = ?K" by (intro filter_cong) auto
  have len: "length ?K + length (map fst ?S) = length U"
    using sum_length_filter_compl [of "\<lambda>e'. stale (env_now e) (snd e')" U] by simp
  let ?w = "w\<lparr>w_opt := opt\<lparr>m_CheckFlushTimer := CTimer_StartTimer FLUSH_CHECK_TIME (m_CheckFlushTimer opt)\<rparr>, w_stat := s, w_gshm := g\<rparr>"
  have "ProcessFlushCheck e w = Some ?w"
    using visit_users_rep [OF W(1), of "flush_user (env_now e)" "(w_stat w, ?opt, [])"] r(1) g(1)
    by (simp add: ProcessFlushCheck_def Let_def)
  moreover have "server_ok ?w (f + length (map fst ?S)) ?K"
    using g(2) r W len unfolding server_ok_def K by (auto simp del: length_map)
  moreover have "filter (\<lambda>(k, u). \<not> stale (env_now e) u) U = ?K" by (rule filter_cong) auto
  ultimately show ?thesis using len
    by (intro exI [of _ ?w] exI [of _ "f + length (map fst ?S)"] exI [of _ ?K])
      (simp add: CTimer_StartTimer_def CCTimer_StartTimer_def del: length_map)
qed

lemma start_fold:
  assumes "stat_ok s" "online_exact s K" "distinct (map fst (U @ K))"
  shows "stat_ok (fold (\<lambda>e. start_user (snd e)) U s) \<and> online_exact (fold (\<lambda>e. start_user (snd e)) U s) (rev U @ K)"
  using assms
proof (induction U arbitrary: s K)
  case (Cons e U)
  obtain k u where e: "e = (k, u)" by (cases e)
  have n: "map_of K k = None" using Cons.prems(3) e by (auto simp: map_of_eq_None_iff)
  then have "lru_set k u K = e # K" using lru_delete_absent [OF n] e by (simp add: lru_set_def lru_delete_def)
  then have "stat_ok (start_user u s) \<and> online_exact (start_user u s) (e # K)"
    using online_exact_login [OF Cons.prems(1,2) n, of u] Cons.prems(1) by (simp add: start_user_def Let_def)
  then show ?case using Cons.IH [of "start_user u s" "e # K"] Cons.prems(3) e by auto
qed simp

lemma online_exact_rev: "online_exact s (rev U) = online_exact s U"
  by (simp add: online_exact_def users_with_def flip: rev_filter)

text \<open>The start: counting the users found in the store establishes the invariant.\<close>

lemma ReportStartTJData_ok:
  assumes "user_rep (w_gshm w) f U" "w_stat w = CStat_new" "options_ok (w_opt w)" "length U + f < 2 ^ 31"
  shows "\<exists>w'. ReportStartTJData w = Some w' \<and> server_ok w' f U \<and> m_OfflineUserMgr (w_opt w') = m_OfflineUserMgr (w_opt w)"
proof -
  have d: "distinct (map fst U)" using us.rep_keys [OF assms(1)] by simp
  let ?s = "fold (\<lambda>e. start_user (snd e)) U CStat_new"
  have "online_exact CStat_new []" by (simp add: online_exact_def DATAINFO_new_def)
  then have s: "stat_ok ?s" "online_exact ?s U" using start_fold [of CStat_new "[]" U] d by (simp_all add: online_exact_rev)
  obtain b where "ReportData ?s (w_opt w) = Some ((w_opt w)\<lparr>m_pTJServer := b\<rparr>)" using ReportData_total by blast
  then show ?thesis
    using visit_users_rep [OF assms(1), of start_user "w_stat w"] assms s by (simp add: ReportStartTJData_def server_ok_def Let_def)
qed

end
