(* ===== verification/ClientHandler.thy ===== *)
theory ClientHandler
  imports Server "HOL-Library.Signed_Division"
begin

text \<open>
  \<open>Server/ClientHandler.h\<close>, \<open>Server/ClientHandler.cpp\<close>: the handlers of the packets that the hall servers and game servers send. A
  handler takes the packet at its read position and the state of the server and returns its result code, the packet with
  the position moved on, and the new state; every packet it hands to \<open>Send\<close> is appended to \<open>w_sent\<close>.
\<close>

section \<open>Commands\<close>

abbreviation CLIENT_PACKET :: c_short where "CLIENT_PACKET \<equiv> 0x0001"
abbreviation CLIENT_CLOSE_PACKET :: c_short where "CLIENT_CLOSE_PACKET \<equiv> 0x0002"
abbreviation SERVER_CLOSE_PACKET :: c_short where "SERVER_CLOSE_PACKET \<equiv> 0x0003"
abbreviation CLIENT_PACKET2 :: c_short where "CLIENT_PACKET2 \<equiv> 0x0004"
abbreviation ALLOC_REGISTER_PACKET :: c_short where "ALLOC_REGISTER_PACKET \<equiv> 0x0005"
abbreviation SYS_GET_USER_TABLE :: c_short where "SYS_GET_USER_TABLE \<equiv> 0x0020"
abbreviation GET_USER_HALLID :: c_short where "GET_USER_HALLID \<equiv> 0x00a1"
abbreviation CLIENT_CMD_USER_LOGIN :: c_short where "CLIENT_CMD_USER_LOGIN \<equiv> 0x0101"
abbreviation SERVER_CMD_LOGIN_SUCCESS :: c_short where "SERVER_CMD_LOGIN_SUCCESS \<equiv> 0x0201"
abbreviation SERVER_CMD_KICK_OUT :: c_short where "SERVER_CMD_KICK_OUT \<equiv> 0x0203"
abbreviation CMD_GET_ROOM_LEVER_NUM :: c_short where "CMD_GET_ROOM_LEVER_NUM \<equiv> 0x0311"
abbreviation SYS_USER_ENTER_ROOM :: c_short where "SYS_USER_ENTER_ROOM \<equiv> 0x0505"
abbreviation SYS_USER_LEAVE_ROOM :: c_short where "SYS_USER_LEAVE_ROOM \<equiv> 0x0506"
abbreviation SYS_HALL_CORE :: c_short where "SYS_HALL_CORE \<equiv> 0x0507"
abbreviation SYS_LOGIC_CORE :: c_short where "SYS_LOGIC_CORE \<equiv> 0x0508"
abbreviation SYS_USER_STAND_ROOM :: c_short where "SYS_USER_STAND_ROOM \<equiv> 0x050A"
abbreviation SYS_STAND_LEAVE_ROOM :: c_short where "SYS_STAND_LEAVE_ROOM \<equiv> 0x050B"
abbreviation SYS_SET_TJ_SWITCH :: c_short where "SYS_SET_TJ_SWITCH \<equiv> 0x0511"
abbreviation SYS_SET_LEVEL_COUNT_RANDOM :: c_short where "SYS_SET_LEVEL_COUNT_RANDOM \<equiv> 0x0513"
abbreviation CMD_CLEAR_SERVERINFO :: c_short where "CMD_CLEAR_SERVERINFO \<equiv> 0x0905"

definition LevelArr :: "c_int list" where
  "LevelArr = [1, 2, 3, 4, 5, 6, 7, 8, 9, 10, 11, 12]"

section \<open>Helpers\<close>

text \<open>\<open>GetRand\<close>: the seed is the time plus a counter; a limit of zero divides by zero.\<close>

definition GetRand :: "env \<Rightarrow> UserServer \<Rightarrow> (c_int \<times> UserServer) option" where
  "GetRand e w =
     (let c = (if sint (w_nRandCount w) > 1000000000 then 0 else w_nRandCount w);
          w = w\<lparr>w_nRandCount := c + 1\<rparr>
      in
        if m_nRoundLimit (w_opt w) = 0 then None
        else Some (word_of_int (sint (env_rand e (env_now e + c)) smod sint (m_nRoundLimit (w_opt w))), w))"

text \<open>The flag of the header is only logged when it is wrong.\<close>

definition CheckPacketComplete :: "byte list \<Rightarrow> int \<Rightarrow> int" where
  "CheckPacketComplete pData nLen =
     (if nLen < 9 then 0
      else
        let pkglen = 2 + uint (ntohs (of_le16 (take 2 pData))) in
          if pkglen < 0 \<or> pkglen > 8 * 1024 then 0
          else if nLen \<noteq> pkglen then 0
          else 1)"

definition ch_Send :: "'a packet_scheme \<Rightarrow> UserServer \<Rightarrow> UserServer" where
  "ch_Send packet w = w\<lparr>w_sent := w_sent w @ [packet_bytes packet]\<rparr>"

definition SendClientPacket :: "c_int \<Rightarrow> c_int \<Rightarrow> output_packet \<Rightarrow> UserServer \<Rightarrow> UserServer option" where
  "SendClientPacket uid svid pPacket w =
     do {
       (_, pPacket) \<leftarrow> Out_EncryptBuffer pPacket;
       resPacket \<leftarrow> build_message CLIENT_PACKET [FInt uid, FInt svid, FBinary (packet_bytes pPacket)] output_packet0;
       Some (ch_Send resPacket w)
     }"

definition SendServerClosePacket :: "c_int \<Rightarrow> c_int \<Rightarrow> UserServer \<Rightarrow> UserServer option" where
  "SendServerClosePacket uid svid w =
     do { resPacket \<leftarrow> build_message SERVER_CLOSE_PACKET [FInt uid, FInt svid] output_packet0; Some (ch_Send resPacket w) }"

text \<open>The server of a table is in the upper half of the table id. Address, port and level come from the
  server list or else from memcached, which also fills the list.\<close>

definition server_of_tid :: "c_int \<Rightarrow> c_short" where
  "server_of_tid tid = ucast (drop_bit 16 tid)"

definition locate_server :: "env \<Rightarrow> c_short \<Rightarrow> Options \<Rightarrow> (byte list \<times> c_int \<times> c_short) \<times> Options" where
  "locate_server e serverId opt =
     (case GetServer (scast serverId) opt of
        Some pServer \<Rightarrow> ((ls_strIp pServer, ls_nPort pServer, ls_nLevel pServer), opt)
      | None \<Rightarrow>
          let (r, serverLevel, ip, port) = GetServerInfoFromMc e serverId (-1, [], 0) in
            if r = 1 then ((ip, port, serverLevel),
                AddLogicServer (scast serverId) (Some (CLogicServer_new serverId serverLevel ip port)) opt)
            else ((ip, port, serverLevel), opt))"

definition find_server :: "env \<Rightarrow> c_short \<Rightarrow> Options \<Rightarrow> CLogicServer option \<times> Options" where
  "find_server e nServerId opt =
     (case GetServer (scast nServerId) opt of Some sv \<Rightarrow> (Some sv, opt) | None \<Rightarrow> GetServerFromMc e nServerId opt)"

text \<open>The second half of the two functions below: each user noted is looked up again and written back changed.\<close>

fun update_users :: "c_int \<Rightarrow> (CGameUser \<Rightarrow> CGameUser) \<Rightarrow> c_int list \<Rightarrow> GameUserSHM \<Rightarrow> GameUserSHM option" where
  "update_users now f [] g = Some g"
| "update_users now f (uid # uids) g =
     do {
       (ret, user, g) \<leftarrow> gshm_Find now uid CGameUser_default g;
       g \<leftarrow> (if ret = 0 then do { (_, g) \<leftarrow> gshm_SetValue now (f user) g; Some g } else Some g);
       update_users now f uids g
     }"

definition tid0_user :: "c_short \<Rightarrow> CGameUser \<Rightarrow> CStat \<times> c_int list \<Rightarrow> CStat \<times> c_int list" where
  "tid0_user sid user a =
     (let (s, tid0User) = a in
        if 0 < sint (m_nTid user) \<and> sint (drop_bit 16 (m_nTid user)) = sint sid then
          let s = stat_terminal TERMINAL_LOGOUTTABLE user s;
              s = (if m_nServerLevel user \<noteq> -1 then stat_level LEVEL_LOGOUT user s else s)
          in (s, tid0User @ [m_nUid user])
        else a)"

definition SetServerUserTid0 :: "env \<Rightarrow> c_short \<Rightarrow> UserServer \<Rightarrow> UserServer option" where
  "SetServerUserTid0 e sid w =
     do {
       let h = m_ShmHashMap (w_gshm w);
       (s, tid0User) \<leftarrow> visit_users (tid0_user sid) h (vistor_begin h) (w_stat w, []);
       g \<leftarrow> update_users (env_now e) (\<lambda>user. user\<lparr>m_nTid := 0, m_nServerLevel := -1\<rparr>) tid0User (w_gshm w);
       Some (w\<lparr>w_stat := s, w_gshm := g\<rparr>)
     }"

definition hall_user :: "c_int \<Rightarrow> c_int \<Rightarrow> CGameUser \<Rightarrow> Options \<times> c_int list \<Rightarrow> Options \<times> c_int list" where
  "hall_user now hid user a =
     (let (opt, userHallCore) = a in
        if m_nHallServerId user = hid then
          (if sm_find (m_nUid user) (m_OfflineUserMgr opt) = None
           then opt\<lparr>m_OfflineUserMgr := sm_set (m_nUid user) now (m_OfflineUserMgr opt)\<rparr> else opt,
           userHallCore @ [m_nUid user])
        else a)"

definition SetUserOfflineHallCore :: "env \<Rightarrow> c_int \<Rightarrow> UserServer \<Rightarrow> UserServer option" where
  "SetUserOfflineHallCore e hid w =
     do {
       let h = m_ShmHashMap (w_gshm w);
       (opt, userHallCore) \<leftarrow> visit_users (hall_user (env_now e) hid) h (vistor_begin h) (w_opt w, []);
       g \<leftarrow> update_users (env_now e) (\<lambda>user. user\<lparr>m_nHallServerId := -1\<rparr>) userHallCore (w_gshm w);
       Some (w\<lparr>w_opt := opt, w_gshm := g\<rparr>)
     }"

section \<open>Requests about users\<close>

definition ProcessGetUserTable :: "env \<Rightarrow> packet \<Rightarrow> UserServer \<Rightarrow> (int \<times> packet \<times> UserServer) option" where
  "ProcessGetUserTable e p w =
     do {
       (uid, p) \<leftarrow> In_ReadInt p;
       (svid, p) \<leftarrow> In_ReadInt p;
       (level, p) \<leftarrow> In_ReadShort p;
       (sid, p) \<leftarrow> In_ReadInt p;
       (shmRet, user, g) \<leftarrow> gshm_Find (env_now e) uid CGameUser_default (w_gshm w);
       let w = w\<lparr>w_gshm := g\<rparr>;
       if shmRet = 0 \<and> 0 < sint (m_nTid user) then do {
         let user = user\<lparr>m_nUpdateTime := env_now e\<rparr>;
         let tid = m_nTid user;
         let serverId = server_of_tid tid;
         let ((ip, port, serverLevel), opt) = locate_server e serverId (w_opt w);
         (_, g) \<leftarrow> gshm_SetValue (env_now e) user (w_gshm w);
         let w = w\<lparr>w_opt := opt, w_gshm := g\<rparr>;
         resPacket \<leftarrow> build_message SYS_GET_USER_TABLE
           [FInt uid, FInt svid, FInt 1, FInt tid, FShort serverId, FString (c_str ip), FInt port, FShort serverLevel] output_packet0;
         Some (0, p, ch_Send resPacket w)
       }
       else do {
         resPacket \<leftarrow> build_message SYS_GET_USER_TABLE [FInt uid, FInt svid, FInt 0, FShort level, FInt sid] output_packet0;
         Some (0, p, ch_Send resPacket w)
       }
     }"

definition ProcessGetUserHallID :: "env \<Rightarrow> packet \<Rightarrow> UserServer \<Rightarrow> (int \<times> packet \<times> UserServer) option" where
  "ProcessGetUserHallID e p w =
     do {
       (nUid, p) \<leftarrow> In_ReadInt p;
       (shmRet, user, g) \<leftarrow> gshm_Find (env_now e) nUid CGameUser_default (w_gshm w);
       pkg \<leftarrow> build_message GET_USER_HALLID [FInt nUid, FInt (if shmRet = 0 then m_nHallServerId user else -1)] output_packet0;
       Some (0, p, ch_Send pkg (w\<lparr>w_gshm := g\<rparr>))
     }"

section \<open>Packets of clients\<close>

text \<open>A user already known on another hall is kicked out there. The store is written once, at the end.\<close>

definition login_known :: "env \<Rightarrow> c_int \<Rightarrow> c_int \<Rightarrow> c_short \<Rightarrow> CGameUser \<Rightarrow> UserServer \<Rightarrow> (CGameUser \<times> UserServer) option" where
  "login_known e nUid nSvid terminalType user w =
     do {
       w \<leftarrow> (if nSvid \<noteq> m_nHallServerId user \<and> m_nHallServerId user \<noteq> -1 then do {
               resPacket \<leftarrow> build_message SERVER_CMD_KICK_OUT [] output_packet0;
               w \<leftarrow> SendClientPacket nUid (m_nHallServerId user) resPacket w;
               SendServerClosePacket nUid (m_nHallServerId user) w
             }
             else Some w);
       let preStat = \<lparr>us_terminalType = scast (m_nTerminalType user), us_tid = m_nTid user\<rparr>;
       let w = w\<lparr>w_stat := UpdateTerminalInfo TERMINAL_LOGINHALL (scast terminalType) (Some preStat) (w_stat w)\<rparr>;
       let user = user\<lparr>m_nTerminalType := terminalType, m_nHallServerId := nSvid, m_nUpdateTime := env_now e\<rparr>;
       let pUser = CGameUser_new (m_nUid user) (m_nHallServerId user) (m_nTerminalType user) (m_nUpdateTime user);
       Some (pUser\<lparr>m_nTid := m_nTid user, m_nServerLevel := m_nServerLevel user\<rparr>, w)
     }"

definition login_new :: "env \<Rightarrow> c_int \<Rightarrow> c_int \<Rightarrow> c_short \<Rightarrow> UserServer \<Rightarrow> CGameUser \<times> UserServer" where
  "login_new e userId nSvid terminalType w =
     (let updateTime = env_now e;
          pUser = CGameUser_new userId nSvid terminalType updateTime;
          pUser = (if sint (updateTime - m_nStartTime (w_opt w)) \<le> TIME_INTEVAL then
                     let (r, nTid) = GetUserInfoFromMc e userId 0 in (if r = 1 then pUser\<lparr>m_nTid := nTid\<rparr> else pUser)
                   else pUser)
      in (pUser, w\<lparr>w_stat := UpdateTerminalInfo TERMINAL_LOGINHALL (scast terminalType) None (w_stat w)\<rparr>))"

definition login_finish :: "env \<Rightarrow> c_int \<Rightarrow> c_int \<Rightarrow> c_int \<Rightarrow> CGameUser \<Rightarrow> UserServer \<Rightarrow> UserServer option" where
  "login_finish e nUid nSvid userId pUser w =
     do {
       let opt = DeleteOfflineUser userId (w_opt w);
       let (tid, (ip, port, serverLevel), opt) =
         (if 0 < sint (m_nTid pUser) then (m_nTid pUser, locate_server e (server_of_tid (m_nTid pUser)) opt)
          else (0, ([], 0, -1), opt));
       let pUser = (if 0 < sint (m_nTid pUser) then pUser\<lparr>m_nServerLevel := serverLevel\<rparr> else pUser);
       (_, g) \<leftarrow> gshm_SetValue (env_now e) pUser (w_gshm w);
       let w = w\<lparr>w_opt := opt, w_gshm := g\<rparr>;
       resPacket \<leftarrow> build_message SERVER_CMD_LOGIN_SUCCESS
         (FInt (word_of_nat (length LevelArr)) # map FInt LevelArr @ [FInt tid, FString (c_str ip), FInt port]) output_packet0;
       SendClientPacket nUid nSvid resPacket w
     }"

definition ProcessUserLogin :: "env \<Rightarrow> c_int \<Rightarrow> c_int \<Rightarrow> packet \<Rightarrow> UserServer \<Rightarrow> (int \<times> packet \<times> UserServer) option" where
  "ProcessUserLogin e nUid nSvid p w =
     do {
       (userId, p) \<leftarrow> In_ReadInt p;
       (terminalType, p) \<leftarrow> In_ReadShort p;
       if sint userId \<le> 0 then Some (0, p, w)
       else do {
         (shmRet, user, g) \<leftarrow> gshm_Find (env_now e) userId CGameUser_default (w_gshm w);
         let w = w\<lparr>w_gshm := g\<rparr>;
         (pUser, w) \<leftarrow> (if shmRet = 0 then login_known e nUid nSvid terminalType user w
                      else Some (login_new e userId nSvid terminalType w));
         w \<leftarrow> login_finish e nUid nSvid userId pUser w;
         Some (0, p, w)
       }
     }"

text \<open>The loop over the levels asked for collects the fields of the answer.\<close>

fun level_num_loop :: "env \<Rightarrow> nat \<Rightarrow> packet \<Rightarrow> UserServer \<Rightarrow> (field list \<times> packet \<times> UserServer) option" where
  "level_num_loop e 0 p w = Some ([], p, w)"
| "level_num_loop e (Suc n) p w =
     do {
       (randCount, w) \<leftarrow> GetRand e w;
       (level, p) \<leftarrow> In_ReadShort p;
       let userCount = GetLevelCount (scast level) (w_opt w);
       (fs, p, w) \<leftarrow> level_num_loop e n p w;
       Some (FShort level # FShort (ucast (userCount + randCount + m_nAddCount (w_opt w))) # fs, p, w)
     }"

definition ProcessGetRoomLevelNum :: "env \<Rightarrow> c_int \<Rightarrow> c_int \<Rightarrow> packet \<Rightarrow> UserServer \<Rightarrow> (int \<times> packet \<times> UserServer) option" where
  "ProcessGetRoomLevelNum e nUid nSvid p w =
     do {
       (levelCount, p) \<leftarrow> In_ReadShort p;
       (fs, p, w) \<leftarrow> level_num_loop e (nat (sint levelCount)) p w;
       resPacket \<leftarrow> build_message CMD_GET_ROOM_LEVER_NUM (FShort levelCount # fs) output_packet0;
       w \<leftarrow> SendClientPacket nUid nSvid resPacket w;
       Some (0, p, w)
     }"

definition ProcessClientPacket :: "env \<Rightarrow> c_int \<Rightarrow> c_int \<Rightarrow> packet \<Rightarrow> UserServer \<Rightarrow> (int \<times> packet \<times> UserServer) option" where
  "ProcessClientPacket e nUid nSvid p w =
     do {
       (r, p) \<leftarrow> In_CrevasseBuffer p;
       if r < 0 then Some (0, p, w)
       else do {
         cmd \<leftarrow> Pb_GetCmdType p;
         if cmd = CLIENT_CMD_USER_LOGIN then ProcessUserLogin e nUid nSvid p w
         else if cmd = CMD_GET_ROOM_LEVER_NUM then ProcessGetRoomLevelNum e nUid nSvid p w
         else Some (0, p, w)
       }
     }"

text \<open>The inner packet is copied into a local packet object. For any other command \<open>nLen\<close> would be read uninitialised.\<close>

definition ProcessSubPacket :: "env \<Rightarrow> packet \<Rightarrow> UserServer \<Rightarrow> (int \<times> packet \<times> UserServer) option" where
  "ProcessSubPacket e p w =
     do {
       nCmd \<leftarrow> Pb_GetCmdType p;
       (uid, svid, nLen, szTemp, p) \<leftarrow>
         (if nCmd = CLIENT_PACKET then do {
            (uid, p) \<leftarrow> In_ReadInt p;
            (svid, p) \<leftarrow> In_ReadInt p;
            (nLen, szTemp, p) \<leftarrow> In_ReadBinary 10240 p;
            Some (uid, svid, nLen, szTemp, p)
          }
          else if nCmd = CLIENT_PACKET2 then do {
            (uid, p) \<leftarrow> In_ReadInt p;
            (svid, p) \<leftarrow> In_ReadInt p;
            (appIp, p) \<leftarrow> In_ReadInt p;
            (api, p) \<leftarrow> In_ReadShort p;
            (nLen, szTemp, p) \<leftarrow> In_ReadBinary 10240 p;
            Some (uid, svid, nLen, szTemp, p)
          }
          else None);
       if nLen < 0 then Some (0, p, w)
       else if CheckPacketComplete szTemp nLen = 0 then Some (0, p, w)
       else do {
         (ok, tempPacket) \<leftarrow> In_Copy szTemp nLen packet0;
         if \<not> ok then Some (0, p, w)
         else do { (ret, _, w) \<leftarrow> ProcessClientPacket e uid svid tempPacket w; Some (ret, p, w) }
       }
     }"

section \<open>Reports of hall and game servers\<close>

definition ProcessClientClose :: "env \<Rightarrow> packet \<Rightarrow> UserServer \<Rightarrow> (int \<times> packet \<times> UserServer) option" where
  "ProcessClientClose e p w =
     do {
       (nUid, p) \<leftarrow> In_ReadInt p;
       (shmRet, user, g) \<leftarrow> gshm_Find (env_now e) nUid CGameUser_default (w_gshm w);
       let w = w\<lparr>w_gshm := g\<rparr>;
       if shmRet = 0 then
         (if 0 < sint (m_nTid user) then do {
            let nTime = env_now e;
            let user = user\<lparr>m_nHallServerId := -1, m_nUpdateTime := nTime\<rparr>;
            (_, g) \<leftarrow> gshm_SetValue (env_now e) user (w_gshm w);
            Some (0, p, w\<lparr>w_opt := AddOfflineUser nUid nTime (w_opt w), w_gshm := g\<rparr>)
          }
          else do {
            (_, g) \<leftarrow> gshm_Delete (env_now e) nUid (w_gshm w);
            Some (0, p, w\<lparr>w_opt := DeleteOfflineUser nUid (w_opt w), w_stat := stat_terminal TERMINAL_LOGOUTHALL user (w_stat w), w_gshm := g\<rparr>)
          })
       else Some (0, p, w)
     }"

definition ProcessReportUserLeaveRoom :: "env \<Rightarrow> packet \<Rightarrow> UserServer \<Rightarrow> (int \<times> packet \<times> UserServer) option" where
  "ProcessReportUserLeaveRoom e p w =
     do {
       (nUid, p) \<leftarrow> In_ReadInt p;
       (shmRet, user, g) \<leftarrow> gshm_Find (env_now e) nUid CGameUser_default (w_gshm w);
       let w = w\<lparr>w_gshm := g\<rparr>;
       if shmRet = 0 then do {
         let s = (if 0 < sint (m_nTid user) then stat_terminal TERMINAL_LOGOUTTABLE user (w_stat w) else w_stat w);
         let s = (if m_nServerLevel user \<noteq> -1 then stat_level LEVEL_LOGOUT user s else s);
         let user = user\<lparr>m_nTid := 0, m_nUpdateTime := env_now e, m_nServerLevel := -1\<rparr>;
         (_, g) \<leftarrow> gshm_SetValue (env_now e) user (w_gshm w);
         Some (0, p, w\<lparr>w_stat := s, w_gshm := g\<rparr>)
       }
       else Some (0, p, w)
     }"

text \<open>Entering a room: the level counters follow the level of the server of the table, when it is known.\<close>

definition enter_level :: "CLogicServer option \<Rightarrow> CGameUser \<Rightarrow> CStat \<Rightarrow> CGameUser \<times> CStat" where
  "enter_level pServer user s =
     (case pServer of
        None \<Rightarrow> (user, s)
      | Some sv \<Rightarrow>
          if ls_nLevel sv \<noteq> m_nServerLevel user then
            let s = (if m_nServerLevel user \<noteq> -1 then stat_level LEVEL_LOGOUT user s else s);
                s = UpdateLevelInfo LEVEL_LOGIN (scast (ls_nLevel sv)) s
            in (user\<lparr>m_nServerLevel := ls_nLevel sv\<rparr>, s)
          else (user, s))"

definition ProcessReportUserEnterRoom :: "env \<Rightarrow> packet \<Rightarrow> UserServer \<Rightarrow> (int \<times> packet \<times> UserServer) option" where
  "ProcessReportUserEnterRoom e p w =
     do {
       (nUid, p) \<leftarrow> In_ReadInt p;
       (nTid, p) \<leftarrow> In_ReadInt p;
       (shmRet, user, g) \<leftarrow> gshm_Find (env_now e) nUid CGameUser_default (w_gshm w);
       let w = w\<lparr>w_gshm := g\<rparr>;
       if shmRet = 0 then do {
         let s = (if m_nTid user = 0 then stat_terminal TERMINAL_LOGINTABLE user (w_stat w) else w_stat w);
         let user = user\<lparr>m_nTid := nTid, m_nUpdateTime := env_now e\<rparr>;
         let (pServer, opt) = find_server e (server_of_tid nTid) (w_opt w);
         let (user, s) = enter_level pServer user s;
         (_, g) \<leftarrow> gshm_SetValue (env_now e) user (w_gshm w);
         Some (0, p, w\<lparr>w_opt := opt, w_stat := s, w_gshm := g\<rparr>)
       }
       else Some (0, p, w)
     }"

definition ProcessReportUserStandRoom :: "env \<Rightarrow> packet \<Rightarrow> UserServer \<Rightarrow> (int \<times> packet \<times> UserServer) option" where
  "ProcessReportUserStandRoom e p w =
     do {
       (nUid, p) \<leftarrow> In_ReadInt p;
       (nTid, p) \<leftarrow> In_ReadInt p;
       (shmRet, user, g) \<leftarrow> gshm_Find (env_now e) nUid CGameUser_default (w_gshm w);
       let w = w\<lparr>w_gshm := g\<rparr>;
       if shmRet = 0 then
         (let s = stat_terminal TERMINAL_STANDTABLE user (w_stat w);
              (pServer, opt) = find_server e (server_of_tid nTid) (w_opt w);
              s = (if pServer \<noteq> None then stat_level LEVEL_STANDIN user s else s)
          in Some (0, p, w\<lparr>w_opt := opt, w_stat := s\<rparr>))
       else Some (0, p, w)
     }"

definition ProcessReportStandLeaveRoom :: "env \<Rightarrow> packet \<Rightarrow> UserServer \<Rightarrow> (int \<times> packet \<times> UserServer) option" where
  "ProcessReportStandLeaveRoom e p w =
     do {
       (nUid, p) \<leftarrow> In_ReadInt p;
       (shmRet, user, g) \<leftarrow> gshm_Find (env_now e) nUid CGameUser_default (w_gshm w);
       let w = w\<lparr>w_gshm := g\<rparr>;
       if shmRet = 0 then
         (let s = stat_terminal TERMINAL_STANDLEAVETABLE user (w_stat w);
              s = (if m_nServerLevel user \<noteq> -1 then stat_level LEVEL_STANDOUT user s else s)
          in Some (0, p, w\<lparr>w_stat := s\<rparr>))
       else Some (0, p, w)
     }"

definition ProcessLogicCore :: "env \<Rightarrow> packet \<Rightarrow> UserServer \<Rightarrow> (int \<times> packet \<times> UserServer) option" where
  "ProcessLogicCore e p w =
     do {
       (nServerId, p) \<leftarrow> In_ReadShort p;
       w \<leftarrow> SetServerUserTid0 e nServerId (w\<lparr>w_opt := DeleteLogicServer (scast nServerId) (w_opt w)\<rparr>);
       Some (0, p, w)
     }"

definition ProcessHallCore :: "env \<Rightarrow> packet \<Rightarrow> UserServer \<Rightarrow> (int \<times> packet \<times> UserServer) option" where
  "ProcessHallCore e p w = do { (nSvid, p) \<leftarrow> In_ReadInt p; w \<leftarrow> SetUserOfflineHallCore e nSvid w; Some (0, p, w) }"

definition ProcessClearServerInfo :: "packet \<Rightarrow> UserServer \<Rightarrow> (int \<times> packet \<times> UserServer) option" where
  "ProcessClearServerInfo p w = Some (0, p, w\<lparr>w_opt := ClearServerList (w_opt w)\<rparr>)"

definition ProcessTJSwitch :: "packet \<Rightarrow> UserServer \<Rightarrow> (int \<times> packet \<times> UserServer) option" where
  "ProcessTJSwitch p w =
     do {
       (nTJSwitch, p) \<leftarrow> In_ReadInt p;
       (nTJInteval, p) \<leftarrow> In_ReadInt p;
       Some (0, p, w\<lparr>w_opt := SetTjSwitch nTJSwitch nTJInteval (w_opt w)\<rparr>)
     }"

definition ProcessSetLevelCountRandom :: "env \<Rightarrow> packet \<Rightarrow> UserServer \<Rightarrow> (int \<times> packet \<times> UserServer) option" where
  "ProcessSetLevelCountRandom e p w =
     do {
       (key, p) \<leftarrow> In_ReadString p;
       if c_str key \<noteq> bytes_of_string ''sys_ctrl_level_count_random'' then Some (0, p, w)
       else do {
         (_, opt) \<leftarrow> ReadRandomConfig e (bytes_of_string ''../conf/config.ini'') (w_opt w);
         Some (0, p, w\<lparr>w_opt := opt\<rparr>)
       }
     }"

definition ProcessAllocRegister :: "packet \<Rightarrow> UserServer \<Rightarrow> (int \<times> packet \<times> UserServer) option" where
  "ProcessAllocRegister p w = Some (0, p, w)"

section \<open>Dispatch\<close>

definition ProcessPacket :: "env \<Rightarrow> packet \<Rightarrow> UserServer \<Rightarrow> (int \<times> packet \<times> UserServer) option" where
  "ProcessPacket e p w =
     do {
       nCmd \<leftarrow> Pb_GetCmdType p;
       if nCmd = ALLOC_REGISTER_PACKET then ProcessAllocRegister p w
       else if nCmd = SYS_GET_USER_TABLE then ProcessGetUserTable e p w
       else if nCmd = CLIENT_PACKET2 \<or> nCmd = CLIENT_PACKET then ProcessSubPacket e p w
       else if nCmd = CLIENT_CLOSE_PACKET then ProcessClientClose e p w
       else if nCmd = SYS_USER_LEAVE_ROOM then ProcessReportUserLeaveRoom e p w
       else if nCmd = SYS_USER_ENTER_ROOM then ProcessReportUserEnterRoom e p w
       else if nCmd = SYS_USER_STAND_ROOM then ProcessReportUserStandRoom e p w
       else if nCmd = SYS_STAND_LEAVE_ROOM then ProcessReportStandLeaveRoom e p w
       else if nCmd = SYS_LOGIC_CORE then ProcessLogicCore e p w
       else if nCmd = SYS_HALL_CORE then ProcessHallCore e p w
       else if nCmd = CMD_CLEAR_SERVERINFO then ProcessClearServerInfo p w
       else if nCmd = SYS_SET_TJ_SWITCH then ProcessTJSwitch p w
       else if nCmd = GET_USER_HALLID then ProcessGetUserHallID e p w
       else if nCmd = SYS_SET_LEVEL_COUNT_RANDOM then ProcessSetLevelCountRandom e p w
       else Some (0, p, w)
     }"

text \<open>The result of \<open>Copy\<close> is not looked at: when the data is larger than the buffer, the previous packet is processed again.\<close>

definition OnPacketComplete :: "env \<Rightarrow> byte list \<Rightarrow> int \<Rightarrow> packet \<Rightarrow> UserServer \<Rightarrow> (int \<times> packet \<times> UserServer) option" where
  "OnPacketComplete e data len pPacket w = do { (_, p) \<leftarrow> In_Copy data len pPacket; ProcessPacket e p w }"

end
