(* ===== verification/ClientInv.thy ===== *)
theory ClientInv
  imports ServerInv ClientHandler
begin

text \<open>
  Every handler of a client connection returns and keeps the invariant of the server. The interface \<open>safe_handler\<close> is the contract
  they share; a dispatcher and a sequence of packets rely on it.
\<close>

section \<open>Reading and sending\<close>

lemma In_ReadInt_total:
  assumes "pk_wf 8192 p"
  obtains w q where "In_ReadInt p = Some (w, q)" "pk_wf 8192 q"
proof -
  obtain r q where "Dpb_Read 8192 4 p = Some (r, q)" using Dpb_Read_defined [OF assms, of 4] by auto
  then show ?thesis using that Dpb_Read_wf(1) [OF assms] by (auto simp: In_ReadInt_def Pb_Read_def)
qed

lemma In_ReadShort_total:
  assumes "pk_wf 8192 p"
  obtains v q where "In_ReadShort p = Some (v, q)" "pk_wf 8192 q"
proof -
  obtain r q where "Dpb_Read 8192 2 p = Some (r, q)" using Dpb_Read_defined [OF assms, of 2] by auto
  then show ?thesis using that Dpb_Read_wf(1) [OF assms] by (auto simp: In_ReadShort_def Pb_Read_def)
qed

lemma server_ok_send [simp]: "server_ok (ch_Send p w) f U = server_ok w f U" "server_ok (w\<lparr>w_sent := ms\<rparr>) f U = server_ok w f U"
  by (simp_all add: server_ok_def ch_Send_def)

lemma w_gshm_id [simp]: "w\<lparr>w_gshm := w_gshm w\<rparr> = w"
  by (cases w) simp

lemma server_ok_rand [simp]: "server_ok (w\<lparr>w_nRandCount := c\<rparr>) f U = server_ok w f U"
  by (simp add: server_ok_def)

lemma reply_total:
  assumes "list_all field_small fs"
  obtains m where "build_message cmd fs output_packet0 = Some m"
  using build_message_total [OF assms, of cmd output_packet0] that by blast

lemma SendClientPacket_total:
  assumes "list_all field_small fs"
  obtains m ms where "build_message cmd fs output_packet0 = Some m" "\<And>w. SendClientPacket uid svid m w = Some (w\<lparr>w_sent := w_sent w @ [ms]\<rparr>)"
proof -
  obtain b where b: "build_message cmd fs output_packet0 =
      Some (pk_msg (net_header (word_of_int (7 + int (length b))) cmd 0) b (output_packet0\<lparr>m_isCheckCode := False\<rparr>))" "9 + int (length b) \<le> 8192"
    using build_message_total [OF assms, of cmd output_packet0] by blast
  let ?m = "pk_msg (net_header (word_of_int (7 + int (length b))) cmd 0) b (output_packet0\<lparr>m_isCheckCode := False\<rparr>)"
  let ?m' = "pk_msg (net_header (word_of_int (7 + int (length b))) cmd (- sum_list b)) (map send_byte b) (output_packet0\<lparr>m_isCheckCode := True\<rparr>)"
  have e: "Out_EncryptBuffer ?m = Some (word_of_nat (length b), ?m')" by (rule Out_EncryptBuffer_msg) (use b(2) in simp_all)
  have "list_all field_small [FInt uid, FInt svid, FBinary (packet_bytes ?m')]" using b(2) by (simp add: packet_simps)
  then obtain r where "build_message CLIENT_PACKET [FInt uid, FInt svid, FBinary (packet_bytes ?m')] output_packet0 = Some r" by (rule reply_total)
  then have "SendClientPacket uid svid ?m w = Some (w\<lparr>w_sent := w_sent w @ [packet_bytes r]\<rparr>)" for w
    using e by (simp add: SendClientPacket_def ch_Send_def)
  then show ?thesis using that b(1) by blast
qed

lemma SendServerClosePacket_total:
  obtains ms where "\<And>w. SendServerClosePacket uid svid w = Some (w\<lparr>w_sent := w_sent w @ [ms]\<rparr>)"
proof -
  obtain m where "build_message SERVER_CLOSE_PACKET [FInt uid, FInt svid] output_packet0 = Some m"
    by (rule reply_total [of "[FInt uid, FInt svid]" SERVER_CLOSE_PACKET]) simp
  then show ?thesis using that [of "packet_bytes m"] by (simp add: SendServerClosePacket_def ch_Send_def)
qed

section \<open>The servers of tables\<close>

lemma locate_server_ok:
  assumes "options_ok opt" "env_small e"
  obtains ip port lvl opt' where "locate_server e i opt = ((ip, port, lvl), opt')" "options_ok opt'" "length (c_str ip) \<le> 1073741823"
    "m_OfflineUserMgr opt' = m_OfflineUserMgr opt"
proof (cases "GetServer (scast i) opt")
  case (Some sv)
  then have "length (ls_strIp sv) \<le> 1073741823" using assms(1) by (auto simp: GetServer_def options_ok_def dest!: map_of_SomeD)
  then have "length (c_str (ls_strIp sv)) \<le> 1073741823" unfolding c_str_def by (rule le_trans [OF length_takeWhile_le])
  then show ?thesis using that Some assms(1) by (simp add: locate_server_def)
next
  case None
  obtain r lvl ip port where r: "GetServerInfoFromMc e i (-1, [], 0) = (r, lvl, ip, port)" by (metis prod_cases4)
  have ip: "length ip \<le> 1073741823" by (rule GetServerInfoFromMc_small [OF assms(2) r])
  then have c: "length (c_str ip) \<le> 1073741823" unfolding c_str_def by (rule le_trans [OF length_takeWhile_le])
  have "options_ok (AddLogicServer (scast i) (Some (CLogicServer_new i lvl ip port)) opt)"
    by (rule options_ok_add [OF assms(1)]) (use ip in \<open>simp add: CLogicServer_new_def\<close>)
  moreover have "locate_server e i opt =
      ((ip, port, lvl), if r = 1 then AddLogicServer (scast i) (Some (CLogicServer_new i lvl ip port)) opt else opt)"
    using None r by (simp add: locate_server_def)
  ultimately show ?thesis using that [OF _ _ c] assms(1) by (cases "r = 1") (simp_all add: AddLogicServer_def)
qed

lemma find_server_ok:
  assumes "options_ok opt" "env_small e"
  obtains sv opt' where "find_server e i opt = (sv, opt')" "options_ok opt'" "m_OfflineUserMgr opt' = m_OfflineUserMgr opt"
proof (cases "GetServer (scast i) opt")
  case (Some sv)
  then show ?thesis using that assms(1) by (simp add: find_server_def)
next
  case None
  obtain sv opt' where r: "GetServerFromMc e i opt = (sv, opt')" by fastforce
  have "m_OfflineUserMgr opt' = m_OfflineUserMgr opt"
    using r by (auto simp: GetServerFromMc_def AddLogicServer_def Let_def split: if_splits prod.splits)
  then show ?thesis using that None r options_ok_mc [OF assms, of i] by (simp add: find_server_def)
qed

section \<open>The contract of a handler\<close>

text \<open>A handler is safe when it returns zero from any well-formed packet and state, and keeps both well formed and the capacity
  of the store. From there, any sequence of packets is handled.\<close>

definition handled :: "nat \<Rightarrow> (int \<times> packet \<times> UserServer) option \<Rightarrow> bool" where
  "handled cap r \<longleftrightarrow> (\<exists>p w f U. r = Some (0, p, w) \<and> pk_wf 8192 p \<and> server_ok w f U \<and> length U + f = cap)"

lemma handledI: "pk_wf 8192 p \<Longrightarrow> server_ok w f U \<Longrightarrow> length U + f = cap \<Longrightarrow> handled cap (Some (0, p, w))"
  unfolding handled_def by blast

locale safe_handler =
  fixes handle :: "env \<Rightarrow> packet \<Rightarrow> UserServer \<Rightarrow> (int \<times> packet \<times> UserServer) option"
  assumes safe: "env_small e \<Longrightarrow> pk_wf 8192 p \<Longrightarrow> server_ok w f U \<Longrightarrow> handled (length U + f) (handle e p w)"
begin

lemma returns: "env_small e \<Longrightarrow> pk_wf 8192 p \<Longrightarrow> server_ok w f U \<Longrightarrow> \<exists>p' w'. handle e p w = Some (0, p', w')"
  using safe unfolding handled_def by blast

end

text \<open>The common shape: the packet names a user, who is looked up; an unknown user changes nothing.\<close>

lemma lookup_cases [consumes 1, case_names unknown known]:
  assumes ok: "server_ok w f U"
  obtains (unknown) "map_of U k = None" "gshm_Find now k u (w_gshm w) = Some (-1, u, w_gshm w)"
  | (known) v g where "map_of U k = Some v" "m_nUid v = k" "gshm_Find now k u (w_gshm w) = Some (0, v, g)"
      "server_ok (w\<lparr>w_gshm := g\<rparr>) f (lru_touch k U)" "length (lru_touch k U) = length U"
      "map_of (lru_touch k U) k = Some v"
proof (cases "map_of U k")
  case None
  then show ?thesis using unknown find_user(1) [OF ok] by blast
next
  case (Some v)
  moreover have "length (lru_touch k U) = length U" using length_lru(3) [OF server_okD(6) [OF ok], of k] Some by simp
  ultimately show ?thesis using known uid_of [OF ok Some] find_user(2) [OF ok Some, of now u] by (auto simp: lru_map_of)
qed

text \<open>Writing back a known user under the same id and terminal type, with new options and with statistics that count the same users online.\<close>

lemma write_back:
  assumes ok: "server_ok (w\<lparr>w_gshm := g\<rparr>) f (lru_touch k U)" and v: "map_of U k = Some v"
    and u: "m_nUid u = k" "m_nTerminalType u = m_nTerminalType v"
    and s: "stat_ok s" "online_exact s (lru_touch k U)" and o: "options_ok opt" and d: "distinct (map fst U)"
  obtains g' where "gshm_SetValue now u g = Some (0, g')"
    "\<And>w'. w_opt w' = opt \<Longrightarrow> w_stat w' = s \<Longrightarrow> w_gshm w' = g' \<Longrightarrow> server_ok w' f (lru_set k u U)"
    "length (lru_set k u U) = length U"
proof -
  note W = server_okD [OF ok]
  have v': "map_of (lru_touch k U) k = Some v" using v by (simp add: lru_map_of)
  have "online_exact s (lru_set k u (lru_touch k U))" using online_exact_same [OF W(6) v' u(2)] s(2) by simp
  then obtain g' where g': "gshm_SetValue now u g = Some (0, g')"
      "server_ok (w\<lparr>w_gshm := g, w_opt := opt, w_stat := s, w_gshm := g'\<rparr>) f (lru_set k u (lru_touch k U))"
    using set_user [OF ok _ s(1) _ o, of u v now] v' u(1) by auto
  then have "server_ok w' f (lru_set k u U)" if "w_opt w' = opt" "w_stat w' = s" "w_gshm w' = g'" for w'
    using that by (simp add: server_ok_def lru_set_touch)
  moreover have "length (lru_set k u U) = length U" using length_lru(2) [OF d, of k u] v by simp
  ultimately show ?thesis using that [OF g'(1)] by blast
qed

section \<open>Reports about a user\<close>

text \<open>Each report as a function of the stored user: an unknown user changes nothing; a known one is written back changed and counted.\<close>

lemma leave_result:
  assumes ok: "server_ok w f U" and q: "In_ReadInt p = Some (uid, q)"
  shows "map_of U uid = None \<Longrightarrow> ProcessReportUserLeaveRoom e p w = Some (0, q, w)"
    and "map_of U uid = Some v \<Longrightarrow> \<exists>w'. ProcessReportUserLeaveRoom e p w = Some (0, q, w') \<and>
      server_ok w' f (lru_set uid (v\<lparr>m_nTid := 0, m_nUpdateTime := env_now e, m_nServerLevel := -1\<rparr>) U)"
proof -
  show "ProcessReportUserLeaveRoom e p w = Some (0, q, w)" if "map_of U uid = None"
    using q find_user(1) [OF ok that] by (simp add: ProcessReportUserLeaveRoom_def)
  assume v: "map_of U uid = Some v"
  obtain g where g: "gshm_Find (env_now e) uid CGameUser_default (w_gshm w) = Some (0, v, g)" "server_ok (w\<lparr>w_gshm := g\<rparr>) f (lru_touch uid U)"
    using find_user(2) [OF ok v] by blast
  note W = server_okD [OF g(2)]
  define s1 where "s1 = (if 0 < sint (m_nTid v) then stat_terminal TERMINAL_LOGOUTTABLE v (w_stat w) else w_stat w)"
  define s where "s = (if m_nServerLevel v \<noteq> -1 then stat_level LEVEL_LOGOUT v s1 else s1)"
  define u where "u = v\<lparr>m_nTid := 0, m_nUpdateTime := env_now e, m_nServerLevel := -1\<rparr>"
  have s: "stat_ok s" "online_exact s (lru_touch uid U)" using W by (simp_all add: s_def s1_def)
  have u: "m_nUid u = uid" "m_nTerminalType u = m_nTerminalType v" using uid_of [OF ok v] by (simp_all add: u_def)
  obtain g' where g': "gshm_SetValue (env_now e) u g = Some (0, g')"
      "\<And>w'. w_opt w' = w_opt w \<Longrightarrow> w_stat w' = s \<Longrightarrow> w_gshm w' = g' \<Longrightarrow> server_ok w' f (lru_set uid u U)"
    by (rule write_back [OF g(2) v u s server_okD(3,6) [OF ok], of "env_now e"]) blast
  have "ProcessReportUserLeaveRoom e p w = Some (0, q, w\<lparr>w_stat := s, w_gshm := g'\<rparr>)"
    using q g(1) g'(1) by (simp add: ProcessReportUserLeaveRoom_def Let_def s_def s1_def u_def split del: if_split cong: if_cong)
  then show "\<exists>w'. ProcessReportUserLeaveRoom e p w = Some (0, q, w') \<and>
      server_ok w' f (lru_set uid (v\<lparr>m_nTid := 0, m_nUpdateTime := env_now e, m_nServerLevel := -1\<rparr>) U)"
    using g'(2) [of "w\<lparr>w_stat := s, w_gshm := g'\<rparr>"] by (simp add: u_def)
qed

text \<open>From such a result to the contract.\<close>

lemma handled_update:
  assumes ok: "server_ok w f U" and q: "pk_wf 8192 q"
    and unknown: "map_of U uid = None \<Longrightarrow> r = Some (0, q, w)"
    and known: "\<And>v. map_of U uid = Some v \<Longrightarrow> \<exists>w' u. r = Some (0, q, w') \<and> server_ok w' f (lru_set uid u U)"
  shows "handled (length U + f) r"
proof (cases "map_of U uid")
  case None
  then show ?thesis using unknown handledI [OF q ok refl] by simp
next
  case (Some v)
  then obtain w' u where "r = Some (0, q, w')" "server_ok w' f (lru_set uid u U)" using known by blast
  moreover have "length (lru_set uid u U) = length U" using length_lru(2) [OF server_okD(6) [OF ok], of uid u] Some by simp
  ultimately show ?thesis using handledI [OF q] by simp
qed

interpretation leave: safe_handler ProcessReportUserLeaveRoom
proof
  fix e :: env and p :: packet and w :: UserServer and f U
  assume p: "pk_wf 8192 p" and ok: "server_ok w f U"
  obtain uid q where q: "In_ReadInt p = Some (uid, q)" "pk_wf 8192 q" by (rule In_ReadInt_total [OF p])
  show "handled (length U + f) (ProcessReportUserLeaveRoom e p w)"
    by (rule handled_update [OF ok q(2) leave_result(1) [OF ok q(1)]]) (use leave_result(2) [OF ok q(1)] in blast)+
qed

lemma enter_level_ok:
  assumes "stat_ok s"
  shows "m_nUid (fst (enter_level sv u s)) = m_nUid u" "m_nTerminalType (fst (enter_level sv u s)) = m_nTerminalType u"
    "stat_ok (snd (enter_level sv u s))" "online_exact (snd (enter_level sv u s)) U = online_exact s U"
  using assms
  by (simp_all add: enter_level_def Let_def online_exact_def split: option.split del: UpdateLevelInfo.simps)

text \<open>The level after entering: that of the table's server when it is known, otherwise unchanged.\<close>

lemma enter_level_user:
  "fst (enter_level sv u s) = u\<lparr>m_nServerLevel := (case sv of None \<Rightarrow> m_nServerLevel u | Some x \<Rightarrow> ls_nLevel x)\<rparr>"
  by (cases u) (auto simp: enter_level_def Let_def split: option.split)

lemma enter_result:
  assumes e: "env_small e" and ok: "server_ok w f U" and q1: "In_ReadInt p = Some (uid, q1)" and q: "In_ReadInt q1 = Some (tid, q)"
  shows "map_of U uid = None \<Longrightarrow> ProcessReportUserEnterRoom e p w = Some (0, q, w)"
    and "map_of U uid = Some v \<Longrightarrow> \<exists>w'. ProcessReportUserEnterRoom e p w = Some (0, q, w') \<and>
      server_ok w' f (lru_set uid (v\<lparr>m_nTid := tid, m_nUpdateTime := env_now e,
        m_nServerLevel := (case fst (find_server e (server_of_tid tid) (w_opt w)) of None \<Rightarrow> m_nServerLevel v | Some x \<Rightarrow> ls_nLevel x)\<rparr>) U)"
proof -
  show "ProcessReportUserEnterRoom e p w = Some (0, q, w)" if "map_of U uid = None"
    using q q1 find_user(1) [OF ok that] by (simp add: ProcessReportUserEnterRoom_def)
  assume v: "map_of U uid = Some v"
  obtain g where g: "gshm_Find (env_now e) uid CGameUser_default (w_gshm w) = Some (0, v, g)" "server_ok (w\<lparr>w_gshm := g\<rparr>) f (lru_touch uid U)"
    using find_user(2) [OF ok v] by blast
  note W = server_okD [OF g(2)]
  define s1 where "s1 = (if m_nTid v = 0 then stat_terminal TERMINAL_LOGINTABLE v (w_stat w) else w_stat w)"
  obtain sv opt where sv: "find_server e (server_of_tid tid) (w_opt w) = (sv, opt)" "options_ok opt"
    by (rule find_server_ok [OF server_okD(3) [OF ok] e])
  obtain u s where us: "enter_level sv (v\<lparr>m_nTid := tid, m_nUpdateTime := env_now e\<rparr>) s1 = (u, s)" by fastforce
  have s1: "stat_ok s1" "online_exact s1 (lru_touch uid U)" using W by (simp_all add: s1_def)
  have s: "stat_ok s" "online_exact s (lru_touch uid U)" using enter_level_ok(3,4) [OF s1(1)] s1(2) us by (metis snd_conv)+
  have u: "m_nUid u = uid" "m_nTerminalType u = m_nTerminalType v"
    using enter_level_ok(1,2) [OF s1(1), of sv "v\<lparr>m_nTid := tid, m_nUpdateTime := env_now e\<rparr>"] uid_of [OF ok v] us by simp_all
  obtain g' where g': "gshm_SetValue (env_now e) u g = Some (0, g')"
      "\<And>w'. w_opt w' = opt \<Longrightarrow> w_stat w' = s \<Longrightarrow> w_gshm w' = g' \<Longrightarrow> server_ok w' f (lru_set uid u U)"
    by (rule write_back [OF g(2) v u s sv(2) server_okD(6) [OF ok], of "env_now e"]) blast
  have r: "ProcessReportUserEnterRoom e p w = Some (0, q, w\<lparr>w_opt := opt, w_stat := s, w_gshm := g'\<rparr>)"
    using q1 q g(1) g'(1) sv(1) us
    by (simp add: ProcessReportUserEnterRoom_def Let_def s1_def split del: if_split cong: if_cong)
  have "u = v\<lparr>m_nTid := tid, m_nUpdateTime := env_now e,
      m_nServerLevel := (case fst (find_server e (server_of_tid tid) (w_opt w)) of None \<Rightarrow> m_nServerLevel v | Some x \<Rightarrow> ls_nLevel x)\<rparr>"
    using enter_level_user [of sv "v\<lparr>m_nTid := tid, m_nUpdateTime := env_now e\<rparr>" s1] us sv(1) by (simp cong: option.case_cong)
  then show "\<exists>w'. ProcessReportUserEnterRoom e p w = Some (0, q, w') \<and>
      server_ok w' f (lru_set uid (v\<lparr>m_nTid := tid, m_nUpdateTime := env_now e,
        m_nServerLevel := (case fst (find_server e (server_of_tid tid) (w_opt w)) of None \<Rightarrow> m_nServerLevel v | Some x \<Rightarrow> ls_nLevel x)\<rparr>) U)"
    using r g'(2) [of "w\<lparr>w_opt := opt, w_stat := s, w_gshm := g'\<rparr>"] by simp
qed

interpretation enter: safe_handler ProcessReportUserEnterRoom
proof
  fix e :: env and p :: packet and w :: UserServer and f U
  assume e: "env_small e" and p: "pk_wf 8192 p" and ok: "server_ok w f U"
  obtain uid q1 where q1: "In_ReadInt p = Some (uid, q1)" "pk_wf 8192 q1" by (rule In_ReadInt_total [OF p])
  obtain tid q where q: "In_ReadInt q1 = Some (tid, q)" "pk_wf 8192 q" by (rule In_ReadInt_total [OF q1(2)])
  show "handled (length U + f) (ProcessReportUserEnterRoom e p w)"
    by (rule handled_update [OF ok q(2) enter_result(1) [OF e ok q1(1) q(1)]]) (use enter_result(2) [OF e ok q1(1) q(1)] in blast)+
qed

lemma counted_ok:
  assumes ok: "server_ok (w\<lparr>w_gshm := g\<rparr>) f V" and "options_ok opt" "stat_ok s" "online_exact s V"
  shows "server_ok (w\<lparr>w_gshm := g, w_opt := opt, w_stat := s\<rparr>) f V"
  using assms by (simp add: server_ok_def)

interpretation stand: safe_handler ProcessReportUserStandRoom
proof
  fix e :: env and p :: packet and w :: UserServer and f U
  assume e: "env_small e" and p: "pk_wf 8192 p" and ok: "server_ok w f U"
  obtain uid q1 where q1: "In_ReadInt p = Some (uid, q1)" "pk_wf 8192 q1" by (rule In_ReadInt_total [OF p])
  obtain tid q where q: "In_ReadInt q1 = Some (tid, q)" "pk_wf 8192 q" by (rule In_ReadInt_total [OF q1(2)])
  from ok show "handled (length U + f) (ProcessReportUserStandRoom e p w)"
  proof (cases rule: lookup_cases [where k = uid and now = "env_now e" and u = CGameUser_default])
    case unknown
    then have "ProcessReportUserStandRoom e p w = Some (0, q, w)" using q1(1) q(1) by (simp add: ProcessReportUserStandRoom_def)
    then show ?thesis using handledI [OF q(2) ok refl] by simp
  next
    case (known v g)
    note W = server_okD [OF known(4)]
    obtain sv opt where sv: "find_server e (server_of_tid tid) (w_opt w) = (sv, opt)" "options_ok opt"
      by (rule find_server_ok [OF server_okD(3) [OF ok] e])
    define s1 where "s1 = stat_terminal TERMINAL_STANDTABLE v (w_stat w)"
    define s where "s = (if sv \<noteq> None then stat_level LEVEL_STANDIN v s1 else s1)"
    have s: "stat_ok s" "online_exact s (lru_touch uid U)" using W by (simp_all add: s1_def s_def)
    have "ProcessReportUserStandRoom e p w = Some (0, q, w\<lparr>w_gshm := g, w_opt := opt, w_stat := s\<rparr>)"
      using q1(1) q(1) known(3) sv(1) by (simp add: ProcessReportUserStandRoom_def Let_def s_def s1_def split del: if_split cong: if_cong)
    then show ?thesis using handledI [OF q(2) counted_ok [OF known(4) sv(2) s]] known(5) by simp
  qed
qed

interpretation stand_leave: safe_handler ProcessReportStandLeaveRoom
proof
  fix e :: env and p :: packet and w :: UserServer and f U
  assume p: "pk_wf 8192 p" and ok: "server_ok w f U"
  obtain uid q where q: "In_ReadInt p = Some (uid, q)" "pk_wf 8192 q" by (rule In_ReadInt_total [OF p])
  from ok show "handled (length U + f) (ProcessReportStandLeaveRoom e p w)"
  proof (cases rule: lookup_cases [where k = uid and now = "env_now e" and u = CGameUser_default])
    case unknown
    then have "ProcessReportStandLeaveRoom e p w = Some (0, q, w)" using q(1) by (simp add: ProcessReportStandLeaveRoom_def)
    then show ?thesis using handledI [OF q(2) ok refl] by simp
  next
    case (known v g)
    note W = server_okD [OF known(4)]
    define s1 where "s1 = stat_terminal TERMINAL_STANDLEAVETABLE v (w_stat w)"
    define s where "s = (if m_nServerLevel v \<noteq> -1 then stat_level LEVEL_STANDOUT v s1 else s1)"
    have s: "stat_ok s" "online_exact s (lru_touch uid U)" using W by (simp_all add: s1_def s_def)
    have "ProcessReportStandLeaveRoom e p w = Some (0, q, w\<lparr>w_gshm := g, w_opt := w_opt w, w_stat := s\<rparr>)"
      using q(1) known(3) by (cases w) (simp add: ProcessReportStandLeaveRoom_def Let_def s_def s1_def split del: if_split cong: if_cong)
    then show ?thesis using handledI [OF q(2) counted_ok [OF known(4) server_okD(3) [OF ok] s]] known(5) by simp
  qed
qed

section \<open>Requests about a user\<close>

lemma close_result:
  assumes ok: "server_ok w f U" and q: "In_ReadInt p = Some (uid, q)"
  shows "map_of U uid = None \<Longrightarrow> ProcessClientClose e p w = Some (0, q, w)"
    and "map_of U uid = Some v \<Longrightarrow> 0 < sint (m_nTid v) \<Longrightarrow> \<exists>w'. ProcessClientClose e p w = Some (0, q, w') \<and>
      server_ok w' f (lru_set uid (v\<lparr>m_nHallServerId := -1, m_nUpdateTime := env_now e\<rparr>) U) \<and> w_opt w' = AddOfflineUser uid (env_now e) (w_opt w)"
    and "map_of U uid = Some v \<Longrightarrow> \<not> 0 < sint (m_nTid v) \<Longrightarrow> \<exists>w'. ProcessClientClose e p w = Some (0, q, w') \<and>
      server_ok w' (f + 1) (lru_delete uid U) \<and> w_opt w' = DeleteOfflineUser uid (w_opt w)"
proof -
  show "ProcessClientClose e p w = Some (0, q, w)" if "map_of U uid = None"
    using q find_user(1) [OF ok that] by (simp add: ProcessClientClose_def)
  assume v: "map_of U uid = Some v"
  obtain g where g: "gshm_Find (env_now e) uid CGameUser_default (w_gshm w) = Some (0, v, g)" "server_ok (w\<lparr>w_gshm := g\<rparr>) f (lru_touch uid U)"
    using find_user(2) [OF ok v] by blast
  note W = server_okD [OF g(2)]
  show "\<exists>w'. ProcessClientClose e p w = Some (0, q, w') \<and>
      server_ok w' f (lru_set uid (v\<lparr>m_nHallServerId := -1, m_nUpdateTime := env_now e\<rparr>) U) \<and> w_opt w' = AddOfflineUser uid (env_now e) (w_opt w)"
    if t: "0 < sint (m_nTid v)"
  proof -
    let ?u = "v\<lparr>m_nHallServerId := -1, m_nUpdateTime := env_now e\<rparr>"
    let ?opt = "AddOfflineUser uid (env_now e) (w_opt w)"
    have s: "stat_ok (w_stat w)" "online_exact (w_stat w) (lru_touch uid U)" using W by simp_all
    have u: "m_nUid ?u = uid" "m_nTerminalType ?u = m_nTerminalType v" using uid_of [OF ok v] by simp_all
    have o: "options_ok ?opt" using W(3) by simp
    obtain g' where g': "gshm_SetValue (env_now e) ?u g = Some (0, g')"
        "\<And>w'. w_opt w' = ?opt \<Longrightarrow> w_stat w' = w_stat w \<Longrightarrow> w_gshm w' = g' \<Longrightarrow> server_ok w' f (lru_set uid ?u U)"
      by (rule write_back [OF g(2) v u s o server_okD(6) [OF ok], of "env_now e"]) blast
    have "ProcessClientClose e p w = Some (0, q, w\<lparr>w_opt := ?opt, w_gshm := g'\<rparr>)"
      using q g(1) t g'(1) by (simp add: ProcessClientClose_def Let_def)
    then show ?thesis using g'(2) [of "w\<lparr>w_opt := ?opt, w_gshm := g'\<rparr>"] by simp
  qed
  show "\<exists>w'. ProcessClientClose e p w = Some (0, q, w') \<and> server_ok w' (f + 1) (lru_delete uid U) \<and> w_opt w' = DeleteOfflineUser uid (w_opt w)"
    if t: "\<not> 0 < sint (m_nTid v)"
  proof -
    let ?s = "stat_terminal TERMINAL_LOGOUTHALL v (w_stat w)" and ?opt = "DeleteOfflineUser uid (w_opt w)"
    have v': "map_of (lru_touch uid U) uid = Some v" using v by (simp add: lru_map_of)
    have s: "stat_ok ?s" "online_exact ?s (lru_delete uid (lru_touch uid U))"
      using online_exact_logout [OF _ W(5,6,8) v'] W(2) by simp_all
    obtain g' where g': "gshm_Delete (env_now e) uid g = Some (0, g')"
        "server_ok (w\<lparr>w_gshm := g, w_stat := ?s, w_gshm := g'\<rparr>) (f + 1) (lru_delete uid (lru_touch uid U))"
      using remove_user [OF g(2) v' s, of "env_now e"] by auto
    have "server_ok (w\<lparr>w_opt := ?opt, w_stat := ?s, w_gshm := g'\<rparr>) (f + 1) (lru_delete uid U)"
      using g'(2) W(3) by (simp add: server_ok_def lru_delete_touch)
    moreover have "ProcessClientClose e p w = Some (0, q, w\<lparr>w_opt := ?opt, w_stat := ?s, w_gshm := g'\<rparr>)"
      using q g(1) t g'(1) by (simp add: ProcessClientClose_def Let_def)
    ultimately show ?thesis by simp
  qed
qed

interpretation close: safe_handler ProcessClientClose
proof
  fix e :: env and p :: packet and w :: UserServer and f U
  assume p: "pk_wf 8192 p" and ok: "server_ok w f U"
  obtain uid q where q: "In_ReadInt p = Some (uid, q)" "pk_wf 8192 q" by (rule In_ReadInt_total [OF p])
  show "handled (length U + f) (ProcessClientClose e p w)"
  proof (cases "\<exists>v. map_of U uid = Some v \<and> \<not> 0 < sint (m_nTid v)")
    case False
    then show ?thesis
      by (intro handled_update [OF ok q(2) close_result(1) [OF ok q(1)]]) (use close_result(2) [OF ok q(1)] in blast)+
  next
    case True
    then obtain v where v: "map_of U uid = Some v" "\<not> 0 < sint (m_nTid v)" by blast
    then obtain w' where "ProcessClientClose e p w = Some (0, q, w')" "server_ok w' (f + 1) (lru_delete uid U)"
      using close_result(3) [OF ok q(1)] by blast
    moreover have "length (lru_delete uid U) + (f + 1) = length U + f"
      using length_lru(4) [OF server_okD(6) [OF ok], of uid] v(1) by (cases U) auto
    ultimately show ?thesis using handledI [OF q(2)] by simp
  qed
qed

interpretation hall_id: safe_handler ProcessGetUserHallID
proof
  fix e :: env and p :: packet and w :: UserServer and f U
  assume p: "pk_wf 8192 p" and ok: "server_ok w f U"
  obtain uid q where q: "In_ReadInt p = Some (uid, q)" "pk_wf 8192 q" by (rule In_ReadInt_total [OF p])
  have m: "\<exists>m. build_message GET_USER_HALLID [FInt uid, FInt i] output_packet0 = Some m" for i
    by (rule reply_total [of "[FInt uid, FInt i]" GET_USER_HALLID]) auto
  from ok show "handled (length U + f) (ProcessGetUserHallID e p w)"
  proof (cases rule: lookup_cases [where k = uid and now = "env_now e" and u = CGameUser_default])
    case unknown
    obtain m where "build_message GET_USER_HALLID [FInt uid, FInt (-1)] output_packet0 = Some m" using m by blast
    then have "ProcessGetUserHallID e p w = Some (0, q, ch_Send m w)" using q(1) unknown by (simp add: ProcessGetUserHallID_def)
    then show ?thesis using handledI [OF q(2), of "ch_Send m w" f U] ok by simp
  next
    case (known v g)
    obtain m where "build_message GET_USER_HALLID [FInt uid, FInt (m_nHallServerId v)] output_packet0 = Some m" using m by blast
    then have "ProcessGetUserHallID e p w = Some (0, q, ch_Send m (w\<lparr>w_gshm := g\<rparr>))" using q(1) known by (simp add: ProcessGetUserHallID_def)
    then show ?thesis using handledI [OF q(2), of "ch_Send m (w\<lparr>w_gshm := g\<rparr>)" f "lru_touch uid U"] known(4,5) by simp
  qed
qed

interpretation user_table: safe_handler ProcessGetUserTable
proof
  fix e :: env and p :: packet and w :: UserServer and f U
  assume e: "env_small e" and p: "pk_wf 8192 p" and ok: "server_ok w f U"
  obtain uid q1 where q1: "In_ReadInt p = Some (uid, q1)" "pk_wf 8192 q1" by (rule In_ReadInt_total [OF p])
  obtain svid q2 where q2: "In_ReadInt q1 = Some (svid, q2)" "pk_wf 8192 q2" by (rule In_ReadInt_total [OF q1(2)])
  obtain level q3 where q3: "In_ReadShort q2 = Some (level, q3)" "pk_wf 8192 q3" by (rule In_ReadShort_total [OF q2(2)])
  obtain sid q where q: "In_ReadInt q3 = Some (sid, q)" "pk_wf 8192 q" by (rule In_ReadInt_total [OF q3(2)])
  note Q = q1(1) q2(1) q3(1) q(1)
  obtain m where m: "build_message SYS_GET_USER_TABLE [FInt uid, FInt svid, FInt 0, FShort level, FInt sid] output_packet0 = Some m"
    by (rule reply_total [of "[FInt uid, FInt svid, FInt 0, FShort level, FInt sid]" SYS_GET_USER_TABLE]) simp
  from ok show "handled (length U + f) (ProcessGetUserTable e p w)"
  proof (cases rule: lookup_cases [where k = uid and now = "env_now e" and u = CGameUser_default])
    case unknown
    then have "ProcessGetUserTable e p w = Some (0, q, ch_Send m w)" using Q m by (simp add: ProcessGetUserTable_def)
    then show ?thesis using handledI [OF q(2), of "ch_Send m w" f U] ok by simp
  next
    case (known v g)
    note W = server_okD [OF known(4)]
    show ?thesis
    proof (cases "0 < sint (m_nTid v)")
      case False
      then have "ProcessGetUserTable e p w = Some (0, q, ch_Send m (w\<lparr>w_gshm := g\<rparr>))" using Q m known(3) by (simp add: ProcessGetUserTable_def)
      then show ?thesis using handledI [OF q(2), of "ch_Send m (w\<lparr>w_gshm := g\<rparr>)" f "lru_touch uid U"] known(4,5) by simp
    next
      case True
      let ?u = "v\<lparr>m_nUpdateTime := env_now e\<rparr>"
      obtain ip port lvl opt where l: "locate_server e (server_of_tid (m_nTid v)) (w_opt w) = ((ip, port, lvl), opt)" "options_ok opt"
          "length (c_str ip) \<le> 1073741823"
        by (rule locate_server_ok [OF server_okD(3) [OF ok] e])
      obtain m' where m': "build_message SYS_GET_USER_TABLE [FInt uid, FInt svid, FInt 1, FInt (m_nTid v), FShort (server_of_tid (m_nTid v)),
          FString (c_str ip), FInt port, FShort lvl] output_packet0 = Some m'"
        by (rule reply_total [of "[FInt uid, FInt svid, FInt 1, FInt (m_nTid v), FShort (server_of_tid (m_nTid v)),
          FString (c_str ip), FInt port, FShort lvl]" SYS_GET_USER_TABLE]) (use l(3) in simp)
      have s: "stat_ok (w_stat w)" "online_exact (w_stat w) (lru_touch uid U)" using W by simp_all
      have u: "m_nUid ?u = uid" "m_nTerminalType ?u = m_nTerminalType v" using known(2) by simp_all
      obtain g' where g': "gshm_SetValue (env_now e) ?u g = Some (0, g')"
          "\<And>w'. w_opt w' = opt \<Longrightarrow> w_stat w' = w_stat w \<Longrightarrow> w_gshm w' = g' \<Longrightarrow> server_ok w' f (lru_set uid ?u U)"
          "length (lru_set uid ?u U) = length U"
        by (rule write_back [OF known(4,1) u s l(2) server_okD(6) [OF ok], of "env_now e"]) blast
      have "ProcessGetUserTable e p w = Some (0, q, ch_Send m' (w\<lparr>w_opt := opt, w_gshm := g'\<rparr>))"
        using Q m' known(3) True g'(1) l(1) by (simp add: ProcessGetUserTable_def)
      moreover have "server_ok (ch_Send m' (w\<lparr>w_opt := opt, w_gshm := g'\<rparr>)) f (lru_set uid ?u U)" using g'(2) by simp
      ultimately show ?thesis using handledI [OF q(2), of "ch_Send m' (w\<lparr>w_opt := opt, w_gshm := g'\<rparr>)" f "lru_set uid ?u U"] g'(3) by simp
    qed
  qed
qed

section \<open>Settings\<close>

interpretation alloc_register: safe_handler "\<lambda>e. ProcessAllocRegister"
  by unfold_locales (simp add: ProcessAllocRegister_def handledI)

interpretation clear_info: safe_handler "\<lambda>e. ProcessClearServerInfo"
  by unfold_locales (simp add: ProcessClearServerInfo_def handledI [OF _ server_ok_opt] server_okD(3))

interpretation tj_switch: safe_handler "\<lambda>e. ProcessTJSwitch"
proof
  fix e :: env and p :: packet and w :: UserServer and f U
  assume p: "pk_wf 8192 p" and ok: "server_ok w f U"
  obtain a q1 where q1: "In_ReadInt p = Some (a, q1)" "pk_wf 8192 q1" by (rule In_ReadInt_total [OF p])
  obtain b q where q: "In_ReadInt q1 = Some (b, q)" "pk_wf 8192 q" by (rule In_ReadInt_total [OF q1(2)])
  have "server_ok (w\<lparr>w_opt := SetTjSwitch a b (w_opt w)\<rparr>) f U" by (rule server_ok_opt [OF ok]) (simp add: server_okD(3) [OF ok])
  then show "handled (length U + f) (ProcessTJSwitch p w)" using q1(1) q by (simp add: ProcessTJSwitch_def handledI)
qed

section \<open>A server that went down\<close>

text \<open>Both functions note the users they visit and then change each of them, keeping id and terminal type.\<close>

lemma update_users_ok:
  assumes "server_ok w f U" "distinct ks" "\<forall>k \<in> set ks. map_of U k \<noteq> None"
    and c: "\<And>u. m_nUid (c u) = m_nUid u" "\<And>u. m_nTerminalType (c u) = m_nTerminalType u"
  shows "\<exists>g U'. update_users now c ks (w_gshm w) = Some g \<and> server_ok (w\<lparr>w_gshm := g\<rparr>) f U' \<and> length U' = length U \<and>
     map_of U' = (\<lambda>k. if k \<in> set ks then map_option c (map_of U k) else map_of U k)"
  using assms(1-3)
proof (induction ks arbitrary: w U)
  case (Cons k ks)
  obtain v where v: "map_of U k = Some v" using Cons.prems(3) by auto
  obtain g where g: "gshm_Find now k CGameUser_default (w_gshm w) = Some (0, v, g)" "server_ok (w\<lparr>w_gshm := g\<rparr>) f (lru_touch k U)"
    using find_user(2) [OF Cons.prems(1) v] by blast
  note W = server_okD [OF g(2)]
  have u: "m_nUid (c v) = k" using uid_of [OF Cons.prems(1) v] c(1) by simp
  have s: "stat_ok (w_stat w)" "online_exact (w_stat w) (lru_touch k U)" using W by simp_all
  obtain g1 where g1: "gshm_SetValue now (c v) g = Some (0, g1)"
      "\<And>w'. w_opt w' = w_opt w \<Longrightarrow> w_stat w' = w_stat w \<Longrightarrow> w_gshm w' = g1 \<Longrightarrow> server_ok w' f (lru_set k (c v) U)"
      "length (lru_set k (c v) U) = length U"
    by (rule write_back [OF g(2) v u c(2) s server_okD(3,6) [OF Cons.prems(1)], of now]) blast
  let ?w = "w\<lparr>w_gshm := g1\<rparr>"
  have "\<forall>k' \<in> set ks. map_of (lru_set k (c v) U) k' \<noteq> None" using Cons.prems(2,3) by (auto simp: lru_map_of)
  then obtain g' U' where r: "update_users now c ks g1 = Some g'" "server_ok (w\<lparr>w_gshm := g'\<rparr>) f U'" "length U' = length U"
      "map_of U' = (\<lambda>k'. if k' \<in> set ks then map_option c (map_of (lru_set k (c v) U) k') else map_of (lru_set k (c v) U) k')"
    using Cons.IH [of ?w "lru_set k (c v) U"] g1(2,3) Cons.prems(2) by auto
  have "map_of U' = (\<lambda>k'. if k' \<in> set (k # ks) then map_option c (map_of U k') else map_of U k')"
    unfolding r(4) by (rule ext) (use Cons.prems(2) v in \<open>simp add: lru_map_of\<close>)
  then show ?case using r(1-3) g(1) g1(1) by auto
qed auto

text \<open>A fold that notes keys chooses the keys to be changed.\<close>

lemma noted_keys:
  assumes "server_ok w f U"
  shows "distinct (map fst (filter P U))" "\<forall>k \<in> set (map fst (filter P U)). map_of U k \<noteq> None"
    "k \<in> set (map fst (filter P U)) \<longleftrightarrow> (\<exists>u. map_of U k = Some u \<and> P (k, u))"
proof -
  note d = server_okD(6) [OF assms]
  show "distinct (map fst (filter P U))" using d by (rule distinct_map_filter)
  show "\<forall>k \<in> set (map fst (filter P U)). map_of U k \<noteq> None" by (auto simp: map_of_eq_None_iff)
  show "k \<in> set (map fst (filter P U)) \<longleftrightarrow> (\<exists>u. map_of U k = Some u \<and> P (k, u))" using d by (force simp: map_of_eq_Some_iff)
qed

definition at_server :: "c_short \<Rightarrow> CGameUser \<Rightarrow> bool" where
  "at_server sid u \<longleftrightarrow> 0 < sint (m_nTid u) \<and> sint (drop_bit 16 (m_nTid u)) = sint sid"

lemma tid0_fold:
  assumes "stat_ok s" "\<forall>e \<in> set U. m_nUid (snd e) = fst e"
  shows "\<exists>s'. fold (\<lambda>e. tid0_user sid (snd e)) U (s, D) = (s', D @ map fst (filter (\<lambda>e. at_server sid (snd e)) U)) \<and> stat_ok s' \<and>
     (\<forall>V. online_exact s' V = online_exact s V)"
  using assms
proof (induction U arbitrary: s D)
  case (Cons e U)
  define s1 where "s1 = stat_terminal TERMINAL_LOGOUTTABLE (snd e) s"
  define s2 where "s2 = (if at_server sid (snd e) then if m_nServerLevel (snd e) \<noteq> -1 then stat_level LEVEL_LOGOUT (snd e) s1 else s1 else s)"
  have s2: "stat_ok s2" "\<forall>V. online_exact s2 V = online_exact s V" using Cons.prems(1) by (simp_all add: s2_def s1_def)
  have step: "tid0_user sid (snd e) (s, D) = (s2, if at_server sid (snd e) then D @ [fst e] else D)"
    using Cons.prems(2) by (simp add: tid0_user_def at_server_def s2_def s1_def)
  obtain s' where "fold (\<lambda>e. tid0_user sid (snd e)) U (s2, if at_server sid (snd e) then D @ [fst e] else D) =
      (s', (if at_server sid (snd e) then D @ [fst e] else D) @ map fst (filter (\<lambda>e. at_server sid (snd e)) U))" "stat_ok s'"
      "\<forall>V. online_exact s' V = online_exact s2 V"
    using Cons.IH [OF s2(1)] Cons.prems(2) by (metis list.set_intros(2))
  then show ?case using s2(2) step by auto
qed auto

lemma SetServerUserTid0_ok:
  assumes ok: "server_ok w f U"
  shows "\<exists>w' U'. SetServerUserTid0 e sid w = Some w' \<and> server_ok w' f U' \<and> length U' = length U \<and> w_opt w' = w_opt w \<and>
     map_of U' = (\<lambda>k. map_option (\<lambda>u. if at_server sid u then u\<lparr>m_nTid := 0, m_nServerLevel := -1\<rparr> else u) (map_of U k))"
proof -
  note W = server_okD [OF ok]
  let ?c = "\<lambda>u. u\<lparr>m_nTid := 0, m_nServerLevel := -1\<rparr>" and ?ks = "map fst (filter (\<lambda>e. at_server sid (snd e)) U)"
  obtain s where s: "fold (\<lambda>e. tid0_user sid (snd e)) U (w_stat w, []) = (s, [] @ ?ks)" "stat_ok s" "\<forall>V. online_exact s V = online_exact (w_stat w) V"
    using tid0_fold [OF W(2,7)] by blast
  have N: "distinct ?ks" "\<forall>k \<in> set ?ks. map_of U k \<noteq> None" using noted_keys(1,2) [OF ok] by blast+
  have ok': "server_ok (w\<lparr>w_stat := s\<rparr>) f U" using ok s by (simp add: server_ok_def)
  obtain g U' where g: "update_users (env_now e) ?c ?ks (w_gshm w) = Some g" "server_ok (w\<lparr>w_stat := s, w_gshm := g\<rparr>) f U'"
      "length U' = length U" "map_of U' = (\<lambda>k. if k \<in> set ?ks then map_option ?c (map_of U k) else map_of U k)"
    using update_users_ok [OF ok' N, of ?c "env_now e"] by auto
  have "map_of U' k = map_option (\<lambda>u. if at_server sid u then ?c u else u) (map_of U k)" for k
    unfolding g(4) noted_keys(3) [OF ok] by (cases "map_of U k") auto
  moreover have "SetServerUserTid0 e sid w = Some (w\<lparr>w_stat := s, w_gshm := g\<rparr>)"
    using visit_users_rep [OF W(1), of "tid0_user sid" "(w_stat w, [])"] s(1) g(1) by (simp add: SetServerUserTid0_def Let_def)
  ultimately show ?thesis using g(2,3) by auto
qed

interpretation logic_core: safe_handler ProcessLogicCore
proof
  fix e :: env and p :: packet and w :: UserServer and f U
  assume p: "pk_wf 8192 p" and ok: "server_ok w f U"
  obtain sid q where q: "In_ReadShort p = Some (sid, q)" "pk_wf 8192 q" by (rule In_ReadShort_total [OF p])
  have "server_ok (w\<lparr>w_opt := DeleteLogicServer (scast sid) (w_opt w)\<rparr>) f U" by (rule server_ok_opt [OF ok]) (simp add: server_okD(3) [OF ok])
  then obtain w' U' where "SetServerUserTid0 e sid (w\<lparr>w_opt := DeleteLogicServer (scast sid) (w_opt w)\<rparr>) = Some w'" "server_ok w' f U'"
      "length U' = length U"
    using SetServerUserTid0_ok by blast
  then show "handled (length U + f) (ProcessLogicCore e p w)" using q handledI [OF q(2), of w' f U'] by (simp add: ProcessLogicCore_def)
qed

lemma hall_fold:
  assumes "options_ok opt" "\<forall>e \<in> set U. m_nUid (snd e) = fst e"
  shows "\<exists>opt'. fold (\<lambda>e. hall_user now hid (snd e)) U (opt, D) = (opt', D @ map fst (filter (\<lambda>e. m_nHallServerId (snd e) = hid) U)) \<and> options_ok opt' \<and>
     (\<forall>k. sm_find k (m_OfflineUserMgr opt') = (case sm_find k (m_OfflineUserMgr opt) of Some t \<Rightarrow> Some t
        | None \<Rightarrow> if k \<in> set (map fst (filter (\<lambda>e. m_nHallServerId (snd e) = hid) U)) then Some now else None))"
  using assms
proof (induction U arbitrary: opt D)
  case (Cons e U)
  let ?h = "m_nHallServerId (snd e) = hid"
  define opt1 where "opt1 = (if ?h \<and> sm_find (fst e) (m_OfflineUserMgr opt) = None then AddOfflineUser (fst e) now opt else opt)"
  have o1: "options_ok opt1" using Cons.prems(1) by (simp add: opt1_def)
  have step: "hall_user now hid (snd e) (opt, D) = (opt1, if ?h then D @ [fst e] else D)"
    using Cons.prems(2) by (simp add: hall_user_def opt1_def AddOfflineUser_def)
  obtain opt' where r: "fold (\<lambda>e. hall_user now hid (snd e)) U (opt1, if ?h then D @ [fst e] else D) =
      (opt', (if ?h then D @ [fst e] else D) @ map fst (filter (\<lambda>e. m_nHallServerId (snd e) = hid) U))" "options_ok opt'"
      "\<forall>k. sm_find k (m_OfflineUserMgr opt') = (case sm_find k (m_OfflineUserMgr opt1) of Some t \<Rightarrow> Some t
        | None \<Rightarrow> if k \<in> set (map fst (filter (\<lambda>e. m_nHallServerId (snd e) = hid) U)) then Some now else None)"
    using Cons.IH [OF o1] Cons.prems(2) by (metis list.set_intros(2))
  have "sm_find k (m_OfflineUserMgr opt') = (case sm_find k (m_OfflineUserMgr opt) of Some t \<Rightarrow> Some t
        | None \<Rightarrow> if k \<in> set (map fst (filter (\<lambda>e. m_nHallServerId (snd e) = hid) (e # U))) then Some now else None)" for k
    unfolding r(3) [rule_format] opt1_def using Cons.prems(1) by (auto simp: AddOfflineUser_def options_ok_def sm_find_set split: option.split)
  then show ?case using r(1,2) step by auto
qed (auto split: option.split)

lemma SetUserOfflineHallCore_ok:
  assumes ok: "server_ok w f U"
  shows "\<exists>w' U'. SetUserOfflineHallCore e hid w = Some w' \<and> server_ok w' f U' \<and> length U' = length U \<and> w_stat w' = w_stat w \<and>
     map_of U' = (\<lambda>k. map_option (\<lambda>u. if m_nHallServerId u = hid then u\<lparr>m_nHallServerId := -1\<rparr> else u) (map_of U k)) \<and>
     (\<forall>k. sm_find k (m_OfflineUserMgr (w_opt w')) = (case sm_find k (m_OfflineUserMgr (w_opt w)) of Some t \<Rightarrow> Some t
        | None \<Rightarrow> if \<exists>u. map_of U k = Some u \<and> m_nHallServerId u = hid then Some (env_now e) else None))"
proof -
  note W = server_okD [OF ok]
  let ?c = "\<lambda>u. u\<lparr>m_nHallServerId := -1\<rparr>" and ?ks = "map fst (filter (\<lambda>e. m_nHallServerId (snd e) = hid) U)"
  obtain opt where s: "fold (\<lambda>e'. hall_user (env_now e) hid (snd e')) U (w_opt w, []) = (opt, [] @ ?ks)" "options_ok opt"
      "\<forall>k. sm_find k (m_OfflineUserMgr opt) = (case sm_find k (m_OfflineUserMgr (w_opt w)) of Some t \<Rightarrow> Some t
        | None \<Rightarrow> if k \<in> set ?ks then Some (env_now e) else None)"
    using hall_fold [OF W(3,7)] by blast
  have N: "distinct ?ks" "\<forall>k \<in> set ?ks. map_of U k \<noteq> None" using noted_keys(1,2) [OF ok] by blast+
  have ok': "server_ok (w\<lparr>w_opt := opt\<rparr>) f U" by (rule server_ok_opt [OF ok s(2)])
  obtain g U' where g: "update_users (env_now e) ?c ?ks (w_gshm w) = Some g" "server_ok (w\<lparr>w_opt := opt, w_gshm := g\<rparr>) f U'"
      "length U' = length U" "map_of U' = (\<lambda>k. if k \<in> set ?ks then map_option ?c (map_of U k) else map_of U k)"
    using update_users_ok [OF ok' N, of ?c "env_now e"] by auto
  have "map_of U' k = map_option (\<lambda>u. if m_nHallServerId u = hid then ?c u else u) (map_of U k)" for k
    unfolding g(4) noted_keys(3) [OF ok] by (cases "map_of U k") auto
  moreover have "SetUserOfflineHallCore e hid w = Some (w\<lparr>w_opt := opt, w_gshm := g\<rparr>)"
    using visit_users_rep [OF W(1), of "hall_user (env_now e) hid" "(w_opt w, [])"] s(1) g(1) by (simp add: SetUserOfflineHallCore_def Let_def)
  ultimately show ?thesis using g(2,3) s(3) unfolding noted_keys(3) [OF ok]
    by (intro exI [of _ "w\<lparr>w_opt := opt, w_gshm := g\<rparr>"] exI [of _ U']) auto
qed

interpretation hall_core: safe_handler ProcessHallCore
proof
  fix e :: env and p :: packet and w :: UserServer and f U
  assume p: "pk_wf 8192 p" and ok: "server_ok w f U"
  obtain hid q where q: "In_ReadInt p = Some (hid, q)" "pk_wf 8192 q" by (rule In_ReadInt_total [OF p])
  obtain w' U' where "SetUserOfflineHallCore e hid w = Some w'" "server_ok w' f U'" "length U' = length U"
    using SetUserOfflineHallCore_ok [OF ok, of e hid] by blast
  then show "handled (length U + f) (ProcessHallCore e p w)" using q handledI [OF q(2), of w' f U'] by (simp add: ProcessHallCore_def)
qed

end
