(* ===== verification/ClientPackets.thy ===== *)
theory ClientPackets
  imports ClientInv
begin

text \<open>
  The packets of clients, which arrive inside the packets of the hall servers: a login, the request for the sizes of the levels, and the
  packet that carries them. A login needs room in the store, and the request a limit that is not zero.
\<close>

section \<open>Login\<close>

text \<open>A user who logs in again on another type of terminal moves from one counter to the other.\<close>

lemma online_exact_relogin:
  assumes ok: "stat_ok s" and ex: "online_exact s U" and U: "distinct (map fst U)" "length U < 2 ^ 31" "map_of U k = Some v"
    and u: "m_nTerminalType u = t"
  shows "online_exact (UserLoginHall (scast t) (Some \<lparr>us_terminalType = scast (m_nTerminalType v), us_tid = tid\<rparr>) s) (lru_set k u U)"
proof (cases "m_nTerminalType v = t")
  case True
  then have "online_exact s (lru_set k u U)" using online_exact_same [OF U(1,3), of u s] u ex by simp
  then show ?thesis using True UserLoginHall_same [OF ok] by (simp add: online_exact_def)
next
  case False
  let ?n = "\<lambda>t V. users_with (\<lambda>u. m_nTerminalType u = t) V"
  have n: "?n t' U = (if m_nTerminalType v = t' then 1 else 0) + ?n t' (lru_delete k U)" for t' by (rule users_with_delete [OF U(1,3)])
  have "?n (m_nTerminalType v) U < 2 ^ 31" using users_with_le [of _ U] U(2) by (rule le_less_trans)
  then have p: "0 < sint (onlineCount (term_info s (m_nTerminalType v)))"
    using ex counter_pos [of "?n (m_nTerminalType v) U"] n [of "m_nTerminalType v"] by (simp add: online_exact_def)
  show ?thesis
    unfolding online_exact_def
  proof
    fix t'
    show "onlineCount (term_info (UserLoginHall (scast t) (Some \<lparr>us_terminalType = scast (m_nTerminalType v), us_tid = tid\<rparr>) s) t') =
        word_of_nat (?n t' (lru_set k u U))"
      using UserLoginHall_reload_online [OF ok, of "\<lparr>us_terminalType = scast (m_nTerminalType v), us_tid = tid\<rparr>" "scast t" t'] False p ex n [of t'] u
      by (auto simp: online_exact_def)
  qed
qed

text \<open>What is sent to the hall of a known user who comes back on another hall: the kick-out and the order to close the connection.\<close>

definition kick_out :: "c_int \<Rightarrow> c_int \<Rightarrow> byte list list \<Rightarrow> bool" where
  "kick_out nUid hall ms \<longleftrightarrow>
     (\<exists>kick. build_message SERVER_CMD_KICK_OUT [] output_packet0 = Some kick \<and>
       (\<forall>w. (SendClientPacket nUid hall kick w \<bind> SendServerClosePacket nUid hall) = Some (w\<lparr>w_sent := w_sent w @ ms\<rparr>)))"

lemma login_known_ok:
  assumes "server_ok w f U" "map_of U k = Some v" "m_nUid v = k"
  obtains u ms where "login_known e nUid nSvid t v w = Some (u, w\<lparr>w_sent := w_sent w @ ms,
      w_stat := UserLoginHall (scast t) (Some \<lparr>us_terminalType = scast (m_nTerminalType v), us_tid = m_nTid v\<rparr>) (w_stat w)\<rparr>)"
    "u = v\<lparr>m_nTerminalType := t, m_nHallServerId := nSvid, m_nUpdateTime := env_now e\<rparr>"
    "if nSvid \<noteq> m_nHallServerId v \<and> m_nHallServerId v \<noteq> -1 then kick_out nUid (m_nHallServerId v) ms else ms = []"
proof -
  obtain m ms1 where m: "build_message SERVER_CMD_KICK_OUT [] output_packet0 = Some m"
      "\<And>w. SendClientPacket nUid (m_nHallServerId v) m w = Some (w\<lparr>w_sent := w_sent w @ [ms1]\<rparr>)"
    by (rule SendClientPacket_total [of "[]"]) auto
  obtain ms2 where s: "\<And>w. SendServerClosePacket nUid (m_nHallServerId v) w = Some (w\<lparr>w_sent := w_sent w @ [ms2]\<rparr>)"
    by (rule SendServerClosePacket_total [of nUid "m_nHallServerId v"]) blast
  let ?s = "UserLoginHall (scast t) (Some \<lparr>us_terminalType = scast (m_nTerminalType v), us_tid = m_nTid v\<rparr>) (w_stat w)"
  have u: "(CGameUser_new k nSvid t (env_now e))\<lparr>m_nTid := m_nTid v, m_nServerLevel := m_nServerLevel v\<rparr> =
      v\<lparr>m_nTerminalType := t, m_nHallServerId := nSvid, m_nUpdateTime := env_now e\<rparr>"
    using assms(3) by (cases v) (simp add: CGameUser_new_def)
  show ?thesis
  proof (cases "nSvid \<noteq> m_nHallServerId v \<and> m_nHallServerId v \<noteq> -1")
    case True
    then have "login_known e nUid nSvid t v w = Some (v\<lparr>m_nTerminalType := t, m_nHallServerId := nSvid, m_nUpdateTime := env_now e\<rparr>,
        w\<lparr>w_sent := w_sent w @ [ms1, ms2], w_stat := ?s\<rparr>)"
      using m s u assms(3) by (simp add: login_known_def Let_def)
    moreover have "kick_out nUid (m_nHallServerId v) [ms1, ms2]" using m s by (simp add: kick_out_def)
    ultimately show ?thesis using that True by presburger
  next
    case False
    then have "login_known e nUid nSvid t v w = Some (v\<lparr>m_nTerminalType := t, m_nHallServerId := nSvid, m_nUpdateTime := env_now e\<rparr>,
        w\<lparr>w_sent := w_sent w @ [], w_stat := ?s\<rparr>)"
      using u assms(3) by (cases w) (auto simp: login_known_def Let_def)
    then show ?thesis using that False by presburger
  qed
qed

text \<open>The end of a login: the record is written, with the level of the table's server, and the answer is sent. When the store is
  full the record is not written, and the answer is sent all the same.\<close>

lemma login_finish_result:
  assumes e: "env_small e" and o: "options_ok (w_opt w)"
    and st: "\<And>u'. m_nUid u' = m_nUid u \<Longrightarrow> \<exists>r g. gshm_SetValue (env_now e) u' (w_gshm w) = Some (r, g)"
  obtains w' l r g opt m where "login_finish e nUid nSvid uid u w = Some w'"
    "gshm_SetValue (env_now e) (u\<lparr>m_nServerLevel := l\<rparr>) (w_gshm w) = Some (r, g)"
    "w' = w\<lparr>w_opt := opt, w_gshm := g, w_sent := w_sent w @ [m]\<rparr>" "options_ok opt"
proof -
  define opt where "opt = DeleteOfflineUser uid (w_opt w)"
  have o: "options_ok opt" using o by (simp add: opt_def)
  define r where "r = (if 0 < sint (m_nTid u) then (m_nTid u, locate_server e (server_of_tid (m_nTid u)) opt) else (0, ([], 0, -1), opt))"
  obtain tid ip port lvl opt' where r: "r = (tid, (ip, port, lvl), opt')" "options_ok opt'" "length (c_str ip) \<le> 1073741823"
  proof (cases "0 < sint (m_nTid u)")
    case True
    show ?thesis by (rule locate_server_ok [OF o e, of "server_of_tid (m_nTid u)"]) (use True that in \<open>simp add: r_def\<close>)
  next
    case False
    then show ?thesis using that [of 0 "[]" 0 "-1" opt] o by (simp add: r_def c_str_def)
  qed
  define u' where "u' = (if 0 < sint (m_nTid u) then u\<lparr>m_nServerLevel := lvl\<rparr> else u)"
  have "m_nUid u' = m_nUid u" by (simp add: u'_def)
  then obtain ret g where g: "gshm_SetValue (env_now e) u' (w_gshm w) = Some (ret, g)" using st by blast
  obtain l where l: "u' = u\<lparr>m_nServerLevel := l\<rparr>"
  proof (cases "0 < sint (m_nTid u)")
    case False
    then show ?thesis using that [of "m_nServerLevel u"] by (cases u) (simp add: u'_def)
  qed (use that in \<open>auto simp: u'_def\<close>)
  obtain m ms where m: "build_message SERVER_CMD_LOGIN_SUCCESS
         (FInt (word_of_nat (length LevelArr)) # map FInt LevelArr @ [FInt tid, FString (c_str ip), FInt port]) output_packet0 = Some m"
      "\<And>w. SendClientPacket nUid nSvid m w = Some (w\<lparr>w_sent := w_sent w @ [ms]\<rparr>)"
    by (rule SendClientPacket_total [of "FInt (word_of_nat (length LevelArr)) # map FInt LevelArr @ [FInt tid, FString (c_str ip), FInt port]"
        SERVER_CMD_LOGIN_SUCCESS nUid nSvid]) (use r(3) in \<open>simp_all add: LevelArr_def\<close>)
  have "login_finish e nUid nSvid uid u w = Some (w\<lparr>w_opt := opt', w_gshm := g, w_sent := w_sent w @ [ms]\<rparr>)"
    using m g r(1) unfolding login_finish_def opt_def [symmetric] r_def [symmetric]
    by (simp add: Let_def flip: opt_def r_def u'_def)
  then show ?thesis using that g [unfolded l] r(2) by blast
qed

lemma login_finish_ok:
  assumes e: "env_small e" and ok: "user_rep (w_gshm w) f U" "stat_ok (w_stat w)" "options_ok (w_opt w)" "length U + f < 2 ^ 31"
    and room: "map_of U (m_nUid u) \<noteq> None \<or> 0 < f"
    and ex: "\<And>u'. m_nTerminalType u' = m_nTerminalType u \<Longrightarrow> online_exact (w_stat w) (lru_set (m_nUid u) u' U)"
  obtains w' f' l m where "login_finish e nUid nSvid uid u w = Some w'" "server_ok w' f' (lru_set (m_nUid u) (u\<lparr>m_nServerLevel := l\<rparr>) U)"
    "length (lru_set (m_nUid u) (u\<lparr>m_nServerLevel := l\<rparr>) U) + f' = length U + f" "w_sent w' = w_sent w @ [m]"
proof -
  have g: "\<exists>g f'. gshm_SetValue (env_now e) u' (w_gshm w) = Some (0, g) \<and> user_rep g f' (lru_set (m_nUid u) u' U) \<and>
      length (lru_set (m_nUid u) u' U) + f' = length U + f" if u': "m_nUid u' = m_nUid u" for u'
  proof (cases "map_of U (m_nUid u)")
    case None
    then obtain g where "gshm_SetValue (env_now e) u' (w_gshm w) = Some (0, g)" "user_rep g (f - 1) (lru_set (m_nUid u) u' U)"
      using us.set_new [OF ok(1), of u' "env_now e"] u' room by auto
    moreover have "length (lru_set (m_nUid u) u' U) + (f - 1) = length U + f"
      using lru_delete_absent [OF None] room None by (simp add: lru_set_def lru_delete_def)
    ultimately show ?thesis by blast
  next
    case (Some v)
    have d: "distinct (map fst U)" using us.rep_keys [OF ok(1)] by blast
    show ?thesis
      using us.set_old [OF ok(1), of u' "env_now e"] u' Some length_lru(2) [OF d, of "m_nUid u" u'] by fastforce
  qed
  then have st: "\<exists>r g. gshm_SetValue (env_now e) u' (w_gshm w) = Some (r, g)" if "m_nUid u' = m_nUid u" for u' using that by blast
  obtain w' l r g opt m where r: "login_finish e nUid nSvid uid u w = Some w'"
      "gshm_SetValue (env_now e) (u\<lparr>m_nServerLevel := l\<rparr>) (w_gshm w) = Some (r, g)"
      "w' = w\<lparr>w_opt := opt, w_gshm := g, w_sent := w_sent w @ [m]\<rparr>" "options_ok opt"
    by (rule login_finish_result [OF e ok(3) st])
  let ?u = "u\<lparr>m_nServerLevel := l\<rparr>"
  have "m_nUid ?u = m_nUid u" by simp
  then obtain f' where "user_rep g f' (lru_set (m_nUid u) ?u U)" "length (lru_set (m_nUid u) ?u U) + f' = length U + f" using g [of ?u] r(2) by auto
  moreover from this have "server_ok w' f' (lru_set (m_nUid u) ?u U)"
    using ok(2,4) r(3,4) ex [of ?u] by (simp add: server_ok_def)
  ultimately show ?thesis using that r(1,3) by simp
qed

text \<open>A login of a user who is known, or when there is room: the record of the user carries the new hall and terminal type, keeps the
  table of a known user, and no other user is affected. A known user is kicked out of another hall.\<close>

lemma login_known_result:
  assumes e: "env_small e" and q1: "In_ReadInt p = Some (uid, q1)" and q: "In_ReadShort q1 = Some (t, q)" and ok: "server_ok w f U"
    and pos: "0 < sint uid" and v: "map_of U uid = Some v"
  obtains w' f' V l ms m where "ProcessUserLogin e nUid nSvid p w = Some (0, q, w')" "server_ok w' f' V" "length V + f' = length U + f"
    "map_of V = (map_of U)(uid \<mapsto> v\<lparr>m_nTerminalType := t, m_nHallServerId := nSvid, m_nUpdateTime := env_now e, m_nServerLevel := l\<rparr>)"
    "w_sent w' = w_sent w @ ms @ [m]"
    "if nSvid \<noteq> m_nHallServerId v \<and> m_nHallServerId v \<noteq> -1 then kick_out nUid (m_nHallServerId v) ms else ms = []"
proof -
  obtain g where g: "gshm_Find (env_now e) uid CGameUser_default (w_gshm w) = Some (0, v, g)" "server_ok (w\<lparr>w_gshm := g\<rparr>) f (lru_touch uid U)"
    using find_user(2) [OF ok v] by blast
  note W = server_okD [OF g(2)]
  have v': "map_of (lru_touch uid U) uid = Some v" using v by (simp add: lru_map_of)
  have vid: "m_nUid v = uid" by (rule uid_of [OF ok v])
  let ?s = "UserLoginHall (scast t) (Some \<lparr>us_terminalType = scast (m_nTerminalType v), us_tid = m_nTid v\<rparr>) (w_stat (w\<lparr>w_gshm := g\<rparr>))"
  obtain u ms where n: "login_known e nUid nSvid t v (w\<lparr>w_gshm := g\<rparr>) = Some (u, w\<lparr>w_gshm := g\<rparr>\<lparr>w_sent := w_sent (w\<lparr>w_gshm := g\<rparr>) @ ms, w_stat := ?s\<rparr>)"
      "u = v\<lparr>m_nTerminalType := t, m_nHallServerId := nSvid, m_nUpdateTime := env_now e\<rparr>"
      "if nSvid \<noteq> m_nHallServerId v \<and> m_nHallServerId v \<noteq> -1 then kick_out nUid (m_nHallServerId v) ms else ms = []"
    by (rule login_known_ok [OF g(2) v' vid])
  define w1 where "w1 = w\<lparr>w_gshm := g\<rparr>\<lparr>w_sent := w_sent (w\<lparr>w_gshm := g\<rparr>) @ ms, w_stat := ?s\<rparr>"
  have u: "m_nUid u = uid" "m_nTerminalType u = t" using n(2) vid by simp_all
  have s: "stat_ok (w_stat w1)" using UpdateTerminalInfo_ok [of "w_stat w" TERMINAL_LOGINHALL] W(2) unfolding w1_def by simp
  have ex: "online_exact (w_stat w1) (lru_set (m_nUid u) u' (lru_touch uid U))" if "m_nTerminalType u' = m_nTerminalType u" for u'
    using online_exact_relogin [OF W(2,5,6,8) v', of u' t "m_nTid v"] that u unfolding w1_def by simp
  have r: "user_rep (w_gshm w1) f (lru_touch uid U)" "options_ok (w_opt w1)" using W unfolding w1_def by simp_all
  have k: "map_of (lru_touch uid U) (m_nUid u) \<noteq> None \<or> 0 < f" using v' u(1) by simp
  obtain w2 f2 l m where fin: "login_finish e nUid nSvid uid u w1 = Some w2" "server_ok w2 f2 (lru_set (m_nUid u) (u\<lparr>m_nServerLevel := l\<rparr>) (lru_touch uid U))"
      "length (lru_set (m_nUid u) (u\<lparr>m_nServerLevel := l\<rparr>) (lru_touch uid U)) + f2 = length (lru_touch uid U) + f" "w_sent w2 = w_sent w1 @ [m]"
    by (rule login_finish_ok [OF e r(1) s r(2) W(4) k ex, of nUid nSvid uid])
  have res: "ProcessUserLogin e nUid nSvid p w = Some (0, q, w2)"
    using q1 q pos g(1) n(1) [folded w1_def] fin(1) by (simp add: ProcessUserLogin_def)
  have len: "length (lru_touch uid U) = length U" using length_lru(3) [OF server_okD(6) [OF ok], of uid] v by simp
  have "w_sent w2 = w_sent w @ ms @ [m]" using fin(4) by (simp add: w1_def)
  then show ?thesis
    using that [OF res fin(2) _ _ _ n(3), of l m] fin(3) len u(1) n(2) by (simp add: lru_map_of)
qed

lemma login_new_result:
  assumes e: "env_small e" and q1: "In_ReadInt p = Some (uid, q1)" and q: "In_ReadShort q1 = Some (t, q)" and ok: "server_ok w f U"
    and pos: "0 < sint uid" and n: "map_of U uid = None" and room: "0 < f"
  obtains w' f' V u where "ProcessUserLogin e nUid nSvid p w = Some (0, q, w')" "server_ok w' f' V" "length V + f' = length U + f"
    "map_of V = (map_of U)(uid \<mapsto> u)" "m_nUid u = uid" "m_nTerminalType u = t" "m_nHallServerId u = nSvid" "m_nUpdateTime u = env_now e"
proof -
  note W = server_okD [OF ok]
  obtain u w1 where ln: "login_new e uid nSvid t w = (u, w1)" by fastforce
  then have u: "m_nUid u = uid" "m_nTerminalType u = t" "m_nHallServerId u = nSvid" "m_nUpdateTime u = env_now e"
    and w1: "w1 = w\<lparr>w_stat := UpdateTerminalInfo TERMINAL_LOGINHALL (scast t) None (w_stat w)\<rparr>"
    by (auto simp: login_new_def Let_def CGameUser_new_def split: if_splits prod.splits)
  have s: "stat_ok (w_stat w1)" using W(2) unfolding w1 by (simp del: UpdateTerminalInfo.simps)
  have ex: "online_exact (w_stat w1) (lru_set (m_nUid u) u' U)" if "m_nTerminalType u' = m_nTerminalType u" for u'
    using online_exact_login [OF W(2,5) n, of u'] that u unfolding w1 stat_terminal_def by simp
  have r: "user_rep (w_gshm w1) f U" "options_ok (w_opt w1)" using W unfolding w1 by simp_all
  obtain w2 f2 l m where fin: "login_finish e nUid nSvid uid u w1 = Some w2" "server_ok w2 f2 (lru_set (m_nUid u) (u\<lparr>m_nServerLevel := l\<rparr>) U)"
      "length (lru_set (m_nUid u) (u\<lparr>m_nServerLevel := l\<rparr>) U) + f2 = length U + f"
    by (rule login_finish_ok [OF e r(1) s r(2) W(4) disjI2 [OF room] ex, of nUid nSvid uid])
  have "ProcessUserLogin e nUid nSvid p w = Some (0, q, w2)"
    using q1 q pos find_user(1) [OF ok n] ln fin(1) by (simp add: ProcessUserLogin_def)
  then show ?thesis
    using that [OF _ fin(2,3), of "u\<lparr>m_nServerLevel := l\<rparr>"] u by (simp add: lru_map_of)
qed

lemma ProcessUserLogin_ok:
  assumes e: "env_small e" and p: "pk_wf 8192 p" and ok: "server_ok w f U" and room: "0 < f"
  shows "handled (length U + f) (ProcessUserLogin e nUid nSvid p w)"
proof -
  obtain uid q1 where q1: "In_ReadInt p = Some (uid, q1)" "pk_wf 8192 q1" by (rule In_ReadInt_total [OF p])
  obtain t q where q: "In_ReadShort q1 = Some (t, q)" "pk_wf 8192 q" by (rule In_ReadShort_total [OF q1(2)])
  consider "sint uid \<le> 0" | "0 < sint uid" "map_of U uid = None" | v where "0 < sint uid" "map_of U uid = Some v"
    by (cases "map_of U uid") force+
  then show ?thesis
  proof cases
    case 1
    then have "ProcessUserLogin e nUid nSvid p w = Some (0, q, w)" using q1 q by (simp add: ProcessUserLogin_def)
    then show ?thesis using handledI [OF q(2) ok refl] by simp
  next
    case 2
    show ?thesis by (rule login_new_result [OF e q1(1) q(1) ok 2 room, of nUid nSvid]) (simp add: handledI [OF q(2)])
  next
    case (3 v)
    show ?thesis by (rule login_known_result [OF e q1(1) q(1) ok 3, of nUid nSvid]) (simp add: handledI [OF q(2)])
  qed
qed

text \<open>The store is full and the user is not in it.\<close>

lemma login_full_result:
  assumes e: "env_small e" and q1: "In_ReadInt p = Some (uid, q1)" and q: "In_ReadShort q1 = Some (t, q)" and ok: "server_ok w 0 U"
    and pos: "0 < sint uid" and n: "map_of U uid = None"
  obtains w' m where "ProcessUserLogin e nUid nSvid p w = Some (0, q, w')" "w_gshm w' = w_gshm w" "w_sent w' = w_sent w @ [m]"
    "w_stat w' = UpdateTerminalInfo TERMINAL_LOGINHALL (scast t) None (w_stat w)"
proof -
  note W = server_okD [OF ok]
  obtain u w1 where ln: "login_new e uid nSvid t w = (u, w1)" by fastforce
  then have u: "m_nUid u = uid" and w1: "w1 = w\<lparr>w_stat := UpdateTerminalInfo TERMINAL_LOGINHALL (scast t) None (w_stat w)\<rparr>"
    by (auto simp: login_new_def Let_def CGameUser_new_def split: if_splits prod.splits)
  have set: "gshm_SetValue (env_now e) u' (w_gshm w1) = Some (-1, w_gshm w)" if "m_nUid u' = m_nUid u" for u'
    using us.set_full [OF W(1), of u' "env_now e"] n that u by (simp add: w1)
  then have st: "\<exists>r g. gshm_SetValue (env_now e) u' (w_gshm w1) = Some (r, g)" if "m_nUid u' = m_nUid u" for u' using that by blast
  have o: "options_ok (w_opt w1)" using W(3) by (simp add: w1)
  obtain w' l r g opt m where r: "login_finish e nUid nSvid uid u w1 = Some w'"
      "gshm_SetValue (env_now e) (u\<lparr>m_nServerLevel := l\<rparr>) (w_gshm w1) = Some (r, g)"
      "w' = w1\<lparr>w_opt := opt, w_gshm := g, w_sent := w_sent w1 @ [m]\<rparr>"
    by (rule login_finish_result [OF e o st])
  have "g = w_gshm w" using r(2) set [of "u\<lparr>m_nServerLevel := l\<rparr>"] by simp
  moreover have "ProcessUserLogin e nUid nSvid p w = Some (0, q, w')"
    using q1 q pos find_user(1) [OF ok n] ln r(1) by (simp add: ProcessUserLogin_def)
  ultimately show ?thesis using that [of w' m] r(3) by (simp add: w1 del: UpdateTerminalInfo.simps)
qed

section \<open>The sizes of the levels\<close>

lemma level_num_loop_ok:
  assumes "pk_wf 8192 p" "m_nRoundLimit (w_opt w) \<noteq> 0"
  shows "\<exists>fs q c. level_num_loop e n p w = Some (fs, q, w\<lparr>w_nRandCount := c\<rparr>) \<and> pk_wf 8192 q \<and> list_all field_small fs \<and> length fs = 2 * n"
  using assms
proof (induction n arbitrary: p w)
  case 0
  then show ?case by (auto intro!: exI [of _ "w_nRandCount w"])
next
  case (Suc n)
  obtain r c where r: "GetRand e w = Some (r, w\<lparr>w_nRandCount := c\<rparr>)" using Suc.prems(2) by (auto simp: GetRand_def Let_def)
  obtain l q1 where q1: "In_ReadShort p = Some (l, q1)" "pk_wf 8192 q1" by (rule In_ReadShort_total [OF Suc.prems(1)])
  obtain fs q c' where "level_num_loop e n q1 (w\<lparr>w_nRandCount := c\<rparr>) = Some (fs, q, w\<lparr>w_nRandCount := c, w_nRandCount := c'\<rparr>)" "pk_wf 8192 q"
      "list_all field_small fs" "length fs = 2 * n"
    using Suc.IH [OF q1(2), of "w\<lparr>w_nRandCount := c\<rparr>"] Suc.prems(2) by auto
  then show ?case using r q1(1) by auto
qed

lemma ProcessGetRoomLevelNum_ok:
  assumes p: "pk_wf 8192 p" and ok: "server_ok w f U" and lim: "m_nRoundLimit (w_opt w) \<noteq> 0"
  shows "handled (length U + f) (ProcessGetRoomLevelNum e nUid nSvid p w)"
proof -
  obtain n q1 where q1: "In_ReadShort p = Some (n, q1)" "pk_wf 8192 q1" by (rule In_ReadShort_total [OF p])
  obtain fs q c where l: "level_num_loop e (nat (sint n)) q1 w = Some (fs, q, w\<lparr>w_nRandCount := c\<rparr>)" "pk_wf 8192 q" "list_all field_small fs"
    using level_num_loop_ok [OF q1(2) lim, of e "nat (sint n)"] by blast
  obtain m ms where m: "build_message CMD_GET_ROOM_LEVER_NUM (FShort n # fs) output_packet0 = Some m"
      "\<And>w. SendClientPacket nUid nSvid m w = Some (w\<lparr>w_sent := w_sent w @ [ms]\<rparr>)"
    by (rule SendClientPacket_total [of "FShort n # fs" CMD_GET_ROOM_LEVER_NUM nUid nSvid]) (use l(3) in simp_all)
  have "ProcessGetRoomLevelNum e nUid nSvid p w = Some (0, q, w\<lparr>w_nRandCount := c, w_sent := w_sent w @ [ms]\<rparr>)"
    using q1(1) l(1) m by (simp add: ProcessGetRoomLevelNum_def)
  then show ?thesis using handledI [OF l(2), of "w\<lparr>w_nRandCount := c, w_sent := w_sent w @ [ms]\<rparr>" f U] ok by simp
qed

section \<open>The packet inside the packet\<close>

lemma crevasse_loop_total: "9 + i + n \<le> 8192 \<Longrightarrow> \<exists>c' m'. crevasse_loop n i c m = Some (c', m')"
  by (induction n arbitrary: i c m) (auto simp: Let_def)

lemma Pb_get_total:
  "Pb_GetCmdType p = Some (ntohs (of_le16 (mem_read (m_strBuf p) 6 2)))"
  "Pb_GetBodyLength p = Some (ntohs (of_le16 (mem_read (m_strBuf p) 0 2)))"
  "Pb_GetcbCheckCode p = Some (hd (mem_read (m_strBuf p) 8 1))"
  by (simp_all add: Pb_GetCmdType_def Pb_GetBodyLength_def Pb_GetcbCheckCode_def Pb_readHeader_def Dpb_readHeader_def Let_def)

lemma mem_read_write_prefix: "n \<le> length bs \<Longrightarrow> mem_read (mem_write m 0 bs) 0 n = take n bs"
  by (rule nth_equalityI) (auto simp: mem_read_def mem_write_def)

text \<open>The check of the inner packet is what keeps the decoding loop inside the buffer.\<close>

lemma CheckPacketComplete_iff:
  "CheckPacketComplete d n \<noteq> 0 \<longleftrightarrow> 9 \<le> n \<and> n \<le> 8192 \<and> n = 2 + uint (ntohs (of_le16 (take 2 d)))"
  by (simp add: CheckPacketComplete_def Let_def)

lemma decode_total:
  assumes c: "CheckPacketComplete d n \<noteq> 0" and d: "length d = nat n"
  obtains q r q' where "In_Copy d n packet0 = Some (True, q)" "In_CrevasseBuffer q = Some (r, q')" "pk_wf 8192 q'"
proof -
  note C = c [unfolded CheckPacketComplete_iff]
  obtain h b where hb: "d = h @ b" "length h = 9" by (metis C append_take_drop_id d length_take min.absorb2 nat_mono nat_numeral)
  have b: "n = 9 + int (length b)" using d hb C by simp
  have cp: "In_Copy d n packet0 = Some (True, pk_msg h b packet0)" unfolding hb(1) by (rule In_Copy_msg) (use hb(2) b C in simp_all)
  let ?q = "pk_msg h b packet0" and ?L = "ntohs (of_le16 (take 2 d))"
  have "mem_read (m_strBuf ?q) 0 2 = take 2 d" using hb by (simp add: packet_simps mem_read_write_prefix)
  then have L: "Pb_GetBodyLength ?q = Some ?L" by (simp add: Pb_get_total)
  have "uint ?L = 7 + int (length b)" using C b by linarith
  then have "?L = word_of_int (7 + int (length b))" by (metis word_of_int_uint)
  then have "?L - 9 + 2 = word_of_int (int (length b))" by simp
  then have "unat (?L - 9 + 2) = length b" using C b by (simp add: unat_of_nat take_bit_nat_eq_self)
  then obtain c m where "crevasse_loop (unat (?L - 9 + 2)) 0 (hd (mem_read (m_strBuf ?q) 8 1)) (m_strBuf ?q) = Some (c, m)"
    using crevasse_loop_total [of 0 "length b"] C b by force
  then have "In_CrevasseBuffer ?q = Some (if c \<noteq> 0 then -1 else uint (?L - 9 + 2), ?q\<lparr>m_strBuf := m\<rparr>)"
    using L by (simp add: In_CrevasseBuffer_def Pb_get_total(3))
  moreover have "pk_wf 8192 (?q\<lparr>m_strBuf := m\<rparr>)" using C b by (simp add: pk_wf_def packet_simps)
  ultimately show ?thesis using that cp by blast
qed

lemma ProcessClientPacket_ok:
  assumes e: "env_small e" and c: "In_CrevasseBuffer p = Some (r, q)" "pk_wf 8192 q" and ok: "server_ok w f U"
    and room: "0 < f" and lim: "m_nRoundLimit (w_opt w) \<noteq> 0"
  shows "handled (length U + f) (ProcessClientPacket e nUid nSvid p w)"
  using c ProcessUserLogin_ok [OF e c(2) ok room] ProcessGetRoomLevelNum_ok [OF c(2) ok lim] handledI [OF c(2) ok refl]
  by (simp add: ProcessClientPacket_def Pb_get_total(1))

text \<open>The length that precedes the inner packet. A negative one other than the error code would reach \<open>memcpy\<close>.\<close>

definition sub_length :: "packet \<Rightarrow> c_int option" where
  "sub_length p =
     do {
       nCmd \<leftarrow> Pb_GetCmdType p;
       (_, p) \<leftarrow> In_ReadInt p;
       (_, p) \<leftarrow> In_ReadInt p;
       p \<leftarrow> (if nCmd = CLIENT_PACKET2 then do { (_, p) \<leftarrow> In_ReadInt p; (_, p) \<leftarrow> In_ReadShort p; Some p } else Some p);
       (nLen, _) \<leftarrow> In_ReadInt p;
       Some nLen
     }"

lemma In_ReadBinary_total:
  assumes p: "pk_wf 8192 p" and l: "In_ReadInt p = Some (n, q0)" "-1 \<le> sint n"
  obtains k bs q where "In_ReadBinary 10240 p = Some (k, bs, q)" "pk_wf 8192 q" "k \<le> 0 \<or> length bs = nat k"
proof -
  obtain n' q' where nq: "In_ReadInt p = Some (n', q')" "pk_wf 8192 q'" by (rule In_ReadInt_total [OF p])
  then have q0: "pk_wf 8192 q0" using l(1) by simp
  have m: "n = -1" if "sint n = -1" using that by (intro signed_word_eqI) simp
  have "sint n = -1 \<or> 10240 < sint n \<or> 0 \<le> sint n \<and> sint n \<le> 10240" using l(2) by linarith
  then consider "n = -1" | "10240 < sint n" | "0 \<le> sint n" "sint n \<le> 10240" using m by blast
  then show ?thesis
  proof cases
    case 1
    then show ?thesis using that [of "-1" "[]" q0] l(1) q0 by (simp add: In_ReadBinary_def)
  next
    case 2
    have "n \<noteq> -1" using 2 by auto
    then have r: "In_ReadBinary 10240 p = Some (-1, [], Pb_readundo 4 q0)" using 2 l(1) by (simp add: In_ReadBinary_def)
    have "In_ReadInt p \<noteq> Some (-1, p)" using \<open>n \<noteq> -1\<close> l(1) by simp
    then have "\<exists>bs. Dpb_Read 8192 4 p = Some (Some bs, q0)" using l(1) \<open>n \<noteq> -1\<close>
      by (auto simp: In_ReadInt_def Pb_Read_def split: option.splits bind_splits)
    then have "m_nBufPos q0 = m_nBufPos p + 4" by (auto simp: Dpb_Read_def split: if_splits bind_splits dest!: c_add_SomeD)
    then have "pk_wf 8192 (Pb_readundo 4 q0)" using q0 p by (simp add: Pb_readundo_def Dpb_readundo_def pk_wf_def)
    then show ?thesis using that r by simp
  next
    case 3
    have "n \<noteq> -1" using 3 by auto
    note 3 = this 3
    obtain r q where rd: "Dpb_Read 8192 (sint n) q0 = Some (r, q)" using Dpb_Read_defined [OF q0, of "sint n"] 3 by auto
    have q: "pk_wf 8192 q" by (rule Dpb_Read_wf(1) [OF q0 rd])
    show ?thesis
    proof (cases r)
      case None
      then show ?thesis using that [of 0 "[]" q] 3 l(1) rd q by (simp add: In_ReadBinary_def Pb_Read_def)
    next
      case (Some bs)
      then have "length bs = nat (sint n)" using rd by (auto simp: Dpb_Read_def split: if_splits bind_splits)
      then show ?thesis using that [of "sint n" bs q] Some 3 l(1) rd q by (simp add: In_ReadBinary_def Pb_Read_def)
    qed
  qed
qed

text \<open>Both commands leave the cursor in front of the length of the inner packet.\<close>

lemma sub_prefix:
  assumes p: "pk_wf 8192 p" and c: "Pb_GetCmdType p = Some CLIENT_PACKET \<or> Pb_GetCmdType p = Some CLIENT_PACKET2"
  obtains uid svid n q q' where "pk_wf 8192 q" "In_ReadInt q = Some (n, q')" "sub_length p = Some n"
    "\<And>e w k bs q2. In_ReadBinary 10240 q = Some (k, bs, q2) \<Longrightarrow> ProcessSubPacket e p w =
       (if k < 0 then Some (0, q2, w)
        else if CheckPacketComplete bs k = 0 then Some (0, q2, w)
        else do {
          (ok, tempPacket) \<leftarrow> In_Copy bs k packet0;
          if \<not> ok then Some (0, q2, w)
          else do { (ret, _, w) \<leftarrow> ProcessClientPacket e uid svid tempPacket w; Some (ret, q2, w) }
        })"
proof -
  obtain uid q1 where q1: "In_ReadInt p = Some (uid, q1)" "pk_wf 8192 q1" by (rule In_ReadInt_total [OF p])
  obtain svid q2 where q2: "In_ReadInt q1 = Some (svid, q2)" "pk_wf 8192 q2" by (rule In_ReadInt_total [OF q1(2)])
  obtain ip q3 where q3: "In_ReadInt q2 = Some (ip, q3)" "pk_wf 8192 q3" by (rule In_ReadInt_total [OF q2(2)])
  obtain api q4 where q4: "In_ReadShort q3 = Some (api, q4)" "pk_wf 8192 q4" by (rule In_ReadShort_total [OF q3(2)])
  obtain n q5 where q5: "In_ReadInt q4 = Some (n, q5)" "pk_wf 8192 q5" by (rule In_ReadInt_total [OF q4(2)])
  note Q = q1(1) q2(1) q3(1) q4(1) q5(1)
  from c show ?thesis
  proof
    assume "Pb_GetCmdType p = Some CLIENT_PACKET"
    then show ?thesis
      by (intro that [OF q2(2) q3(1), of uid svid])
        (use Q in \<open>simp_all add: sub_length_def ProcessSubPacket_def\<close>)
  next
    assume "Pb_GetCmdType p = Some CLIENT_PACKET2"
    then show ?thesis
      by (intro that [OF q4(2) q5(1), of uid svid])
        (use Q in \<open>simp_all add: sub_length_def ProcessSubPacket_def\<close>)
  qed
qed

lemma ProcessSubPacket_ok:
  assumes e: "env_small e" and p: "pk_wf 8192 p" and ok: "server_ok w f U" and room: "0 < f" and lim: "m_nRoundLimit (w_opt w) \<noteq> 0"
    and c: "Pb_GetCmdType p = Some CLIENT_PACKET \<or> Pb_GetCmdType p = Some CLIENT_PACKET2"
    and n: "\<forall>n. sub_length p = Some n \<longrightarrow> -1 \<le> sint n"
  shows "handled (length U + f) (ProcessSubPacket e p w)"
proof -
  obtain uid svid n q0 q0' where P: "pk_wf 8192 q0" "In_ReadInt q0 = Some (n, q0')" "sub_length p = Some n"
    "\<And>e w k bs q2. In_ReadBinary 10240 q0 = Some (k, bs, q2) \<Longrightarrow> ProcessSubPacket e p w =
       (if k < 0 then Some (0, q2, w)
        else if CheckPacketComplete bs k = 0 then Some (0, q2, w)
        else do {
          (ok, tempPacket) \<leftarrow> In_Copy bs k packet0;
          if \<not> ok then Some (0, q2, w)
          else do { (ret, _, w) \<leftarrow> ProcessClientPacket e uid svid tempPacket w; Some (ret, q2, w) }
        })"
    by (rule sub_prefix [OF p c]) blast
  have "-1 \<le> sint n" using n P(3) by blast
  then obtain k bs q where b: "In_ReadBinary 10240 q0 = Some (k, bs, q)" "pk_wf 8192 q" "k \<le> 0 \<or> length bs = nat k"
    by (rule In_ReadBinary_total [OF P(1,2)])
  show ?thesis
  proof (cases "k < 0 \<or> CheckPacketComplete bs k = 0")
    case True
    then have "ProcessSubPacket e p w = Some (0, q, w)" using P(4) [OF b(1)] by auto
    then show ?thesis using handledI [OF b(2) ok refl] by simp
  next
    case False
    then have C: "CheckPacketComplete bs k \<noteq> 0" by blast
    have "length bs = nat k" using b(3) C CheckPacketComplete_iff [of bs k] by linarith
    then obtain t r t' where t: "In_Copy bs k packet0 = Some (True, t)" "In_CrevasseBuffer t = Some (r, t')" "pk_wf 8192 t'"
      by (rule decode_total [OF C])
    obtain t2 w' f' U' where h: "ProcessClientPacket e uid svid t w = Some (0, t2, w')" "server_ok w' f' U'" "length U' + f' = length U + f"
      using ProcessClientPacket_ok [OF e t(2,3) ok room lim, of uid svid] unfolding handled_def by blast
    have "ProcessSubPacket e p w = Some (0, q, w')" using P(4) [OF b(1)] False t(1) h(1) by simp
    then show ?thesis using handledI [OF b(2) h(2,3)] by simp
  qed
qed

text \<open>The key of the command that rereads the random configuration has to be terminated inside the buffer.\<close>

lemma ProcessSetLevelCountRandom_ok:
  assumes p: "pk_wf 8192 p" and ok: "server_ok w f U" and s: "In_ReadString p = Some (key, q)" and q: "pk_wf 8192 q"
  shows "handled (length U + f) (ProcessSetLevelCountRandom e p w)"
proof -
  obtain r opt where opt: "ReadRandomConfig e (bytes_of_string ''../conf/config.ini'') (w_opt w) = Some (r, opt)" "options_ok opt"
    using ReadRandomConfig_ok [of e _ "w_opt w"] server_okD(3) [OF ok] by blast
  then have "server_ok (w\<lparr>w_opt := opt\<rparr>) f U" by (intro server_ok_opt [OF ok])
  then show ?thesis using handledI [OF q ok refl] handledI [OF q] s opt(1) by (simp add: ProcessSetLevelCountRandom_def)
qed

end
