(* ===== verification/Service.thy ===== *)
theory Service
  imports ClientPackets
begin

text \<open>
  The server as a whole: the dispatch of a packet, the events of the main loop, and the states the server can be in.
\<close>

section \<open>Dispatch\<close>

text \<open>There is a free node in the store.\<close>

definition has_room :: "UserServer \<Rightarrow> bool" where
  "has_room w \<longleftrightarrow> hm_used_node_num (shm_map (m_ShmHashMap (w_gshm w))) < hm_node_total (shm_map (m_ShmHashMap (w_gshm w)))"

lemma store_size:
  assumes "user_rep g f U"
  shows "hm_used_node_num (shm_map (m_ShmHashMap g)) = int (length U)" "hm_node_total (shm_map (m_ShmHashMap g)) = int (length U + f)"
proof -
  obtain n where "hm_rep (shm_map (m_ShmHashMap g)) 20 n f (map (\<lambda>(k, u). (k, user_bytes u)) U)" using user_rep_pool [OF assms] by blast
  then obtain fs bs as B where inv: "hm_inv (shm_map (m_ShmHashMap g)) fs bs as 20 n B" "f = length fs"
      and E: "map (\<lambda>(k, u). (k, user_bytes u)) U = map (hm_entry (shm_map (m_ShmHashMap g)) B) as" by (auto elim!: hm_repE)
  have "length U = length as" using arg_cong [OF E, of length] by simp
  then show "hm_used_node_num (shm_map (m_ShmHashMap g)) = int (length U)" "hm_node_total (shm_map (m_ShmHashMap g)) = int (length U + f)"
    using hm_invD(9,10) [OF inv(1)] inv(2) by simp_all
qed

lemma has_room_iff: "server_ok w f U \<Longrightarrow> has_room w \<longleftrightarrow> 0 < f"
  using store_size [OF server_okD(1)] by (simp add: has_room_def)

text \<open>What the server relies on the hall servers for: the packet of a client carries a length that is not negative, or the error code,
  and arrives while the store has room and the random limit is not zero; the key of the command that rereads the
  configuration is a string that ends inside the packet.\<close>

definition admissible :: "packet \<Rightarrow> UserServer \<Rightarrow> bool" where
  "admissible p w \<longleftrightarrow>
     (let cmd = Pb_GetCmdType p in
       (if cmd = Some CLIENT_PACKET \<or> cmd = Some CLIENT_PACKET2
        then (case sub_length p of None \<Rightarrow> True | Some n \<Rightarrow> -1 \<le> sint n) \<and> has_room w \<and> m_nRoundLimit (w_opt w) \<noteq> 0
        else if cmd = Some SYS_SET_LEVEL_COUNT_RANDOM then (case In_ReadString p of None \<Rightarrow> False | Some (_, q) \<Rightarrow> pk_wf 8192 q)
        else True))"

lemma ProcessPacket_ok:
  assumes e: "env_small e" and p: "pk_wf 8192 p" and ok: "server_ok w f U" and adm: "admissible p w"
  shows "handled (length U + f) (ProcessPacket e p w)"
proof -
  obtain c where c: "Pb_GetCmdType p = Some c" by (simp add: Pb_get_total)
  note H = user_table.safe [OF e p ok] close.safe [OF e p ok] leave.safe [OF e p ok] enter.safe [OF e p ok] stand.safe [OF e p ok]
    stand_leave.safe [OF e p ok] logic_core.safe [OF e p ok] hall_core.safe [OF e p ok] clear_info.safe [OF e p ok]
    tj_switch.safe [OF e p ok] hall_id.safe [OF e p ok] alloc_register.safe [OF e p ok] handledI [OF p ok refl]
  consider "c = CLIENT_PACKET \<or> c = CLIENT_PACKET2" | "c = SYS_SET_LEVEL_COUNT_RANDOM"
    | "c \<noteq> CLIENT_PACKET" "c \<noteq> CLIENT_PACKET2" "c \<noteq> SYS_SET_LEVEL_COUNT_RANDOM" by blast
  then show ?thesis
  proof cases
    case 1
    then have "handled (length U + f) (ProcessSubPacket e p w)"
      using c adm has_room_iff [OF ok] by (intro ProcessSubPacket_ok [OF e p ok]) (auto simp: admissible_def)
    moreover have "ProcessPacket e p w = ProcessSubPacket e p w" using 1 c by (auto simp: ProcessPacket_def)
    ultimately show ?thesis by simp
  next
    case 2
    then obtain key q where "In_ReadString p = Some (key, q)" "pk_wf 8192 q"
      using adm c by (auto simp: admissible_def split: option.splits)
    then have "handled (length U + f) (ProcessSetLevelCountRandom e p w)" by (rule ProcessSetLevelCountRandom_ok [OF p ok])
    then show ?thesis using 2 c by (simp add: ProcessPacket_def)
  next
    case 3
    then show ?thesis using c H by (simp add: ProcessPacket_def)
  qed
qed

section \<open>Events\<close>

text \<open>The events of the main loop that reach the server: a packet of a hall or game server, on a connection whose packet object is \<open>p\<close>;
  a timer; and the connection to the statistics server being established, lost, or delivering a packet.\<close>

datatype server_event = Received "byte list" packet | Timer int | TjConnected | TjClosed | TjReceived "byte list"

fun handle_event :: "env \<Rightarrow> server_event \<Rightarrow> UserServer \<Rightarrow> UserServer option" where
  "handle_event e (Received d p) w = do { (_, _, w) \<leftarrow> OnPacketComplete e d (int (length d)) p w; Some w }"
| "handle_event e (Timer i) w = ProcessOnTimerOut e i w"
| "handle_event e TjConnected w = do { opt \<leftarrow> bs_OnConnected (w_stat w) (w_opt w); Some (w\<lparr>w_opt := opt\<rparr>) }"
| "handle_event e TjClosed w = do { b \<leftarrow> m_pTJServer (w_opt w); Some (w\<lparr>w_opt := (w_opt w)\<lparr>m_pTJServer := Some (bs_OnClose b)\<rparr>\<rparr>) }"
| "handle_event e (TjReceived d) w = do { (_, opt) \<leftarrow> bs_OnPacketComplete d (int (length d)) (w_opt w); Some (w\<lparr>w_opt := opt\<rparr>) }"

text \<open>Packets are at most as large as the packet buffer.\<close>

fun event_ok :: "server_event \<Rightarrow> UserServer \<Rightarrow> bool" where
  "event_ok (Received d p) w \<longleftrightarrow> length d \<le> 8192 \<and>
     (case In_Copy d (int (length d)) p of None \<Rightarrow> False | Some (_, q) \<Rightarrow> admissible q w)"
| "event_ok (Timer i) w \<longleftrightarrow> True"
| "event_ok (TjReceived d) w \<longleftrightarrow> length d \<le> 8192 \<and> m_pTJServer (w_opt w) \<noteq> None"
| "event_ok _ w \<longleftrightarrow> m_pTJServer (w_opt w) \<noteq> None"

lemma Dpb_copy_small:
  assumes "length d \<le> 8192"
  obtains q where "Dpb_copy 8192 d (int (length d)) p = Some (True, q)" "pk_wf 8192 q"
  using assms that by (simp add: Dpb_copy_def Dpb_reset_def Let_def pk_wf_def)

lemma event_ok_step:
  assumes e: "env_small e" and ok: "server_ok w f U" and ev: "event_ok ev w"
  shows "\<exists>w' f' U'. handle_event e ev w = Some w' \<and> server_ok w' f' U' \<and> length U' + f' = length U + f"
proof (cases ev)
  case (Received d p)
  then have "length d \<le> 8192" using ev by simp
  then obtain q where q: "In_Copy d (int (length d)) p = Some (True, q)" "pk_wf 8192 q"
    unfolding In_Copy_def Pb_copy_def by (rule Dpb_copy_small)
  then have "handled (length U + f) (ProcessPacket e q w)" using ev Received by (intro ProcessPacket_ok [OF e q(2) ok]) simp
  then obtain p' w' f' U' where "ProcessPacket e q w = Some (0, p', w')" "server_ok w' f' U'" "length U' + f' = length U + f"
    unfolding handled_def by blast
  then show ?thesis using Received q(1) by (intro exI [of _ w'] exI [of _ f'] exI [of _ U']) (simp add: OnPacketComplete_def)
next
  case (Timer i)
  then show ?thesis
    using ok ProcessTimeCheck_ok [OF ok] ProcessFlushCheck_ok [OF ok, of e] ProcessOfflineCheck_ok [OF ok, of e]
    by (auto simp: ProcessOnTimerOut_def)
next
  case TjConnected
  then obtain b where b: "m_pTJServer (w_opt w) = Some b" using ev by auto
  obtain b' where "ReportData (w_stat w) ((w_opt w)\<lparr>m_pTJServer := Some (b\<lparr>m_bIsConnected := True\<rparr>)\<rparr>) =
      Some ((w_opt w)\<lparr>m_pTJServer := Some (b\<lparr>m_bIsConnected := True\<rparr>), m_pTJServer := Some b'\<rparr>)"
    using ReportData_connected [of "(w_opt w)\<lparr>m_pTJServer := Some (b\<lparr>m_bIsConnected := True\<rparr>)\<rparr>"] by auto
  then have "handle_event e ev w = Some (w\<lparr>w_opt := (w_opt w)\<lparr>m_pTJServer := Some (b'\<lparr>bs_timer := CCTimer_StopTimer (bs_timer b')\<rparr>)\<rparr>\<rparr>)"
    using TjConnected b by (simp add: bs_OnConnected_def)
  then show ?thesis using server_ok_opt [OF ok] server_okD(3) [OF ok] by (metis options_ok_fields(4))
next
  case TjClosed
  then obtain b where "handle_event e ev w = Some (w\<lparr>w_opt := (w_opt w)\<lparr>m_pTJServer := Some (bs_OnClose b)\<rparr>\<rparr>)" using ev by auto
  then show ?thesis using server_ok_opt [OF ok] server_okD(3) [OF ok] by (metis options_ok_fields(4))
next
  case (TjReceived d)
  then obtain b where b: "m_pTJServer (w_opt w) = Some b" "length d \<le> 8192" using ev by auto
  obtain q where q: "Din_Copy DATA_BUFFER d (int (length d)) (bs_pPacket b) = Some (True, q)" "pk_wf DATA_BUFFER q"
    using Dpb_copy_small [OF b(2), of "bs_pPacket b"] by (auto simp: Din_Copy_def)
  obtain opt' where "bs_OnPacketComplete d (int (length d)) (w_opt w) = Some (0, opt')" "options_ok opt'"
    using bs_OnPacketComplete_ok [OF b(1) server_okD(3) [OF ok] q] by blast
  then show ?thesis using TjReceived server_ok_opt [OF ok] by auto
qed

section \<open>States of the server\<close>

text \<open>A machine on which the segment of the store does not exist yet: \<open>shmget\<close> creates it, filled with zeros, and \<open>shmat\<close> maps it.\<close>

definition fresh_machine :: "'o shm_os \<Rightarrow> (int \<Rightarrow> CHashMap) \<Rightarrow> 'o \<Rightarrow> int \<Rightarrow> int \<Rightarrow> bool" where
  "fresh_machine os mem s key N \<longleftrightarrow>
     (case os_shmget os key (hm_get_total_pool_size N 65537 N 20) True s of
        (Some i, _, s1) \<Rightarrow> i \<noteq> -1 \<and> (case os_shmat os i s1 of (Some p, _) \<Rightarrow> mem p = zero_pool N 65537 N 20 | (None, _) \<Rightarrow> False)
      | (None, _, _) \<Rightarrow> False)"

lemma fresh_machineE:
  assumes fresh: "fresh_machine os mem s key N"
  obtains i e s1 p s2 where "os_shmget os key (hm_get_total_pool_size N 65537 N 20) True s = (Some i, e, s1)" "i \<noteq> -1"
    "os_shmat os i s1 = (Some p, s2)" "mem p = zero_pool N 65537 N 20"
proof -
  obtain oi e s1 where g: "os_shmget os key (hm_get_total_pool_size N 65537 N 20) True s = (oi, e, s1)" by (metis prod_cases3)
  then obtain i where i: "oi = Some i" using fresh by (cases oi) (auto simp: fresh_machine_def)
  obtain op s2 where a: "os_shmat os i s1 = (op, s2)" by fastforce
  then obtain p where "op = Some p" using fresh g i by (cases op) (auto simp: fresh_machine_def)
  then show ?thesis using that g i a fresh by (simp add: fresh_machine_def)
qed

text \<open>The server before \<open>InitSHM\<close>: nothing is counted yet, the options are read.\<close>

definition before_start :: "UserServer \<Rightarrow> bool" where
  "before_start w \<longleftrightarrow> w_stat w = CStat_new \<and> options_ok (w_opt w) \<and> 0 \<le> sint (m_nSHMNodeCount (w_opt w))"

lemma InitSHM_ok:
  assumes w: "before_start w" and fresh: "fresh_machine os mem s (sint (0x20111 + server_id (w_opt w))) (sint (m_nSHMNodeCount (w_opt w)))"
  shows "\<exists>w' s'. InitSHM os init0 mem w s = Some (0, w', s') \<and> server_ok w' (nat (sint (m_nSHMNodeCount (w_opt w)))) []"
proof -
  let ?N = "sint (m_nSHMNodeCount (w_opt w))" and ?k = "sint (0x20111 + server_id (w_opt w))"
  have N: "nat ?N < 2 ^ 31" using sint_lt [of "m_nSHMNodeCount (w_opt w)"] by (simp add: nat_less_iff)
  let ?g = "gshm_SetHashInfo \<lparr>bucket_size_cfg = 65537, node_total_cfg = ?N, chunk_total_cfg = ?N, chunk_size_cfg = 20\<rparr> ?k ?k (w_gshm w)"
  obtain i e s1 p s2 where os: "os_shmget os ?k (hm_get_total_pool_size ?N 65537 ?N 20) True s = (Some i, e, s1)" "i \<noteq> -1"
      "os_shmat os i s1 = (Some p, s2)" "mem p = zero_pool ?N 65537 ?N 20"
    by (rule fresh_machineE [OF fresh])
  have c: "store_config ?g ?k ?N 65537 ?N" by (simp add: gshm_SetHashInfo_def)
  obtain g' where g': "gshm_Init os init0 mem ?g s = Some (0, g', s2)" "user_rep g' (nat ?N) []"
    using gshm_Init_new [OF c _ _ _ order_refl os(1-3), of mem, OF _ _ _ os(4), of init0] w by (auto simp: before_start_def int_max_def)
  obtain w' where "ReportStartTJData (w\<lparr>w_gshm := g'\<rparr>) = Some w'" "server_ok w' (nat ?N) []"
    using ReportStartTJData_ok [of "w\<lparr>w_gshm := g'\<rparr>" "nat ?N" "[]"] g'(2) w N by (auto simp: before_start_def)
  then show ?thesis using g'(1) by (simp add: InitSHM_def)
qed

text \<open>The states from the start of the server on a fresh machine by events it can rely on.\<close>

inductive server_state :: "'o shm_os \<Rightarrow> (int \<Rightarrow> CHashMap) \<Rightarrow> UserServer \<Rightarrow> bool" for os mem where
  start: "before_start w \<Longrightarrow> fresh_machine os mem s (sint (0x20111 + server_id (w_opt w))) (sint (m_nSHMNodeCount (w_opt w))) \<Longrightarrow>
    InitSHM os init0 mem w s = Some (0, w', s') \<Longrightarrow> server_state os mem w'"
| event: "server_state os mem w \<Longrightarrow> env_small e \<Longrightarrow> event_ok ev w \<Longrightarrow> handle_event e ev w = Some w' \<Longrightarrow> server_state os mem w'"

lemma server_state_ok: "server_state os mem w \<Longrightarrow> \<exists>f U. server_ok w f U"
proof (induction rule: server_state.induct)
  case (start w s init0 w' s')
  then show ?case using InitSHM_ok [OF start(1,2), of init0] by auto
next
  case (event w e ev w')
  then obtain f U where "server_ok w f U" by blast
  then show ?case using event_ok_step [OF event(2) _ event(3)] event(4) by fastforce
qed

end
