(* ===== verification/Samples.thy ===== *)
theory Samples
  imports Service
begin

text \<open>
  Concrete inputs at which the properties of the root theory are instantiated: small stores, a started server, and packets.
\<close>

section \<open>Sample states and packets\<close>

text \<open>A configuration with room for two users, an environment without memcached records, and a server before its start.\<close>

definition env0 :: env where
  "env0 = \<lparr>env_now = 1000, env_server_mc = (\<lambda>_. None), env_online_mc = (\<lambda>_. None), env_rand = (\<lambda>_. 7), env_ini = Map.empty\<rparr>"

definition server0 :: UserServer where
  "server0 = \<lparr>w_opt = options0\<lparr>m_nSHMNodeCount := 2\<rparr>, w_stat = CStat_new, w_gshm = small_store (zero_pool 2 3 2 20), w_nRandCount = 0, w_sent = []\<rparr>"

definition memory0 :: "int \<Rightarrow> CHashMap" where
  "memory0 = (\<lambda>_. zero_pool 2 65537 2 20)"

definition user5 :: CGameUser where
  "user5 = (CGameUser_new 5 3 1 900)\<lparr>m_nTid := 65543, m_nServerLevel := 2\<rparr>"

text \<open>A packet whose body starts with the user id 5 and the table id 65537.\<close>

definition packet5 :: packet where
  "packet5 = pk_msg (net_header 15 SYS_USER_ENTER_ROOM 0) (le32 (htonl 5) @ le32 (htonl 65537)) packet0"

lemma options_ok_0: "options_ok (options0\<lparr>m_nSHMNodeCount := 2\<rparr>)"
  using options_ok_new by (simp add: options_ok_def options0_def Options_new_def)

lemma env_small_0 [simp]: "env_small env0"
  by (simp add: env_small_def env0_def)

lemma before_start_0: "before_start server0" "server_id (w_opt server0) = 0" "m_nSHMNodeCount (w_opt server0) = 2"
  using options_ok_0 by (simp_all add: before_start_def server0_def options0_def Options_new_def)

lemma fresh_machine_0: "fresh_machine os_fresh memory0 () k 2"
  by (simp add: fresh_machine_def os_fresh_def memory0_def)

lemma packet5_reads:
  obtains q1 q where "In_ReadInt packet5 = Some (5, q1)" "In_ReadInt q1 = Some (65537, q)" "pk_wf 8192 q1" "pk_wf 8192 q" "pk_wf 8192 packet5"
proof -
  have p: "pk_wf 8192 packet5" "m_nBufPos packet5 \<le> m_nPacketSize packet5" "rest packet5 = le32 (htonl 5) @ le32 (htonl 65537)"
    by (simp_all add: packet5_def pk_wf_def packet_simps)
  obtain q1 where q1: "In_ReadInt packet5 = Some (5, q1)" "rest q1 = le32 (htonl 65537) @ []" "pk_wf 8192 q1" "m_nBufPos q1 \<le> m_nPacketSize q1"
    using In_ReadInt_ok [OF p] by auto
  obtain q where "In_ReadInt q1 = Some (65537, q)" "pk_wf 8192 q" using In_ReadInt_ok [OF q1(3,4,2)] by blast
  then show ?thesis using that q1 p(1) by blast
qed

lemma one_user_store: "m_nUid u = 5 \<Longrightarrow> \<exists>g. user_rep g 1 [(5, u)]"
proof -
  assume u: "m_nUid u = 5"
  obtain g where g: "user_rep g 2 []" using user_rep_exists by blast
  show ?thesis using us.set_new [OF g, of u 0] u by (auto simp: lru_set_def)
qed

lemma one_user_state:
  assumes "m_nUid u = 5" "options_ok opt"
  obtains w where "server_ok w 1 [(5, u)]" "m_OfflineUserMgr (w_opt w) = m_OfflineUserMgr opt" "stored w 5 = Some u"
proof -
  obtain g where "user_rep g 1 [(5, u)]" using one_user_store [OF assms(1)] by blast
  then obtain w where "server_ok w 1 [(5, u)]" "m_OfflineUserMgr (w_opt w) = m_OfflineUserMgr opt"
    using ReportStartTJData_ok [of "server0\<lparr>w_gshm := g, w_opt := opt\<rparr>" 1 "[(5, u)]"] assms(2) by (auto simp: server0_def)
  then show ?thesis using that stored_ok(2) [of w 1 "[(5, u)]"] by simp
qed

lemma user5_state:
  obtains w where "server_ok w 1 [(5, user5)]" "stored w 5 = Some user5"
  by (rule one_user_state [of user5, OF _ options_ok_0]) (simp_all add: user5_def CGameUser_new_def)

lemma empty_state:
  obtains w where "server_ok w 2 []"
proof -
  obtain g where "user_rep g 2 []" using user_rep_exists by blast
  then show ?thesis
    using ReportStartTJData_ok [of "server0\<lparr>w_gshm := g\<rparr>" 2 "[]"] options_ok_0 that by (auto simp: server0_def)
qed

lemma full_state:
  obtains w where "server_ok w 0 [(6, user5\<lparr>m_nUid := 6\<rparr>), (5, user5)]"
proof -
  obtain g where g: "user_rep g 1 [(5, user5)]" using one_user_store [of user5] by (auto simp: user5_def CGameUser_new_def)
  obtain g' where "user_rep g' 0 [(6, user5\<lparr>m_nUid := 6\<rparr>), (5, user5)]"
    using us.set_new [OF g, of "user5\<lparr>m_nUid := 6\<rparr>" 0] by (auto simp: lru_set_def)
  then show ?thesis
    using ReportStartTJData_ok [of "server0\<lparr>w_gshm := g'\<rparr>" 0 "[(6, user5\<lparr>m_nUid := 6\<rparr>), (5, user5)]"] options_ok_0 that by (auto simp: server0_def)
qed

definition packet65537 :: packet where
  "packet65537 = pk_msg (net_header 11 SYS_USER_ENTER_ROOM 0) (le32 (htonl 65537)) packet0"

lemma packet65537_reads:
  obtains q where "In_ReadInt packet65537 = Some (65537, q)" "pk_wf 8192 q"
proof -
  have p: "pk_wf 8192 packet65537" "m_nBufPos packet65537 \<le> m_nPacketSize packet65537" "rest packet65537 = le32 (htonl 65537) @ []"
    by (simp_all add: packet65537_def pk_wf_def packet_simps)
  then show ?thesis using In_ReadInt_ok [OF p] that by blast
qed

lemma started_0: "\<exists>w. server_state os_fresh memory0 w"
proof -
  obtain w s where "InitSHM os_fresh 0 memory0 server0 () = Some (0, w, s)"
    using InitSHM_ok [OF before_start_0(1), of os_fresh memory0 "()" 0] before_start_0(2,3) fresh_machine_0 by auto
  then show ?thesis
    using server_state.start [OF before_start_0(1), of os_fresh memory0 "()" 0] before_start_0(2,3) fresh_machine_0 by auto
qed

lemma user5_state_limit:
  obtains w where "server_ok w 1 [(5, user5)]" "m_nRoundLimit (w_opt w) \<noteq> 0"
proof -
  obtain w where w: "server_ok w 1 [(5, user5)]" by (rule user5_state)
  then have "server_ok (w\<lparr>w_opt := (w_opt w)\<lparr>m_nRoundLimit := 100\<rparr>\<rparr>) 1 [(5, user5)]" by (simp add: server_ok_def options_ok_def)
  then show ?thesis using that by simp
qed

text \<open>A configuration file with a zero limit, and a request for one level.\<close>

definition env_zero :: env where
  "env_zero = env0\<lparr>env_ini := (\<lambda>_. Some (ini_text ini1))\<rparr>"

definition packet_level :: packet where
  "packet_level = pk_msg (net_header 11 CMD_GET_ROOM_LEVER_NUM 0) (le16 (htons 1) @ le16 (htons 2)) packet0"

lemma packet_level_reads:
  obtains q where "In_ReadShort packet_level = Some (1, q)"
proof -
  have p: "pk_wf 8192 packet_level" "m_nBufPos packet_level \<le> m_nPacketSize packet_level" "rest packet_level = le16 (htons 1) @ le16 (htons 2)"
    by (simp_all add: packet_level_def pk_wf_def packet_simps)
  then show ?thesis using that Dpb_Read_ok(1) [OF p, of 2] by (simp add: In_ReadShort_def Pb_Read_def)
qed

end
