(* ===== verification/MemPool.thy ===== *)
theory MemPool
  imports Prelude
begin

text \<open>
  \<open>include/mempool.h\<close>, \<open>src/core/mempool.cpp\<close>: the pool of memory blocks from which the buffers of the connections are taken. Blocks are
  known by their address; \<open>new\<close> returns the address \<open>mp_next\<close>, which was never returned before. For each block size the pool keeps the list of
  free blocks and the set of all blocks. Sizes are \<open>unsigned int\<close>, and their products and sums wrap around.
\<close>

section \<open>State\<close>

record CMemPool =
  mp_free :: "c_int \<rightharpoonup> nat list"
  mp_stub :: "c_int \<rightharpoonup> nat set"
  mp_allocated_size :: c_int
  mp_water_mark :: c_int
  mp_next :: nat

abbreviation C_EXTEND_SET :: c_int where "C_EXTEND_SET \<equiv> 128"
abbreviation C_SLOT_1 :: c_int where "C_SLOT_1 \<equiv> 1048576"
abbreviation C_SLOT_2 :: c_int where "C_SLOT_2 \<equiv> 67108864"
abbreviation C_ALLOC_CAPCITY :: c_int where "C_ALLOC_CAPCITY \<equiv> 134217728"
abbreviation C_MAX_POOL_SIZE :: c_int where "C_MAX_POOL_SIZE \<equiv> 2097152000"
abbreviation C_MAX_WATER_MARK :: c_int where "C_MAX_WATER_MARK \<equiv> 1073741824"

definition CMemPool_new :: CMemPool where
  "CMemPool_new = \<lparr>mp_free = Map.empty, mp_stub = Map.empty, mp_allocated_size = 0, mp_water_mark = C_MAX_WATER_MARK, mp_next = 1\<rparr>"

section \<open>Block sizes\<close>

lemma unat_drop_bit: "unat (drop_bit n (w :: c_int)) = unat w div 2 ^ n"
  by (metis unat_drop_bit_eq drop_bit_eq_div)

lemma unat_half: "(w :: c_int) \<noteq> 0 \<Longrightarrow> unat (drop_bit 1 w) < unat w"
  using unat_drop_bit [of 1 w] by (simp add: unat_gt_0 del: drop_bit_Suc)

function fit_loop :: "nat \<Rightarrow> c_int \<Rightarrow> nat" where
  "fit_loop i sz = (if sz = 0 then i else fit_loop (Suc i) (drop_bit 1 sz))"
  by auto
termination by (relation "measure (\<lambda>(_, sz). unat sz)") (use unat_half in auto)

declare fit_loop.simps [simp del]

text \<open>The shift is defined below 32 bits.\<close>

definition fit_block_size :: "c_int \<Rightarrow> c_int option" where
  "fit_block_size sz =
     (let i = fit_loop 10 (drop_bit 10 sz); i = (if i < 10 then 10 else i) in if 32 \<le> i then None else Some (push_bit i 1))"

definition fit_extend_set :: "c_int \<Rightarrow> c_int" where
  "fit_extend_set sz =
     (if sz < C_SLOT_1 then C_EXTEND_SET
      else if C_SLOT_1 \<le> sz \<and> sz < C_SLOT_2 then C_ALLOC_CAPCITY div sz
      else 1)"

text \<open>\<open>release_size(block_size, free_count, stub_count)\<close>: how many free blocks of a size to give back.\<close>

definition release_count :: "c_int \<Rightarrow> c_int \<Rightarrow> c_int \<Rightarrow> c_int \<Rightarrow> c_int" where
  "release_count water_mark block_size free_count stub_count =
     (if free_count * block_size < 1048576 then 0
      else if C_SLOT_2 < block_size then (if 1 < free_count then free_count div 2 else free_count)
      else if stub_count div 2 \<le> free_count \<or> water_mark \<le> free_count * block_size then free_count div 2
      else 0)"

section \<open>Operations\<close>

fun release_loop :: "nat \<Rightarrow> nat list \<Rightarrow> nat set \<Rightarrow> (nat list \<times> nat set) option" where
  "release_loop 0 l s = Some (l, s)"
| "release_loop (Suc n) [] s = None"
| "release_loop (Suc n) (p # l) s = release_loop n l (s - {p})"

text \<open>The list and the set that \<open>release\<close> is given are those of the size. A failed assertion is \<open>None\<close>.\<close>

definition mp_release :: "c_int \<Rightarrow> CMemPool \<Rightarrow> CMemPool option" where
  "mp_release sz p =
     do {
       l \<leftarrow> mp_free p sz;
       s \<leftarrow> mp_stub p sz;
       let todo_count = release_count (mp_water_mark p) sz (word_of_nat (length l)) (word_of_nat (card s));
       if todo_count = 0 then Some p
       else if mp_allocated_size p < sz * todo_count then None
       else do {
         (l, s) \<leftarrow> release_loop (unat todo_count) l s;
         Some (p\<lparr>mp_free := (mp_free p)(sz \<mapsto> l), mp_stub := (mp_stub p)(sz \<mapsto> s),
                 mp_allocated_size := mp_allocated_size p - sz * todo_count\<rparr>)
       }
     }"

function purge_loop :: "c_int \<Rightarrow> c_int \<Rightarrow> c_int \<Rightarrow> CMemPool \<Rightarrow> CMemPool option" where
  "purge_loop mem_size last_alloc_size purge_size p =
     (if last_alloc_size - mp_allocated_size p < mem_size \<and> C_SLOT_1 \<le> purge_size then
        let purge_size' = drop_bit 1 purge_size in
          if mp_stub p purge_size' = None then purge_loop mem_size last_alloc_size purge_size' p
          else if mp_free p purge_size' = None then purge_loop mem_size last_alloc_size purge_size' p
          else (case mp_release purge_size' p of None \<Rightarrow> None | Some p \<Rightarrow> purge_loop mem_size last_alloc_size purge_size' p)
      else Some p)"
  by auto
termination
proof (relation "measure (\<lambda>(_, _, purge_size, _). unat purge_size)")
  have "unat (drop_bit 1 w) < unat w" if "C_SLOT_1 \<le> w" for w :: c_int
    by (rule unat_half) (use that in auto)
  then show "\<And>m l w (p :: CMemPool) x. l - mp_allocated_size p < m \<and> C_SLOT_1 \<le> w \<Longrightarrow> x = drop_bit 1 w \<Longrightarrow> ((m, l, x, p), (m, l, w, p)) \<in> measure (\<lambda>(_, _, w, _). unat w)"
    "\<And>m l w (p :: CMemPool) x. l - mp_allocated_size p < m \<and> C_SLOT_1 \<le> w \<Longrightarrow> x = drop_bit 1 w \<Longrightarrow> ((m, l, x, p), (m, l, w, p)) \<in> measure (\<lambda>(_, _, w, _). unat w)"
    "\<And>m l w (p :: CMemPool) x q. l - mp_allocated_size p < m \<and> C_SLOT_1 \<le> w \<Longrightarrow> x = drop_bit 1 w \<Longrightarrow> ((m, l, x, q), (m, l, w, p)) \<in> measure (\<lambda>(_, _, w, _). unat w)"
    by auto
qed simp

declare purge_loop.simps [simp del]

definition release_size :: "c_int \<Rightarrow> CMemPool \<Rightarrow> (int \<times> CMemPool) option" where
  "release_size mem_size p =
     do {
       let p = p\<lparr>mp_water_mark := C_ALLOC_CAPCITY\<rparr>;
       let last_alloc_size = mp_allocated_size p;
       p \<leftarrow> purge_loop mem_size last_alloc_size 0x80000000 p;
       let p = p\<lparr>mp_water_mark := C_MAX_WATER_MARK\<rparr>;
       Some (if last_alloc_size - mp_allocated_size p < mem_size then -1 else 0, p)
     }"

fun extend_loop :: "nat \<Rightarrow> c_int \<Rightarrow> CMemPool \<Rightarrow> CMemPool option" where
  "extend_loop 0 sz p = Some p"
| "extend_loop (Suc n) sz p =
     do {
       l \<leftarrow> mp_free p sz;
       s \<leftarrow> mp_stub p sz;
       let a = mp_next p;
       extend_loop n sz (p\<lparr>mp_free := (mp_free p)(sz \<mapsto> a # l), mp_stub := (mp_stub p)(sz \<mapsto> insert a s), mp_next := Suc a\<rparr>)
     }"

definition extend :: "c_int \<Rightarrow> CMemPool \<Rightarrow> (int \<times> CMemPool) option" where
  "extend sz p =
     do {
       let extend_set = fit_extend_set sz;
       (ret, p) \<leftarrow> (if C_MAX_POOL_SIZE \<le> mp_allocated_size p + sz * extend_set
                  then release_size (mp_allocated_size p + sz * extend_set - C_MAX_POOL_SIZE) p else Some (0, p));
       if ret \<noteq> 0 then Some (-1, p)
       else do {
         p \<leftarrow> extend_loop (unat extend_set) sz p;
         Some (0, p\<lparr>mp_allocated_size := mp_allocated_size p + sz * extend_set\<rparr>)
       }
     }"

definition extend_new_size :: "c_int \<Rightarrow> CMemPool \<Rightarrow> (int \<times> CMemPool) option" where
  "extend_new_size sz p = extend sz (p\<lparr>mp_free := (mp_free p)(sz \<mapsto> []), mp_stub := (mp_stub p)(sz \<mapsto> {})\<rparr>)"

text \<open>The result is the address with the size of the block, or \<open>None\<close> for a null pointer.\<close>

definition allocate :: "c_int \<Rightarrow> CMemPool \<Rightarrow> ((nat \<times> c_int) option \<times> CMemPool) option" where
  "allocate sz p =
     do {
       block_size \<leftarrow> fit_block_size sz;
       (ret, p) \<leftarrow> (if mp_free p block_size = None then extend_new_size block_size p else Some (0, p));
       if ret \<noteq> 0 then Some (None, p)
       else (case mp_free p block_size of
           None \<Rightarrow> Some (None, p)
         | Some l \<Rightarrow> do {
             (ret, p) \<leftarrow> (if l = [] then extend block_size p else Some (0, p));
             if ret \<noteq> 0 then Some (None, p)
             else (case mp_free p block_size of
                 Some (a # l) \<Rightarrow> Some (Some (a, block_size), p\<lparr>mp_free := (mp_free p)(block_size \<mapsto> l)\<rparr>)
               | _ \<Rightarrow> Some (None, p))
           })
     }"

definition recycle :: "nat \<Rightarrow> c_int \<Rightarrow> CMemPool \<Rightarrow> (int \<times> CMemPool) option" where
  "recycle mem mem_size p =
     (case mp_stub p mem_size of
        None \<Rightarrow> Some (-1, p)
      | Some s \<Rightarrow>
          if mem \<notin> s then Some (-1, p)
          else (case mp_free p mem_size of
              None \<Rightarrow> Some (-1, p)
            | Some l \<Rightarrow> do { p \<leftarrow> mp_release mem_size (p\<lparr>mp_free := (mp_free p)(mem_size \<mapsto> mem # l)\<rparr>); Some (0, p) }))"

section \<open>Invariant\<close>

text \<open>The bytes of all blocks.\<close>

definition mp_total :: "CMemPool \<Rightarrow> nat" where
  "mp_total p = (\<Sum>k \<in> dom (mp_stub p). unat k * card (the (mp_stub p k)))"

text \<open>Free blocks are blocks of the pool and listed once, no block has two sizes, addresses to come are new, and the size that the pool
  accounts for is the size of its blocks and at most the maximum.\<close>

definition blocks_ok :: "CMemPool \<Rightarrow> bool" where
  "blocks_ok p \<longleftrightarrow> (\<forall>k l s. mp_free p k = Some l \<longrightarrow> mp_stub p k = Some s \<longrightarrow>
     distinct l \<and> set l \<subseteq> s \<and> finite s \<and> (\<forall>a \<in> s. a < mp_next p))"

definition sizes_ok :: "CMemPool \<Rightarrow> bool" where
  "sizes_ok p \<longleftrightarrow> (\<forall>k k' s s'. mp_stub p k = Some s \<longrightarrow> mp_stub p k' = Some s' \<longrightarrow> k \<noteq> k' \<longrightarrow> s \<inter> s' = {})"

definition pool_ok :: "CMemPool \<Rightarrow> bool" where
  "pool_ok p \<longleftrightarrow> finite (dom (mp_stub p)) \<and> dom (mp_free p) = dom (mp_stub p) \<and> blocks_ok p \<and> sizes_ok p \<and>
     unat (mp_allocated_size p) = mp_total p \<and> mp_total p \<le> 2097152000"

text \<open>The blocks handed out: those of the pool that are not free.\<close>

definition in_use :: "CMemPool \<Rightarrow> (nat \<times> c_int) set" where
  "in_use p = {(a, k). \<exists>l s. mp_free p k = Some l \<and> mp_stub p k = Some s \<and> a \<in> s \<and> a \<notin> set l}"

lemma pool_ok_new: "pool_ok CMemPool_new" "in_use CMemPool_new = {}"
  by (simp_all add: pool_ok_def CMemPool_new_def mp_total_def in_use_def blocks_ok_def sizes_ok_def)

lemma pool_okD:
  assumes "pool_ok p"
  shows "finite (dom (mp_stub p))" "dom (mp_free p) = dom (mp_stub p)" "blocks_ok p" "sizes_ok p"
    "unat (mp_allocated_size p) = mp_total p" "mp_total p \<le> 2097152000"
  using assms by (simp_all add: pool_ok_def)

lemma pool_ok_stub:
  assumes "pool_ok p" "mp_free p k = Some l"
  obtains s where "mp_stub p k = Some s" "distinct l" "set l \<subseteq> s" "finite s" "\<forall>a \<in> s. a < mp_next p"
proof -
  have "k \<in> dom (mp_stub p)" using assms(2) pool_okD(2) [OF assms(1)] by auto
  then obtain s where "mp_stub p k = Some s" by auto
  then show ?thesis using that pool_okD(3) [OF assms(1)] assms(2) unfolding blocks_ok_def by blast
qed

text \<open>Replacing the free list and the blocks of one size.\<close>

definition mp_set :: "c_int \<Rightarrow> nat list \<Rightarrow> nat set \<Rightarrow> c_int \<Rightarrow> nat \<Rightarrow> CMemPool \<Rightarrow> CMemPool" where
  "mp_set k l s A N p = p\<lparr>mp_free := (mp_free p)(k \<mapsto> l), mp_stub := (mp_stub p)(k \<mapsto> s), mp_allocated_size := A, mp_next := N\<rparr>"

lemma mp_total_set:
  assumes "finite (dom (mp_stub p))" "mp_stub p k = Some s"
  shows "mp_total (mp_set k l s' A N p) + unat k * card s = mp_total p + unat k * card s'"
proof -
  let ?D = "dom (mp_stub p) - {k}" and ?q = "mp_set k l s' A N p"
  have k: "k \<in> dom (mp_stub p)" "dom (mp_stub ?q) = dom (mp_stub p)" using assms(2) by (auto simp: mp_set_def)
  have "mp_total p = unat k * card s + (\<Sum>j \<in> ?D. unat j * card (the (mp_stub p j)))"
    unfolding mp_total_def using sum.remove [OF assms(1) k(1), of "\<lambda>j. unat j * card (the (mp_stub p j))"] assms(2) by simp
  moreover have "mp_total ?q = unat k * card s' + (\<Sum>j \<in> ?D. unat j * card (the (mp_stub ?q j)))"
    unfolding mp_total_def k(2)
    using sum.remove [OF assms(1) k(1), of "\<lambda>j. unat j * card (the (mp_stub ?q j))"] by (simp add: mp_set_def)
  moreover have "(\<Sum>j \<in> ?D. unat j * card (the (mp_stub ?q j))) = (\<Sum>j \<in> ?D. unat j * card (the (mp_stub p j)))"
    by (rule sum.cong) (auto simp: mp_set_def)
  ultimately show ?thesis by simp
qed

text \<open>The invariant after such a replacement, and what it hands out or takes back.\<close>

lemma mp_set_ok:
  assumes ok: "pool_ok p" and l: "mp_free p k = Some l" "mp_stub p k = Some s"
    and new: "distinct l'" "set l' \<subseteq> s'" "finite s'" "\<forall>a \<in> s'. a \<in> s \<or> mp_next p \<le> a \<and> a < N" "mp_next p \<le> N"
    and A: "unat A = mp_total (mp_set k l' s' A N p)" "mp_total (mp_set k l' s' A N p) \<le> 2097152000"
  shows "pool_ok (mp_set k l' s' A N p)"
    and "in_use (mp_set k l' s' A N p) = {(a, j) \<in> in_use p. j \<noteq> k} \<union> {(a, k) |a. a \<in> s' \<and> a \<notin> set l'}"
proof -
  let ?q = "mp_set k l' s' A N p"
  note P = pool_okD [OF ok]
  have B: "distinct l \<and> set l \<subseteq> s \<and> finite s \<and> (\<forall>a \<in> s. a < mp_next p)" using P(3) l unfolding blocks_ok_def by blast
  have "blocks_ok ?q"
    unfolding blocks_ok_def
  proof (intro allI impI)
    fix j lj sj assume j: "mp_free ?q j = Some lj" "mp_stub ?q j = Some sj"
    show "distinct lj \<and> set lj \<subseteq> sj \<and> finite sj \<and> (\<forall>a \<in> sj. a < mp_next ?q)"
    proof (cases "j = k")
      case True
      then show ?thesis using j new B by (fastforce simp: mp_set_def)
    next
      case False
      then have "distinct lj \<and> set lj \<subseteq> sj \<and> finite sj \<and> (\<forall>a \<in> sj. a < mp_next p)"
        using P(3) j unfolding blocks_ok_def mp_set_def by simp
      then show ?thesis using new(5) by (auto simp: mp_set_def)
    qed
  qed
  moreover have dj: "s' \<inter> sj = {}" if "mp_stub p j = Some sj" "j \<noteq> k" for j sj
  proof -
    have "s \<inter> sj = {}" using P(4) l(2) that unfolding sizes_ok_def by blast
    moreover have "j \<in> dom (mp_free p)" unfolding P(2) using that(1) by (rule domI)
    then obtain lj where "mp_free p j = Some lj" by blast
    then have "\<forall>a \<in> sj. a < mp_next p" using P(3) that(1) unfolding blocks_ok_def by blast
    ultimately show ?thesis using new(4) by fastforce
  qed
  have "sizes_ok ?q"
    unfolding sizes_ok_def
  proof (intro allI impI)
    fix j i sj si assume j: "mp_stub ?q j = Some sj" "mp_stub ?q i = Some si" "j \<noteq> i"
    consider "j = k" | "i = k" | "j \<noteq> k" "i \<noteq> k" by blast
    then show "sj \<inter> si = {}"
    proof cases
      case 1
      then show ?thesis using dj [of i si] j by (simp add: mp_set_def)
    next
      case 2
      then show ?thesis using dj [of j sj] j by (simp add: mp_set_def inf_commute)
    next
      case 3
      then show ?thesis using P(4) j unfolding sizes_ok_def mp_set_def by simp
    qed
  qed
  moreover have "finite (dom (mp_stub ?q))" "dom (mp_free ?q) = dom (mp_stub ?q)" using P(1,2) by (simp_all add: mp_set_def)
  moreover have "mp_allocated_size ?q = A" by (simp add: mp_set_def)
  ultimately show "pool_ok ?q" using A by (simp add: pool_ok_def)
  show "in_use ?q = {(a, j) \<in> in_use p. j \<noteq> k} \<union> {(a, k) |a. a \<in> s' \<and> a \<notin> set l'}"
  proof (rule set_eqI)
    fix x :: "nat \<times> c_int"
    obtain a j where x: "x = (a, j)" by (cases x)
    show "x \<in> in_use ?q \<longleftrightarrow> x \<in> {(a, j) \<in> in_use p. j \<noteq> k} \<union> {(a, k) |a. a \<in> s' \<and> a \<notin> set l'}"
      unfolding x by (cases "j = k") (simp_all add: in_use_def mp_set_def)
  qed
qed

lemma release_loop_ok:
  "n \<le> length l \<Longrightarrow> release_loop n l s = Some (drop n l, s - set (take n l))"
proof (induction n l s rule: release_loop.induct)
  case (3 n p l s)
  have "s - {p} - set (take n l) = s - insert p (set (take n l))" by blast
  then show ?case using 3 by simp
qed simp_all

lemma release_count_le: "unat (release_count wm k f st) \<le> unat f"
proof -
  have d: "unat (f div 2) \<le> unat f" by (simp add: unat_div)
  then show ?thesis by (simp add: release_count_def)
qed

text \<open>Giving back free blocks: the blocks in use stay, the total does not grow.\<close>

definition shrunk :: "CMemPool \<Rightarrow> CMemPool \<Rightarrow> bool" where
  "shrunk p q \<longleftrightarrow> pool_ok q \<and> in_use q = in_use p \<and> mp_total q \<le> mp_total p \<and> mp_next q = mp_next p \<and> dom (mp_free q) = dom (mp_free p)"

lemma shrunk_trans: "shrunk p q \<Longrightarrow> shrunk q r \<Longrightarrow> shrunk p r"
  by (auto simp: shrunk_def)

lemma shrunk_refl: "pool_ok p \<Longrightarrow> shrunk p p"
  by (simp add: shrunk_def)

lemma water_mark_ok [simp]:
  "mp_total (p\<lparr>mp_water_mark := v\<rparr>) = mp_total p" "pool_ok (p\<lparr>mp_water_mark := v\<rparr>) = pool_ok p" "in_use (p\<lparr>mp_water_mark := v\<rparr>) = in_use p"
  "shrunk (p\<lparr>mp_water_mark := v\<rparr>) q = shrunk p q" "shrunk p (q\<lparr>mp_water_mark := v\<rparr>) = shrunk p q"
  by (simp_all add: mp_total_def pool_ok_def blocks_ok_def sizes_ok_def in_use_def shrunk_def)

lemma unat_times:
  fixes a b :: c_int
  shows "unat a * unat b < 2 ^ 32 \<Longrightarrow> unat (a * b) = unat a * unat b"
  by (simp add: unat_word_ariths)

lemma mp_release_ok:
  assumes ok: "pool_ok p" and l: "mp_free p k = Some l"
  shows "\<exists>q. mp_release k p = Some q \<and> shrunk p q"
proof -
  obtain s where s: "mp_stub p k = Some s" "distinct l" "set l \<subseteq> s" "finite s" "\<forall>a \<in> s. a < mp_next p" by (rule pool_ok_stub [OF ok l])
  note P = pool_okD [OF ok]
  define todo where "todo = release_count (mp_water_mark p) k (word_of_nat (length l)) (word_of_nat (card s))"
  define c where "c = unat todo"
  have "c \<le> unat (word_of_nat (length l) :: c_int)" unfolding c_def todo_def by (rule release_count_le)
  also have "\<dots> \<le> length l" by (simp add: unat_of_nat)
  finally have c: "c \<le> length l" .
  have ls: "length l \<le> card s" using s(2,3,4) by (metis card_mono distinct_card)
  let ?l = "drop c l" and ?s = "s - set (take c l)"
  have t: "set (take c l) \<subseteq> s" "card (set (take c l)) = c"
    using s(2,3) c by (auto dest: in_set_takeD simp: distinct_card)
  have cs: "card ?s = card s - c" using t by (simp add: card_Diff_subset)
  have ks: "unat k * card s \<le> mp_total p"
    unfolding mp_total_def using member_le_sum [of k "dom (mp_stub p)" "\<lambda>j. unat j * card (the (mp_stub p j))"] s(1) P(1) by auto
  have kc: "unat k * c \<le> unat k * card s" using c ls by simp
  have kp: "unat k * c \<le> mp_total p" by (rule le_trans [OF kc ks])
  have "unat k * c \<le> 2097152000" by (rule le_trans [OF kp P(6)])
  then have "unat k * c < 2 ^ 32" by (rule le_less_trans) simp
  then have m: "unat (k * todo) = unat k * c" unfolding c_def by (rule unat_times)
  define A where "A = mp_allocated_size p - k * todo"
  have le: "k * todo \<le> mp_allocated_size p" unfolding word_le_nat_alt m P(5) by (rule kp)
  have A: "unat A = mp_total p - unat k * c" unfolding A_def using unat_sub [OF le] m P(5) by simp
  let ?q = "mp_set k ?l ?s A (mp_next p) p"
  have tot: "mp_total ?q = mp_total p - unat k * c"
  proof -
    have "mp_total ?q + unat k * card s = mp_total p + unat k * (card s - c)" using mp_total_set [OF P(1) s(1), of ?l ?s A "mp_next p"] cs by simp
    moreover have "unat k * (card s - c) = unat k * card s - unat k * c" by (rule diff_mult_distrib2)
    ultimately show ?thesis using kp kc by simp
  qed
  show ?thesis
  proof (cases "todo = 0")
    case True
    then have "mp_release k p = Some p" using l s(1) by (simp add: mp_release_def todo_def)
    then show ?thesis using shrunk_refl [OF ok] by blast
  next
    case False
    have sub: "set ?l \<subseteq> ?s"
    proof
      fix a assume "a \<in> set ?l"
      then have "a \<in> set l" "a \<notin> set (take c l)" using s(2) using set_take_disj_set_drop_if_distinct [OF s(2), of c c] by (auto dest: in_set_dropD)
      then show "a \<in> ?s" using s(3) by blast
    qed
    have "mp_release k p = Some (p\<lparr>mp_free := (mp_free p)(k \<mapsto> ?l), mp_stub := (mp_stub p)(k \<mapsto> ?s), mp_allocated_size := A\<rparr>)"
      using l s(1) False le release_loop_ok [OF c, of s] by (simp add: mp_release_def A_def Let_def flip: todo_def c_def)
    also have "p\<lparr>mp_free := (mp_free p)(k \<mapsto> ?l), mp_stub := (mp_stub p)(k \<mapsto> ?s), mp_allocated_size := A\<rparr> = ?q"
      by (cases p) (simp add: mp_set_def)
    finally have "mp_release k p = Some ?q" .
    moreover have iu: "in_use ?q = in_use p"
    proof -
      have "in_use ?q = {(a, j) \<in> in_use p. j \<noteq> k} \<union> {(a, k) |a. a \<in> ?s \<and> a \<notin> set ?l}"
        by (rule mp_set_ok(2) [OF ok l s(1)]) (use s sub A tot P(6) in auto)
      moreover have "a \<in> ?s \<and> a \<notin> set ?l \<longleftrightarrow> a \<in> s \<and> a \<notin> set l" for a by (metis Diff_iff Un_iff append_take_drop_id set_append)
      ultimately show ?thesis using l s(1) by (auto simp: in_use_def)
    qed
    moreover have "pool_ok ?q" by (rule mp_set_ok(1) [OF ok l s(1)]) (use s sub A tot P(6) in auto)
    moreover have "mp_next ?q = mp_next p" "dom (mp_free ?q) = dom (mp_free p)" using l by (auto simp: mp_set_def)
    ultimately show ?thesis using tot unfolding shrunk_def by (metis diff_le_self)
  qed
qed


lemma purge_loop_ok:
  "pool_ok p \<Longrightarrow> \<exists>q. purge_loop m a z p = Some q \<and> shrunk p q"
proof (induction m a z p rule: purge_loop.induct)
  case (1 m a z p)
  let ?z = "drop_bit 1 z"
  show ?case
  proof (cases "a - mp_allocated_size p < m \<and> C_SLOT_1 \<le> z")
    case go: True
    show ?thesis
    proof (cases "mp_stub p ?z = None \<or> mp_free p ?z = None")
      case True
      then have "purge_loop m a z p = purge_loop m a ?z p" using go
        by (elim disjE) (subst purge_loop.simps; simp only: Let_def if_True if_cancel simp_thms)+
      then show ?thesis using 1(1) [OF go refl _ 1(4)] 1(2) [OF go refl _ _ 1(4)] True by metis
    next
      case False
      then obtain l where l: "mp_free p ?z = Some l" by blast
      obtain q where q: "mp_release ?z p = Some q" "shrunk p q" using mp_release_ok [OF 1(4) l] by blast
      have "pool_ok q" using q(2) by (simp only: shrunk_def)
      then have "\<exists>r. purge_loop m a ?z q = Some r \<and> shrunk q r" using 1(3) [OF go refl _ _ q(1)] False by simp
      then obtain r where r: "purge_loop m a ?z q = Some r" "shrunk q r" by blast
      have "purge_loop m a z p = Some r" using go False q(1) r(1) by (subst purge_loop.simps) (simp only: Let_def if_True if_False simp_thms option.case de_Morgan_disj)
      then show ?thesis using shrunk_trans [OF q(2) r(2)] by blast
    qed
  next
    case False
    then have "purge_loop m a z p = Some p" by (subst purge_loop.simps) (simp only: if_False)
    then show ?thesis using shrunk_refl [OF 1(4)] by blast
  qed
qed

text \<open>Giving back under pressure: when it succeeds, at least the bytes asked for are free.\<close>

lemma release_size_ok:
  assumes ok: "pool_ok p"
  shows "\<exists>r q. release_size m p = Some (r, q) \<and> shrunk p q \<and> (r = 0 \<longrightarrow> mp_total q + unat m \<le> mp_total p)"
proof -
  let ?p = "p\<lparr>mp_water_mark := C_ALLOC_CAPCITY\<rparr>"
  have "pool_ok ?p" using ok by simp
  then obtain q where q: "purge_loop m (mp_allocated_size p) 0x80000000 ?p = Some q" "shrunk ?p q" using purge_loop_ok by blast
  let ?d = "mp_allocated_size p - mp_allocated_size q"
  have s: "shrunk p q" using q(2) by simp
  then have t: "mp_total q \<le> mp_total p" "pool_ok q" by (simp_all add: shrunk_def)
  have "mp_allocated_size q \<le> mp_allocated_size p"
    using t pool_okD(5) [OF ok] pool_okD(5) [OF t(2)] by (simp add: word_le_nat_alt)
  then have d: "unat ?d = mp_total p - mp_total q"
    using pool_okD(5) [OF ok] pool_okD(5) [OF t(2)] by (simp add: unat_sub)
  have "release_size m p = Some (if ?d < m then -1 else 0, q\<lparr>mp_water_mark := C_MAX_WATER_MARK\<rparr>)"
    using q(1) by (simp add: release_size_def)
  moreover have "\<not> ?d < m \<Longrightarrow> mp_total q + unat m \<le> mp_total p" using d t(1) by (simp add: word_less_nat_alt)
  ultimately show ?thesis using s by (cases "?d < m") simp_all
qed

text \<open>Sizes that \<open>fit_block_size\<close> returns, and the number of blocks to add for each.\<close>

lemma fit_loop_bits: "2 ^ (n - 1) \<le> unat sz \<Longrightarrow> unat sz < 2 ^ n \<Longrightarrow> 0 < n \<Longrightarrow> fit_loop i sz = i + n"
proof (induction n arbitrary: i sz)
  case (Suc n)
  have nz: "sz \<noteq> 0" using Suc.prems(1) by (auto simp: not_le)
  have h: "unat (drop_bit 1 sz) = unat sz div 2" using unat_drop_bit [of 1 sz] by simp
  show ?case
  proof (cases n)
    case 0
    then have "unat (drop_bit 1 sz) = 0" using Suc.prems(2) h by simp
    then show ?thesis using nz 0 by (simp add: fit_loop.simps unat_eq_0)
  next
    case (Suc m)
    then have "2 ^ (n - 1) \<le> unat (drop_bit 1 sz)" "unat (drop_bit 1 sz) < 2 ^ n" using Suc.prems h by simp_all
    then have "fit_loop (Suc i) (drop_bit 1 sz) = Suc i + n" by (rule Suc.IH) (simp add: Suc)
    then show ?thesis using nz by (subst fit_loop.simps) simp
  qed
qed simp

lemma len32: "LENGTH(32) = 32"
  by simp

lemma fit_block_size_ok:
  assumes "unat sz < 2 ^ 31"
  shows "\<exists>k. fit_block_size sz = Some k \<and> unat sz < unat k \<and> unat k \<le> 2 ^ 31"
proof (cases "drop_bit 10 sz = 0")
  case True
  then have "unat sz div 2 ^ 10 = 0" using unat_drop_bit [of 10 sz] by simp
  then show ?thesis using True by (simp add: fit_block_size_def fit_loop.simps Let_def push_bit_eq_mult div_eq_0_iff)
next
  case False
  let ?t = "drop_bit 10 sz"
  have t: "unat ?t = unat sz div 2 ^ 10" by (rule unat_drop_bit)
  have "unat ?t < 2 ^ 21" unfolding t using assms by (simp add: less_mult_imp_div_less)
  moreover have "0 < unat ?t" using False by (simp add: unat_gt_0)
  then obtain m where m: "2 ^ m \<le> unat ?t" "unat ?t < 2 ^ Suc m" using ex_power_ivl1 [of 2 "unat ?t"] by auto
  ultimately have "(2::nat) ^ m < 2 ^ 21" by linarith
  then have m21: "m < 21" by (rule power_less_imp_less_exp [rotated]) simp
  have l: "fit_loop 10 ?t = 10 + Suc m" by (rule fit_loop_bits) (use m in simp_all)
  have k: "fit_block_size sz = Some (push_bit (11 + m) 1)" using l m21 by (simp add: fit_block_size_def Let_def)
  have u: "unat (push_bit (11 + m) (1 :: c_int)) = 2 ^ (11 + m)"
  proof -
    have "(2::nat) ^ (11 + m) < 2 ^ 32" by (rule power_strict_increasing) (use m21 in simp_all)
    then have "unat (word_of_nat (2 ^ (11 + m)) :: c_int) = 2 ^ (11 + m)" by (simp only: unat_of_nat mod_less len32)
    moreover have "push_bit (11 + m) (1 :: c_int) = word_of_nat (2 ^ (11 + m))" by (simp add: push_bit_eq_mult)
    ultimately show ?thesis by simp
  qed
  have "unat sz div 2 ^ 10 < 2 ^ Suc m" using m(2) t by simp
  then have "unat sz < 2 ^ Suc m * 2 ^ 10" by (simp only: div_less_iff_less_mult zero_less_power zero_less_numeral)
  also have "\<dots> = 2 ^ (11 + m)" by (simp add: power_add)
  finally have "unat sz < 2 ^ (11 + m)" .
  moreover have "(2::nat) ^ (11 + m) \<le> 2 ^ 31" by (rule power_increasing) (use m21 in simp_all)
  ultimately show ?thesis using k u by simp
qed

lemma fit_extend_set_ok:
  assumes "0 < unat k" "unat k \<le> 2 ^ 31"
  shows "unat (k * fit_extend_set k) = unat k * unat (fit_extend_set k)" "unat k * unat (fit_extend_set k) \<le> 2 ^ 31" "0 < unat (fit_extend_set k)"
proof -
  have "unat k * unat (fit_extend_set k) \<le> 2 ^ 31 \<and> 0 < unat (fit_extend_set k)"
  proof -
    consider "k < C_SLOT_1" | "C_SLOT_1 \<le> k" "k < C_SLOT_2" | "C_SLOT_2 \<le> k" by fastforce
    then show ?thesis
    proof cases
      case 1
      then show ?thesis by (simp add: fit_extend_set_def word_less_nat_alt)
    next
      case 2
      then have "unat (fit_extend_set k) = 134217728 div unat k" by (simp add: fit_extend_set_def unat_div)
      moreover have "unat k * (134217728 div unat k) \<le> 2 ^ 31" by (rule le_trans [OF times_div_less_eq_dividend]) simp
      moreover have "0 < 134217728 div unat k" using 2 assms(1) by (simp add: div_greater_zero_iff word_less_nat_alt)
      ultimately show ?thesis by (simp only:)
    next
      case 3
      then have "fit_extend_set k = 1" by (simp add: fit_extend_set_def word_le_nat_alt word_less_nat_alt)
      then show ?thesis using assms by simp
    qed
  qed
  then show "unat k * unat (fit_extend_set k) \<le> 2 ^ 31" "0 < unat (fit_extend_set k)" by simp_all
  then have "unat k * unat (fit_extend_set k) < 2 ^ 32" by simp
  then show "unat (k * fit_extend_set k) = unat k * unat (fit_extend_set k)" by (rule unat_times)
qed

lemma extend_loop_ok:
  "mp_free p k = Some l \<Longrightarrow> mp_stub p k = Some s \<Longrightarrow>
   extend_loop n k p = Some (mp_set k (rev [mp_next p..<mp_next p + n] @ l) (s \<union> {mp_next p..<mp_next p + n}) (mp_allocated_size p) (mp_next p + n) p)"
proof (induction n arbitrary: p l s)
  case 0
  then show ?case by (cases p) (simp add: mp_set_def map_upd_triv)
next
  case (Suc n)
  let ?a = "mp_next p"
  let ?q = "p\<lparr>mp_free := (mp_free p)(k \<mapsto> ?a # l), mp_stub := (mp_stub p)(k \<mapsto> insert ?a s), mp_next := Suc ?a\<rparr>"
  have E: "rev [Suc ?a..<Suc ?a + n] @ ?a # l = rev [?a..<?a + Suc n] @ l" by (simp add: upt_conv_Cons del: upt_Suc)
  have S: "insert ?a s \<union> {Suc ?a..<Suc ?a + n} = s \<union> {?a..<?a + Suc n}" by (auto simp: Suc_le_eq le_less)
  have "extend_loop n k ?q = Some (mp_set k (rev [Suc ?a..<Suc ?a + n] @ ?a # l) (insert ?a s \<union> {Suc ?a..<Suc ?a + n}) (mp_allocated_size p) (Suc ?a + n) ?q)"
    using Suc.IH [of ?q "?a # l" "insert ?a s"] by simp
  then have "extend_loop n k ?q = Some (mp_set k (rev [?a..<?a + Suc n] @ l) (s \<union> {?a..<?a + Suc n}) (mp_allocated_size p) (Suc ?a + n) ?q)"
    unfolding E S .
  then show ?case using Suc.prems by (simp add: mp_set_def Let_def del: upt_Suc rev_append)
qed

text \<open>Adding blocks: those in use stay as they are, and there is a free block afterwards unless the call fails.\<close>

lemma extend_ok:
  assumes ok: "pool_ok p" and l: "mp_free p k = Some l" and k: "0 < unat k" "unat k \<le> 2 ^ 31"
  shows "\<exists>r q. extend k p = Some (r, q) \<and> pool_ok q \<and> in_use q = in_use p \<and> mp_free q k \<noteq> None \<and> (r = 0 \<longrightarrow> mp_free q k \<noteq> Some [])"
proof -
  define n where "n = unat (fit_extend_set k)"
  define K where "K = k * fit_extend_set k"
  note F = fit_extend_set_ok [OF k, folded n_def K_def]
  define sum where "sum = mp_allocated_size p + K"
  have sum: "unat sum = mp_total p + unat K"
    using F(1,2) pool_okD(5,6) [OF ok] by (simp add: sum_def unat_word_ariths)
  define R where "R = (if C_MAX_POOL_SIZE \<le> sum then release_size (sum - C_MAX_POOL_SIZE) p else Some (0, p))"
  have "\<exists>r q. R = Some (r, q) \<and> shrunk p q \<and> (r = 0 \<longrightarrow> mp_total q + unat K \<le> 2097152000)"
  proof (cases "C_MAX_POOL_SIZE \<le> sum")
    case True
    obtain r q where q: "release_size (sum - C_MAX_POOL_SIZE) p = Some (r, q)" "shrunk p q"
      "r = 0 \<longrightarrow> mp_total q + unat (sum - C_MAX_POOL_SIZE) \<le> mp_total p" using release_size_ok [OF ok] by blast
    moreover have "unat (sum - C_MAX_POOL_SIZE) = mp_total p + unat K - 2097152000" using unat_sub [OF True] sum by simp
    ultimately show ?thesis using True sum by (auto simp: R_def word_le_nat_alt)
  next
    case False
    then have "R = Some (0, p)" by (simp add: R_def)
    moreover have "unat sum < 2097152000" using False by (simp add: not_le word_less_nat_alt)
    ultimately show ?thesis using shrunk_refl [OF ok] sum by simp
  qed
  then obtain r q where q: "R = Some (r, q)" "shrunk p q" "r = 0 \<Longrightarrow> mp_total q + unat K \<le> 2097152000" by blast
  have ok': "pool_ok q" and iu: "in_use q = in_use p" and d: "dom (mp_free q) = dom (mp_free p)" using q(2) by (simp_all add: shrunk_def)
  obtain l' where l': "mp_free q k = Some l'" using d l by blast
  then obtain s where s: "mp_stub q k = Some s" "distinct l'" "set l' \<subseteq> s" "finite s" "\<forall>a \<in> s. a < mp_next q" by (rule pool_ok_stub [OF ok'])
  have E: "extend k p = (case R of None \<Rightarrow> None | Some (r, p) \<Rightarrow> if r \<noteq> 0 then Some (-1, p)
      else (case extend_loop n k p of None \<Rightarrow> None | Some p \<Rightarrow> Some (0, p\<lparr>mp_allocated_size := mp_allocated_size p + K\<rparr>)))"
    by (simp add: extend_def Let_def R_def sum_def n_def K_def split: option.split cong: option.case_cong)
  show ?thesis
  proof (cases "r = 0")
    case False
    then show ?thesis using E q(1) ok' iu l' by simp
  next
    case True
    let ?N = "mp_next q + n" and ?l = "rev [mp_next q..<mp_next q + n] @ l'" and ?s = "s \<union> {mp_next q..<mp_next q + n}"
    let ?A = "mp_allocated_size q + K"
    let ?r = "mp_set k ?l ?s ?A ?N q"
    have ex: "extend k p = Some (0, ?r)" using E q(1) True extend_loop_ok [OF l' s(1), of n] by (simp add: mp_set_def)
    have tot: "mp_total ?r = mp_total q + unat K"
    proof -
      have "card ?s = card s + n" using s(4,5) by (subst card_Un_disjoint) (auto simp: not_le)
      then show ?thesis using mp_total_set [OF pool_okD(1) [OF ok'] s(1), of ?l ?s ?A ?N] F(1) by (simp add: distrib_left)
    qed
    have A: "unat ?A = mp_total ?r"
      using tot q(3) [OF True] pool_okD(5) [OF ok'] by (simp add: unat_word_ariths)
    have "\<not> a \<in> set l'" if "mp_next q \<le> a" for a using s(3,5) that by fastforce
    then have D: "distinct ?l" "set ?l \<subseteq> ?s" "finite ?s" "\<forall>a \<in> ?s. a \<in> s \<or> mp_next q \<le> a \<and> a < ?N" "mp_next q \<le> ?N"
      using s by auto
    have le: "mp_total ?r \<le> 2097152000" using tot q(3) [OF True] by simp
    note M = mp_set_ok [OF ok' l' s(1) D A le]
    have "\<not> mp_next q \<le> a" if "a \<in> s" for a using s(5) that by (simp add: not_le)
    then have "in_use q = {(a, j) \<in> in_use q. j \<noteq> k} \<union> {(a, k) |a. a \<in> ?s \<and> a \<notin> set ?l}"
      using l' s(1) by (auto simp: in_use_def)
    moreover have "mp_free ?r k = Some ?l" by (simp add: mp_set_def)
    ultimately show ?thesis using ex iu F(3) M by auto
  qed
qed

lemma extend_new_size_ok:
  assumes ok: "pool_ok p" and l: "mp_free p k = None" and k: "0 < unat k" "unat k \<le> 2 ^ 31"
  shows "\<exists>r q. extend_new_size k p = Some (r, q) \<and> pool_ok q \<and> in_use q = in_use p \<and> mp_free q k \<noteq> None \<and> (r = 0 \<longrightarrow> mp_free q k \<noteq> Some [])"
proof -
  let ?p = "p\<lparr>mp_free := (mp_free p)(k \<mapsto> []), mp_stub := (mp_stub p)(k \<mapsto> {})\<rparr>"
  note P = pool_okD [OF ok]
  have s: "mp_stub p k = None" using P(2) l by auto
  have "dom (mp_stub ?p) = insert k (dom (mp_stub p))" by simp
  then have "mp_total ?p = (\<Sum>j \<in> dom (mp_stub p). unat j * card (the (mp_stub ?p j)))"
    unfolding mp_total_def using P(1) s by (simp only:, subst sum.insert) auto
  also have "\<dots> = mp_total p" unfolding mp_total_def using s by (intro sum.cong) (auto split: if_splits)
  finally have t: "mp_total ?p = mp_total p" .
  have "blocks_ok ?p" using P(3) unfolding blocks_ok_def by simp
  moreover have "sizes_ok ?p" using P(4) unfolding sizes_ok_def by simp
  ultimately have "pool_ok ?p" using P t by (simp add: pool_ok_def)
  moreover have "in_use ?p = in_use p" using l by (auto simp: in_use_def)
  moreover have "mp_free ?p k = Some []" by simp
  ultimately show ?thesis unfolding extend_new_size_def using extend_ok [OF _ _ k] by metis
qed

text \<open>Allocation: the block is large enough, was not in use under any size, and is in use from now on; a null pointer changes nothing.\<close>

lemma allocate_ok:
  assumes ok: "pool_ok p" and sz: "unat sz < 2 ^ 31"
  shows "\<exists>r q. allocate sz p = Some (r, q) \<and> pool_ok q \<and>
    (case r of None \<Rightarrow> in_use q = in_use p
     | Some (a, k) \<Rightarrow> unat sz < unat k \<and> (\<forall>j. (a, j) \<notin> in_use p) \<and> in_use q = insert (a, k) (in_use p))"
proof -
  obtain k where k: "fit_block_size sz = Some k" "unat sz < unat k" "unat k \<le> 2 ^ 31" using fit_block_size_ok [OF sz] by blast
  have k0: "0 < unat k" using k(2) by simp
  define R1 where "R1 = (if mp_free p k = None then extend_new_size k p else Some (0, p))"
  have "\<exists>r q. R1 = Some (r, q) \<and> pool_ok q \<and> in_use q = in_use p \<and> mp_free q k \<noteq> None"
    unfolding R1_def using extend_new_size_ok [OF ok _ k0 k(3)] ok by (cases "mp_free p k") auto
  then obtain r1 q1 l1 where q1: "R1 = Some (r1, q1)" "pool_ok q1" "in_use q1 = in_use p" "mp_free q1 k = Some l1" by blast
  define R2 where "R2 = (if l1 = [] then extend k q1 else Some (0, q1))"
  have "\<exists>r q l. R2 = Some (r, q) \<and> pool_ok q \<and> in_use q = in_use p \<and> mp_free q k = Some l \<and> (r = 0 \<longrightarrow> l \<noteq> [])"
    unfolding R2_def using extend_ok [OF q1(2,4) k0 k(3)] q1 by (cases "l1 = []") auto
  then obtain r2 q2 l2 where q2: "R2 = Some (r2, q2)" "pool_ok q2" "in_use q2 = in_use p" "mp_free q2 k = Some l2" "r2 = 0 \<longrightarrow> l2 \<noteq> []" by blast
  have E: "allocate sz p = (if r1 \<noteq> 0 then Some (None, q1) else if r2 \<noteq> 0 then Some (None, q2)
      else (case l2 of a # l \<Rightarrow> Some (Some (a, k), q2\<lparr>mp_free := (mp_free q2)(k \<mapsto> l)\<rparr>) | _ \<Rightarrow> Some (None, q2)))"
    using k(1) q1(1,4) q2(1,4) by (simp add: allocate_def R1_def R2_def split: list.split cong: if_cong)
  show ?thesis
  proof (cases "r1 = 0 \<and> r2 = 0")
    case True
    then obtain a l where l: "l2 = a # l" using q2(5) by (cases l2) auto
    obtain s where s: "mp_stub q2 k = Some s" "distinct l2" "set l2 \<subseteq> s" "finite s" "\<forall>a \<in> s. a < mp_next q2" by (rule pool_ok_stub [OF q2(2,4)])
    let ?q = "mp_set k l s (mp_allocated_size q2) (mp_next q2) q2"
    have eq: "q2\<lparr>mp_free := (mp_free q2)(k \<mapsto> l)\<rparr> = ?q" using s(1) by (cases q2) (simp add: mp_set_def map_upd_triv)
    have tot: "mp_total ?q = mp_total q2" using mp_total_set [OF pool_okD(1) [OF q2(2)] s(1), of l s] by simp
    have Q: "distinct l" "set l \<subseteq> s" "finite s" "\<forall>a \<in> s. a \<in> s \<or> mp_next q2 \<le> a \<and> a < mp_next q2" "mp_next q2 \<le> mp_next q2"
      "unat (mp_allocated_size q2) = mp_total ?q" "mp_total ?q \<le> 2097152000"
      using s l tot pool_okD(5,6) [OF q2(2)] by auto
    note M = mp_set_ok [OF q2(2,4) s(1) Q]
    have "in_use ?q = insert (a, k) (in_use p)"
      unfolding M(2) q2(3) [symmetric] using q2(4) s l by (auto simp: in_use_def)
    moreover have "(a, j) \<notin> in_use p" for j
    proof (cases "j = k")
      case True
      then show ?thesis unfolding q2(3) [symmetric] using q2(4) l by (simp add: in_use_def)
    next
      case False
      have "a \<in> s" using s(3) l by simp
      then have "\<not> (\<exists>s'. mp_stub q2 j = Some s' \<and> a \<in> s')" using pool_okD(4) [OF q2(2)] s(1) False unfolding sizes_ok_def by blast
      then show ?thesis unfolding q2(3) [symmetric] by (auto simp: in_use_def)
    qed
    ultimately show ?thesis using E True l eq M(1) k(2) by simp
  next
    case False
    then show ?thesis using E q1 q2 by auto
  qed
qed

text \<open>Taking back a block in use.\<close>

lemma recycle_ok:
  assumes ok: "pool_ok p" and a: "(a, k) \<in> in_use p"
  shows "\<exists>q. recycle a k p = Some (0, q) \<and> pool_ok q \<and> in_use q = in_use p - {(a, k)}"
proof -
  obtain l s where l: "mp_free p k = Some l" "mp_stub p k = Some s" and a: "a \<in> s" "a \<notin> set l" using a by (auto simp: in_use_def)
  let ?q = "mp_set k (a # l) s (mp_allocated_size p) (mp_next p) p"
  have eq: "p\<lparr>mp_free := (mp_free p)(k \<mapsto> a # l)\<rparr> = ?q" using l(2) by (cases p) (simp add: mp_set_def map_upd_triv)
  obtain s' where s: "mp_stub p k = Some s'" "distinct l" "set l \<subseteq> s'" "finite s'" by (rule pool_ok_stub [OF ok l(1)])
  have tot: "mp_total ?q = mp_total p" using mp_total_set [OF pool_okD(1) [OF ok] l(2), of "a # l" s] by simp
  have Q: "distinct (a # l)" "set (a # l) \<subseteq> s" "finite s" "\<forall>a \<in> s. a \<in> s \<or> mp_next p \<le> a \<and> a < mp_next p" "mp_next p \<le> mp_next p"
    "unat (mp_allocated_size p) = mp_total ?q" "mp_total ?q \<le> 2097152000"
    using s l a tot pool_okD(5,6) [OF ok] by auto
  note M = mp_set_ok [OF ok l Q]
  obtain q where q: "mp_release k ?q = Some q" "shrunk ?q q" using mp_release_ok [OF M(1), of k "a # l"] by (auto simp: mp_set_def)
  have "in_use ?q = in_use p - {(a, k)}" unfolding M(2) using l a by (auto simp: in_use_def)
  moreover have "recycle a k p = Some (0, q)" using l a q(1) eq by (simp add: recycle_def)
  ultimately show ?thesis using q(2) by (simp add: shrunk_def)
qed

section \<open>Runs of the pool\<close>

text \<open>The pool with the blocks its callers hold: they allocate, and give back blocks they hold.\<close>

inductive pool_state :: "(nat \<times> c_int) set \<Rightarrow> CMemPool \<Rightarrow> bool" where
  start: "pool_state {} CMemPool_new"
| block: "pool_state U p \<Longrightarrow> unat sz < 2 ^ 31 \<Longrightarrow> allocate sz p = Some (Some (a, k), q) \<Longrightarrow> pool_state (insert (a, k) U) q"
| null: "pool_state U p \<Longrightarrow> unat sz < 2 ^ 31 \<Longrightarrow> allocate sz p = Some (None, q) \<Longrightarrow> pool_state U q"
| recycled: "pool_state U p \<Longrightarrow> (a, k) \<in> U \<Longrightarrow> recycle a k p = Some (r, q) \<Longrightarrow> pool_state (U - {(a, k)}) q"

lemma pool_state_ok: "pool_state U p \<Longrightarrow> pool_ok p \<and> in_use p = U"
proof (induction rule: pool_state.induct)
  case start
  then show ?case using pool_ok_new by simp
next
  case (block U p sz a k q)
  then show ?case using allocate_ok [of p sz] by auto
next
  case (null U p sz q)
  then show ?case using allocate_ok [of p sz] by auto
next
  case (recycled U p a k r q)
  then show ?case using recycle_ok [of p a k] by auto
qed

lemma in_use_one_size: "pool_ok p \<Longrightarrow> (a, k) \<in> in_use p \<Longrightarrow> (a, k') \<in> in_use p \<Longrightarrow> k = k'"
  using pool_okD(4) [of p] unfolding sizes_ok_def in_use_def by blast


text \<open>A pool with one block of 128 MB in use.\<close>

definition pool1 :: CMemPool where
  "pool1 = \<lparr>mp_free = [134217728 \<mapsto> []], mp_stub = [134217728 \<mapsto> {1}], mp_allocated_size = 134217728, mp_water_mark = C_MAX_WATER_MARK, mp_next = 2\<rparr>"

lemma pool1_state: "pool_state {(1, 134217728)} pool1"
proof -
  have "fit_loop 10 65536 = 27" using fit_loop_bits [of 17 65536 10] by simp
  then have "fit_block_size 67108864 = Some 134217728" by (simp add: fit_block_size_def drop_bit_eq_div push_bit_eq_mult)
  moreover have "fit_extend_set 134217728 = 1" by (simp add: fit_extend_set_def)
  ultimately have "allocate 67108864 CMemPool_new = Some (Some (1, 134217728), pool1)"
    by (simp add: allocate_def CMemPool_new_def extend_new_size_def extend_def pool1_def Let_def)
  then show ?thesis using pool_state.block [OF pool_state.start, of 67108864] by simp
qed


end
