(* ===== verification/Cache.thy ===== *)
theory Cache
  imports MemPool
begin

text \<open>
  \<open>include/cache.h\<close>, \<open>src/core/cache.cpp\<close>: the buffer \<open>CRawCache\<close> of a connection. The buffers of all connections share one memory pool and
  the bytes of its blocks, which is the state \<open>heap\<close>. A block that was just allocated holds whatever bytes it held before. An access outside
  the block is \<open>None\<close>; the exception that \<open>append\<close> throws when the pool has no memory is the result \<open>False\<close>.
\<close>

section \<open>State\<close>

record heap =
  hp_pool :: CMemPool
  hp_bytes :: "nat \<Rightarrow> memory"

record CRawCache =
  rc_mem :: "nat option"
  rc_block_size :: c_int
  rc_data_head :: c_int
  rc_data_len :: c_int

definition CRawCache_new :: CRawCache where
  "CRawCache_new = \<lparr>rc_mem = None, rc_block_size = 0, rc_data_head = 0, rc_data_len = 0\<rparr>"

text \<open>\<open>memcpy\<close> and \<open>memmove\<close> from and to a block of the given size.\<close>

definition block_read :: "nat \<Rightarrow> c_int \<Rightarrow> nat \<Rightarrow> nat \<Rightarrow> heap \<Rightarrow> byte list option" where
  "block_read a block_size off n h = (if off + n \<le> unat block_size then Some (mem_read (hp_bytes h a) off n) else None)"

definition block_write :: "nat \<Rightarrow> c_int \<Rightarrow> nat \<Rightarrow> byte list \<Rightarrow> heap \<Rightarrow> heap option" where
  "block_write a block_size off bs h =
     (if off + length bs \<le> unat block_size then Some (h\<lparr>hp_bytes := (hp_bytes h)(a := mem_write (hp_bytes h a) off bs)\<rparr>) else None)"

section \<open>Operations\<close>

text \<open>\<open>data()\<close> with \<open>data_len()\<close>: the bytes from the head on.\<close>

definition rc_data :: "CRawCache \<Rightarrow> heap \<Rightarrow> byte list option" where
  "rc_data c h =
     (if rc_data_len c = 0 then Some []
      else if \<not> rc_data_head c < rc_block_size c then None
      else (case rc_mem c of None \<Rightarrow> None
        | Some m \<Rightarrow> block_read m (rc_block_size c) (unat (rc_data_head c)) (unat (rc_data_len c)) h))"

definition rc_append :: "byte list \<Rightarrow> CRawCache \<times> heap \<Rightarrow> (bool \<times> CRawCache \<times> heap) option" where
  "rc_append data ch =
     (let (c, h) = ch; data_len = word_of_nat (length data) in
      case rc_mem c of
        None \<Rightarrow> do {
          (r, p) \<leftarrow> allocate data_len (hp_pool h);
          let h = h\<lparr>hp_pool := p\<rparr>;
          case r of None \<Rightarrow> Some (False, c, h)
          | Some (m, block_size) \<Rightarrow> do {
              h \<leftarrow> block_write m block_size 0 data h;
              Some (True, c\<lparr>rc_mem := Some m, rc_block_size := block_size, rc_data_head := 0, rc_data_len := data_len\<rparr>, h)
            }
        }
      | Some m \<Rightarrow>
          if data_len + rc_data_head c + rc_data_len c \<le> rc_block_size c then do {
            h \<leftarrow> block_write m (rc_block_size c) (unat (rc_data_head c + rc_data_len c)) data h;
            Some (True, c\<lparr>rc_data_len := rc_data_len c + data_len\<rparr>, h)
          }
          else if rc_block_size c < data_len + rc_data_len c then do {
            (r, p) \<leftarrow> allocate (data_len + rc_data_len c) (hp_pool h);
            let h = h\<lparr>hp_pool := p\<rparr>;
            case r of None \<Rightarrow> Some (False, c, h)
            | Some (mem, new_block_size) \<Rightarrow> do {
                old \<leftarrow> block_read m (rc_block_size c) (unat (rc_data_head c)) (unat (rc_data_len c)) h;
                h \<leftarrow> block_write mem new_block_size 0 old h;
                h \<leftarrow> block_write mem new_block_size (unat (rc_data_len c)) data h;
                (_, p) \<leftarrow> recycle m (rc_block_size c) (hp_pool h);
                Some (True, c\<lparr>rc_mem := Some mem, rc_block_size := new_block_size, rc_data_head := 0, rc_data_len := rc_data_len c + data_len\<rparr>,
                      h\<lparr>hp_pool := p\<rparr>)
              }
          }
          else do {
            old \<leftarrow> block_read m (rc_block_size c) (unat (rc_data_head c)) (unat (rc_data_len c)) h;
            h \<leftarrow> block_write m (rc_block_size c) 0 old h;
            h \<leftarrow> block_write m (rc_block_size c) (unat (rc_data_len c)) data h;
            Some (True, c\<lparr>rc_data_head := 0, rc_data_len := rc_data_len c + data_len\<rparr>, h)
          })"

definition rc_skip :: "c_int \<Rightarrow> CRawCache \<times> heap \<Rightarrow> (CRawCache \<times> heap) option" where
  "rc_skip n ch =
     (let (c, h) = ch in
      case rc_mem c of
        None \<Rightarrow> Some (c, h)
      | Some m \<Rightarrow>
          if rc_data_len c \<le> n then do {
            (_, p) \<leftarrow> recycle m (rc_block_size c) (hp_pool h);
            Some (CRawCache_new, h\<lparr>hp_pool := p\<rparr>)
          }
          else Some (c\<lparr>rc_data_head := rc_data_head c + n, rc_data_len := rc_data_len c - n\<rparr>, h))"

section \<open>Invariant\<close>

text \<open>The block of the buffer is in use and its data lie inside. \<open>U\<close> are the other blocks in use, \<open>B\<close> the bytes they hold.\<close>

fun rc_own :: "CRawCache \<Rightarrow> (nat \<times> c_int) set" where
  "rc_own c = (case rc_mem c of None \<Rightarrow> {} | Some m \<Rightarrow> {(m, rc_block_size c)})"

definition cache_ok :: "(nat \<times> c_int) set \<Rightarrow> (nat \<Rightarrow> memory) \<Rightarrow> CRawCache \<times> heap \<Rightarrow> bool" where
  "cache_ok U B ch \<longleftrightarrow>
     (let (c, h) = ch in
      pool_ok (hp_pool h) \<and> in_use (hp_pool h) = rc_own c \<union> U \<and> rc_own c \<inter> U = {} \<and> (\<forall>(a, k) \<in> U. hp_bytes h a = B a) \<and>
      (case rc_mem c of None \<Rightarrow> c = CRawCache_new
       | Some m \<Rightarrow> unat (rc_data_head c) + unat (rc_data_len c) \<le> unat (rc_block_size c)))"

definition content :: "CRawCache \<times> heap \<Rightarrow> byte list" where
  "content ch = (let (c, h) = ch in case rc_mem c of None \<Rightarrow> [] | Some m \<Rightarrow> mem_read (hp_bytes h m) (unat (rc_data_head c)) (unat (rc_data_len c)))"

lemma in_use_size:
  assumes ok: "pool_ok p" and "(a, k) \<in> in_use p"
  shows "unat k \<le> 2097152000"
proof -
  obtain l s where l: "mp_free p k = Some l" "mp_stub p k = Some s" "a \<in> s" using assms(2) by (auto simp: in_use_def)
  obtain s' where s: "mp_stub p k = Some s'" "finite s'" by (rule pool_ok_stub [OF ok l(1)])
  have "0 < card s" using s l by (auto simp: card_gt_0_iff)
  then have "unat k \<le> unat k * card s" by simp
  also have "\<dots> \<le> mp_total p"
    unfolding mp_total_def using member_le_sum [of k "dom (mp_stub p)" "\<lambda>j. unat j * card (the (mp_stub p j))"] l(2) pool_okD(1) [OF ok] by auto
  finally show ?thesis using pool_okD(6) [OF ok] by simp
qed

lemma cache_okD:
  assumes "cache_ok U B (c, h)"
  shows "pool_ok (hp_pool h)" "in_use (hp_pool h) = rc_own c \<union> U" "rc_own c \<inter> U = {}" "\<And>a k. (a, k) \<in> U \<Longrightarrow> hp_bytes h a = B a"
    "rc_mem c = None \<Longrightarrow> c = CRawCache_new" "\<And>m. rc_mem c = Some m \<Longrightarrow> unat (rc_data_head c) + unat (rc_data_len c) \<le> unat (rc_block_size c)"
  using assms by (auto simp: cache_ok_def split: option.splits)

lemma cache_ok_new: "pool_ok (hp_pool h) \<Longrightarrow> in_use (hp_pool h) = U \<Longrightarrow> hp_bytes h = B \<Longrightarrow> cache_ok U B (CRawCache_new, h)"
  by (simp add: cache_ok_def CRawCache_new_def)

lemma content_new [simp]: "content (CRawCache_new, h) = []"
  by (simp add: content_def CRawCache_new_def)

text \<open>What \<open>data()\<close> and \<open>data_len()\<close> give is the content; no assertion fails.\<close>

lemma rc_data_ok:
  assumes "cache_ok U B (c, h)"
  shows "rc_data c h = Some (content (c, h))" "length (content (c, h)) = unat (rc_data_len c)"
proof -
  note C = cache_okD [OF assms]
  show "length (content (c, h)) = unat (rc_data_len c)" using C(5) by (auto simp: content_def CRawCache_new_def split: option.split)
  show "rc_data c h = Some (content (c, h))"
  proof (cases "rc_mem c")
    case None
    then show ?thesis using C(5) by (auto simp: rc_data_def content_def CRawCache_new_def)
  next
    case (Some m)
    have "rc_data_head c < rc_block_size c" if "rc_data_len c \<noteq> 0"
    proof -
      have "unat (rc_data_len c) \<noteq> 0" using that by (simp add: unat_eq_0)
      then show ?thesis using C(6) [OF Some] unfolding word_less_nat_alt by linarith
    qed
    then show ?thesis using Some C(6) [OF Some] by (simp add: rc_data_def content_def block_read_def)
  qed
qed

lemma mem_read_drop: "drop n (mem_read m off l) = mem_read m (off + n) (l - n)"
  by (rule nth_equalityI) (auto simp: mem_read_def add.assoc)

lemma rc_skip_ok:
  assumes ok: "cache_ok U B ch"
  shows "\<exists>ch'. rc_skip n ch = Some ch' \<and> cache_ok U B ch' \<and> content ch' = drop (unat n) (content ch)"
proof -
  obtain c h where ch: "ch = (c, h)" by (cases ch)
  note C = cache_okD [OF ok [unfolded ch]]
  note D = rc_data_ok [OF ok [unfolded ch]]
  show ?thesis
  proof (cases "rc_mem c")
    case None
    then have "c = CRawCache_new" by (rule C(5))
    then show ?thesis using ok None by (auto simp: ch rc_skip_def)
  next
    case (Some m)
    have own: "(m, rc_block_size c) \<in> in_use (hp_pool h)" using C(2) Some by simp
    show ?thesis
    proof (cases "rc_data_len c \<le> n")
      case True
      obtain p where p: "recycle m (rc_block_size c) (hp_pool h) = Some (0, p)" "pool_ok p" "in_use p = in_use (hp_pool h) - {(m, rc_block_size c)}"
        using recycle_ok [OF C(1) own] by blast
      have "in_use p = U" using p(3) C(2,3) Some by auto
      then have "cache_ok U B (CRawCache_new, h\<lparr>hp_pool := p\<rparr>)" using p(2) C(4) by (auto simp: cache_ok_def CRawCache_new_def)
      moreover have "drop (unat n) (content (c, h)) = []" using D(2) True by (simp add: word_le_nat_alt)
      ultimately show ?thesis using Some True p(1) by (simp add: ch rc_skip_def)
    next
      case False
      then have n: "unat n \<le> unat (rc_data_len c)" by (simp add: word_le_nat_alt)
      let ?c = "c\<lparr>rc_data_head := rc_data_head c + n, rc_data_len := rc_data_len c - n\<rparr>"
      have l: "unat (rc_data_len c - n) = unat (rc_data_len c) - unat n" using False by (simp add: unat_sub)
      have b: "unat (rc_data_head c) + unat n \<le> unat (rc_block_size c)" using C(6) [OF Some] n by simp
      also have "\<dots> < 2 ^ 32" using unsigned_less [of "rc_block_size c"] by simp
      finally have hd: "unat (rc_data_head c + n) = unat (rc_data_head c) + unat n" by (simp add: unat_word_ariths)
      have "cache_ok U B (?c, h)" using C Some l hd n by (auto simp: cache_ok_def)
      moreover have "content (?c, h) = drop (unat n) (content (c, h))" using Some l hd by (simp add: content_def mem_read_drop)
      ultimately show ?thesis using Some False by (simp add: ch rc_skip_def)
    qed
  qed
qed

text \<open>Blocks of other buffers keep their bytes when a block of this buffer is written.\<close>

lemma block_write_ok:
  "off + length bs \<le> unat k \<Longrightarrow> block_write a k off bs h = Some (h\<lparr>hp_bytes := (hp_bytes h)(a := mem_write (hp_bytes h a) off bs)\<rparr>)"
  by (simp add: block_write_def)

lemma own_write_other:
  assumes ok: "cache_ok U B (c, h)" and m: "rc_mem c = Some m" and "(a, k) \<in> U"
  shows "a \<noteq> m"
proof
  assume "a = m"
  then have "k = rc_block_size c" using assms in_use_one_size [OF cache_okD(1) [OF ok], of m k "rc_block_size c"] cache_okD(2) [OF ok] by simp
  then show False using assms \<open>a = m\<close> cache_okD(3) [OF ok] by auto
qed

lemma two_writes:
  "mem_read (mem_write (mem_write M 0 old) (length old) bs) 0 (length old + length bs) = old @ bs"
  by (simp add: mem_write_append mem_read_write_same)

lemma cache_ok_write:
  assumes ok: "cache_ok U B (c, h)" and m: "rc_mem c = Some m" and k: "unat h1 + unat n \<le> unat (rc_block_size c)"
  shows "cache_ok U B (c\<lparr>rc_data_head := h1, rc_data_len := n\<rparr>, h\<lparr>hp_bytes := (hp_bytes h)(m := M)\<rparr>)"
  using cache_okD(1-4) [OF ok] own_write_other [OF ok m] m k by (auto simp: cache_ok_def)

lemma rc_append_first:
  assumes ok: "cache_ok U B (c, h)" and m: "rc_mem c = None" and N: "length bs < 2 ^ 31"
  shows "\<exists>r ch'. rc_append bs (c, h) = Some (r, ch') \<and> cache_ok U B ch' \<and> content ch' = (if r then bs else [])"
proof -
  note C = cache_okD [OF ok]
  let ?n = "word_of_nat (length bs) :: c_int"
  have n: "unat ?n = length bs" using N by (simp add: unat_of_nat)
  obtain r p where r: "allocate ?n (hp_pool h) = Some (r, p)" "pool_ok p"
    "case r of None \<Rightarrow> in_use p = in_use (hp_pool h)
     | Some (a, k) \<Rightarrow> unat ?n < unat k \<and> (\<forall>j. (a, j) \<notin> in_use (hp_pool h)) \<and> in_use p = insert (a, k) (in_use (hp_pool h))"
    using allocate_ok [OF C(1), of ?n] N n by auto
  have U: "in_use (hp_pool h) = U" using C(2) m by simp
  show ?thesis
  proof (cases r)
    case None
    have "cache_ok U B (c, h\<lparr>hp_pool := p\<rparr>)" using r(2,3) None U m C(4,5) by (auto simp: cache_ok_def)
    moreover have "content (c, h\<lparr>hp_pool := p\<rparr>) = []" using m by (simp add: content_def)
    ultimately show ?thesis using r(1) None m by (intro exI [of _ False]) (simp add: rc_append_def)
  next
    case (Some ak)
    obtain a k where ak: "r = Some (a, k)" using Some by (cases ak) simp
    have A: "length bs < unat k" "\<And>j. (a, j) \<notin> U" "in_use p = insert (a, k) U" using r(3) ak U n by auto
    let ?c = "c\<lparr>rc_mem := Some a, rc_block_size := k, rc_data_head := 0, rc_data_len := ?n\<rparr>"
    let ?h = "h\<lparr>hp_pool := p, hp_bytes := (hp_bytes h)(a := mem_write (hp_bytes h a) 0 bs)\<rparr>"
    have "rc_append bs (c, h) = Some (True, ?c, ?h)" using m r(1) ak A(1) by (simp add: rc_append_def block_write_ok)
    moreover have "cache_ok U B (?c, ?h)" using r(2) A C(4) n by (auto simp: cache_ok_def)
    moreover have "content (?c, ?h) = bs" using n by (simp add: content_def mem_read_write_same)
    ultimately show ?thesis by (intro exI [of _ True]) simp
  qed
qed

lemma rc_append_new_block:
  assumes ok: "cache_ok U B (c, h)" and m: "rc_mem c = Some m" and N: "length bs + unat (rc_data_len c) < 2 ^ 31"
    and big: "rc_block_size c < word_of_nat (length bs) + rc_data_len c"
  shows "\<exists>r ch'. rc_append bs (c, h) = Some (r, ch') \<and> cache_ok U B ch' \<and> content ch' = (if r then content (c, h) @ bs else content (c, h))"
proof -
  note C = cache_okD [OF ok]
  note D = rc_data_ok [OF ok]
  let ?n = "word_of_nat (length bs) :: c_int" and ?k = "rc_block_size c"
  define old where "old = content (c, h)"
  have old: "length old = unat (rc_data_len c)" "old = mem_read (hp_bytes h m) (unat (rc_data_head c)) (unat (rc_data_len c))"
    using D(2) m by (simp_all add: old_def content_def)
  have n: "unat ?n = length bs" using N by (simp add: unat_of_nat)
  have s: "unat (?n + rc_data_len c) = length bs + length old" "unat (rc_data_len c + ?n) = length old + length bs"
    using n N old(1) by (simp_all add: unat_word_ariths)
  have "unat (rc_block_size c) \<le> 2097152000" using in_use_size [OF C(1), of m] C(2) m by simp
  have far: "\<not> ?n + rc_data_head c + rc_data_len c \<le> ?k"
  proof -
    have "unat (rc_data_head c) + unat (rc_data_len c) \<le> 2097152000" using C(6) [OF m] \<open>unat ?k \<le> 2097152000\<close> by simp
    then have "unat (?n + rc_data_head c + rc_data_len c) = length bs + unat (rc_data_head c) + unat (rc_data_len c)"
      using n N by (simp add: unat_word_ariths)
    then show ?thesis using big s(1) old(1) by (simp add: word_le_nat_alt word_less_nat_alt)
  qed
  obtain r p where r: "allocate (?n + rc_data_len c) (hp_pool h) = Some (r, p)" "pool_ok p"
    "case r of None \<Rightarrow> in_use p = in_use (hp_pool h)
     | Some (a, k) \<Rightarrow> unat (?n + rc_data_len c) < unat k \<and> (\<forall>j. (a, j) \<notin> in_use (hp_pool h)) \<and> in_use p = insert (a, k) (in_use (hp_pool h))"
    using allocate_ok [OF C(1), of "?n + rc_data_len c"] N s(1) old(1) by auto
  have U: "in_use (hp_pool h) = insert (m, ?k) U" "(m, ?k) \<notin> U" using C(2,3) m by auto
  show ?thesis
  proof (cases r)
    case None
    have "cache_ok U B (c, h\<lparr>hp_pool := p\<rparr>)" using r(2,3) None C(2,3,4,6) m by (auto simp: cache_ok_def)
    moreover have "content (c, h\<lparr>hp_pool := p\<rparr>) = content (c, h)" by (simp add: content_def split: option.split)
    ultimately show ?thesis using r(1) None m far big by (intro exI [of _ False]) (simp add: rc_append_def)
  next
    case (Some ak)
    obtain a k where ak: "r = Some (a, k)" using Some by (cases ak) simp
    have A: "length bs + length old < unat k" "\<And>j. (a, j) \<notin> in_use (hp_pool h)" "in_use p = insert (a, k) (in_use (hp_pool h))"
      using r(3) ak s(1) by auto
    have am: "a \<noteq> m" using A(2) U(1) by auto
    obtain q where q: "recycle m ?k p = Some (0, q)" "pool_ok q" "in_use q = in_use p - {(m, ?k)}"
      using recycle_ok [OF r(2), of m ?k] A(3) U(1) by auto
    let ?c = "c\<lparr>rc_mem := Some a, rc_block_size := k, rc_data_head := 0, rc_data_len := rc_data_len c + ?n\<rparr>"
    let ?M = "mem_write (mem_write (hp_bytes h a) 0 old) (length old) bs"
    let ?h = "h\<lparr>hp_pool := q, hp_bytes := (hp_bytes h)(a := ?M)\<rparr>"
    have rd: "block_read m ?k (unat (rc_data_head c)) (unat (rc_data_len c)) (h\<lparr>hp_pool := p\<rparr>) = Some old"
      using C(6) [OF m] old(2) by (simp add: block_read_def)
    have "rc_append bs (c, h) = Some (True, ?c, ?h)"
      using m r(1) ak far big A(1) q(1) rd old(1) by (simp add: rc_append_def block_write_ok)
    moreover have "cache_ok U B (?c, ?h)"
    proof -
      have "in_use q = insert (a, k) U" using q(3) A(3) U am by auto
      moreover have "(a, k) \<notin> U" "\<And>x j. (x, j) \<in> U \<Longrightarrow> x \<noteq> a" using A(2) U(1) by auto
      ultimately show ?thesis using q(2) C(4) A(1) s(2) by (auto simp: cache_ok_def)
    qed
    moreover have "content (?c, ?h) = old @ bs" using s(2) two_writes [of "hp_bytes h a" old bs] by (simp add: content_def)
    ultimately show ?thesis unfolding old_def by (intro exI [of _ True]) simp
  qed
qed

lemma rc_append_ok:
  assumes ok: "cache_ok U B ch" and N: "length (content ch) + length bs < 2 ^ 31"
  shows "\<exists>r ch'. rc_append bs ch = Some (r, ch') \<and> cache_ok U B ch' \<and> content ch' = (if r then content ch @ bs else content ch)"
proof -
  obtain c h where ch: "ch = (c, h)" by (cases ch)
  note ok' = ok [unfolded ch]
  note C = cache_okD [OF ok'] and D = rc_data_ok [OF ok']
  let ?n = "word_of_nat (length bs) :: c_int" and ?k = "rc_block_size c"
  show ?thesis
  proof (cases "rc_mem c")
    case None
    then have "content ch = []" by (simp add: ch content_def)
    moreover have "length bs < 2 ^ 31" using N by simp
    ultimately show ?thesis using rc_append_first [OF ok' None, of bs] unfolding ch by (simp only: append_Nil)
  next
    case m: (Some m)
    have N': "length bs + unat (rc_data_len c) < 2 ^ 31" using N D(2) ch by simp
    have n: "unat ?n = length bs" using N by (simp add: unat_of_nat)
    have k: "unat ?k \<le> 2097152000" using in_use_size [OF C(1), of m] C(2) m by simp
    have in_k: "unat (rc_data_head c) + unat (rc_data_len c) \<le> unat ?k" by (rule C(6) [OF m])
    have s: "unat (?n + rc_data_head c + rc_data_len c) = length bs + unat (rc_data_head c) + unat (rc_data_len c)"
      "unat (?n + rc_data_len c) = length bs + unat (rc_data_len c)" "unat (rc_data_len c + ?n) = unat (rc_data_len c) + length bs"
      "unat (rc_data_head c + rc_data_len c) = unat (rc_data_head c) + unat (rc_data_len c)"
      using n N' k in_k by (simp_all add: unat_word_ariths)
    consider (fits) "?n + rc_data_head c + rc_data_len c \<le> ?k" | (new) "?k < ?n + rc_data_len c"
      | (move) "\<not> ?n + rc_data_head c + rc_data_len c \<le> ?k" "\<not> ?k < ?n + rc_data_len c" by blast
    then show ?thesis
    proof cases
      case new
      show ?thesis using rc_append_new_block [OF ok' m N' new] unfolding ch .
    next
      case fits
      then have le: "unat (rc_data_head c) + unat (rc_data_len c) + length bs \<le> unat ?k" using s(1) by (simp add: word_le_nat_alt)
      let ?M = "mem_write (hp_bytes h m) (unat (rc_data_head c) + unat (rc_data_len c)) bs"
      let ?ch = "(c\<lparr>rc_data_head := rc_data_head c, rc_data_len := rc_data_len c + ?n\<rparr>, h\<lparr>hp_bytes := (hp_bytes h)(m := ?M)\<rparr>)"
      have "rc_append bs ch = Some (True, ?ch)" using m fits le s by (simp add: ch rc_append_def block_write_ok)
      moreover have "cache_ok U B ?ch" by (rule cache_ok_write [OF ok' m]) (use s le in simp)
      moreover have "content ?ch = content ch @ bs"
        using m s(3) by (simp add: ch content_def mem_read_add mem_read_write_same mem_read_write_other)
      ultimately show ?thesis by (intro exI [of _ True]) simp
    next
      case move
      define old where "old = content (c, h)"
      have old: "length old = unat (rc_data_len c)" "old = mem_read (hp_bytes h m) (unat (rc_data_head c)) (unat (rc_data_len c))"
        using D(2) m by (simp_all add: old_def content_def)
      have le: "unat (rc_data_len c) + length bs \<le> unat ?k" using move(2) s(2) by (simp add: word_less_nat_alt)
      let ?M = "mem_write (mem_write (hp_bytes h m) 0 old) (length old) bs"
      let ?ch = "(c\<lparr>rc_data_head := 0, rc_data_len := rc_data_len c + ?n\<rparr>, h\<lparr>hp_bytes := (hp_bytes h)(m := ?M)\<rparr>)"
      have rd: "block_read m ?k (unat (rc_data_head c)) (unat (rc_data_len c)) h = Some old" using in_k old(2) by (simp add: block_read_def)
      have "rc_append bs ch = Some (True, ?ch)" using m move le rd old(1) by (simp add: ch rc_append_def block_write_ok)
      moreover have "cache_ok U B ?ch" by (rule cache_ok_write [OF ok' m]) (use s le in simp)
      moreover have "content ?ch = content ch @ bs"
        using m s(3) old(1) two_writes [of "hp_bytes h m" old bs] by (simp add: content_def ch flip: old(2))
      ultimately show ?thesis by (intro exI [of _ True]) simp
    qed
  qed
qed

section \<open>The buffer as a queue of bytes\<close>

datatype queue_op = Append "byte list" | Skip c_int

fun queue_list :: "queue_op list \<Rightarrow> byte list \<Rightarrow> byte list" where
  "queue_list [] q = q"
| "queue_list (Append bs # ops) q = queue_list ops (q @ bs)"
| "queue_list (Skip n # ops) q = queue_list ops (drop (unat n) q)"

fun queue_fits :: "nat \<Rightarrow> queue_op list \<Rightarrow> byte list \<Rightarrow> bool" where
  "queue_fits cap [] q = True"
| "queue_fits cap (Append bs # ops) q = (length q + length bs < cap \<and> queue_fits cap ops (q @ bs))"
| "queue_fits cap (Skip n # ops) q = queue_fits cap ops (drop (unat n) q)"

text \<open>The operations run until one throws.\<close>

fun queue_run :: "(byte list \<Rightarrow> 'q \<Rightarrow> (bool \<times> 'q) option) \<Rightarrow> (c_int \<Rightarrow> 'q \<Rightarrow> 'q option) \<Rightarrow> queue_op list \<Rightarrow> 'q \<Rightarrow> (nat \<times> 'q) option" where
  "queue_run app skp [] q = Some (0, q)"
| "queue_run app skp (Append bs # ops) q =
     do { (r, q) \<leftarrow> app bs q; if r then do { (left, q) \<leftarrow> queue_run app skp ops q; Some (left, q) } else Some (Suc (length ops), q) }"
| "queue_run app skp (Skip n # ops) q = do { q \<leftarrow> skp n q; queue_run app skp ops q }"

locale byte_queue =
  fixes queue_ok :: "'q \<Rightarrow> bool"
    and bytes_of :: "'q \<Rightarrow> byte list"
    and app :: "byte list \<Rightarrow> 'q \<Rightarrow> (bool \<times> 'q) option"
    and skp :: "c_int \<Rightarrow> 'q \<Rightarrow> 'q option"
    and cap :: nat
  assumes app_ok: "queue_ok q \<Longrightarrow> length (bytes_of q) + length bs < cap \<Longrightarrow>
      \<exists>r q'. app bs q = Some (r, q') \<and> queue_ok q' \<and> bytes_of q' = (if r then bytes_of q @ bs else bytes_of q)"
    and skp_ok: "queue_ok q \<Longrightarrow> \<exists>q'. skp n q = Some q' \<and> queue_ok q' \<and> bytes_of q' = drop (unat n) (bytes_of q)"
begin

lemma run_ok:
  "queue_ok q \<Longrightarrow> queue_fits cap ops (bytes_of q) \<Longrightarrow>
   \<exists>left q'. queue_run app skp ops q = Some (left, q') \<and> left \<le> length ops \<and> queue_ok q' \<and>
     bytes_of q' = queue_list (take (length ops - left) ops) (bytes_of q)"
proof (induction ops arbitrary: q)
  case (Cons x ops)
  show ?case
  proof (cases x)
    case (Append bs)
    have "length (bytes_of q) + length bs < cap" and rest: "queue_fits cap ops (bytes_of q @ bs)" using Cons.prems(2) Append by simp_all
    then obtain r q1 where q1: "app bs q = Some (r, q1)" "queue_ok q1" "bytes_of q1 = (if r then bytes_of q @ bs else bytes_of q)"
      using app_ok [OF Cons.prems(1)] by blast
    show ?thesis
    proof (cases r)
      case True
      with rest q1(3) have "queue_fits cap ops (bytes_of q1)" by simp
      from Cons.IH [OF q1(2) this] obtain left q' where q': "queue_run app skp ops q1 = Some (left, q')" "left \<le> length ops" "queue_ok q'"
        "bytes_of q' = queue_list (take (length ops - left) ops) (bytes_of q1)" by blast
      then show ?thesis using True Append q1 by (simp add: Suc_diff_le)
    next
      case False
      then show ?thesis using Append q1 by simp
    qed
  next
    case (Skip n)
    obtain q1 where q1: "skp n q = Some q1" "queue_ok q1" "bytes_of q1 = drop (unat n) (bytes_of q)" using skp_ok [OF Cons.prems(1)] by blast
    have "queue_fits cap ops (bytes_of q1)" using Cons.prems(2) Skip q1(3) by simp
    from Cons.IH [OF q1(2) this] show ?thesis using Skip q1 by (auto simp: Suc_diff_le)
  qed
qed simp

end

interpretation cq: byte_queue "cache_ok U B" content rc_append rc_skip "2 ^ 31" for U :: "(nat \<times> c_int) set" and B :: "nat \<Rightarrow> memory"
  by unfold_locales (use rc_append_ok rc_skip_ok in blast)+

text \<open>C17: a buffer \<open>CRawCache\<close> is a queue of bytes. Whatever sequence of \<open>append\<close> and \<open>skip\<close> is performed on it (with less than 2 GB in it at any time),
  no call reads or writes outside the block or gives back a block that is not its own, and \<open>data()\<close>, \<open>data_len()\<close> are the bytes appended and not yet skipped, in
  order - whichever of the three ways of making room was taken - up to the first \<open>append\<close> that throws for want of memory. The blocks of the other buffers that share
  the pool stay in use, and their bytes stay the same.\<close>

theorem cache_refines_queue:
  assumes "cache_ok U B (c, h)" "queue_fits (2 ^ 31) ops (content (c, h))"
  shows "\<exists>left c' h'. queue_run rc_append rc_skip ops (c, h) = Some (left, c', h') \<and> left \<le> length ops \<and>
    rc_data c' h' = Some (queue_list (take (length ops - left) ops) (content (c, h))) \<and>
    unat (rc_data_len c') = length (queue_list (take (length ops - left) ops) (content (c, h))) \<and>
    in_use (hp_pool h') = rc_own c' \<union> U \<and> rc_own c' \<inter> U = {} \<and> (\<forall>(a, k) \<in> U. hp_bytes h' a = hp_bytes h a)"
proof -
  obtain left ch' where r: "queue_run rc_append rc_skip ops (c, h) = Some (left, ch')" "left \<le> length ops" "cache_ok U B ch'"
    "content ch' = queue_list (take (length ops - left) ops) (content (c, h))" using cq.run_ok [OF assms] by blast
  obtain c' h' where ch': "ch' = (c', h')" by (cases ch')
  note ok = r(3) [unfolded ch']
  have "\<forall>(a, k) \<in> U. hp_bytes h' a = hp_bytes h a" using cache_okD(4) [OF ok] cache_okD(4) [OF assms(1)] by auto
  then show ?thesis using r ch' rc_data_ok [OF ok] cache_okD(2,3) [OF ok] by auto
qed

theorem cache_refines_queue_witness:
  "\<exists>left c' h'. queue_run rc_append rc_skip [Append [1, 2, 3], Skip 1, Append [4]] (CRawCache_new, \<lparr>hp_pool = pool1, hp_bytes = \<lambda>a i. 0\<rparr>) = Some (left, c', h') \<and>
    (left = 0 \<longrightarrow> rc_data c' h' = Some [2, 3, 4]) \<and> hp_bytes h' 1 = (\<lambda>i. 0)"
proof -
  have "cache_ok {(1, 134217728)} (\<lambda>a i. 0) (CRawCache_new, \<lparr>hp_pool = pool1, hp_bytes = \<lambda>a i. 0\<rparr>)"
    by (rule cache_ok_new) (use pool_state_ok [OF pool1_state] in simp_all)
  from cache_refines_queue [OF this, of "[Append [1, 2, 3], Skip 1, Append [4]]"] show ?thesis by auto
qed

end
