(* ===== verification/Decoder.thy ===== *)
theory Decoder
  imports Packet
begin

text \<open>
  \<open>include/CCStreamDecoder.h\<close>, \<open>Server/BoyaaDecoder.h\<close>: how a stream of bytes is cut into packets. \<open>ParsePacket\<close> calls the virtual
  functions of the decoder, which are its first three arguments; the connections of clients use \<open>BoyaaDecoder\<close>, whose length field is in
  network order, the connection to the statistics server \<open>BoyaaDecoder1\<close>. The length of the data is an \<open>int\<close>.
\<close>

section \<open>Decoders\<close>

definition ParsePacket :: "(byte list \<Rightarrow> int \<Rightarrow> int) \<Rightarrow> (byte list \<Rightarrow> int \<Rightarrow> bool) \<Rightarrow> (byte list \<Rightarrow> int \<Rightarrow> int) \<Rightarrow> byte list \<Rightarrow> int \<Rightarrow> int" where
  "ParsePacket GetHeadLen CheckHead GetPacketLen data len =
     (if len < GetHeadLen data len then 0
      else if \<not> CheckHead data len then -1
      else
        let pkglen = GetPacketLen data len in
          if pkglen < 0 then -1
          else if len < pkglen then 0
          else pkglen)"

definition BoyaaDecoder_GetHeadLen :: "byte list \<Rightarrow> int \<Rightarrow> int" where
  "BoyaaDecoder_GetHeadLen data len = 9"

definition BoyaaDecoder_GetPacketLen :: "byte list \<Rightarrow> int \<Rightarrow> int" where
  "BoyaaDecoder_GetPacketLen data len =
     (let pkgLen = 2 + uint (ntohs (of_le16 (take 2 data))) in if pkgLen \<le> 0 \<or> 10240 < pkgLen then -1 else pkgLen)"

definition BoyaaDecoder_CheckHead :: "byte list \<Rightarrow> int \<Rightarrow> bool" where
  "BoyaaDecoder_CheckHead data len =
     (if data ! 2 \<noteq> 0x42 \<or> data ! 3 \<noteq> 0x59 then False
      else let pkgLen = 2 + uint (ntohs (of_le16 (take 2 data))) in if pkgLen \<le> 0 \<or> 10240 < pkgLen then False else True)"

definition BoyaaDecoder1_GetHeadLen :: "byte list \<Rightarrow> int \<Rightarrow> int" where
  "BoyaaDecoder1_GetHeadLen data len = 9"

definition BoyaaDecoder1_GetPacketLen :: "byte list \<Rightarrow> int \<Rightarrow> int" where
  "BoyaaDecoder1_GetPacketLen data len =
     (let pkgLen = 2 + sint (of_le16 (take 2 data)) in if pkgLen \<le> 0 \<or> 10240 < pkgLen then -1 else pkgLen)"

definition BoyaaDecoder1_CheckHead :: "byte list \<Rightarrow> int \<Rightarrow> bool" where
  "BoyaaDecoder1_CheckHead data len =
     (if data ! 2 \<noteq> 0x42 \<or> data ! 3 \<noteq> 0x59 then False
      else let pkgLen = 2 + sint (of_le16 (take 2 data)) in if pkgLen \<le> 0 \<or> 10240 < pkgLen then False else True)"

datatype decoder = BoyaaDecoder | BoyaaDecoder1

text \<open>The virtual call \<open>_decode->ParsePacket(_r.data(), _r.data_len())\<close>.\<close>

fun decode_packet :: "decoder \<Rightarrow> byte list \<Rightarrow> int" where
  "decode_packet BoyaaDecoder data =
     ParsePacket BoyaaDecoder_GetHeadLen BoyaaDecoder_CheckHead BoyaaDecoder_GetPacketLen data (int (length data))"
| "decode_packet BoyaaDecoder1 data =
     ParsePacket BoyaaDecoder1_GetHeadLen BoyaaDecoder1_CheckHead BoyaaDecoder1_GetPacketLen data (int (length data))"

lemmas decoder_defs = ParsePacket_def BoyaaDecoder_GetHeadLen_def BoyaaDecoder_GetPacketLen_def BoyaaDecoder_CheckHead_def
  BoyaaDecoder1_GetHeadLen_def BoyaaDecoder1_GetPacketLen_def BoyaaDecoder1_CheckHead_def Let_def

section \<open>Framing\<close>

text \<open>The packets that a stream contains, the bytes left, and whether the decoder refuses what is left.\<close>

function (sequential) frames :: "(byte list \<Rightarrow> int) \<Rightarrow> byte list \<Rightarrow> byte list list \<times> byte list \<times> bool" where
  "frames parse q =
     (if q = [] then ([], [], False)
      else let n = parse q in
        if n = -1 then ([], q, True)
        else if n \<le> 0 then ([], q, False)
        else let (ps, r, bad) = frames parse (drop (nat n) q) in (take (nat n) q # ps, r, bad))"
  by auto
termination by (relation "measure (\<lambda>(_, q). length q)") auto

declare frames.simps [simp del]

text \<open>The bytes of a chunk after those left over; once refused, the connection is closed and reads no more.\<close>

fun feed :: "(byte list \<Rightarrow> int) \<Rightarrow> byte list list \<Rightarrow> byte list \<Rightarrow> byte list list \<times> byte list \<times> bool" where
  "feed parse [] r = ([], r, False)"
| "feed parse (c # cs) r =
     (let (ps, r, bad) = frames parse (r @ c) in
        if bad then (ps, r, True) else (let (ps', r, bad) = feed parse cs r in (ps @ ps', r, bad)))"

text \<open>What \<open>handle_input\<close> relies on: a decoder wants more bytes, refuses, or returns the length of a packet that is there, and more bytes do
  not change its mind.\<close>

locale framing =
  fixes parse :: "byte list \<Rightarrow> int"
  assumes parse_range: "parse q = -1 \<or> 0 \<le> parse q \<and> parse q \<le> int (length q)"
    and parse_stable: "parse q \<noteq> 0 \<Longrightarrow> parse (q @ bs) = parse q"
begin

lemma frames_append:
  "frames parse (q @ bs) =
     (let (ps, r, bad) = frames parse q in
        if bad then (ps, r @ bs, True) else (let (ps', r', bad') = frames parse (r @ bs) in (ps @ ps', r', bad')))"
proof (induction "length q" arbitrary: q rule: less_induct)
  case less
  show ?case
  proof (cases "q = [] \<or> parse q = 0")
    case True
    then show ?thesis by (auto simp: frames.simps [of parse q])
  next
    case False
    note st = parse_stable [of q bs]
    show ?thesis
    proof (cases "parse q = -1")
      case True
      then show ?thesis using False st by (simp add: frames.simps [of parse q] frames.simps [of parse "q @ bs"])
    next
      case ok: False
      let ?n = "nat (parse q)"
      have n: "0 < ?n" "?n \<le> length q" using False ok parse_range [of q] by auto
      then have IH: "frames parse (drop ?n q @ bs) =
         (let (ps, r, bad) = frames parse (drop ?n q) in
            if bad then (ps, r @ bs, True) else (let (ps', r', bad') = frames parse (r @ bs) in (ps @ ps', r', bad')))"
        by (intro less) simp
      obtain ps r bad where F: "frames parse (drop ?n q) = (ps, r, bad)" by (cases "frames parse (drop ?n q)")
      have "frames parse (q @ bs) = (let (ps, r, bad) = frames parse (drop ?n q @ bs) in (take ?n q # ps, r, bad))"
        using False ok st n by (subst frames.simps) (simp add: Let_def)
      moreover have "frames parse q = (take ?n q # ps, r, bad)" using False ok n F by (subst frames.simps) (simp add: Let_def)
      ultimately show ?thesis unfolding IH F by (simp add: Let_def split: prod.split)
    qed
  qed
qed

lemma frames_concat: "frames parse q = (ps, r, bad) \<Longrightarrow> concat ps @ r = q"
proof (induction "length q" arbitrary: q ps r bad rule: less_induct)
  case less
  show ?case
  proof (cases "q = [] \<or> parse q \<le> 0")
    case True
    then show ?thesis using less.prems by (subst (asm) frames.simps) (auto simp: Let_def split: if_splits)
  next
    case False
    let ?n = "nat (parse q)"
    obtain ps' r' bad' where F: "frames parse (drop ?n q) = (ps', r', bad')" by (cases "frames parse (drop ?n q)")
    have "concat ps' @ r' = drop ?n q" by (rule less.hyps [OF _ F]) (use False in simp)
    moreover have "ps = take ?n q # ps'" "r = r'" using less.prems False F by (subst (asm) frames.simps; simp add: Let_def)+
    ultimately show ?thesis by simp
  qed
qed

lemma frames_rest:
  "frames parse q = (ps, r, False) \<Longrightarrow> frames parse r = ([], r, False)"
proof (induction "length q" arbitrary: q ps rule: less_induct)
  case less
  show ?case
  proof (cases "q = [] \<or> parse q \<le> 0")
    case True
    then have "r = q" using less.prems by (subst (asm) frames.simps) (auto simp: Let_def split: if_splits)
    then show ?thesis using True less.prems by (subst (asm) frames.simps, subst frames.simps) (auto simp: Let_def split: if_splits)
  next
    case False
    let ?n = "nat (parse q)"
    obtain ps' r' bad' where F: "frames parse (drop ?n q) = (ps', r', bad')" by (cases "frames parse (drop ?n q)")
    have "r' = r" "\<not> bad'" using less.prems False F by (subst (asm) frames.simps; simp add: Let_def)+
    then have "frames parse (drop ?n q) = (ps', r, False)" using F by simp
    then show ?thesis by (rule less.hyps [rotated]) (use False in simp)
  qed
qed

text \<open>Cutting chunk by chunk gives the packets of the whole stream.\<close>

lemma feed_frames:
  assumes "frames parse r = ([], r, False)" and "feed parse cs r = (ps, r', bad)"
  shows "\<exists>u. frames parse (r @ concat cs) = (ps, r' @ u, bad) \<and> (\<not> bad \<longrightarrow> u = [])"
  using assms
proof (induction cs arbitrary: r ps r' bad)
  case (Cons c cs)
  obtain ps1 r1 bad1 where F: "frames parse (r @ c) = (ps1, r1, bad1)" by (cases "frames parse (r @ c)")
  have A: "frames parse (r @ concat (c # cs)) =
      (if bad1 then (ps1, r1 @ concat cs, True) else (let (ps', r', bad') = frames parse (r1 @ concat cs) in (ps1 @ ps', r', bad')))"
    using frames_append [of "r @ c" "concat cs"] F by (simp add: Let_def)
  show ?case
  proof (cases bad1)
    case True
    then show ?thesis using Cons.prems(2) F A by simp
  next
    case False
    obtain ps2 where ps2: "feed parse cs r1 = (ps2, r', bad)" "ps = ps1 @ ps2"
      using Cons.prems(2) F False by (auto split: prod.splits)
    have "frames parse r1 = ([], r1, False)" using frames_rest F False by simp
    from Cons.IH [OF this ps2(1)] show ?thesis using A False ps2(2) by auto
  qed
qed simp

text \<open>A stream of packets, each of which the decoder recognises, is cut into these packets.\<close>

lemma frames_packets:
  "\<forall>m \<in> set ms. m \<noteq> [] \<and> parse m = int (length m) \<Longrightarrow> frames parse (concat ms) = (ms, [], False)"
proof (induction ms)
  case (Cons m ms)
  have "parse (m @ concat ms) = int (length m)" using Cons.prems parse_stable [of m "concat ms"] by simp
  then show ?case using Cons by (subst frames.simps) (simp add: Let_def)
qed (simp add: frames.simps)

end

lemma decode_packet_range: "decode_packet d q = -1 \<or> 0 \<le> decode_packet d q \<and> decode_packet d q \<le> int (length q)"
  by (cases d) (simp_all add: decoder_defs)

lemma decode_packet_stable: "decode_packet d q \<noteq> 0 \<Longrightarrow> decode_packet d (q @ bs) = decode_packet d q"
  by (cases d) (auto simp: decoder_defs nth_append split: if_splits)

interpretation dec: framing "decode_packet d" for d
  by unfold_locales (rule decode_packet_range, rule decode_packet_stable)

text \<open>The packets that the servers build are recognised.\<close>

lemma decode_net_message:
  assumes "9 + length b \<le> 8192"
  shows "decode_packet BoyaaDecoder (net_header (word_of_int (7 + int (length b))) cmd c @ b) = 9 + int (length b)"
proof -
  let ?l = "word_of_int (7 + int (length b)) :: c_short"
  have l: "uint ?l = 7 + int (length b)" unfolding uint_word_of_int using assms by simp
  have "take 2 (net_header ?l cmd c @ b) = le16 (ntohs ?l)" "(net_header ?l cmd c @ b) ! 2 = 0x42" "(net_header ?l cmd c @ b) ! 3 = 0x59"
    by (simp_all add: net_header_def bytes_of_string_def le16_def nth_append)
  then show ?thesis using assms l by (simp add: decoder_defs)
qed

text \<open>A length that does not even cover the header is accepted as well.\<close>

lemma decode_short_length: "decode_packet BoyaaDecoder ([0, 0, 0x42, 0x59, 1, 1, 0, 0, 0] @ r) = 2"
  by (simp add: decoder_defs ntohs_def le16_def)

lemma decode_one_byte: "decode_packet BoyaaDecoder1 ([0xFF, 0xFF, 0x42, 0x59, 1, 1, 0, 0, 0] @ r) = 1"
  by (simp add: decoder_defs)



end
