(* ===== verification/Poller.thy ===== *)
theory Poller
  imports Prelude
begin

text \<open>
  \<open>include/poller.h\<close>, \<open>src/core/poller.cpp\<close>: the objects that wait for events of a file descriptor, and the unit that dispatches the events that
  \<open>epoll_wait\<close> returns. The unit has a table of slots; a slot is its index, a null pointer to a slot is \<open>-1\<close>; an object is its address. The program
  has one unit. Whether the n-th call of \<open>epoll_ctl\<close> succeeds is the parameter \<open>os\<close>; the calls made so far and the descriptors closed
  are recorded in the unit. The identifier that the kernel returns with an event is the number of the slot and the count of the changes of the slot.
\<close>

section \<open>State\<close>

record CEpollSlot =
  es_seq :: c_int
  es_poller :: "nat option"
  es_freeList :: int

datatype epoll_op = EPOLL_CTL_ADD | EPOLL_CTL_DEL | EPOLL_CTL_MOD

record CPollerUnit =
  pu_table :: "CEpollSlot list"
  pu_maxPollers :: int
  pu_usedPollers :: int
  pu_freeSlotList :: int
  pu_epfd :: int
  pu_ctls :: "(epoll_op \<times> int \<times> (c_int \<times> 64 word) option) list"
  pu_closed :: "int list"

record CPollerObject =
  netfd :: int
  ownerUnit :: bool
  newEvents :: c_int
  oldEvents :: c_int
  epslot :: int

abbreviation NULL_SLOT :: int where "NULL_SLOT \<equiv> -1"
abbreviation EPOLLIN :: c_int where "EPOLLIN \<equiv> 1"
abbreviation EPOLLOUT :: c_int where "EPOLLOUT \<equiv> 4"
abbreviation EPOLLERR :: c_int where "EPOLLERR \<equiv> 8"
abbreviation EPOLLHUP :: c_int where "EPOLLHUP \<equiv> 16"
abbreviation POLLER_FAIL :: int where "POLLER_FAIL \<equiv> -1"
abbreviation POLLER_SUCC :: int where "POLLER_SUCC \<equiv> 0"
abbreviation POLLER_COMPLETE :: int where "POLLER_COMPLETE \<equiv> 1"

definition EnableInput :: "'a CPollerObject_scheme \<Rightarrow> 'a CPollerObject_scheme" where
  "EnableInput ob = ob\<lparr>newEvents := newEvents ob OR EPOLLIN\<rparr>"

definition EnableOutput :: "'a CPollerObject_scheme \<Rightarrow> 'a CPollerObject_scheme" where
  "EnableOutput ob = ob\<lparr>newEvents := newEvents ob OR EPOLLOUT\<rparr>"

definition DisableInput :: "'a CPollerObject_scheme \<Rightarrow> 'a CPollerObject_scheme" where
  "DisableInput ob = ob\<lparr>newEvents := newEvents ob AND NOT EPOLLIN\<rparr>"

definition DisableOutput :: "'a CPollerObject_scheme \<Rightarrow> 'a CPollerObject_scheme" where
  "DisableOutput ob = ob\<lparr>newEvents := newEvents ob AND NOT EPOLLOUT\<rparr>"

section \<open>The unit\<close>

definition CPollerUnit_new :: "int \<Rightarrow> CPollerUnit" where
  "CPollerUnit_new mp = \<lparr>pu_table = [], pu_maxPollers = mp, pu_usedPollers = 0, pu_freeSlotList = NULL_SLOT, pu_epfd = -1, pu_ctls = [], pu_closed = []\<rparr>"

definition SetMaxPollers :: "int \<Rightarrow> CPollerUnit \<Rightarrow> int \<times> CPollerUnit" where
  "SetMaxPollers mp u = (if 0 \<le> pu_epfd u then (-1, u) else (0, u\<lparr>pu_maxPollers := mp\<rparr>))"

text \<open>The arguments are whether the two calls of \<open>calloc\<close> succeed and the result of \<open>epoll_create\<close>.\<close>

definition InitializePollerUnit :: "bool \<Rightarrow> bool \<Rightarrow> int \<Rightarrow> CPollerUnit \<Rightarrow> (int \<times> CPollerUnit) option" where
  "InitializePollerUnit table_ok events_ok fd u =
     (if \<not> table_ok then Some (-1, u)
      else if pu_maxPollers u \<le> 0 then None
      else
        let n = pu_maxPollers u;
          u = u\<lparr>pu_table := map (\<lambda>i. \<lparr>es_seq = 0, es_poller = None, es_freeList = (if i < n - 1 then i + 1 else NULL_SLOT)\<rparr>) [0..n - 1],
                pu_freeSlotList := 0\<rparr>
        in if \<not> events_ok then Some (-1, u)
           else let u = u\<lparr>pu_epfd := fd\<rparr> in if fd = -1 then Some (-1, u) else Some (0, u))"

definition pu_slot :: "int \<Rightarrow> CPollerUnit \<Rightarrow> CEpollSlot option" where
  "pu_slot i u = (if 0 \<le> i \<and> i < int (length (pu_table u)) then Some (pu_table u ! nat i) else None)"

definition pu_set_slot :: "int \<Rightarrow> CEpollSlot \<Rightarrow> CPollerUnit \<Rightarrow> CPollerUnit" where
  "pu_set_slot i s u = u\<lparr>pu_table := (pu_table u)[nat i := s]\<rparr>"

definition EPOLL_DATA_SLOT :: "64 word \<Rightarrow> 64 word" where
  "EPOLL_DATA_SLOT data = data AND 0xFFFFFFFF"

definition EPOLL_DATA_SEQ :: "64 word \<Rightarrow> 64 word" where
  "EPOLL_DATA_SEQ data = drop_bit 32 data"

definition event_id :: "c_int \<Rightarrow> int \<Rightarrow> 64 word" where
  "event_id seq slot = push_bit 32 (ucast seq) + word_of_int slot"

text \<open>A slot number that is negative as an \<open>int\<close>, or beyond the table, is an access outside the table unless the first test catches it.\<close>

definition VerifyEvents :: "64 word \<Rightarrow> CPollerUnit \<Rightarrow> int option" where
  "VerifyEvents data u =
     (let idx = sint (ucast (EPOLL_DATA_SLOT data) :: c_int) in
        if pu_maxPollers u \<le> idx then Some (-1)
        else do {
          s \<leftarrow> pu_slot idx u;
          if EPOLL_DATA_SEQ data \<noteq> ucast (es_seq s) then Some (-1) else Some 0
        })"

definition FreeEpollSlot :: "int \<Rightarrow> CPollerUnit \<Rightarrow> CPollerUnit option" where
  "FreeEpollSlot p u =
     do {
       s \<leftarrow> pu_slot p u;
       let u = pu_set_slot p (s\<lparr>es_freeList := pu_freeSlotList u, es_poller := None, es_seq := es_seq s + 1\<rparr>) u;
       Some (u\<lparr>pu_freeSlotList := p, pu_usedPollers := pu_usedPollers u - 1\<rparr>)
     }"

definition AllocEpollSlot :: "CPollerUnit \<Rightarrow> (int \<times> CPollerUnit) option" where
  "AllocEpollSlot u =
     (let p = pu_freeSlotList u in
        if p = NULL_SLOT then Some (NULL_SLOT, u)
        else do {
          s \<leftarrow> pu_slot p u;
          let u = u\<lparr>pu_usedPollers := pu_usedPollers u + 1, pu_freeSlotList := es_freeList s\<rparr>;
          Some (p, pu_set_slot p (s\<lparr>es_freeList := NULL_SLOT\<rparr>) u)
        })"

definition Epctl :: "(nat \<Rightarrow> bool) \<Rightarrow> epoll_op \<Rightarrow> int \<Rightarrow> (c_int \<times> 64 word) option \<Rightarrow> CPollerUnit \<Rightarrow> int \<times> CPollerUnit" where
  "Epctl os op fd ev u = (if os (length (pu_ctls u)) then 0 else -1, u\<lparr>pu_ctls := pu_ctls u @ [(op, fd, ev)]\<rparr>)"

section \<open>The objects\<close>

definition CPollerObject_new :: CPollerObject where
  "CPollerObject_new = \<lparr>netfd = 0, ownerUnit = False, newEvents = 0, oldEvents = 0, epslot = NULL_SLOT\<rparr>"

definition CPollerObject_destroy :: "'a CPollerObject_scheme \<Rightarrow> CPollerUnit \<Rightarrow> CPollerUnit option" where
  "CPollerObject_destroy ob u =
     do {
       u \<leftarrow> (if ownerUnit ob \<and> epslot ob \<noteq> NULL_SLOT then FreeEpollSlot (epslot ob) u else Some u);
       Some (if 0 < netfd ob then u\<lparr>pu_closed := pu_closed u @ [netfd ob]\<rparr> else u)
     }"

definition ApplyEvents :: "(nat \<Rightarrow> bool) \<Rightarrow> 'a CPollerObject_scheme \<Rightarrow> CPollerUnit \<Rightarrow> (int \<times> 'a CPollerObject_scheme \<times> CPollerUnit) option" where
  "ApplyEvents os ob u =
     (if epslot ob = NULL_SLOT \<or> oldEvents ob = newEvents ob then Some (0, ob, u)
      else do {
        s \<leftarrow> pu_slot (epslot ob) u;
        let seq = es_seq s + 1;
        let u = pu_set_slot (epslot ob) (s\<lparr>es_seq := seq\<rparr>) u;
        let (ret, u) = Epctl os EPOLL_CTL_MOD (netfd ob) (Some (newEvents ob, event_id seq (epslot ob))) u;
        if ret = 0 then Some (0, ob\<lparr>oldEvents := newEvents ob\<rparr>, u) else Some (-1, ob, u)
      })"

text \<open>\<open>unit\<close> tells whether the argument is the unit or a null pointer.\<close>

definition AttachPoller :: "(nat \<Rightarrow> bool) \<Rightarrow> nat \<Rightarrow> bool \<Rightarrow> 'a CPollerObject_scheme \<Rightarrow> CPollerUnit \<Rightarrow> (int \<times> 'a CPollerObject_scheme \<times> CPollerUnit) option" where
  "AttachPoller os self unit ob u =
     (let ob = (if unit \<and> \<not> ownerUnit ob then ob\<lparr>ownerUnit := True\<rparr> else ob) in
        if netfd ob < 0 then Some (-1, ob, u)
        else if epslot ob = NULL_SLOT then
          (if \<not> ownerUnit ob then None
           else do {
             (p, u) \<leftarrow> AllocEpollSlot u;
             let ob = ob\<lparr>epslot := p\<rparr>;
             if p = NULL_SLOT then Some (-1, ob, u)
             else do {
               s \<leftarrow> pu_slot p u;
               let seq = es_seq s + 1;
               let u = pu_set_slot p (s\<lparr>es_poller := Some self, es_seq := seq\<rparr>) u;
               let (ret, u) = Epctl os EPOLL_CTL_ADD (netfd ob) (Some (newEvents ob, event_id seq p)) u;
               if ret = 0 then Some (0, ob\<lparr>oldEvents := newEvents ob\<rparr>, u) else Some (-1, ob, u)
             }
           })
        else ApplyEvents os ob u)"

definition GetPollerEventId :: "'a CPollerObject_scheme \<Rightarrow> CPollerUnit \<Rightarrow> 64 word option" where
  "GetPollerEventId ob u =
     (if epslot ob = NULL_SLOT then Some 0
      else do { s \<leftarrow> pu_slot (epslot ob) u; Some (event_id (es_seq s) (epslot ob)) })"

definition DetachPoller :: "(nat \<Rightarrow> bool) \<Rightarrow> 'a CPollerObject_scheme \<Rightarrow> CPollerUnit \<Rightarrow> (int \<times> 'a CPollerObject_scheme \<times> CPollerUnit) option" where
  "DetachPoller os ob u =
     (if epslot ob = NULL_SLOT then Some (0, ob, u)
      else
        let (ret, u) = Epctl os EPOLL_CTL_DEL (netfd ob) None u in
          if ret \<noteq> 0 then Some (-1, ob, u)
          else do {
            u \<leftarrow> FreeEpollSlot (epslot ob) u;
            Some (0, ob\<lparr>oldEvents := newEvents ob, epslot := NULL_SLOT\<rparr>, u)
          })"

section \<open>Dispatch\<close>

datatype notification = Input | Output | Hangup

text \<open>The unit with the live objects; a subclass keeps its own state beside them. The virtual calls \<open>InputNotify\<close>, \<open>OutputNotify\<close>,
  \<open>HangupNotify\<close> are the parameter \<open>notify\<close>.\<close>

record 'o reactor =
  rx_unit :: CPollerUnit
  rx_objs :: "nat \<rightharpoonup> 'o"

definition notify_if :: "(notification \<Rightarrow> nat \<Rightarrow> ('o, 'w) reactor_scheme \<Rightarrow> (int \<times> ('o, 'w) reactor_scheme) option) \<Rightarrow>
    bool \<Rightarrow> notification \<Rightarrow> int \<Rightarrow> nat \<Rightarrow> ('o, 'w) reactor_scheme \<Rightarrow> (bool \<times> ('o, 'w) reactor_scheme) option" where
  "notify_if notify go k slot p r =
     (if \<not> go then Some (True, r)
      else do {
        (ret_code, r) \<leftarrow> notify k p r;
        s \<leftarrow> pu_slot slot (rx_unit r);
        Some (es_poller s = Some p \<and> ret_code = POLLER_SUCC, r)
      })"

fun process_event :: "(nat \<Rightarrow> bool) \<Rightarrow>
    (notification \<Rightarrow> nat \<Rightarrow> ('a CPollerObject_scheme, 'w) reactor_scheme \<Rightarrow> (int \<times> ('a CPollerObject_scheme, 'w) reactor_scheme) option) \<Rightarrow>
    c_int \<times> 64 word \<Rightarrow> ('a CPollerObject_scheme, 'w) reactor_scheme \<Rightarrow> ('a CPollerObject_scheme, 'w) reactor_scheme option" where
  "process_event os notify (events, data) r =
     do {
       v \<leftarrow> VerifyEvents data (rx_unit r);
       if v = -1 then Some r
       else do {
         let slot = uint (EPOLL_DATA_SLOT data);
         s \<leftarrow> pu_slot slot (rx_unit r);
         p \<leftarrow> es_poller s;
         ob \<leftarrow> rx_objs r p;
         let r = r\<lparr>rx_objs := (rx_objs r)(p \<mapsto> ob\<lparr>newEvents := oldEvents ob\<rparr>)\<rparr>;
         if events AND (EPOLLHUP OR EPOLLERR) \<noteq> 0 then do { (_, r) \<leftarrow> notify Hangup p r; Some r }
         else do {
           (go, r) \<leftarrow> notify_if notify (events AND EPOLLIN \<noteq> 0) Input slot p r;
           if \<not> go then Some r
           else do {
             (go, r) \<leftarrow> notify_if notify (events AND EPOLLOUT \<noteq> 0) Output slot p r;
             if \<not> go then Some r
             else do {
               ob \<leftarrow> rx_objs r p;
               (_, ob, u) \<leftarrow> ApplyEvents os ob (rx_unit r);
               Some (r\<lparr>rx_unit := u, rx_objs := (rx_objs r)(p \<mapsto> ob)\<rparr>)
             }
           }
         }
       }
     }"

fun ProcessPollerEvents :: "(nat \<Rightarrow> bool) \<Rightarrow>
    (notification \<Rightarrow> nat \<Rightarrow> ('a CPollerObject_scheme, 'w) reactor_scheme \<Rightarrow> (int \<times> ('a CPollerObject_scheme, 'w) reactor_scheme) option) \<Rightarrow>
    (c_int \<times> 64 word) list \<Rightarrow> ('a CPollerObject_scheme, 'w) reactor_scheme \<Rightarrow> ('a CPollerObject_scheme, 'w) reactor_scheme option" where
  "ProcessPollerEvents os notify [] r = Some r"
| "ProcessPollerEvents os notify (e # es) r = do { r \<leftarrow> process_event os notify e r; ProcessPollerEvents os notify es r }"

section \<open>Identifiers\<close>

lemma uint_event_id:
  assumes "0 \<le> i" "i < 2 ^ 32"
  shows "uint (event_id q i) = uint q * 2 ^ 32 + i"
proof -
  have q: "uint q < 2 ^ 32" "0 \<le> uint q" using uint_range_size [of q] by (simp_all add: word_size)
  have "uint (ucast q :: 64 word) = uint q" by (simp add: uint_up_ucast is_up)
  then have "uint (push_bit 32 (ucast q :: 64 word)) = uint q * 2 ^ 32"
    using q by (simp add: push_bit_eq_mult uint_word_ariths)
  moreover have "uint (word_of_int i :: 64 word) = i" using assms by (simp add: uint_word_of_int)
  moreover have "uint q * 2 ^ 32 + i < 2 ^ 64" using q assms by simp
  ultimately show ?thesis using q assms by (simp add: event_id_def uint_word_ariths)
qed

lemma event_id_parts:
  assumes "0 \<le> i" "i < 2 ^ 31"
  shows "uint (EPOLL_DATA_SLOT (event_id q i)) = i" "sint (ucast (EPOLL_DATA_SLOT (event_id q i)) :: c_int) = i" "EPOLL_DATA_SEQ (event_id q i) = ucast q"
proof -
  have u: "uint (event_id q i) = uint q * 2 ^ 32 + i" by (rule uint_event_id) (use assms in simp_all)
  have "(0xFFFFFFFF :: 64 word) = mask 32" by (simp add: mask_eq_exp_minus_1)
  then have "EPOLL_DATA_SLOT (event_id q i) = take_bit 32 (event_id q i)" by (simp add: EPOLL_DATA_SLOT_def take_bit_eq_mask)
  then have "uint (EPOLL_DATA_SLOT (event_id q i)) = take_bit 32 (uint (event_id q i))" by (simp only: unsigned_take_bit_eq)
  then have "uint (EPOLL_DATA_SLOT (event_id q i)) = uint (event_id q i) mod 2 ^ 32" by (simp only: take_bit_eq_mod)
  then show s: "uint (EPOLL_DATA_SLOT (event_id q i)) = i" unfolding u using assms by simp
  have "ucast (EPOLL_DATA_SLOT (event_id q i)) = (word_of_int i :: c_int)" using s by (metis word_of_int_uint ucast_eq)
  then show "sint (ucast (EPOLL_DATA_SLOT (event_id q i)) :: c_int) = i"
    using assms sint_word_of_int_c_int [of i] by (simp add: int_min_def int_max_def)
  have "uint (EPOLL_DATA_SEQ (event_id q i)) = uint (event_id q i) div 2 ^ 32" 
    unfolding EPOLL_DATA_SEQ_def uint_nat unat_drop_bit_eq by (simp only: drop_bit_eq_div zdiv_int of_nat_power of_nat_numeral)
  also have "\<dots> = uint q" unfolding u using assms by simp
  finally show "EPOLL_DATA_SEQ (event_id q i) = ucast q" by (metis word_of_int_uint ucast_eq)
qed

lemma event_id_inj:
  assumes "0 \<le> i" "i < 2 ^ 31" "0 \<le> j" "j < 2 ^ 31" "event_id q i = event_id q' j"
  shows "q = q'" "i = j"
proof -
  show "i = j" using event_id_parts(1) [of i q] event_id_parts(1) [of j q'] assms by metis
  then show "q = q'" using uint_event_id [of i q] uint_event_id [of j q'] assms by (simp add: word_uint_eq_iff)
qed

section \<open>Slots\<close>

definition attached :: "CPollerUnit \<Rightarrow> nat \<Rightarrow> int \<Rightarrow> bool" where
  "attached u p i \<longleftrightarrow> (\<exists>s. pu_slot i u = Some s \<and> es_poller s = Some p)"

definition slot_next :: "CPollerUnit \<Rightarrow> int \<Rightarrow> int option" where
  "slot_next u i = map_option es_freeList (pu_slot i u)"

text \<open>The free list links exactly the slots without an object.\<close>

definition free_chain :: "CPollerUnit \<Rightarrow> int list \<Rightarrow> bool" where
  "free_chain u fl \<longleftrightarrow> chain (slot_next u) (pu_freeSlotList u) fl \<and> distinct fl \<and> set fl = {i. \<exists>s. pu_slot i u = Some s \<and> es_poller s = None} \<and>
     pu_usedPollers u = int (length (pu_table u)) - int (length fl)"

text \<open>Every identifier given to the kernel names a slot of the table and a count that the slot has reached, and has passed if it is free.\<close>

definition ids_ok :: "CPollerUnit \<Rightarrow> bool" where
  "ids_ok u \<longleftrightarrow> (\<forall>ctl fd ev d. (ctl, fd, Some (ev, d)) \<in> set (pu_ctls u) \<longrightarrow>
     (\<exists>i s q. pu_slot i u = Some s \<and> d = event_id q i \<and> uint q \<le> uint (es_seq s) \<and> (es_poller s = None \<longrightarrow> uint q < uint (es_seq s))))"

definition unit_ok :: "CPollerUnit \<Rightarrow> bool" where
  "unit_ok u \<longleftrightarrow> (\<exists>fl. free_chain u fl) \<and> (\<forall>p i j. attached u p i \<longrightarrow> attached u p j \<longrightarrow> i = j) \<and>
     pu_maxPollers u = int (length (pu_table u)) \<and> length (pu_table u) < 2 ^ 31 \<and> ids_ok u"

text \<open>The count of no slot is about to wrap around.\<close>

definition seq_room :: "CPollerUnit \<Rightarrow> bool" where
  "seq_room u \<longleftrightarrow> (\<forall>i s. pu_slot i u = Some s \<longrightarrow> uint (es_seq s) + 1 < 2 ^ 32)"

definition obj_ok :: "CPollerUnit \<Rightarrow> nat \<Rightarrow> 'a CPollerObject_scheme \<Rightarrow> bool" where
  "obj_ok u p ob \<longleftrightarrow> (if epslot ob = NULL_SLOT then \<forall>i. \<not> attached u p i else attached u p (epslot ob) \<and> ownerUnit ob)"

lemma pu_slot_range: "pu_slot i u = Some s \<Longrightarrow> 0 \<le> i \<and> i < int (length (pu_table u))"
  by (simp add: pu_slot_def split: if_splits)

lemma pu_slot_simps [simp]:
  "pu_slot i (u\<lparr>pu_ctls := c\<rparr>) = pu_slot i u" "pu_slot i (u\<lparr>pu_freeSlotList := f\<rparr>) = pu_slot i u"
  "pu_slot i (u\<lparr>pu_usedPollers := n\<rparr>) = pu_slot i u" "pu_slot i (u\<lparr>pu_closed := x\<rparr>) = pu_slot i u"
  by (simp_all add: pu_slot_def)

lemma pu_set_slot_simps [simp]:
  "length (pu_table (pu_set_slot i s u)) = length (pu_table u)" "pu_freeSlotList (pu_set_slot i s u) = pu_freeSlotList u"
  "pu_usedPollers (pu_set_slot i s u) = pu_usedPollers u" "pu_ctls (pu_set_slot i s u) = pu_ctls u" "pu_closed (pu_set_slot i s u) = pu_closed u"
  "pu_maxPollers (pu_set_slot i s u) = pu_maxPollers u" "pu_epfd (pu_set_slot i s u) = pu_epfd u"
  by (simp_all add: pu_set_slot_def)

lemma pu_slot_set:
  "pu_slot i u = Some t \<Longrightarrow> pu_slot j (pu_set_slot i s u) = (if j = i then Some s else pu_slot j u)"
  by (auto simp: pu_slot_def pu_set_slot_def nth_list_update nat_eq_iff split: if_splits)

lemma uint_inc: "uint (w :: c_int) + 1 < 2 ^ 32 \<Longrightarrow> uint (w + 1) = uint w + 1"
  by (simp add: uint_word_ariths)

lemma unit_okD:
  assumes "unit_ok u"
  shows "\<exists>fl. free_chain u fl" "\<And>p i j. attached u p i \<Longrightarrow> attached u p j \<Longrightarrow> i = j"
    "pu_maxPollers u = int (length (pu_table u))" "length (pu_table u) < 2 ^ 31" "ids_ok u"
  using assms unfolding unit_ok_def by blast+

lemma pu_slot_id:
  "unit_ok u \<Longrightarrow> pu_slot i u = Some s \<Longrightarrow> 0 \<le> i \<and> i < 2 ^ 31"
  using pu_slot_range [of i u s] unit_okD(4) [of u] by auto

text \<open>Only the trace of closed descriptors changes.\<close>

lemma slot_next_closed [simp]: "slot_next (u\<lparr>pu_closed := x\<rparr>) = slot_next u"
  by (rule ext) (simp add: slot_next_def)

lemma unit_ok_closed [simp]: "unit_ok (u\<lparr>pu_closed := x\<rparr>) = unit_ok u" "attached (u\<lparr>pu_closed := x\<rparr>) = attached u"
  by (simp_all add: unit_ok_def free_chain_def attached_def ids_ok_def fun_eq_iff)

text \<open>An identifier was given out; the slot it names has the same object as before, or a new one.\<close>

lemma ids_ok_touch:
  assumes ok: "unit_ok u" and s: "pu_slot i u = Some s" and room: "uint (es_seq s) + 1 < 2 ^ 32"
    and s': "pu_slot i u' = Some s'" "es_seq s' = es_seq s + 1" "es_poller s' = Some p"
    and rest: "\<And>j. j \<noteq> i \<Longrightarrow> pu_slot j u' = pu_slot j u"
    and ctl: "pu_ctls u' = pu_ctls u @ [(c, fd, Some (ev, event_id (es_seq s + 1) i))]"
  shows "ids_ok u'"
  unfolding ids_ok_def
proof (intro allI impI)
  fix c' fd' ev' d assume "(c', fd', Some (ev', d)) \<in> set (pu_ctls u')"
  then consider "(c', fd', Some (ev', d)) \<in> set (pu_ctls u)" | "d = event_id (es_seq s + 1) i" using ctl by auto
  then show "\<exists>i s q. pu_slot i u' = Some s \<and> d = event_id q i \<and> uint q \<le> uint (es_seq s) \<and> (es_poller s = None \<longrightarrow> uint q < uint (es_seq s))"
  proof cases
    case 1
    then have "\<exists>j t q. pu_slot j u = Some t \<and> d = event_id q j \<and> uint q \<le> uint (es_seq t) \<and> (es_poller t = None \<longrightarrow> uint q < uint (es_seq t))"
      by (rule unit_okD(5) [OF ok, unfolded ids_ok_def, rule_format])
    then obtain j t q where t: "pu_slot j u = Some t" "d = event_id q j" "uint q \<le> uint (es_seq t)" "es_poller t = None \<longrightarrow> uint q < uint (es_seq t)"
      by metis
    show ?thesis
    proof (cases "j = i")
      case True
      then have "uint q \<le> uint (es_seq s')" using t s s'(2) uint_inc [OF room] by simp
      then show ?thesis using t(2) s' True by (intro exI [of _ i] exI [of _ s'] exI [of _ q]) simp
    next
      case False
      then have "pu_slot j u' = Some t" using rest t(1) by simp
      then show ?thesis using t by (intro exI [of _ j] exI [of _ t] exI [of _ q]) simp
    qed
  next
    case 2
    then show ?thesis using s' by (intro exI [of _ i] exI [of _ s'] exI [of _ "es_seq s'"]) simp
  qed
qed

lemma attached_other:
  assumes "\<And>j. j \<noteq> i \<Longrightarrow> pu_slot j u' = pu_slot j u"
  shows "j \<noteq> i \<Longrightarrow> attached u' p j = attached u p j"
  using assms by (simp add: attached_def)

lemma ApplyEvents_ok:
  assumes ok: "unit_ok u" and ob: "obj_ok u p ob" and room: "seq_room u"
  shows "\<exists>r ob' u'. ApplyEvents os ob u = Some (r, ob', u') \<and> unit_ok u' \<and> attached u' = attached u \<and> obj_ok u' p ob' \<and>
    epslot ob' = epslot ob \<and> newEvents ob' = newEvents ob \<and> netfd ob' = netfd ob \<and> pu_closed u' = pu_closed u"
proof (cases "epslot ob = NULL_SLOT \<or> oldEvents ob = newEvents ob")
  case True
  then show ?thesis using ok ob by (auto simp: ApplyEvents_def)
next
  case False
  let ?i = "epslot ob"
  have at: "attached u p ?i" and own: "ownerUnit ob" using ob False by (auto simp: obj_ok_def)
  obtain s where s: "pu_slot ?i u = Some s" "es_poller s = Some p" using at by (auto simp: attached_def)
  let ?s = "s\<lparr>es_seq := es_seq s + 1\<rparr>"
  let ?u = "(pu_set_slot ?i ?s u)\<lparr>pu_ctls := pu_ctls u @ [(EPOLL_CTL_MOD, netfd ob, Some (newEvents ob, event_id (es_seq s + 1) ?i))]\<rparr>"
  note sl = pu_slot_set [OF s(1), of _ ?s]
  have att: "attached ?u = attached u" using s by (auto simp: fun_eq_iff attached_def sl)
  have "ids_ok ?u" by (rule ids_ok_touch [OF ok s(1), where s' = ?s and p = p]) (use room s sl in \<open>auto simp: seq_room_def\<close>)
  moreover obtain fl where fl: "free_chain u fl" using unit_okD(1) [OF ok] by blast
  have "slot_next ?u = slot_next u" using s by (auto simp: fun_eq_iff slot_next_def sl)
  then have "free_chain ?u fl" using fl s sl by (auto simp: free_chain_def)
  moreover have "length (pu_table ?u) = length (pu_table u)" "pu_maxPollers ?u = pu_maxPollers u" by simp_all
  ultimately have "unit_ok ?u" using unit_okD(2-4) [OF ok] unfolding unit_ok_def att by metis
  moreover have "\<exists>r ob'. ApplyEvents os ob u = Some (r, ob', ?u) \<and> epslot ob' = ?i \<and> newEvents ob' = newEvents ob \<and> netfd ob' = netfd ob \<and> ownerUnit ob'"
    using False s own by (auto simp: ApplyEvents_def Epctl_def Let_def)
  moreover have "obj_ok ?u p ob'" if "epslot ob' = ?i" "ownerUnit ob'" for ob' :: "'a CPollerObject_scheme" using that at False att by (simp add: obj_ok_def)
  ultimately show ?thesis using att by (elim exE conjE) (intro exI conjI; assumption?; simp)
qed

lemma FreeEpollSlot_ok:
  assumes ok: "unit_ok u" and s: "pu_slot i u = Some s" "es_poller s = Some p" and room: "seq_room u"
  shows "\<exists>u'. FreeEpollSlot i u = Some u' \<and> unit_ok u' \<and> (\<forall>q j. attached u' q j \<longleftrightarrow> attached u q j \<and> j \<noteq> i) \<and>
    pu_ctls u' = pu_ctls u \<and> pu_closed u' = pu_closed u"
proof -
  let ?s = "s\<lparr>es_freeList := pu_freeSlotList u, es_poller := None, es_seq := es_seq s + 1\<rparr>"
  let ?u = "(pu_set_slot i ?s u)\<lparr>pu_freeSlotList := i, pu_usedPollers := pu_usedPollers u - 1\<rparr>"
  note sl = pu_slot_set [OF s(1), of _ ?s]
  have r: "uint (es_seq s + 1) = uint (es_seq s) + 1" by (rule uint_inc) (use room s in \<open>auto simp: seq_room_def\<close>)
  have att: "attached ?u q j \<longleftrightarrow> attached u q j \<and> j \<noteq> i" for q j by (auto simp: attached_def sl)
  obtain fl where fl: "free_chain u fl" using unit_okD(1) [OF ok] by blast
  have i: "i \<notin> set fl" "0 \<le> i" using fl s pu_slot_range [OF s(1)] by (auto simp: free_chain_def)
  have nx: "slot_next ?u j = (if j = i then Some (pu_freeSlotList u) else slot_next u j)" for j by (simp add: slot_next_def sl)
  have "chain (slot_next ?u) (pu_freeSlotList u) fl = chain (slot_next u) (pu_freeSlotList u) fl"
    by (rule chain_cong) (use i nx in auto)
  then have "chain (slot_next ?u) (pu_freeSlotList ?u) (i # fl)" using fl i nx by (simp add: free_chain_def)
  moreover have "{j. \<exists>t. pu_slot j ?u = Some t \<and> es_poller t = None} = insert i {j. \<exists>t. pu_slot j u = Some t \<and> es_poller t = None}"
    by (auto simp: sl)
  ultimately have "free_chain ?u (i # fl)" using fl i by (simp add: free_chain_def)
  moreover have "ids_ok ?u"
    unfolding ids_ok_def
  proof (intro allI impI)
    fix c fd ev d assume "(c, fd, Some (ev, d)) \<in> set (pu_ctls ?u)"
    then have "(c, fd, Some (ev, d)) \<in> set (pu_ctls u)" by simp
    then have "\<exists>j t q. pu_slot j u = Some t \<and> d = event_id q j \<and> uint q \<le> uint (es_seq t) \<and> (es_poller t = None \<longrightarrow> uint q < uint (es_seq t))"
      by (rule unit_okD(5) [OF ok, unfolded ids_ok_def, rule_format])
    then obtain j t q where t: "pu_slot j u = Some t" "d = event_id q j" "uint q \<le> uint (es_seq t)" "es_poller t = None \<longrightarrow> uint q < uint (es_seq t)"
      by metis
    show "\<exists>j t q. pu_slot j ?u = Some t \<and> d = event_id q j \<and> uint q \<le> uint (es_seq t) \<and> (es_poller t = None \<longrightarrow> uint q < uint (es_seq t))"
      by (rule exI [of _ j], rule exI [of _ "if j = i then ?s else t"], rule exI [of _ q]) (use t s sl r in auto)
  qed
  moreover have "FreeEpollSlot i u = Some ?u" using s by (simp add: FreeEpollSlot_def Let_def)
  ultimately show ?thesis using unit_okD(2-4) [OF ok] att
    by (intro exI [of _ ?u] conjI) (auto simp: unit_ok_def)
qed

lemma DetachPoller_ok:
  assumes ok: "unit_ok u" and ob: "obj_ok u p ob" and room: "seq_room u"
  shows "\<exists>r ob' u'. DetachPoller os ob u = Some (r, ob', u') \<and> unit_ok u' \<and> obj_ok u' p ob' \<and>
    (\<forall>q j. q \<noteq> p \<longrightarrow> attached u' q j = attached u q j) \<and> netfd ob' = netfd ob \<and> newEvents ob' = newEvents ob \<and> pu_closed u' = pu_closed u"
proof (cases "epslot ob = NULL_SLOT")
  case True
  then show ?thesis using ok ob by (simp add: DetachPoller_def)
next
  case False
  let ?i = "epslot ob"
  have at: "attached u p ?i" using ob False by (simp add: obj_ok_def)
  let ?u = "u\<lparr>pu_ctls := pu_ctls u @ [(EPOLL_CTL_DEL, netfd ob, None)]\<rparr>"
  have att: "attached ?u = attached u" by (simp add: attached_def fun_eq_iff)
  have "slot_next ?u = slot_next u" by (simp add: slot_next_def fun_eq_iff)
  then have ok': "unit_ok ?u" using ok by (simp add: unit_ok_def free_chain_def att ids_ok_def)
  have room': "seq_room ?u" using room by (simp add: seq_room_def)
  obtain s where s: "pu_slot ?i ?u = Some s" "es_poller s = Some p" using at by (auto simp: attached_def)
  obtain u' where u': "FreeEpollSlot ?i ?u = Some u'" "unit_ok u'" "\<And>q j. attached u' q j \<longleftrightarrow> attached ?u q j \<and> j \<noteq> ?i" "pu_closed u' = pu_closed u"
    using FreeEpollSlot_ok [OF ok' s room'] by auto
  show ?thesis
  proof (cases "os (length (pu_ctls u))")
    case True
    let ?ob = "ob\<lparr>oldEvents := newEvents ob, epslot := NULL_SLOT\<rparr>"
    have "DetachPoller os ob u = Some (0, ?ob, u')" using True False u'(1) by (simp add: DetachPoller_def Epctl_def)
    moreover have "\<not> attached u' p j" for j using u'(3) att at unit_okD(2) [OF ok] by metis
    moreover have "attached u' q j = attached u q j" if "q \<noteq> p" for q j
      using u'(3) att at that by (auto simp: attached_def)
    ultimately show ?thesis using u'(2,4) by (simp add: obj_ok_def)
  next
    case f: False
    then have "DetachPoller os ob u = Some (-1, ob, ?u)" using False by (simp add: DetachPoller_def Epctl_def)
    then show ?thesis using ok' ob att by (simp add: obj_ok_def)
  qed
qed

lemma CPollerObject_destroy_ok:
  assumes ok: "unit_ok u" and ob: "obj_ok u p ob" and room: "seq_room u"
  shows "\<exists>u'. CPollerObject_destroy ob u = Some u' \<and> unit_ok u' \<and> (\<forall>j. \<not> attached u' p j) \<and> (\<forall>q j. q \<noteq> p \<longrightarrow> attached u' q j = attached u q j) \<and>
    pu_closed u' = pu_closed u @ (if 0 < netfd ob then [netfd ob] else [])"
proof (cases "epslot ob = NULL_SLOT")
  case True
  then show ?thesis using ok ob by (simp add: CPollerObject_destroy_def obj_ok_def)
next
  case False
  have at: "attached u p (epslot ob)" and own: "ownerUnit ob" using ob False by (simp_all add: obj_ok_def)
  obtain s where s: "pu_slot (epslot ob) u = Some s" "es_poller s = Some p" using at by (auto simp: attached_def)
  obtain u' where u': "FreeEpollSlot (epslot ob) u = Some u'" "unit_ok u'" "\<And>q j. attached u' q j \<longleftrightarrow> attached u q j \<and> j \<noteq> epslot ob" "pu_closed u' = pu_closed u"
    using FreeEpollSlot_ok [OF ok s room] by auto
  have "\<not> attached u' p j" for j using u'(3) at unit_okD(2) [OF ok] by metis
  moreover have "attached u' q j = attached u q j" if "q \<noteq> p" for q j using u'(3) at that by (auto simp: attached_def)
  ultimately show ?thesis using False own u'(1,2,4) by (simp add: CPollerObject_destroy_def)
qed

text \<open>Attaching takes the first free slot, if there is one.\<close>

lemma AttachPoller_ok:
  assumes ok: "unit_ok u" and ob: "obj_ok u p ob" and room: "seq_room u" and owner: "un \<or> ownerUnit ob"
  shows "\<exists>r ob' u'. AttachPoller os p un ob u = Some (r, ob', u') \<and> unit_ok u' \<and> obj_ok u' p ob' \<and>
    (\<forall>q j. q \<noteq> p \<longrightarrow> attached u' q j = attached u q j) \<and> netfd ob' = netfd ob \<and> newEvents ob' = newEvents ob \<and> pu_closed u' = pu_closed u \<and>
    (r = 0 \<or> 0 \<le> netfd ob \<and> pu_usedPollers u < pu_maxPollers u \<longrightarrow> epslot ob' \<noteq> NULL_SLOT)"
proof -
  define ob1 where "ob1 = (if un \<and> \<not> ownerUnit ob then ob\<lparr>ownerUnit := True\<rparr> else ob)"
  have ob1: "ownerUnit ob1" "netfd ob1 = netfd ob" "newEvents ob1 = newEvents ob" "epslot ob1 = epslot ob" "obj_ok u p ob1"
    using owner ob by (auto simp: ob1_def obj_ok_def)
  have D: "AttachPoller os p un ob u = (if netfd ob < 0 then Some (-1, ob1, u) else if epslot ob = NULL_SLOT then do {
             (i, u) \<leftarrow> AllocEpollSlot u;
             let ob1 = ob1\<lparr>epslot := i\<rparr>;
             if i = NULL_SLOT then Some (-1, ob1, u)
             else do {
               s \<leftarrow> pu_slot i u;
               let seq = es_seq s + 1;
               let u = pu_set_slot i (s\<lparr>es_poller := Some p, es_seq := seq\<rparr>) u;
               let (ret, u) = Epctl os EPOLL_CTL_ADD (netfd ob1) (Some (newEvents ob1, event_id seq i)) u;
               if ret = 0 then Some (0, ob1\<lparr>oldEvents := newEvents ob1\<rparr>, u) else Some (-1, ob1, u)
             } } else ApplyEvents os ob1 u)"
    using ob1(1,2,4) unfolding AttachPoller_def ob1_def [symmetric] Let_def by simp
  consider (bad) "netfd ob < 0" | (change) "\<not> netfd ob < 0" "epslot ob \<noteq> NULL_SLOT" | (add) "\<not> netfd ob < 0" "epslot ob = NULL_SLOT" by blast
  then show ?thesis
  proof cases
    case bad
    then show ?thesis using D ok ob1 by simp
  next
    case change
    obtain r ob' u' where a: "ApplyEvents os ob1 u = Some (r, ob', u')" "unit_ok u'" "attached u' = attached u" "obj_ok u' p ob'"
      "epslot ob' = epslot ob" "newEvents ob' = newEvents ob" "netfd ob' = netfd ob" "pu_closed u' = pu_closed u"
      using ApplyEvents_ok [OF ok ob1(5) room, of os] ob1 by auto
    have "AttachPoller os p un ob u = Some (r, ob', u')" unfolding D using a(1) change by simp
    then show ?thesis using a change by simp
  next
    case add
    obtain fl where fl: "free_chain u fl" using unit_okD(1) [OF ok] by blast
    show ?thesis
    proof (cases fl)
      case Nil
      then have "pu_freeSlotList u = NULL_SLOT" using fl by (simp add: free_chain_def)
      then have "AttachPoller os p un ob u = Some (-1, ob1\<lparr>epslot := NULL_SLOT\<rparr>, u)" unfolding D using add by (simp add: AllocEpollSlot_def)
      moreover have "pu_usedPollers u = pu_maxPollers u" using fl Nil unit_okD(3) [OF ok] by (simp add: free_chain_def)
      ultimately show ?thesis using ok ob1 add by (simp add: obj_ok_def)
    next
      case (Cons i fl')
      have i: "pu_freeSlotList u = i" "i \<noteq> NULL_SLOT" "i \<notin> set fl'" using fl Cons by (auto simp: free_chain_def)
      have "i \<in> set fl" using Cons by simp
      then have "i \<in> {i. \<exists>s. pu_slot i u = Some s \<and> es_poller s = None}" using fl unfolding free_chain_def by blast
      then obtain s where s: "pu_slot i u = Some s" "es_poller s = None" by blast
      let ?s = "s\<lparr>es_freeList := NULL_SLOT, es_poller := Some p, es_seq := es_seq s + 1\<rparr>"
      let ?u = "(pu_set_slot i ?s u)\<lparr>pu_usedPollers := pu_usedPollers u + 1, pu_freeSlotList := es_freeList s,
          pu_ctls := pu_ctls u @ [(EPOLL_CTL_ADD, netfd ob, Some (newEvents ob, event_id (es_seq s + 1) i))]\<rparr>"
      note sl = pu_slot_set [OF s(1), of _ ?s]
      have two: "pu_set_slot i t (pu_set_slot i t' x) = pu_set_slot i t x" for t t' x by (simp add: pu_set_slot_def)
      have comm: "pu_set_slot i t (x\<lparr>pu_usedPollers := a, pu_freeSlotList := b\<rparr>) = (pu_set_slot i t x)\<lparr>pu_usedPollers := a, pu_freeSlotList := b\<rparr>" for t x a b
        by (simp add: pu_set_slot_def)
      have al: "AllocEpollSlot u = Some (i, (pu_set_slot i (s\<lparr>es_freeList := NULL_SLOT\<rparr>) u)\<lparr>pu_usedPollers := pu_usedPollers u + 1, pu_freeSlotList := es_freeList s\<rparr>)"
        using i s by (simp add: AllocEpollSlot_def comm Let_def)
      have at: "\<exists>r. AttachPoller os p un ob u = Some (r, (if r = 0 then ob1\<lparr>epslot := i, oldEvents := newEvents ob\<rparr> else ob1\<lparr>epslot := i\<rparr>), ?u)"
        unfolding D using add i(2) ob1 pu_slot_set [OF s(1)]
        by (simp add: al comm two Epctl_def Let_def)
      have att: "attached ?u q j \<longleftrightarrow> attached u q j \<or> q = p \<and> j = i" for q j using s by (auto simp: attached_def sl)
      have none: "\<not> attached u p j" for j using ob add by (simp add: obj_ok_def)
      have nx: "slot_next ?u j = (if j = i then Some NULL_SLOT else slot_next u j)" for j by (simp add: slot_next_def sl)
      have "chain (slot_next u) (es_freeList s) fl'" using fl Cons i s by (auto simp: free_chain_def slot_next_def)
      then have "chain (slot_next ?u) (es_freeList s) fl'" using chain_cong [of fl' "slot_next ?u" "slot_next u"] nx i(3) by metis
      moreover have "{j. \<exists>t. pu_slot j ?u = Some t \<and> es_poller t = None} = {j. \<exists>t. pu_slot j u = Some t \<and> es_poller t = None} - {i}"
        by (auto simp: sl)
      ultimately have "free_chain ?u fl'" using fl Cons i(3) by (auto simp: free_chain_def)
      moreover have "ids_ok ?u" by (rule ids_ok_touch [OF ok s(1), where s' = ?s and p = p]) (use room s sl in \<open>auto simp: seq_room_def\<close>)
      moreover have "\<forall>q j k. attached ?u q j \<longrightarrow> attached ?u q k \<longrightarrow> j = k" using unit_okD(2) [OF ok] none unfolding att by metis
      ultimately have "unit_ok ?u" using unit_okD(3,4) [OF ok] by (auto simp: unit_ok_def)
      moreover have "obj_ok ?u p (if r = 0 then ob1\<lparr>epslot := i, oldEvents := newEvents ob\<rparr> else ob1\<lparr>epslot := i\<rparr>)" for r :: int
        using i(2) ob1(1) att by (simp add: obj_ok_def)
      ultimately show ?thesis using at att i(2) ob1 by (elim exE) (intro exI conjI, assumption, auto)
    qed
  qed
qed

section \<open>Runs of the event loop\<close>

text \<open>The unit with the objects that are alive: objects are created, their events are switched on or off, they are attached, brought up to date,
  detached, connected anew and destroyed. The count of a slot wraps around after \<open>2 ^ 32\<close> changes, which is excluded.\<close>

inductive poller_state :: "(nat \<Rightarrow> bool) \<Rightarrow> CPollerUnit \<Rightarrow> (nat \<rightharpoonup> CPollerObject) \<Rightarrow> bool" for os where
  start: "InitializePollerUnit tb evs fd (CPollerUnit_new n) = Some (0, u) \<Longrightarrow> n < 2 ^ 31 \<Longrightarrow> poller_state os u Map.empty"
| created: "poller_state os u objs \<Longrightarrow> objs p = None \<Longrightarrow> poller_state os u (objs(p \<mapsto> CPollerObject_new))"
| changed: "poller_state os u objs \<Longrightarrow> objs p = Some ob \<Longrightarrow> poller_state os u (objs(p \<mapsto> ob\<lparr>newEvents := e, netfd := f\<rparr>))"
| attach: "poller_state os u objs \<Longrightarrow> seq_room u \<Longrightarrow> objs p = Some ob \<Longrightarrow> AttachPoller os p True ob u = Some (r, ob', u') \<Longrightarrow> poller_state os u' (objs(p \<mapsto> ob'))"
| applied: "poller_state os u objs \<Longrightarrow> seq_room u \<Longrightarrow> objs p = Some ob \<Longrightarrow> ApplyEvents os ob u = Some (r, ob', u') \<Longrightarrow> poller_state os u' (objs(p \<mapsto> ob'))"
| detach: "poller_state os u objs \<Longrightarrow> seq_room u \<Longrightarrow> objs p = Some ob \<Longrightarrow> DetachPoller os ob u = Some (r, ob', u') \<Longrightarrow> poller_state os u' (objs(p \<mapsto> ob'))"
| destroy: "poller_state os u objs \<Longrightarrow> seq_room u \<Longrightarrow> objs p = Some ob \<Longrightarrow> CPollerObject_destroy ob u = Some u' \<Longrightarrow> poller_state os u' (objs(p := None))"

definition objs_ok :: "CPollerUnit \<Rightarrow> (nat \<rightharpoonup> 'a CPollerObject_scheme) \<Rightarrow> bool" where
  "objs_ok u objs \<longleftrightarrow> (\<forall>p ob. objs p = Some ob \<longrightarrow> obj_ok u p ob) \<and> (\<forall>p i. attached u p i \<longrightarrow> objs p \<noteq> None)"

lemma InitializePollerUnit_ok:
  assumes "InitializePollerUnit tb evs fd (CPollerUnit_new n) = Some (0, u)" and "n < 2 ^ 31"
  shows "unit_ok u" "\<not> attached u p i"
proof -
  have n: "0 < n" and u: "u = \<lparr>pu_table = map (\<lambda>i. \<lparr>es_seq = 0, es_poller = None, es_freeList = (if i < n - 1 then i + 1 else NULL_SLOT)\<rparr>) [0..n - 1],
      pu_maxPollers = n, pu_usedPollers = 0, pu_freeSlotList = 0, pu_epfd = fd, pu_ctls = [], pu_closed = []\<rparr>"
    using assms(1) by (auto simp: InitializePollerUnit_def CPollerUnit_new_def Let_def split: if_splits)
  have len: "int (length (pu_table u)) = n" using n by (simp add: u)
  have sl: "pu_slot i u = (if 0 \<le> i \<and> i < n then Some \<lparr>es_seq = 0, es_poller = None, es_freeList = (if i < n - 1 then i + 1 else NULL_SLOT)\<rparr> else None)" for i
    using n unfolding pu_slot_def len by (simp add: u)
  show na: "\<not> attached u p i" for p i by (simp add: attached_def sl)
  have c: "chain (slot_next u) (if i < n then i else NULL_SLOT) [i..n - 1]" if "0 \<le> i" "i \<le> n" for i
    using that
  proof (induction "nat (n - i)" arbitrary: i)
    case (Suc k)
    have IH: "chain (slot_next u) (if i + 1 < n then i + 1 else NULL_SLOT) [i + 1..n - 1]" by (rule Suc.hyps) (use Suc in simp_all)
    have i: "0 \<le> i" "i < n" using Suc by simp_all
    then have "[i..n - 1] = i # [i + 1..n - 1]" by (simp add: upto.simps [of i])
    moreover have "slot_next u i = Some (if i + 1 < n then i + 1 else NULL_SLOT)" using i by (simp add: slot_next_def sl)
    ultimately show ?case using IH i by simp
  qed (simp add: upto.simps)
  have "free_chain u [0..n - 1]"
  proof -
    have "pu_freeSlotList u = 0" "pu_usedPollers u = 0" by (simp_all add: u)
    then show ?thesis unfolding free_chain_def using c [of 0] n len sl by (auto split: if_splits)
  qed
  moreover have "pu_maxPollers u = n" "pu_ctls u = []" by (simp_all add: u)
  ultimately show "unit_ok u" using na len assms(2) by (auto simp: unit_ok_def ids_ok_def)
qed

lemma objs_ok_upd:
  assumes "objs_ok u objs" "obj_ok u' p ob'" "\<And>q j. q \<noteq> p \<Longrightarrow> attached u' q j = attached u q j"
  shows "objs_ok u' (objs(p \<mapsto> ob'))"
  unfolding objs_ok_def
proof (intro conjI allI impI)
  fix q ob assume q: "(objs(p \<mapsto> ob')) q = Some ob"
  show "obj_ok u' q ob" using assms q by (cases "q = p") (auto simp: objs_ok_def obj_ok_def)
next
  fix q i assume "attached u' q i"
  then show "(objs(p \<mapsto> ob')) q \<noteq> None" using assms by (cases "q = p") (auto simp: objs_ok_def)
qed

lemma objs_ok_remove:
  assumes "objs_ok u objs" "\<And>j. \<not> attached u' p j" "\<And>q j. q \<noteq> p \<Longrightarrow> attached u' q j = attached u q j"
  shows "objs_ok u' (objs(p := None))"
  unfolding objs_ok_def
proof (intro conjI allI impI)
  fix q ob assume q: "(objs(p := None)) q = Some ob"
  show "obj_ok u' q ob" using assms q by (cases "q = p") (auto simp: objs_ok_def obj_ok_def)
next
  fix q i assume "attached u' q i"
  then show "(objs(p := None)) q \<noteq> None" using assms by (cases "q = p") (auto simp: objs_ok_def)
qed

lemma objs_okD: "objs_ok u objs \<Longrightarrow> objs p = Some ob \<Longrightarrow> obj_ok u p ob"
  by (simp add: objs_ok_def)

lemma poller_state_ok: "poller_state os u objs \<Longrightarrow> unit_ok u \<and> objs_ok u objs"
proof (induction rule: poller_state.induct)
  case (start tb evs fd n u)
  then show ?case using InitializePollerUnit_ok [of tb evs fd n u] by (simp add: objs_ok_def)
next
  case (created u objs p)
  have "obj_ok u p CPollerObject_new" using created by (auto simp: obj_ok_def CPollerObject_new_def objs_ok_def)
  then have "objs_ok u (objs(p \<mapsto> CPollerObject_new))" using created by (intro objs_ok_upd) simp_all
  then show ?case using created by blast
next
  case (changed u objs p ob f e)
  have "obj_ok u p (ob\<lparr>newEvents := e, netfd := f\<rparr>)" using changed objs_okD [of u objs p ob] by (simp add: obj_ok_def)
  then have "objs_ok u (objs(p \<mapsto> ob\<lparr>newEvents := e, netfd := f\<rparr>))" using changed by (intro objs_ok_upd) simp_all
  then show ?case using changed by blast
next
  case (attach u objs p ob r ob' u')
  then have "unit_ok u' \<and> obj_ok u' p ob' \<and> (\<forall>q j. q \<noteq> p \<longrightarrow> attached u' q j = attached u q j)"
    using AttachPoller_ok [of u p ob True os] objs_okD [of u objs p ob] by auto
  then show ?case using attach objs_ok_upd [of u objs u' p ob'] by blast
next
  case (applied u objs p ob r ob' u')
  then have "unit_ok u' \<and> obj_ok u' p ob' \<and> (\<forall>q j. q \<noteq> p \<longrightarrow> attached u' q j = attached u q j)"
    using ApplyEvents_ok [of u p ob os] objs_okD [of u objs p ob] by auto
  then show ?case using applied objs_ok_upd [of u objs u' p ob'] by blast
next
  case (detach u objs p ob r ob' u')
  then have "unit_ok u' \<and> obj_ok u' p ob' \<and> (\<forall>q j. q \<noteq> p \<longrightarrow> attached u' q j = attached u q j)"
    using DetachPoller_ok [of u p ob os] objs_okD [of u objs p ob] by auto
  then show ?case using detach objs_ok_upd [of u objs u' p ob'] by blast
next
  case (destroy u objs p ob u')
  then have "unit_ok u' \<and> (\<forall>j. \<not> attached u' p j) \<and> (\<forall>q j. q \<noteq> p \<longrightarrow> attached u' q j = attached u q j)"
    using CPollerObject_destroy_ok [of u p ob] objs_okD [of u objs p ob] by auto
  then show ?case using destroy objs_ok_remove [of u objs u' p] by blast
qed

text \<open>An event with an identifier that was given to the kernel.\<close>

lemma VerifyEvents_ok:
  assumes ok: "unit_ok u" and objs: "objs_ok u objs" and log: "(c, fd, Some (ev, d)) \<in> set (pu_ctls u)"
  shows "VerifyEvents d u = Some (-1) \<and> (\<forall>p ob. objs p = Some ob \<longrightarrow> epslot ob \<noteq> NULL_SLOT \<longrightarrow> GetPollerEventId ob u \<noteq> Some d) \<or>
    VerifyEvents d u = Some 0 \<and>
    (\<exists>s p ob. pu_slot (uint (EPOLL_DATA_SLOT d)) u = Some s \<and> es_poller s = Some p \<and> objs p = Some ob \<and> GetPollerEventId ob u = Some d)"
proof -
  have "\<exists>j t q. pu_slot j u = Some t \<and> d = event_id q j \<and> uint q \<le> uint (es_seq t) \<and> (es_poller t = None \<longrightarrow> uint q < uint (es_seq t))"
    by (rule unit_okD(5) [OF ok, unfolded ids_ok_def, rule_format, OF log])
  then obtain i s q where s: "pu_slot i u = Some s" "d = event_id q i" "es_poller s = None \<longrightarrow> uint q < uint (es_seq s)" by metis
  have i: "0 \<le> i" "i < 2 ^ 31" using pu_slot_id [OF ok s(1)] by simp_all
  note E = event_id_parts [OF i, of q, folded s(2)]
  have inj: "(ucast a :: 64 word) = ucast b \<longleftrightarrow> a = b" for a b :: c_int
  proof -
    have "uint (ucast a :: 64 word) = uint a" "uint (ucast b :: 64 word) = uint b" by (simp_all add: uint_up_ucast is_up)
    then show ?thesis by (metis word_uint_eq_iff)
  qed
  have "i < pu_maxPollers u" using pu_slot_range [OF s(1)] unit_okD(3) [OF ok] by simp
  then have V: "VerifyEvents d u = (if q \<noteq> es_seq s then Some (-1) else Some 0)"
    using E s(1) by (simp add: VerifyEvents_def Let_def inj)
  show ?thesis
  proof (cases "q = es_seq s")
    case False
    have "GetPollerEventId ob u \<noteq> Some d" if ob: "epslot ob \<noteq> NULL_SLOT" for ob :: "'a CPollerObject_scheme"
    proof
      assume g: "GetPollerEventId ob u = Some d"
      then obtain t where t: "pu_slot (epslot ob) u = Some t" "event_id (es_seq t) (epslot ob) = event_id q i"
        using ob s(2) by (auto simp: GetPollerEventId_def split: if_splits bind_splits)
      then have "es_seq t = q \<and> epslot ob = i" using event_id_inj pu_slot_id [OF ok t(1)] i by metis
      then show False using False s(1) t(1) by simp
    qed
    then show ?thesis using V False by simp
  next
    case True
    then obtain p where p: "es_poller s = Some p" using s(3) by auto
    then have at: "attached u p i" using s(1) by (auto simp: attached_def)
    then obtain ob where ob: "objs p = Some ob" using objs by (auto simp: objs_ok_def)
    have "obj_ok u p ob" by (rule objs_okD [OF objs ob])
    then have "epslot ob = i" using at unit_okD(2) [OF ok] by (auto simp: obj_ok_def split: if_splits)
    then have "GetPollerEventId ob u = Some d" using s True i by (simp add: GetPollerEventId_def)
    then show ?thesis using V True s(1) p ob E(1) by auto
  qed
qed

text \<open>C34: however the connections and the listening sockets come and go, the operations of the poller on a live object reach no slot outside the table and no
  null pointer, an object waits in at most one slot and no two objects share a slot, and attaching an open descriptor finds a slot as long as fewer
  than the maximum are used.\<close>

theorem poller_objects_safe:
  assumes "poller_state os u objs" "seq_room u" "objs p = Some ob"
  shows "(\<exists>r ob' u'. AttachPoller os p True ob u = Some (r, ob', u') \<and>
      (0 \<le> netfd ob \<and> pu_usedPollers u < pu_maxPollers u \<longrightarrow> epslot ob' \<noteq> NULL_SLOT)) \<and>
    (\<exists>r ob' u'. ApplyEvents os ob u = Some (r, ob', u')) \<and>
    (\<exists>r ob' u'. DetachPoller os ob u = Some (r, ob', u')) \<and>
    (\<exists>u'. CPollerObject_destroy ob u = Some u') \<and>
    (\<forall>q ob'. objs q = Some ob' \<and> q \<noteq> p \<and> epslot ob \<noteq> NULL_SLOT \<longrightarrow> epslot ob' \<noteq> epslot ob)"
proof -
  have ok: "unit_ok u" and objs: "objs_ok u objs" using poller_state_ok [OF assms(1)] by simp_all
  have ob: "obj_ok u p ob" by (rule objs_okD [OF objs assms(3)])
  have "epslot ob' \<noteq> epslot ob" if "objs q = Some ob'" "q \<noteq> p" "epslot ob \<noteq> NULL_SLOT" for q ob'
  proof
    assume e: "epslot ob' = epslot ob"
    have "attached u q (epslot ob)" using objs_okD [OF objs that(1)] that(3) e by (simp add: obj_ok_def)
    moreover have "attached u p (epslot ob)" using ob that(3) by (simp add: obj_ok_def)
    ultimately show False using that(2) by (auto simp: attached_def)
  qed
  moreover have "\<exists>r ob' u'. AttachPoller os p True ob u = Some (r, ob', u') \<and> (0 \<le> netfd ob \<and> pu_usedPollers u < pu_maxPollers u \<longrightarrow> epslot ob' \<noteq> NULL_SLOT)"
    using AttachPoller_ok [OF ok ob assms(2), of True os] by auto
  moreover have "\<exists>r ob' u'. ApplyEvents os ob u = Some (r, ob', u')" using ApplyEvents_ok [OF ok ob assms(2), of os] by auto
  moreover have "\<exists>r ob' u'. DetachPoller os ob u = Some (r, ob', u')" using DetachPoller_ok [OF ok ob assms(2), of os] by auto
  moreover have "\<exists>u'. CPollerObject_destroy ob u = Some u'" using CPollerObject_destroy_ok [OF ok ob assms(2)] by auto
  ultimately show ?thesis by blast
qed

text \<open>A unit of two slots, with one object attached and one just created.\<close>

definition unit0 :: CPollerUnit where
  "unit0 = \<lparr>pu_table = [\<lparr>es_seq = 0, es_poller = None, es_freeList = 1\<rparr>, \<lparr>es_seq = 0, es_poller = None, es_freeList = -1\<rparr>],
     pu_maxPollers = 2, pu_usedPollers = 0, pu_freeSlotList = 0, pu_epfd = 3, pu_ctls = [], pu_closed = []\<rparr>"

definition unit1 :: CPollerUnit where
  "unit1 = \<lparr>pu_table = [\<lparr>es_seq = 1, es_poller = Some 10, es_freeList = -1\<rparr>, \<lparr>es_seq = 0, es_poller = None, es_freeList = -1\<rparr>],
     pu_maxPollers = 2, pu_usedPollers = 1, pu_freeSlotList = 1, pu_epfd = 3, pu_ctls = [(EPOLL_CTL_ADD, 5, Some (1, event_id 1 0))], pu_closed = []\<rparr>"

definition object1 :: CPollerObject where
  "object1 = \<lparr>netfd = 5, ownerUnit = True, newEvents = 1, oldEvents = 1, epslot = 0\<rparr>"

lemma two_slots_room:
  assumes "pu_table u = [s, t]" "uint (es_seq s) + 1 < 2 ^ 32" "uint (es_seq t) + 1 < 2 ^ 32"
  shows "seq_room u"
  unfolding seq_room_def
proof (intro allI impI)
  fix i r assume "pu_slot i u = Some r"
  then have "r \<in> set (pu_table u)" by (auto simp: pu_slot_def split: if_splits)
  then show "uint (es_seq r) + 1 < 2 ^ 32" using assms by auto
qed

lemma unit0_room: "seq_room unit0"
  by (rule two_slots_room, simp add: unit0_def, simp_all)

lemma unit1_room: "seq_room unit1"
  by (rule two_slots_room, simp add: unit1_def, simp_all)

lemma unit1_state: "poller_state (\<lambda>n. True) unit1 [10 \<mapsto> object1, 11 \<mapsto> CPollerObject_new]"
proof -
  let ?os = "\<lambda>n. True" and ?ob = "CPollerObject_new\<lparr>newEvents := 1, netfd := 5\<rparr>"
  have "[0..1] = [0, 1 :: int]" by (simp add: upto.simps)
  then have "InitializePollerUnit True True 3 (CPollerUnit_new 2) = Some (0, unit0)"
    by (simp add: InitializePollerUnit_def CPollerUnit_new_def unit0_def)
  then have "poller_state ?os unit0 Map.empty" by (rule poller_state.start) simp
  then have "poller_state ?os unit0 ([10 \<mapsto> CPollerObject_new])" by (rule poller_state.created) simp
  then have "poller_state ?os unit0 ([10 \<mapsto> CPollerObject_new, 10 \<mapsto> ?ob])" by (rule poller_state.changed) simp
  then have s: "poller_state ?os unit0 ([10 \<mapsto> ?ob])" by simp
  have "AttachPoller ?os 10 True ?ob unit0 = Some (0, object1, unit1)"
    by (simp add: AttachPoller_def AllocEpollSlot_def Epctl_def CPollerObject_new_def unit0_def unit1_def object1_def pu_slot_def pu_set_slot_def Let_def)
  then have "poller_state ?os unit1 ([10 \<mapsto> ?ob, 10 \<mapsto> object1])" by (rule poller_state.attach [OF s unit0_room, rotated]) simp
  then have "poller_state ?os unit1 ([10 \<mapsto> object1])" by simp
  then show ?thesis by (rule poller_state.created) simp
qed

theorem poller_objects_safe_witness:
  "\<exists>r ob' u'. AttachPoller (\<lambda>n. True) 11 True CPollerObject_new unit1 = Some (r, ob', u') \<and> epslot ob' \<noteq> NULL_SLOT"
  using poller_objects_safe [OF unit1_state unit1_room, of 11 CPollerObject_new] by (simp add: CPollerObject_new_def unit1_def)



end
