(* ===== verification/SocketHandler.thy ===== *)
theory SocketHandler
  imports Cache Decoder Poller
begin

text \<open>
  \<open>include/ICC_TCP_Handler.h\<close>, \<open>include/CCSocketHandler.h\<close>, \<open>src/CCSocketHandler.cpp\<close> and \<open>CNet::tcp_connect\<close>: a connection, its input buffer with
  the decoder that cuts it into packets, and its output buffer. A function of a connection takes the object and the network \<open>net\<close>: the poller
  unit and the other objects, the memory of the buffers, and the bytes that the kernel accepted for each descriptor. After \<open>delete this\<close> there is no
  object any more; a function that goes on with a deleted object is \<open>None\<close>. \<open>CRawCache::append\<close> throws an exception when the pool is exhausted, which
  nobody catches: this is the outcome \<open>Thrown\<close>. What the kernel answers to the n-th call is the parameter \<open>kernel\<close>, and the virtual
  functions of the class are the parameter \<open>vtable\<close> and, for \<open>OnPacketComplete\<close>, \<open>packet_callback\<close>.
\<close>

section \<open>State\<close>

datatype CConnState = CONN_IDLE | CONN_FATAL_ERROR | CONN_DATA_ERROR | CONN_CONNECTING | CONN_DISCONNECT | CONN_CONNECTED | CONN_DATA_SENDING
  | CONN_DATA_RECVING | CONN_SEND_DONE | CONN_RECV_DONE | CONN_APPEND_SENDING | CONN_APPEND_DONE | CONN_XML_POLICY

text \<open>The constructors leave \<open>_decode\<close>, \<open>_ip\<close> and \<open>_port\<close> with whatever value is in the memory.\<close>

datatype decoder_ptr = Null | Wild | To decoder

record CCSocketHandler = CPollerObject +
  sh_decode :: decoder_ptr
  sh_stage :: CConnState
  sh_r :: CRawCache
  sh_w :: CRawCache
  sh_enableReconnect :: bool
  sh_ip :: c_int
  sh_port :: c_short

record net = "CCSocketHandler reactor" +
  nt_heap :: heap
  nt_wire :: "int \<Rightarrow> byte list"
  nt_calls :: nat
  nt_new :: nat

datatype 'a outcome = Done 'a | Thrown

text \<open>The virtual functions. \<open>nt_new\<close> is the address of the next object.\<close>

record 'x vtable =
  vt_OnClose :: "CCSocketHandler \<Rightarrow> 'x net_scheme \<Rightarrow> (CCSocketHandler \<times> 'x net_scheme) option"
  vt_OnConnected :: "CCSocketHandler \<Rightarrow> 'x net_scheme \<Rightarrow> (int \<times> CCSocketHandler option \<times> 'x net_scheme) outcome option"
  vt_CreateDecoder :: decoder

type_synonym 'x packet_callback =
  "byte list \<Rightarrow> CCSocketHandler \<Rightarrow> 'x net_scheme \<Rightarrow> (int \<times> CCSocketHandler option \<times> 'x net_scheme) outcome option"

section \<open>System calls\<close>

text \<open>A send accepts at most the bytes offered, asks to try again (\<open>EINTR\<close>, \<open>EAGAIN\<close>, \<open>EINPROGRESS\<close>), or fails.\<close>

datatype send_result = Sent nat | Send_again | Send_error

datatype recv_result = Recv "byte list" | Recv_again | Recv_error

record connect_calls =
  cc_socket :: int
  cc_connect :: int
  cc_inprogress :: bool
  cc_poll :: int
  cc_getsockopt :: int
  cc_so_error :: int

record kernel =
  k_epoll :: "nat \<Rightarrow> bool"
  k_send :: "nat \<Rightarrow> send_result"
  k_connect :: "nat \<Rightarrow> connect_calls"

definition sys_send :: "kernel \<Rightarrow> int \<Rightarrow> byte list \<Rightarrow> 'x net_scheme \<Rightarrow> send_result \<times> 'x net_scheme" where
  "sys_send k fd bs n =
     (let n' = n\<lparr>nt_calls := Suc (nt_calls n)\<rparr> in
      case k_send k (nt_calls n) of
        Sent m \<Rightarrow> (let m = min m (length bs) in (Sent m, n'\<lparr>nt_wire := (nt_wire n)(fd := nt_wire n fd @ take m bs)\<rparr>))
      | r \<Rightarrow> (r, n'))"

definition sys_close :: "int \<Rightarrow> 'x net_scheme \<Rightarrow> 'x net_scheme" where
  "sys_close fd n = n\<lparr>rx_unit := (rx_unit n)\<lparr>pu_closed := pu_closed (rx_unit n) @ [fd]\<rparr>\<rparr>"

text \<open>\<open>CNet::tcp_connect\<close> returns its code and the descriptor.\<close>

definition tcp_connect :: "connect_calls \<Rightarrow> int \<times> int" where
  "tcp_connect c =
     (let netfd = cc_socket c in
      if netfd = -1 then (-2, netfd)
      else
        let ret = cc_connect c in
        if ret = 0 then (ret, netfd)
        else if ret = -1 \<and> \<not> cc_inprogress c then (ret, netfd)
        else if cc_poll c \<le> 0 then (ret, netfd)
        else if cc_getsockopt c < 0 then (ret, netfd)
        else if cc_so_error c \<noteq> 0 then (ret, netfd)
        else (0, netfd))"

section \<open>Helpers\<close>

definition sh_ApplyEvents :: "kernel \<Rightarrow> CCSocketHandler \<Rightarrow> 'x net_scheme \<Rightarrow> (CCSocketHandler \<times> 'x net_scheme) option" where
  "sh_ApplyEvents k h n = do { (_, h, u) \<leftarrow> ApplyEvents (k_epoll k) h (rx_unit n); Some (h, n\<lparr>rx_unit := u\<rparr>) }"

definition r_append :: "byte list \<Rightarrow> CCSocketHandler \<Rightarrow> 'x net_scheme \<Rightarrow> (CCSocketHandler \<times> 'x net_scheme) outcome option" where
  "r_append bs h n =
     do { (ok, c, hp) \<leftarrow> rc_append bs (sh_r h, nt_heap n); Some (if ok then Done (h\<lparr>sh_r := c\<rparr>, n\<lparr>nt_heap := hp\<rparr>) else Thrown) }"

definition w_append :: "byte list \<Rightarrow> CCSocketHandler \<Rightarrow> 'x net_scheme \<Rightarrow> (CCSocketHandler \<times> 'x net_scheme) outcome option" where
  "w_append bs h n =
     do { (ok, c, hp) \<leftarrow> rc_append bs (sh_w h, nt_heap n); Some (if ok then Done (h\<lparr>sh_w := c\<rparr>, n\<lparr>nt_heap := hp\<rparr>) else Thrown) }"

definition r_skip :: "c_int \<Rightarrow> CCSocketHandler \<Rightarrow> 'x net_scheme \<Rightarrow> (CCSocketHandler \<times> 'x net_scheme) option" where
  "r_skip i h n = do { (c, hp) \<leftarrow> rc_skip i (sh_r h, nt_heap n); Some (h\<lparr>sh_r := c\<rparr>, n\<lparr>nt_heap := hp\<rparr>) }"

definition w_skip :: "c_int \<Rightarrow> CCSocketHandler \<Rightarrow> 'x net_scheme \<Rightarrow> (CCSocketHandler \<times> 'x net_scheme) option" where
  "w_skip i h n = do { (c, hp) \<leftarrow> rc_skip i (sh_w h, nt_heap n); Some (h\<lparr>sh_w := c\<rparr>, n\<lparr>nt_heap := hp\<rparr>) }"

text \<open>Sequencing of functions that may throw.\<close>

definition after :: "'a outcome option \<Rightarrow> ('a \<Rightarrow> 'b outcome option) \<Rightarrow> 'b outcome option" where
  "after x f = do { r \<leftarrow> x; case r of Thrown \<Rightarrow> Some Thrown | Done a \<Rightarrow> f a }"

lemma after_simps [simp]: "after (Some Thrown) f = Some Thrown" "after (Some (Done a)) f = f a" "after None f = None"
  by (simp_all add: after_def)

section \<open>Life of a connection\<close>

definition CCSocketHandler_new :: "decoder_ptr \<Rightarrow> c_int \<Rightarrow> c_short \<Rightarrow> CCSocketHandler" where
  "CCSocketHandler_new garbage ip port =
     CPollerObject.extend CPollerObject_new
       \<lparr>sh_decode = garbage, sh_stage = CONN_IDLE, sh_r = CRawCache_new, sh_w = CRawCache_new, sh_enableReconnect = False,
        sh_ip = ip, sh_port = port\<rparr>"

text \<open>\<open>delete this\<close>: the destructors of the class and its bases. The destructor of a subclass may have set \<open>_decode\<close> to null; a decoder has no
  state of its own.\<close>

definition sh_delete :: "CCSocketHandler \<Rightarrow> 'x net_scheme \<Rightarrow> 'x net_scheme option" where
  "sh_delete h n =
     do {
       (h, n) \<leftarrow> w_skip (rc_data_len (sh_w h)) h n;
       (h, n) \<leftarrow> r_skip (rc_data_len (sh_r h)) h n;
       if sh_decode h = Wild then None
       else do { u \<leftarrow> CPollerObject_destroy h (rx_unit n); Some (n\<lparr>rx_unit := u\<rparr>) }
     }"

definition sh_Init :: "'x vtable \<Rightarrow> CCSocketHandler \<Rightarrow> int \<times> CCSocketHandler" where
  "sh_Init vt h = (let h = (if sh_decode h = Null then h\<lparr>sh_decode := To (vt_CreateDecoder vt)\<rparr> else h) in (0, EnableInput h))"

definition sh_Reset :: "kernel \<Rightarrow> CCSocketHandler \<Rightarrow> 'x net_scheme \<Rightarrow> (CCSocketHandler \<times> 'x net_scheme) option" where
  "sh_Reset k h n =
     do {
       (h, n) \<leftarrow> w_skip (rc_data_len (sh_w h)) h n;
       (h, n) \<leftarrow> r_skip (rc_data_len (sh_r h)) h n;
       (h, n) \<leftarrow> sh_ApplyEvents k (DisableOutput (DisableInput h)) n;
       (_, h, u) \<leftarrow> DetachPoller (k_epoll k) h (rx_unit n);
       let n = n\<lparr>rx_unit := u\<rparr>;
       let n = (if 0 < netfd h then sys_close (netfd h) n else n);
       Some (h\<lparr>netfd := -1, sh_stage := CONN_IDLE\<rparr>, n)
     }"

text \<open>What every error path does: \<open>OnClose\<close>, then the object is deleted, or reset when it reconnects.\<close>

definition sh_close :: "kernel \<Rightarrow> 'x vtable \<Rightarrow> CCSocketHandler \<Rightarrow> 'x net_scheme \<Rightarrow> (CCSocketHandler option \<times> 'x net_scheme) option" where
  "sh_close k vt h n =
     do {
       (h, n) \<leftarrow> vt_OnClose vt h n;
       if \<not> sh_enableReconnect h then do { n \<leftarrow> sh_delete h n; Some (None, n) }
       else do { (h, n) \<leftarrow> sh_Reset k h n; Some (Some h, n) }
     }"

definition reactor_AttachPoller :: "kernel \<Rightarrow> 'x vtable \<Rightarrow> nat \<Rightarrow> CCSocketHandler \<Rightarrow> 'x net_scheme \<Rightarrow> (int \<times> CCSocketHandler \<times> 'x net_scheme) option" where
  "reactor_AttachPoller k vt self h n =
     (let (r, h) = sh_Init vt h in
        if r \<noteq> 0 then Some (-1, h, n)
        else do { (ret, h, u) \<leftarrow> AttachPoller (k_epoll k) self True h (rx_unit n); Some (ret, h, n\<lparr>rx_unit := u\<rparr>) })"

definition sh_Connect :: "kernel \<Rightarrow> 'x vtable \<Rightarrow> nat \<Rightarrow> CCSocketHandler \<Rightarrow> 'x net_scheme \<Rightarrow> (int \<times> CCSocketHandler \<times> 'x net_scheme) outcome option" where
  "sh_Connect k vt self h n =
     (let (ret, h, n) =
        (if sh_stage h = CONN_IDLE \<or> netfd h < 0 then
           (let (ret, fd) = tcp_connect (k_connect k (nt_calls n)) in (ret, h\<lparr>netfd := fd\<rparr>, n\<lparr>nt_calls := Suc (nt_calls n)\<rparr>))
         else (1, h, n))
      in
        if ret < 0 then Some (Done (-1, h, if 0 < netfd h then sys_close (netfd h) n else n))
        else
          after (if ret = 0 then vt_OnConnected vt (h\<lparr>sh_stage := CONN_CONNECTED\<rparr>) n else Some (Done (0, Some h, n)))
            (\<lambda>(_, h, n). do { h \<leftarrow> h; (ret, h, n) \<leftarrow> reactor_AttachPoller k vt self h n; Some (Done (ret, h, n)) }))"

section \<open>Output\<close>

definition handle_output :: "kernel \<Rightarrow> CCSocketHandler \<Rightarrow> 'x net_scheme \<Rightarrow> (CConnState \<times> CCSocketHandler \<times> 'x net_scheme) option" where
  "handle_output k h n =
     (if rc_data_len (sh_w h) \<noteq> 0 then do {
        data \<leftarrow> rc_data (sh_w h) (nt_heap n);
        let (r, n) = sys_send k (netfd h) data n;
        case r of
          Send_again \<Rightarrow> do { (h, n) \<leftarrow> sh_ApplyEvents k (EnableOutput h) n; Some (CONN_DATA_SENDING, h\<lparr>sh_stage := CONN_DATA_SENDING\<rparr>, n) }
        | Send_error \<Rightarrow> do {
            (h, n) \<leftarrow> sh_ApplyEvents k (DisableOutput (DisableInput h)) n;
            Some (CONN_FATAL_ERROR, h\<lparr>sh_stage := CONN_FATAL_ERROR\<rparr>, n)
          }
        | Sent m \<Rightarrow>
            if m = length data then do {
              (h, n) \<leftarrow> sh_ApplyEvents k (DisableOutput h) n;
              (h, n) \<leftarrow> w_skip (word_of_nat m) h n;
              Some (CONN_SEND_DONE, h\<lparr>sh_stage := CONN_SEND_DONE\<rparr>, n)
            }
            else do {
              (h, n) \<leftarrow> sh_ApplyEvents k (EnableOutput h) n;
              (h, n) \<leftarrow> w_skip (word_of_nat m) h n;
              Some (CONN_DATA_SENDING, h\<lparr>sh_stage := CONN_DATA_SENDING\<rparr>, n)
            }
      }
      else do {
        (h, n) \<leftarrow> sh_ApplyEvents k (DisableOutput h) n;
        Some (CONN_FATAL_ERROR, h\<lparr>sh_stage := CONN_FATAL_ERROR\<rparr>, n)
      })"

text \<open>Bytes that the kernel did not take wait in the buffer.\<close>

definition queue_rest :: "kernel \<Rightarrow> byte list \<Rightarrow> CCSocketHandler \<Rightarrow> 'x net_scheme \<Rightarrow> (CCSocketHandler \<times> 'x net_scheme) outcome option" where
  "queue_rest k sendbuff h n =
     after (w_append sendbuff h n) (\<lambda>(h, n). do {
       (h, n) \<leftarrow> sh_ApplyEvents k (EnableOutput h) n;
       Some (Done (h\<lparr>sh_stage := CONN_DATA_SENDING\<rparr>, n))
     })"

definition sh_Send :: "kernel \<Rightarrow> 'x vtable \<Rightarrow> nat \<Rightarrow> byte list \<Rightarrow> CCSocketHandler \<Rightarrow> 'x net_scheme \<Rightarrow> (int \<times> CCSocketHandler option \<times> 'x net_scheme) outcome option" where
  "sh_Send k vt self buff h n =
     (if buff = [] then Some (Done (0, Some h, n))
      else
        after (if sh_enableReconnect h then sh_Connect k vt self h n else Some (Done (0, h, n))) (\<lambda>(_, h, n).
          if rc_data_len (sh_w h) = 0 then
            (let (r, n) = sys_send k (netfd h) buff n in
             case r of
               Send_again \<Rightarrow> after (queue_rest k buff h n) (\<lambda>(h, n). Some (Done (0, Some h, n)))
             | Send_error \<Rightarrow> do { (ho, n) \<leftarrow> sh_close k vt (h\<lparr>sh_stage := CONN_FATAL_ERROR\<rparr>) n; Some (Done (-1, ho, n)) }
             | Sent m \<Rightarrow>
                 if m < length buff then after (queue_rest k (drop m buff) h n) (\<lambda>(h, n). Some (Done (int m, Some h, n)))
                 else Some (Done (int m, Some (h\<lparr>sh_stage := CONN_SEND_DONE\<rparr>), n)))
          else
            after (w_append buff h n) (\<lambda>(h, n). do {
              (stage, h, n) \<leftarrow> handle_output k h n;
              if stage = CONN_FATAL_ERROR then do { (ho, n) \<leftarrow> sh_close k vt h n; Some (Done (-1, ho, n)) }
              else Some (Done (int (length buff), Some h, n))
            })))"

definition sh_OutputNotify :: "kernel \<Rightarrow> 'x vtable \<Rightarrow> CCSocketHandler \<Rightarrow> 'x net_scheme \<Rightarrow> (int \<times> CCSocketHandler option \<times> 'x net_scheme) option" where
  "sh_OutputNotify k vt h n =
     do {
       (stage, h, n) \<leftarrow> handle_output k h n;
       if stage = CONN_SEND_DONE then Some (POLLER_COMPLETE, Some h, n)
       else if stage = CONN_DATA_SENDING then Some (POLLER_SUCC, Some h, n)
       else do { (ho, n) \<leftarrow> sh_close k vt h n; Some (POLLER_COMPLETE, ho, n) }
     }"

definition sh_HangupNotify :: "kernel \<Rightarrow> 'x vtable \<Rightarrow> CCSocketHandler \<Rightarrow> 'x net_scheme \<Rightarrow> (int \<times> CCSocketHandler option \<times> 'x net_scheme) option" where
  "sh_HangupNotify k vt h n = do { (ho, n) \<leftarrow> sh_close k vt h n; Some (POLLER_COMPLETE, ho, n) }"

section \<open>Input\<close>

text \<open>The loop over the packets in the input buffer. It ends when each packet is taken out of the buffer.\<close>

partial_function (option) input_loop :: "'x packet_callback \<Rightarrow> CCSocketHandler \<Rightarrow> 'x net_scheme \<Rightarrow> (CCSocketHandler \<times> 'x net_scheme) outcome option" where
  "input_loop opc h n =
     (if rc_data_len (sh_r h) = 0 then Some (Done (h, n))
      else do {
        data \<leftarrow> rc_data (sh_r h) (nt_heap n);
        d \<leftarrow> (case sh_decode h of To d \<Rightarrow> Some d | _ \<Rightarrow> None);
        let packet_len = decode_packet d data;
        if packet_len = -1 then Some (Done ((DisableInput h)\<lparr>sh_stage := CONN_DATA_ERROR\<rparr>, n))
        else if packet_len = 0 then Some (Done (h\<lparr>sh_stage := CONN_DATA_RECVING\<rparr>, n))
        else do {
          r \<leftarrow> opc (take (nat packet_len) data) h n;
          case r of Thrown \<Rightarrow> Some Thrown
          | Done (ret, ho, n) \<Rightarrow> do {
              h \<leftarrow> ho;
              if ret < 0 then Some (Done (h\<lparr>sh_stage := CONN_FATAL_ERROR\<rparr>, n))
              else do {
                (h, n) \<leftarrow> r_skip (word_of_int packet_len) (h\<lparr>sh_stage := CONN_RECV_DONE\<rparr>) n;
                input_loop opc h n
              }
            }
        }
      })"

definition policy_request :: "byte list" where
  "policy_request = bytes_of_string ''<policy-file-request/>'' @ [0]"

definition policy_answer :: "byte list" where
  "policy_answer = bytes_of_string ''<cross-domain-policy><allow-access-from domain=\"*\" to-ports=\"*\" /></cross-domain-policy>''"

definition handle_input :: "kernel \<Rightarrow> 'x vtable \<Rightarrow> 'x packet_callback \<Rightarrow> nat \<Rightarrow> recv_result \<Rightarrow> CCSocketHandler \<Rightarrow> 'x net_scheme \<Rightarrow> (CCSocketHandler \<times> 'x net_scheme) outcome option" where
  "handle_input k vt opc self rcv h n =
     (case rcv of
        Recv_error \<Rightarrow> Some (Done ((DisableInput h)\<lparr>sh_stage := CONN_FATAL_ERROR\<rparr>, n))
      | Recv_again \<Rightarrow> Some (Done (h\<lparr>sh_stage := CONN_DATA_RECVING\<rparr>, n))
      | Recv buf \<Rightarrow>
          if buf = [] then Some (Done ((DisableInput h)\<lparr>sh_stage := CONN_DISCONNECT\<rparr>, n))
          else if length buf = 23 \<and> buf ! 0 = 0x3C \<and> buf ! 1 = 0x70 then
            (if buf \<noteq> policy_request then Some (Done (h\<lparr>sh_stage := CONN_DATA_ERROR\<rparr>, n))
             else after (sh_Send k vt self policy_answer h n) (\<lambda>(_, ho, n). do { h \<leftarrow> ho; Some (Done (h\<lparr>sh_stage := CONN_XML_POLICY\<rparr>, n)) }))
          else after (r_append buf h n) (\<lambda>(h, n). input_loop opc h n))"

definition sh_InputNotify :: "kernel \<Rightarrow> 'x vtable \<Rightarrow> 'x packet_callback \<Rightarrow> nat \<Rightarrow> recv_result \<Rightarrow> CCSocketHandler \<Rightarrow> 'x net_scheme \<Rightarrow> (int \<times> CCSocketHandler option \<times> 'x net_scheme) outcome option" where
  "sh_InputNotify k vt opc self rcv h n =
     after (handle_input k vt opc self rcv h n) (\<lambda>(h, n).
       if sh_stage h = CONN_DATA_RECVING \<or> sh_stage h = CONN_IDLE \<or> sh_stage h = CONN_RECV_DONE then Some (Done (POLLER_SUCC, Some h, n))
       else do { (ho, n) \<leftarrow> sh_close k vt h n; Some (Done (POLLER_COMPLETE, ho, n)) })"

section \<open>Invariant\<close>

text \<open>Both buffers are well formed and share no block; \<open>U\<close> are the blocks of other connections, \<open>B\<close> their bytes. The slot is one of the table. The
  connection waits for output exactly when there is some.\<close>

definition in_data :: "CCSocketHandler \<Rightarrow> 'x net_scheme \<Rightarrow> byte list" where
  "in_data h n = content (sh_r h, nt_heap n)"

definition out_data :: "CCSocketHandler \<Rightarrow> 'x net_scheme \<Rightarrow> byte list" where
  "out_data h n = content (sh_w h, nt_heap n)"

definition slot_in :: "CPollerUnit \<Rightarrow> 'a CPollerObject_scheme \<Rightarrow> bool" where
  "slot_in u ob \<longleftrightarrow> epslot ob = NULL_SLOT \<or> pu_slot (epslot ob) u \<noteq> None"

definition buffers_ok :: "(nat \<times> c_int) set \<Rightarrow> (nat \<Rightarrow> memory) \<Rightarrow> CCSocketHandler \<Rightarrow> 'x net_scheme \<Rightarrow> bool" where
  "buffers_ok U B h n \<longleftrightarrow> cache_ok (rc_own (sh_w h) \<union> U) (hp_bytes (nt_heap n)) (sh_r h, nt_heap n) \<and>
     cache_ok (rc_own (sh_r h) \<union> U) (hp_bytes (nt_heap n)) (sh_w h, nt_heap n) \<and> (\<forall>(a, j) \<in> U. hp_bytes (nt_heap n) a = B a)"

definition conn_ok :: "(nat \<times> c_int) set \<Rightarrow> (nat \<Rightarrow> memory) \<Rightarrow> CCSocketHandler \<Rightarrow> 'x net_scheme \<Rightarrow> bool" where
  "conn_ok U B h n \<longleftrightarrow> buffers_ok U B h n \<and> slot_in (rx_unit n) h \<and> (newEvents h AND EPOLLOUT \<noteq> 0 \<longleftrightarrow> out_data h n \<noteq> [])"

text \<open>All that was given to the kernel or waits to be.\<close>

definition sent :: "CCSocketHandler \<Rightarrow> 'x net_scheme \<Rightarrow> byte list" where
  "sent h n = nt_wire n (netfd h) @ out_data h n"

text \<open>What an operation on the output keeps.\<close>

definition same_input :: "CCSocketHandler \<Rightarrow> 'x net_scheme \<Rightarrow> CCSocketHandler \<Rightarrow> 'x net_scheme \<Rightarrow> bool" where
  "same_input h n h' n' \<longleftrightarrow> sh_r h' = sh_r h \<and> in_data h' n' = in_data h n \<and> sh_decode h' = sh_decode h \<and> sh_enableReconnect h' = sh_enableReconnect h \<and>
     netfd h' = netfd h"

definition out_step :: "(nat \<times> c_int) set \<Rightarrow> (nat \<Rightarrow> memory) \<Rightarrow> CCSocketHandler \<Rightarrow> 'x net_scheme \<Rightarrow> byte list \<Rightarrow> CCSocketHandler \<Rightarrow> 'x net_scheme \<Rightarrow> bool" where
  "out_step U B h n bs h' n' \<longleftrightarrow> conn_ok U B h' n' \<and> same_input h n h' n' \<and> sent h' n' = sent h n @ bs \<and> net.more n' = net.more n \<and>
     attached (rx_unit n') = attached (rx_unit n) \<and> rx_objs n' = rx_objs n"

declare rc_own.simps [simp del]

lemma out_step_refl: "conn_ok U B h n \<Longrightarrow> out_step U B h n [] h n"
  by (simp add: out_step_def same_input_def)

lemma out_step_trans: "out_step U B h n bs h1 n1 \<Longrightarrow> out_step U B h1 n1 cs h2 n2 \<Longrightarrow> out_step U B h n (bs @ cs) h2 n2"
  by (simp add: out_step_def same_input_def)

text \<open>An operation on one buffer leaves the other alone.\<close>

lemma other_cache:
  assumes r: "cache_ok (rc_own w \<union> U) b (r, hp)" and w': "cache_ok (rc_own r \<union> U) (hp_bytes hp) (w', hp')"
  shows "cache_ok (rc_own w' \<union> U) (hp_bytes hp') (r, hp')" "content (r, hp') = content (r, hp)"
    "cache_ok (rc_own r \<union> U) (hp_bytes hp') (w', hp')" "\<And>a j. (a, j) \<in> U \<Longrightarrow> hp_bytes hp' a = hp_bytes hp a"
proof -
  note rc_own.simps [simp]
  note R = cache_okD [OF r] and W = cache_okD [OF w']
  have "in_use (hp_pool hp') = rc_own r \<union> (rc_own w' \<union> U)" using W(2) by blast
  moreover have "rc_own r \<inter> (rc_own w' \<union> U) = {}" using W(3) R(3) by blast
  ultimately show "cache_ok (rc_own w' \<union> U) (hp_bytes hp') (r, hp')" using W(1) R(5,6) by (auto simp: cache_ok_def split: option.split)
  show "content (r, hp') = content (r, hp)"
  proof (cases "rc_mem r")
    case (Some m)
    then have "hp_bytes hp' m = hp_bytes hp m" using W(4) [of m "rc_block_size r"] by simp
    then show ?thesis using Some by (simp add: content_def)
  qed (simp add: content_def)
  show "cache_ok (rc_own r \<union> U) (hp_bytes hp') (w', hp')" using W by (auto simp: cache_ok_def split: option.split)
  show "hp_bytes hp' a = hp_bytes hp a" if "(a, j) \<in> U" for a j using W(4) that by blast
qed

lemma buffers_okD:
  assumes "buffers_ok U B h n"
  shows "cache_ok (rc_own (sh_w h) \<union> U) (hp_bytes (nt_heap n)) (sh_r h, nt_heap n)" "cache_ok (rc_own (sh_r h) \<union> U) (hp_bytes (nt_heap n)) (sh_w h, nt_heap n)"
    "\<And>a j. (a, j) \<in> U \<Longrightarrow> hp_bytes (nt_heap n) a = B a"
  using assms by (auto simp: buffers_ok_def)

lemma buffers_ok_w:
  assumes "buffers_ok U B h n" and "cache_ok (rc_own (sh_r h) \<union> U) (hp_bytes (nt_heap n)) (w', hp')"
  shows "buffers_ok U B (h\<lparr>sh_w := w'\<rparr>) (n\<lparr>nt_heap := hp'\<rparr>)" "content (sh_r h, hp') = in_data h n"
  using buffers_okD [OF assms(1)] other_cache [OF buffers_okD(1) [OF assms(1)] assms(2)] by (auto simp: buffers_ok_def in_data_def)

lemma buffers_ok_r:
  assumes "buffers_ok U B h n" and "cache_ok (rc_own (sh_w h) \<union> U) (hp_bytes (nt_heap n)) (r', hp')"
  shows "buffers_ok U B (h\<lparr>sh_r := r'\<rparr>) (n\<lparr>nt_heap := hp'\<rparr>)" "content (sh_w h, hp') = out_data h n"
  using buffers_okD [OF assms(1)] other_cache [OF buffers_okD(2) [OF assms(1)] assms(2)] by (auto simp: buffers_ok_def out_data_def)

lemma buffers_ok_cong:
  "sh_r h' = sh_r h \<Longrightarrow> sh_w h' = sh_w h \<Longrightarrow> nt_heap n' = nt_heap n \<Longrightarrow> buffers_ok U B h' n' = buffers_ok U B h n"
  by (simp add: buffers_ok_def)

lemma content_small:
  assumes "cache_ok U B (c, h)"
  shows "length (content (c, h)) \<le> 2097152000"
proof (cases "rc_mem c")
  case (Some m)
  note C = cache_okD [OF assms]
  have "unat (rc_block_size c) \<le> 2097152000" using in_use_size [OF C(1), of m] C(2) Some by (simp add: rc_own.simps)
  then show ?thesis using C(6) [OF Some] rc_data_ok(2) [OF assms] by simp
qed (use cache_okD(5) [OF assms] in \<open>simp add: content_def\<close>)

lemma data_len_zero: "cache_ok U B (c, h) \<Longrightarrow> rc_data_len c = 0 \<longleftrightarrow> content (c, h) = []"
  using rc_data_ok(2) [of U B c h] by (metis length_0_conv unat_eq_0)

text \<open>Packets and chunks are at most this long.\<close>

abbreviation MAX_SEND :: nat where "MAX_SEND \<equiv> 1000000"

lemma w_append_ok:
  assumes ok: "buffers_ok U B h n" and bs: "length bs \<le> MAX_SEND"
  shows "w_append bs h n = Some Thrown \<or> (\<exists>w' hp'. w_append bs h n = Some (Done (h\<lparr>sh_w := w'\<rparr>, n\<lparr>nt_heap := hp'\<rparr>)) \<and>
    buffers_ok U B (h\<lparr>sh_w := w'\<rparr>) (n\<lparr>nt_heap := hp'\<rparr>) \<and> content (w', hp') = out_data h n @ bs \<and> content (sh_r h, hp') = in_data h n)"
proof -
  note W = buffers_okD(2) [OF ok]
  have "length (content (sh_w h, nt_heap n)) + length bs < 2 ^ 31" using content_small [OF W] bs by simp
  then obtain r ch' where r0: "rc_append bs (sh_w h, nt_heap n) = Some (r, ch')" "cache_ok (rc_own (sh_r h) \<union> U) (hp_bytes (nt_heap n)) ch'"
    "content ch' = (if r then content (sh_w h, nt_heap n) @ bs else content (sh_w h, nt_heap n))" using rc_append_ok [OF W] by blast
  obtain w' hp' where ch: "ch' = (w', hp')" by (cases ch')
  note r = r0 [unfolded ch]
  show ?thesis
  proof (cases r)
    case True
    then show ?thesis using r buffers_ok_w [OF ok r(2)]
      by (intro disjI2 exI [of _ w'] exI [of _ hp']) (simp add: w_append_def out_data_def)
  qed (use r in \<open>simp add: w_append_def\<close>)
qed

lemma r_append_ok:
  assumes ok: "buffers_ok U B h n" and bs: "length bs \<le> MAX_SEND"
  shows "r_append bs h n = Some Thrown \<or> (\<exists>r' hp'. r_append bs h n = Some (Done (h\<lparr>sh_r := r'\<rparr>, n\<lparr>nt_heap := hp'\<rparr>)) \<and>
    buffers_ok U B (h\<lparr>sh_r := r'\<rparr>) (n\<lparr>nt_heap := hp'\<rparr>) \<and> content (r', hp') = in_data h n @ bs \<and> content (sh_w h, hp') = out_data h n)"
proof -
  note R = buffers_okD(1) [OF ok]
  have "length (content (sh_r h, nt_heap n)) + length bs < 2 ^ 31" using content_small [OF R] bs by simp
  then obtain r ch' where r0: "rc_append bs (sh_r h, nt_heap n) = Some (r, ch')" "cache_ok (rc_own (sh_w h) \<union> U) (hp_bytes (nt_heap n)) ch'"
    "content ch' = (if r then content (sh_r h, nt_heap n) @ bs else content (sh_r h, nt_heap n))" using rc_append_ok [OF R] by blast
  obtain r' hp' where ch: "ch' = (r', hp')" by (cases ch')
  note r = r0 [unfolded ch]
  show ?thesis
  proof (cases r)
    case True
    then show ?thesis using r buffers_ok_r [OF ok r(2)]
      by (intro disjI2 exI [of _ r'] exI [of _ hp']) (simp add: r_append_def in_data_def)
  qed (use r in \<open>simp add: r_append_def\<close>)
qed

lemma w_skip_ok:
  assumes ok: "buffers_ok U B h n"
  shows "\<exists>w' hp'. w_skip i h n = Some (h\<lparr>sh_w := w'\<rparr>, n\<lparr>nt_heap := hp'\<rparr>) \<and> buffers_ok U B (h\<lparr>sh_w := w'\<rparr>) (n\<lparr>nt_heap := hp'\<rparr>) \<and>
    content (w', hp') = drop (unat i) (out_data h n) \<and> content (sh_r h, hp') = in_data h n"
proof -
  obtain w' hp' where r: "rc_skip i (sh_w h, nt_heap n) = Some (w', hp')" "cache_ok (rc_own (sh_r h) \<union> U) (hp_bytes (nt_heap n)) (w', hp')"
    "content (w', hp') = drop (unat i) (content (sh_w h, nt_heap n))" using rc_skip_ok [OF buffers_okD(2) [OF ok], of i] by fastforce
  then show ?thesis using buffers_ok_w [OF ok r(2)]
    by (intro exI [of _ w'] exI [of _ hp']) (simp add: w_skip_def out_data_def)
qed

lemma r_skip_ok:
  assumes ok: "buffers_ok U B h n"
  shows "\<exists>r' hp'. r_skip i h n = Some (h\<lparr>sh_r := r'\<rparr>, n\<lparr>nt_heap := hp'\<rparr>) \<and> buffers_ok U B (h\<lparr>sh_r := r'\<rparr>) (n\<lparr>nt_heap := hp'\<rparr>) \<and>
    content (r', hp') = drop (unat i) (in_data h n) \<and> content (sh_w h, hp') = out_data h n"
proof -
  obtain r' hp' where r: "rc_skip i (sh_r h, nt_heap n) = Some (r', hp')" "cache_ok (rc_own (sh_w h) \<union> U) (hp_bytes (nt_heap n)) (r', hp')"
    "content (r', hp') = drop (unat i) (content (sh_r h, nt_heap n))" using rc_skip_ok [OF buffers_okD(1) [OF ok], of i] by fastforce
  then show ?thesis using buffers_ok_r [OF ok r(2)]
    by (intro exI [of _ r'] exI [of _ hp']) (simp add: r_skip_def in_data_def)
qed

text \<open>Changing the events keeps buffers and slot.\<close>

lemma sh_ApplyEvents_ok:
  assumes "slot_in (rx_unit n) h"
  shows "\<exists>e u. sh_ApplyEvents k h n = Some (h\<lparr>oldEvents := e\<rparr>, n\<lparr>rx_unit := u\<rparr>) \<and> slot_in u h \<and> length (pu_table u) = length (pu_table (rx_unit n)) \<and>
    attached u = attached (rx_unit n)"
proof (cases "epslot h = NULL_SLOT \<or> oldEvents h = newEvents h")
  case True
  then show ?thesis using assms by (intro exI [of _ "oldEvents h"] exI [of _ "rx_unit n"]) (simp add: sh_ApplyEvents_def ApplyEvents_def)
next
  case False
  then obtain s where s: "pu_slot (epslot h) (rx_unit n) = Some s" using assms by (auto simp: slot_in_def)
  let ?s = "s\<lparr>es_seq := es_seq s + 1\<rparr>"
  let ?u = "(pu_set_slot (epslot h) ?s (rx_unit n))\<lparr>pu_ctls := pu_ctls (rx_unit n) @
      [(EPOLL_CTL_MOD, netfd h, Some (newEvents h, event_id (es_seq s + 1) (epslot h)))]\<rparr>"
  note sl = pu_slot_set [OF s, of _ ?s]
  define e where "e = (if k_epoll k (length (pu_ctls (rx_unit n))) then newEvents h else oldEvents h)"
  have "attached ?u = attached (rx_unit n)" using s sl by (auto simp: attached_def fun_eq_iff)
  moreover have "slot_in ?u h" "length (pu_table ?u) = length (pu_table (rx_unit n))" using sl by (simp_all add: slot_in_def)
  moreover have "sh_ApplyEvents k h n = Some (h\<lparr>oldEvents := e\<rparr>, n\<lparr>rx_unit := ?u\<rparr>)"
    using False s by (simp add: sh_ApplyEvents_def ApplyEvents_def Epctl_def Let_def e_def)
  ultimately show ?thesis by blast
qed

lemma event_bits [simp]:
  "(e OR EPOLLOUT) AND EPOLLOUT = EPOLLOUT" "(e AND NOT EPOLLOUT) AND EPOLLOUT = 0" "(e AND NOT EPOLLIN) AND EPOLLOUT = e AND EPOLLOUT"
  "(e OR EPOLLIN) AND EPOLLOUT = e AND EPOLLOUT" "(e AND - 5) AND EPOLLOUT = 0" "(e AND - 2) AND EPOLLOUT = e AND EPOLLOUT" for e :: c_int
proof -
  show "(e AND - 5) AND EPOLLOUT = 0" "(e AND - 2) AND EPOLLOUT = e AND EPOLLOUT" by (simp_all add: and.assoc)
  show "(e OR EPOLLOUT) AND EPOLLOUT = EPOLLOUT" by (simp add: bit.conj_disj_distrib2)
  show "(e AND NOT EPOLLOUT) AND EPOLLOUT = 0" by (simp add: and.assoc)
  have "NOT EPOLLIN AND EPOLLOUT = EPOLLOUT" by simp
  then show "(e AND NOT EPOLLIN) AND EPOLLOUT = e AND EPOLLOUT" by (simp only: and.assoc)
  show "(e OR EPOLLIN) AND EPOLLOUT = e AND EPOLLOUT" by (simp add: bit.conj_disj_distrib2)
qed

lemma handler_events [simp]:
  "sh_w (EnableOutput h) = sh_w h" "sh_r (EnableOutput h) = sh_r h" "sh_decode (EnableOutput h) = sh_decode h" "sh_enableReconnect (EnableOutput h) = sh_enableReconnect h"
  "netfd (EnableOutput h) = netfd h" "epslot (EnableOutput h) = epslot h" "newEvents (EnableOutput h) = newEvents h OR EPOLLOUT"
  "sh_w (DisableOutput h) = sh_w h" "sh_r (DisableOutput h) = sh_r h" "sh_decode (DisableOutput h) = sh_decode h" "sh_enableReconnect (DisableOutput h) = sh_enableReconnect h"
  "netfd (DisableOutput h) = netfd h" "epslot (DisableOutput h) = epslot h" "newEvents (DisableOutput h) = newEvents h AND NOT EPOLLOUT"
  "sh_w (DisableInput h) = sh_w h" "sh_r (DisableInput h) = sh_r h" "sh_decode (DisableInput h) = sh_decode h" "sh_enableReconnect (DisableInput h) = sh_enableReconnect h"
  "netfd (DisableInput h) = netfd h" "epslot (DisableInput h) = epslot h" "newEvents (DisableInput h) = newEvents h AND NOT EPOLLIN"
  "sh_w (EnableInput h) = sh_w h" "sh_r (EnableInput h) = sh_r h" "sh_decode (EnableInput h) = sh_decode h" "sh_enableReconnect (EnableInput h) = sh_enableReconnect h"
  "netfd (EnableInput h) = netfd h" "epslot (EnableInput h) = epslot h" "newEvents (EnableInput h) = newEvents h OR EPOLLIN"
  by (simp_all add: EnableOutput_def DisableOutput_def DisableInput_def EnableInput_def)

lemma sys_send_cases:
  assumes "k_send k (nt_calls n) \<noteq> Send_error"
  obtains "sys_send k fd bs n = (Send_again, n\<lparr>nt_calls := Suc (nt_calls n)\<rparr>)"
  | m where "m \<le> length bs" "sys_send k fd bs n = (Sent m, n\<lparr>nt_calls := Suc (nt_calls n), nt_wire := (nt_wire n)(fd := nt_wire n fd @ take m bs)\<rparr>)"
proof (cases "k_send k (nt_calls n)")
  case (Sent m)
  then show ?thesis by (intro that(2) [of "min m (length bs)"]) (simp_all add: sys_send_def Let_def)
next
  case Send_again
  then show ?thesis by (intro that(1)) (simp add: sys_send_def Let_def)
qed (use assms in simp)

text \<open>After a change of events and buffers, the connection is well formed.\<close>

lemma conn_okI:
  assumes "buffers_ok U B h n" "slot_in (rx_unit n) h" "newEvents h AND EPOLLOUT \<noteq> 0 \<longleftrightarrow> out_data h n \<noteq> []"
    and "sh_r h' = sh_r h" "sh_w h' = sh_w h" "nt_heap n' = nt_heap n" "rx_unit n' = u" "slot_in u h" "epslot h' = epslot h" "newEvents h' = newEvents h"
  shows "conn_ok U B h' n'"
  using assms by (simp add: conn_ok_def buffers_ok_def out_data_def slot_in_def)

lemma conn_okD:
  assumes "conn_ok U B h n"
  shows "buffers_ok U B h n" "slot_in (rx_unit n) h" "newEvents h AND EPOLLOUT \<noteq> 0 \<longleftrightarrow> out_data h n \<noteq> []"
  using assms by (simp_all add: conn_ok_def)

text \<open>The output buffer is drained into the kernel as far as it accepts bytes.\<close>

lemma handle_output_ok:
  assumes ok: "buffers_ok U B h n" and slot: "slot_in (rx_unit n) h" and out: "out_data h n \<noteq> []" and k: "\<forall>i. k_send k i \<noteq> Send_error"
  shows "\<exists>stage h' n'. handle_output k h n = Some (stage, h', n') \<and> out_step U B h n [] h' n' \<and> sh_stage h' = stage \<and>
    stage = (if out_data h' n' = [] then CONN_SEND_DONE else CONN_DATA_SENDING)"
proof -
  note W = buffers_okD(2) [OF ok]
  let ?d = "out_data h n"
  have len: "rc_data_len (sh_w h) \<noteq> 0" using data_len_zero [OF W] out by (simp add: out_data_def)
  have d: "rc_data (sh_w h) (nt_heap n) = Some ?d" using rc_data_ok(1) [OF W] by (simp add: out_data_def)
  have "length ?d \<le> 2097152000" using content_small [OF W] by (simp add: out_data_def)
  then have word: "unat (word_of_nat m :: c_int) = m" if "m \<le> length ?d" for m using that by (simp add: unat_of_nat)
  show ?thesis
  proof (rule sys_send_cases [of k n "netfd h" ?d])
    show "k_send k (nt_calls n) \<noteq> Send_error" using k by simp
  next
    assume s: "sys_send k (netfd h) ?d n = (Send_again, n\<lparr>nt_calls := Suc (nt_calls n)\<rparr>)"
    let ?n = "n\<lparr>nt_calls := Suc (nt_calls n)\<rparr>"
    obtain e u where a: "sh_ApplyEvents k (EnableOutput h) ?n = Some ((EnableOutput h)\<lparr>oldEvents := e\<rparr>, ?n\<lparr>rx_unit := u\<rparr>)" "slot_in u (EnableOutput h)" "attached u = attached (rx_unit n)"
      using sh_ApplyEvents_ok [of ?n "EnableOutput h" k] slot by (auto simp: slot_in_def)
    let ?h' = "(EnableOutput h)\<lparr>oldEvents := e, sh_stage := CONN_DATA_SENDING\<rparr>" and ?n' = "?n\<lparr>rx_unit := u\<rparr>"
    have "handle_output k h n = Some (CONN_DATA_SENDING, ?h', ?n')" using len d s a(1) by (simp add: handle_output_def)
    moreover have "out_data ?h' ?n' = ?d" by (simp add: out_data_def)
    moreover have "buffers_ok U B ?h' ?n'" using ok by (simp add: buffers_ok_def)
    ultimately show ?thesis using out a(2,3) by (auto simp: out_step_def conn_ok_def same_input_def in_data_def sent_def slot_in_def)
  next
    fix m assume m: "m \<le> length ?d"
      and s: "sys_send k (netfd h) ?d n = (Sent m, n\<lparr>nt_calls := Suc (nt_calls n), nt_wire := (nt_wire n)(netfd h := nt_wire n (netfd h) @ take m ?d)\<rparr>)"
    let ?n = "n\<lparr>nt_calls := Suc (nt_calls n), nt_wire := (nt_wire n)(netfd h := nt_wire n (netfd h) @ take m ?d)\<rparr>"
    define g where "g = (if m = length ?d then DisableOutput h else EnableOutput h)"
    define stage where "stage = (if m = length ?d then CONN_SEND_DONE else CONN_DATA_SENDING)"
    have g: "sh_w g = sh_w h" "sh_r g = sh_r h" "sh_decode g = sh_decode h" "sh_enableReconnect g = sh_enableReconnect h" "netfd g = netfd h" "epslot g = epslot h"
      "newEvents g AND EPOLLOUT \<noteq> 0 \<longleftrightarrow> m \<noteq> length ?d" by (simp_all add: g_def)
    obtain e u where a: "sh_ApplyEvents k g ?n = Some (g\<lparr>oldEvents := e\<rparr>, ?n\<lparr>rx_unit := u\<rparr>)" "slot_in u g" "attached u = attached (rx_unit n)"
      using sh_ApplyEvents_ok [of ?n g k] slot g(6) by (auto simp: slot_in_def)
    have ok': "buffers_ok U B (g\<lparr>oldEvents := e\<rparr>) (?n\<lparr>rx_unit := u\<rparr>)" using ok g(1,2) by (simp add: buffers_ok_def)
    obtain w' hp' where w: "w_skip (word_of_nat m) (g\<lparr>oldEvents := e\<rparr>) (?n\<lparr>rx_unit := u\<rparr>) = Some (g\<lparr>oldEvents := e, sh_w := w'\<rparr>, ?n\<lparr>rx_unit := u, nt_heap := hp'\<rparr>)"
      "buffers_ok U B (g\<lparr>oldEvents := e, sh_w := w'\<rparr>) (?n\<lparr>rx_unit := u, nt_heap := hp'\<rparr>)"
      "content (w', hp') = drop m ?d" "content (sh_r h, hp') = in_data h n"
      using w_skip_ok [OF ok', of "word_of_nat m"] word [OF m] g(1,2) by (auto simp: out_data_def in_data_def)
    let ?h' = "g\<lparr>oldEvents := e, sh_w := w', sh_stage := stage\<rparr>" and ?n' = "?n\<lparr>rx_unit := u, nt_heap := hp'\<rparr>"
    have "handle_output k h n = Some (stage, ?h', ?n')" using len d s a(1) w(1) by (simp add: handle_output_def stage_def g_def split: if_splits)
    moreover have o: "out_data ?h' ?n' = drop m ?d" using w(3) by (simp add: out_data_def)
    moreover have "buffers_ok U B ?h' ?n'" using w(2) by (simp add: buffers_ok_def)
    moreover have "stage = (if out_data ?h' ?n' = [] then CONN_SEND_DONE else CONN_DATA_SENDING)" using m o by (auto simp: stage_def)
    moreover have "out_step U B h n [] ?h' ?n'"
      using calculation(3) a(2,3) g m w(3,4) by (auto simp: out_step_def conn_ok_def same_input_def in_data_def out_data_def sent_def slot_in_def)
    ultimately show ?thesis by (intro exI [of _ stage] exI [of _ ?h'] exI [of _ ?n']) simp
  qed
qed

lemma queue_rest_ok:
  assumes ok: "buffers_ok U B h n" and slot: "slot_in (rx_unit n) h" and bs: "bs \<noteq> []" "length bs \<le> MAX_SEND"
  shows "queue_rest k bs h n = Some Thrown \<or> (\<exists>h' n'. queue_rest k bs h n = Some (Done (h', n')) \<and> out_step U B h n bs h' n')"
proof (cases "w_append bs h n = Some Thrown")
  case True
  then show ?thesis by (simp add: queue_rest_def)
next
  case False
  then obtain w' hp' where w: "w_append bs h n = Some (Done (h\<lparr>sh_w := w'\<rparr>, n\<lparr>nt_heap := hp'\<rparr>))"
    "buffers_ok U B (h\<lparr>sh_w := w'\<rparr>) (n\<lparr>nt_heap := hp'\<rparr>)" "content (w', hp') = out_data h n @ bs" "content (sh_r h, hp') = in_data h n"
    using w_append_ok [OF ok bs(2)] by auto
  let ?h = "EnableOutput (h\<lparr>sh_w := w'\<rparr>)" and ?n = "n\<lparr>nt_heap := hp'\<rparr>"
  obtain e u where a: "sh_ApplyEvents k ?h ?n = Some (?h\<lparr>oldEvents := e\<rparr>, ?n\<lparr>rx_unit := u\<rparr>)" "slot_in u ?h" "attached u = attached (rx_unit n)"
    using sh_ApplyEvents_ok [of ?n ?h k] slot by (auto simp: slot_in_def)
  let ?h' = "?h\<lparr>oldEvents := e, sh_stage := CONN_DATA_SENDING\<rparr>" and ?n' = "?n\<lparr>rx_unit := u\<rparr>"
  have "buffers_ok U B ?h' ?n'" using w(2) by (simp add: buffers_ok_def)
  then have "out_step U B h n bs ?h' ?n'"
    using a(2,3) bs(1) w(3,4) by (auto simp: out_step_def conn_ok_def same_input_def in_data_def out_data_def sent_def slot_in_def)
  moreover have "queue_rest k bs h n = Some (Done (?h', ?n'))" using w(1) a(1) by (simp add: queue_rest_def)
  ultimately show ?thesis by blast
qed

text \<open>What is handed to \<open>Send\<close> goes behind all that was handed to it before.\<close>

lemma sh_Send_ok:
  assumes ok: "conn_ok U B h n" and conn: "\<not> sh_enableReconnect h" and bs: "length bs \<le> MAX_SEND" and k: "\<forall>i. k_send k i \<noteq> Send_error"
  shows "sh_Send k vt self bs h n = Some Thrown \<or>
    (\<exists>ret h' n'. sh_Send k vt self bs h n = Some (Done (ret, Some h', n')) \<and> 0 \<le> ret \<and> out_step U B h n bs h' n')"
proof (cases "bs = []")
  case True
  then show ?thesis using out_step_refl [OF ok] by (simp add: sh_Send_def)
next
  case False
  note C = conn_okD [OF ok] and W = buffers_okD(2) [OF conn_okD(1) [OF ok]]
  have e: "rc_data_len (sh_w h) = 0 \<longleftrightarrow> out_data h n = []" using data_len_zero [OF W] by (simp add: out_data_def)
  show ?thesis
  proof (cases "out_data h n = []")
    case empty: True
    show ?thesis
    proof (rule sys_send_cases [of k n "netfd h" bs])
      show "k_send k (nt_calls n) \<noteq> Send_error" using k by simp
    next
      assume s: "sys_send k (netfd h) bs n = (Send_again, n\<lparr>nt_calls := Suc (nt_calls n)\<rparr>)"
      let ?n = "n\<lparr>nt_calls := Suc (nt_calls n)\<rparr>"
      have "buffers_ok U B h ?n" using C(1) by (simp add: buffers_ok_def)
      note Q = queue_rest_ok [OF this _ False bs, of k]
      have eq: "out_step U B h ?n bs h' n' = out_step U B h n bs h' n'" for h' n'
        by (simp add: out_step_def same_input_def sent_def in_data_def out_data_def)
      show ?thesis using Q C(2) s e empty False conn unfolding eq by (auto simp: sh_Send_def)
    next
      fix m assume m: "m \<le> length bs" and s: "sys_send k (netfd h) bs n = (Sent m, n\<lparr>nt_calls := Suc (nt_calls n), nt_wire := (nt_wire n)(netfd h := nt_wire n (netfd h) @ take m bs)\<rparr>)"
      let ?n = "n\<lparr>nt_calls := Suc (nt_calls n), nt_wire := (nt_wire n)(netfd h := nt_wire n (netfd h) @ take m bs)\<rparr>"
      have ok': "buffers_ok U B h ?n" using C(1) by (simp add: buffers_ok_def)
      show ?thesis
      proof (cases "m < length bs")
        case True
        have rest: "drop m bs \<noteq> []" "length (drop m bs) \<le> MAX_SEND" using True bs by simp_all
        note Q = queue_rest_ok [OF ok' _ rest, of k]
        have eq: "out_step U B h ?n (drop m bs) h' n' = out_step U B h n bs h' n'" for h' n'
          using empty by (simp add: out_step_def same_input_def sent_def in_data_def out_data_def)
        show ?thesis using Q C(2) s e empty False conn True unfolding eq by (auto simp: sh_Send_def)
      next
        case fin: False
        let ?h' = "h\<lparr>sh_stage := CONN_SEND_DONE\<rparr>"
        have "buffers_ok U B ?h' ?n" using C(1) by (simp add: buffers_ok_def)
        then have "out_step U B h n bs ?h' ?n"
          using C(2,3) empty m fin by (auto simp: out_step_def conn_ok_def same_input_def in_data_def out_data_def sent_def slot_in_def)
        then show ?thesis using s e empty False conn fin by (auto simp: sh_Send_def)
      qed
    qed
  next
    case full: False
    show ?thesis
    proof (cases "w_append bs h n = Some Thrown")
      case True
      then show ?thesis using full e False conn by (simp add: sh_Send_def)
    next
      case ap: False
      then obtain w' hp' where w: "w_append bs h n = Some (Done (h\<lparr>sh_w := w'\<rparr>, n\<lparr>nt_heap := hp'\<rparr>))"
        "buffers_ok U B (h\<lparr>sh_w := w'\<rparr>) (n\<lparr>nt_heap := hp'\<rparr>)" "content (w', hp') = out_data h n @ bs" "content (sh_r h, hp') = in_data h n"
        using w_append_ok [OF C(1) bs] by auto
      let ?h = "h\<lparr>sh_w := w'\<rparr>" and ?n = "n\<lparr>nt_heap := hp'\<rparr>"
      have "slot_in (rx_unit ?n) ?h" "out_data ?h ?n \<noteq> []" using C(2) full w(3) by (simp_all add: slot_in_def out_data_def)
      then obtain stage h' n' where o: "handle_output k ?h ?n = Some (stage, h', n')" "out_step U B ?h ?n [] h' n'"
          "stage = (if out_data h' n' = [] then CONN_SEND_DONE else CONN_DATA_SENDING)"
        using handle_output_ok [OF w(2) _ _ k] by blast
      have "out_step U B h n bs h' n'" using o(2) w(3,4) by (auto simp: out_step_def same_input_def sent_def out_data_def in_data_def)
      then show ?thesis using full e False conn w(1) o(1,3) by (auto simp: sh_Send_def)
    qed
  qed
qed

text \<open>The end of a connection.\<close>

lemma rc_skip_all:
  assumes "cache_ok U B (c, h)"
  shows "\<exists>h'. rc_skip (rc_data_len c) (c, h) = Some (CRawCache_new, h')"
proof -
  obtain c' h' where r: "rc_skip (rc_data_len c) (c, h) = Some (c', h')" using rc_skip_ok [OF assms, of "rc_data_len c"] by auto
  then have "c' = CRawCache_new" using cache_okD(5) [OF assms] by (auto simp: rc_skip_def split: option.splits bind_splits)
  then show ?thesis using r by simp
qed

lemma drop_buffers_ok:
  assumes ok: "buffers_ok U B h n"
  shows "\<exists>hp1 hp2. w_skip (rc_data_len (sh_w h)) h n = Some (h\<lparr>sh_w := CRawCache_new\<rparr>, n\<lparr>nt_heap := hp1\<rparr>) \<and>
    r_skip (rc_data_len (sh_r h)) (h\<lparr>sh_w := CRawCache_new\<rparr>) (n\<lparr>nt_heap := hp1\<rparr>) =
      Some (h\<lparr>sh_w := CRawCache_new, sh_r := CRawCache_new\<rparr>, n\<lparr>nt_heap := hp2\<rparr>) \<and>
    buffers_ok U B (h\<lparr>sh_w := CRawCache_new, sh_r := CRawCache_new\<rparr>) (n\<lparr>nt_heap := hp2\<rparr>) \<and> in_use (hp_pool hp2) = U"
proof -
  obtain hp1 where 1: "rc_skip (rc_data_len (sh_w h)) (sh_w h, nt_heap n) = Some (CRawCache_new, hp1)" using rc_skip_all [OF buffers_okD(2) [OF ok]] by blast
  let ?h1 = "h\<lparr>sh_w := CRawCache_new\<rparr>" and ?n1 = "n\<lparr>nt_heap := hp1\<rparr>"
  have w: "w_skip (rc_data_len (sh_w h)) h n = Some (?h1, ?n1)" using 1 by (simp add: w_skip_def)
  obtain w' hp' where "w_skip (rc_data_len (sh_w h)) h n = Some (h\<lparr>sh_w := w'\<rparr>, n\<lparr>nt_heap := hp'\<rparr>)" "buffers_ok U B (h\<lparr>sh_w := w'\<rparr>) (n\<lparr>nt_heap := hp'\<rparr>)"
    using w_skip_ok [OF ok] by blast
  then have ok1: "buffers_ok U B ?h1 ?n1" using w by simp
  obtain hp2 where 2: "rc_skip (rc_data_len (sh_r ?h1)) (sh_r ?h1, nt_heap ?n1) = Some (CRawCache_new, hp2)" using rc_skip_all [OF buffers_okD(1) [OF ok1]] by blast
  let ?h2 = "?h1\<lparr>sh_r := CRawCache_new\<rparr>" and ?n2 = "?n1\<lparr>nt_heap := hp2\<rparr>"
  have r: "r_skip (rc_data_len (sh_r h)) ?h1 ?n1 = Some (?h2, ?n2)" using 2 by (simp add: r_skip_def)
  obtain r' hp' where "r_skip (rc_data_len (sh_r h)) ?h1 ?n1 = Some (?h1\<lparr>sh_r := r'\<rparr>, ?n1\<lparr>nt_heap := hp'\<rparr>)"
    "buffers_ok U B (?h1\<lparr>sh_r := r'\<rparr>) (?n1\<lparr>nt_heap := hp'\<rparr>)" using r_skip_ok [OF ok1] by blast
  then have ok2: "buffers_ok U B ?h2 ?n2" using r by simp
  have "in_use (hp_pool hp2) = U" using cache_okD(2) [OF buffers_okD(1) [OF ok2]] by (simp add: CRawCache_new_def rc_own.simps)
  then show ?thesis using w r ok2 by (intro exI [of _ hp1] exI [of _ hp2]) simp
qed

lemma CPollerObject_destroy_slot:
  assumes "slot_in u h"
  shows "\<exists>u'. CPollerObject_destroy h u = Some u' \<and> (0 < netfd h \<longrightarrow> netfd h \<in> set (pu_closed u')) \<and> length (pu_table u') = length (pu_table u)"
  using assms by (auto simp: CPollerObject_destroy_def FreeEpollSlot_def slot_in_def Let_def)

lemma sh_delete_ok:
  assumes ok: "buffers_ok U B h n" and slot: "slot_in (rx_unit n) h" and d: "sh_decode h \<noteq> Wild"
  shows "\<exists>n'. sh_delete h n = Some n' \<and> net.more n' = net.more n \<and> in_use (hp_pool (nt_heap n')) = U \<and> nt_wire n' = nt_wire n \<and>
    rx_objs n' = rx_objs n \<and> (0 < netfd h \<longrightarrow> netfd h \<in> set (pu_closed (rx_unit n'))) \<and>
    length (pu_table (rx_unit n')) = length (pu_table (rx_unit n))"
proof -
  obtain hp1 hp2 where D: "w_skip (rc_data_len (sh_w h)) h n = Some (h\<lparr>sh_w := CRawCache_new\<rparr>, n\<lparr>nt_heap := hp1\<rparr>)"
    "r_skip (rc_data_len (sh_r h)) (h\<lparr>sh_w := CRawCache_new\<rparr>) (n\<lparr>nt_heap := hp1\<rparr>) = Some (h\<lparr>sh_w := CRawCache_new, sh_r := CRawCache_new\<rparr>, n\<lparr>nt_heap := hp2\<rparr>)"
    "in_use (hp_pool hp2) = U" using drop_buffers_ok [OF ok] by blast
  let ?h = "h\<lparr>sh_w := CRawCache_new, sh_r := CRawCache_new\<rparr>"
  obtain u where "CPollerObject_destroy ?h (rx_unit n) = Some u" "0 < netfd h \<longrightarrow> netfd h \<in> set (pu_closed u)"
    "length (pu_table u) = length (pu_table (rx_unit n))" using CPollerObject_destroy_slot [of "rx_unit n" ?h] slot by (auto simp: slot_in_def)
  then show ?thesis using D d by (simp add: sh_delete_def)
qed

end
