(* ===== verification/Connection.thy ===== *)
theory Connection
  imports SocketHandler Service Samples
begin

text \<open>
  Connections at work: the packets of a connection, however the stream is divided into chunks, the bytes that are sent, and the connections of
  \<open>Server/ClientHandler.cpp\<close> on top of \<open>CCSocketHandler\<close>, which connect the handlers of the packets with the network.
\<close>

section \<open>Packets of a connection\<close>

text \<open>The packets \<open>ps\<close> handled one after the other, with what is sent.\<close>

fun serve :: "(byte list \<Rightarrow> 's \<Rightarrow> ('s \<times> byte list) option) \<Rightarrow> byte list list \<Rightarrow> 's \<Rightarrow> ('s \<times> byte list) option" where
  "serve step [] s = Some (s, [])"
| "serve step (p # ps) s = do { (s, out) \<leftarrow> step p s; (s, out') \<leftarrow> serve step ps s; Some (s, out @ out') }"

lemma serve_append:
  "serve step (ps @ qs) s = do { (s, out) \<leftarrow> serve step ps s; (s, out') \<leftarrow> serve step qs s; Some (s, out @ out') }"
  by (induction ps arbitrary: s) (auto split: bind_splits)

text \<open>The chunks that \<open>recv\<close> returns for one connection, until it is closed.\<close>

fun input_run :: "kernel \<Rightarrow> 'x vtable \<Rightarrow> 'x packet_callback \<Rightarrow> nat \<Rightarrow> byte list list \<Rightarrow> CCSocketHandler \<Rightarrow> 'x net_scheme \<Rightarrow>
    (CCSocketHandler option \<times> 'x net_scheme) outcome option" where
  "input_run k vt opc self [] h n = Some (Done (Some h, n))"
| "input_run k vt opc self (c # cs) h n =
     after (sh_InputNotify k vt opc self (Recv c) h n)
       (\<lambda>(_, ho, n). case ho of None \<Rightarrow> Some (Done (None, n)) | Some h \<Rightarrow> input_run k vt opc self cs h n)"

text \<open>What \<open>recv\<close> may return, without the request of a Flash client.\<close>

definition plain_chunk :: "byte list \<Rightarrow> bool" where
  "plain_chunk c \<longleftrightarrow> c \<noteq> [] \<and> length c \<le> 102400 \<and> \<not> (length c = 23 \<and> c ! 0 = 0x3C \<and> c ! 1 = 0x70)"

lemma handle_input_plain:
  assumes "plain_chunk c"
  shows "handle_input k vt opc self (Recv c) h n = after (r_append c h n) (\<lambda>(h, n). input_loop opc h n)"
proof -
  have c: "(c = []) = False" "(length c = 23 \<and> c ! 0 = 0x3C \<and> c ! 1 = 0x70) = False" using assms by (simp_all add: plain_chunk_def)
  show ?thesis by (simp only: handle_input_def recv_result.case c if_False)
qed

lemma decode_packet_max: "decode_packet d q \<le> 10240"
  by (cases d) (simp_all add: decoder_defs)

text \<open>What \<open>handle_input\<close> relies on when it calls \<open>OnPacketComplete\<close>: the call handles the packet (\<open>step\<close>), may send, and leaves the object and
  its input alone.\<close>

locale packet_client =
  fixes k :: kernel and vt :: "'x vtable" and opc :: "'x packet_callback" and app :: "'x net_scheme \<Rightarrow> 's"
    and step :: "byte list \<Rightarrow> 's \<Rightarrow> ('s \<times> byte list) option"
  assumes app_more: "net.more n = net.more n' \<Longrightarrow> app n = app n'"
    and OnClose: "vt_OnClose vt h n = Some (h, n)"
    and packet_ok: "\<forall>i. k_send k i \<noteq> Send_error \<Longrightarrow> conn_ok U B h n \<Longrightarrow> \<not> sh_enableReconnect h \<Longrightarrow> step p (app n) = Some (s', out) \<Longrightarrow> opc p h n = Some Thrown \<or>
      (\<exists>ret h' n'. opc p h n = Some (Done (ret, Some h', n')) \<and> 0 \<le> ret \<and> conn_ok U B h' n' \<and> same_input h n h' n' \<and>
        sent h' n' = sent h n @ out \<and> app n' = s')"
begin

lemma input_loop_ok:
  "\<forall>i. k_send k i \<noteq> Send_error \<Longrightarrow> conn_ok U B h n \<Longrightarrow> \<not> sh_enableReconnect h \<Longrightarrow> sh_decode h = To d \<Longrightarrow> in_data h n \<noteq> [] \<or> sh_stage h = CONN_RECV_DONE \<Longrightarrow>
   frames (decode_packet d) (in_data h n) = (ps, r, bad) \<Longrightarrow> serve step ps (app n) = Some (s', out) \<Longrightarrow>
   input_loop opc h n = Some Thrown \<or>
   (\<exists>h' n'. input_loop opc h n = Some (Done (h', n')) \<and> conn_ok U B h' n' \<and> \<not> sh_enableReconnect h' \<and> sh_decode h' = To d \<and> netfd h' = netfd h \<and>
     in_data h' n' = r \<and> sent h' n' = sent h n @ out \<and> app n' = s' \<and>
     (if bad then sh_stage h' = CONN_DATA_ERROR else sh_stage h' = CONN_DATA_RECVING \<or> sh_stage h' = CONN_RECV_DONE))"
proof (induction "length (in_data h n)" arbitrary: h n ps out rule: less_induct)
  case less
  note k = less.prems(1) and ok = less.prems(2) and conn = less.prems(3) and d = less.prems(4) and F = less.prems(6) and S = less.prems(7)
  note C = conn_okD [OF ok] and R = buffers_okD(1) [OF conn_okD(1) [OF ok]]
  let ?q = "in_data h n"
  have len: "rc_data_len (sh_r h) = 0 \<longleftrightarrow> ?q = []" using data_len_zero [OF R] by (simp add: in_data_def)
  have data: "rc_data (sh_r h) (nt_heap n) = Some ?q" using rc_data_ok(1) [OF R] by (simp add: in_data_def)
  show ?case
  proof (cases "?q = []")
    case True
    then have "ps = []" "r = []" "\<not> bad" using F by (simp_all add: frames.simps)
    then show ?thesis using True len less.prems by (intro disjI2 exI [of _ h] exI [of _ n]) (simp add: input_loop.simps)
  next
    case False
    let ?p = "decode_packet d ?q"
    consider "?p = -1" | "?p = 0" | "0 < ?p" using decode_packet_range [of d ?q] by linarith
    then show ?thesis
    proof cases
      case 1
      then have ps: "ps = []" "r = ?q" "bad" using F False by (simp_all add: frames.simps)
      let ?h = "(DisableInput h)\<lparr>sh_stage := CONN_DATA_ERROR\<rparr>"
      have "input_loop opc h n = Some (Done (?h, n))" using False len data d 1 by (simp add: input_loop.simps)
      moreover have "conn_ok U B ?h n" using C by (simp add: conn_ok_def buffers_ok_def slot_in_def out_data_def)
      moreover have "in_data ?h n = ?q" "sent ?h n = sent h n" by (simp_all add: in_data_def sent_def out_data_def)
      ultimately show ?thesis using ps conn d S by (intro disjI2 exI [of _ ?h] exI [of _ n]) simp
    next
      case 2
      then have ps: "ps = []" "r = ?q" "\<not> bad" using F False by (simp_all add: frames.simps)
      let ?h = "h\<lparr>sh_stage := CONN_DATA_RECVING\<rparr>"
      have "input_loop opc h n = Some (Done (?h, n))" using False len data d 2 by (simp add: input_loop.simps)
      moreover have "conn_ok U B ?h n" using C by (simp add: conn_ok_def buffers_ok_def slot_in_def out_data_def)
      moreover have "in_data ?h n = ?q" "sent ?h n = sent h n" by (simp_all add: in_data_def sent_def out_data_def)
      ultimately show ?thesis using ps conn d S by (intro disjI2 exI [of _ ?h] exI [of _ n]) simp
    next
      case 3
      let ?n = "nat ?p"
      have n: "0 < ?n" "?n \<le> length ?q" "?n \<le> 10240" using 3 decode_packet_range [of d ?q] decode_packet_max [of d ?q] by auto
      have word: "unat (word_of_int ?p :: c_int) = ?n" using 3 n(3) by (simp add: unat_eq_nat_uint uint_word_of_int)
      obtain ps' where F': "frames (decode_packet d) (drop ?n ?q) = (ps', r, bad)" "ps = take ?n ?q # ps'"
        using F False 3 by (subst (asm) frames.simps) (auto simp: Let_def split: prod.splits)
      obtain s1 o1 o2 where S': "step (take ?n ?q) (app n) = Some (s1, o1)" "serve step ps' s1 = Some (s', o2)" "out = o1 @ o2"
        using S F'(2) by (auto split: bind_splits)
      have loop: "input_loop opc h n = do { r \<leftarrow> opc (take ?n ?q) h n;
          case r of Thrown \<Rightarrow> Some Thrown
          | Done (ret, ho, n) \<Rightarrow> do {
              h \<leftarrow> ho;
              if ret < 0 then Some (Done (h\<lparr>sh_stage := CONN_FATAL_ERROR\<rparr>, n))
              else do { (h, n) \<leftarrow> r_skip (word_of_int ?p) (h\<lparr>sh_stage := CONN_RECV_DONE\<rparr>) n; input_loop opc h n } } }"
        using False len data d 3 by (subst input_loop.simps) (simp add: Let_def)
      show ?thesis
      proof (cases "opc (take ?n ?q) h n = Some Thrown")
        case True
        then show ?thesis unfolding loop by simp
      next
        case False
        then obtain ret h1 n1 where 1: "opc (take ?n ?q) h n = Some (Done (ret, Some h1, n1))" "0 \<le> ret" "conn_ok U B h1 n1" "same_input h n h1 n1"
          "sent h1 n1 = sent h n @ o1" "app n1 = s1" using packet_ok [OF k ok conn S'(1)] by blast
        note C1 = conn_okD [OF 1(3)]
        have I: "sh_enableReconnect h1 = sh_enableReconnect h" "sh_decode h1 = sh_decode h" "netfd h1 = netfd h" "in_data h1 n1 = ?q"
          using 1(4) by (simp_all add: same_input_def)
        let ?h2 = "h1\<lparr>sh_stage := CONN_RECV_DONE\<rparr>"
        have ok2: "buffers_ok U B ?h2 n1" using C1(1) by (simp add: buffers_ok_def)
        obtain r' hp' where 2: "r_skip (word_of_int ?p) ?h2 n1 = Some (?h2\<lparr>sh_r := r'\<rparr>, n1\<lparr>nt_heap := hp'\<rparr>)"
          "buffers_ok U B (?h2\<lparr>sh_r := r'\<rparr>) (n1\<lparr>nt_heap := hp'\<rparr>)" "content (r', hp') = drop ?n (in_data ?h2 n1)" "content (sh_w ?h2, hp') = out_data ?h2 n1"
          using r_skip_ok [OF ok2, of "word_of_int ?p"] unfolding word by blast
        let ?h3 = "?h2\<lparr>sh_r := r'\<rparr>" and ?n3 = "n1\<lparr>nt_heap := hp'\<rparr>"
        have o3: "out_data ?h3 ?n3 = out_data h1 n1" using 2(4) by (simp add: out_data_def)
        have ok3: "conn_ok U B ?h3 ?n3" using 2(2) C1(2,3) o3 by (simp add: conn_ok_def slot_in_def)
        have i3: "in_data ?h3 ?n3 = drop ?n ?q" using 2(3) I(4) by (simp add: in_data_def)
        have a3: "app ?n3 = s1" using 1(6) app_more [of ?n3 n1] by simp
        have "length (in_data ?h3 ?n3) < length ?q" using i3 n by simp
        from less.hyps [OF this k ok3 _ _ _ F'(1) [folded i3] S'(2) [folded a3]] I conn d
        have IH: "input_loop opc ?h3 ?n3 = Some Thrown \<or>
          (\<exists>h' n'. input_loop opc ?h3 ?n3 = Some (Done (h', n')) \<and> conn_ok U B h' n' \<and> \<not> sh_enableReconnect h' \<and> sh_decode h' = To d \<and> netfd h' = netfd ?h3 \<and>
            in_data h' n' = r \<and> sent h' n' = sent ?h3 ?n3 @ o2 \<and> app n' = s' \<and>
            (if bad then sh_stage h' = CONN_DATA_ERROR else sh_stage h' = CONN_DATA_RECVING \<or> sh_stage h' = CONN_RECV_DONE))" by simp
        have "input_loop opc h n = input_loop opc ?h3 ?n3" unfolding loop using 1(1,2) 2(1) by simp
        moreover have "sent ?h3 ?n3 = sent h n @ o1" using o3 1(5) by (simp add: sent_def)
        moreover have "netfd ?h3 = netfd h" using I(3) by simp
        ultimately show ?thesis using IH S'(3) by simp
      qed
    qed
  qed
qed

lemma InputNotify_ok:
  assumes k: "\<forall>i. k_send k i \<noteq> Send_error" and ok: "conn_ok U B h n" and conn: "\<not> sh_enableReconnect h" and d: "sh_decode h = To d" and c: "plain_chunk c"
    and F: "frames (decode_packet d) (in_data h n @ c) = (ps, r, bad)" and S: "serve step ps (app n) = Some (s', out)"
  shows "sh_InputNotify k vt opc self (Recv c) h n = Some Thrown \<or>
    (\<exists>ret ho n'. sh_InputNotify k vt opc self (Recv c) h n = Some (Done (ret, ho, n')) \<and> app n' = s' \<and>
      (case ho of None \<Rightarrow> bad
       | Some h' \<Rightarrow> \<not> bad \<and> conn_ok U B h' n' \<and> \<not> sh_enableReconnect h' \<and> sh_decode h' = To d \<and> netfd h' = netfd h \<and> in_data h' n' = r \<and>
           sent h' n' = sent h n @ out))"
proof (cases "r_append c h n = Some Thrown")
  case True
  then show ?thesis by (simp add: sh_InputNotify_def handle_input_plain [OF c])
next
  case False
  note C = conn_okD [OF ok]
  have "length c \<le> MAX_SEND" using c by (simp add: plain_chunk_def)
  then obtain r' hp' where a: "r_append c h n = Some (Done (h\<lparr>sh_r := r'\<rparr>, n\<lparr>nt_heap := hp'\<rparr>))" "buffers_ok U B (h\<lparr>sh_r := r'\<rparr>) (n\<lparr>nt_heap := hp'\<rparr>)"
    "content (r', hp') = in_data h n @ c" "content (sh_w h, hp') = out_data h n" using r_append_ok [OF C(1), of c] False by blast
  let ?h = "h\<lparr>sh_r := r'\<rparr>" and ?n = "n\<lparr>nt_heap := hp'\<rparr>"
  have o: "out_data ?h ?n = out_data h n" and i: "in_data ?h ?n = in_data h n @ c" using a(3,4) by (simp_all add: out_data_def in_data_def)
  have ok': "conn_ok U B ?h ?n" using a(2) C(2,3) o by (simp add: conn_ok_def slot_in_def)
  have "app ?n = app n" by (rule app_more) simp
  then have S': "serve step ps (app ?n) = Some (s', out)" using S by simp
  have c0: "c \<noteq> []" using c by (simp add: plain_chunk_def)
  have handle: "handle_input k vt opc self (Recv c) h n = input_loop opc ?h ?n" using a(1) by (simp add: handle_input_plain [OF c])
  have L: "input_loop opc ?h ?n = Some Thrown \<or>
    (\<exists>h' n'. input_loop opc ?h ?n = Some (Done (h', n')) \<and> conn_ok U B h' n' \<and> \<not> sh_enableReconnect h' \<and> sh_decode h' = To d \<and> netfd h' = netfd ?h \<and>
     in_data h' n' = r \<and> sent h' n' = sent ?h ?n @ out \<and> app n' = s' \<and>
     (if bad then sh_stage h' = CONN_DATA_ERROR else sh_stage h' = CONN_DATA_RECVING \<or> sh_stage h' = CONN_RECV_DONE))"
    by (rule input_loop_ok [OF k ok' _ _ _ F [folded i] S']) (use conn d i c0 in simp_all)
  show ?thesis
  proof (cases "input_loop opc ?h ?n = Some Thrown")
    case True
    then show ?thesis by (simp add: sh_InputNotify_def handle)
  next
    case False
    then obtain h' n' where 1: "input_loop opc ?h ?n = Some (Done (h', n'))" "conn_ok U B h' n'" "\<not> sh_enableReconnect h'" "sh_decode h' = To d" "netfd h' = netfd h"
      "in_data h' n' = r" "sent h' n' = sent h n @ out" "app n' = s'"
      "if bad then sh_stage h' = CONN_DATA_ERROR else sh_stage h' = CONN_DATA_RECVING \<or> sh_stage h' = CONN_RECV_DONE"
      using L o by (auto simp: sent_def)
    show ?thesis
    proof (cases bad)
      case False
      then show ?thesis using 1 handle by (intro disjI2 exI [of _ POLLER_SUCC] exI [of _ "Some h'"] exI [of _ n']) (auto simp: sh_InputNotify_def)
    next
      case True
      obtain n2 where 2: "sh_delete h' n' = Some n2" "net.more n2 = net.more n'" using sh_delete_ok [of U B h' n'] 1(4) conn_okD(1,2) [OF 1(2)] by auto
      have "app n2 = s'" using app_more [OF 2(2)] 1(8) by simp
      moreover have "sh_InputNotify k vt opc self (Recv c) h n = Some (Done (POLLER_COMPLETE, None, n2))"
        using True 1(1,3,9) 2(1) handle OnClose by (simp add: sh_InputNotify_def sh_close_def)
      ultimately show ?thesis using True by (intro disjI2 exI [of _ POLLER_COMPLETE] exI [of _ "None :: CCSocketHandler option"] exI [of _ n2]) simp
    qed
  qed
qed

lemma input_run_ok:
  "\<forall>i. k_send k i \<noteq> Send_error \<Longrightarrow> conn_ok U B h n \<Longrightarrow> \<not> sh_enableReconnect h \<Longrightarrow> sh_decode h = To d \<Longrightarrow> list_all plain_chunk cs \<Longrightarrow>
   feed (decode_packet d) cs (in_data h n) = (ps, r, bad) \<Longrightarrow> serve step ps (app n) = Some (s', out) \<Longrightarrow>
   input_run k vt opc self cs h n = Some Thrown \<or>
    (\<exists>ho n'. input_run k vt opc self cs h n = Some (Done (ho, n')) \<and> app n' = s' \<and>
      (case ho of None \<Rightarrow> bad
       | Some h' \<Rightarrow> \<not> bad \<and> conn_ok U B h' n' \<and> netfd h' = netfd h \<and> in_data h' n' = r \<and> sent h' n' = sent h n @ out))"
proof (induction cs arbitrary: h n ps out)
  case Nil
  then show ?case by (intro disjI2 exI [of _ "Some h"] exI [of _ n]) auto
next
  case (Cons c cs)
  note k = Cons.prems(1) and ok = Cons.prems(2) and conn = Cons.prems(3) and d = Cons.prems(4)
  obtain ps1 r1 bad1 where F: "frames (decode_packet d) (in_data h n @ c) = (ps1, r1, bad1)" by (cases "frames (decode_packet d) (in_data h n @ c)")
  define ps2 where "ps2 = (if bad1 then [] else fst (feed (decode_packet d) cs r1))"
  have ps: "ps = ps1 @ ps2" and bad: "bad1 \<Longrightarrow> bad" and rest: "\<not> bad1 \<Longrightarrow> feed (decode_packet d) cs r1 = (ps2, r, bad)"
    using Cons.prems(6) F by (auto simp: ps2_def split: prod.splits if_splits)
  obtain s1 o1 o2 where S: "serve step ps1 (app n) = Some (s1, o1)" "serve step ps2 s1 = Some (s', o2)" "out = o1 @ o2"
    using Cons.prems(7) unfolding ps serve_append by (auto split: bind_splits)
  have c: "plain_chunk c" "list_all plain_chunk cs" using Cons.prems(5) by simp_all
  show ?case
  proof (cases "sh_InputNotify k vt opc self (Recv c) h n = Some Thrown")
    case True
    then show ?thesis by simp
  next
    case False
    then obtain ret ho n1 where 1: "sh_InputNotify k vt opc self (Recv c) h n = Some (Done (ret, ho, n1))" "app n1 = s1"
      "case ho of None \<Rightarrow> bad1
       | Some h' \<Rightarrow> \<not> bad1 \<and> conn_ok U B h' n1 \<and> \<not> sh_enableReconnect h' \<and> sh_decode h' = To d \<and> netfd h' = netfd h \<and> in_data h' n1 = r1 \<and>
           sent h' n1 = sent h n @ o1" using InputNotify_ok [OF k ok conn d c(1) F S(1), of self] by blast
    show ?thesis
    proof (cases ho)
      case None
      then have "bad1" using 1(3) by simp
      then have "ps2 = []" by (simp add: ps2_def)
      then have "s' = s1" using S(2) by simp
      then show ?thesis using 1(1,2) None bad [OF \<open>bad1\<close>] by (intro disjI2 exI [of _ "None :: CCSocketHandler option"] exI [of _ n1]) simp
    next
      case (Some h1)
      then have B: "\<not> bad1" "conn_ok U B h1 n1" "\<not> sh_enableReconnect h1" "sh_decode h1 = To d" "netfd h1 = netfd h" "in_data h1 n1 = r1" "sent h1 n1 = sent h n @ o1"
        using 1(3) by simp_all
      have IH: "input_run k vt opc self cs h1 n1 = Some Thrown \<or>
        (\<exists>ho n'. input_run k vt opc self cs h1 n1 = Some (Done (ho, n')) \<and> app n' = s' \<and>
          (case ho of None \<Rightarrow> bad
           | Some h' \<Rightarrow> \<not> bad \<and> conn_ok U B h' n' \<and> netfd h' = netfd h1 \<and> in_data h' n' = r \<and> sent h' n' = sent h1 n1 @ o2))"
        by (rule Cons.IH [OF k B(2,3,4) c(2)]) (use rest [OF B(1)] B(6) S(2) 1(2) in simp_all)
      have "input_run k vt opc self (c # cs) h n = input_run k vt opc self cs h1 n1" using 1(1) Some by simp
      then show ?thesis using IH B(5,7) S(3) by (auto split: option.splits)
    qed
  qed
qed

end

section \<open>Output\<close>

text \<open>What happens to the output of a connection: something is handed to \<open>Send\<close>, or the descriptor is writable, which \<open>epoll\<close> reports only to who
  waits for it.\<close>

datatype output_op = Give "byte list" | Writable

fun output_run :: "kernel \<Rightarrow> 'x vtable \<Rightarrow> nat \<Rightarrow> output_op list \<Rightarrow> CCSocketHandler \<Rightarrow> 'x net_scheme \<Rightarrow>
    (CCSocketHandler option \<times> 'x net_scheme) outcome option" where
  "output_run k vt self [] h n = Some (Done (Some h, n))"
| "output_run k vt self (Give bs # ops) h n =
     after (sh_Send k vt self bs h n)
       (\<lambda>(_, ho, n). case ho of None \<Rightarrow> Some (Done (None, n)) | Some h \<Rightarrow> output_run k vt self ops h n)"
| "output_run k vt self (Writable # ops) h n =
     (if newEvents h AND EPOLLOUT = 0 then output_run k vt self ops h n
      else do {
        (_, ho, n) \<leftarrow> sh_OutputNotify k vt h n;
        case ho of None \<Rightarrow> Some (Done (None, n)) | Some h \<Rightarrow> output_run k vt self ops h n
      })"

fun given :: "output_op list \<Rightarrow> byte list" where
  "given [] = []"
| "given (Give bs # ops) = bs @ given ops"
| "given (Writable # ops) = given ops"

fun small_op :: "output_op \<Rightarrow> bool" where
  "small_op (Give bs) \<longleftrightarrow> length bs \<le> MAX_SEND"
| "small_op Writable \<longleftrightarrow> True"

lemma output_run_ok:
  "conn_ok U B h n \<Longrightarrow> \<not> sh_enableReconnect h \<Longrightarrow> list_all small_op ops \<Longrightarrow> \<forall>i. k_send k i \<noteq> Send_error \<Longrightarrow>
   output_run k vt self ops h n = Some Thrown \<or>
     (\<exists>h' n'. output_run k vt self ops h n = Some (Done (Some h', n')) \<and> out_step U B h n (given ops) h' n')"
proof (induction k vt self ops h n rule: output_run.induct)
  case (1 k vt self h n)
  then show ?case using out_step_refl by auto
next
  case (2 k vt self bs ops h n)
  have bs: "length bs \<le> MAX_SEND" "list_all small_op ops" using 2(4) by simp_all
  show ?case
  proof (cases "sh_Send k vt self bs h n = Some Thrown")
    case True
    then show ?thesis by simp
  next
    case False
    then obtain ret h1 n1 where 1: "sh_Send k vt self bs h n = Some (Done (ret, Some h1, n1))" "out_step U B h n bs h1 n1"
      using sh_Send_ok [OF 2(2,3) bs(1) 2(5)] by blast
    have o: "conn_ok U B h1 n1" "\<not> sh_enableReconnect h1" using 1(2) 2(3) by (simp_all add: out_step_def same_input_def)
    have "output_run k vt self ops h1 n1 = Some Thrown \<or>
      (\<exists>h' n'. output_run k vt self ops h1 n1 = Some (Done (Some h', n')) \<and> out_step U B h1 n1 (given ops) h' n')"
      using 2(1) [OF refl o bs(2) 2(5)] by simp
    moreover have "output_run k vt self (Give bs # ops) h n = output_run k vt self ops h1 n1" using 1(1) by simp
    ultimately show ?thesis using out_step_trans [OF 1(2)] by auto
  qed
next
  case (3 k vt self ops h n)
  show ?case
  proof (cases "newEvents h AND EPOLLOUT = 0")
    case True
    then show ?thesis using 3 by simp
  next
    case False
    note C = conn_okD [OF 3(3)]
    have "out_data h n \<noteq> []" using C(3) False by simp
    then obtain stage h1 n1 where 1: "handle_output k h n = Some (stage, h1, n1)" "out_step U B h n [] h1 n1"
      "stage = (if out_data h1 n1 = [] then CONN_SEND_DONE else CONN_DATA_SENDING)" using handle_output_ok [OF C(1,2) _ 3(6)] by blast
    have "\<exists>ret. sh_OutputNotify k vt h n = Some (ret, Some h1, n1)" using 1(1,3) by (cases "out_data h1 n1 = []") (simp_all add: sh_OutputNotify_def)
    then obtain ret where o: "sh_OutputNotify k vt h n = Some (ret, Some h1, n1)" by blast
    have ok: "conn_ok U B h1 n1" "\<not> sh_enableReconnect h1" using 1(2) 3(4) by (simp_all add: out_step_def same_input_def)
    have "output_run k vt self ops h1 n1 = Some Thrown \<or>
      (\<exists>h' n'. output_run k vt self ops h1 n1 = Some (Done (Some h', n')) \<and> out_step U B h1 n1 (given ops) h' n')"
      using 3(2) [OF False o refl refl refl ok] 3(5,6) by simp
    moreover have "output_run k vt self (Writable # ops) h n = output_run k vt self ops h1 n1" using o False by simp
    ultimately show ?thesis using out_step_trans [OF 1(2)] by auto
  qed
qed

text \<open>An event for output that finds the buffer empty ends the connection.\<close>

lemma output_empty_closes:
  assumes ok: "conn_ok U B h n" and empty: "out_data h n = []" and h: "\<not> sh_enableReconnect h" "sh_decode h \<noteq> Wild" and vt: "\<forall>h n. vt_OnClose vt h n = Some (h, n)"
  shows "\<exists>n'. sh_OutputNotify k vt h n = Some (POLLER_COMPLETE, None, n') \<and> (0 < netfd h \<longrightarrow> netfd h \<in> set (pu_closed (rx_unit n'))) \<and>
    length (pu_table (rx_unit n')) = length (pu_table (rx_unit n))"
proof -
  note C = conn_okD [OF ok]
  have "rc_data_len (sh_w h) = 0" using data_len_zero [OF buffers_okD(2) [OF C(1)]] empty by (simp add: out_data_def)
  moreover obtain e u where a: "sh_ApplyEvents k (DisableOutput h) n = Some ((DisableOutput h)\<lparr>oldEvents := e\<rparr>, n\<lparr>rx_unit := u\<rparr>)" "slot_in u (DisableOutput h)"
    "length (pu_table u) = length (pu_table (rx_unit n))"
    using sh_ApplyEvents_ok [of n "DisableOutput h" k] C(2) by (auto simp: slot_in_def)
  let ?h = "(DisableOutput h)\<lparr>oldEvents := e, sh_stage := CONN_FATAL_ERROR\<rparr>" and ?n = "n\<lparr>rx_unit := u\<rparr>"
  have "handle_output k h n = Some (CONN_FATAL_ERROR, ?h, ?n)" using calculation a(1) by (simp add: handle_output_def)
  moreover have "buffers_ok U B ?h ?n" "slot_in (rx_unit ?n) ?h" "sh_decode ?h \<noteq> Wild"
    using C(1) a(2) h(2) by (simp_all add: buffers_ok_def slot_in_def)
  then obtain n' where "sh_delete ?h ?n = Some n'" "0 < netfd ?h \<longrightarrow> netfd ?h \<in> set (pu_closed (rx_unit n'))"
      "length (pu_table (rx_unit n')) = length (pu_table (rx_unit ?n))" using sh_delete_ok by blast
  ultimately show ?thesis using h vt a(3) by (auto simp: sh_OutputNotify_def sh_close_def)
qed

section \<open>Dispatch\<close>

text \<open>The virtual calls of \<open>ProcessPollerEvents\<close> for a connection; \<open>rcv\<close> is what \<open>recv\<close> returns.\<close>

definition sh_notify :: "kernel \<Rightarrow> 'x vtable \<Rightarrow> 'x packet_callback \<Rightarrow> recv_result \<Rightarrow> notification \<Rightarrow> nat \<Rightarrow> 'x net_scheme \<Rightarrow> (int \<times> 'x net_scheme) option" where
  "sh_notify k vt opc rcv kind p n =
     do {
       h \<leftarrow> rx_objs n p;
       r \<leftarrow> (case kind of
             Input \<Rightarrow> sh_InputNotify k vt opc p rcv h n
           | Output \<Rightarrow> do { r \<leftarrow> sh_OutputNotify k vt h n; Some (Done r) }
           | Hangup \<Rightarrow> do { r \<leftarrow> sh_HangupNotify k vt h n; Some (Done r) });
       case r of Thrown \<Rightarrow> None | Done (ret, ho, n) \<Rightarrow> Some (ret, n\<lparr>rx_objs := (rx_objs n)(p := ho)\<rparr>)
     }"

text \<open>When the kernel takes all it is offered, nothing is left in the buffer after a \<open>Send\<close>.\<close>

lemma sys_send_all: "k_send k (nt_calls n) = Sent (2 ^ 31) \<Longrightarrow> length bs < 2 ^ 31 \<Longrightarrow>
  sys_send k fd bs n = (Sent (length bs), n\<lparr>nt_calls := Suc (nt_calls n), nt_wire := (nt_wire n)(fd := nt_wire n fd @ bs)\<rparr>)"
  by (simp add: sys_send_def Let_def)

lemma handle_output_drains:
  assumes ok: "buffers_ok U B h n" and out: "out_data h n \<noteq> []" and k: "\<forall>i. k_send k i = Sent (2 ^ 31)" and r: "handle_output k h n = Some (stage, h', n')"
  shows "stage = CONN_SEND_DONE"
proof -
  note W = buffers_okD(2) [OF ok]
  have len: "rc_data_len (sh_w h) \<noteq> 0" using data_len_zero [OF W] out by (simp add: out_data_def)
  have d: "rc_data (sh_w h) (nt_heap n) = Some (out_data h n)" using rc_data_ok(1) [OF W] by (simp add: out_data_def)
  have "length (out_data h n) < 2 ^ 31" using content_small [OF W] by (simp add: out_data_def)
  then show ?thesis using r len d sys_send_all [of k n "out_data h n" "netfd h"] k by (auto simp: handle_output_def split: bind_splits)
qed

lemma sh_Send_drains:
  assumes ok: "conn_ok U B h n" and conn: "\<not> sh_enableReconnect h" and bs: "bs \<noteq> []" "length bs \<le> MAX_SEND" and k: "\<forall>i. k_send k i = Sent (2 ^ 31)"
    and r: "sh_Send k vt self bs h n = Some (Done (ret, Some h', n'))"
  shows "out_data h' n' = []"
proof -
  note C = conn_okD [OF ok] and W = buffers_okD(2) [OF conn_okD(1) [OF ok]]
  have e: "rc_data_len (sh_w h) = 0 \<longleftrightarrow> out_data h n = []" using data_len_zero [OF W] by (simp add: out_data_def)
  show ?thesis
  proof (cases "out_data h n = []")
    case True
    have "h' = h\<lparr>sh_stage := CONN_SEND_DONE\<rparr>" "nt_heap n' = nt_heap n"
      using r True e bs conn sys_send_all [of k n bs "netfd h"] k by (auto simp: sh_Send_def)
    then show ?thesis using True by (simp add: out_data_def)
  next
    case False
    have k': "\<forall>i. k_send k i \<noteq> Send_error" using k by simp
    have "w_append bs h n \<noteq> Some Thrown" using r False e bs conn by (auto simp: sh_Send_def)
    then obtain w' hp' where w: "w_append bs h n = Some (Done (h\<lparr>sh_w := w'\<rparr>, n\<lparr>nt_heap := hp'\<rparr>))"
      "buffers_ok U B (h\<lparr>sh_w := w'\<rparr>) (n\<lparr>nt_heap := hp'\<rparr>)" "content (w', hp') = out_data h n @ bs"
      using w_append_ok [OF C(1) bs(2)] by blast
    let ?h = "h\<lparr>sh_w := w'\<rparr>" and ?n = "n\<lparr>nt_heap := hp'\<rparr>"
    have o: "slot_in (rx_unit ?n) ?h" "out_data ?h ?n \<noteq> []" using C(2) bs w(3) by (simp_all add: slot_in_def out_data_def)
    obtain stage h2 n2 where 2: "handle_output k ?h ?n = Some (stage, h2, n2)"
      "stage = (if out_data h2 n2 = [] then CONN_SEND_DONE else CONN_DATA_SENDING)" using handle_output_ok [OF w(2) o k'] by blast
    have "stage = CONN_SEND_DONE" by (rule handle_output_drains [OF w(2) o(2) k 2(1)])
    moreover have "h' = h2" "n' = n2" using r False e bs conn w(1) 2(1) calculation by (auto simp: sh_Send_def)
    ultimately show ?thesis using 2(2) by (simp split: if_splits)
  qed
qed

text \<open>A request that is answered with one \<open>Send\<close>.\<close>

lemma request_drains:
  fixes k :: kernel and vt :: "'x vtable" and n :: "'x net_scheme" and p :: nat
  assumes ok: "conn_ok U B h n" and conn: "\<not> sh_enableReconnect h" "sh_decode h = To d" and c: "plain_chunk c"
    and packet: "decode_packet d (in_data h n @ c) = int (length (in_data h n @ c))" and bs: "answer \<noteq> []" "length answer \<le> MAX_SEND"
    and k: "\<forall>i. k_send k i = Sent (2 ^ 31)"
  defines "opc \<equiv> \<lambda>m h n. sh_Send k vt p answer h n"
  shows "sh_InputNotify k vt opc p (Recv c) h n = Some Thrown \<or>
    (\<exists>h' n'. sh_InputNotify k vt opc p (Recv c) h n = Some (Done (POLLER_SUCC, Some h', n')) \<and> conn_ok U B h' n' \<and> out_data h' n' = [] \<and>
      \<not> sh_enableReconnect h' \<and> sh_decode h' = To d \<and> netfd h' = netfd h \<and> attached (rx_unit n') = attached (rx_unit n) \<and> rx_objs n' = rx_objs n)"
proof (cases "r_append c h n = Some Thrown")
  case True
  then show ?thesis by (simp add: sh_InputNotify_def handle_input_plain [OF c])
next
  case False
  note C = conn_okD [OF ok]
  let ?q = "in_data h n @ c"
  have "length c \<le> MAX_SEND" using c by (simp add: plain_chunk_def)
  then obtain r' hp' where a: "r_append c h n = Some (Done (h\<lparr>sh_r := r'\<rparr>, n\<lparr>nt_heap := hp'\<rparr>))" "buffers_ok U B (h\<lparr>sh_r := r'\<rparr>) (n\<lparr>nt_heap := hp'\<rparr>)"
    "content (r', hp') = ?q" "content (sh_w h, hp') = out_data h n" using r_append_ok [OF C(1), of c] False by blast
  let ?h = "h\<lparr>sh_r := r'\<rparr>" and ?n = "n\<lparr>nt_heap := hp'\<rparr>"
  have i: "in_data ?h ?n = ?q" using a(3) by (simp add: in_data_def)
  have ok1: "conn_ok U B ?h ?n" using a(2,4) C(2,3) by (simp add: conn_ok_def slot_in_def out_data_def)
  note R1 = buffers_okD(1) [OF a(2)]
  have q: "?q \<noteq> []" using c by (simp add: plain_chunk_def)
  have len: "rc_data_len (sh_r ?h) \<noteq> 0" and data: "rc_data (sh_r ?h) (nt_heap ?n) = Some ?q"
    using data_len_zero [OF R1] rc_data_ok(1) [OF R1] q i by (simp_all add: in_data_def)
  have "0 < length ?q" using q by blast
  then have m: "0 < int (length ?q)" "length ?q \<le> 10240" using packet decode_packet_max [of d ?q] by linarith+
  have k': "\<forall>i. k_send k i \<noteq> Send_error" using k by simp
  have loop: "input_loop opc ?h ?n = do { r \<leftarrow> opc ?q ?h ?n;
          case r of Thrown \<Rightarrow> Some Thrown
          | Done (ret, ho, n) \<Rightarrow> do {
              h \<leftarrow> ho;
              if ret < 0 then Some (Done (h\<lparr>sh_stage := CONN_FATAL_ERROR\<rparr>, n))
              else do { (h, n) \<leftarrow> r_skip (word_of_int (decode_packet d ?q)) (h\<lparr>sh_stage := CONN_RECV_DONE\<rparr>) n; input_loop opc h n } } }"
    using len data conn(2) packet m(1) by (subst input_loop.simps) (simp add: Let_def)
  show ?thesis
  proof (cases "sh_Send k vt p answer ?h ?n = Some Thrown")
    case True
    then show ?thesis unfolding sh_InputNotify_def handle_input_plain [OF c] using a(1) loop by (simp add: opc_def)
  next
    case sent: False
    have conn1: "\<not> sh_enableReconnect ?h" using conn(1) by simp
    obtain ret h1 n1 where 1: "sh_Send k vt p answer ?h ?n = Some (Done (ret, Some h1, n1))" "0 \<le> ret" "out_step U B ?h ?n answer h1 n1"
      using sh_Send_ok [OF ok1 conn1 bs(2) k'] sent by blast
    have o1: "out_data h1 n1 = []" by (rule sh_Send_drains [OF ok1 conn1 bs k 1(1)])
    have I: "conn_ok U B h1 n1" "sh_enableReconnect h1 = sh_enableReconnect h" "sh_decode h1 = sh_decode h" "netfd h1 = netfd h" "in_data h1 n1 = ?q"
      "attached (rx_unit n1) = attached (rx_unit n)" "rx_objs n1 = rx_objs n" using 1(3) i by (simp_all add: out_step_def same_input_def)
    let ?h2 = "h1\<lparr>sh_stage := CONN_RECV_DONE\<rparr>"
    have ok2: "buffers_ok U B ?h2 n1" using conn_okD(1) [OF I(1)] by (simp add: buffers_ok_def)
    have word: "unat (word_of_int (decode_packet d ?q) :: c_int) = length ?q" unfolding packet using m(2) by (simp only: of_int_of_nat_eq unat_of_nat) simp
    obtain r2 hp2 where 2: "r_skip (word_of_int (decode_packet d ?q)) ?h2 n1 = Some (?h2\<lparr>sh_r := r2\<rparr>, n1\<lparr>nt_heap := hp2\<rparr>)"
      "buffers_ok U B (?h2\<lparr>sh_r := r2\<rparr>) (n1\<lparr>nt_heap := hp2\<rparr>)" "content (r2, hp2) = drop (length ?q) (in_data ?h2 n1)" "content (sh_w ?h2, hp2) = out_data ?h2 n1"
      using r_skip_ok [OF ok2, of "word_of_int (decode_packet d ?q)"] unfolding word by blast
    let ?h3 = "?h2\<lparr>sh_r := r2\<rparr>" and ?n3 = "n1\<lparr>nt_heap := hp2\<rparr>"
    have o3: "out_data ?h3 ?n3 = []" using 2(4) o1 by (simp add: out_data_def)
    have i3: "in_data ?h3 ?n3 = []" using 2(3) I(5) by (simp add: in_data_def)
    have ok3: "conn_ok U B ?h3 ?n3" using 2(2) conn_okD(2,3) [OF I(1)] o1 o3 by (simp add: conn_ok_def slot_in_def)
    have "rc_data_len (sh_r ?h3) = 0" using data_len_zero [OF buffers_okD(1) [OF 2(2)]] i3 by (simp add: in_data_def)
    then have "input_loop opc ?h3 ?n3 = Some (Done (?h3, ?n3))" by (simp add: input_loop.simps)
    then have "input_loop opc ?h ?n = Some (Done (?h3, ?n3))" unfolding loop using 1(1,2) 2(1) by (simp add: opc_def)
    then have "sh_InputNotify k vt opc p (Recv c) h n = Some (Done (POLLER_SUCC, Some ?h3, ?n3))"
      unfolding sh_InputNotify_def handle_input_plain [OF c] using a(1) by simp
    then show ?thesis using ok3 o3 I conn by (intro disjI2 exI [of _ ?h3] exI [of _ ?n3]) simp
  qed
qed


text \<open>A connection with three bytes to send.\<close>

definition pool2 :: CMemPool where
  "pool2 = \<lparr>mp_free = [1024 \<mapsto> [2]], mp_stub = [1024 \<mapsto> {1, 2}], mp_allocated_size = 2048, mp_water_mark = C_MAX_WATER_MARK, mp_next = 3\<rparr>"

definition handler2 :: CCSocketHandler where
  "handler2 = CPollerObject.extend \<lparr>netfd = 5, ownerUnit = True, newEvents = 5, oldEvents = 5, epslot = 0\<rparr>
     \<lparr>sh_decode = To BoyaaDecoder, sh_stage = CONN_DATA_SENDING, sh_r = CRawCache_new,
      sh_w = \<lparr>rc_mem = Some 1, rc_block_size = 1024, rc_data_head = 0, rc_data_len = 3\<rparr>, sh_enableReconnect = False, sh_ip = 0, sh_port = 0\<rparr>"

definition net2 :: net where
  "net2 = reactor.extend \<lparr>rx_unit = unit1, rx_objs = [10 \<mapsto> handler2]\<rparr>
     \<lparr>nt_heap = \<lparr>hp_pool = pool2, hp_bytes = (\<lambda>a. mem_write (\<lambda>i. 0) 0 [1, 2, 3])\<rparr>, nt_wire = (\<lambda>fd. []), nt_calls = 0, nt_new = 20\<rparr>"

definition kernel2 :: "nat \<Rightarrow> kernel" where
  "kernel2 m = \<lparr>k_epoll = (\<lambda>i. True), k_send = (\<lambda>i. Sent m), k_connect = (\<lambda>i. \<lparr>cc_socket = 6, cc_connect = 0, cc_inprogress = False, cc_poll = 1, cc_getsockopt = 0, cc_so_error = 0\<rparr>)\<rparr>"

definition vtable2 :: "unit vtable" where
  "vtable2 = \<lparr>vt_OnClose = (\<lambda>h n. Some (h, n)), vt_OnConnected = (\<lambda>h n. Some (Done (0, Some h, n))), vt_CreateDecoder = BoyaaDecoder\<rparr>"

lemma conn2_ok: "conn_ok {} (\<lambda>a i. 0) handler2 net2" "out_data handler2 net2 = [1, 2, 3]" "in_data handler2 net2 = []"
proof -
  have p: "pool_ok pool2" "in_use pool2 = {(1, 1024)}"
    by (auto simp: pool_ok_def pool2_def blocks_ok_def sizes_ok_def mp_total_def in_use_def split: if_splits)
  show o: "out_data handler2 net2 = [1, 2, 3]" "in_data handler2 net2 = []"
    by (simp_all add: out_data_def in_data_def content_def handler2_def net2_def CPollerObject.defs reactor.defs CRawCache_new_def mem_read_def mem_write_def upt_rec)
  have "buffers_ok {} (\<lambda>a i. 0) handler2 net2"
    using p by (simp add: buffers_ok_def cache_ok_def handler2_def net2_def CPollerObject.defs reactor.defs CRawCache_new_def rc_own.simps)
  then show "conn_ok {} (\<lambda>a i. 0) handler2 net2"
    using o by (simp add: conn_ok_def slot_in_def) (simp add: handler2_def net2_def CPollerObject.defs reactor.defs unit1_def pu_slot_def)
qed


section \<open>Properties of a connection\<close>



section \<open>Connections of hall and game servers\<close>

text \<open>The network together with the server and the packet object of the connection. \<open>OnClose\<close> and \<open>OnConnected\<close> only write to the log.\<close>

record service = net +
  sv_packet :: packet
  sv_server :: UserServer

definition client_vtable :: "unit service_ext vtable" where
  "client_vtable = \<lparr>vt_OnClose = (\<lambda>h n. Some (h, n)), vt_OnConnected = (\<lambda>h n. Some (Done (0, Some h, n))), vt_CreateDecoder = BoyaaDecoder\<rparr>"

fun client_Sends :: "kernel \<Rightarrow> nat \<Rightarrow> byte list list \<Rightarrow> CCSocketHandler \<Rightarrow> service \<Rightarrow> (CCSocketHandler option \<times> service) outcome option" where
  "client_Sends k self [] h n = Some (Done (Some h, n))"
| "client_Sends k self (bs # bss) h n =
     after (sh_Send k client_vtable self bs h n) (\<lambda>(_, ho, n). do { h \<leftarrow> ho; client_Sends k self bss h n })"

text \<open>The handler of the packet, and what it hands to \<open>Send\<close>. The handlers neither read nor change what \<open>Send\<close> changes, so the packets
  may be sent after it.\<close>

definition client_OnPacketComplete :: "env \<Rightarrow> kernel \<Rightarrow> nat \<Rightarrow> byte list \<Rightarrow> CCSocketHandler \<Rightarrow> service \<Rightarrow>
    (int \<times> CCSocketHandler option \<times> service) outcome option" where
  "client_OnPacketComplete e k self data h n =
     do {
       (ret, pPacket, w) \<leftarrow> OnPacketComplete e data (int (length data)) (sv_packet n) ((sv_server n)\<lparr>w_sent := []\<rparr>);
       after (client_Sends k self (w_sent w) h (n\<lparr>sv_packet := pPacket, sv_server := w\<rparr>)) (\<lambda>(ho, n). Some (Done (ret, ho, n)))
     }"

text \<open>The reference: a packet handled by the server alone, with the bytes that it sends; no message is longer than \<open>MAX_SEND\<close>.\<close>

definition client_step :: "env \<Rightarrow> byte list \<Rightarrow> packet \<times> UserServer \<Rightarrow> ((packet \<times> UserServer) \<times> byte list) option" where
  "client_step e data s =
     do {
       (ret, pPacket, w) \<leftarrow> OnPacketComplete e data (int (length data)) (fst s) ((snd s)\<lparr>w_sent := []\<rparr>);
       if ret < 0 \<or> \<not> list_all (\<lambda>b. length b \<le> MAX_SEND) (w_sent w) then None else Some ((pPacket, w), concat (w_sent w))
     }"

lemma client_Sends_ok:
  "conn_ok U B h n \<Longrightarrow> \<not> sh_enableReconnect h \<Longrightarrow> \<forall>i. k_send k i \<noteq> Send_error \<Longrightarrow> list_all (\<lambda>b. length b \<le> MAX_SEND) bss \<Longrightarrow>
   client_Sends k self bss h n = Some Thrown \<or>
     (\<exists>h' n'. client_Sends k self bss h n = Some (Done (Some h', n')) \<and> out_step U B h n (concat bss) h' n')"
proof (induction bss arbitrary: h n)
  case Nil
  then show ?case using out_step_refl by auto
next
  case (Cons bs bss)
  have bs: "length bs \<le> MAX_SEND" "list_all (\<lambda>b. length b \<le> MAX_SEND) bss" using Cons.prems(4) by simp_all
  show ?case
  proof (cases "sh_Send k client_vtable self bs h n = Some Thrown")
    case True
    then show ?thesis by simp
  next
    case False
    then obtain ret h1 n1 where 1: "sh_Send k client_vtable self bs h n = Some (Done (ret, Some h1, n1))" "out_step U B h n bs h1 n1"
      using sh_Send_ok [OF Cons.prems(1,2) bs(1) Cons.prems(3)] by blast
    have "conn_ok U B h1 n1" "\<not> sh_enableReconnect h1" using 1(2) Cons.prems(2) by (simp_all add: out_step_def same_input_def)
    then have "client_Sends k self bss h1 n1 = Some Thrown \<or>
      (\<exists>h' n'. client_Sends k self bss h1 n1 = Some (Done (Some h', n')) \<and> out_step U B h1 n1 (concat bss) h' n')"
      using Cons.IH [OF _ _ Cons.prems(3) bs(2)] by blast
    moreover have "client_Sends k self (bs # bss) h n = client_Sends k self bss h1 n1" using 1(1) by simp
    ultimately show ?thesis using out_step_trans [OF 1(2)] by auto
  qed
qed

lemma service_more: "net.more n = net.more n' \<Longrightarrow> sv_packet n = sv_packet n' \<and> sv_server n = sv_server n'" for n n' :: service
  by (cases n; cases n') simp

interpretation client: packet_client k client_vtable "client_OnPacketComplete e k self" "\<lambda>n. (sv_packet n, sv_server n)" "client_step e"
  for k :: kernel and e :: env and self :: nat
proof unfold_locales
  fix n n' :: service
  assume "net.more n = net.more n'"
  then show "(sv_packet n, sv_server n) = (sv_packet n', sv_server n')" using service_more by blast
next
  fix h and n :: service
  show "vt_OnClose client_vtable h n = Some (h, n)" by (simp add: client_vtable_def)
next
  fix U B h p s' out and n :: service
  assume k: "\<forall>i. k_send k i \<noteq> Send_error" and ok: "conn_ok U B h n" and conn: "\<not> sh_enableReconnect h"
    and step: "client_step e p (sv_packet n, sv_server n) = Some (s', out)"
  obtain ret pk w where 1: "OnPacketComplete e p (int (length p)) (sv_packet n) ((sv_server n)\<lparr>w_sent := []\<rparr>) = Some (ret, pk, w)" "0 \<le> ret"
    "list_all (\<lambda>b. length b \<le> MAX_SEND) (w_sent w)" "s' = (pk, w)" "out = concat (w_sent w)"
    using step by (auto simp: client_step_def split: bind_splits if_splits)
  let ?n = "n\<lparr>sv_packet := pk, sv_server := w\<rparr>"
  have same: "rx_unit ?n = rx_unit n" "nt_heap ?n = nt_heap n" "nt_wire ?n = nt_wire n" by (simp_all)
  have ok': "conn_ok U B h ?n" using ok same by (simp add: conn_ok_def buffers_ok_def out_data_def)
  have d: "in_data h ?n = in_data h n" "sent h ?n = sent h n" using same by (simp_all add: in_data_def sent_def out_data_def)
  show "client_OnPacketComplete e k self p h n = Some Thrown \<or>
      (\<exists>ret h' n'. client_OnPacketComplete e k self p h n = Some (Done (ret, Some h', n')) \<and> 0 \<le> ret \<and> conn_ok U B h' n' \<and> same_input h n h' n' \<and>
        sent h' n' = sent h n @ out \<and> (sv_packet n', sv_server n') = s')"
  proof (cases "client_Sends k self (w_sent w) h ?n = Some Thrown")
    case True
    then show ?thesis using 1(1) by (simp add: client_OnPacketComplete_def)
  next
    case False
    then obtain h' n' where 2: "client_Sends k self (w_sent w) h ?n = Some (Done (Some h', n'))" "out_step U B h ?n (concat (w_sent w)) h' n'"
      using client_Sends_ok [OF ok' conn k 1(3)] by blast
    have "net.more n' = net.more ?n" using 2(2) by (simp add: out_step_def)
    then have "sv_packet n' = pk" "sv_server n' = w" using service_more [of n' ?n] by simp_all
    then show ?thesis using 1 2 d
      by (intro disjI2 exI [of _ ret] exI [of _ h'] exI [of _ n']) (simp add: client_OnPacketComplete_def out_step_def same_input_def)
  qed
qed


text \<open>A packet that registers a server, in two chunks, and the beginning of another.\<close>

definition service2 :: service where
  "service2 = net.extend (net.truncate net2) \<lparr>sv_packet = packet0, sv_server = server0\<rparr>"

lemma service2_fields: "rx_unit service2 = rx_unit net2" "nt_heap service2 = nt_heap net2" "nt_wire service2 = nt_wire net2" "sv_packet service2 = packet0" "sv_server service2 = server0"
  by (simp_all add: service2_def net2_def net.defs reactor.defs)

lemma register_step:
  "\<exists>pk. client_step e (net_header 7 ALLOC_REGISTER_PACKET 0) (packet0, server0) = Some ((pk, server0), [])"
proof -
  let ?m = "net_header 7 ALLOC_REGISTER_PACKET 0"
  let ?q = "(Dpb_reset packet0)\<lparr>m_strBuf := mem_write (m_strBuf (Dpb_reset packet0)) 0 ?m, m_nPacketSize := 9\<rparr>"
  have len: "length ?m = 9" by (simp add: net_header_def le16_def bytes_of_string_def)
  have "In_Copy ?m (int (length ?m)) packet0 = Some (True, ?q)" unfolding len by (simp add: In_Copy_def Pb_copy_def Dpb_copy_def len Let_def)
  moreover have "Pb_GetCmdType ?q = Some ALLOC_REGISTER_PACKET"
    by (simp add: Pb_get_total mem_read_def mem_write_def upt_rec net_header_def le16_def bytes_of_string_def ntohs_def)
  ultimately have "OnPacketComplete e ?m (int (length ?m)) packet0 (server0\<lparr>w_sent := []\<rparr>) = Some (0, ?q, server0\<lparr>w_sent := []\<rparr>)"
    by (simp add: OnPacketComplete_def ProcessPacket_def ProcessAllocRegister_def)
  then show ?thesis by (simp add: client_step_def) (simp add: server0_def)
qed


end
