(* ===== verification/SocketServer.thy ===== *)
theory SocketServer
  imports Connection
begin

text \<open>
  \<open>include/CCSocketServer.h\<close>, \<open>src/CCSocketServer.cpp\<close>, \<open>CNet::tcp_bind\<close>: the listening socket, which accepts connections in batches and registers a
  handler for each. The result of the n-th system call, when it is \<open>accept\<close>, is the parameter \<open>acc\<close>. \<open>CreateHandler\<close> is the parameter
  \<open>create\<close>, which is given the descriptor and the address of the peer; \<open>SocketServer<T>\<close> creates a \<open>T\<close>.
\<close>

section \<open>State\<close>

type_synonym peer = "c_int \<times> c_short"

record CCSocketServer = CPollerObject +
  ss_accept_cnt :: int
  ss_newfd_cnt :: int
  ss_fd_array :: "int list"
  ss_peer_array :: "peer list"
  ss_bindAddr :: string
  ss_bindPort :: c_short
  ss_backlog :: int

datatype accept_result = Accepted int peer | Accept_intr | Accept_again | Accept_error

text \<open>The bind address is cut to the 127 characters that are copied.\<close>

definition CCSocketServer_new :: "string \<Rightarrow> c_short \<Rightarrow> int \<Rightarrow> int \<Rightarrow> CCSocketServer" where
  "CCSocketServer_new bindIp port acceptcnt backlog =
     CPollerObject.extend CPollerObject_new
       \<lparr>ss_accept_cnt = acceptcnt, ss_newfd_cnt = 0, ss_fd_array = replicate (nat acceptcnt) (-1), ss_peer_array = replicate (nat acceptcnt) (0, 0),
        ss_bindAddr = take 127 bindIp, ss_bindPort = port, ss_backlog = backlog\<rparr>"

text \<open>The arguments of \<open>tcp_bind\<close> after the address are the results of \<open>inet_pton\<close>, as a function of the address, \<open>socket\<close>, \<open>bind\<close> and \<open>listen\<close>. The
  result comes with the descriptors it closed.\<close>

definition tcp_bind :: "string \<Rightarrow> (string \<Rightarrow> int) \<Rightarrow> int \<Rightarrow> int \<Rightarrow> int \<Rightarrow> int \<times> int list" where
  "tcp_bind addr pton fd bind_ret listen_ret =
     (let addr = takeWhile (\<lambda>c. c \<noteq> CHR '':'') addr in
      if addr \<noteq> ''*'' \<and> pton addr \<le> 0 then (-1, [])
      else if fd = -1 then (-1, [])
      else if bind_ret = -1 then (-1, [fd])
      else if listen_ret = -1 then (-1, [fd])
      else (fd, []))"

definition ss_Init :: "(string \<Rightarrow> int) \<Rightarrow> int \<Rightarrow> int \<Rightarrow> int \<Rightarrow> CCSocketServer \<Rightarrow> int \<times> CCSocketServer \<times> int list" where
  "ss_Init pton fd bind_ret listen_ret srv =
     (let (nfd, closed) = tcp_bind (ss_bindAddr srv) pton fd bind_ret listen_ret; srv = srv\<lparr>netfd := nfd\<rparr> in
      if netfd srv = -1 then (-1, srv, closed) else (0, EnableInput srv, closed))"

section \<open>Accepting\<close>

text \<open>The loop from index \<open>i\<close> on, \<open>m\<close> times.\<close>

fun accept_loop :: "(nat \<Rightarrow> accept_result) \<Rightarrow> nat \<Rightarrow> nat \<Rightarrow> CCSocketServer \<Rightarrow> 'x net_scheme \<Rightarrow> int \<times> CCSocketServer \<times> 'x net_scheme" where
  "accept_loop acc 0 i srv n = (0, srv, n)"
| "accept_loop acc (Suc m) i srv n =
     (let r = acc (nt_calls n); n = n\<lparr>nt_calls := Suc (nt_calls n)\<rparr> in
      case r of
        Accept_intr \<Rightarrow> accept_loop acc m (Suc i) srv n
      | Accept_again \<Rightarrow> (-1, srv, n)
      | Accept_error \<Rightarrow> accept_loop acc m (Suc i) (srv\<lparr>ss_fd_array := (ss_fd_array srv)[i := -1], ss_newfd_cnt := ss_newfd_cnt srv + 1\<rparr>) n
      | Accepted fd peer \<Rightarrow>
          accept_loop acc m (Suc i)
            (srv\<lparr>ss_peer_array := (ss_peer_array srv)[i := peer], ss_fd_array := (ss_fd_array srv)[i := fd], ss_newfd_cnt := ss_newfd_cnt srv + 1\<rparr>) n)"

definition proc_accept :: "(nat \<Rightarrow> accept_result) \<Rightarrow> CCSocketServer \<Rightarrow> 'x net_scheme \<Rightarrow> int \<times> CCSocketServer \<times> 'x net_scheme" where
  "proc_accept acc srv n =
     accept_loop acc (nat (ss_accept_cnt srv)) 0 (srv\<lparr>ss_fd_array := replicate (nat (ss_accept_cnt srv)) (-1), ss_newfd_cnt := 0\<rparr>) n"

text \<open>A handler for one descriptor: what \<open>proc_request\<close> does with a new object at the address \<open>p\<close>. The result tells whether it is registered.\<close>

definition discard :: "'x vtable \<Rightarrow> CCSocketHandler \<Rightarrow> 'x net_scheme \<Rightarrow> (bool \<times> 'x net_scheme) outcome option" where
  "discard vt h n = do { (h, n) \<leftarrow> vt_OnClose vt h n; n \<leftarrow> sh_delete h n; Some (Done (False, n)) }"

definition register :: "kernel \<Rightarrow> 'x vtable \<Rightarrow> nat \<Rightarrow> CCSocketHandler \<Rightarrow> 'x net_scheme \<Rightarrow> (bool \<times> 'x net_scheme) outcome option" where
  "register k vt p h n =
     after (vt_OnConnected vt h n) (\<lambda>(ret, ho, n). do {
       h \<leftarrow> ho;
       if ret < 0 then discard vt h n
       else do {
         (ret, h, n) \<leftarrow> reactor_AttachPoller k vt p h n;
         if ret < 0 then discard vt h n else Some (Done (True, n\<lparr>rx_objs := (rx_objs n)(p \<mapsto> h)\<rparr>))
       }
     })"

fun request_loop :: "kernel \<Rightarrow> 'x vtable \<Rightarrow> (int \<Rightarrow> peer \<Rightarrow> CCSocketHandler option) \<Rightarrow> nat \<Rightarrow> nat \<Rightarrow> CCSocketServer \<Rightarrow> 'x net_scheme \<Rightarrow>
    (CCSocketServer \<times> 'x net_scheme) outcome option" where
  "request_loop k vt create 0 i srv n = Some (Done (srv, n))"
| "request_loop k vt create (Suc m) i srv n =
     (if \<not> (i < length (ss_fd_array srv) \<and> i < length (ss_peer_array srv)) then None
      else
        let fd = ss_fd_array srv ! i; peer = ss_peer_array srv ! i; srv' = srv\<lparr>ss_fd_array := (ss_fd_array srv)[i := -1]\<rparr> in
        if fd = -1 then request_loop k vt create m (Suc i) srv n
        else (case create fd peer of
            None \<Rightarrow> request_loop k vt create m (Suc i) srv' (sys_close fd n)
          | Some h \<Rightarrow>
              let p = nt_new n; n = n\<lparr>nt_new := Suc p\<rparr> in
              after (register k vt p (h\<lparr>sh_ip := fst peer, sh_port := snd peer, netfd := fd\<rparr>) n)
                (\<lambda>(ok, n). request_loop k vt create m (Suc i) (if ok then srv else srv') n)))"

definition proc_request :: "kernel \<Rightarrow> 'x vtable \<Rightarrow> (int \<Rightarrow> peer \<Rightarrow> CCSocketHandler option) \<Rightarrow> CCSocketServer \<Rightarrow> 'x net_scheme \<Rightarrow>
    (CCSocketServer \<times> 'x net_scheme) outcome option" where
  "proc_request k vt create srv n = request_loop k vt create (nat (ss_newfd_cnt srv)) 0 srv n"

partial_function (option) ss_InputNotify :: "kernel \<Rightarrow> 'x vtable \<Rightarrow> (int \<Rightarrow> peer \<Rightarrow> CCSocketHandler option) \<Rightarrow> (nat \<Rightarrow> accept_result) \<Rightarrow> CCSocketServer \<Rightarrow>
    'x net_scheme \<Rightarrow> (int \<times> CCSocketServer \<times> 'x net_scheme) outcome option" where
  "ss_InputNotify k vt create acc srv n =
     (let (ret, srv, n) = proc_accept acc srv n in
      if ss_newfd_cnt srv \<le> 0 then Some (Done (POLLER_SUCC, srv, n))
      else do {
        r \<leftarrow> proc_request k vt create srv n;
        case r of Thrown \<Rightarrow> Some Thrown
        | Done (srv, n) \<Rightarrow> if ret < 0 then Some (Done (POLLER_SUCC, srv, n)) else ss_InputNotify k vt create acc srv n
      })"

section \<open>Errors of accept\<close>

text \<open>C37: a connection that is accepted after an interrupted \<open>accept\<close> is lost. \<open>proc_accept\<close> leaves a gap in the array of descriptors for the
  interrupted call but counts only the descriptors, and \<open>proc_request\<close> goes through as many elements as were counted: the last descriptor is never
  looked at. It is not registered, and not closed either: the client waits for an answer that never comes, and the descriptor leaks.\<close>

theorem interrupted_accept_loses_connection:
  assumes "acc (nt_calls n) = Accept_intr" "acc (nt_calls n + 1) = Accepted fd peer" "acc (nt_calls n + 2) = Accept_again"
    and "3 \<le> ss_accept_cnt srv" "length (ss_peer_array srv) = nat (ss_accept_cnt srv)"
  shows "\<exists>srv'. ss_InputNotify k vt create acc srv n = Some (Done (POLLER_SUCC, srv', n\<lparr>nt_calls := nt_calls n + 3\<rparr>))"
proof -
  obtain m where m: "nat (ss_accept_cnt srv) = Suc (Suc (Suc m))" using assms(4) that [of "nat (ss_accept_cnt srv) - 3"] by linarith
  define srv1 where "srv1 = srv\<lparr>ss_fd_array := (-1) # fd # (-1) # replicate m (-1), ss_newfd_cnt := 1, ss_peer_array := (ss_peer_array srv)[1 := peer]\<rparr>"
  have "proc_accept acc srv n = (-1, srv1, n\<lparr>nt_calls := nt_calls n + 3\<rparr>)"
    using assms(1-3) by (simp add: proc_accept_def m srv1_def numeral_3_eq_3)
  moreover have "proc_request k vt create srv1 (n\<lparr>nt_calls := nt_calls n + 3\<rparr>) = Some (Done (srv1, n\<lparr>nt_calls := nt_calls n + 3\<rparr>))"
    using assms(5) by (simp add: proc_request_def srv1_def m Let_def)
  ultimately have "ss_InputNotify k vt create acc srv n = Some (Done (POLLER_SUCC, srv1, n\<lparr>nt_calls := nt_calls n + 3\<rparr>))"
    by (subst ss_InputNotify.simps) (simp add: srv1_def)
  then show ?thesis by blast
qed

text \<open>A server that accepts up to four connections at a time.\<close>

definition server2 :: CCSocketServer where
  "server2 = CCSocketServer_new ''*'' 6100 4 10"

theorem interrupted_accept_loses_connection_witness:
  "\<exists>srv'. ss_InputNotify (kernel2 1) vtable2 (\<lambda>fd peer. Some (CCSocketHandler_new Null 0 0)) (\<lambda>i. [Accept_intr, Accepted 7 (1, 2), Accept_again] ! i) server2 net2 =
    Some (Done (POLLER_SUCC, srv', net2\<lparr>nt_calls := 3\<rparr>))"
proof -
  have n: "nt_calls net2 = 0" by (simp add: net2_def reactor.defs)
  have s: "3 \<le> ss_accept_cnt server2" "length (ss_peer_array server2) = nat (ss_accept_cnt server2)"
    by (simp_all add: server2_def CCSocketServer_new_def CPollerObject.defs)
  show ?thesis
    using interrupted_accept_loses_connection [OF _ _ _ s, of "\<lambda>i. [Accept_intr, Accepted 7 (1, 2), Accept_again] ! i" net2 7 "(1, 2)" "kernel2 1" vtable2] n by simp
qed

lemma accept_loop_errors:
  "\<forall>i. acc i = Accept_error \<Longrightarrow> ss_fd_array srv = replicate N (-1) \<Longrightarrow>
   accept_loop acc m i srv n = (0, srv\<lparr>ss_newfd_cnt := ss_newfd_cnt srv + int m\<rparr>, n\<lparr>nt_calls := nt_calls n + m\<rparr>)"
proof (induction m arbitrary: i srv n)
  case (Suc m)
  have "(replicate N (-1))[i := -1] = replicate N (-1 :: int)" by (cases "i < N") (auto intro: nth_equalityI simp: nth_list_update)
  then have "srv\<lparr>ss_fd_array := (ss_fd_array srv)[i := -1], ss_newfd_cnt := ss_newfd_cnt srv + 1\<rparr> = srv\<lparr>ss_newfd_cnt := ss_newfd_cnt srv + 1\<rparr>"
    using Suc.prems(2) by simp
  then have "accept_loop acc (Suc m) i srv n = accept_loop acc m (Suc i) (srv\<lparr>ss_newfd_cnt := ss_newfd_cnt srv + 1\<rparr>) (n\<lparr>nt_calls := Suc (nt_calls n)\<rparr>)"
    using Suc.prems(1) by (simp add: Let_def)
  also have "\<dots> = (0, srv\<lparr>ss_newfd_cnt := ss_newfd_cnt srv + 1 + int m\<rparr>, n\<lparr>nt_calls := Suc (nt_calls n) + m\<rparr>)"
    by (subst Suc.IH) (use Suc.prems in simp_all)
  finally show ?case by (simp add: add.assoc)
qed simp

lemma request_loop_none:
  "ss_fd_array srv = replicate N (-1) \<Longrightarrow> length (ss_peer_array srv) = N \<Longrightarrow> i + m \<le> N \<Longrightarrow> request_loop k vt create m i srv n = Some (Done (srv, n))"
  by (induction m arbitrary: i) (simp_all add: Let_def)

lemma ss_InputNotify_errors:
  "ss_InputNotify k vt create acc srv n = Some r \<Longrightarrow> \<forall>i. acc i = Accept_error \<Longrightarrow> 0 < ss_accept_cnt srv \<Longrightarrow>
   length (ss_peer_array srv) = nat (ss_accept_cnt srv) \<Longrightarrow> False"
proof (induction k vt create acc srv n r rule: ss_InputNotify.raw_induct [rotated 1, consumes 1, case_names step])
  case (step loop k vt create acc srv n r)
  let ?N = "nat (ss_accept_cnt srv)"
  let ?srv = "srv\<lparr>ss_fd_array := replicate ?N (-1), ss_newfd_cnt := 0 + int ?N\<rparr>" and ?n = "n\<lparr>nt_calls := nt_calls n + ?N\<rparr>"
  have a: "proc_accept acc srv n = (0, ?srv, ?n)"
    using accept_loop_errors [OF step(3), of "srv\<lparr>ss_fd_array := replicate ?N (-1), ss_newfd_cnt := 0\<rparr>" ?N ?N 0 n] by (simp add: proc_accept_def)
  have "proc_request k vt create ?srv ?n = Some (Done (?srv, ?n))"
    unfolding proc_request_def by (rule request_loop_none [where N = ?N]) (use step(5) in simp_all)
  then have "loop k vt create acc ?srv ?n = Some r" using step(2,4) a by simp
  from step(1) [OF this] step(3-5) show ?case by simp
qed

text \<open>C38: a server that runs out of descriptors hangs. When \<open>accept\<close> fails with an error other than an interruption or an empty queue, \<open>proc_accept\<close>
  counts the failed call as a new descriptor and reports success, so \<open>InputNotify\<close> goes on; while the error lasts it does not return. The
  process has one thread: no handler can close a connection meanwhile, so the error does last.\<close>

theorem accept_error_hangs:
  assumes "\<forall>i. acc i = Accept_error" "0 < ss_accept_cnt srv" "length (ss_peer_array srv) = nat (ss_accept_cnt srv)"
  shows "ss_InputNotify k vt create acc srv n = None"
  using ss_InputNotify_errors [OF _ assms] by (cases "ss_InputNotify k vt create acc srv n") auto

theorem accept_error_hangs_witness:
  "ss_InputNotify (kernel2 1) vtable2 (\<lambda>fd peer. Some (CCSocketHandler_new Null 0 0)) (\<lambda>i. Accept_error) server2 net2 = None"
  by (rule accept_error_hangs) (simp_all add: server2_def CCSocketServer_new_def CPollerObject.defs)

section \<open>Accepted connections\<close>

text \<open>Room for \<open>m\<close> changes of a slot, and addresses for new objects.\<close>

definition seq_small :: "nat \<Rightarrow> CPollerUnit \<Rightarrow> bool" where
  "seq_small m u \<longleftrightarrow> (\<forall>i s. pu_slot i u = Some s \<longrightarrow> uint (es_seq s) + int m < 2 ^ 32)"

definition accept_ok :: "nat \<Rightarrow> 'x net_scheme \<Rightarrow> bool" where
  "accept_ok m n \<longleftrightarrow> unit_ok (rx_unit n) \<and> seq_small m (rx_unit n) \<and> (\<forall>p i. attached (rx_unit n) p i \<longrightarrow> p < nt_new n)"

lemma seq_small_room: "seq_small (Suc m) u \<Longrightarrow> seq_room u"
  unfolding seq_small_def seq_room_def by fastforce

lemma seq_small_set:
  assumes s: "pu_slot i u = Some s" and small: "seq_small (Suc m) u" and t: "es_seq t = es_seq s \<or> es_seq t = es_seq s + 1"
  shows "seq_small m (pu_set_slot i t u)"
  unfolding seq_small_def
proof (intro allI impI)
  fix j r assume j: "pu_slot j (pu_set_slot i t u) = Some r"
  have "uint (es_seq t) \<le> uint (es_seq s) + 1" using t small s uint_inc [of "es_seq s"] unfolding seq_small_def by fastforce
  then show "uint (es_seq r) + int m < 2 ^ 32" using j small s pu_slot_set [OF s, of j t] unfolding seq_small_def by (fastforce split: if_splits)
qed

lemma seq_small_mono: "seq_small m u \<Longrightarrow> k \<le> m \<Longrightarrow> seq_small k u"
  unfolding seq_small_def by fastforce

lemma seq_small_fields [simp]:
  "seq_small m (u\<lparr>pu_ctls := c\<rparr>) = seq_small m u" "seq_small m (u\<lparr>pu_closed := x\<rparr>) = seq_small m u"
  "seq_small m (u\<lparr>pu_freeSlotList := f, pu_usedPollers := i\<rparr>) = seq_small m u"
  "seq_small m (u\<lparr>pu_usedPollers := i, pu_freeSlotList := f\<rparr>) = seq_small m u"
  by (simp_all add: seq_small_def)

lemma FreeEpollSlot_small: "FreeEpollSlot i u = Some u' \<Longrightarrow> seq_small (Suc m) u \<Longrightarrow> seq_small m u'"
  by (auto simp: FreeEpollSlot_def Let_def split: bind_splits intro!: seq_small_set)

lemma destroy_small: "CPollerObject_destroy ob u = Some u' \<Longrightarrow> seq_small (Suc m) u \<Longrightarrow> seq_small m u'"
  by (auto simp: CPollerObject_destroy_def split: bind_splits if_splits intro: seq_small_mono FreeEpollSlot_small)

lemma AttachPoller_small:
  assumes "AttachPoller os p un ob u = Some (r, ob', u')" "epslot ob = NULL_SLOT" "seq_small (Suc m) u"
  shows "seq_small m u'"
proof (cases "pu_freeSlotList u = NULL_SLOT \<or> netfd ob < 0")
  case True
  then have "u' = u" using assms(1,2) by (auto simp: AttachPoller_def AllocEpollSlot_def Let_def split: if_splits)
  then show ?thesis using assms(3) by (auto intro: seq_small_mono)
next
  case False
  let ?i = "pu_freeSlotList u"
  obtain s where s: "pu_slot ?i u = Some s" using assms(1,2) False by (auto simp: AttachPoller_def AllocEpollSlot_def Let_def split: if_splits bind_splits)
  let ?u = "u\<lparr>pu_usedPollers := pu_usedPollers u + 1, pu_freeSlotList := es_freeList s\<rparr>"
  let ?t = "s\<lparr>es_freeList := NULL_SLOT, es_poller := Some p, es_seq := es_seq s + 1\<rparr>"
  have su: "pu_slot ?i ?u = Some s" using s pu_slot_simps by metis
  have two: "pu_set_slot i t (pu_set_slot i t' x) = pu_set_slot i t x" for i t t' x by (simp add: pu_set_slot_def)
  have "\<exists>c. u' = (pu_set_slot ?i ?t ?u)\<lparr>pu_ctls := c\<rparr>"
    using assms(1,2) False s su pu_slot_set [OF su, of ?i] by (auto simp: AttachPoller_def AllocEpollSlot_def Let_def Epctl_def two split: if_splits)
  moreover have "seq_small m (pu_set_slot ?i ?t ?u)" by (rule seq_small_set [OF su]) (use assms(3) in simp_all)
  ultimately show ?thesis by auto
qed

text \<open>A handler just created, and what the registration of one connection keeps.\<close>

definition fresh_handler :: "CCSocketHandler \<Rightarrow> bool" where
  "fresh_handler h \<longleftrightarrow> epslot h = NULL_SLOT \<and> sh_r h = CRawCache_new \<and> sh_w h = CRawCache_new \<and> sh_decode h \<noteq> Wild"

definition served :: "'x net_scheme \<Rightarrow> nat \<Rightarrow> int \<Rightarrow> peer \<Rightarrow> bool" where
  "served n p fd peer \<longleftrightarrow> fd \<in> set (pu_closed (rx_unit n)) \<or>
     (\<exists>h. rx_objs n p = Some h \<and> netfd h = fd \<and> (sh_ip h, sh_port h) = peer \<and> attached (rx_unit n) p (epslot h) \<and> newEvents h AND EPOLLIN \<noteq> 0)"

definition plain_vtable :: "'x vtable \<Rightarrow> bool" where
  "plain_vtable vt \<longleftrightarrow> (\<forall>h n. vt_OnClose vt h n = Some (h, n)) \<and> (\<forall>h n. vt_OnConnected vt h n = Some (Done (0, Some h, n)))"

lemma sh_delete_fresh:
  assumes "sh_r h = CRawCache_new" "sh_w h = CRawCache_new" "sh_decode h \<noteq> Wild"
  shows "sh_delete h n = do { u \<leftarrow> CPollerObject_destroy h (rx_unit n); Some (n\<lparr>rx_unit := u\<rparr>) }"
proof -
  have "h\<lparr>sh_w := sh_w h\<rparr> = h" "h\<lparr>sh_r := sh_r h\<rparr> = h" by simp_all
  then have e: "h\<lparr>sh_w := CRawCache_new\<rparr> = h" "h\<lparr>sh_r := CRawCache_new\<rparr> = h" unfolding assms(1,2) .
  then have h: "h\<lparr>sh_w := CRawCache_new\<rparr> = h" "h\<lparr>sh_r := CRawCache_new\<rparr> = h" by (simp_all only:)
  have "rc_skip i (CRawCache_new, hp) = Some (CRawCache_new, hp)" for i hp by (simp add: rc_skip_def CRawCache_new_def)
  then have "sh_delete h n = do { u \<leftarrow> CPollerObject_destroy (h\<lparr>sh_w := CRawCache_new, sh_r := CRawCache_new\<rparr>) (rx_unit n); Some (n\<lparr>rx_unit := u\<rparr>) }"
    using assms by (simp add: sh_delete_def w_skip_def r_skip_def)
  then show ?thesis by (simp only: h)
qed

lemma ApplyEvents_more: "ApplyEvents os ob u = Some (r, ob', u') \<Longrightarrow> CPollerObject.more ob' = CPollerObject.more ob \<and> (r = 0 \<or> r = -1)"
  by (auto simp: ApplyEvents_def Let_def split: if_splits bind_splits prod.splits)

lemma AttachPoller_more:
  assumes "AttachPoller os p un ob u = Some (r, ob', u')"
  shows "CPollerObject.more ob' = CPollerObject.more ob \<and> (r = 0 \<or> r = -1)"
proof -
  define ob1 where "ob1 = (if un \<and> \<not> ownerUnit ob then ob\<lparr>ownerUnit := True\<rparr> else ob)"
  have m: "CPollerObject.more ob1 = CPollerObject.more ob" by (simp add: ob1_def)
  show ?thesis
    using assms unfolding AttachPoller_def ob1_def [symmetric] Let_def m [symmetric]
    by (simp split: if_splits bind_splits prod.splits add: ApplyEvents_more) (auto split: prod.splits if_splits)
qed

lemma register_ok:
  assumes ok: "accept_ok (Suc (Suc m)) n" and h: "fresh_handler h" "0 < netfd h" and vt: "plain_vtable vt" and p: "\<forall>i. \<not> attached (rx_unit n) p i" "p < nt_new n"
  shows "\<exists>ok n'. register k vt p h n = Some (Done (ok, n')) \<and> accept_ok m n' \<and> nt_new n' = nt_new n \<and> nt_calls n' = nt_calls n \<and>
    served n' p (netfd h) (sh_ip h, sh_port h) \<and> (\<forall>q fd peer. q \<noteq> p \<longrightarrow> served n q fd peer \<longrightarrow> served n' q fd peer)"
proof -
  define h1 where "h1 = snd (sh_Init vt h)"
  have h1: "sh_Init vt h = (0, h1)" "netfd h1 = netfd h" "sh_ip h1 = sh_ip h" "sh_port h1 = sh_port h" "epslot h1 = NULL_SLOT" "newEvents h1 AND EPOLLIN \<noteq> 0"
    "sh_r h1 = CRawCache_new" "sh_w h1 = CRawCache_new" "sh_decode h1 \<noteq> Wild"
    using h(1) by (simp_all add: h1_def sh_Init_def fresh_handler_def EnableInput_def Let_def bit.conj_disj_distrib2)
  have u: "unit_ok (rx_unit n)" "seq_small (Suc (Suc m)) (rx_unit n)" using ok by (simp_all add: accept_ok_def)
  have o: "obj_ok (rx_unit n) p h1" using h1(5) p(1) by (simp add: obj_ok_def)
  obtain r h2 u2 where A: "AttachPoller (k_epoll k) p True h1 (rx_unit n) = Some (r, h2, u2)" "unit_ok u2" "obj_ok u2 p h2"
    "\<forall>q j. q \<noteq> p \<longrightarrow> attached u2 q j = attached (rx_unit n) q j" "netfd h2 = netfd h1" "newEvents h2 = newEvents h1" "pu_closed u2 = pu_closed (rx_unit n)"
    "r = 0 \<longrightarrow> epslot h2 \<noteq> NULL_SLOT"
    using AttachPoller_ok [OF u(1) o seq_small_room [OF u(2)], of True "k_epoll k"] by auto
  have s2: "seq_small (Suc m) u2" by (rule AttachPoller_small [OF A(1) h1(5) u(2)])
  have more: "CPollerObject.more h2 = CPollerObject.more h1" "r = 0 \<or> r = -1" using AttachPoller_more [OF A(1)] by simp_all
  have lt: "q < nt_new n" if "attached u2 q j" for q j using that A(4) p(2) ok by (cases "q = p") (auto simp: accept_ok_def)
  have f2: "sh_ip h2 = sh_ip h" "sh_port h2 = sh_port h" "sh_r h2 = CRawCache_new" "sh_w h2 = CRawCache_new" "sh_decode h2 \<noteq> Wild"
    using h1 more by (cases h2; cases h1; simp)+
  have R: "reactor_AttachPoller k vt p h1' n = Some (r, h2, n\<lparr>rx_unit := u2\<rparr>)" if "h1' = h" for h1'
    using A(1) h1(1) that by (simp add: reactor_AttachPoller_def)
  show ?thesis
  proof (cases "r < 0")
    case True
    obtain u3 where D: "CPollerObject_destroy h2 u2 = Some u3" "unit_ok u3" "\<forall>j. \<not> attached u3 p j" "\<forall>q j. q \<noteq> p \<longrightarrow> attached u3 q j = attached u2 q j"
      "pu_closed u3 = pu_closed u2 @ [netfd h2]"
      using CPollerObject_destroy_ok [OF A(2,3) seq_small_room [OF s2]] A(5) h(2) h1(2) by auto
    have s3: "seq_small m u3" by (rule destroy_small [OF D(1) s2])
    let ?n = "n\<lparr>rx_unit := u3\<rparr>"
    have "register k vt p h n = Some (Done (False, ?n))"
      using vt R True D(1) f2 by (simp add: register_def plain_vtable_def discard_def sh_delete_fresh)
    moreover have "accept_ok m ?n" using D(2-4) lt s3 unfolding accept_ok_def by auto metis
    moreover have "served ?n p (netfd h) (sh_ip h, sh_port h)" using D(5) A(5) h1(2) by (simp add: served_def)
    moreover have "served ?n q fd peer" if "q \<noteq> p" "served n q fd peer" for q fd peer
      using that D(4,5) A(4,7) by (auto simp: served_def)
    ultimately show ?thesis by (intro exI [of _ False] exI [of _ ?n]) simp
  next
    case False
    let ?n = "n\<lparr>rx_unit := u2, rx_objs := (rx_objs n)(p \<mapsto> h2)\<rparr>"
    have "register k vt p h n = Some (Done (True, ?n))"
      using vt R False by (simp add: register_def plain_vtable_def)
    moreover have "accept_ok m ?n" using A(2) lt s2 unfolding accept_ok_def by (auto intro: seq_small_mono)
    moreover have "served ?n p (netfd h) (sh_ip h, sh_port h)" using A(3,5,6,8) h1(2,6) f2 False more(2) by (auto simp: served_def obj_ok_def)
    moreover have "served ?n q fd peer" if "q \<noteq> p" "served n q fd peer" for q fd peer
      using that A(4,7) by (auto simp: served_def)
    ultimately show ?thesis by (intro exI [of _ True] exI [of _ ?n]) simp
  qed
qed

lemma served_mono: "served n p fd peer \<Longrightarrow> rx_unit n' = rx_unit n \<Longrightarrow> rx_objs n' = rx_objs n \<Longrightarrow> served n' p fd peer"
  by (simp add: served_def)

text \<open>The loop over connections \<open>cs\<close> that stand in the arrays from \<open>i\<close> on.\<close>

lemma request_loop_ok:
  assumes "accept_ok (2 * length cs) n" "plain_vtable vt" "\<forall>(fd, peer) \<in> set cs. 0 < fd \<and> (\<exists>h. create fd peer = Some h \<and> fresh_handler h)"
    and "\<forall>j < length cs. ss_fd_array srv ! (i + j) = fst (cs ! j) \<and> ss_peer_array srv ! (i + j) = snd (cs ! j)"
    and "i + length cs \<le> length (ss_fd_array srv)" "i + length cs \<le> length (ss_peer_array srv)"
  shows "\<exists>srv' n'. request_loop k vt create (length cs) i srv n = Some (Done (srv', n')) \<and> nt_calls n' = nt_calls n \<and>
    (\<forall>j < length cs. served n' (nt_new n + j) (fst (cs ! j)) (snd (cs ! j))) \<and> (\<forall>q < nt_new n. \<forall>fd peer. served n q fd peer \<longrightarrow> served n' q fd peer)"
  using assms
proof (induction cs arbitrary: i srv n)
  case Nil
  then show ?case by simp
next
  case (Cons c cs)
  obtain fd peer where c: "c = (fd, peer)" by (cases c)
  obtain h0 where h0: "create fd peer = Some h0" "fresh_handler h0" "0 < fd" using Cons.prems(3) c by auto
  let ?p = "nt_new n" and ?n = "n\<lparr>nt_new := Suc (nt_new n)\<rparr>" and ?h = "h0\<lparr>sh_ip := fst peer, sh_port := snd peer, netfd := fd\<rparr>"
  have nn: "accept_ok (Suc (Suc (2 * length cs))) ?n" "\<forall>i. \<not> attached (rx_unit ?n) ?p i" "?p < nt_new ?n" using Cons.prems(1) unfolding accept_ok_def by fastforce+
  have hh: "fresh_handler ?h" "0 < netfd ?h" using h0(2,3) by (simp_all add: fresh_handler_def)
  obtain ok n1 where R: "register k vt ?p ?h ?n = Some (Done (ok, n1))" "accept_ok (2 * length cs) n1" "nt_new n1 = Suc (nt_new n)" "nt_calls n1 = nt_calls n"
    "served n1 ?p fd peer" "\<forall>q fd peer. q \<noteq> ?p \<longrightarrow> served ?n q fd peer \<longrightarrow> served n1 q fd peer"
    using register_ok [OF nn(1) hh Cons.prems(2) nn(2,3), of k] by auto
  define srv1 where "srv1 = (if ok then srv else srv\<lparr>ss_fd_array := (ss_fd_array srv)[i := -1]\<rparr>)"
  have "\<forall>j < length cs. ss_fd_array srv1 ! (Suc i + j) = fst (cs ! j) \<and> ss_peer_array srv1 ! (Suc i + j) = snd (cs ! j)"
  proof (intro allI impI)
    fix j assume "j < length cs"
    then show "ss_fd_array srv1 ! (Suc i + j) = fst (cs ! j) \<and> ss_peer_array srv1 ! (Suc i + j) = snd (cs ! j)"
      using Cons.prems(4) [rule_format, of "Suc j"] by (simp add: srv1_def)
  qed
  moreover have rest: "\<forall>(fd, peer) \<in> set cs. 0 < fd \<and> (\<exists>h. create fd peer = Some h \<and> fresh_handler h)" using Cons.prems(3) by simp
  moreover have len: "Suc i + length cs \<le> length (ss_fd_array srv1)" "Suc i + length cs \<le> length (ss_peer_array srv1)"
    using Cons.prems(5,6) by (simp_all add: srv1_def)
  ultimately obtain srv' n' where I: "request_loop k vt create (length cs) (Suc i) srv1 n1 = Some (Done (srv', n'))" "nt_calls n' = nt_calls n1"
    "\<forall>j < length cs. served n' (nt_new n1 + j) (fst (cs ! j)) (snd (cs ! j))" "\<forall>q < nt_new n1. \<forall>fd peer. served n1 q fd peer \<longrightarrow> served n' q fd peer"
    using Cons.IH [OF R(2) Cons.prems(2)] by blast
  have at: "ss_fd_array srv ! i = fd" "ss_peer_array srv ! i = peer" using Cons.prems(4) [rule_format, of 0] c by simp_all
  then have "request_loop k vt create (length (c # cs)) i srv n = Some (Done (srv', n'))"
    using I(1) R(1) h0 Cons.prems(5,6) by (simp add: Let_def srv1_def)
  moreover have "served n' (nt_new n + j) (fst ((c # cs) ! j)) (snd ((c # cs) ! j))" if "j < length (c # cs)" for j
    using that I(3) I(4) [rule_format, of ?p fd peer] R(3,5) c by (cases j) simp_all
  moreover have "served n' q fd peer" if "q < nt_new n" "served n q fd peer" for q fd peer
    using that I(4) [rule_format, of q fd peer] R(6) [rule_format, of q fd peer] R(3) served_mono [of n q fd peer ?n] by simp
  ultimately show ?case using I(2) R(4) by (intro exI [of _ srv'] exI [of _ n']) simp
qed

lemma accept_loop_accepts:
  assumes "\<forall>j < length cs. acc (nt_calls n + j) = Accepted (fst (cs ! j)) (snd (cs ! j))" "acc (nt_calls n + length cs) = Accept_again"
    and "length cs < m" "i + length cs \<le> length (ss_fd_array srv)" "i + length cs \<le> length (ss_peer_array srv)"
  shows "\<exists>srv'. accept_loop acc m i srv n = (-1, srv', n\<lparr>nt_calls := nt_calls n + Suc (length cs)\<rparr>) \<and> ss_newfd_cnt srv' = ss_newfd_cnt srv + int (length cs) \<and>
    length (ss_fd_array srv') = length (ss_fd_array srv) \<and> length (ss_peer_array srv') = length (ss_peer_array srv) \<and>
    (\<forall>j < i. ss_fd_array srv' ! j = ss_fd_array srv ! j \<and> ss_peer_array srv' ! j = ss_peer_array srv ! j) \<and>
    (\<forall>j < length cs. ss_fd_array srv' ! (i + j) = fst (cs ! j) \<and> ss_peer_array srv' ! (i + j) = snd (cs ! j))"
  using assms
proof (induction cs arbitrary: m i srv n)
  case Nil
  then obtain m' where "m = Suc m'" by (cases m) auto
  then show ?case using Nil by simp
next
  case (Cons c cs)
  obtain m' where m: "m = Suc m'" using Cons.prems(3) by (cases m) auto
  let ?n = "n\<lparr>nt_calls := Suc (nt_calls n)\<rparr>"
  let ?srv = "srv\<lparr>ss_peer_array := (ss_peer_array srv)[i := snd c], ss_fd_array := (ss_fd_array srv)[i := fst c], ss_newfd_cnt := ss_newfd_cnt srv + 1\<rparr>"
  have "\<forall>j < length cs. acc (nt_calls ?n + j) = Accepted (fst (cs ! j)) (snd (cs ! j))"
  proof (intro allI impI)
    fix j assume "j < length cs"
    then show "acc (nt_calls ?n + j) = Accepted (fst (cs ! j)) (snd (cs ! j))" using Cons.prems(1) [rule_format, of "Suc j"] by simp
  qed
  then obtain srv' where I: "accept_loop acc m' (Suc i) ?srv ?n = (-1, srv', ?n\<lparr>nt_calls := nt_calls ?n + Suc (length cs)\<rparr>)"
    "ss_newfd_cnt srv' = ss_newfd_cnt ?srv + int (length cs)"
    "length (ss_fd_array srv') = length (ss_fd_array ?srv)" "length (ss_peer_array srv') = length (ss_peer_array ?srv)"
    "\<forall>j < Suc i. ss_fd_array srv' ! j = ss_fd_array ?srv ! j \<and> ss_peer_array srv' ! j = ss_peer_array ?srv ! j"
    "\<forall>j < length cs. ss_fd_array srv' ! (Suc i + j) = fst (cs ! j) \<and> ss_peer_array srv' ! (Suc i + j) = snd (cs ! j)"
    using Cons.IH [of ?n m' "Suc i" ?srv] Cons.prems(2-5) m by auto
  have "accept_loop acc m i srv n = (-1, srv', n\<lparr>nt_calls := nt_calls n + Suc (length (c # cs))\<rparr>)"
    using I(1) Cons.prems(1) [rule_format, of 0] m by (simp add: Let_def)
  moreover have "ss_fd_array srv' ! (i + j) = fst ((c # cs) ! j) \<and> ss_peer_array srv' ! (i + j) = snd ((c # cs) ! j)" if "j < length (c # cs)" for j
    using that I(5) [rule_format, of i] I(6) Cons.prems(4,5) by (cases j) auto
  moreover have "ss_fd_array srv' ! j = ss_fd_array srv ! j \<and> ss_peer_array srv' ! j = ss_peer_array srv ! j" if "j < i" for j
    using that I(5) [rule_format, of j] by simp
  ultimately show ?case using I(2-4) by (intro exI [of _ srv']) simp
qed

text \<open>C21: connections that arrive together, fewer than a batch, are all accounted for: whatever the poller answers, each accepted descriptor is owned by a
  live handler of its own, with the peer's address, attached to the poller and waiting for input, or it has been closed.\<close>

theorem accepted_connections_registered:
  assumes "\<forall>j < length cs. acc (nt_calls n + j) = Accepted (fst (cs ! j)) (snd (cs ! j))" "acc (nt_calls n + length cs) = Accept_again"
    and "int (length cs) < ss_accept_cnt srv" "length (ss_peer_array srv) = nat (ss_accept_cnt srv)"
    and "accept_ok (2 * length cs) n" "plain_vtable vt" "\<forall>(fd, peer) \<in> set cs. 0 < fd \<and> (\<exists>h. create fd peer = Some h \<and> fresh_handler h)"
  shows "\<exists>srv' n'. ss_InputNotify k vt create acc srv n = Some (Done (POLLER_SUCC, srv', n')) \<and>
    (\<forall>j < length cs. served n' (nt_new n + j) (fst (cs ! j)) (snd (cs ! j)))"
proof -
  let ?N = "nat (ss_accept_cnt srv)" and ?n = "n\<lparr>nt_calls := nt_calls n + Suc (length cs)\<rparr>"
  let ?srv = "srv\<lparr>ss_fd_array := replicate ?N (-1), ss_newfd_cnt := 0\<rparr>"
  have N: "length cs < ?N" "length cs \<le> ?N" "length cs < nat (ss_accept_cnt srv)" using assms(3) by simp_all
  obtain srv1 where a: "proc_accept acc srv n = (-1, srv1, ?n)" "ss_newfd_cnt srv1 = int (length cs)" "length (ss_fd_array srv1) = ?N"
    "length (ss_peer_array srv1) = ?N" "\<forall>j < length cs. ss_fd_array srv1 ! (0 + j) = fst (cs ! j) \<and> ss_peer_array srv1 ! (0 + j) = snd (cs ! j)"
    using accept_loop_accepts [OF assms(1,2) N(1), of 0 ?srv] N(2,3) assms(4) that by (simp add: proc_accept_def) blast
  show ?thesis
  proof (cases "cs = []")
    case True
    then show ?thesis using a by (subst ss_InputNotify.simps) simp
  next
    case False
    have "accept_ok (2 * length cs) ?n" using assms(5) by (simp add: accept_ok_def)
    then obtain srv' n' where "request_loop k vt create (length cs) 0 srv1 ?n = Some (Done (srv', n'))"
      "\<forall>j < length cs. served n' (nt_new n + j) (fst (cs ! j)) (snd (cs ! j))"
      using request_loop_ok [OF _ assms(6,7) a(5), of ?n k] a(3,4) N(2) by auto
    then show ?thesis using a False by (subst ss_InputNotify.simps) (simp add: proc_request_def)
  qed
qed

theorem accepted_connections_registered_witness:
  "\<exists>srv' n'. ss_InputNotify (kernel2 1) vtable2 (\<lambda>fd peer. Some (CCSocketHandler_new Null 0 0)) (\<lambda>i. [Accepted 7 (1, 2), Accepted 8 (3, 4), Accept_again] ! i) server2 net2 =
      Some (Done (POLLER_SUCC, srv', n')) \<and> served n' 20 7 (1, 2) \<and> served n' 21 8 (3, 4)"
proof -
  let ?acc = "\<lambda>i. [Accepted 7 (1, 2), Accepted 8 (3, 4), Accept_again] ! i" and ?cs = "[(7, 1, 2), (8, 3, 4)] :: (int \<times> peer) list"
  have n: "nt_calls net2 = 0" "rx_unit net2 = unit1" "nt_new net2 = 20" by (simp_all add: net2_def reactor.defs)
  have slots: "s \<in> set (pu_table unit1)" if "pu_slot i unit1 = Some s" for i s using that by (auto simp: pu_slot_def split: if_splits)
  have u: "unit_ok unit1" using poller_state_ok [OF unit1_state] by simp
  have m: "accept_ok (2 * length ?cs) net2"
    using u slots unfolding accept_ok_def seq_small_def n attached_def by (fastforce simp: unit1_def)
  have s: "int (length ?cs) < ss_accept_cnt server2" "length (ss_peer_array server2) = nat (ss_accept_cnt server2)"
    by (simp_all add: server2_def CCSocketServer_new_def CPollerObject.defs)
  have a: "\<forall>j < length ?cs. ?acc (nt_calls net2 + j) = Accepted (fst (?cs ! j)) (snd (?cs ! j))" "?acc (nt_calls net2 + length ?cs) = Accept_again"
    by (simp_all add: n All_less_Suc numeral_2_eq_2)
  have v: "plain_vtable vtable2" by (simp add: plain_vtable_def vtable2_def)
  have f: "fresh_handler (CCSocketHandler_new Null 0 0)" by (simp add: fresh_handler_def CCSocketHandler_new_def CPollerObject.defs CPollerObject_new_def)
  obtain srv' n' where "ss_InputNotify (kernel2 1) vtable2 (\<lambda>fd peer. Some (CCSocketHandler_new Null 0 0)) ?acc server2 net2 = Some (Done (POLLER_SUCC, srv', n'))"
    "\<forall>j < length ?cs. served n' (nt_new net2 + j) (fst (?cs ! j)) (snd (?cs ! j))"
    using accepted_connections_registered [OF a s m v, of "\<lambda>fd peer. Some (CCSocketHandler_new Null 0 0)" "kernel2 1"] f by auto
  then show ?thesis unfolding n by (intro exI [of _ srv'] exI [of _ n']) (simp add: All_less_Suc numeral_2_eq_2)
qed

end
