(* ===== verification/ListHead.thy ===== *)
theory ListHead
  imports Main "HOL-Library.Monad_Syntax"
begin

text \<open>
  \<open>include/list.h\<close>: doubly linked lists whose links lie inside the objects. A \<open>list_head\<close> is its address, \<open>0\<close> is the null pointer,
  and the links of all heads form one store. Following a null pointer is \<open>None\<close>. A list is a ring of its head and its entries; an entry that is on no
  list is a ring of its own.
\<close>

section \<open>Operations\<close>

record links =
  lk_next :: "nat \<Rightarrow> nat"
  lk_prev :: "nat \<Rightarrow> nat"

definition set_next :: "nat \<Rightarrow> nat \<Rightarrow> links \<Rightarrow> links option" where
  "set_next p v h = (if p = 0 then None else Some (h\<lparr>lk_next := (lk_next h)(p := v)\<rparr>))"

definition set_prev :: "nat \<Rightarrow> nat \<Rightarrow> links \<Rightarrow> links option" where
  "set_prev p v h = (if p = 0 then None else Some (h\<lparr>lk_prev := (lk_prev h)(p := v)\<rparr>))"

definition get_next :: "nat \<Rightarrow> links \<Rightarrow> nat option" where
  "get_next p h = (if p = 0 then None else Some (lk_next h p))"

definition get_prev :: "nat \<Rightarrow> links \<Rightarrow> nat option" where
  "get_prev p h = (if p = 0 then None else Some (lk_prev h p))"

definition INIT_LIST_HEAD :: "nat \<Rightarrow> links \<Rightarrow> links option" where
  "INIT_LIST_HEAD ptr h = do { h \<leftarrow> set_next ptr ptr h; set_prev ptr ptr h }"

definition list_add_between :: "nat \<Rightarrow> nat \<Rightarrow> nat \<Rightarrow> links \<Rightarrow> links option" where
  "list_add_between p prev next h =
     do { h \<leftarrow> set_prev next p h; h \<leftarrow> set_next p next h; h \<leftarrow> set_prev p prev h; set_next prev p h }"

definition list_addd :: "nat \<Rightarrow> nat \<Rightarrow> links \<Rightarrow> links option" where
  "list_addd p head h = do { n \<leftarrow> get_next head h; list_add_between p head n h }"

definition list_add_tail :: "nat \<Rightarrow> nat \<Rightarrow> links \<Rightarrow> links option" where
  "list_add_tail p head h = do { v \<leftarrow> get_prev head h; list_add_between p v head h }"

definition list_del_between :: "nat \<Rightarrow> nat \<Rightarrow> links \<Rightarrow> links option" where
  "list_del_between prev next h = do { h \<leftarrow> set_prev next prev h; set_next prev next h }"

definition list_del :: "nat \<Rightarrow> links \<Rightarrow> links option" where
  "list_del entry h =
     do { v \<leftarrow> get_prev entry h; n \<leftarrow> get_next entry h; h \<leftarrow> list_del_between v n h; h \<leftarrow> set_next entry 0 h; set_prev entry 0 h }"

definition list_del_init :: "nat \<Rightarrow> links \<Rightarrow> links option" where
  "list_del_init entry h =
     do { v \<leftarrow> get_prev entry h; n \<leftarrow> get_next entry h; h \<leftarrow> list_del_between v n h; INIT_LIST_HEAD entry h }"

definition list_move :: "nat \<Rightarrow> nat \<Rightarrow> links \<Rightarrow> links option" where
  "list_move p head h =
     do { v \<leftarrow> get_prev p h; n \<leftarrow> get_next p h; h \<leftarrow> list_del_between v n h; list_addd p head h }"

definition list_move_tail :: "nat \<Rightarrow> nat \<Rightarrow> links \<Rightarrow> links option" where
  "list_move_tail p head h =
     do { v \<leftarrow> get_prev p h; n \<leftarrow> get_next p h; h \<leftarrow> list_del_between v n h; list_add_tail p head h }"

definition list_empty :: "nat \<Rightarrow> links \<Rightarrow> bool option" where
  "list_empty head h = do { n \<leftarrow> get_next head h; Some (n = head) }"

definition list_splice_at :: "nat \<Rightarrow> nat \<Rightarrow> links \<Rightarrow> links option" where
  "list_splice_at l head h =
     do {
       first \<leftarrow> get_next l h;
       last \<leftarrow> get_prev l h;
       at \<leftarrow> get_next head h;
       h \<leftarrow> set_prev first head h;
       h \<leftarrow> set_next head first h;
       h \<leftarrow> set_next last at h;
       set_prev at last h
     }"

definition list_splice :: "nat \<Rightarrow> nat \<Rightarrow> links \<Rightarrow> links option" where
  "list_splice l head h = do { e \<leftarrow> list_empty l h; if \<not> e then list_splice_at l head h else Some h }"

definition list_splice_init :: "nat \<Rightarrow> nat \<Rightarrow> links \<Rightarrow> links option" where
  "list_splice_init l head h =
     do { e \<leftarrow> list_empty l h; if \<not> e then do { h \<leftarrow> list_splice_at l head h; INIT_LIST_HEAD l h } else Some h }"

text \<open>\<open>CListHead\<close>: the object is the address of its \<open>objlist\<close>.\<close>

abbreviation InitList :: "nat \<Rightarrow> links \<Rightarrow> links option" where "InitList \<equiv> INIT_LIST_HEAD"
abbreviation ResetList :: "nat \<Rightarrow> links \<Rightarrow> links option" where "ResetList \<equiv> list_del_init"
abbreviation ListMoveTail :: "nat \<Rightarrow> nat \<Rightarrow> links \<Rightarrow> links option" where "ListMoveTail \<equiv> list_move_tail"

partial_function (option) FreeList :: "nat \<Rightarrow> links \<Rightarrow> links option" where
  "FreeList head h =
     do {
       e \<leftarrow> list_empty head h;
       if e then Some h
       else do { n \<leftarrow> get_next head h; h \<leftarrow> ResetList n h; FreeList head h }
     }"

section \<open>Rings\<close>

fun linked :: "links \<Rightarrow> nat \<Rightarrow> nat list \<Rightarrow> nat \<Rightarrow> bool" where
  "linked h a [] b \<longleftrightarrow> lk_next h a = b \<and> lk_prev h b = a"
| "linked h a (x # xs) b \<longleftrightarrow> lk_next h a = x \<and> lk_prev h x = a \<and> linked h x xs b"

definition ring :: "links \<Rightarrow> nat \<Rightarrow> nat list \<Rightarrow> bool" where
  "ring h c xs \<longleftrightarrow> linked h c xs c \<and> distinct (c # xs) \<and> 0 \<notin> set (c # xs)"

lemma linked_append: "linked h a (xs @ y # ys) b \<longleftrightarrow> linked h a xs y \<and> linked h y ys b"
  by (induction xs arbitrary: a) auto

lemma linked_cong:
  "(\<And>x. x \<in> set (a # xs) \<Longrightarrow> lk_next h' x = lk_next h x) \<Longrightarrow> (\<And>x. x \<in> set (b # xs) \<Longrightarrow> lk_prev h' x = lk_prev h x) \<Longrightarrow>
   linked h' a xs b = linked h a xs b"
  by (induction xs arbitrary: a) auto

lemma linked_ends:
  "linked h a xs b \<Longrightarrow> lk_next h a = hd (xs @ [b]) \<and> lk_prev h b = last (a # xs)"
  by (induction xs arbitrary: a) auto

text \<open>The lists of a store do not meet. \<open>L\<close> gives for every head its entries.\<close>

definition rings :: "links \<Rightarrow> (nat \<rightharpoonup> nat list) \<Rightarrow> bool" where
  "rings h L \<longleftrightarrow> (\<forall>a xs. L a = Some xs \<longrightarrow> ring h a xs) \<and>
     (\<forall>a b xs ys. L a = Some xs \<longrightarrow> L b = Some ys \<longrightarrow> a \<noteq> b \<longrightarrow> set (a # xs) \<inter> set (b # ys) = {})"

definition nodes :: "(nat \<rightharpoonup> nat list) \<Rightarrow> nat set" where
  "nodes L = {x. \<exists>a xs. L a = Some xs \<and> x \<in> set (a # xs)}"

lemma ringsD:
  assumes "rings h L"
  shows "L a = Some xs \<Longrightarrow> ring h a xs"
    and "L a = Some xs \<Longrightarrow> L b = Some ys \<Longrightarrow> x \<in> set (a # xs) \<Longrightarrow> x \<in> set (b # ys) \<Longrightarrow> a = b"
  using assms unfolding rings_def by blast+

text \<open>One ring is changed, others are not touched.\<close>

lemma rings_change:
  assumes ok: "rings h L" and c: "L c = Some xs \<or> L c = None \<and> xs = []"
    and p: "set ps \<inter> nodes (L(c := None)) = {}" "c \<notin> nodes (L(c := None))"
    and frame: "\<And>x. x \<notin> set (ps @ c # xs) \<Longrightarrow> lk_next h' x = lk_next h x \<and> lk_prev h' x = lk_prev h x"
    and new: "ring h' c ys" "set ys \<subseteq> set (ps @ xs)"
  shows "rings h' (L(c \<mapsto> ys))"
proof -
  have out: "x \<notin> set (ps @ c # xs)" if "L a = Some zs" "a \<noteq> c" "x \<in> set (a # zs)" for a zs x
  proof -
    have "x \<in> nodes (L(c := None))" unfolding nodes_def using that by (intro CollectI exI [of _ a] exI [of _ zs]) simp
    then have "x \<notin> set ps" "x \<noteq> c" using p by auto
    moreover have "x \<notin> set xs"
    proof
      assume "x \<in> set xs"
      then have "L c = Some xs" "x \<in> set (c # xs)" using c by auto
      then show False using ringsD(2) [OF ok _ that(1), of c xs x] that(2,3) by auto
    qed
    ultimately show ?thesis by simp
  qed
  have "ring h' a zs" if a: "(L(c \<mapsto> ys)) a = Some zs" for a zs
  proof (cases "a = c")
    case True
    then show ?thesis using a new(1) by simp
  next
    case False
    then have L: "L a = Some zs" using a by simp
    have "linked h' a zs a = linked h a zs a" by (rule linked_cong) (use out [OF L False] frame in auto)
    then show ?thesis using ringsD(1) [OF ok L] by (simp add: ring_def)
  qed
  moreover have "set (a # zs) \<inter> set (b # ws) = {}"
    if a: "(L(c \<mapsto> ys)) a = Some zs" and b: "(L(c \<mapsto> ys)) b = Some ws" and "a \<noteq> b" for a b zs ws
  proof -
    have far: "set (a # zs) \<inter> set (c # ys) = {}" if "L a = Some zs" "a \<noteq> c" for a zs
      using out [OF that] new(2) by auto
    consider "a = c" | "b = c" | "a \<noteq> c" "b \<noteq> c" by blast
    then show ?thesis
    proof cases
      case 1
      then show ?thesis using a b \<open>a \<noteq> b\<close> far [of b ws] by auto
    next
      case 2
      then show ?thesis using a b \<open>a \<noteq> b\<close> far [of a zs] by auto
    next
      case 3
      then show ?thesis using a b \<open>a \<noteq> b\<close> ringsD(2) [OF ok, of a zs b ws] by auto
    qed
  qed
  ultimately show ?thesis unfolding rings_def by blast
qed

lemma rings_drop: "rings h L \<Longrightarrow> rings h (L(c := None))"
  unfolding rings_def by auto

lemma INIT_LIST_HEAD_ok:
  assumes ok: "rings h L" and p: "p \<notin> nodes L" "p \<noteq> 0"
  shows "\<exists>h'. INIT_LIST_HEAD p h = Some h' \<and> rings h' (L(p \<mapsto> []))"
proof -
  let ?h = "h\<lparr>lk_next := (lk_next h)(p := p), lk_prev := (lk_prev h)(p := p)\<rparr>"
  have n: "L p = None" using p(1) unfolding nodes_def by (cases "L p") auto
  have "L(p := None) = L" using n by auto
  then have "rings ?h (L(p \<mapsto> []))"
    by (intro rings_change [OF ok, of p "[]" "[p]"]) (use n p in \<open>auto simp: ring_def\<close>)
  moreover have "INIT_LIST_HEAD p h = Some ?h" using p(2) by (simp add: INIT_LIST_HEAD_def set_next_def set_prev_def)
  ultimately show ?thesis by blast
qed

text \<open>A ring as pairs of neighbours.\<close>

abbreviation adjacent :: "links \<Rightarrow> nat \<Rightarrow> nat \<Rightarrow> bool" where
  "adjacent h x y \<equiv> lk_next h x = y \<and> lk_prev h y = x"

lemma linked_pairs: "linked h a xs b \<longleftrightarrow> list_all2 (adjacent h) (a # xs) (xs @ [b])"
  by (induction xs arbitrary: a) auto

lemma around:
  obtains us v n ws where "c # xs = us @ [v]" "ys @ [c] = n # ws" "v = last (c # xs)" "n = hd (ys @ [c])" "length us = length xs" "length ws = length ys"
proof -
  have "c # xs = butlast (c # xs) @ [last (c # xs)]" by (rule append_butlast_last_id [symmetric]) simp
  moreover have "ys @ [c] = hd (ys @ [c]) # tl (ys @ [c])" by simp
  moreover have "length (butlast (c # xs)) = length xs" "length (tl (ys @ [c])) = length ys" by simp_all
  ultimately show ?thesis using that by metis
qed

lemma adjacent_mono:
  assumes "list_all2 (adjacent h) us vs" "\<And>x. x \<in> set us \<Longrightarrow> lk_next h' x = lk_next h x" "\<And>x. x \<in> set vs \<Longrightarrow> lk_prev h' x = lk_prev h x"
  shows "list_all2 (adjacent h') us vs"
  using assms by (auto simp: list_all2_conv_all_nth)

text \<open>The rings \<open>xs @ ys\<close> and \<open>xs @ p # ys\<close> by the links around \<open>p\<close>.\<close>

lemma linked_split:
  assumes "c # xs = us @ [v]" "ys @ [c] = n # ws" "length us = length xs"
  shows "linked h c (xs @ ys) c \<longleftrightarrow> list_all2 (adjacent h) us xs \<and> adjacent h v n \<and> list_all2 (adjacent h) ys ws"
    and "linked h c (xs @ p # ys) c \<longleftrightarrow> list_all2 (adjacent h) us xs \<and> adjacent h v p \<and> adjacent h p n \<and> list_all2 (adjacent h) ys ws"
proof -
  have "c # xs @ ys = us @ v # ys" "c # xs @ p # ys = us @ v # p # ys" using assms(1) by (metis append.assoc append_Cons append_Nil)+
  moreover have "(xs @ ys) @ [c] = xs @ n # ws" "(xs @ p # ys) @ [c] = xs @ p # n # ws" using assms(2) by simp_all
  ultimately have "linked h c (xs @ ys) c \<longleftrightarrow> list_all2 (adjacent h) (us @ v # ys) (xs @ n # ws)"
    "linked h c (xs @ p # ys) c \<longleftrightarrow> list_all2 (adjacent h) (us @ v # p # ys) (xs @ p # n # ws)" unfolding linked_pairs by (simp_all only:)
  then show "linked h c (xs @ ys) c \<longleftrightarrow> list_all2 (adjacent h) us xs \<and> adjacent h v n \<and> list_all2 (adjacent h) ys ws"
    "linked h c (xs @ p # ys) c \<longleftrightarrow> list_all2 (adjacent h) us xs \<and> adjacent h v p \<and> adjacent h p n \<and> list_all2 (adjacent h) ys ws"
    using assms(3) by (simp_all add: list_all2_append)
qed

lemma nodes_notD: "p \<notin> nodes L \<Longrightarrow> L c = Some zs \<Longrightarrow> p \<notin> set (c # zs)"
  unfolding nodes_def by blast

lemma list_add_between_ok:
  assumes ok: "rings h L" and c: "L c = Some (xs @ ys)" and p: "p \<notin> nodes L" "p \<noteq> 0"
  shows "\<exists>h'. list_add_between p (last (c # xs)) (hd (ys @ [c])) h = Some h' \<and> rings h' (L(c \<mapsto> xs @ p # ys))"
proof -
  obtain us v n ws where U: "c # xs = us @ [v]" "ys @ [c] = n # ws" "v = last (c # xs)" "n = hd (ys @ [c])" "length us = length xs" by (rule around [of c xs ys])
  note R = ringsD(1) [OF ok c, unfolded ring_def]
  have p': "p \<notin> set (c # xs @ ys)" using nodes_notD [OF p(1) c] by simp
  have in_r: "v \<in> set (c # xs @ ys)" "n \<in> set (c # xs @ ys)" unfolding U(3,4) by (cases xs rule: rev_cases; cases ys; auto)+
  let ?h = "h\<lparr>lk_next := (lk_next h)(p := n, v := p), lk_prev := (lk_prev h)(n := p, p := v)\<rparr>"
  have e: "list_add_between p v n h = Some ?h"
    using in_r R p p' by (auto simp: list_add_between_def set_next_def set_prev_def)
  have d: "distinct (us @ [v])" "distinct (n # ws)" "v \<notin> set ys" "n \<notin> set xs"
  proof -
    show "distinct (us @ [v])" unfolding U(1) [symmetric] using R by simp
    show "distinct (n # ws)" unfolding U(2) [symmetric] using R by simp
    show "v \<notin> set ys" unfolding U(3) using R by (cases xs rule: rev_cases) auto
    show "n \<notin> set xs" unfolding U(4) using R by (cases ys) auto
  qed
  have s: "set us \<subseteq> set (c # xs)" "set ws \<subseteq> set (ys @ [c])" unfolding U(1,2) by auto
  have old: "list_all2 (adjacent h) us xs" "list_all2 (adjacent h) ys ws" using R linked_split(1) [OF U(1,2,5)] by blast+
  have "list_all2 (adjacent ?h) us xs" by (rule adjacent_mono [OF old(1)]) (use d p' s in auto)
  moreover have "list_all2 (adjacent ?h) ys ws" by (rule adjacent_mono [OF old(2)]) (use d p' s in auto)
  moreover have "v \<noteq> p" "n \<noteq> p" using in_r p' by auto
  ultimately have "linked ?h c (xs @ p # ys) c" unfolding linked_split(2) [OF U(1,2,5)] by auto
  then have new: "ring ?h c (xs @ p # ys)" using R p' p(2) by (auto simp: ring_def)
  have out: "p \<notin> nodes (L(c := None))" using p(1) unfolding nodes_def by auto
  have out': "c \<notin> nodes (L(c := None))" using ringsD(2) [OF ok c, of _ _ c] unfolding nodes_def by (auto split: if_splits)
  have "rings ?h (L(c \<mapsto> xs @ p # ys))"
    by (rule rings_change [OF ok, of c "xs @ ys" "[p]"]) (use c out out' new in_r in auto)
  then show ?thesis using e unfolding U(3,4) by blast
qed

text \<open>Taking an entry out, or a head without entries.\<close>

definition unlink :: "nat \<Rightarrow> (nat \<rightharpoonup> nat list) \<Rightarrow> (nat \<rightharpoonup> nat list)" where
  "unlink p L = (\<lambda>a. if a = p then None else map_option (remove1 p) (L a))"

definition entry :: "nat \<Rightarrow> (nat \<rightharpoonup> nat list) \<Rightarrow> bool" where
  "entry p L \<longleftrightarrow> L p = Some [] \<or> (\<exists>c xs. L c = Some xs \<and> p \<in> set xs)"

lemma entry_notin_ring:
  assumes ok: "rings h L" and c: "L c = Some (xs @ p # ys)"
  shows "L p = None" "unlink p L = L(c \<mapsto> xs @ ys)" "p \<notin> nodes (L(c \<mapsto> xs @ ys))"
proof -
  note R = ringsD(1) [OF ok c, unfolded ring_def]
  have un: "a = c" if "L a = Some zs" "p \<in> set (a # zs)" for a zs
    using ringsD(2) [OF ok that(1) c that(2)] by simp
  have pc: "p \<noteq> c" using R by auto
  then show n: "L p = None" using un [of p] by (cases "L p") auto
  have rem: "remove1 p (xs @ p # ys) = xs @ ys" using R by (simp add: remove1_append)
  show "unlink p L = L(c \<mapsto> xs @ ys)"
  proof
    fix a
    show "unlink p L a = (L(c \<mapsto> xs @ ys)) a"
      using n pc c rem un [of a] by (cases "L a") (auto simp: unlink_def intro!: remove1_idem)
  qed
  show "p \<notin> nodes (L(c \<mapsto> xs @ ys))" using un R pc unfolding nodes_def by (auto split: if_splits)
qed

lemma list_del_between_ok:
  assumes ok: "rings h L" and p: "entry p L"
  shows "p \<noteq> 0 \<and> (\<exists>h'. list_del_between (lk_prev h p) (lk_next h p) h = Some h' \<and> rings h' (unlink p L)) \<and> p \<notin> nodes (unlink p L)"
proof (cases "L p = Some []")
  case True
  have R: "lk_next h p = p" "lk_prev h p = p" "p \<noteq> 0" using ringsD(1) [OF ok True] by (auto simp: ring_def)
  let ?h = "h\<lparr>lk_next := (lk_next h)(p := p), lk_prev := (lk_prev h)(p := p)\<rparr>"
  have e: "list_del_between (lk_prev h p) (lk_next h p) h = Some ?h" using R by (simp add: list_del_between_def set_next_def set_prev_def)
  have "(lk_next h)(p := p) = lk_next h" "(lk_prev h)(p := p) = lk_prev h" using R by auto
  then have h: "?h = h" by (cases h) simp
  have out: "p \<notin> set (a # zs)" if "L a = Some zs" "a \<noteq> p" for a zs using ringsD(2) [OF ok that(1) True, of p] that(2) by auto
  have u: "unlink p L = L(p := None)" using out by (auto simp: unlink_def fun_eq_iff remove1_idem map_option_case split: option.split)
  have "p \<notin> nodes (L(p := None))" using out unfolding nodes_def by (auto split: if_splits)
  then show ?thesis using e rings_drop [OF ok, of p] R(3) unfolding u h by blast
next
  case False
  then obtain c xs ys where c: "L c = Some (xs @ p # ys)" using p unfolding entry_def by (metis split_list)
  note R = ringsD(1) [OF ok c, unfolded ring_def]
  note E = entry_notin_ring [OF ok c]
  obtain us v n ws where U: "c # xs = us @ [v]" "ys @ [c] = n # ws" "v = last (c # xs)" "n = hd (ys @ [c])" "length us = length xs" by (rule around [of c xs ys])
  have old: "list_all2 (adjacent h) us xs" "adjacent h v p" "adjacent h p n" "list_all2 (adjacent h) ys ws" using R linked_split(2) [OF U(1,2,5)] by blast+
  have in_r: "v \<in> set (c # xs @ ys)" "n \<in> set (c # xs @ ys)" unfolding U(3,4) by (cases xs rule: rev_cases; cases ys; auto)+
  let ?h = "h\<lparr>lk_next := (lk_next h)(v := n), lk_prev := (lk_prev h)(n := v)\<rparr>"
  have vn: "lk_prev h p = v" "lk_next h p = n" using old(2,3) by simp_all
  have e: "list_del_between (lk_prev h p) (lk_next h p) h = Some ?h"
    unfolding vn using in_r R by (auto simp: list_del_between_def set_next_def set_prev_def)
  have d: "distinct (us @ [v])" "distinct (n # ws)" "v \<notin> set ys" "n \<notin> set xs"
  proof -
    show "distinct (us @ [v])" unfolding U(1) [symmetric] using R by simp
    show "distinct (n # ws)" unfolding U(2) [symmetric] using R by simp
    show "v \<notin> set ys" unfolding U(3) using R by (cases xs rule: rev_cases) auto
    show "n \<notin> set xs" unfolding U(4) using R by (cases ys) auto
  qed
  have "list_all2 (adjacent ?h) us xs" by (rule adjacent_mono [OF old(1)]) (use d in auto)
  moreover have "list_all2 (adjacent ?h) ys ws" by (rule adjacent_mono [OF old(4)]) (use d in auto)
  ultimately have "linked ?h c (xs @ ys) c" unfolding linked_split(1) [OF U(1,2,5)] by auto
  then have new: "ring ?h c (xs @ ys)" using R by (auto simp: ring_def)
  have "p \<notin> nodes (L(c := None))" using E(3) unfolding nodes_def by (auto split: if_splits)
  moreover have "c \<notin> nodes (L(c := None))" using ringsD(2) [OF ok c, of _ _ c] unfolding nodes_def by (auto split: if_splits)
  ultimately have "rings ?h (L(c \<mapsto> xs @ ys))"
    by (intro rings_change [OF ok, of c "xs @ p # ys" "[p]"]) (use c new in_r in auto)
  moreover have "p \<noteq> 0" using R by auto
  ultimately show ?thesis using e E(2,3) by simp
qed

lemma ring_ends:
  assumes "rings h L" "L c = Some xs"
  shows "get_next c h = Some (hd (xs @ [c]))" "get_prev c h = Some (last (c # xs))" "list_empty c h = Some (xs = [])" "c \<noteq> 0"
proof -
  note R = ringsD(1) [OF assms, unfolded ring_def]
  show "c \<noteq> 0" using R by auto
  then show n: "get_next c h = Some (hd (xs @ [c]))" and "get_prev c h = Some (last (c # xs))"
    using R linked_ends [of h c xs c] by (auto simp: get_next_def get_prev_def)
  show "list_empty c h = Some (xs = [])" using n R by (cases xs) (auto simp: list_empty_def)
qed

lemma list_add_tail_ok:
  assumes "rings h L" "L c = Some xs" "p \<notin> nodes L" "p \<noteq> 0"
  shows "\<exists>h'. list_add_tail p c h = Some h' \<and> rings h' (L(c \<mapsto> xs @ [p]))"
  using list_add_between_ok [OF assms(1), of c xs "[]" p] assms ring_ends(2) [OF assms(1,2)] by (simp add: list_add_tail_def)

lemma list_addd_ok:
  assumes "rings h L" "L c = Some xs" "p \<notin> nodes L" "p \<noteq> 0"
  shows "\<exists>h'. list_addd p c h = Some h' \<and> rings h' (L(c \<mapsto> p # xs))"
  using list_add_between_ok [OF assms(1), of c "[]" xs p] assms ring_ends(1) [OF assms(1,2)] by (simp add: list_addd_def)

lemma list_del_init_ok:
  assumes "rings h L" "entry p L"
  shows "\<exists>h'. list_del_init p h = Some h' \<and> rings h' ((unlink p L)(p \<mapsto> []))"
proof -
  obtain h1 where h1: "p \<noteq> 0" "list_del_between (lk_prev h p) (lk_next h p) h = Some h1" "rings h1 (unlink p L)" "p \<notin> nodes (unlink p L)"
    using list_del_between_ok [OF assms] by blast
  obtain h2 where h2: "INIT_LIST_HEAD p h1 = Some h2" "rings h2 ((unlink p L)(p \<mapsto> []))" using INIT_LIST_HEAD_ok [OF h1(3,4,1)] by blast
  have "list_del_init p h = Some h2" using h1 h2(1) by (simp add: list_del_init_def get_prev_def get_next_def)
  then show ?thesis using h2(2) by blast
qed

lemma unlink_other: "c \<noteq> p \<Longrightarrow> L c = Some xs \<Longrightarrow> unlink p L c = Some (remove1 p xs)"
  by (simp add: unlink_def)

lemma list_move_tail_ok:
  assumes "rings h L" "entry p L" "c \<noteq> p" "L c = Some xs"
  shows "\<exists>h'. list_move_tail p c h = Some h' \<and> rings h' ((unlink p L)(c \<mapsto> remove1 p xs @ [p]))"
proof -
  obtain h1 where h1: "p \<noteq> 0" "list_del_between (lk_prev h p) (lk_next h p) h = Some h1" "rings h1 (unlink p L)" "p \<notin> nodes (unlink p L)"
    using list_del_between_ok [OF assms(1,2)] by blast
  obtain h2 where "list_add_tail p c h1 = Some h2" "rings h2 ((unlink p L)(c \<mapsto> remove1 p xs @ [p]))"
    using list_add_tail_ok [OF h1(3) unlink_other [of c p L xs, OF assms(3,4)] h1(4,1)] by blast
  then show ?thesis using h1 by (simp add: list_move_tail_def get_prev_def get_next_def)
qed

lemma list_move_ok:
  assumes "rings h L" "entry p L" "c \<noteq> p" "L c = Some xs"
  shows "\<exists>h'. list_move p c h = Some h' \<and> rings h' ((unlink p L)(c \<mapsto> p # remove1 p xs))"
proof -
  obtain h1 where h1: "p \<noteq> 0" "list_del_between (lk_prev h p) (lk_next h p) h = Some h1" "rings h1 (unlink p L)" "p \<notin> nodes (unlink p L)"
    using list_del_between_ok [OF assms(1,2)] by blast
  obtain h2 where "list_addd p c h1 = Some h2" "rings h2 ((unlink p L)(c \<mapsto> p # remove1 p xs))"
    using list_addd_ok [OF h1(3) unlink_other [of c p L xs, OF assms(3,4)] h1(4,1)] by blast
  then show ?thesis using h1 by (simp add: list_move_def get_prev_def get_next_def)
qed

text \<open>Links of an address that is on no list do not matter.\<close>

lemma rings_frame:
  assumes ok: "rings h L" and "\<And>x. x \<in> nodes L \<Longrightarrow> lk_next h' x = lk_next h x \<and> lk_prev h' x = lk_prev h x"
  shows "rings h' L"
  unfolding rings_def
proof (intro conjI allI impI)
  fix a xs assume a: "L a = Some xs"
  have n: "x \<in> nodes L" if "x \<in> set (a # xs)" for x using a that unfolding nodes_def by blast
  have "linked h' a xs a = linked h a xs a" by (rule linked_cong) (use assms(2) n in auto)
  then show "ring h' a xs" using ringsD(1) [OF ok a] by (simp add: ring_def)
next
  fix a b xs ys assume "L a = Some xs" "L b = Some ys" "a \<noteq> b"
  then show "set (a # xs) \<inter> set (b # ys) = {}" using ringsD(2) [OF ok] by blast
qed

lemma list_del_ok:
  assumes "rings h L" "entry p L"
  shows "\<exists>h'. list_del p h = Some h' \<and> rings h' (unlink p L)"
proof -
  obtain h1 where h1: "p \<noteq> 0" "list_del_between (lk_prev h p) (lk_next h p) h = Some h1" "rings h1 (unlink p L)" "p \<notin> nodes (unlink p L)"
    using list_del_between_ok [OF assms] by blast
  let ?h = "h1\<lparr>lk_next := (lk_next h1)(p := 0), lk_prev := (lk_prev h1)(p := 0)\<rparr>"
  have "list_del p h = Some ?h" using h1 by (simp add: list_del_def get_prev_def get_next_def set_next_def set_prev_def)
  moreover have "rings ?h (unlink p L)" by (rule rings_frame [OF h1(3)]) (use h1(4) in auto)
  ultimately show ?thesis by blast
qed

text \<open>Emptying a list, and moving all entries of a list to the front of another.\<close>

lemma FreeList_ok:
  "rings h L \<Longrightarrow> L c = Some xs \<Longrightarrow>
   \<exists>h' L'. FreeList c h = Some h' \<and> rings h' L' \<and> L' c = Some [] \<and> (\<forall>x \<in> set xs. L' x = Some []) \<and> (\<forall>a. a \<notin> set (c # xs) \<longrightarrow> L' a = L a)"
proof (induction xs arbitrary: h L)
  case Nil
  then have "FreeList c h = Some h" using ring_ends(3) [OF Nil] by (subst FreeList.simps) simp
  then show ?case using Nil by auto
next
  case (Cons x xs)
  note E = entry_notin_ring [OF Cons.prems(1), of c "[]" x xs, simplified, OF Cons.prems(2)]
  have "\<exists>c xs. L c = Some xs \<and> x \<in> set xs" using Cons.prems(2) by (intro exI [of _ c] exI [of _ "x # xs"]) simp
  then have "entry x L" by (simp add: entry_def)
  then obtain h1 where h1: "list_del_init x h = Some h1" "rings h1 ((unlink x L)(x \<mapsto> []))" using list_del_init_ok [OF Cons.prems(1)] by blast
  have xc: "x \<noteq> c" "x \<notin> set xs" using ringsD(1) [OF Cons.prems] by (auto simp: ring_def)
  have "((unlink x L)(x \<mapsto> [])) c = Some xs" using E(2) xc by simp
  from Cons.IH [OF h1(2) this] obtain h' L' where h': "FreeList c h1 = Some h'" "rings h' L'" "L' c = Some []" "\<forall>y \<in> set xs. L' y = Some []"
    "\<forall>a. a \<notin> set (c # xs) \<longrightarrow> L' a = ((unlink x L)(x \<mapsto> [])) a" by blast
  have "FreeList c h = Some h'" using ring_ends [OF Cons.prems] h1(1) h'(1) by (subst FreeList.simps) simp
  moreover have "L' x = Some []" using h'(5) xc by simp
  moreover have "L' a = L a" if "a \<notin> set (c # x # xs)" for a using h'(5) E(2) that by simp
  ultimately show ?case using h'(2-4) by (intro exI [of _ h'] exI [of _ L']) simp
qed

lemma linked_inner:
  "xs \<noteq> [] \<Longrightarrow> linked h a xs b \<longleftrightarrow> adjacent h a (hd xs) \<and> list_all2 (adjacent h) (butlast xs) (tl xs) \<and> adjacent h (last xs) b"
proof (induction xs arbitrary: a)
  case (Cons x xs)
  then show ?case by (cases xs) auto
qed simp

lemma list_splice_init_ok:
  assumes ok: "rings h L" and l: "L l = Some xs" and c: "L c = Some ys" and lc: "l \<noteq> c"
  shows "\<exists>h'. list_splice_init l c h = Some h' \<and> rings h' (L(l \<mapsto> [], c \<mapsto> xs @ ys))"
proof (cases "xs = []")
  case True
  then have "L(l \<mapsto> [], c \<mapsto> xs @ ys) = L" using l c by auto
  then show ?thesis using ring_ends(3) [OF ok l] True ok by (simp add: list_splice_init_def)
next
  case False
  note Rl = ringsD(1) [OF ok l, unfolded ring_def] and Rc = ringsD(1) [OF ok c, unfolded ring_def]
  define f where "f = hd xs"
  define z where "z = last xs"
  define a where "a = hd (ys @ [c])"
  have dj: "set (l # xs) \<inter> set (c # ys) = {}" using ringsD(2) [OF ok l c] lc by auto
  have i: "f \<in> set xs" "z \<in> set xs" "a \<in> set (c # ys)" using False by (auto simp: f_def z_def a_def) (cases ys; simp)+
  let ?h = "h\<lparr>lk_next := (lk_next h)(c := f, z := a), lk_prev := (lk_prev h)(f := c, a := z)\<rparr>"
  have nz: "f \<noteq> 0" "z \<noteq> 0" "a \<noteq> 0" "c \<noteq> 0" using i Rl Rc by (metis set_ConsD list.set_intros)+
  have s: "list_splice_at l c h = Some ?h"
    using ring_ends(1,2) [OF ok l] ring_ends(1) [OF ok c] False nz
    by (simp add: list_splice_at_def set_next_def set_prev_def f_def z_def a_def)
  have inner: "list_all2 (adjacent h) (butlast xs) (tl xs)" using Rl linked_inner [OF False, of h l l] by blast
  have xs: "xs = butlast xs @ [z]" "xs = f # tl xs" using False by (simp_all add: z_def f_def)
  have "distinct (butlast xs @ [z])" "distinct (f # tl xs)" unfolding xs [symmetric] using Rl by simp_all
  then have d: "z \<notin> set (butlast xs)" "f \<notin> set (tl xs)" by simp_all
  have sub: "set (butlast xs) \<subseteq> set xs" "set (tl xs) \<subseteq> set xs" by (auto dest: in_set_butlastD list.set_sel(2) [OF False])
  have "c \<notin> set xs" "a \<notin> set xs" using i(3) dj by auto
  then have inner': "list_all2 (adjacent ?h) (butlast xs) (tl xs)"
    by (intro adjacent_mono [OF inner]) (use d sub in auto)
  have rest: "linked h z' ys c" if "z' = c" for z' using Rc that by simp
  have far: "z \<notin> set (c # ys)" "f \<notin> set (c # ys)" using i dj by auto
  have "linked ?h z ys c"
  proof (cases ys)
    case Nil
    then show ?thesis using far by (simp add: a_def)
  next
    case (Cons y ys')
    have R: "linked h c (y # ys') c" "distinct (c # y # ys')" using Rc Cons by simp_all
    have "linked ?h y ys' c = linked h y ys' c" by (rule linked_cong) (use R far Cons in \<open>auto simp: a_def\<close>)
    then show ?thesis using R far Cons by (auto simp: a_def)
  qed
  moreover have "adjacent ?h c f" "linked ?h c xs a" using inner' linked_inner [OF False, of ?h c a] i dj far by (auto simp: f_def z_def)
  ultimately have new: "linked ?h c (xs @ ys) c"
  proof (cases ys)
    case (Cons y ys')
    then show ?thesis using \<open>linked ?h c xs a\<close> \<open>linked ?h z ys c\<close> by (auto simp: linked_append a_def)
  qed (simp add: a_def)
  have "rings ?h ((L(l := None))(c \<mapsto> xs @ ys))"
  proof (rule rings_change [OF rings_drop [OF ok, of l], of c ys xs])
    show "(L(l := None)) c = Some ys \<or> (L(l := None)) c = None \<and> ys = []" using c lc by simp
    show "set xs \<inter> nodes ((L(l := None))(c := None)) = {}" using ringsD(2) [OF ok l] unfolding nodes_def by (auto split: if_splits)
    show "c \<notin> nodes ((L(l := None))(c := None))" using ringsD(2) [OF ok c, of _ _ c] unfolding nodes_def by (auto split: if_splits)
    show "ring ?h c (xs @ ys)" using new Rl Rc dj by (auto simp: ring_def)
  qed (use i in auto)
  moreover have "l \<notin> nodes ((L(l := None))(c \<mapsto> xs @ ys))"
    using ringsD(2) [OF ok l, of _ _ l] Rl dj lc unfolding nodes_def by (auto split: if_splits)
  moreover have "l \<noteq> 0" using Rl by auto
  ultimately obtain h' where h': "INIT_LIST_HEAD l ?h = Some h'" "rings h' ((L(l := None))(c \<mapsto> xs @ ys, l \<mapsto> []))" using INIT_LIST_HEAD_ok by metis
  have "(L(l := None))(c \<mapsto> xs @ ys, l \<mapsto> []) = L(l \<mapsto> [], c \<mapsto> xs @ ys)" using lc by (auto simp: fun_eq_iff)
  then show ?thesis using h' s ring_ends(3) [OF ok l] False by (simp add: list_splice_init_def)
qed

section \<open>Lists by their heads\<close>

datatype list_op = OpInit nat | OpAdd nat nat | OpAddTail nat nat | OpDel nat | OpReset nat | OpMove nat nat | OpMoveTail nat nat

fun link_step :: "list_op \<Rightarrow> links \<Rightarrow> links option" where
  "link_step (OpInit p) h = INIT_LIST_HEAD p h"
| "link_step (OpAdd p c) h = list_addd p c h"
| "link_step (OpAddTail p c) h = list_add_tail p c h"
| "link_step (OpDel p) h = list_del p h"
| "link_step (OpReset p) h = list_del_init p h"
| "link_step (OpMove p c) h = list_move p c h"
| "link_step (OpMoveTail p c) h = list_move_tail p c h"

text \<open>What the operations do to the lists, and when they may be called.\<close>

fun list_step :: "list_op \<Rightarrow> (nat \<rightharpoonup> nat list) \<Rightarrow> (nat \<rightharpoonup> nat list)" where
  "list_step (OpInit p) L = L(p \<mapsto> [])"
| "list_step (OpAdd p c) L = L(c \<mapsto> p # the (L c))"
| "list_step (OpAddTail p c) L = L(c \<mapsto> the (L c) @ [p])"
| "list_step (OpDel p) L = unlink p L"
| "list_step (OpReset p) L = (unlink p L)(p \<mapsto> [])"
| "list_step (OpMove p c) L = (unlink p L)(c \<mapsto> p # remove1 p (the (L c)))"
| "list_step (OpMoveTail p c) L = (unlink p L)(c \<mapsto> remove1 p (the (L c)) @ [p])"

fun list_allowed :: "list_op \<Rightarrow> (nat \<rightharpoonup> nat list) \<Rightarrow> bool" where
  "list_allowed (OpInit p) L \<longleftrightarrow> p \<notin> nodes L \<and> p \<noteq> 0"
| "list_allowed (OpAdd p c) L \<longleftrightarrow> p \<notin> nodes L \<and> p \<noteq> 0 \<and> L c \<noteq> None"
| "list_allowed (OpAddTail p c) L \<longleftrightarrow> p \<notin> nodes L \<and> p \<noteq> 0 \<and> L c \<noteq> None"
| "list_allowed (OpDel p) L \<longleftrightarrow> entry p L"
| "list_allowed (OpReset p) L \<longleftrightarrow> entry p L"
| "list_allowed (OpMove p c) L \<longleftrightarrow> entry p L \<and> c \<noteq> p \<and> L c \<noteq> None"
| "list_allowed (OpMoveTail p c) L \<longleftrightarrow> entry p L \<and> c \<noteq> p \<and> L c \<noteq> None"

fun links_run :: "list_op list \<Rightarrow> links \<Rightarrow> links option" where
  "links_run [] h = Some h"
| "links_run (x # ops) h = do { h \<leftarrow> link_step x h; links_run ops h }"

fun lists_run :: "list_op list \<Rightarrow> (nat \<rightharpoonup> nat list) \<Rightarrow> (nat \<rightharpoonup> nat list)" where
  "lists_run [] L = L"
| "lists_run (x # ops) L = lists_run ops (list_step x L)"

fun lists_allowed :: "list_op list \<Rightarrow> (nat \<rightharpoonup> nat list) \<Rightarrow> bool" where
  "lists_allowed [] L = True"
| "lists_allowed (x # ops) L = (list_allowed x L \<and> lists_allowed ops (list_step x L))"

lemma link_step_ok:
  assumes ok: "rings h L" and a: "list_allowed x L"
  shows "\<exists>h'. link_step x h = Some h' \<and> rings h' (list_step x L)"
proof (cases x)
  case (OpInit p)
  then show ?thesis using INIT_LIST_HEAD_ok [OF ok] a by simp
next
  case (OpAdd p c)
  then show ?thesis using list_addd_ok [OF ok] a by auto
next
  case (OpAddTail p c)
  then show ?thesis using list_add_tail_ok [OF ok] a by auto
next
  case (OpDel p)
  then show ?thesis using list_del_ok [OF ok] a by simp
next
  case (OpReset p)
  then show ?thesis using list_del_init_ok [OF ok] a by simp
next
  case (OpMove p c)
  then show ?thesis using list_move_ok [OF ok] a by auto
next
  case (OpMoveTail p c)
  then show ?thesis using list_move_tail_ok [OF ok] a by auto
qed



end
