(* ===== verification/TimerList.thy ===== *)
theory TimerList
  imports Prelude ListHead
begin

text \<open>
  \<open>include/timerlist.h\<close>, \<open>src/core/timerlist.cpp\<close>, \<open>include/ICC_Timer_Handler.h\<close>, \<open>Server/Timer.h\<close>: timers. A timer is the address of its
  \<open>list_head\<close>; a timer list is the address of its head with its timeout, and the unit keeps the timer lists, the newest first, and the list of
  pending timers. \<open>GET_TIMESTAMP\<close> is the n-th value of the clock \<open>clock\<close>, in microseconds; times and intervals (\<open>int64_t\<close>,
  \<open>long\<close>) are far from their bounds. The timeout of a list is an \<open>int\<close>, to which the \<open>long\<close> interval is cut. \<open>ProcessOnTimerOut\<close> is the
  parameter \<open>on_timer\<close>.
\<close>

section \<open>State\<close>

datatype timer_class = CCTimer_class | CTimer_class

record timers =
  tl_links :: links
  tl_objexp :: "nat \<Rightarrow> int"
  tl_isloop :: "nat \<Rightarrow> bool"
  tl_interval :: "nat \<Rightarrow> int"
  tl_class :: "nat \<Rightarrow> timer_class"
  tl_lists :: "(nat \<times> c_int) list"
  tl_pending :: nat
  tl_reads :: nat
  tl_new :: nat

definition GET_TIMESTAMP :: "(nat \<Rightarrow> int) \<Rightarrow> 'a timers_scheme \<Rightarrow> int \<times> 'a timers_scheme" where
  "GET_TIMESTAMP clock st = (clock (tl_reads st), st\<lparr>tl_reads := Suc (tl_reads st)\<rparr>)"

text \<open>\<open>new CTimerList(t)\<close> and the unit with its list \<open>pending\<close>.\<close>

definition CTimerList_new :: "'a timers_scheme \<Rightarrow> (nat \<times> 'a timers_scheme) option" where
  "CTimerList_new st =
     do { l \<leftarrow> INIT_LIST_HEAD (tl_new st) (tl_links st); Some (tl_new st, st\<lparr>tl_links := l, tl_new := Suc (tl_new st)\<rparr>) }"

definition CTimerUnit_new :: "'a timers_scheme \<Rightarrow> 'a timers_scheme option" where
  "CTimerUnit_new st = do { (p, st) \<leftarrow> CTimerList_new st; Some (st\<lparr>tl_pending := p, tl_lists := []\<rparr>) }"

section \<open>Timer objects\<close>

definition DisableTimer :: "nat \<Rightarrow> 'a timers_scheme \<Rightarrow> 'a timers_scheme option" where
  "DisableTimer self st = do { l \<leftarrow> list_del_init self (tl_links st); Some (st\<lparr>tl_links := l\<rparr>) }"

definition AttachTimer :: "(nat \<Rightarrow> int) \<Rightarrow> nat \<Rightarrow> nat \<times> c_int \<Rightarrow> 'a timers_scheme \<Rightarrow> 'a timers_scheme option" where
  "AttachTimer clock self lst st =
     do {
       let (tlist, timeout) = lst;
       let st = (if 0 < sint timeout then (let (now, st) = GET_TIMESTAMP clock st in st\<lparr>tl_objexp := (tl_objexp st)(self := now + sint timeout * 1000)\<rparr>) else st);
       l \<leftarrow> list_move_tail self tlist (tl_links st);
       Some (st\<lparr>tl_links := l\<rparr>)
     }"

definition AttachZeroTimer :: "nat \<Rightarrow> 'a timers_scheme \<Rightarrow> 'a timers_scheme option" where
  "AttachZeroTimer self st = do { l \<leftarrow> list_move_tail self (tl_pending st) (tl_links st); Some (st\<lparr>tl_links := l\<rparr>) }"

section \<open>The unit\<close>

fun find_list :: "c_int \<Rightarrow> (nat \<times> c_int) list \<Rightarrow> (nat \<times> c_int) option" where
  "find_list to [] = None"
| "find_list to (t # ts) = (if snd t = to then Some t else find_list to ts)"

definition GetTimerList :: "c_int \<Rightarrow> 'a timers_scheme \<Rightarrow> ((nat \<times> c_int) \<times> 'a timers_scheme) option" where
  "GetTimerList to st =
     (case find_list to (tl_lists st) of
        Some lst \<Rightarrow> Some (lst, st)
      | None \<Rightarrow> do { (p, st) \<leftarrow> CTimerList_new st; Some ((p, to), st\<lparr>tl_lists := (p, to) # tl_lists st\<rparr>) })"

fun first_expiry :: "(nat \<times> c_int) list \<Rightarrow> int \<Rightarrow> 'a timers_scheme \<Rightarrow> int option" where
  "first_expiry [] exp st = Some exp"
| "first_expiry ((tlist, _) # ts) exp st =
     do {
       e \<leftarrow> list_empty tlist (tl_links st);
       if e then first_expiry ts exp st
       else do {
         p \<leftarrow> get_next tlist (tl_links st);
         first_expiry ts (if tl_objexp st p < exp then tl_objexp st p else exp) st
       }
     }"

definition ExpireMicroSeconds :: "(nat \<Rightarrow> int) \<Rightarrow> int \<Rightarrow> 'a timers_scheme \<Rightarrow> (int \<times> 'a timers_scheme) option" where
  "ExpireMicroSeconds clock msec st =
     do {
       let (now, st) = GET_TIMESTAMP clock st;
       exp \<leftarrow> first_expiry (tl_lists st) (now + msec * 1000) st;
       let exp = exp - now;
       Some (if exp \<le> 0 then 0 else exp div 1000, st)
     }"

text \<open>The virtual call \<open>TimerNotify\<close> is the parameter \<open>notify\<close>; the loops may not end.\<close>

partial_function (option) pending_loop :: "(nat \<Rightarrow> 'a timers_scheme \<Rightarrow> 'a timers_scheme option) \<Rightarrow> int \<Rightarrow> 'a timers_scheme \<Rightarrow> (int \<times> 'a timers_scheme) option" where
  "pending_loop notify n st =
     do {
       e \<leftarrow> list_empty (tl_pending st) (tl_links st);
       if e then Some (n, st)
       else do {
         p \<leftarrow> get_next (tl_pending st) (tl_links st);
         st \<leftarrow> DisableTimer p st;
         st \<leftarrow> notify p st;
         pending_loop notify (n + 1) st
       }
     }"

partial_function (option) expired_loop :: "(nat \<Rightarrow> 'a timers_scheme \<Rightarrow> 'a timers_scheme option) \<Rightarrow> int \<Rightarrow> nat \<Rightarrow> int \<Rightarrow> 'a timers_scheme \<Rightarrow> (int \<times> 'a timers_scheme) option" where
  "expired_loop notify now tlist n st =
     do {
       e \<leftarrow> list_empty tlist (tl_links st);
       if e then Some (n, st)
       else do {
         p \<leftarrow> get_next tlist (tl_links st);
         if now < tl_objexp st p then Some (n, st)
         else do {
           st \<leftarrow> DisableTimer p st;
           st \<leftarrow> notify p st;
           expired_loop notify now tlist (n + 1) st
         }
       }
     }"

definition CTimerList_CheckExpired :: "(nat \<Rightarrow> int) \<Rightarrow> (nat \<Rightarrow> 'a timers_scheme \<Rightarrow> 'a timers_scheme option) \<Rightarrow> int \<Rightarrow> nat \<Rightarrow> 'a timers_scheme \<Rightarrow> (int \<times> 'a timers_scheme) option" where
  "CTimerList_CheckExpired clock notify now tlist st =
     (let (now, st) = (if now = 0 then GET_TIMESTAMP clock st else (now, st)) in expired_loop notify now tlist 0 st)"

definition CheckPending :: "(nat \<Rightarrow> 'a timers_scheme \<Rightarrow> 'a timers_scheme option) \<Rightarrow> 'a timers_scheme \<Rightarrow> (int \<times> 'a timers_scheme) option" where
  "CheckPending notify st = pending_loop notify 0 st"

text \<open>New lists are linked in before the first, so the walk visits the lists there were at its start.\<close>

fun check_lists :: "(nat \<Rightarrow> int) \<Rightarrow> (nat \<Rightarrow> 'a timers_scheme \<Rightarrow> 'a timers_scheme option) \<Rightarrow> int \<Rightarrow> (nat \<times> c_int) list \<Rightarrow> int \<Rightarrow> 'a timers_scheme \<Rightarrow> (int \<times> 'a timers_scheme) option" where
  "check_lists clock notify now [] n st = Some (n, st)"
| "check_lists clock notify now ((tlist, _) # ts) n st =
     do { (m, st) \<leftarrow> CTimerList_CheckExpired clock notify now tlist st; check_lists clock notify now ts (n + m) st }"

definition CTimerUnit_CheckExpired :: "(nat \<Rightarrow> int) \<Rightarrow> (nat \<Rightarrow> 'a timers_scheme \<Rightarrow> 'a timers_scheme option) \<Rightarrow> int \<Rightarrow> 'a timers_scheme \<Rightarrow> (int \<times> 'a timers_scheme) option" where
  "CTimerUnit_CheckExpired clock notify now st =
     do {
       let (now, st) = (if now = 0 then GET_TIMESTAMP clock st else (now, st));
       (n, st) \<leftarrow> CheckPending notify st;
       check_lists clock notify now (tl_lists st) n st
     }"

section \<open>Timers that restart\<close>

text \<open>\<open>CCReactor::RegistTimer\<close>.\<close>

definition RegistTimer :: "(nat \<Rightarrow> int) \<Rightarrow> nat \<Rightarrow> int \<Rightarrow> 'a timers_scheme \<Rightarrow> 'a timers_scheme option" where
  "RegistTimer clock timer t st =
     do {
       (lst, st) \<leftarrow> GetTimerList (word_of_int t) st;
       st \<leftarrow> DisableTimer timer st;
       AttachTimer clock timer lst st
     }"

definition timer_StartTimer :: "(nat \<Rightarrow> int) \<Rightarrow> nat \<Rightarrow> int \<Rightarrow> bool \<Rightarrow> 'a timers_scheme \<Rightarrow> 'a timers_scheme option" where
  "timer_StartTimer clock self interval isloop st =
     RegistTimer clock self interval (st\<lparr>tl_interval := (tl_interval st)(self := interval), tl_isloop := (tl_isloop st)(self := isloop)\<rparr>)"

text \<open>The virtual \<open>StartTimer\<close>: \<open>CTimer\<close> of \<open>Server/Timer.h\<close> takes seconds.\<close>

definition StartTimer :: "(nat \<Rightarrow> int) \<Rightarrow> nat \<Rightarrow> int \<Rightarrow> bool \<Rightarrow> 'a timers_scheme \<Rightarrow> 'a timers_scheme option" where
  "StartTimer clock self interval isloop st =
     (case tl_class st self of
        CCTimer_class \<Rightarrow> timer_StartTimer clock self interval isloop st
      | CTimer_class \<Rightarrow> timer_StartTimer clock self (interval * 1000) isloop st)"

definition StopTimer :: "nat \<Rightarrow> 'a timers_scheme \<Rightarrow> 'a timers_scheme option" where
  "StopTimer self st = do { st \<leftarrow> DisableTimer self st; Some (st\<lparr>tl_isloop := (tl_isloop st)(self := False)\<rparr>) }"

definition TimerNotify :: "(nat \<Rightarrow> int) \<Rightarrow> (nat \<Rightarrow> 'a timers_scheme \<Rightarrow> 'a timers_scheme option) \<Rightarrow> nat \<Rightarrow> 'a timers_scheme \<Rightarrow> 'a timers_scheme option" where
  "TimerNotify clock on_timer self st =
     do {
       st \<leftarrow> on_timer self st;
       if tl_isloop st self then StartTimer clock self (tl_interval st self) (tl_isloop st self) st else Some st
     }"

section \<open>Invariant\<close>

text \<open>\<open>T\<close> are the timers, \<open>cls\<close> their classes, \<open>L\<close> the lists that the links form. No timeout is negative or zero; a list is in the order of
  expiry; nothing is pending.\<close>

definition heads :: "'a timers_scheme \<Rightarrow> nat list" where
  "heads st = tl_pending st # map fst (tl_lists st)"

definition lists_ok :: "nat set \<Rightarrow> (nat \<rightharpoonup> nat list) \<Rightarrow> 'a timers_scheme \<Rightarrow> bool" where
  "lists_ok T L st \<longleftrightarrow> rings (tl_links st) L \<and> distinct (heads st) \<and> L (tl_pending st) = Some [] \<and>
     (\<forall>c to. (c, to) \<in> set (tl_lists st) \<longrightarrow> (\<exists>xs. L c = Some xs \<and> set xs \<subseteq> T)) \<and>
     (\<forall>p. p \<in> T \<longrightarrow> entry p L) \<and> (\<forall>p. p \<in> T \<longrightarrow> p \<notin> set (heads st)) \<and>
     (\<forall>a. L a \<noteq> None \<longrightarrow> a \<in> set (heads st) \<union> T) \<and> (\<forall>p. p \<in> T \<longrightarrow> L p = None \<or> L p = Some []) \<and>
     (\<forall>p. p \<in> nodes L \<longrightarrow> p < tl_new st) \<and> 0 < tl_new st"

definition in_order :: "(nat \<Rightarrow> int) \<Rightarrow> c_int \<Rightarrow> 'a timers_scheme \<Rightarrow> nat list \<Rightarrow> bool" where
  "in_order clock to st xs \<longleftrightarrow> sorted_wrt (\<lambda>a b. tl_objexp st a \<le> tl_objexp st b) xs \<and>
     (\<forall>x \<in> set xs. tl_objexp st x \<le> clock (tl_reads st) + sint to * 1000)"

definition times_ok :: "(nat \<Rightarrow> int) \<Rightarrow> (nat \<rightharpoonup> nat list) \<Rightarrow> 'a timers_scheme \<Rightarrow> bool" where
  "times_ok clock L st \<longleftrightarrow> (\<forall>c to. (c, to) \<in> set (tl_lists st) \<longrightarrow> 0 < sint to \<and> (\<forall>xs. L c = Some xs \<longrightarrow> in_order clock to st xs))"

definition timers_ok :: "(nat \<Rightarrow> int) \<Rightarrow> nat set \<Rightarrow> (nat \<Rightarrow> timer_class) \<Rightarrow> (nat \<rightharpoonup> nat list) \<Rightarrow> 'a timers_scheme \<Rightarrow> bool" where
  "timers_ok clock T cls L st \<longleftrightarrow> lists_ok T L st \<and> times_ok clock L st \<and> tl_class st = cls \<and>
     (\<forall>p \<in> T. tl_isloop st p \<longrightarrow> cls p = CCTimer_class \<and> 0 < sint (word_of_int (tl_interval st p) :: c_int))"

text \<open>The timers of a list that are due, and what an operation at time \<open>now\<close> may change: a timer becomes due in no list.\<close>

definition due :: "int \<Rightarrow> 'a timers_scheme \<Rightarrow> (nat \<rightharpoonup> nat list) \<Rightarrow> nat \<Rightarrow> nat set" where
  "due now st L c = {x. \<exists>xs. L c = Some xs \<and> x \<in> set xs \<and> tl_objexp st x \<le> now}"

definition timer_step :: "(nat \<Rightarrow> int) \<Rightarrow> nat set \<Rightarrow> (nat \<Rightarrow> timer_class) \<Rightarrow> int \<Rightarrow> 'a timers_scheme \<Rightarrow> (nat \<rightharpoonup> nat list) \<Rightarrow> 'a timers_scheme \<Rightarrow> (nat \<rightharpoonup> nat list) \<Rightarrow> bool" where
  "timer_step clock T cls now st L st' L' \<longleftrightarrow> timers_ok clock T cls L' st' \<and> tl_reads st \<le> tl_reads st' \<and>
     (\<forall>c. due now st' L' c \<subseteq> due now st L c) \<and> set (tl_lists st) \<subseteq> set (tl_lists st')"

lemma timer_step_refl: "timers_ok clock T cls L st \<Longrightarrow> timer_step clock T cls now st L st L"
  by (simp add: timer_step_def)

lemma timer_step_trans: "timer_step clock T cls now s1 L1 s2 L2 \<Longrightarrow> timer_step clock T cls now s2 L2 s3 L3 \<Longrightarrow> timer_step clock T cls now s1 L1 s3 L3"
  unfolding timer_step_def by (meson order_trans subset_trans)

lemma lists_okD:
  assumes "lists_ok T L st"
  shows "rings (tl_links st) L" "distinct (heads st)" "L (tl_pending st) = Some []"
    "\<And>c to. (c, to) \<in> set (tl_lists st) \<Longrightarrow> \<exists>xs. L c = Some xs \<and> set xs \<subseteq> T"
    "\<And>p. p \<in> T \<Longrightarrow> entry p L" "\<And>p. p \<in> T \<Longrightarrow> p \<notin> set (heads st)"
    "\<And>a. L a \<noteq> None \<Longrightarrow> a \<in> set (heads st) \<union> T" "\<And>p. p \<in> T \<Longrightarrow> L p = None \<or> L p = Some []"
    "\<And>p. p \<in> nodes L \<Longrightarrow> p < tl_new st" "0 < tl_new st"
  using assms unfolding lists_ok_def by blast+

lemma head_in: "(c, to) \<in> set (tl_lists st) \<Longrightarrow> c \<in> set (heads st)"
  unfolding heads_def by force

lemma timers_okD:
  assumes "timers_ok clock T cls L st"
  shows "lists_ok T L st" "times_ok clock L st" "tl_class st = cls"
    "\<And>p. p \<in> T \<Longrightarrow> tl_isloop st p \<Longrightarrow> cls p = CCTimer_class \<and> 0 < sint (word_of_int (tl_interval st p) :: c_int)"
  using assms unfolding timers_ok_def by blast+

text \<open>The entries of a list after a timer was taken out.\<close>

lemma unlink_sub: "unlink p L c = Some ys \<Longrightarrow> \<exists>xs. L c = Some xs \<and> ys = remove1 p xs \<and> c \<noteq> p"
  by (auto simp: unlink_def split: if_splits)

lemma ring_distinct: "rings h L \<Longrightarrow> L c = Some xs \<Longrightarrow> distinct xs"
  using ringsD(1) [of h L c xs] by (simp add: ring_def)

lemma sorted_wrt_remove1: "sorted_wrt R xs \<Longrightarrow> sorted_wrt R (remove1 x xs)"
  by (induction xs) (auto dest: in_set_remove1 notin_set_remove1 split: if_splits)

lemma entry_unlink:
  assumes q: "entry q L" "q \<noteq> p" and p: "L p = None \<or> L p = Some []"
  shows "(\<exists>c xs. unlink p L c = Some xs \<and> q \<in> set xs) \<or> unlink p L q = Some []"
proof (cases "L q = Some []")
  case True
  then show ?thesis using q(2) by (simp add: unlink_def)
next
  case False
  then obtain c xs where c: "L c = Some xs" "q \<in> set xs" using q(1) unfolding entry_def by blast
  then have "c \<noteq> p" using p by auto
  then have "unlink p L c = Some (remove1 p xs)" using c(1) by (simp add: unlink_def)
  moreover have "q \<in> set (remove1 p xs)" using c(2) q(2) by simp
  ultimately show ?thesis by blast
qed

lemma nodes_unlink: "nodes (unlink p L) \<subseteq> nodes L"
  unfolding nodes_def by (auto simp: unlink_def split: if_splits dest: notin_set_remove1)

lemma DisableTimer_ok:
  assumes ok: "timers_ok clock T cls L st" and p: "p \<in> T"
  shows "\<exists>st'. DisableTimer p st = Some st' \<and> timer_step clock T cls now st L st' ((unlink p L)(p \<mapsto> [])) \<and>
    (\<forall>c. due now st' ((unlink p L)(p \<mapsto> [])) c \<subseteq> due now st L c - {p})"
proof -
  note B = timers_okD [OF ok] and D = lists_okD [OF timers_okD(1) [OF ok]]
  let ?L = "(unlink p L)(p \<mapsto> [])"
  obtain l where l: "list_del_init p (tl_links st) = Some l" "rings l ?L" using list_del_init_ok [OF D(1) D(5) [OF p]] by blast
  let ?st = "st\<lparr>tl_links := l\<rparr>"
  have get: "?L c = Some ys \<Longrightarrow> c \<noteq> p \<Longrightarrow> \<exists>xs. L c = Some xs \<and> ys = remove1 p xs" for c ys by (auto dest: unlink_sub)
  have lists: "lists_ok T ?L ?st"
    unfolding lists_ok_def
  proof (intro conjI allI impI)
    show "rings (tl_links ?st) ?L" using l(2) by simp
    show "distinct (heads ?st)" using D(2) by (simp add: heads_def)
    show "?L (tl_pending ?st) = Some []" using D(3) by (auto simp: unlink_def)
    show "\<exists>xs. ?L c = Some xs \<and> set xs \<subseteq> T" if "(c, to) \<in> set (tl_lists ?st)" for c to
      using D(4) [of c to] that by (auto simp: unlink_def dest: notin_set_remove1)
    show "entry q ?L" if q: "q \<in> T" for q
    proof (cases "q = p")
      case True
      then show ?thesis by (simp add: entry_def)
    next
      case False
      consider c xs where "unlink p L c = Some xs" "q \<in> set xs" | "unlink p L q = Some []" using entry_unlink [OF D(5) [OF q] False D(8) [OF p]] by blast
      then show ?thesis
      proof cases
        case 1
        then have "?L c = Some xs" using unlink_sub by fastforce
        then show ?thesis using 1(2) unfolding entry_def by blast
      next
        case 2
        then show ?thesis using False by (simp add: entry_def)
      qed
    qed
    show "q \<notin> set (heads ?st)" if "q \<in> T" for q using D(6) [OF that] by (simp add: heads_def)
    show "a \<in> set (heads ?st) \<union> T" if "?L a \<noteq> None" for a using D(7) [of a] p that by (cases "a = p") (auto simp: unlink_def heads_def)
    show "?L q = None \<or> ?L q = Some []" if "q \<in> T" for q using D(8) [OF that] by (auto simp: unlink_def)
    show "q < tl_new ?st" if "q \<in> nodes ?L" for q
    proof -
      have "p \<in> nodes L" using D(5) [OF p] unfolding entry_def nodes_def by auto
      moreover have "nodes ?L \<subseteq> insert p (nodes (unlink p L))" unfolding nodes_def by (auto split: if_splits)
      ultimately show ?thesis using that nodes_unlink [of p L] D(9) by auto
    qed
    show "0 < tl_new ?st" using D(10) by simp
  qed
  have times: "times_ok clock ?L ?st"
    unfolding times_ok_def
  proof (intro allI impI conjI)
    fix c to assume c: "(c, to) \<in> set (tl_lists ?st)"
    show "0 < sint to" using B(2) c unfolding times_ok_def by simp
    fix ys assume ys: "?L c = Some ys"
    have "c \<noteq> p" using D(6) [OF p] head_in [of c to st] c by auto
    then obtain xs where xs: "L c = Some xs" "ys = remove1 p xs" using get [OF ys] by blast
    then have "in_order clock to st xs" using B(2) c unfolding times_ok_def by simp
    then show "in_order clock to ?st ys" unfolding xs(2) in_order_def by (auto intro: sorted_wrt_remove1 dest: notin_set_remove1)
  qed
  have dl: "x \<in> due now st L c - {p}" if x: "x \<in> due now ?st ?L c" for x c
  proof -
    obtain ys where ys: "?L c = Some ys" "x \<in> set ys" "tl_objexp st x \<le> now" using x by (auto simp: due_def)
    then have "c \<noteq> p" by auto
    then obtain xs where xs: "L c = Some xs" "ys = remove1 p xs" using get [OF ys(1)] by blast
    have "x \<noteq> p" using ring_distinct [OF D(1) xs(1)] ys(2) unfolding xs(2) by auto
    then show ?thesis using ys xs by (auto simp: due_def)
  qed
  have "timers_ok clock T cls ?L ?st" unfolding timers_ok_def using lists times B(3,4) by simp
  moreover have "DisableTimer p st = Some ?st" using l(1) by (simp add: DisableTimer_def)
  ultimately show ?thesis using dl unfolding timer_step_def by (intro exI [of _ ?st] conjI allI subsetI) auto
qed

text \<open>A timer waits in the list of a head. Moving one timer leaves the others where they are.\<close>

definition armed :: "nat \<Rightarrow> nat \<Rightarrow> (nat \<rightharpoonup> nat list) \<Rightarrow> bool" where
  "armed p c L \<longleftrightarrow> (\<exists>xs. L c = Some xs \<and> p \<in> set xs)"

definition keeps :: "nat \<Rightarrow> (nat \<rightharpoonup> nat list) \<Rightarrow> (nat \<rightharpoonup> nat list) \<Rightarrow> bool" where
  "keeps p L L' \<longleftrightarrow> (\<forall>q c. q \<noteq> p \<longrightarrow> armed q c L \<longrightarrow> armed q c L')"

lemma keeps_trans: "keeps p L1 L2 \<Longrightarrow> keeps p L2 L3 \<Longrightarrow> keeps p L1 L3"
  by (simp add: keeps_def)

lemma keeps_unlink:
  assumes "L p = None \<or> L p = Some []"
  shows "keeps p L ((unlink p L)(p \<mapsto> []))"
  unfolding keeps_def
proof (intro allI impI)
  fix q c assume "q \<noteq> p" "armed q c L"
  then obtain xs where c: "L c = Some xs" "q \<in> set xs" unfolding armed_def by blast
  then have "c \<noteq> p" using assms by auto
  then show "armed q c ((unlink p L)(p \<mapsto> []))" using c \<open>q \<noteq> p\<close> by (simp add: armed_def unlink_def)
qed

lemma keeps_moved:
  assumes "L p = None \<or> L p = Some []" "L c = Some xs"
  shows "keeps p L ((unlink p L)(c \<mapsto> remove1 p xs @ [p]))"
  unfolding keeps_def
proof (intro allI impI)
  fix q d assume q: "q \<noteq> p" "armed q d L"
  then obtain ys where d: "L d = Some ys" "q \<in> set ys" unfolding armed_def by blast
  then have "d \<noteq> p" using assms(1) by auto
  then show "armed q d ((unlink p L)(c \<mapsto> remove1 p xs @ [p]))" using d q(1) assms(2) by (cases "d = c") (simp_all add: armed_def unlink_def)
qed

text \<open>A list for a timeout: an old one, or a new one without entries.\<close>

lemma find_list_Some: "find_list to ls = Some t \<Longrightarrow> t \<in> set ls \<and> snd t = to"
  by (induction ls) (auto split: if_splits)

lemma GetTimerList_ok:
  assumes ok: "timers_ok clock T cls L st" and to: "0 < sint to"
  shows "\<exists>c st' L'. GetTimerList to st = Some ((c, to), st') \<and> timer_step clock T cls now st L st' L' \<and> (c, to) \<in> set (tl_lists st') \<and>
    tl_objexp st' = tl_objexp st \<and> tl_reads st' = tl_reads st \<and> keeps p L L'"
proof (cases "find_list to (tl_lists st)")
  case (Some t)
  obtain c where t: "t = (c, to)" using find_list_Some [OF Some] by (cases t) simp
  then have "(c, to) \<in> set (tl_lists st)" using find_list_Some [OF Some] by simp
  then show ?thesis using Some timer_step_refl [OF ok] t by (intro exI [of _ c] exI [of _ st] exI [of _ L]) (simp add: GetTimerList_def keeps_def)
next
  case None
  note B = timers_okD [OF ok] and D = lists_okD [OF timers_okD(1) [OF ok]]
  let ?c = "tl_new st"
  have c: "?c \<notin> nodes L" using D(9) by blast
  obtain l where l: "INIT_LIST_HEAD ?c (tl_links st) = Some l" "rings l (L(?c \<mapsto> []))" using INIT_LIST_HEAD_ok [OF D(1) c] D(10) by auto
  let ?L = "L(?c \<mapsto> [])" and ?st = "st\<lparr>tl_links := l, tl_new := Suc ?c, tl_lists := (?c, to) # tl_lists st\<rparr>"
  have N: "L ?c = None" using c unfolding nodes_def by (cases "L ?c") auto
  have nl: "(?c, to') \<notin> set (tl_lists st)" for to' using D(4) [of ?c to'] N by auto
  have np: "?c \<noteq> tl_pending st" using D(3) N by auto
  have nT: "?c \<notin> T"
  proof
    assume "?c \<in> T"
    then have "?c \<in> nodes L" using D(5) unfolding entry_def nodes_def by fastforce
    then show False using c by simp
  qed
  have lists: "lists_ok T ?L ?st"
    unfolding lists_ok_def
  proof (intro conjI allI impI)
    show "rings (tl_links ?st) ?L" using l(2) by simp
    show "distinct (heads ?st)" using D(2) nl np by (auto simp: heads_def)
    show "?L (tl_pending ?st) = Some []" using D(3) np by simp
    show "\<exists>xs. ?L c = Some xs \<and> set xs \<subseteq> T" if "(c, to') \<in> set (tl_lists ?st)" for c to'
      using D(4) [of c to'] that by (auto simp: nl)
    show "entry q ?L" if q: "q \<in> T" for q
    proof -
      have "q \<noteq> ?c" using q nT by auto
      moreover have "?L d = Some xs" if "L d = Some xs" for d xs using that N by auto
      ultimately show ?thesis using D(5) [OF q] unfolding entry_def by blast
    qed
    show "q \<notin> set (heads ?st)" if "q \<in> T" for q using D(6) [OF that] nT that by (auto simp: heads_def)
    show "a \<in> set (heads ?st) \<union> T" if "?L a \<noteq> None" for a using D(7) [of a] that by (cases "a = ?c") (auto simp: heads_def)
    show "?L q = None \<or> ?L q = Some []" if "q \<in> T" for q using D(8) [OF that] by auto
    show "q < tl_new ?st" if "q \<in> nodes ?L" for q
    proof -
      have "nodes ?L \<subseteq> insert ?c (nodes L)" unfolding nodes_def by (auto split: if_splits)
      then have "q = ?c \<or> q \<in> nodes L" using that by blast
      then show ?thesis using D(9) [of q] by auto
    qed
    show "0 < tl_new ?st" by simp
  qed
  have "times_ok clock ?L ?st"
    unfolding times_ok_def
  proof (intro allI impI conjI)
    fix d to' assume d: "(d, to') \<in> set (tl_lists ?st)"
    show "0 < sint to'" using B(2) d to unfolding times_ok_def by auto
    fix ys assume "?L d = Some ys"
    then show "in_order clock to' ?st ys" using B(2) d nl unfolding times_ok_def in_order_def by (auto split: if_splits)
  qed
  then have "timers_ok clock T cls ?L ?st" unfolding timers_ok_def using lists B(3,4) by simp
  moreover have "due now ?st ?L d \<subseteq> due now st L d" for d by (auto simp: due_def split: if_splits)
  ultimately have "timer_step clock T cls now st L ?st ?L" unfolding timer_step_def by auto
  moreover have "GetTimerList to st = Some ((?c, to), ?st)" using None l(1) by (simp add: GetTimerList_def CTimerList_new_def)
  moreover have "keeps p L ?L" using N by (auto simp: keeps_def armed_def)
  ultimately show ?thesis by (intro exI [of _ ?c] exI [of _ ?st] exI [of _ ?L]) simp
qed

text \<open>A timer is attached to a list: it expires after \<open>now\<close>, last of its list.\<close>

lemma AttachTimer_ok:
  assumes ok: "timers_ok clock T cls L st" and m: "mono clock" and now: "now \<le> clock (tl_reads st)" and p: "p \<in> T" and lst: "(c, to) \<in> set (tl_lists st)"
  shows "\<exists>st' L'. AttachTimer clock p (c, to) st = Some st' \<and> timer_step clock T cls now st L st' L' \<and> armed p c L' \<and> keeps p L L'"
proof -
  note B = timers_okD [OF ok] and D = lists_okD [OF timers_okD(1) [OF ok]]
  have to: "0 < sint to" using B(2) lst unfolding times_ok_def by simp
  obtain xs where xs: "L c = Some xs" "set xs \<subseteq> T" using D(4) [OF lst] by blast
  have cp: "c \<noteq> p" using D(6) [OF p] head_in [OF lst] by auto
  let ?L = "(unlink p L)(c \<mapsto> remove1 p xs @ [p])"
  define e where "e = clock (tl_reads st) + sint to * 1000"
  obtain l where l: "list_move_tail p c (tl_links st) = Some l" "rings l ?L" using list_move_tail_ok [OF D(1) D(5) [OF p] cp xs(1)] by blast
  let ?st = "st\<lparr>tl_links := l, tl_reads := Suc (tl_reads st), tl_objexp := (tl_objexp st)(p := e)\<rparr>"
  have mono: "clock (tl_reads st) \<le> clock (Suc (tl_reads st))" using m by (simp add: monoD)
  have get: "?L d = Some ys \<Longrightarrow> d \<noteq> c \<Longrightarrow> \<exists>xs. L d = Some xs \<and> ys = remove1 p xs \<and> d \<noteq> p" for d ys by (auto dest: unlink_sub)
  have px: "p \<notin> set (remove1 p zs)" if "L d = Some zs" for d zs using ring_distinct [OF D(1) that] by simp
  have lists: "lists_ok T ?L ?st"
    unfolding lists_ok_def
  proof (intro conjI allI impI)
    show "rings (tl_links ?st) ?L" using l(2) by simp
    show "distinct (heads ?st)" using D(2) by (simp add: heads_def)
    have "c \<noteq> tl_pending st" using D(2) lst by (force simp: heads_def)
    moreover have "p \<noteq> tl_pending st" using D(6) [OF p] by (auto simp: heads_def)
    ultimately show "?L (tl_pending ?st) = Some []" using D(3) by (simp add: unlink_def)
    show "\<exists>ys. ?L d = Some ys \<and> set ys \<subseteq> T" if d: "(d, to') \<in> set (tl_lists ?st)" for d to'
    proof (cases "d = c")
      case True
      then show ?thesis using xs(2) p by (auto dest: notin_set_remove1)
    next
      case False
      obtain ys where ys: "L d = Some ys" "set ys \<subseteq> T" using D(4) [of d to'] d by auto
      have "d \<noteq> p" using D(6) [OF p] head_in [of d to' st] d by auto
      then have "?L d = Some (remove1 p ys)" using False ys(1) by (simp add: unlink_def)
      then show ?thesis using ys(2) set_remove1_subset [of p ys] by auto
    qed
    show "entry q ?L" if q: "q \<in> T" for q
    proof (cases "q = p")
      case True
      then show ?thesis unfolding entry_def by (intro disjI2 exI [of _ c] exI [of _ "remove1 p xs @ [p]"]) simp
    next
      case False
      consider d ys where "unlink p L d = Some ys" "q \<in> set ys" | "unlink p L q = Some []" using entry_unlink [OF D(5) [OF q] False D(8) [OF p]] by blast
      then show ?thesis
      proof cases
        case 1
        show ?thesis
        proof (cases "d = c")
          case True
          then have "q \<in> set (remove1 p xs @ [p])" using 1 xs(1) cp by (simp add: unlink_def)
          then show ?thesis unfolding entry_def by (intro disjI2 exI [of _ c] exI [of _ "remove1 p xs @ [p]"]) simp
        next
          case False
          then show ?thesis using 1 unfolding entry_def by (intro disjI2 exI [of _ d] exI [of _ ys]) simp
        qed
      next
        case 2
        have "q \<noteq> c" using D(6) [OF q] head_in [OF lst] by auto
        then show ?thesis using 2 by (simp add: entry_def)
      qed
    qed
    show "q \<notin> set (heads ?st)" if "q \<in> T" for q using D(6) [OF that] by (simp add: heads_def)
    show "a \<in> set (heads ?st) \<union> T" if "?L a \<noteq> None" for a
      using D(7) [of a] that head_in [OF lst] by (cases "a = c") (auto simp: unlink_def heads_def split: if_splits)
    show "?L q = None \<or> ?L q = Some []" if "q \<in> T" for q
    proof -
      have "q \<noteq> c" using D(6) [OF that] head_in [OF lst] by auto
      then show ?thesis using D(8) [OF that] by (auto simp: unlink_def)
    qed
    show "q < tl_new ?st" if q: "q \<in> nodes ?L" for q
    proof -
      have pn: "p \<in> nodes L" using D(5) [OF p] unfolding entry_def nodes_def by auto
      have cn: "set (c # xs) \<subseteq> nodes L" using xs(1) unfolding nodes_def by auto
      have "nodes ?L \<subseteq> set (c # remove1 p xs @ [p]) \<union> nodes (unlink p L)" unfolding nodes_def by (auto split: if_splits)
      moreover have "set (c # remove1 p xs @ [p]) \<subseteq> insert p (set (c # xs))" using set_remove1_subset [of p xs] by auto
      ultimately have "q \<in> nodes L" using q pn cn nodes_unlink [of p L] by blast
      then show ?thesis using D(9) by simp
    qed
    show "0 < tl_new ?st" using D(10) by simp
  qed
  have "times_ok clock ?L ?st"
    unfolding times_ok_def
  proof (intro allI impI conjI)
    fix d to' assume d: "(d, to') \<in> set (tl_lists ?st)"
    show "0 < sint to'" using B(2) d unfolding times_ok_def by simp
    fix ys assume ys: "?L d = Some ys"
    show "in_order clock to' ?st ys"
    proof (cases "d = c")
      case True
      have "to' = to" using D(2) lst d True unfolding heads_def by (auto dest: eq_key_imp_eq_value)
      have o: "in_order clock to st xs" using B(2) lst xs(1) unfolding times_ok_def by simp
      have "ys = remove1 p xs @ [p]" using ys True by simp
      moreover have "sorted_wrt (\<lambda>a b. tl_objexp st a \<le> tl_objexp st b) (remove1 p xs)" using o unfolding in_order_def by (intro sorted_wrt_remove1) simp
      then have "sorted_wrt (\<lambda>a b. tl_objexp ?st a \<le> tl_objexp ?st b) (remove1 p xs)"
        by (rule sorted_wrt_mono_rel [rotated]) (use px [OF xs(1)] in auto)
      moreover have "tl_objexp st x \<le> e" "x \<noteq> p" if "x \<in> set (remove1 p xs)" for x
        using o that px [OF xs(1)] set_remove1_subset [of p xs] unfolding in_order_def e_def by auto
      ultimately have "sorted_wrt (\<lambda>a b. tl_objexp ?st a \<le> tl_objexp ?st b) ys" "\<forall>x \<in> set ys. tl_objexp ?st x \<le> e"
        by (simp_all add: sorted_wrt_append)
      moreover have "e \<le> clock (tl_reads ?st) + sint to * 1000" using mono by (simp add: e_def)
      ultimately show ?thesis unfolding in_order_def \<open>to' = to\<close> by fastforce
    next
      case False
      then obtain zs where zs: "L d = Some zs" "ys = remove1 p zs" using get [OF ys] by blast
      have o: "in_order clock to' st zs" using B(2) d zs(1) unfolding times_ok_def by simp
      have "sorted_wrt (\<lambda>a b. tl_objexp st a \<le> tl_objexp st b) ys" using o unfolding in_order_def zs(2) by (intro sorted_wrt_remove1) simp
      then have "sorted_wrt (\<lambda>a b. tl_objexp ?st a \<le> tl_objexp ?st b) ys"
        by (rule sorted_wrt_mono_rel [rotated]) (use px [OF zs(1)] zs(2) in auto)
      moreover have "tl_objexp ?st x \<le> clock (tl_reads ?st) + sint to' * 1000" if "x \<in> set ys" for x
      proof -
        have "x \<noteq> p" "x \<in> set zs" using that px [OF zs(1)] zs(2) set_remove1_subset [of p zs] by auto
        then have "tl_objexp st x \<le> clock (tl_reads st) + sint to' * 1000" using o unfolding in_order_def by simp
        then show ?thesis using mono \<open>x \<noteq> p\<close> by simp
      qed
      ultimately show ?thesis unfolding in_order_def by blast
    qed
  qed
  then have "timers_ok clock T cls ?L ?st" unfolding timers_ok_def using lists B(3,4) by simp
  moreover have "due now ?st ?L d \<subseteq> due now st L d" for d
  proof
    fix x assume "x \<in> due now ?st ?L d"
    then obtain ys where ys: "?L d = Some ys" "x \<in> set ys" "tl_objexp ?st x \<le> now" by (auto simp: due_def)
    have "now < e" using now to by (simp add: e_def)
    then have "x \<noteq> p" using ys(3) by auto
    show "x \<in> due now st L d"
    proof (cases "d = c")
      case True
      then have "x \<in> set xs" using ys(1,2) \<open>x \<noteq> p\<close> by (auto dest: notin_set_remove1)
      then show ?thesis using True xs(1) ys(3) \<open>x \<noteq> p\<close> by (simp add: due_def)
    next
      case False
      then obtain zs where "L d = Some zs" "ys = remove1 p zs" using get [OF ys(1)] by blast
      then show ?thesis using ys(2,3) \<open>x \<noteq> p\<close> by (auto simp: due_def dest: notin_set_remove1)
    qed
  qed
  ultimately have "timer_step clock T cls now st L ?st ?L" unfolding timer_step_def by auto
  moreover have "AttachTimer clock p (c, to) st = Some ?st"
    using to l(1) by (simp add: AttachTimer_def GET_TIMESTAMP_def e_def Let_def)
  moreover have "armed p c ?L" by (simp add: armed_def)
  moreover have "keeps p L ?L" by (rule keeps_moved) (use D(8) [OF p] xs(1) in blast)+
  ultimately show ?thesis by blast
qed

text \<open>The interval with which the timers of a class are registered, as an \<open>int\<close>.\<close>

definition timeout_of :: "timer_class \<Rightarrow> int \<Rightarrow> c_int" where
  "timeout_of k interval = word_of_int (case k of CCTimer_class \<Rightarrow> interval | CTimer_class \<Rightarrow> interval * 1000)"

lemma timers_ok_fields:
  assumes "timers_ok clock T cls L st" "loop \<longrightarrow> cls p = CCTimer_class \<and> 0 < sint (word_of_int interval :: c_int)"
  shows "timers_ok clock T cls L (st\<lparr>tl_interval := (tl_interval st)(p := interval), tl_isloop := (tl_isloop st)(p := loop)\<rparr>)"
  using assms unfolding timers_ok_def lists_ok_def times_ok_def in_order_def heads_def by simp

lemma due_fields [simp]: "due now (st\<lparr>tl_interval := i, tl_isloop := l\<rparr>) L = due now st L" "due now (st\<lparr>tl_isloop := l\<rparr>) L = due now st L"
  "due now (st\<lparr>tl_interval := i\<rparr>) L = due now st L"
  by (simp_all add: due_def fun_eq_iff)

lemma timer_stepD: "timer_step clock T cls now st L st' L' \<Longrightarrow> timers_ok clock T cls L' st' \<and> tl_reads st \<le> tl_reads st'"
  by (simp add: timer_step_def)

lemma RegistTimer_ok:
  assumes ok: "timers_ok clock T cls L st" and m: "mono clock" and now: "now \<le> clock (tl_reads st)" and p: "p \<in> T" and t: "0 < sint (word_of_int t :: c_int)"
  shows "\<exists>st' L'. RegistTimer clock p t st = Some st' \<and> timer_step clock T cls now st L st' L' \<and>
    (\<exists>c. (c, word_of_int t) \<in> set (tl_lists st') \<and> armed p c L') \<and> keeps p L L'"
proof -
  obtain c s1 L1 where 1: "GetTimerList (word_of_int t) st = Some ((c, word_of_int t), s1)" "timer_step clock T cls now st L s1 L1"
    "(c, word_of_int t) \<in> set (tl_lists s1)" "tl_reads s1 = tl_reads st" "keeps p L L1"
    using GetTimerList_ok [OF ok t] by blast
  have ok1: "timers_ok clock T cls L1 s1" using timer_stepD [OF 1(2)] by simp
  obtain s2 where 2: "DisableTimer p s1 = Some s2" "timer_step clock T cls now s1 L1 s2 ((unlink p L1)(p \<mapsto> []))"
    using DisableTimer_ok [OF ok1 p] by blast
  have ok2: "timers_ok clock T cls ((unlink p L1)(p \<mapsto> [])) s2" and r2: "tl_reads s1 \<le> tl_reads s2" using timer_stepD [OF 2(2)] by simp_all
  have "clock (tl_reads st) \<le> clock (tl_reads s2)" using m r2 1(4) by (simp add: monoD)
  then have now2: "now \<le> clock (tl_reads s2)" using now by simp
  have "(c, word_of_int t) \<in> set (tl_lists s2)" using 1(3) 2(2) unfolding timer_step_def by blast
  then obtain s3 L3 where 3: "AttachTimer clock p (c, word_of_int t) s2 = Some s3" "timer_step clock T cls now s2 ((unlink p L1)(p \<mapsto> [])) s3 L3"
      "armed p c L3" "keeps p ((unlink p L1)(p \<mapsto> [])) L3"
    using AttachTimer_ok [OF ok2 m now2 p] by blast
  have "RegistTimer clock p t st = Some s3" using 1(1) 2(1) 3(1) by (simp add: RegistTimer_def)
  moreover have "keeps p L1 ((unlink p L1)(p \<mapsto> []))" by (rule keeps_unlink) (use lists_okD(8) [OF timers_okD(1) [OF ok1] p] in blast)
  then have "keeps p L L3" using keeps_trans 1(5) 3(4) by blast
  moreover have "(c, word_of_int t) \<in> set (tl_lists s3)" using \<open>(c, word_of_int t) \<in> set (tl_lists s2)\<close> 3(2) unfolding timer_step_def by blast
  ultimately show ?thesis using timer_step_trans [OF timer_step_trans [OF 1(2) 2(2)] 3(2)] 3(3) by blast
qed

lemma StartTimer_ok:
  assumes ok: "timers_ok clock T cls L st" and m: "mono clock" and now: "now \<le> clock (tl_reads st)" and p: "p \<in> T"
    and t: "0 < sint (timeout_of (cls p) interval)" and loop: "loop \<longrightarrow> cls p = CCTimer_class"
  shows "\<exists>st' L'. StartTimer clock p interval loop st = Some st' \<and> timer_step clock T cls now st L st' L' \<and>
    (\<exists>c. (c, timeout_of (cls p) interval) \<in> set (tl_lists st') \<and> armed p c L') \<and> keeps p L L'"
proof -
  define i where "i = (case cls p of CCTimer_class \<Rightarrow> interval | CTimer_class \<Rightarrow> interval * 1000)"
  let ?st = "st\<lparr>tl_interval := (tl_interval st)(p := i), tl_isloop := (tl_isloop st)(p := loop)\<rparr>"
  have i: "0 < sint (word_of_int i :: c_int)" using t by (simp add: timeout_of_def i_def)
  have ok': "timers_ok clock T cls L ?st" by (rule timers_ok_fields [OF ok]) (use i loop in auto)
  obtain st' L' where r: "RegistTimer clock p i ?st = Some st'" "timer_step clock T cls now ?st L st' L'"
      "\<exists>c. (c, word_of_int i) \<in> set (tl_lists st') \<and> armed p c L'" "keeps p L L'"
    using RegistTimer_ok [OF ok' m _ p i, of now] now by auto
  have "timer_step clock T cls now st L ?st L" using ok' by (simp add: timer_step_def)
  moreover have "StartTimer clock p interval loop st = Some st'"
    using r(1) timers_okD(3) [OF ok] unfolding StartTimer_def timer_StartTimer_def i_def by (cases "cls p") simp_all
  moreover have "timeout_of (cls p) interval = word_of_int i" by (simp add: timeout_of_def i_def)
  ultimately show ?thesis using r(2-4) timer_step_trans by metis
qed

lemma StopTimer_ok:
  assumes ok: "timers_ok clock T cls L st" and p: "p \<in> T"
  shows "\<exists>st' L'. StopTimer p st = Some st' \<and> timer_step clock T cls now st L st' L' \<and> keeps p L L'"
proof -
  obtain s1 where 1: "DisableTimer p st = Some s1" "timer_step clock T cls now st L s1 ((unlink p L)(p \<mapsto> []))"
    using DisableTimer_ok [OF ok p] by blast
  let ?s = "s1\<lparr>tl_isloop := (tl_isloop s1)(p := False)\<rparr>"
  have "timers_ok clock T cls ((unlink p L)(p \<mapsto> [])) ?s"
    using timer_stepD [OF 1(2)] unfolding timers_ok_def lists_ok_def times_ok_def in_order_def heads_def by simp
  then have "timer_step clock T cls now s1 ((unlink p L)(p \<mapsto> [])) ?s ((unlink p L)(p \<mapsto> []))" by (simp add: timer_step_def)
  moreover have "StopTimer p st = Some ?s" using 1(1) by (simp add: StopTimer_def)
  moreover have "keeps p L ((unlink p L)(p \<mapsto> []))" by (rule keeps_unlink) (use lists_okD(8) [OF timers_okD(1) [OF ok] p] in blast)
  ultimately show ?thesis using timer_step_trans [OF 1(2)] by blast
qed

text \<open>The operations on timers leave everything else alone.\<close>

lemma DisableTimer_frame: "DisableTimer p st = Some st' \<Longrightarrow> timers.more st' = timers.more st \<and> tl_isloop st' = tl_isloop st"
  by (auto simp: DisableTimer_def split: bind_splits)

lemma StopTimer_frame: "StopTimer p st = Some st' \<Longrightarrow> timers.more st' = timers.more st"
  by (auto simp: StopTimer_def split: bind_splits dest!: DisableTimer_frame)

lemma GetTimerList_frame: "GetTimerList to st = Some (lst, st') \<Longrightarrow> timers.more st' = timers.more st"
  by (auto simp: GetTimerList_def CTimerList_new_def split: bind_splits option.splits)

lemma AttachTimer_frame: "AttachTimer clock p lst st = Some st' \<Longrightarrow> timers.more st' = timers.more st"
  by (auto simp: AttachTimer_def GET_TIMESTAMP_def Let_def split: bind_splits prod.splits if_splits)

lemma StartTimer_frame: "StartTimer clock p interval loop st = Some st' \<Longrightarrow> timers.more st' = timers.more st"
  by (auto simp: StartTimer_def timer_StartTimer_def RegistTimer_def split: bind_splits timer_class.splits
      dest!: GetTimerList_frame AttachTimer_frame DisableTimer_frame)

text \<open>The time to wait for events: never longer than until the first timer expires.\<close>

lemma first_expiry_ok:
  assumes ok: "timers_ok clock T cls L st"
  shows "set ts \<subseteq> set (tl_lists st) \<Longrightarrow> \<exists>e. first_expiry ts exp st = Some e \<and> e \<le> exp \<and>
    (\<forall>c to x. (c, to) \<in> set ts \<longrightarrow> armed x c L \<longrightarrow> e \<le> tl_objexp st x)"
proof (induction ts arbitrary: exp)
  case (Cons t ts)
  obtain c to where t: "t = (c, to)" by (cases t)
  note D = lists_okD [OF timers_okD(1) [OF ok]]
  have c: "(c, to) \<in> set (tl_lists st)" using Cons.prems t by simp
  obtain xs where xs: "L c = Some xs" using D(4) [OF c] by blast
  note R = ring_ends [OF D(1) xs]
  have o: "in_order clock to st xs" using timers_okD(2) [OF ok] c xs unfolding times_ok_def by blast
  have a: "armed x c L \<longleftrightarrow> x \<in> set xs" for x using xs by (simp add: armed_def)
  show ?case
  proof (cases xs)
    case Nil
    obtain e where "first_expiry ts exp st = Some e \<and> e \<le> exp \<and> (\<forall>c to x. (c, to) \<in> set ts \<longrightarrow> armed x c L \<longrightarrow> e \<le> tl_objexp st x)"
      using Cons by fastforce
    then show ?thesis using R(3) Nil t a by (intro exI [of _ e]) auto
  next
    case (Cons p ys)
    let ?exp = "if tl_objexp st p < exp then tl_objexp st p else exp"
    obtain e where e: "first_expiry ts ?exp st = Some e" "e \<le> ?exp" "\<forall>c to x. (c, to) \<in> set ts \<longrightarrow> armed x c L \<longrightarrow> e \<le> tl_objexp st x"
      using Cons.IH [of ?exp] Cons.prems by auto
    have "e \<le> exp" using e(2) by (simp split: if_splits)
    moreover have "e \<le> tl_objexp st x" if "x \<in> set xs" for x
      using o that e(2) Cons unfolding in_order_def by (auto split: if_splits)
    ultimately show ?thesis using R(1,3) Cons t a e(1,3) by (intro exI [of _ e]) (auto split: if_splits)
  qed
qed simp

lemma ExpireMicroSeconds_ok:
  assumes ok: "timers_ok clock T cls L st" and msec: "0 \<le> msec"
  shows "\<exists>t. ExpireMicroSeconds clock msec st = Some (t, st\<lparr>tl_reads := Suc (tl_reads st)\<rparr>) \<and> 0 \<le> t \<and> t \<le> msec \<and>
    (\<forall>c to x. (c, to) \<in> set (tl_lists st) \<longrightarrow> armed x c L \<longrightarrow> clock (tl_reads st) + t * 1000 \<le> max (clock (tl_reads st)) (tl_objexp st x))"
proof -
  let ?now = "clock (tl_reads st)"
  have same: "first_expiry ts exp (st\<lparr>tl_reads := r\<rparr>) = first_expiry ts exp st" for ts exp r
    by (induction ts arbitrary: exp) (auto intro!: Option.bind_cong)
  obtain e where e: "first_expiry (tl_lists st) (?now + msec * 1000) st = Some e" "e \<le> ?now + msec * 1000"
      "\<forall>c to x. (c, to) \<in> set (tl_lists st) \<longrightarrow> armed x c L \<longrightarrow> e \<le> tl_objexp st x"
    using first_expiry_ok [OF ok subset_refl] by blast
  define t where "t = (if e - ?now \<le> 0 then 0 else (e - ?now) div 1000)"
  have "ExpireMicroSeconds clock msec st = Some (t, st\<lparr>tl_reads := Suc (tl_reads st)\<rparr>)"
    using e(1) same by (simp add: ExpireMicroSeconds_def GET_TIMESTAMP_def t_def Let_def)
  moreover have "0 \<le> t" by (simp add: t_def pos_imp_zdiv_nonneg_iff)
  moreover have "t \<le> msec"
  proof -
    have "(e - ?now) div 1000 \<le> (msec * 1000) div 1000" by (rule zdiv_mono1) (use e(2) in simp_all)
    then show ?thesis using msec by (simp add: t_def)
  qed
  moreover have "(e - ?now) div 1000 * 1000 \<le> e - ?now" by (simp add: minus_mod_eq_div_mult [symmetric])
  then have "?now + t * 1000 \<le> max ?now e" unfolding t_def by (simp add: max_def)
  ultimately show ?thesis using e(3) by (intro exI [of _ t]) fastforce
qed

section \<open>Expiry\<close>

text \<open>What the unit relies on when it notifies a timer, which it has taken off its list: the call returns, leaves no timer due that was not, and restores
  what the client maintains.\<close>

locale timer_client =
  fixes clock :: "nat \<Rightarrow> int" and T :: "nat set" and cls :: "nat \<Rightarrow> timer_class" and now :: int
    and good :: "(nat \<rightharpoonup> nat list) \<Rightarrow> 'a timers_scheme \<Rightarrow> bool"
    and notify :: "nat \<Rightarrow> 'a timers_scheme \<Rightarrow> 'a timers_scheme option"
  assumes good_ok: "good L st \<Longrightarrow> timers_ok clock T cls L st"
    and notify_ok: "good L st \<Longrightarrow> p \<in> T \<Longrightarrow> DisableTimer p st = Some s1 \<Longrightarrow> timer_step clock T cls now st L s1 ((unlink p L)(p \<mapsto> [])) \<Longrightarrow>
      \<exists>st' L'. notify p s1 = Some st' \<and> timer_step clock T cls now s1 ((unlink p L)(p \<mapsto> [])) st' L' \<and> good L' st'"
begin

lemma due_finite:
  assumes "timers_ok clock T cls L st" "(c, to) \<in> set (tl_lists st)"
  shows "finite (due now st L c)"
proof -
  obtain xs where "L c = Some xs" using lists_okD(4) [OF timers_okD(1) [OF assms(1)] assms(2)] by blast
  then have "due now st L c \<subseteq> set xs" by (auto simp: due_def)
  then show ?thesis by (rule finite_subset) simp
qed

lemma expired_loop_ok:
  "good L st \<Longrightarrow> (c, to) \<in> set (tl_lists st) \<Longrightarrow>
   \<exists>n' st' L'. expired_loop notify now c n st = Some (n', st') \<and> timer_step clock T cls now st L st' L' \<and> due now st' L' c = {} \<and> good L' st'"
proof (induction "card (due now st L c)" arbitrary: st L n rule: less_induct)
  case less
  note ok = good_ok [OF less.prems(1)]
  note B = timers_okD [OF ok] and D = lists_okD [OF timers_okD(1) [OF ok]]
  obtain xs where xs: "L c = Some xs" "set xs \<subseteq> T" using D(4) [OF less.prems(2)] by blast
  note R = ring_ends [OF D(1) xs(1)]
  have o: "in_order clock to st xs" using B(2) less.prems(2) xs(1) unfolding times_ok_def by blast
  consider "xs = []" | p ys where "xs = p # ys" "now < tl_objexp st p" | p ys where "xs = p # ys" "tl_objexp st p \<le> now"
    by (cases xs) (simp, metis not_less)
  then show ?case
  proof cases
    case 1
    then have "due now st L c = {}" using xs(1) by (simp add: due_def)
    then show ?thesis using R(3) 1 timer_step_refl [OF ok] less.prems(1) by (subst expired_loop.simps) auto
  next
    case 2
    have "now < tl_objexp st x" if "x \<in> set xs" for x using o 2 that unfolding in_order_def by auto
    then have "due now st L c = {}" using xs(1) by (auto simp: due_def not_le [symmetric])
    moreover have "expired_loop notify now c n st = Some (n, st)" using R(1,3) 2 by (subst expired_loop.simps) simp
    ultimately show ?thesis using timer_step_refl [OF ok] less.prems(1) by blast
  next
    case 3
    have p: "p \<in> T" using xs(2) 3(1) by simp
    let ?L1 = "(unlink p L)(p \<mapsto> [])"
    obtain s1 where 1: "DisableTimer p st = Some s1" "timer_step clock T cls now st L s1 ?L1" "\<forall>d. due now s1 ?L1 d \<subseteq> due now st L d - {p}"
      using DisableTimer_ok [OF ok p] by blast
    obtain s2 L2 where 2: "notify p s1 = Some s2" "timer_step clock T cls now s1 ?L1 s2 L2" "good L2 s2"
      using notify_ok [OF less.prems(1) p 1(1,2)] by blast
    have s2: "timer_step clock T cls now st L s2 L2" by (rule timer_step_trans [OF 1(2) 2(2)])
    have "due now s2 L2 c \<subseteq> due now s1 ?L1 c" using 2(2) unfolding timer_step_def by blast
    then have sub: "due now s2 L2 c \<subseteq> due now st L c - {p}" using 1(3) by blast
    have "p \<in> due now st L c" using xs(1) 3 by (simp add: due_def)
    then have "due now s2 L2 c \<subset> due now st L c" using sub by blast
    then have "card (due now s2 L2 c) < card (due now st L c)" by (rule psubset_card_mono [OF due_finite [OF ok less.prems(2)]])
    moreover have "(c, to) \<in> set (tl_lists s2)" using s2 less.prems(2) unfolding timer_step_def by blast
    ultimately obtain n' st' L' where 3: "expired_loop notify now c (n + 1) s2 = Some (n', st')" "timer_step clock T cls now s2 L2 st' L'" "due now st' L' c = {}"
        "good L' st'" using less.hyps 2(3) by blast
    have "expired_loop notify now c n st = Some (n', st')"
      using R(1,3) \<open>xs = p # ys\<close> \<open>tl_objexp st p \<le> now\<close> 1(1) 2(1) 3(1) by (subst expired_loop.simps) simp
    then show ?thesis using timer_step_trans [OF s2 3(2)] 3(3,4) by blast
  qed
qed

lemma check_lists_ok:
  assumes "now \<noteq> 0"
  shows "good L st \<Longrightarrow> set ts \<subseteq> set (tl_lists st) \<Longrightarrow>
   \<exists>n' st' L'. check_lists clock notify now ts n st = Some (n', st') \<and> timer_step clock T cls now st L st' L' \<and> (\<forall>(c, to) \<in> set ts. due now st' L' c = {}) \<and> good L' st'"
proof (induction ts arbitrary: st L n)
  case Nil
  then show ?case using timer_step_refl [OF good_ok] by fastforce
next
  case (Cons t ts)
  obtain c to where t: "t = (c, to)" by (cases t)
  have c: "(c, to) \<in> set (tl_lists st)" using Cons.prems(2) t by simp
  obtain m s1 L1 where 1: "expired_loop notify now c 0 st = Some (m, s1)" "timer_step clock T cls now st L s1 L1" "due now s1 L1 c = {}" "good L1 s1"
    using expired_loop_ok [OF Cons.prems(1) c] by blast
  have "set ts \<subseteq> set (tl_lists s1)" using 1(2) Cons.prems(2) unfolding timer_step_def by auto
  then obtain n' s2 L2 where 2: "check_lists clock notify now ts (n + m) s1 = Some (n', s2)" "timer_step clock T cls now s1 L1 s2 L2"
    "\<forall>(c, to) \<in> set ts. due now s2 L2 c = {}" "good L2 s2" using Cons.IH [OF 1(4)] by blast
  have "due now s2 L2 c = {}" using 2(2) 1(3) unfolding timer_step_def by blast
  moreover have "check_lists clock notify now (t # ts) n st = Some (n', s2)"
    using 1(1) 2(1) assms t by (simp add: CTimerList_CheckExpired_def)
  ultimately show ?case using timer_step_trans [OF 1(2) 2(2)] 2(3,4) t by auto
qed

text \<open>Only the lists of the unit have entries.\<close>

lemma due_other:
  assumes "lists_ok T L st" "c \<notin> fst ` set (tl_lists st)"
  shows "due now st L c = {}"
proof -
  have "L c = None \<or> L c = Some []"
  proof (cases "L c = None")
    case False
    then have "c = tl_pending st \<or> c \<in> T" using lists_okD(7) [OF assms(1) False] assms(2) by (auto simp: heads_def)
    then show ?thesis using lists_okD(3,8) [OF assms(1)] by blast
  qed simp
  then show ?thesis by (auto simp: due_def)
qed

lemma CheckPending_ok:
  assumes "good L st"
  shows "CheckPending notify st = Some (0, st)"
proof -
  note D = lists_okD [OF timers_okD(1) [OF good_ok [OF assms]]]
  show ?thesis using ring_ends(3) [OF D(1,3)] by (simp add: CheckPending_def pending_loop.simps)
qed

lemma CheckExpired_ok:
  assumes good: "good L st" and now: "now \<noteq> 0"
  shows "\<exists>n' st' L'. CTimerUnit_CheckExpired clock notify now st = Some (n', st') \<and> timer_step clock T cls now st L st' L' \<and> (\<forall>c. due now st' L' c = {}) \<and> good L' st'"
proof -
  note ok = good_ok [OF good]
  note D = lists_okD [OF timers_okD(1) [OF ok]]
  obtain n' st' L' where c: "check_lists clock notify now (tl_lists st) 0 st = Some (n', st')" "timer_step clock T cls now st L st' L'"
    "\<forall>(c, to) \<in> set (tl_lists st). due now st' L' c = {}" "good L' st'" using check_lists_ok [OF now good subset_refl] by blast
  then have "CTimerUnit_CheckExpired clock notify now st = Some (n', st')" using now CheckPending_ok [OF good] by (simp add: CTimerUnit_CheckExpired_def)
  moreover have "due now st' L' c = {}" for c
  proof (cases "c \<in> fst ` set (tl_lists st)")
    case True
    then show ?thesis using c(3) by auto
  next
    case False
    have "due now st' L' c \<subseteq> due now st L c" using c(2) unfolding timer_step_def by blast
    then show ?thesis using due_other [OF timers_okD(1) [OF ok] False] by blast
  qed
  ultimately show ?thesis using c(2,4) by blast
qed

end

text \<open>What the handlers of the timers do to timers: they start and stop them.\<close>

datatype timer_act = Start nat int bool | Stop nat

fun run_acts :: "(nat \<Rightarrow> int) \<Rightarrow> timer_act list \<Rightarrow> 'a timers_scheme \<Rightarrow> 'a timers_scheme option" where
  "run_acts clock [] st = Some st"
| "run_acts clock (Start p interval loop # as) st = do { st \<leftarrow> StartTimer clock p interval loop st; run_acts clock as st }"
| "run_acts clock (Stop p # as) st = do { st \<leftarrow> StopTimer p st; run_acts clock as st }"

fun act_ok :: "nat set \<Rightarrow> (nat \<Rightarrow> timer_class) \<Rightarrow> timer_act \<Rightarrow> bool" where
  "act_ok T cls (Start p interval loop) \<longleftrightarrow> p \<in> T \<and> 0 < sint (timeout_of (cls p) interval) \<and> (loop \<longrightarrow> cls p = CCTimer_class)"
| "act_ok T cls (Stop p) \<longleftrightarrow> p \<in> T"

lemma run_acts_ok:
  "timers_ok clock T cls L st \<Longrightarrow> mono clock \<Longrightarrow> now \<le> clock (tl_reads st) \<Longrightarrow> list_all (act_ok T cls) as \<Longrightarrow>
   \<exists>st' L'. run_acts clock as st = Some st' \<and> timer_step clock T cls now st L st' L'"
proof (induction clock as st arbitrary: L rule: run_acts.induct)
  case (1 clock st)
  then show ?case using timer_step_refl [OF 1(1)] by (intro exI [of _ st] exI [of _ L]) simp
next
  case (2 clock p interval loop as st)
  have a: "p \<in> T" "0 < sint (timeout_of (cls p) interval)" "loop \<longrightarrow> cls p = CCTimer_class" using 2(5) by simp_all
  obtain s1 L1 where 1: "StartTimer clock p interval loop st = Some s1" "timer_step clock T cls now st L s1 L1"
    using StartTimer_ok [OF 2(2,3,4) a] by blast
  have "now \<le> clock (tl_reads s1)" using 2(3,4) timer_stepD [OF 1(2)] by (meson monoD order_trans)
  then have "\<exists>s2 L2. run_acts clock as s1 = Some s2 \<and> timer_step clock T cls now s1 L1 s2 L2"
    by (intro 2(1) [OF 1(1)]) (use 2(3,5) timer_stepD [OF 1(2)] in simp_all)
  then obtain s2 L2 where "run_acts clock as s1 = Some s2" "timer_step clock T cls now s1 L1 s2 L2" by blast
  then show ?case using 1 timer_step_trans [OF 1(2)] by (intro exI [of _ s2] exI [of _ L2]) simp
next
  case (3 clock p as st)
  have a: "p \<in> T" using 3(5) by simp
  obtain s1 L1 where 1: "StopTimer p st = Some s1" "timer_step clock T cls now st L s1 L1" using StopTimer_ok [OF 3(2) a] by blast
  have "now \<le> clock (tl_reads s1)" using 3(3,4) timer_stepD [OF 1(2)] by (meson monoD order_trans)
  then have "\<exists>s2 L2. run_acts clock as s1 = Some s2 \<and> timer_step clock T cls now s1 L1 s2 L2"
    by (intro 3(1) [OF 1(1)]) (use 3(3,5) timer_stepD [OF 1(2)] in simp_all)
  then obtain s2 L2 where "run_acts clock as s1 = Some s2" "timer_step clock T cls now s1 L1 s2 L2" by blast
  then show ?case using 1 timer_step_trans [OF 1(2)] by (intro exI [of _ s2] exI [of _ L2]) simp
qed

lemma TimerNotify_ok:
  assumes ok: "timers_ok clock T cls L st" and m: "mono clock" and now: "now \<le> clock (tl_reads st)" and p: "p \<in> T" and as: "\<forall>p \<in> T. list_all (act_ok T cls) (acts p)"
  shows "\<exists>st' L'. TimerNotify clock (\<lambda>p st. run_acts clock (acts p) st) p st = Some st' \<and> timer_step clock T cls now st L st' L'"
proof -
  obtain s1 L1 where 1: "run_acts clock (acts p) st = Some s1" "timer_step clock T cls now st L s1 L1" using run_acts_ok [OF ok m now] as p by blast
  have ok1: "timers_ok clock T cls L1 s1" using timer_stepD [OF 1(2)] by simp
  have now1: "now \<le> clock (tl_reads s1)" using now m timer_stepD [OF 1(2)] by (meson monoD order_trans)
  show ?thesis
  proof (cases "tl_isloop s1 p")
    case False
    then show ?thesis using 1 by (intro exI [of _ s1] exI [of _ L1]) (simp add: TimerNotify_def)
  next
    case True
    have l: "cls p = CCTimer_class" "0 < sint (timeout_of (cls p) (tl_interval s1 p))" using timers_okD(4) [OF ok1 p True] by (simp_all add: timeout_of_def)
    obtain s2 L2 where 2: "StartTimer clock p (tl_interval s1 p) True s1 = Some s2" "timer_step clock T cls now s1 L1 s2 L2"
      using StartTimer_ok [OF ok1 m now1 p l(2), of True] l(1) by blast
    then show ?thesis using 1 True timer_step_trans [OF 1(2) 2(2)] by (intro exI [of _ s2] exI [of _ L2]) (simp add: TimerNotify_def)
  qed
qed

interpretation tn: timer_client clock T cls now
    "\<lambda>L st. timers_ok clock T cls L st \<and> mono clock \<and> now \<le> clock (tl_reads st) \<and> (\<forall>p \<in> T. list_all (act_ok T cls) (acts p))"
    "TimerNotify clock (\<lambda>p st. run_acts clock (acts p) st)"
  for clock :: "nat \<Rightarrow> int" and T :: "nat set" and cls :: "nat \<Rightarrow> timer_class" and now :: int and acts :: "nat \<Rightarrow> timer_act list"
proof unfold_locales
  fix L p and st s1 :: "'a timers_scheme"
  assume g: "timers_ok clock T cls L st \<and> mono clock \<and> now \<le> clock (tl_reads st) \<and> (\<forall>p \<in> T. list_all (act_ok T cls) (acts p))" and p: "p \<in> T"
    and s: "timer_step clock T cls now st L s1 ((unlink p L)(p \<mapsto> []))"
  have s1: "timers_ok clock T cls ((unlink p L)(p \<mapsto> [])) s1" "mono clock" "now \<le> clock (tl_reads s1)"
    using g timer_stepD [OF s] by (blast, blast, meson monoD order_trans)
  obtain st' L' where st': "TimerNotify clock (\<lambda>p st. run_acts clock (acts p) st) p s1 = Some st'" "timer_step clock T cls now s1 ((unlink p L)(p \<mapsto> [])) st' L'"
    using TimerNotify_ok [OF s1 p, of acts] g by blast
  then have "now \<le> clock (tl_reads st')" using s1(2,3) timer_stepD [OF st'(2)] by (meson monoD order_trans)
  then show "\<exists>st' L'. TimerNotify clock (\<lambda>p st. run_acts clock (acts p) st) p s1 = Some st' \<and> timer_step clock T cls now s1 ((unlink p L)(p \<mapsto> [])) st' L' \<and>
      timers_ok clock T cls L' st' \<and> mono clock \<and> now \<le> clock (tl_reads st') \<and> (\<forall>p \<in> T. list_all (act_ok T cls) (acts p))"
    using st' s1(2) g timer_stepD [OF st'(2)] by blast
qed blast


text \<open>Two timers: 10 waits and is due, 11 is stopped.\<close>

definition timers1 :: timers where
  "timers1 = \<lparr>tl_links = \<lparr>lk_next = (\<lambda>x. x)(2 := 10, 10 := 2), lk_prev = (\<lambda>x. x)(2 := 10, 10 := 2)\<rparr>, tl_objexp = (\<lambda>x. 5), tl_isloop = (\<lambda>x. False),
     tl_interval = (\<lambda>x. 0), tl_class = (\<lambda>x. CTimer_class), tl_lists = [(2, 1000)], tl_pending = 1, tl_reads = 0, tl_new = 20\<rparr>"

definition lists1 :: "nat \<rightharpoonup> nat list" where
  "lists1 = [1 \<mapsto> [], 2 \<mapsto> [10], 11 \<mapsto> []]"

lemma timers1_ok: "timers_ok (\<lambda>n. 100 + int n) {10, 11} (\<lambda>x. CTimer_class) lists1 timers1"
proof -
  have "rings (tl_links timers1) lists1" by (auto simp: rings_def ring_def timers1_def lists1_def split: if_splits)
  moreover have "entry 10 lists1" unfolding entry_def by (intro disjI2 exI [of _ 2] exI [of _ "[10]"]) (simp add: lists1_def)
  moreover have "entry 11 lists1" by (simp add: entry_def lists1_def)
  ultimately have "lists_ok {10, 11} lists1 timers1"
    unfolding lists_ok_def by (auto simp: heads_def timers1_def lists1_def nodes_def split: if_splits)
  moreover have "times_ok (\<lambda>n. 100 + int n) lists1 timers1" by (auto simp: times_ok_def in_order_def timers1_def lists1_def)
  ultimately show ?thesis by (simp add: timers_ok_def timers1_def)
qed


section \<open>An interval that is not positive\<close>

text \<open>A timer that restarts itself: in its list, or out of it.\<close>

definition waits :: "nat \<Rightarrow> nat \<times> c_int \<Rightarrow> int \<Rightarrow> timer_class \<Rightarrow> nat list \<Rightarrow> 'a timers_scheme \<Rightarrow> bool" where
  "waits p lst now k xs st \<longleftrightarrow> (\<exists>L. rings (tl_links st) L \<and> L (fst lst) = Some xs \<and> (if xs = [] then L p = Some [] else xs = [p])) \<and>
     find_list (snd lst) (tl_lists st) = Some lst \<and> tl_objexp st p \<le> now \<and> tl_class st p = k \<and> fst lst \<noteq> p"

lemma waits_Disable:
  assumes "waits p lst now k xs st"
  shows "\<exists>st'. DisableTimer p st = Some st' \<and> waits p lst now k [] st'"
proof -
  obtain L where L: "rings (tl_links st) L" "L (fst lst) = Some xs" "if xs = [] then L p = Some [] else xs = [p]" and r: "fst lst \<noteq> p"
    using assms unfolding waits_def by blast
  have "entry p L"
  proof (cases "xs = []")
    case True
    then show ?thesis using L(3) by (simp add: entry_def)
  next
    case False
    then have "L (fst lst) = Some [p] \<and> p \<in> set [p]" using L(2,3) by simp
    then show ?thesis unfolding entry_def by blast
  qed
  then obtain l where l: "list_del_init p (tl_links st) = Some l" "rings l ((unlink p L)(p \<mapsto> []))" using list_del_init_ok [OF L(1)] by blast
  have "((unlink p L)(p \<mapsto> [])) (fst lst) = Some []" using L(2,3) r by (auto simp: unlink_def split: if_splits)
  then have "waits p lst now k [] (st\<lparr>tl_links := l\<rparr>)" using assms l(2) unfolding waits_def by auto
  then show ?thesis using l(1) by (simp add: DisableTimer_def)
qed

lemma waits_Attach:
  assumes w: "waits p (c, to) now k [] st" and to: "sint to \<le> 0"
  shows "\<exists>st'. AttachTimer clock p (c, to) st = Some st' \<and> waits p (c, to) now k [p] st'"
proof -
  obtain L where L: "rings (tl_links st) L" "L c = Some []" "L p = Some []" and r: "c \<noteq> p" using w unfolding waits_def by auto
  have "entry p L" using L(3) by (simp add: entry_def)
  then obtain l where l: "list_move_tail p c (tl_links st) = Some l" "rings l ((unlink p L)(c \<mapsto> [p]))"
    using list_move_tail_ok [OF L(1) _ r L(2)] by auto
  have "waits p (c, to) now k [p] (st\<lparr>tl_links := l\<rparr>)" using w l(2) unfolding waits_def by auto
  then show ?thesis using l(1) to by (simp add: AttachTimer_def)
qed

lemma waits_restart:
  assumes w: "waits p (c, to) now k [] st" and to: "sint to \<le> 0" "timeout_of k interval = to"
  shows "\<exists>st'. TimerNotify clock (\<lambda>p st. run_acts clock [Stop p, Start p interval False] st) p st = Some st' \<and> waits p (c, to) now k [p] st'"
proof -
  obtain s1 where 1: "DisableTimer p st = Some s1" "waits p (c, to) now k [] s1" using waits_Disable [OF w] by blast
  let ?s1 = "s1\<lparr>tl_isloop := (tl_isloop s1)(p := False)\<rparr>"
  define i where "i = (case k of CCTimer_class \<Rightarrow> interval | CTimer_class \<Rightarrow> interval * 1000)"
  let ?s2 = "?s1\<lparr>tl_interval := (tl_interval ?s1)(p := i), tl_isloop := (tl_isloop ?s1)(p := False)\<rparr>"
  have w2: "waits p (c, to) now k [] ?s2" using 1(2) unfolding waits_def by simp
  have k: "tl_class ?s1 p = k" and g: "GetTimerList to ?s2 = Some ((c, to), ?s2)" using w2 by (simp_all add: waits_def GetTimerList_def)
  obtain s3 where 3: "DisableTimer p ?s2 = Some s3" "waits p (c, to) now k [] s3" using waits_Disable [OF w2] by blast
  obtain s4 where 4: "AttachTimer clock p (c, to) s3 = Some s4" "waits p (c, to) now k [p] s4" using waits_Attach [OF 3(2) to(1)] by blast
  have "word_of_int i = to" using to(2) by (simp add: timeout_of_def i_def)
  then have "RegistTimer clock p i ?s2 = Some s4" using g 3(1) 4(1) by (simp add: RegistTimer_def)
  then have "StartTimer clock p interval False ?s1 = Some s4"
    using k unfolding StartTimer_def timer_StartTimer_def i_def by (cases k) simp_all
  moreover have "tl_isloop s4 p = False"
  proof -
    have "tl_isloop s3 = tl_isloop ?s2" using 3(1) by (auto simp: DisableTimer_def split: bind_splits)
    moreover have "tl_isloop s4 = tl_isloop s3" using 4(1) to(1) by (auto simp: AttachTimer_def split: bind_splits)
    ultimately show ?thesis by simp
  qed
  ultimately show ?thesis using 1(1) 4(2) by (intro exI [of _ s4]) (simp add: TimerNotify_def StopTimer_def)
qed

lemma waits_loop:
  assumes to: "sint to \<le> 0" "timeout_of k interval = to"
  shows "expired_loop notify t d n st = Some r \<Longrightarrow> notify = TimerNotify clock (\<lambda>p st. run_acts clock [Stop p, Start p interval False] st) \<Longrightarrow>
    t = now \<Longrightarrow> d = c \<Longrightarrow> waits p (c, to) now k [p] st \<Longrightarrow> False"
proof (induction notify t d n st r rule: expired_loop.raw_induct [rotated 1, consumes 1, case_names step])
  case (step loop notify t d n st r)
  note w = step(6)
  obtain L where L: "rings (tl_links st) L" "L c = Some [p]" and e: "tl_objexp st p \<le> now" using w unfolding waits_def by auto
  obtain s1 where s1: "DisableTimer p st = Some s1" "waits p (c, to) now k [] s1" using waits_Disable [OF w] by blast
  obtain s2 where s2: "notify p s1 = Some s2" "waits p (c, to) now k [p] s2" using waits_restart [OF s1(2) to] step(3) by blast
  have "loop notify t d (n + 1) s2 = Some r"
    using step(2) ring_ends [OF L] e s1(1) s2(1) step(4,5) by simp
  then show ?case using step(1) step(3-5) s2(2) by blast
qed

text \<open>C36: a timer whose interval is not positive hangs the server. When a timer that restarts itself (as the timer of the statistics does, with the interval
  that a packet sets) is due, is alone in its list, and its interval as an \<open>int\<close> of milliseconds is zero or negative, \<open>CheckExpired\<close> does not
  return: \<open>AttachTimer\<close> leaves the old expiry in place, so the timer is due again at once, for ever.\<close>

theorem zero_interval_hangs:
  assumes "rings (tl_links st) L" "L c = Some [p]" "find_list to (tl_lists st) = Some (c, to)" "to = timeout_of (tl_class st p) interval" "sint to \<le> 0"
    and "tl_objexp st p \<le> now" "now \<noteq> 0"
  shows "CTimerList_CheckExpired clock (TimerNotify clock (\<lambda>p st. run_acts clock [Stop p, Start p interval False] st)) now c st = None"
proof -
  have "c \<noteq> p" using ringsD(1) [OF assms(1,2)] by (auto simp: ring_def)
  then have w: "waits p (c, to) now (tl_class st p) [p] st" using assms(1-3,6) unfolding waits_def by auto
  show ?thesis
  proof (rule ccontr)
    assume "CTimerList_CheckExpired clock (TimerNotify clock (\<lambda>p st. run_acts clock [Stop p, Start p interval False] st)) now c st \<noteq> None"
    then obtain r where "expired_loop (TimerNotify clock (\<lambda>p st. run_acts clock [Stop p, Start p interval False] st)) now c 0 st = Some r"
      using assms(7) by (auto simp: CTimerList_CheckExpired_def)
    then show False using waits_loop [OF assms(5) assms(4) [symmetric] _ refl refl refl w] by blast
  qed
qed

theorem zero_interval_hangs_witness:
  "CTimerList_CheckExpired (\<lambda>n. 100 + int n) (TimerNotify (\<lambda>n. 100 + int n) (\<lambda>p st. run_acts (\<lambda>n. 100 + int n) [Stop p, Start p 0 False] st)) 100 2
     (timers1\<lparr>tl_lists := [(2, 0)]\<rparr>) = None"
  by (rule zero_interval_hangs [where L = lists1 and p = 10 and to = 0])
    (use lists_okD(1) [OF timers_okD(1) [OF timers1_ok]] in \<open>simp_all add: timers1_def lists1_def timeout_of_def\<close>)

end
