(* ===== verification/Startup.thy ===== *)
theory Startup
  imports Samples SocketServer TimerList
begin

text \<open>
  \<open>Server/Main.cpp\<close>: the start of the process, from \<open>main\<close> to the event loop, with \<open>CCReactor::Init\<close> and \<open>RegistServer\<close>. Here the parts that the
  other theories model come together: the poller unit, the lists of timers, the listening socket, the options read from the configuration file,
  the connection to the statistics server and the store in shared memory. What the system answers to the start is the record \<open>boot\<close>.
  Signals, the random seed and the log files have no effect on this state.
\<close>

section \<open>State\<close>

text \<open>The three timers of the server are the objects at the addresses \<open>1\<close>, \<open>2\<close> and \<open>3\<close>; \<open>ps_nId\<close> is their member \<open>m_nId\<close>.\<close>

abbreviation TIME_CHECK :: nat where "TIME_CHECK \<equiv> 1"
abbreviation OFFLINE_CHECK :: nat where "OFFLINE_CHECK \<equiv> 2"
abbreviation FLUSH_CHECK :: nat where "FLUSH_CHECK \<equiv> 3"

definition server_timers :: "nat set" where
  "server_timers = {TIME_CHECK, OFFLINE_CHECK, FLUSH_CHECK}"

record process = timers +
  ps_nId :: "nat \<Rightarrow> int"
  ps_unit :: CPollerUnit
  ps_pool :: CMemPool
  ps_listener :: "CCSocketServer option"
  ps_server :: UserServer

text \<open>The results of the system calls of the start: \<open>calloc\<close> and \<open>epoll_create\<close>, \<open>epoll_ctl\<close>, the calls of \<open>tcp_bind\<close>, the memcached clients, the calls of
  \<open>connect\<close> to the statistics server, and those of the shared memory theory; \<open>bt_raw\<close> is the memory in which the object of that connection is created.\<close>

record 'o boot =
  bt_table :: bool
  bt_events :: bool
  bt_epfd :: int
  bt_epoll :: "nat \<Rightarrow> bool"
  bt_pton :: "string \<Rightarrow> int"
  bt_socket :: int
  bt_bind :: int
  bt_listen :: int
  bt_env :: env
  bt_memcached :: "byte list \<Rightarrow> bool"
  bt_raw :: CBackServer
  bt_connect :: connect_calls
  bt_shm :: "'o shm_os"
  bt_init0 :: int
  bt_mem :: "int \<Rightarrow> CHashMap"
  bt_clock :: "nat \<Rightarrow> int"

text \<open>The process is aborted, ends with a status, or enters the event loop.\<close>

datatype main_result = Aborted | Exited int | Looping process

abbreviation MAX_POLLER :: int where "MAX_POLLER \<equiv> 102400"
abbreviation config_ini :: "byte list" where "config_ini \<equiv> bytes_of_string ''../conf/config.ini''"
abbreviation listener_at :: nat where "listener_at \<equiv> 1"

section \<open>The reactor\<close>

text \<open>\<open>CCReactor::Init\<close>; the result is \<open>Aborted\<close> or the process.\<close>

definition reactor_Init :: "'o boot \<Rightarrow> int \<Rightarrow> process \<Rightarrow> process option option" where
  "reactor_Init b maxpoller st =
     do {
       (ret, u) \<leftarrow> InitializePollerUnit (bt_table b) (bt_events b) (bt_epfd b) (CPollerUnit_new maxpoller);
       if ret < 0 then Some None
       else do { st \<leftarrow> CTimerUnit_new (st\<lparr>ps_unit := u, ps_pool := CMemPool_new\<rparr>); Some (Some st) }
     }"

definition RegistServer :: "'o boot \<Rightarrow> CCSocketServer \<Rightarrow> process \<Rightarrow> (int \<times> process) option" where
  "RegistServer b srv st =
     (let (ret, srv, closed) = ss_Init (bt_pton b) (bt_socket b) (bt_bind b) (bt_listen b) srv;
          u = (ps_unit st)\<lparr>pu_closed := pu_closed (ps_unit st) @ closed\<rparr>
      in if ret \<noteq> 0 then Some (-1, st\<lparr>ps_unit := u, ps_listener := Some srv\<rparr>)
         else do {
           (ret, srv, u) \<leftarrow> AttachPoller (bt_epoll b) listener_at True srv u;
           Some (ret, st\<lparr>ps_unit := u, ps_listener := Some srv\<rparr>)
         })"

section \<open>Configuration\<close>

definition readSysCfg :: "nat \<Rightarrow> (char \<times> byte list) list \<Rightarrow> env \<Rightarrow> Options \<Rightarrow> (int \<times> Options) option" where
  "readSysCfg argc os e opt =
     (let (ret, opt) = parse_args argc os opt in
      if ret \<noteq> 0 then Some (-1, opt)
      else do {
        (ret, opt) \<leftarrow> read_conf e config_ini opt;
        if ret \<noteq> 0 then Some (-2, opt)
        else do { (_, opt) \<leftarrow> ReadRandomConfig e config_ini opt; Some (0, opt) }
      })"

text \<open>\<open>CBackServer::InitConnect\<close>, the last call of \<open>Options::InitBackServer\<close>, which ignores its result: when the connection is there at once the
  first report is sent.\<close>

definition InitConnect :: "connect_calls \<Rightarrow> CStat \<Rightarrow> Options \<Rightarrow> (int \<times> Options) option" where
  "InitConnect c s opt =
     (let (ret, _) = tcp_connect c in
      if ret < 0 then Some (-1, opt)
      else do { opt \<leftarrow> (if ret = 0 then bs_OnConnected s opt else Some opt); Some (0, opt) })"

definition main_InitBackServer :: "'o boot \<Rightarrow> CStat \<Rightarrow> Options \<Rightarrow> (int \<times> Options) option" where
  "main_InitBackServer b s opt =
     do {
       (ret, opt) \<leftarrow> InitMeCached (bt_memcached b) (bt_env b) config_ini opt;
       if ret \<noteq> 0 then Some (-1, opt)
       else do {
         (ret, opt) \<leftarrow> InitBackServer (bt_raw b) (bt_env b) config_ini opt;
         if ret \<noteq> 0 then Some (-2, opt)
         else do { (_, opt) \<leftarrow> InitConnect (bt_connect b) s opt; Some (0, opt) }
       }
     }"

section \<open>The timers of the server\<close>

text \<open>\<open>Options::InitTimer\<close> on the lists of timers; \<open>InitTimer\<close> is the same on the state of the options.\<close>

definition process_InitTimer :: "(nat \<Rightarrow> int) \<Rightarrow> process \<Rightarrow> process option" where
  "process_InitTimer clock st =
     do {
       let opt = w_opt (ps_server st);
       st \<leftarrow> StartTimer clock TIME_CHECK (sint (m_nTJInteval opt)) False (st\<lparr>ps_nId := (ps_nId st)(TIME_CHECK := 1)\<rparr>);
       st \<leftarrow> StartTimer clock FLUSH_CHECK FLUSH_CHECK_TIME False (st\<lparr>ps_nId := (ps_nId st)(FLUSH_CHECK := 3)\<rparr>);
       st \<leftarrow> StartTimer clock OFFLINE_CHECK TIME_INTEVAL False (st\<lparr>ps_nId := (ps_nId st)(OFFLINE_CHECK := 2)\<rparr>);
       Some (st\<lparr>ps_server := (ps_server st)\<lparr>w_opt := InitTimer opt\<rparr>\<rparr>)
     }"

section \<open>main\<close>

definition main :: "'o boot \<Rightarrow> nat \<Rightarrow> (char \<times> byte list) list \<Rightarrow> process \<Rightarrow> 'o \<Rightarrow> main_result option" where
  "main b argc os st s =
     do {
       r \<leftarrow> reactor_Init b MAX_POLLER st;
       case r of None \<Rightarrow> Some Aborted
       | Some st \<Rightarrow> do {
           let w = ps_server st;
           (ret, opt) \<leftarrow> readSysCfg argc os (bt_env b) (Options_new (w_opt w));
           if ret < 0 then Some (Exited (-1))
           else do {
             (ret, st) \<leftarrow> RegistServer b (CCSocketServer_new ''0.0.0.0'' (listen_port opt) 256 256) st;
             if ret = -1 then Some (Exited (-1))
             else do {
               (ret, opt) \<leftarrow> main_InitBackServer b (w_stat w) opt;
               if ret < 0 then Some (Exited (-1))
               else do {
                 (ret, w, s) \<leftarrow> InitSHM (bt_shm b) (bt_init0 b) (bt_mem b) (w\<lparr>w_opt := opt\<rparr>) s;
                 if ret \<noteq> 0 then Some (Exited (-1))
                 else do { st \<leftarrow> process_InitTimer (bt_clock b) (st\<lparr>ps_server := w\<rparr>); Some (Looping st) }
               }
             }
           }
         }
     }"

section \<open>The start succeeds\<close>

text \<open>What the configuration keeps of the options: the settings of the command line and the maps.\<close>

definition same_settings :: "Options \<Rightarrow> Options \<Rightarrow> bool" where
  "same_settings opt opt' \<longleftrightarrow> listen_port opt' = listen_port opt \<and> server_id opt' = server_id opt \<and> m_nSHMNodeCount opt' = m_nSHMNodeCount opt \<and>
     m_nTJInteval opt' = m_nTJInteval opt \<and> (options_ok opt \<longrightarrow> options_ok opt')"

lemma same_settings_trans: "same_settings a b \<Longrightarrow> same_settings b c \<Longrightarrow> same_settings a c"
  by (simp add: same_settings_def)

lemma parse_opts_ok:
  "parse_opts os opt = (0, opt') \<Longrightarrow> 0 \<le> sint (m_nSHMNodeCount opt) \<Longrightarrow> options_ok opt \<Longrightarrow>
   0 \<le> sint (m_nSHMNodeCount opt') \<and> options_ok opt' \<and> m_nTJInteval opt' = m_nTJInteval opt"
proof (induction os opt rule: parse_opts.induct)
  case (2 c optarg os opt)
  then show ?case by (auto simp: Let_def options_ok_def split: if_splits)
qed (auto split: if_splits)

lemma ini_ReadString_total: "ini_file text ini \<Longrightarrow> key \<noteq> [] \<Longrightarrow> \<exists>v. ini_ReadString ini sec key d = Some v"
  using GetItemValue_ok [of "text" ini "bytes_of_string key" 1024 "bytes_of_string sec"]
  by (auto simp: ini_ReadString_def IniFile_ReadString_def bytes_of_string_def)

text \<open>A file that exists is opened, and every key is read.\<close>

lemma IniFile_opened:
  assumes "env_ini e file = Some f"
  shows "m_bIsOpen (IniFile_open e file)" "key \<noteq> [] \<Longrightarrow> \<exists>v. ini_ReadString (IniFile_open e file) sec key d = Some v"
    "key \<noteq> [] \<Longrightarrow> \<exists>w. ini_ReadInt (IniFile_open e file) sec key n = Some w"
proof -
  have F: "ini_file f (IniFile_open e file)" unfolding IniFile_open_def by (rule OpenFile_ok) (rule assms)
  then show "m_bIsOpen (IniFile_open e file)" by (simp add: ini_file_def)
  show "key \<noteq> [] \<Longrightarrow> \<exists>v. ini_ReadString (IniFile_open e file) sec key d = Some v" by (rule ini_ReadString_total [OF F])
  show "key \<noteq> [] \<Longrightarrow> \<exists>w. ini_ReadInt (IniFile_open e file) sec key n = Some w" by (rule ini_ReadInt_total [OF F])
qed

lemma read_conf_ok:
  assumes "env_ini e file = Some f"
  shows "\<exists>opt'. read_conf e file opt = Some (0, opt') \<and> same_settings opt opt'"
proof -
  note I = IniFile_opened [OF assms]
  obtain dir num sz lev where "ini_ReadString (IniFile_open e file) ''LOG'' ''LOGDIR'' ''./'' = Some dir"
    "ini_ReadInt (IniFile_open e file) ''LOG'' ''LOGNUM'' 10 = Some num"
    "ini_ReadInt (IniFile_open e file) ''LOG'' ''LOGSIZE'' (10 * 1024 * 1024) = Some sz"
    "ini_ReadInt (IniFile_open e file) ''LOG'' ''LOGLEVEL'' 0 = Some lev"
    using I(2) [of "''LOGDIR''"] I(3) [of "''LOGNUM''"] I(3) [of "''LOGSIZE''"] I(3) [of "''LOGLEVEL''"] by (metis list.distinct(1))
  then show ?thesis using I(1) by (simp add: read_conf_def same_settings_def options_ok_def)
qed

lemma ReadRandomConfig_same: "\<exists>r opt'. ReadRandomConfig e file opt = Some (r, opt') \<and> same_settings opt opt'"
proof -
  obtain r opt' where r: "ReadRandomConfig e file opt = Some (r, opt')" using ReadRandomConfig_ok by blast
  then show ?thesis
    by (auto simp: ReadRandomConfig_def Let_def same_settings_def options_ok_def split: if_splits bind_splits)
qed

lemma readSysCfg_ok:
  assumes "parse_args argc os (Options_new opt) = (0, opt1)" "env_ini e config_ini = Some f"
  shows "\<exists>opt2. readSysCfg argc os e (Options_new opt) = Some (0, opt2) \<and> same_settings opt1 opt2 \<and>
    0 \<le> sint (m_nSHMNodeCount opt2) \<and> options_ok opt2 \<and> m_nTJInteval opt2 = 60"
proof -
  have o: "0 \<le> sint (m_nSHMNodeCount opt1)" "options_ok opt1" "m_nTJInteval opt1 = 60"
    using parse_opts_ok [of os "Options_new opt" opt1] assms(1) options_ok_new [of opt]
    by (auto simp: parse_args_def Options_new_def split: if_splits)
  obtain opt' where 1: "read_conf e config_ini opt1 = Some (0, opt')" "same_settings opt1 opt'" using read_conf_ok [OF assms(2)] by blast
  obtain r opt2 where 2: "ReadRandomConfig e config_ini opt' = Some (r, opt2)" "same_settings opt' opt2" using ReadRandomConfig_same by blast
  have s: "same_settings opt1 opt2" by (rule same_settings_trans [OF 1(2) 2(2)])
  have "readSysCfg argc os e (Options_new opt) = Some (0, opt2)" using assms(1) 1(1) 2(1) by (simp add: readSysCfg_def)
  then show ?thesis using s o by (intro exI [of _ opt2]) (simp add: same_settings_def)
qed

lemma InitConnect_ok:
  assumes "m_pTJServer opt = Some srv"
  shows "\<exists>r opt'. InitConnect c s opt = Some (r, opt') \<and> same_settings opt opt'"
proof -
  let ?opt = "opt\<lparr>m_pTJServer := Some (srv\<lparr>m_bIsConnected := True\<rparr>)\<rparr>"
  obtain b where b: "ReportData s ?opt = Some (?opt\<lparr>m_pTJServer := Some b\<rparr>)" using ReportData_connected [of ?opt] by auto
  then have "bs_OnConnected s opt = Some (opt\<lparr>m_pTJServer := Some (b\<lparr>bs_timer := CCTimer_StopTimer (bs_timer b)\<rparr>)\<rparr>)"
    using assms by (simp add: bs_OnConnected_def)
  then show ?thesis by (auto simp: InitConnect_def Let_def same_settings_def split: prod.split)
qed

lemma main_InitBackServer_ok:
  assumes "env_ini (bt_env b) config_ini = Some f" "\<forall>a. bt_memcached b a"
  shows "\<exists>opt'. main_InitBackServer b s opt = Some (0, opt') \<and> same_settings opt opt'"
proof -
  note I = IniFile_opened [OF assms(1)]
  obtain a1 a2 where a: "ini_ReadString (IniFile_open (bt_env b) config_ini) ''MEMCACHED'' ''SERVER_MC'' ''0.0.0.0:0'' = Some a1"
    "ini_ReadString (IniFile_open (bt_env b) config_ini) ''MEMCACHED'' ''ONLINE_MC'' ''0.0.0.0:0'' = Some a2"
    using I(2) [of "''SERVER_MC''"] I(2) [of "''ONLINE_MC''"] by (metis list.distinct(1))
  obtain ip port sw where t: "ini_ReadString (IniFile_open (bt_env b) config_ini) ''TJSvr'' ''HOST'' ''0.0.0.0'' = Some ip"
    "ini_ReadInt (IniFile_open (bt_env b) config_ini) ''TJSvr'' ''PORT'' 0 = Some port"
    "ini_ReadInt (IniFile_open (bt_env b) config_ini) ''TJSvr'' ''SWITCH'' 0 = Some sw"
    using I(2) [of "''HOST''"] I(3) [of "''PORT''"] I(3) [of "''SWITCH''"] by (metis list.distinct(1))
  let ?opt = "opt\<lparr>strServerMcAddr := a1, strOnlineMcAddr := a2\<rparr>"
  let ?opt2 = "?opt\<lparr>m_strTjIp := ip, m_nTjPort := port, m_nTJSwitch := sw, m_pTJServer := Some (CBackServer_new (bt_raw b) (bytes_of_string ''TJServer''))\<rparr>"
  have 1: "InitMeCached (bt_memcached b) (bt_env b) config_ini opt = Some (0, ?opt)" using I(1) a assms(2) by (simp add: InitMeCached_def)
  have 2: "InitBackServer (bt_raw b) (bt_env b) config_ini ?opt = Some (0, ?opt2)" using I(1) t by (simp add: InitBackServer_def)
  obtain r opt' where 3: "InitConnect (bt_connect b) s ?opt2 = Some (r, opt')" "same_settings ?opt2 opt'"
    using InitConnect_ok [of ?opt2 "CBackServer_new (bt_raw b) (bytes_of_string ''TJServer'')"] by fastforce
  have "same_settings opt ?opt2" by (simp add: same_settings_def options_ok_def)
  then show ?thesis using 1 2 3 same_settings_trans by (intro exI [of _ opt']) (simp add: main_InitBackServer_def)
qed

text \<open>The process before \<open>main\<close>: the timers are on no list and nothing is counted. (The flags \<open>_isloop\<close> are set by \<open>StartTimer\<close> before they are read.)\<close>

definition fresh_process :: "process \<Rightarrow> bool" where
  "fresh_process st \<longleftrightarrow> rings (tl_links st) [TIME_CHECK \<mapsto> [], OFFLINE_CHECK \<mapsto> [], FLUSH_CHECK \<mapsto> []] \<and> 3 < tl_new st \<and>
     tl_class st = (\<lambda>_. CTimer_class) \<and> (\<forall>p \<in> server_timers. \<not> tl_isloop st p) \<and> w_stat (ps_server st) = CStat_new"

abbreviation process_timers :: "(nat \<Rightarrow> int) \<Rightarrow> (nat \<rightharpoonup> nat list) \<Rightarrow> process \<Rightarrow> bool" where
  "process_timers clock L st \<equiv> timers_ok clock server_timers (\<lambda>_. CTimer_class) L st"

lemma fresh_unit_ok:
  assumes st: "fresh_process st" and l: "INIT_LIST_HEAD (tl_new st) (tl_links st) = Some l"
    "rings l ([TIME_CHECK \<mapsto> [], OFFLINE_CHECK \<mapsto> [], FLUSH_CHECK \<mapsto> []](tl_new st \<mapsto> []))"
  shows "process_timers clock ([TIME_CHECK \<mapsto> [], OFFLINE_CHECK \<mapsto> [], FLUSH_CHECK \<mapsto> []](tl_new st \<mapsto> []))
    (st\<lparr>tl_links := l, tl_new := Suc (tl_new st), tl_pending := tl_new st, tl_lists := []\<rparr>)" (is "process_timers clock ?L ?st")
proof -
  have n: "3 < tl_new st" "tl_class st = (\<lambda>_. CTimer_class)" "\<forall>p \<in> server_timers. \<not> tl_isloop st p" using st unfolding fresh_process_def by blast+
  have "lists_ok server_timers ?L ?st"
    unfolding lists_ok_def
  proof (intro conjI allI impI)
    show "rings (tl_links ?st) ?L" using l(2) by simp
    show "entry p ?L" if "p \<in> server_timers" for p using that n(1) by (auto simp: server_timers_def entry_def)
    show "p \<notin> set (heads ?st)" if "p \<in> server_timers" for p using that n(1) by (auto simp: server_timers_def heads_def)
    show "a \<in> set (heads ?st) \<union> server_timers" if "?L a \<noteq> None" for a using that by (auto simp: server_timers_def heads_def split: if_splits)
    show "p < tl_new ?st" if "p \<in> nodes ?L" for p using that n(1) by (auto simp: nodes_def split: if_splits)
  qed (use n(1) in \<open>auto simp: heads_def server_timers_def\<close>)
  then show ?thesis using n(2,3) by (simp add: timers_ok_def times_ok_def)
qed

lemma reactor_Init_ok:
  assumes st: "fresh_process st" and b: "bt_table b" "bt_events b" "0 < bt_epfd b"
  shows "\<exists>st' L. reactor_Init b MAX_POLLER st = Some (Some st') \<and> process_timers clock L st' \<and> unit_ok (ps_unit st') \<and>
    (\<forall>p i. \<not> attached (ps_unit st') p i) \<and> pu_freeSlotList (ps_unit st') = 0 \<and> pu_slot 0 (ps_unit st') = Some \<lparr>es_seq = 0, es_poller = None, es_freeList = 1\<rparr> \<and>
    seq_room (ps_unit st') \<and> ps_server st' = ps_server st \<and> (\<forall>c. due now st' L c = {})"
proof -
  define u where "u = \<lparr>pu_table = map (\<lambda>i. \<lparr>es_seq = 0, es_poller = None, es_freeList = (if i < MAX_POLLER - 1 then i + 1 else NULL_SLOT)\<rparr>) [0..MAX_POLLER - 1],
    pu_maxPollers = MAX_POLLER, pu_usedPollers = 0, pu_freeSlotList = 0, pu_epfd = bt_epfd b, pu_ctls = [], pu_closed = []\<rparr>"
  have u: "InitializePollerUnit (bt_table b) (bt_events b) (bt_epfd b) (CPollerUnit_new MAX_POLLER) = Some (0, u)"
    using b by (simp add: InitializePollerUnit_def CPollerUnit_new_def u_def)
  have slot: "pu_slot 0 u = Some \<lparr>es_seq = 0, es_poller = None, es_freeList = 1\<rparr>" by (simp add: pu_slot_def u_def)
  have room: "seq_room u" by (auto simp: seq_room_def pu_slot_def u_def)
  let ?L = "[TIME_CHECK \<mapsto> [], OFFLINE_CHECK \<mapsto> [], FLUSH_CHECK \<mapsto> []]"
  have n: "rings (tl_links st) ?L" "tl_new st \<notin> nodes ?L" "tl_new st \<noteq> 0" using st by (auto simp: fresh_process_def nodes_def split: if_splits)
  obtain l where l: "INIT_LIST_HEAD (tl_new st) (tl_links st) = Some l" "rings l (?L(tl_new st \<mapsto> []))" using INIT_LIST_HEAD_ok [OF n] by blast
  let ?st = "st\<lparr>ps_unit := u, ps_pool := CMemPool_new\<rparr>"
  let ?st' = "?st\<lparr>tl_links := l, tl_new := Suc (tl_new ?st), tl_pending := tl_new ?st, tl_lists := []\<rparr>"
  have "fresh_process ?st" using st by (simp add: fresh_process_def)
  then have "process_timers clock (?L(tl_new ?st \<mapsto> [])) ?st'" by (rule fresh_unit_ok) (use l in simp_all)
  moreover have "reactor_Init b MAX_POLLER st = Some (Some ?st')" using u l(1) by (simp add: reactor_Init_def CTimerUnit_new_def CTimerList_new_def)
  moreover have "unit_ok u" "\<not> attached u p i" for p i using InitializePollerUnit_ok [OF u] by simp_all
  moreover have "pu_freeSlotList u = 0" by (simp add: u_def)
  moreover have "due now ?st' (?L(tl_new ?st \<mapsto> [])) c = {}" for c by (simp add: due_def)
  ultimately show ?thesis using slot room by (intro exI [of _ ?st'] exI [of _ "?L(tl_new ?st \<mapsto> [])"]) simp
qed

text \<open>The listening socket is attached.\<close>

lemma RegistServer_ok:
  assumes u: "unit_ok (ps_unit st)" "\<forall>p i. \<not> attached (ps_unit st) p i" "pu_freeSlotList (ps_unit st) = 0"
      "pu_slot 0 (ps_unit st) = Some \<lparr>es_seq = 0, es_poller = None, es_freeList = 1\<rparr>"
      "seq_room (ps_unit st)"
    and b: "\<forall>n. bt_epoll b n" "0 < bt_pton b ''0.0.0.0''" "0 \<le> bt_socket b" "bt_bind b \<noteq> -1" "bt_listen b \<noteq> -1"
  shows "\<exists>srv u'. RegistServer b (CCSocketServer_new ''0.0.0.0'' port 256 256) st = Some (0, st\<lparr>ps_unit := u', ps_listener := Some srv\<rparr>) \<and>
    unit_ok u' \<and> attached u' listener_at (epslot srv) \<and> netfd srv = bt_socket b \<and> newEvents srv = EPOLLIN \<and> ss_bindPort srv = port"
proof -
  let ?srv0 = "CCSocketServer_new ''0.0.0.0'' port 256 256" and ?u = "(ps_unit st)\<lparr>pu_closed := pu_closed (ps_unit st) @ []\<rparr>"
  define srv1 where "srv1 = EnableInput (?srv0\<lparr>netfd := bt_socket b\<rparr>)"
  have "tcp_bind ''0.0.0.0'' (bt_pton b) (bt_socket b) (bt_bind b) (bt_listen b) = (bt_socket b, [])"
    using b(2-5) by (simp add: tcp_bind_def)
  then have i: "ss_Init (bt_pton b) (bt_socket b) (bt_bind b) (bt_listen b) ?srv0 = (0, srv1, [])"
    using b(3) by (simp add: ss_Init_def srv1_def CCSocketServer_new_def CPollerObject.defs)
  have s: "netfd srv1 = bt_socket b" "newEvents srv1 = EPOLLIN" "epslot srv1 = NULL_SLOT" "ownerUnit srv1 = False" "ss_bindPort srv1 = port"
    by (simp_all add: srv1_def EnableInput_def CCSocketServer_new_def CPollerObject_new_def CPollerObject.defs)
  have o: "obj_ok ?u listener_at srv1" using u(2) s(3) by (simp add: obj_ok_def)
  have pu: "pu_slot i (v\<lparr>pu_closed := c\<rparr>) = pu_slot i v" "pu_slot i (v\<lparr>pu_usedPollers := n, pu_freeSlotList := f\<rparr>) = pu_slot i v" for i v c n f
    by (simp_all add: pu_slot_def)
  have u0: "unit_ok ?u" "seq_room ?u" "pu_freeSlotList ?u = 0" "pu_slot 0 ?u = Some \<lparr>es_seq = 0, es_poller = None, es_freeList = 1\<rparr>"
    using u(1,3-5) by (simp_all add: seq_room_def pu)
  obtain r srv u' where A: "AttachPoller (bt_epoll b) listener_at True srv1 ?u = Some (r, srv, u')" "unit_ok u'" "obj_ok u' listener_at srv"
      "netfd srv = netfd srv1" "newEvents srv = newEvents srv1" "r = 0 \<longrightarrow> epslot srv \<noteq> NULL_SLOT"
    using AttachPoller_ok [OF u0(1) o u0(2), of True "bt_epoll b"] by auto
  let ?u1 = "?u\<lparr>pu_usedPollers := pu_usedPollers ?u + 1, pu_freeSlotList := 1\<rparr>"
  have s1: "pu_slot 0 ?u1 = Some \<lparr>es_seq = 0, es_poller = None, es_freeList = 1\<rparr>" using u0(4) by (simp only: pu)
  have "r = 0" using A(1) u0(3,4) s s1 b(1,3) pu_slot_set [OF s1, of 0]
    by (auto simp: AttachPoller_def AllocEpollSlot_def Epctl_def Let_def split: bind_splits)
  moreover have "attached u' listener_at (epslot srv)" using A(3,6) \<open>r = 0\<close> by (simp add: obj_ok_def)
  moreover have "ss_bindPort srv = port"
    using AttachPoller_more [OF A(1)] s(5) by (cases srv; cases srv1; simp)
  moreover have "RegistServer b ?srv0 st = Some (r, st\<lparr>ps_unit := u', ps_listener := Some srv\<rparr>)"
    using i A(1) by (simp add: RegistServer_def)
  ultimately show ?thesis using A(2,4,5) s(1,2) by (intro exI [of _ srv] exI [of _ u']) simp
qed

text \<open>A timer waits in a list with a timeout. When it is started the others keep waiting, and no timer becomes due.\<close>

definition armed_for :: "nat \<Rightarrow> c_int \<Rightarrow> (nat \<rightharpoonup> nat list) \<Rightarrow> process \<Rightarrow> bool" where
  "armed_for p to L st \<longleftrightarrow> (\<exists>c. (c, to) \<in> set (tl_lists st) \<and> armed p c L)"

definition scheduled :: "(nat \<Rightarrow> int) \<Rightarrow> int \<Rightarrow> nat \<Rightarrow> c_int \<Rightarrow> process \<Rightarrow> bool" where
  "scheduled clock now p to st \<longleftrightarrow> (\<exists>L c xs. rings (tl_links st) L \<and> (c, to) \<in> set (tl_lists st) \<and> L c = Some xs \<and> p \<in> set xs \<and>
     now < tl_objexp st p \<and> tl_objexp st p \<le> clock (tl_reads st) + sint to * 1000)"

lemma scheduledI:
  assumes ok: "process_timers clock L st" and a: "armed_for p to L st" and d: "\<forall>c. due now st L c = {}"
  shows "scheduled clock now p to st"
proof -
  obtain c xs where c: "(c, to) \<in> set (tl_lists st)" "L c = Some xs" "p \<in> set xs" using a by (auto simp: armed_for_def armed_def)
  have "in_order clock to st xs" using timers_okD(2) [OF ok] c unfolding times_ok_def by blast
  then have "tl_objexp st p \<le> clock (tl_reads st) + sint to * 1000" using c(3) unfolding in_order_def by blast
  moreover have "p \<notin> due now st L c" using d by blast
  then have "now < tl_objexp st p" using c by (auto simp: due_def not_le)
  ultimately show ?thesis using lists_okD(1) [OF timers_okD(1) [OF ok]] c unfolding scheduled_def by blast
qed

lemma start_server_timer:
  assumes ok: "process_timers clock L st" and m: "mono clock" and now: "now \<le> clock (tl_reads st)" and p: "p \<in> server_timers"
    and t: "0 < sint (word_of_int (sec * 1000) :: c_int)"
  shows "\<exists>st' L'. StartTimer clock p sec False st = Some st' \<and> timer_step clock server_timers (\<lambda>_. CTimer_class) now st L st' L' \<and>
    armed_for p (word_of_int (sec * 1000)) L' st' \<and> (\<forall>q to. q \<noteq> p \<longrightarrow> armed_for q to L st \<longrightarrow> armed_for q to L' st') \<and> timers.more st' = timers.more st"
proof -
  have t': "0 < sint (timeout_of CTimer_class sec)" using t by (simp add: timeout_of_def)
  obtain st' L' where r: "StartTimer clock p sec False st = Some st'" "timer_step clock server_timers (\<lambda>_. CTimer_class) now st L st' L'"
      "\<exists>c. (c, timeout_of CTimer_class sec) \<in> set (tl_lists st') \<and> armed p c L'" "keeps p L L'"
    using StartTimer_ok [OF ok m now p t', of False] by auto
  have "armed_for q to L' st'" if "q \<noteq> p" "armed_for q to L st" for q to
    using that r(2,4) unfolding armed_for_def keeps_def timer_step_def by blast
  then show ?thesis using r StartTimer_frame [OF r(1)] by (intro exI [of _ st'] exI [of _ L']) (simp add: armed_for_def timeout_of_def)
qed

lemma process_timers_fields [simp]:
  "process_timers clock L (st\<lparr>ps_nId := i\<rparr>) = process_timers clock L st" "process_timers clock L (st\<lparr>ps_server := w\<rparr>) = process_timers clock L st"
  "process_timers clock L (st\<lparr>ps_unit := u, ps_listener := l\<rparr>) = process_timers clock L st"
  "armed_for p to L (st\<lparr>ps_nId := i\<rparr>) = armed_for p to L st" "armed_for p to L (st\<lparr>ps_server := w\<rparr>) = armed_for p to L st"
  "due now (st\<lparr>ps_nId := i\<rparr>) L = due now st L" "due now (st\<lparr>ps_server := w\<rparr>) L = due now st L" "due now (st\<lparr>ps_unit := u, ps_listener := l\<rparr>) L = due now st L"
  "process_timers clock L (st\<lparr>ps_unit := u, ps_listener := l, ps_server := w\<rparr>) = process_timers clock L st"
  "due now (st\<lparr>ps_unit := u, ps_listener := l, ps_server := w\<rparr>) L = due now st L"
  by (simp_all add: timers_ok_def lists_ok_def times_ok_def in_order_def heads_def armed_for_def due_def fun_eq_iff)

lemma process_more:
  "timers.more st = timers.more st' \<Longrightarrow> ps_nId st = ps_nId st' \<and> ps_unit st = ps_unit st' \<and> ps_listener st = ps_listener st' \<and> ps_server st = ps_server st'"
  for st st' :: process
  by (cases st; cases st') simp

text \<open>What holds from the start on: the timers are well formed, know their handler, and every one of them waits, the two with a fixed interval with
  that interval.\<close>

definition own_timeout :: "nat \<Rightarrow> c_int \<Rightarrow> bool" where
  "own_timeout p to \<longleftrightarrow> (p = OFFLINE_CHECK \<longrightarrow> to = 301000) \<and> (p = FLUSH_CHECK \<longrightarrow> to = 601000)"

definition process_ok :: "(nat \<Rightarrow> int) \<Rightarrow> (nat \<rightharpoonup> nat list) \<Rightarrow> process \<Rightarrow> bool" where
  "process_ok clock L st \<longleftrightarrow> process_timers clock L st \<and> (\<forall>p \<in> server_timers. ps_nId st p = int p) \<and>
     (\<forall>p \<in> server_timers. \<exists>to. own_timeout p to \<and> armed_for p to L st)"

lemma process_InitTimer_ok:
  assumes ok: "process_timers clock L st" and m: "mono clock" and now: "now \<le> clock (tl_reads st)" and i: "m_nTJInteval (w_opt (ps_server st)) = 60"
    and d: "\<forall>c. due now st L c = {}"
  shows "\<exists>st' L'. process_InitTimer clock st = Some st' \<and> process_ok clock L' st' \<and> (\<forall>c. due now st' L' c = {}) \<and>
    armed_for TIME_CHECK 60000 L' st' \<and> ps_unit st' = ps_unit st \<and> ps_listener st' = ps_listener st \<and>
    ps_server st' = (ps_server st)\<lparr>w_opt := InitTimer (w_opt (ps_server st))\<rparr>"
proof -
  have T: "TIME_CHECK \<in> server_timers" "OFFLINE_CHECK \<in> server_timers" "FLUSH_CHECK \<in> server_timers" by (simp_all add: server_timers_def)
  let ?s0 = "st\<lparr>ps_nId := (ps_nId st)(TIME_CHECK := 1)\<rparr>"
  obtain s1 L1 where 1: "StartTimer clock TIME_CHECK 60 False ?s0 = Some s1" "timer_step clock server_timers (\<lambda>_. CTimer_class) now ?s0 L s1 L1"
      "armed_for TIME_CHECK 60000 L1 s1" "timers.more s1 = timers.more ?s0"
    using start_server_timer [of clock L ?s0 now TIME_CHECK 60] ok m now T by auto
  note k1 = timer_stepD [OF 1(2)] and f1 = process_more [OF 1(4)]
  let ?s1 = "s1\<lparr>ps_nId := (ps_nId s1)(FLUSH_CHECK := 3)\<rparr>"
  have n1: "now \<le> clock (tl_reads ?s1)" using now m k1 by (simp, meson monoD order_trans)
  obtain s2 L2 where 2: "StartTimer clock FLUSH_CHECK FLUSH_CHECK_TIME False ?s1 = Some s2" "timer_step clock server_timers (\<lambda>_. CTimer_class) now ?s1 L1 s2 L2"
      "armed_for FLUSH_CHECK 601000 L2 s2" "timers.more s2 = timers.more ?s1" "armed_for TIME_CHECK 60000 L2 s2"
    using start_server_timer [of clock L1 ?s1 now FLUSH_CHECK FLUSH_CHECK_TIME] k1 m n1 T 1(3) by auto
  note k2 = timer_stepD [OF 2(2)] and f2 = process_more [OF 2(4)]
  let ?s2 = "s2\<lparr>ps_nId := (ps_nId s2)(OFFLINE_CHECK := 2)\<rparr>"
  have n2: "now \<le> clock (tl_reads ?s2)" using n1 m k2 by (simp, meson monoD order_trans)
  obtain s3 L3 where 3: "StartTimer clock OFFLINE_CHECK TIME_INTEVAL False ?s2 = Some s3" "timer_step clock server_timers (\<lambda>_. CTimer_class) now ?s2 L2 s3 L3"
      "armed_for OFFLINE_CHECK 301000 L3 s3" "timers.more s3 = timers.more ?s2" "armed_for TIME_CHECK 60000 L3 s3" "armed_for FLUSH_CHECK 601000 L3 s3"
    using start_server_timer [of clock L2 ?s2 now OFFLINE_CHECK TIME_INTEVAL] k2 m n2 T 2(3,5) by auto
  note k3 = timer_stepD [OF 3(2)] and f3 = process_more [OF 3(4)]
  let ?st = "s3\<lparr>ps_server := (ps_server s3)\<lparr>w_opt := InitTimer (w_opt (ps_server st))\<rparr>\<rparr>"
  have "process_InitTimer clock st = Some ?st" using 1(1) 2(1) 3(1) i by (simp add: process_InitTimer_def)
  moreover have "process_ok clock L3 ?st"
    unfolding process_ok_def
  proof (intro conjI)
    show "process_timers clock L3 ?st" using k3 by simp
    show "\<forall>p \<in> server_timers. ps_nId ?st p = int p" using f1 f2 f3 by (simp add: server_timers_def)
    have "\<exists>to. own_timeout TIME_CHECK to \<and> armed_for TIME_CHECK to L3 ?st" using 3(5) by (intro exI [of _ 60000]) (simp add: own_timeout_def)
    moreover have "\<exists>to. own_timeout OFFLINE_CHECK to \<and> armed_for OFFLINE_CHECK to L3 ?st" using 3(3) by (simp add: own_timeout_def)
    moreover have "\<exists>to. own_timeout FLUSH_CHECK to \<and> armed_for FLUSH_CHECK to L3 ?st" using 3(6) by (simp add: own_timeout_def)
    ultimately show "\<forall>p \<in> server_timers. \<exists>to. own_timeout p to \<and> armed_for p to L3 ?st" by (simp add: server_timers_def)
  qed
  moreover have "due now ?st L3 c = {}" for c
  proof -
    have "due now s1 L1 c \<subseteq> due now st L c" "due now s2 L2 c \<subseteq> due now s1 L1 c" "due now s3 L3 c \<subseteq> due now s2 L2 c"
      using 1(2) 2(2) 3(2) by (simp_all add: timer_step_def)
    then have "due now s3 L3 c \<subseteq> due now st L c" by blast
    then show ?thesis using d by simp
  qed
  ultimately show ?thesis using f1 f2 f3 3(5) by (intro exI [of _ ?st] exI [of _ L3]) simp
qed

text \<open>A system that gives the process what it asks for.\<close>

definition boot_ok :: "'o boot \<Rightarrow> bool" where
  "boot_ok b \<longleftrightarrow> bt_table b \<and> bt_events b \<and> 0 < bt_epfd b \<and> (\<forall>n. bt_epoll b n) \<and> 0 < bt_pton b ''0.0.0.0'' \<and> 0 \<le> bt_socket b \<and>
     bt_bind b \<noteq> -1 \<and> bt_listen b \<noteq> -1 \<and> env_ini (bt_env b) config_ini \<noteq> None \<and> (\<forall>a. bt_memcached b a) \<and> mono (bt_clock b)"

lemma InitSHM_interval:
  assumes "InitSHM os init0 mem w s = Some (r, w', s')"
  shows "m_nTJInteval (w_opt w') = m_nTJInteval (w_opt w)"
proof -
  have "m_nTJInteval (w_opt v') = m_nTJInteval (w_opt v)" if v: "ReportStartTJData v = Some v'" for v v'
  proof -
    obtain t where t: "v' = v\<lparr>w_stat := t, w_opt := w_opt v'\<rparr>" "ReportData t (w_opt v) = Some (w_opt v')"
      using v by (auto simp: ReportStartTJData_def Let_def split: bind_splits)
    obtain b where "ReportData t (w_opt v) = Some ((w_opt v)\<lparr>m_pTJServer := b\<rparr>)" using ReportData_total by blast
    then show ?thesis using t(2) by auto
  qed
  then show ?thesis using assms by (fastforce simp: InitSHM_def Let_def split: bind_splits prod.splits if_splits)
qed

lemma main_ok:
  assumes st: "fresh_process st" and args: "parse_args argc os (Options_new (w_opt (ps_server st))) = (0, opt)" and b: "boot_ok b"
    and shm: "fresh_machine (bt_shm b) (bt_mem b) s (sint (0x20111 + server_id opt)) (sint (m_nSHMNodeCount opt))"
    and now: "now \<le> bt_clock b 0"
  shows "\<exists>st' L f. main b argc os st s = Some (Looping st') \<and> process_ok (bt_clock b) L st' \<and> (\<forall>c. due now st' L c = {}) \<and>
    armed_for TIME_CHECK 60000 L st' \<and> server_ok (ps_server st') f [] \<and> int f = sint (m_nSHMNodeCount opt) \<and> m_nTJInteval (w_opt (ps_server st')) = 60 \<and>
    (\<exists>srv. ps_listener st' = Some srv \<and> netfd srv = bt_socket b \<and> ss_bindPort srv = listen_port opt \<and> newEvents srv = EPOLLIN \<and>
      attached (ps_unit st') listener_at (epslot srv))"
proof -
  note B = b [unfolded boot_ok_def]
  obtain f where f: "env_ini (bt_env b) config_ini = Some f" using B by blast
  obtain s1 L1 where 1: "reactor_Init b MAX_POLLER st = Some (Some s1)" "process_timers (bt_clock b) L1 s1" "unit_ok (ps_unit s1)"
      "\<forall>p i. \<not> attached (ps_unit s1) p i" "pu_freeSlotList (ps_unit s1) = 0" "pu_slot 0 (ps_unit s1) = Some \<lparr>es_seq = 0, es_poller = None, es_freeList = 1\<rparr>"
      "seq_room (ps_unit s1)" "ps_server s1 = ps_server st" "\<forall>c. due now s1 L1 c = {}"
    using reactor_Init_ok [OF st, of b "bt_clock b" now] B by blast
  obtain opt2 where 2: "readSysCfg argc os (bt_env b) (Options_new (w_opt (ps_server st))) = Some (0, opt2)" "same_settings opt opt2"
      "0 \<le> sint (m_nSHMNodeCount opt2)" "options_ok opt2" "m_nTJInteval opt2 = 60" using readSysCfg_ok [OF args f] by blast
  obtain srv u where 3: "RegistServer b (CCSocketServer_new ''0.0.0.0'' (listen_port opt2) 256 256) s1 = Some (0, s1\<lparr>ps_unit := u, ps_listener := Some srv\<rparr>)"
      "attached u listener_at (epslot srv)" "netfd srv = bt_socket b" "newEvents srv = EPOLLIN" "ss_bindPort srv = listen_port opt2"
    using RegistServer_ok [OF 1(3-7)] B by blast
  obtain opt3 where 4: "main_InitBackServer b (w_stat (ps_server st)) opt2 = Some (0, opt3)" "same_settings opt2 opt3"
    using main_InitBackServer_ok [OF f] B by blast
  let ?w = "(ps_server st)\<lparr>w_opt := opt3\<rparr>"
  have o: "server_id opt3 = server_id opt" "m_nSHMNodeCount opt3 = m_nSHMNodeCount opt" "0 \<le> sint (m_nSHMNodeCount opt3)" "options_ok opt3"
      "m_nTJInteval opt3 = 60" "listen_port opt2 = listen_port opt"
    using 2 4(2) by (simp_all add: same_settings_def)
  have "before_start ?w" using st o by (simp add: before_start_def fresh_process_def)
  then obtain w s2 where 5: "InitSHM (bt_shm b) (bt_init0 b) (bt_mem b) ?w s = Some (0, w, s2)" "server_ok w (nat (sint (m_nSHMNodeCount opt))) []"
    using InitSHM_ok [of ?w "bt_shm b" "bt_mem b" s "bt_init0 b"] shm o by auto
  have w: "m_nTJInteval (w_opt w) = 60" using InitSHM_interval [OF 5(1)] o(5) by simp
  have n: "mono (bt_clock b)" "now \<le> bt_clock b (tl_reads s1)" using B now by (simp, meson monoD order_trans le0)
  let ?s = "s1\<lparr>ps_unit := u, ps_listener := Some srv, ps_server := w\<rparr>"
  obtain st' L' where 6: "process_InitTimer (bt_clock b) ?s = Some st'" "process_ok (bt_clock b) L' st'" "\<forall>c. due now st' L' c = {}"
      "armed_for TIME_CHECK 60000 L' st'" "ps_unit st' = u" "ps_listener st' = Some srv" "ps_server st' = w\<lparr>w_opt := InitTimer (w_opt w)\<rparr>"
    using process_InitTimer_ok [of "bt_clock b" L1 ?s now] 1(2,9) w n by auto
  have "server_ok (w\<lparr>w_opt := InitTimer (w_opt w)\<rparr>) (nat (sint (m_nSHMNodeCount opt))) []"
    by (rule server_ok_opt [OF 5(2)]) (use server_okD(3) [OF 5(2)] in blast)
  moreover have "main b argc os st s = Some (Looping st')"
    unfolding main_def using 1(1,8) 2(1) 3(1) 4(1) 5(1) 6(1) by simp
  moreover have "int (nat (sint (m_nSHMNodeCount opt))) = sint (m_nSHMNodeCount opt)" using o by simp
  ultimately show ?thesis using 6 3(2-5) o(6) w
    by (intro exI [of _ st'] exI [of _ L'] exI [of _ "nat (sint (m_nSHMNodeCount opt))"]) (simp add: InitTimer_def)
qed

text \<open>C4: the server starts. When the configuration file exists, the arguments are accepted and the system gives the process what it asks for, \<open>main\<close>
  reaches the event loop with a well formed empty store of the size asked for, a listening socket on the port of the command line that is attached to
  the poller and waits for connections, and the three timers in the lists of timers: the report after one minute, the offline check after 301 seconds
  and the flush check after 601 seconds - whatever the file says, since the interval of the report is never read from it.\<close>

theorem main_enters_event_loop:
  assumes "fresh_process st" "parse_args argc os (Options_new (w_opt (ps_server st))) = (0, opt)" "boot_ok b"
    "fresh_machine (bt_shm b) (bt_mem b) s (sint (0x20111 + server_id opt)) (sint (m_nSHMNodeCount opt))"
  shows "\<exists>st' f. main b argc os st s = Some (Looping st') \<and> server_ok (ps_server st') f [] \<and> int f = sint (m_nSHMNodeCount opt) \<and>
    (\<exists>srv. ps_listener st' = Some srv \<and> netfd srv = bt_socket b \<and> ss_bindPort srv = listen_port opt \<and> newEvents srv = EPOLLIN \<and>
      attached (ps_unit st') listener_at (epslot srv)) \<and>
    scheduled (bt_clock b) (bt_clock b 0) TIME_CHECK 60000 st' \<and> scheduled (bt_clock b) (bt_clock b 0) OFFLINE_CHECK 301000 st' \<and>
    scheduled (bt_clock b) (bt_clock b 0) FLUSH_CHECK 601000 st'"
proof -
  obtain st' L f where r: "main b argc os st s = Some (Looping st')" "process_ok (bt_clock b) L st'" "\<forall>c. due (bt_clock b 0) st' L c = {}"
      "armed_for TIME_CHECK 60000 L st'" "server_ok (ps_server st') f []" "int f = sint (m_nSHMNodeCount opt)"
      "\<exists>srv. ps_listener st' = Some srv \<and> netfd srv = bt_socket b \<and> ss_bindPort srv = listen_port opt \<and> newEvents srv = EPOLLIN \<and>
        attached (ps_unit st') listener_at (epslot srv)"
    using main_ok [OF assms order_refl] by blast
  have ok: "process_timers (bt_clock b) L st'" using r(2) by (simp add: process_ok_def)
  have "armed_for OFFLINE_CHECK 301000 L st'" "armed_for FLUSH_CHECK 601000 L st'"
    using r(2) by (auto simp: process_ok_def server_timers_def own_timeout_def)
  then show ?thesis using r scheduledI [OF ok _ r(3)] by blast
qed

text \<open>A start with room for two users on port 6100.\<close>

definition process0 :: process where
  "process0 = \<lparr>tl_links = \<lparr>lk_next = (\<lambda>x. x), lk_prev = (\<lambda>x. x)\<rparr>, tl_objexp = (\<lambda>_. 0), tl_isloop = (\<lambda>_. False), tl_interval = (\<lambda>_. 0),
     tl_class = (\<lambda>_. CTimer_class), tl_lists = [], tl_pending = 0, tl_reads = 0, tl_new = 10, ps_nId = (\<lambda>_. 0), ps_unit = CPollerUnit_new 0,
     ps_pool = CMemPool_new, ps_listener = None, ps_server = server0\<rparr>"

definition boot0 :: "unit boot" where
  "boot0 = \<lparr>bt_table = True, bt_events = True, bt_epfd = 3, bt_epoll = (\<lambda>_. True), bt_pton = (\<lambda>_. 1), bt_socket = 4, bt_bind = 0, bt_listen = 0,
     bt_env = env_zero, bt_memcached = (\<lambda>_. True), bt_raw = \<lparr>strServer_flag = [], m_bIsConnected = False, bs_timer = \<lparr>tm_interval = 0, tm_isloop = False, tm_armed = False\<rparr>,
     bs_pPacket = packet0, bs_sent = []\<rparr>,
     bt_connect = \<lparr>cc_socket = -1, cc_connect = 0, cc_inprogress = False, cc_poll = 0, cc_getsockopt = 0, cc_so_error = 0\<rparr>,
     bt_shm = os_fresh, bt_init0 = 0, bt_mem = memory0, bt_clock = (\<lambda>n. 1000 + int n)\<rparr>"

definition args0 :: "(char \<times> byte list) list" where
  "args0 = [(CHR ''p'', [54, 49, 48, 48]), (CHR ''s'', [48]), (CHR ''m'', [50])]"

lemma fresh_process_0: "fresh_process process0"
  by (auto simp: fresh_process_def process0_def server0_def rings_def ring_def server_timers_def split: if_splits)

lemma boot_ok_0: "boot_ok boot0"
  by (simp add: boot_ok_def boot0_def env_zero_def mono_def)

lemma args_0:
  obtains opt where "parse_args 7 args0 (Options_new (w_opt (ps_server process0))) = (0, opt)"
    "fresh_machine (bt_shm boot0) (bt_mem boot0) () (sint (0x20111 + server_id opt)) (sint (m_nSHMNodeCount opt))" "m_nSHMNodeCount opt = 2"
proof -
  let ?opt = "(Options_new (w_opt server0))\<lparr>listen_port := 6100, server_id := 0, m_nSHMNodeCount := 2\<rparr>"
  have a: "atoi [54, 49, 48, 48] = 6100" "atoi [48] = 0" "atoi [50] = 2" by code_simp+
  have "parse_args 7 args0 (Options_new (w_opt (ps_server process0))) = (0, ?opt)"
    by (simp add: parse_args_def args0_def a process0_def Let_def Options_new_def)
  moreover have "fresh_machine (bt_shm boot0) (bt_mem boot0) () (sint (0x20111 + server_id ?opt)) (sint (m_nSHMNodeCount ?opt))"
    using fresh_machine_0 by (simp add: boot0_def)
  ultimately show ?thesis using that [of ?opt] by simp
qed

lemma started_0_process:
  obtains opt st where "parse_args 7 args0 (Options_new (w_opt (ps_server process0))) = (0, opt)"
    "fresh_machine (bt_shm boot0) (bt_mem boot0) () (sint (0x20111 + server_id opt)) (sint (m_nSHMNodeCount opt))" "main boot0 7 args0 process0 () = Some (Looping st)"
proof -
  obtain opt where o: "parse_args 7 args0 (Options_new (w_opt (ps_server process0))) = (0, opt)"
    "fresh_machine (bt_shm boot0) (bt_mem boot0) () (sint (0x20111 + server_id opt)) (sint (m_nSHMNodeCount opt))" by (rule args_0)
  then show ?thesis using main_ok [OF fresh_process_0 o(1) boot_ok_0 o(2) order_refl] that by blast
qed

theorem main_enters_event_loop_witness:
  "\<exists>st' f. main boot0 7 args0 process0 () = Some (Looping st') \<and> server_ok (ps_server st') f [] \<and> f = 2"
proof -
  obtain opt where o: "parse_args 7 args0 (Options_new (w_opt (ps_server process0))) = (0, opt)"
    "fresh_machine (bt_shm boot0) (bt_mem boot0) () (sint (0x20111 + server_id opt)) (sint (m_nSHMNodeCount opt))" "m_nSHMNodeCount opt = 2" by (rule args_0)
  show ?thesis using main_enters_event_loop [OF fresh_process_0 o(1) boot_ok_0 o(2)] o(3) by fastforce
qed

end
