(* ===== verification/EventLoop.thy ===== *)
theory EventLoop
  imports Startup
begin

text \<open>
  \<open>CCReactor::RunEventLoop\<close> of \<open>src/CCReactor.cpp\<close>: turns of the loop that \<open>main\<close> enters, over the lists of timers. A turn computes how long to
  wait, waits, reads the clock, handles the events of the poller and then the timers that are due. What the events do to the server is the
  list of events that the turn delivers; the timers run the handlers of \<open>Server/Options.cpp\<close> on the server and start themselves again. A property of the
  whole program follows: no turn loses a timer.
\<close>

section \<open>Timers that run the handlers\<close>

text \<open>Each handler stops its timer first and starts it last, and touches no timer in between, so the calls are made here after the rest of the handler.\<close>

definition timer_acts :: "int \<Rightarrow> Options \<Rightarrow> timer_act list" where
  "timer_acts nId opt =
     (if nId = 1 then [Stop TIME_CHECK, Start TIME_CHECK (sint (m_nTJInteval opt)) False]
      else if nId = 3 then [Stop FLUSH_CHECK, Start FLUSH_CHECK FLUSH_CHECK_TIME False]
      else if nId = 2 then [Stop OFFLINE_CHECK, Start OFFLINE_CHECK TIME_INTEVAL False]
      else [])"

text \<open>\<open>CTimer::ProcessOnTimerOut\<close>. What a handler sees of the outside is the environment at the time of the call.\<close>

definition on_timer :: "(nat \<Rightarrow> int) \<Rightarrow> (nat \<Rightarrow> env) \<Rightarrow> nat \<Rightarrow> process \<Rightarrow> process option" where
  "on_timer clock env self st =
     do {
       w \<leftarrow> ProcessOnTimerOut (env (tl_reads st)) (ps_nId st self) (ps_server st);
       run_acts clock (timer_acts (ps_nId st self) (w_opt w)) (st\<lparr>ps_server := w\<rparr>)
     }"

section \<open>A turn of the loop\<close>

fun deliver :: "(env \<times> server_event) list \<Rightarrow> UserServer \<Rightarrow> UserServer option" where
  "deliver [] w = Some w"
| "deliver ((e, ev) # evs) w = do { w \<leftarrow> handle_event e ev w; deliver evs w }"

text \<open>The result of a turn is how long it waits for events, in milliseconds, and the process after it.\<close>

definition RunEventLoop_turn :: "(nat \<Rightarrow> int) \<Rightarrow> (nat \<Rightarrow> env) \<Rightarrow> (env \<times> server_event) list \<Rightarrow> process \<Rightarrow> (int \<times> process) option" where
  "RunEventLoop_turn clock env evs st =
     do {
       (wait, st) \<leftarrow> ExpireMicroSeconds clock 1000 st;
       let (now, st) = GET_TIMESTAMP clock st;
       w \<leftarrow> deliver evs (ps_server st);
       (_, st) \<leftarrow> CTimerUnit_CheckExpired clock (TimerNotify clock (on_timer clock env)) now (st\<lparr>ps_server := w\<rparr>);
       (_, st) \<leftarrow> CheckPending (TimerNotify clock (on_timer clock env)) st;
       Some (wait, st)
     }"

text \<open>Events the server can rely on (see \<open>event_ok\<close>), after each of which the interval of the report, which a packet can change, is
  positive as an \<open>int\<close> of milliseconds.\<close>

definition interval_ok :: "UserServer \<Rightarrow> bool" where
  "interval_ok w \<longleftrightarrow> 0 < sint (word_of_int (sint (m_nTJInteval (w_opt w)) * 1000) :: c_int)"

fun deliver_ok :: "(env \<times> server_event) list \<Rightarrow> UserServer \<Rightarrow> bool" where
  "deliver_ok [] w \<longleftrightarrow> True"
| "deliver_ok ((e, ev) # evs) w \<longleftrightarrow> env_small e \<and> event_ok ev w \<and>
     (case handle_event e ev w of None \<Rightarrow> True | Some w' \<Rightarrow> interval_ok w' \<and> deliver_ok evs w')"

text \<open>The states of the process: those \<open>main\<close> reaches the loop with, and those after turns with such events.\<close>

inductive process_state :: "'o boot \<Rightarrow> process \<Rightarrow> bool" for b where
  start: "fresh_process st \<Longrightarrow> parse_args argc os (Options_new (w_opt (ps_server st))) = (0, opt) \<Longrightarrow> boot_ok b \<Longrightarrow>
    fresh_machine (bt_shm b) (bt_mem b) s (sint (0x20111 + server_id opt)) (sint (m_nSHMNodeCount opt)) \<Longrightarrow>
    main b argc os st s = Some (Looping st') \<Longrightarrow> process_state b st'"
| turn: "process_state b st \<Longrightarrow> deliver_ok evs (ps_server st) \<Longrightarrow> RunEventLoop_turn (bt_clock b) env evs st = Some (t, st') \<Longrightarrow> process_state b st'"

section \<open>The handlers keep the server\<close>

definition server_good :: "UserServer \<Rightarrow> bool" where
  "server_good w \<longleftrightarrow> (\<exists>f U. server_ok w f U) \<and> interval_ok w"

lemma visit_users_keeps:
  "visit_users body h p a = Some r \<Longrightarrow> (\<And>u a. P a \<Longrightarrow> P (body u a)) \<Longrightarrow> P a \<Longrightarrow> P r"
proof (induction body h p a r rule: visit_users.raw_induct [rotated 1, consumes 1, case_names step])
  case (step visit body h p a r)
  show ?case
  proof (cases "p = None")
    case True
    then show ?thesis using step(2,4) by simp
  next
    case False
    then obtain ret bs l q a' where "visit body h q a' = Some r" "P a'"
      using step(2-4) by (auto simp: Let_def split: bind_splits prod.splits if_splits)
    then show ?thesis using step(1,3) by blast
  qed
qed

lemma handler_interval:
  assumes "server_ok w f U" "i = 1 \<or> i = 2 \<or> i = 3"
  shows "\<exists>w'. ProcessOnTimerOut e i w = Some w' \<and> (\<exists>f U. server_ok w' f U) \<and> m_nTJInteval (w_opt w') = m_nTJInteval (w_opt w)"
proof -
  note ok = assms(1)
  consider (time) "i = 1" | (offline) "i = 2" | (flush) "i = 3" using assms(2) by blast
  then show ?thesis
  proof cases
    case time
    let ?opt = "(w_opt w)\<lparr>m_CheckTimer := CCTimer_StopTimer (m_CheckTimer (w_opt w))\<rparr>"
    obtain b where "ReportData (w_stat w) ?opt = Some (?opt\<lparr>m_pTJServer := b\<rparr>)" using ReportData_total by blast
    moreover obtain w' where "ProcessTimeCheck w = Some w'" "server_ok w' f U" using ProcessTimeCheck_ok [OF ok] by blast
    ultimately show ?thesis using time by (auto simp: ProcessOnTimerOut_def ProcessTimeCheck_def Let_def)
  next
    case offline
    obtain w' f' U' where w': "ProcessOfflineCheck e w = Some w'" "server_ok w' f' U'" using ProcessOfflineCheck_ok [OF ok, of e] by blast
    let ?w = "w\<lparr>w_opt := (w_opt w)\<lparr>m_CheckOfflineTimer := CCTimer_StopTimer (m_CheckOfflineTimer (w_opt w))\<rparr>\<rparr>"
    have "server_ok ?w f U" using server_ok_opt [OF ok] server_okD(3) [OF ok] by simp
    then obtain w1 m where "offline_loop (env_now e) (m_OfflineUserMgr (w_opt w)) ?w = Some w1" "w_opt w1 = (w_opt ?w)\<lparr>m_OfflineUserMgr := m\<rparr>"
      using offline_loop_ok [of ?w f U "env_now e" "m_OfflineUserMgr (w_opt w)"] by blast
    then have "m_nTJInteval (w_opt w') = m_nTJInteval (w_opt w)" using w'(1) by (auto simp: ProcessOfflineCheck_def Let_def)
    then show ?thesis using offline w' by (auto simp: ProcessOnTimerOut_def)
  next
    case flush
    obtain w' f' U' where w': "ProcessFlushCheck e w = Some w'" "server_ok w' f' U'" using ProcessFlushCheck_ok [OF ok, of e] by blast
    define P where "P = (\<lambda>(s :: CStat, opt :: Options, d :: c_int list). m_nTJInteval opt = m_nTJInteval (w_opt w))"
    have P: "P a \<Longrightarrow> P (flush_user n u a)" for n u a
      by (cases a) (simp add: P_def flush_user_def Let_def DeleteOfflineUser_def)
    have "m_nTJInteval (w_opt w') = m_nTJInteval (w_opt w)"
    proof -
      let ?opt = "(w_opt w)\<lparr>m_CheckFlushTimer := CCTimer_StopTimer (m_CheckFlushTimer (w_opt w))\<rparr>"
      obtain s opt d where v: "visit_users (flush_user (env_now e)) (m_ShmHashMap (w_gshm w)) (vistor_begin (m_ShmHashMap (w_gshm w))) (w_stat w, ?opt, []) = Some (s, opt, d)"
          "m_nTJInteval (w_opt w') = m_nTJInteval opt"
        using w'(1) by (auto simp: ProcessFlushCheck_def Let_def split: bind_splits)
      have "P (w_stat w, ?opt, [])" by (simp add: P_def)
      with P have "P (s, opt, d)" by (rule visit_users_keeps [where P = P, OF v(1)])
      then show ?thesis using v(2) by (simp add: P_def)
    qed
    then show ?thesis using flush w' by (auto simp: ProcessOnTimerOut_def)
  qed
qed

lemma deliver_ok_run:
  "server_good w \<Longrightarrow> deliver_ok evs w \<Longrightarrow> \<exists>w'. deliver evs w = Some w' \<and> server_good w'"
proof (induction evs w rule: deliver.induct)
  case (2 e ev evs w)
  obtain f U where "server_ok w f U" using 2(2) unfolding server_good_def by blast
  then obtain w' f' U' where w': "handle_event e ev w = Some w'" "server_ok w' f' U'" using event_ok_step [of e w f U ev] 2(3) by auto
  then have "server_good w'" "deliver_ok evs w'" using 2(3) by (auto simp: server_good_def)
  then show ?case using 2(1) [OF w'(1)] w'(1) by simp
qed simp

section \<open>No timer is lost\<close>

text \<open>What the loop over the timers maintains.\<close>

definition turn_ok :: "(nat \<Rightarrow> int) \<Rightarrow> int \<Rightarrow> (nat \<rightharpoonup> nat list) \<Rightarrow> process \<Rightarrow> bool" where
  "turn_ok clock now L st \<longleftrightarrow> process_ok clock L st \<and> server_good (ps_server st) \<and> mono clock \<and> now \<le> clock (tl_reads st)"

text \<open>A handler stops and starts its own timer.\<close>

lemma restart_timer:
  assumes ok: "process_timers clock L st" and m: "mono clock" and now: "now \<le> clock (tl_reads st)" and p: "p \<in> server_timers"
    and t: "0 < sint (word_of_int (sec * 1000) :: c_int)"
  shows "\<exists>st' L'. run_acts clock [Stop p, Start p sec False] st = Some st' \<and> timer_step clock server_timers (\<lambda>_. CTimer_class) now st L st' L' \<and>
    armed_for p (word_of_int (sec * 1000)) L' st' \<and> (\<forall>q to. q \<noteq> p \<longrightarrow> armed_for q to L st \<longrightarrow> armed_for q to L' st') \<and> timers.more st' = timers.more st"
proof -
  obtain s1 L1 where 1: "StopTimer p st = Some s1" "timer_step clock server_timers (\<lambda>_. CTimer_class) now st L s1 L1" "keeps p L L1"
    using StopTimer_ok [OF ok p] by blast
  have r: "process_timers clock L1 s1" "tl_reads st \<le> tl_reads s1" using timer_stepD [OF 1(2)] by simp_all
  have n1: "now \<le> clock (tl_reads s1)" using now monoD [OF m r(2)] by simp
  obtain s2 L2 where 2: "StartTimer clock p sec False s1 = Some s2" "timer_step clock server_timers (\<lambda>_. CTimer_class) now s1 L1 s2 L2"
      "armed_for p (word_of_int (sec * 1000)) L2 s2" "\<forall>q to. q \<noteq> p \<longrightarrow> armed_for q to L1 s1 \<longrightarrow> armed_for q to L2 s2" "timers.more s2 = timers.more s1"
    using start_server_timer [OF r(1) m n1 p t] by blast
  have "armed_for q to L1 s1" if "q \<noteq> p" "armed_for q to L st" for q to
    using that 1(2,3) unfolding armed_for_def keeps_def timer_step_def by blast
  then show ?thesis using 1 2 timer_step_trans [OF 1(2) 2(2)] StopTimer_frame [OF 1(1)]
    by (intro exI [of _ s2] exI [of _ L2]) simp
qed

lemma timer_acts_ok:
  assumes "server_good w" "p \<in> server_timers"
  shows "\<exists>sec. timer_acts (int p) (w_opt w) = [Stop p, Start p sec False] \<and> 0 < sint (word_of_int (sec * 1000) :: c_int) \<and> own_timeout p (word_of_int (sec * 1000))"
  using assms by (auto simp: server_timers_def timer_acts_def server_good_def interval_ok_def own_timeout_def)

lemma notify_ok:
  assumes g: "turn_ok clock now L st" and p: "p \<in> server_timers" and d: "DisableTimer p st = Some s1"
    and s: "timer_step clock server_timers (\<lambda>_. CTimer_class) now st L s1 ((unlink p L)(p \<mapsto> []))"
  shows "\<exists>st' L'. TimerNotify clock (on_timer clock env) p s1 = Some st' \<and>
    timer_step clock server_timers (\<lambda>_. CTimer_class) now s1 ((unlink p L)(p \<mapsto> [])) st' L' \<and> turn_ok clock now L' st'"
proof -
  let ?L1 = "(unlink p L)(p \<mapsto> [])"
  have G: "process_timers clock L st" "\<forall>p \<in> server_timers. ps_nId st p = int p" "\<forall>p \<in> server_timers. \<exists>to. own_timeout p to \<and> armed_for p to L st"
      "server_good (ps_server st)" "mono clock" "now \<le> clock (tl_reads st)"
    using g unfolding turn_ok_def process_ok_def by blast+
  have f1: "ps_nId s1 = ps_nId st" "ps_server s1 = ps_server st" using process_more [of s1 st] DisableTimer_frame [OF d] by simp_all
  have ok1: "process_timers clock ?L1 s1" and r1: "tl_reads st \<le> tl_reads s1" using timer_stepD [OF s] by simp_all
  have n1: "now \<le> clock (tl_reads s1)" using G(6) monoD [OF G(5) r1] by simp
  have keep1: "armed_for q to ?L1 s1" if "q \<noteq> p" "armed_for q to L st" for q to
  proof -
    have "keeps p L ?L1" by (rule keeps_unlink) (use lists_okD(8) [OF timers_okD(1) [OF G(1)] p] in blast)
    then show ?thesis using that s unfolding armed_for_def keeps_def timer_step_def by blast
  qed
  obtain f U where "server_ok (ps_server s1) f U" using G(4) f1 unfolding server_good_def by auto
  moreover have "int p = 1 \<or> int p = 2 \<or> int p = 3" using p by (auto simp: server_timers_def)
  ultimately obtain w where w: "ProcessOnTimerOut (env (tl_reads s1)) (int p) (ps_server s1) = Some w" "\<exists>f U. server_ok w f U"
      "m_nTJInteval (w_opt w) = m_nTJInteval (w_opt (ps_server s1))"
    using handler_interval by blast
  have gw: "server_good w" using w(2,3) G(4) f1 by (simp add: server_good_def interval_ok_def)
  obtain sec where sec: "timer_acts (int p) (w_opt w) = [Stop p, Start p sec False]" "0 < sint (word_of_int (sec * 1000) :: c_int)"
      "own_timeout p (word_of_int (sec * 1000))" using timer_acts_ok [OF gw p] by blast
  let ?s1 = "s1\<lparr>ps_server := w\<rparr>"
  have ok1': "process_timers clock ?L1 ?s1" "now \<le> clock (tl_reads ?s1)" using ok1 n1 by simp_all
  obtain s2 L2 where 2: "run_acts clock [Stop p, Start p sec False] ?s1 = Some s2" "timer_step clock server_timers (\<lambda>_. CTimer_class) now ?s1 ?L1 s2 L2"
      "armed_for p (word_of_int (sec * 1000)) L2 s2" "\<forall>q to. q \<noteq> p \<longrightarrow> armed_for q to ?L1 ?s1 \<longrightarrow> armed_for q to L2 s2" "timers.more s2 = timers.more ?s1"
    using restart_timer [OF ok1'(1) G(5) ok1'(2) p sec(2)] by blast
  have ok2: "process_timers clock L2 s2" and r2: "tl_reads s1 \<le> tl_reads s2" using timer_stepD [OF 2(2)] by simp_all
  have "\<not> tl_isloop s2 p" using timers_okD(4) [OF ok2 p] by auto
  then have "TimerNotify clock (on_timer clock env) p s1 = Some s2"
    using w(1) 2(1) sec(1) G(2) p f1 by (simp add: TimerNotify_def on_timer_def)
  moreover have "timer_step clock server_timers (\<lambda>_. CTimer_class) now s1 ?L1 s2 L2" using 2(2) by (simp add: timer_step_def)
  moreover have "turn_ok clock now L2 s2"
  proof -
    have f2: "ps_nId s2 = ps_nId st" "ps_server s2 = w" using process_more [OF 2(5)] f1 by simp_all
    have "\<exists>to. own_timeout q to \<and> armed_for q to L2 s2" if q: "q \<in> server_timers" for q
    proof (cases "q = p")
      case True
      then show ?thesis using 2(3) sec(3) by blast
    next
      case False
      obtain to where to: "own_timeout q to" "armed_for q to L st" using G(3) q by blast
      then have "armed_for q to ?L1 ?s1" using keep1 [OF False] by simp
      then show ?thesis using 2(4) False to(1) by blast
    qed
    moreover have "now \<le> clock (tl_reads s2)" using n1 monoD [OF G(5) r2] by simp
    ultimately show ?thesis using ok2 f2 G(2,5) gw unfolding turn_ok_def process_ok_def by simp
  qed
  ultimately show ?thesis by blast
qed

interpretation ps: timer_client clock server_timers "\<lambda>_. CTimer_class" now "turn_ok clock now" "TimerNotify clock (on_timer clock env)"
  for clock :: "nat \<Rightarrow> int" and now :: int and env :: "nat \<Rightarrow> env"
proof unfold_locales
  fix L st assume "turn_ok clock now L st"
  then show "process_timers clock L st" by (simp add: turn_ok_def process_ok_def)
qed (rule notify_ok)

text \<open>A turn.\<close>

lemma turn_runs:
  assumes ok: "process_ok clock L st" and w: "server_good (ps_server st)" and m: "mono clock" and pos: "0 < clock 0" and evs: "deliver_ok evs (ps_server st)"
  shows "\<exists>t st' L'. RunEventLoop_turn clock env evs st = Some (t, st') \<and> turn_ok clock (clock (Suc (tl_reads st))) L' st' \<and>
    (\<forall>c. due (clock (Suc (tl_reads st))) st' L' c = {}) \<and> 0 \<le> t \<and> t \<le> 1000 \<and>
    (\<forall>p to. armed_for p to L st \<longrightarrow> clock (tl_reads st) + t * 1000 \<le> max (clock (tl_reads st)) (tl_objexp st p))"
proof -
  have T: "process_timers clock L st" using ok by (simp add: process_ok_def)
  let ?now = "clock (Suc (tl_reads st))"
  obtain t where t: "ExpireMicroSeconds clock 1000 st = Some (t, st\<lparr>tl_reads := Suc (tl_reads st)\<rparr>)" "0 \<le> t" "t \<le> 1000"
      "\<forall>c to x. (c, to) \<in> set (tl_lists st) \<longrightarrow> armed x c L \<longrightarrow> clock (tl_reads st) + t * 1000 \<le> max (clock (tl_reads st)) (tl_objexp st x)"
    using ExpireMicroSeconds_ok [OF T, of 1000] by auto
  obtain w' where w': "deliver evs (ps_server st) = Some w'" "server_good w'" using deliver_ok_run [OF w evs] by blast
  let ?s = "st\<lparr>tl_reads := Suc (Suc (tl_reads st)), ps_server := w'\<rparr>"
  have le: "clock (tl_reads st) \<le> clock (Suc (Suc (tl_reads st)))" "?now \<le> clock (Suc (Suc (tl_reads st)))" using m by (simp_all add: monoD)
  have "process_timers clock L ?s"
  proof -
    have "in_order clock to st xs \<Longrightarrow> in_order clock to ?s xs" for to xs unfolding in_order_def using le(1) by fastforce
    then show ?thesis using T unfolding timers_ok_def lists_ok_def times_ok_def heads_def by simp
  qed
  then have g: "turn_ok clock ?now L ?s" using ok w'(2) m le(2) unfolding turn_ok_def process_ok_def by (simp add: armed_for_def)
  have "0 < ?now" using pos monoD [OF m, of 0 "Suc (tl_reads st)"] by simp
  then obtain n st' L' where c: "CTimerUnit_CheckExpired clock (TimerNotify clock (on_timer clock env)) ?now ?s = Some (n, st')"
      "\<forall>c. due ?now st' L' c = {}" "turn_ok clock ?now L' st'"
    using ps.CheckExpired_ok [OF g, of env] by auto
  have "CheckPending (TimerNotify clock (on_timer clock env)) st' = Some (0, st')" by (rule ps.CheckPending_ok [OF c(3)])
  then have "RunEventLoop_turn clock env evs st = Some (t, st')"
    using t(1) w'(1) c(1) by (simp add: RunEventLoop_turn_def GET_TIMESTAMP_def)
  then show ?thesis using c(2,3) t by (intro exI [of _ t] exI [of _ st'] exI [of _ L']) (auto simp: armed_for_def)
qed

lemma process_state_good:
  "process_state b st \<Longrightarrow> 0 < bt_clock b 0 \<Longrightarrow> \<exists>L. process_ok (bt_clock b) L st \<and> server_good (ps_server st) \<and> mono (bt_clock b)"
proof (induction rule: process_state.induct)
  case (start st argc os opt s st')
  obtain st2 L f where r: "main b argc os st s = Some (Looping st2)" "process_ok (bt_clock b) L st2" "server_ok (ps_server st2) f []"
      "m_nTJInteval (w_opt (ps_server st2)) = 60"
    using main_ok [OF start(1-4) order_refl] by blast
  then have "st2 = st'" using start(5) by simp
  moreover have "mono (bt_clock b)" using start(3) by (simp add: boot_ok_def)
  ultimately show ?case using r by (auto simp: server_good_def interval_ok_def)
next
  case (turn st evs env t st')
  obtain L where L: "process_ok (bt_clock b) L st" "server_good (ps_server st)" "mono (bt_clock b)" using turn(4) [OF turn(5)] by blast
  then show ?case using turn_runs [OF L turn(5) turn(2), of env] turn(3) unfolding turn_ok_def by fastforce
qed



end
