(* ===== verification/Logging.thy ===== *)
theory Logging
  imports CStrings
begin

text \<open>
  \<open>Server/clib_log.*\<close>, \<open>Server/clib_uin_type.h\<close> and \<open>src/core/log.cpp\<close>: the log files of the server and of the framework. Files are a map from names to
  contents; strings are byte lists without their terminating NUL. What the system answers - which files can be opened, the text of the time, the semaphores -
  is the record \<open>log_os\<close>. \<open>write\<close> of a regular file is taken to write everything; the text of \<open>vsnprintf\<close> is a parameter.
\<close>

section \<open>Files\<close>

type_synonym files = "byte list \<rightharpoonup> byte list"

text \<open>\<open>lo_size0\<close> is what is in the memory of \<open>st_size\<close> when \<open>stat\<close> fails; \<open>lo_semget\<close> gives the results of the two calls of \<open>semget\<close> and of \<open>semctl\<close>;
  \<open>lo_blocks\<close> says that a semaphore is never released.\<close>

record log_os =
  lo_open :: "byte list \<Rightarrow> bool"
  lo_strftime :: "byte list \<Rightarrow> byte list"
  lo_size0 :: int
  lo_ftok :: "byte list \<Rightarrow> int"
  lo_semget :: "int \<Rightarrow> int option \<times> int option \<times> bool"
  lo_blocks :: "int \<Rightarrow> bool"

definition snprintf :: "nat \<Rightarrow> byte list \<Rightarrow> byte list" where
  "snprintf n s = take (n - 1) s"

definition open_append :: "log_os \<Rightarrow> byte list \<Rightarrow> files \<Rightarrow> (bool \<times> files)" where
  "open_append os file fs = (if lo_open os file then (True, if fs file = None then fs(file \<mapsto> []) else fs) else (False, fs))"

definition rename :: "byte list \<Rightarrow> byte list \<Rightarrow> files \<Rightarrow> files" where
  "rename old new fs = (if fs old = None \<or> old = new then fs else fs(new := fs old, old := None))"

section \<open>The log of the server\<close>

abbreviation CLIB_LOG_SLEN_SHOR :: nat where "CLIB_LOG_SLEN_SHOR \<equiv> 16"
abbreviation CLIB_LOG_SLEN_NORM :: nat where "CLIB_LOG_SLEN_NORM \<equiv> 64"
abbreviation CLIB_LOG_SLEN_LONG :: nat where "CLIB_LOG_SLEN_LONG \<equiv> 1024"
abbreviation CLIB_LOG_PATH_RELATIVE :: int where "CLIB_LOG_PATH_RELATIVE \<equiv> 2"
abbreviation CLIB_LOG_LEV_ERROR :: int where "CLIB_LOG_LEV_ERROR \<equiv> 0"
abbreviation CLIB_LOG_LEV_INFO :: int where "CLIB_LOG_LEV_INFO \<equiv> 1"

record clib_log =
  ms_file :: "byte list"
  ms_tformat :: "byte list"
  ms_eol :: "byte list"
  mi_level :: int
  mi_maxfile :: int
  mi_maxsize :: int
  ms_logtype :: "byte list"
  mi_semopen :: bool
  mi_semid :: int
  mb_coloring :: bool
  setUins :: "c_int list"

definition createSem :: "log_os \<Rightarrow> int \<Rightarrow> int \<times> int" where
  "createSem os key =
     (case lo_semget os key of
        (Some sid, _, setval) \<Rightarrow> (if setval then 0 else -2, sid)
      | (None, Some sid, _) \<Rightarrow> (0, sid)
      | (None, None, _) \<Rightarrow> (-1, -1))"

text \<open>\<open>SemLock\<close> returns at once for a descriptor of \<open>-1\<close>; otherwise it waits.\<close>

definition SemLock :: "log_os \<Rightarrow> int \<Rightarrow> int option" where
  "SemLock os sid = (if sid = -1 then Some (-1) else if lo_blocks os sid then None else Some 0)"

definition clib_log_write :: "log_os \<Rightarrow> byte list \<Rightarrow> byte list \<Rightarrow> files \<Rightarrow> int \<times> files" where
  "clib_log_write os file msg fs =
     (let (ok, fs) = open_append os file fs in
      if ok then (0, fs(file := map_option (\<lambda>c. c @ msg) (fs file))) else (-1, fs))"

text \<open>\<open>file.i\<close>, and the loop of the rotation from \<open>i\<close> down.\<close>

definition numbered :: "byte list \<Rightarrow> nat \<Rightarrow> byte list" where
  "numbered file i = snprintf CLIB_LOG_SLEN_LONG (file @ [46] @ print_d (word_of_nat i))"

fun rotate_loop :: "byte list \<Rightarrow> nat \<Rightarrow> files \<Rightarrow> files" where
  "rotate_loop file 0 fs = fs"
| "rotate_loop file (Suc i) fs =
     rotate_loop file i
       (if Suc i = 1 then rename file (numbered file (Suc i)) fs else rename (numbered file i) (numbered file (Suc i)) fs)"

definition check_file :: "log_os \<Rightarrow> byte list \<Rightarrow> clib_log \<Rightarrow> files \<Rightarrow> int \<times> files" where
  "check_file os file log fs =
     (if file = [] then (401, fs)
      else if 0 < mi_maxfile log \<and> 0 < mi_maxsize log then
        (let size = (case fs file of Some c \<Rightarrow> int (length c) | None \<Rightarrow> lo_size0 os) in
         (0, if mi_maxsize log < size then rotate_loop file (nat (mi_maxfile log)) fs else fs))
      else (0, fs))"

subsection \<open>Colouring\<close>

text \<open>\<open>fgets\<close> with room for \<open>n\<close> bytes and the terminator.\<close>

definition fgets :: "nat \<Rightarrow> byte list \<Rightarrow> byte list" where
  "fgets n s = (let t = take n s; l = takeWhile (\<lambda>b. b \<noteq> 10) t in if length l < length t then l @ [10] else t)"

function fgets_lines :: "nat \<Rightarrow> byte list \<Rightarrow> byte list list" where
  "fgets_lines n s = (if s = [] \<or> n = 0 then [] else fgets n s # fgets_lines n (drop (length (fgets n s)) s))"
  by auto
termination
  by (relation "measure (length \<circ> snd)") (auto simp: fgets_def Let_def)

declare fgets_lines.simps [simp del]

definition atouin :: "byte list \<Rightarrow> c_int" where
  "atouin s =
     (let s = dropWhile is_space s;
          (neg, s) = (case s of b # t \<Rightarrow> if b = 45 then (True, t) else if b = 43 then (False, t) else (False, s) | [] \<Rightarrow> (False, s));
          v = digits_value 0 (takeWhile is_digit s)
      in word_of_int (if 2 ^ 64 \<le> v then 2 ^ 64 - 1 else if neg then - v else v))"

definition clib_uin_is_valid :: "c_int \<Rightarrow> bool" where
  "clib_uin_is_valid uin \<longleftrightarrow> \<not> (uint uin < 10000 \<or> 0xffffffff < uint uin)"

definition set_coloring_file :: "byte list option \<Rightarrow> clib_log \<Rightarrow> files \<Rightarrow> int \<times> clib_log" where
  "set_coloring_file coloring log fs =
     (case coloring of None \<Rightarrow> (-1, log)
      | Some f \<Rightarrow>
          let log = log\<lparr>setUins := []\<rparr> in
          (case fs f of None \<Rightarrow> (-1, log\<lparr>mb_coloring := False\<rparr>)
           | Some s \<Rightarrow>
               let uins = filter clib_uin_is_valid (map (\<lambda>l. atouin (c_str l)) (fgets_lines 18 s)) in
               (0, log\<lparr>setUins := uins, mb_coloring := uins \<noteq> []\<rparr>)))"

subsection \<open>Construction and settings\<close>

definition log_path :: "byte list \<Rightarrow> int \<Rightarrow> byte list" where
  "log_path file pathtype = snprintf CLIB_LOG_SLEN_LONG (if pathtype = CLIB_LOG_PATH_RELATIVE then bytes_of_string ''/tmp'' @ [47] @ file else file)"

text \<open>The file is created, and the semaphore when it is wanted.\<close>

definition init_sem :: "log_os \<Rightarrow> clib_log \<Rightarrow> files \<Rightarrow> clib_log \<times> files" where
  "init_sem os log fs =
     (let (_, fs) = open_append os (ms_file log) fs; ipc_key = lo_ftok os (ms_file log) in
      (if mi_semopen log \<and> 0 < ipc_key then log\<lparr>mi_semid := snd (createSem os ipc_key)\<rparr> else log, fs))"

text \<open>The constructor; the members it does not set keep the indeterminate values of \<open>log\<close>: without a file name, \<open>mi_semopen\<close> and \<open>mi_semid\<close> are not set.\<close>

definition clib_log_new :: "log_os \<Rightarrow> byte list option \<Rightarrow> bool \<Rightarrow> byte list option \<Rightarrow> int \<Rightarrow> int \<Rightarrow> int \<Rightarrow> byte list option \<Rightarrow> byte list option \<Rightarrow> int \<Rightarrow>
    byte list option \<Rightarrow> clib_log \<Rightarrow> files \<Rightarrow> clib_log \<times> files" where
  "clib_log_new os file sem tformat level maxfile maxsize logtype eol pathtype coloring log fs =
     (let log = log\<lparr>ms_file := [], setUins := []\<rparr>;
          (log, fs) = (case file of None \<Rightarrow> (log, fs)
            | Some f \<Rightarrow> init_sem os (log\<lparr>ms_file := log_path f pathtype, mi_semopen := sem\<rparr>) fs);
          log = log\<lparr>ms_tformat := snprintf CLIB_LOG_SLEN_NORM (case tformat of Some t \<Rightarrow> t | None \<Rightarrow> bytes_of_string ''[%Y-%m-%d %H:%M:%S] ''),
                    mi_maxfile := (if 0 \<le> maxfile then maxfile else 5),
                    mi_maxsize := (if 0 \<le> maxsize then maxsize else 1024 * 1024 * 10),
                    mi_level := (if CLIB_LOG_LEV_ERROR \<le> level then level else CLIB_LOG_LEV_ERROR),
                    ms_logtype := snprintf CLIB_LOG_SLEN_NORM (case logtype of Some t \<Rightarrow> t | None \<Rightarrow> []),
                    ms_eol := snprintf CLIB_LOG_SLEN_SHOR (case eol of Some t \<Rightarrow> t | None \<Rightarrow> [10])\<rparr>
      in (snd (set_coloring_file coloring log fs), fs))"

definition set_file :: "log_os \<Rightarrow> byte list option \<Rightarrow> int \<Rightarrow> clib_log \<Rightarrow> files \<Rightarrow> int \<times> clib_log \<times> files" where
  "set_file os file pathtype log fs =
     (case file of None \<Rightarrow> (-1, log, fs)
      | Some f \<Rightarrow> (let (log, fs) = init_sem os (log\<lparr>ms_file := log_path f pathtype\<rparr>) fs in (0, log, fs)))"

definition set_timeformat :: "byte list option \<Rightarrow> clib_log \<Rightarrow> int \<times> clib_log" where
  "set_timeformat tformat log = (case tformat of None \<Rightarrow> (-1, log) | Some t \<Rightarrow> (0, log\<lparr>ms_tformat := snprintf CLIB_LOG_SLEN_NORM t\<rparr>))"

definition set_level :: "int \<Rightarrow> clib_log \<Rightarrow> int \<times> clib_log" where
  "set_level level log = (if level < CLIB_LOG_LEV_ERROR then (-1, log) else (0, log\<lparr>mi_level := level\<rparr>))"

definition set_maxfile :: "int \<Rightarrow> clib_log \<Rightarrow> int \<times> clib_log" where
  "set_maxfile maxfile log = (if maxfile < 0 then (-1, log) else (0, log\<lparr>mi_maxfile := maxfile\<rparr>))"

definition set_maxsize :: "int \<Rightarrow> clib_log \<Rightarrow> int \<times> clib_log" where
  "set_maxsize maxsize log = (if maxsize < 0 then (-1, log) else (0, log\<lparr>mi_maxsize := maxsize\<rparr>))"

definition set_logtype :: "byte list option \<Rightarrow> clib_log \<Rightarrow> int \<times> clib_log" where
  "set_logtype logtype log = (0, log\<lparr>ms_logtype := snprintf CLIB_LOG_SLEN_NORM (case logtype of Some t \<Rightarrow> t | None \<Rightarrow> [])\<rparr>)"

definition set_eol :: "byte list option \<Rightarrow> clib_log \<Rightarrow> int \<times> clib_log" where
  "set_eol eol log = (case eol of None \<Rightarrow> (-1, log) | Some t \<Rightarrow> (0, log\<lparr>ms_eol := snprintf CLIB_LOG_SLEN_SHOR t\<rparr>))"

subsection \<open>Writing\<close>

text \<open>The line of a message.\<close>

definition log_line :: "log_os \<Rightarrow> byte list \<Rightarrow> c_int \<Rightarrow> clib_log \<Rightarrow> byte list" where
  "log_line os msg uin log =
     (let s_buf = (if ms_tformat log \<noteq> [] then snprintf CLIB_LOG_SLEN_NORM (lo_strftime os (ms_tformat log)) else []);
          owner = (if uin = 0 \<or> \<not> mb_coloring log then [] else [91] @ nat_digits (unat uin) @ [93])
      in snprintf CLIB_LOG_SLEN_LONG (s_buf @ owner @ msg @ ms_eol log))"

definition log_write :: "log_os \<Rightarrow> byte list option \<Rightarrow> int \<Rightarrow> c_int \<Rightarrow> clib_log \<Rightarrow> files \<Rightarrow> (int \<times> files) option" where
  "log_write os msg level uin log fs =
     (if mi_level log < level \<and> (uin = 0 \<or> \<not> mb_coloring log) then Some (0, fs)
      else if ms_file log = [] \<or> msg = None \<or> msg = Some [] then Some (-1, fs)
      else if \<not> (uin = 0 \<or> \<not> mb_coloring log) \<and> uin \<notin> set (setUins log) then Some (0, fs)
      else do {
        let s_msg = log_line os (the msg) uin log;
        let s_file = snprintf CLIB_LOG_SLEN_LONG (ms_file log @ snprintf CLIB_LOG_SLEN_NORM (lo_strftime os (ms_logtype log)));
        _ \<leftarrow> (if mi_semopen log then SemLock os (mi_semid log) else Some 0);
        let (_, fs) = check_file os s_file log fs;
        Some (clib_log_write os s_file s_msg fs)
      })"

text \<open>\<open>apwrite\<close> with the result of \<open>vsnprintf\<close>, and the functions that call it.\<close>

definition apwrite :: "log_os \<Rightarrow> int \<Rightarrow> byte list option \<Rightarrow> int \<times> byte list \<Rightarrow> c_int \<Rightarrow> clib_log \<Rightarrow> files \<Rightarrow> (int \<times> files) option" where
  "apwrite os level msgformat formatted uin log fs =
     (if msgformat = None \<or> msgformat = Some [] then Some (-1, fs)
      else if fst formatted < 0 then Some (fst formatted, fs)
      else log_write os (Some (snprintf CLIB_LOG_SLEN_LONG (snd formatted))) level uin log fs)"

definition vwrite :: "log_os \<Rightarrow> int \<Rightarrow> byte list option \<Rightarrow> int \<times> byte list \<Rightarrow> clib_log \<Rightarrow> files \<Rightarrow> (int \<times> files) option" where
  "vwrite os level msgformat formatted log fs =
     (if msgformat = None \<or> msgformat = Some [] then Some (-1, fs) else apwrite os level msgformat formatted 0 log fs)"

definition vwrite_uin :: "log_os \<Rightarrow> int \<Rightarrow> c_int \<Rightarrow> byte list option \<Rightarrow> int \<times> byte list \<Rightarrow> clib_log \<Rightarrow> files \<Rightarrow> (int \<times> files) option" where
  "vwrite_uin os level uin msgformat formatted log fs =
     (if msgformat = None \<or> msgformat = Some [] then Some (-1, fs) else apwrite os level msgformat formatted uin log fs)"

definition logMsg :: "log_os \<Rightarrow> byte list option \<Rightarrow> int \<times> byte list \<Rightarrow> clib_log \<Rightarrow> files \<Rightarrow> (int \<times> files) option" where
  "logMsg os msgformat formatted log fs =
     (if msgformat = None \<or> msgformat = Some [] then Some (-1, fs) else apwrite os CLIB_LOG_LEV_INFO msgformat formatted 0 log fs)"

subsection \<open>The two logs of the server\<close>

text \<open>\<open>InitLog\<close> of \<open>Server/Main.cpp\<close>: the objects are created by \<open>new clib_log()\<close> in the memory \<open>debug\<close> and \<open>error\<close>, so their \<open>mi_semopen\<close> is what happens to be
  there.\<close>

definition init_server_log :: "log_os \<Rightarrow> byte list \<Rightarrow> clib_log \<Rightarrow> files \<Rightarrow> clib_log \<times> files" where
  "init_server_log os file raw fs =
     (let (log, fs) = clib_log_new os None False (Some (bytes_of_string ''[%Y-%m-%d %H:%M:%S] '')) CLIB_LOG_LEV_ERROR 5 (1024 * 1024 * 10) (Some []) (Some [10]) 1
                        (Some (bytes_of_string ''../conf/clib_log_coloring.conf'')) raw fs;
          (_, log, fs) = set_file os (Some file) 1 log fs;
          (_, log) = set_level 5 log;
          (_, log) = set_maxfile 5 log;
          (_, log) = set_maxsize 10240000 log;
          (_, log) = set_timeformat (Some (bytes_of_string ''[%Y-%m-%d %H:%M:%S] '')) log
      in (log, fs))"

definition InitLog :: "log_os \<Rightarrow> byte list \<Rightarrow> nat \<Rightarrow> clib_log \<Rightarrow> clib_log \<Rightarrow> files \<Rightarrow> clib_log \<times> clib_log \<times> files" where
  "InitLog os prefix pid debug error fs =
     (let (debug, fs) = init_server_log os (snprintf 256 (prefix @ bytes_of_string ''.debug.'' @ nat_digits pid)) debug fs;
          (error, fs) = init_server_log os (snprintf 256 (prefix @ bytes_of_string ''.error.'' @ nat_digits pid)) error fs
      in (debug, error, fs))"

section \<open>Rotation\<close>

text \<open>The files of a log from the oldest to the newest; the file itself counts as number \<open>0\<close>.\<close>

definition log_file :: "byte list \<Rightarrow> nat \<Rightarrow> byte list" where
  "log_file file i = (if i = 0 then file else numbered file i)"

definition content :: "files \<Rightarrow> byte list \<Rightarrow> byte list" where
  "content fs f = (case fs f of None \<Rightarrow> [] | Some c \<Rightarrow> c)"

definition history :: "byte list \<Rightarrow> nat \<Rightarrow> files \<Rightarrow> byte list" where
  "history file n fs = concat (map (\<lambda>i. content fs (log_file file i)) (rev [0..<Suc n]))"

lemma history_simps [simp]:
  "history file 0 fs = content fs file" "history file (Suc n) fs = content fs (log_file file (Suc n)) @ history file n fs"
  by (simp_all add: history_def log_file_def)

lemma history_cong: "(\<And>i. i \<le> n \<Longrightarrow> fs' (log_file file i) = fs (log_file file i)) \<Longrightarrow> history file n fs' = history file n fs"
  unfolding history_def by (intro arg_cong [of _ _ concat] map_cong) (auto simp: content_def)

lemma nat_digits_length: "n < 10 ^ Suc k \<Longrightarrow> length (nat_digits n) \<le> Suc k"
proof (induction k arbitrary: n)
  case (Suc k)
  then have "n div 10 < 10 ^ Suc k" by (simp add: div_less_iff_less_mult)
  then show ?case using Suc.IH [of "n div 10"] by (subst nat_digits.simps) simp
qed (subst nat_digits.simps, simp)

text \<open>The names are different when they fit.\<close>

lemma log_file_inj:
  assumes "length file \<le> 1000" "i < 2 ^ 31" "j < 2 ^ 31" "log_file file i = log_file file j"
  shows "i = j"
proof -
  have num: "numbered file k = file @ [46] @ print_d (word_of_nat k)" if k: "k < 2 ^ 31" for k
  proof -
    have s: "sint (word_of_nat k :: c_int) = int k"
    proof -
      have "signed_take_bit 31 (int k) = int k" by (rule signed_take_bit_int_eq_self) (use k in simp_all)
      then show ?thesis by (simp add: signed_of_nat)
    qed
    have "length (nat_digits k) \<le> Suc 9" by (rule nat_digits_length) (use k in simp)
    then show ?thesis using assms(1) s by (simp add: numbered_def snprintf_def print_d_def)
  qed
  show ?thesis
  proof (cases "i = 0 \<or> j = 0")
    case True
    then show ?thesis using assms(4) num [OF assms(2)] num [OF assms(3)] by (auto simp: log_file_def split: if_splits)
  next
    case False
    then have "print_d (word_of_nat i) = print_d (word_of_nat j)" using assms(4) num [OF assms(2)] num [OF assms(3)] by (simp add: log_file_def)
    then have "(word_of_nat i :: c_int) = word_of_nat j" by (metis atoi_print_d)
    moreover have "unat (word_of_nat i :: c_int) = i" "unat (word_of_nat j :: c_int) = j" using assms(2,3) by (simp_all add: unat_of_nat)
    ultimately show ?thesis by metis
  qed
qed

text \<open>Rotation drops at most the oldest file and keeps the rest in order.\<close>

lemma rename_at:
  "old \<noteq> new \<Longrightarrow> rename old new fs f = (if f = old then None else if f = new then (if fs old = None then fs new else fs old) else fs f)"
  by (simp add: rename_def)

lemma rotate_loop_step: "rotate_loop file (Suc i) fs = rotate_loop file i (rename (log_file file i) (log_file file (Suc i)) fs)"
  by (simp add: log_file_def)

lemma rotate_loop_ok:
  assumes len: "length file \<le> 1000"
  shows "n < 2 ^ 31 \<Longrightarrow> 0 < n \<Longrightarrow>
    (\<exists>d. history file n fs = d @ history file n (rotate_loop file n fs) \<and> (d = [] \<or> d = content fs (log_file file n))) \<and>
    rotate_loop file n fs file = None \<and>
    (\<forall>f. (\<forall>i \<le> n. f \<noteq> log_file file i) \<longrightarrow> rotate_loop file n fs f = fs f) \<and>
    (\<forall>i \<le> n. \<exists>j \<le> n. rotate_loop file n fs (log_file file i) = None \<or> rotate_loop file n fs (log_file file i) = fs (log_file file j))"
proof (induction n arbitrary: fs)
  case (Suc i)
  have ne: "log_file file j \<noteq> log_file file k" if "j \<le> Suc i" "k \<le> Suc i" "j \<noteq> k" for j k
    using log_file_inj [OF len, of j k] that Suc.prems(1) by auto
  let ?a = "log_file file i" and ?b = "log_file file (Suc i)"
  define fs1 where "fs1 = rename ?a ?b fs"
  have ab: "?a \<noteq> ?b" by (rule ne) simp_all
  note at = rename_at [OF ab, of fs, folded fs1_def]
  have low: "history file k fs1 = history file k fs" if "k < i" for k
    by (rule history_cong) (use that at ne in simp)
  show ?case
  proof (cases "i = 0")
    case True
    then have a: "?a = file" by (simp add: log_file_def)
    have r: "rotate_loop file (Suc i) fs = fs1" using True by (simp only: rotate_loop_step fs1_def rotate_loop.simps(1))
    have "\<exists>d. history file (Suc i) fs = d @ history file (Suc i) fs1 \<and> (d = [] \<or> d = content fs ?b)"
      using True at a ab by (cases "fs file") (auto simp: content_def)
    moreover have "\<exists>k \<le> Suc i. fs1 (log_file file j) = None \<or> fs1 (log_file file j) = fs (log_file file k)" if "j \<le> Suc i" for j
      using that at [of "log_file file j"] True by (cases "fs ?a") (auto simp: le_Suc_eq intro: exI [of _ "Suc 0"] exI [of _ "0 :: nat"])
    moreover have "fs1 file = None" using at a by simp
    moreover have "fs1 f = fs f" if "\<forall>j \<le> Suc i. f \<noteq> log_file file j" for f
      using that at [of f] by (metis le_SucI le_refl)
    ultimately show ?thesis unfolding r by blast
  next
    case False
    have r: "rotate_loop file (Suc i) fs = rotate_loop file i fs1" by (simp only: rotate_loop_step fs1_def)
    have i: "i < 2 ^ 31" "0 < i" using Suc.prems False by simp_all
    obtain d where d: "history file i fs1 = d @ history file i (rotate_loop file i fs1)" "d = [] \<or> d = content fs1 ?a"
        and F: "rotate_loop file i fs1 file = None" "\<forall>f. (\<forall>j \<le> i. f \<noteq> log_file file j) \<longrightarrow> rotate_loop file i fs1 f = fs1 f"
        and S: "\<forall>j \<le> i. \<exists>k \<le> i. rotate_loop file i fs1 (log_file file j) = None \<or> rotate_loop file i fs1 (log_file file j) = fs1 (log_file file k)"
      using Suc.IH [OF i, of fs1] by blast
    have "fs1 ?a = None" using at by simp
    then have same: "history file i (rotate_loop file i fs1) = history file i fs1" using d by (auto simp: content_def)
    have top: "rotate_loop file i fs1 ?b = fs1 ?b"
    proof -
      have "\<forall>j \<le> i. ?b \<noteq> log_file file j"
      proof (intro allI impI)
        fix j assume "j \<le> i"
        then show "?b \<noteq> log_file file j" by (intro ne) simp_all
      qed
      then show ?thesis using F(2) by blast
    qed
    obtain k where k: "i = Suc k" using i(2) by (cases i) auto
    have h: "history file i fs1 = history file k fs" using at low [of k] by (simp add: k content_def)
    have "\<exists>d. history file (Suc i) fs = d @ history file (Suc i) (rotate_loop file i fs1) \<and> (d = [] \<or> d = content fs ?b)"
    proof -
      have 1: "history file (Suc i) (rotate_loop file i fs1) = content fs1 ?b @ history file k fs"
        using top same h by (simp add: content_def)
      have 2: "history file (Suc i) fs = content fs ?b @ content fs ?a @ history file k fs" by (simp add: k)
      show ?thesis using 1 2 at [of ?b] ab by (cases "fs ?a") (auto simp: content_def)
    qed
    moreover have "rotate_loop file i fs1 f = fs f" if "\<forall>j \<le> Suc i. f \<noteq> log_file file j" for f
      using that F(2) at [of f] by (metis le_SucI le_refl)
    moreover have "\<exists>k \<le> Suc i. rotate_loop file i fs1 (log_file file j) = None \<or> rotate_loop file i fs1 (log_file file j) = fs (log_file file k)"
      if j: "j \<le> Suc i" for j
    proof -
      have one: "\<exists>k \<le> Suc i. fs1 (log_file file m) = None \<or> fs1 (log_file file m) = fs (log_file file k)" if "m \<le> Suc i" for m
        using at [of "log_file file m"] that by (metis le_SucI le_refl)
      show ?thesis
      proof (cases "j = Suc i")
        case True
        then show ?thesis using top one [of j] by simp
      next
        case False
        then show ?thesis using S j one by (metis le_SucI le_SucE)
      qed
    qed
    ultimately show ?thesis unfolding r using F(1) by blast
  qed
qed simp

lemma check_file_ok:
  assumes len: "0 < length file" "length file \<le> 1000" and max: "0 < mi_maxfile log" "mi_maxfile log < 2 ^ 31" "0 < mi_maxsize log"
  shows "\<exists>d fs1. check_file os file log fs = (0, fs1) \<and> history file (nat (mi_maxfile log)) fs = d @ history file (nat (mi_maxfile log)) fs1 \<and>
    (d = [] \<or> d = content fs (log_file file (nat (mi_maxfile log)))) \<and>
    (fs file \<noteq> None \<longrightarrow> int (length (content fs1 file)) \<le> mi_maxsize log) \<and>
    (\<forall>f. (\<forall>i \<le> nat (mi_maxfile log). f \<noteq> log_file file i) \<longrightarrow> fs1 f = fs f) \<and>
    (\<forall>i \<le> nat (mi_maxfile log). \<exists>j \<le> nat (mi_maxfile log). fs1 (log_file file i) = None \<or> fs1 (log_file file i) = fs (log_file file j))"
proof -
  let ?n = "nat (mi_maxfile log)" and ?sz = "case fs file of Some c \<Rightarrow> int (length c) | None \<Rightarrow> lo_size0 os"
  have n: "?n < 2 ^ 31" "0 < ?n" using max by (simp_all add: nat_less_iff)
  have c: "check_file os file log fs = (0, if mi_maxsize log < ?sz then rotate_loop file ?n fs else fs)"
    using len(1) max by (auto simp: check_file_def)
  show ?thesis
  proof (cases "mi_maxsize log < ?sz")
    case True
    have "content (rotate_loop file ?n fs) file = []" using rotate_loop_ok [OF len(2) n, of fs] by (simp add: content_def)
    then show ?thesis using rotate_loop_ok [OF len(2) n, of fs] c True max(3) by fastforce
  next
    case False
    then show ?thesis using c by (intro exI [of _ "[]"] exI [of _ fs]) (auto simp: content_def)
  qed
qed

text \<open>C30: the rotating log loses nothing but its oldest file. A message that the level lets through is appended, as one line, to the log - the files from the
  oldest to the newest, one after the other - and what the log held before is still there in order, except that a rotation may have dropped the whole
  of the oldest file, and nothing else. Files that are not of the log are not touched, and if no file is larger than the limit and one line before, none is
  afterwards.\<close>

theorem log_keeps_newest:
  assumes "name = snprintf 1024 (ms_file log @ snprintf 64 (lo_strftime os (ms_logtype log)))" "length name \<le> 1000" "ms_file log \<noteq> []"
    "level \<le> mi_level log" "msg \<noteq> []" "0 < mi_maxfile log" "mi_maxfile log < 2 ^ 31" "0 < mi_maxsize log" "\<not> mi_semopen log"
    "lo_open os name" "fs name \<noteq> None" "n = nat (mi_maxfile log)"
  shows "\<exists>fs' dropped. log_write os (Some msg) level 0 log fs = Some (0, fs') \<and>
    history name n fs @ log_line os msg 0 log = dropped @ history name n fs' \<and> (dropped = [] \<or> dropped = content fs (log_file name n)) \<and>
    (\<forall>f. (\<forall>i \<le> n. f \<noteq> log_file name i) \<longrightarrow> fs' f = fs f) \<and>
    ((\<forall>i \<le> n. int (length (content fs (log_file name i))) \<le> mi_maxsize log + 1023) \<longrightarrow>
     (\<forall>i \<le> n. int (length (content fs' (log_file name i))) \<le> mi_maxsize log + 1023))"
proof -
  let ?line = "log_line os msg 0 log"
  have len: "0 < length name" using assms(1,3) by (simp add: snprintf_def)
  obtain d fs1 where c: "check_file os name log fs = (0, fs1)" "history name n fs = d @ history name n fs1" "d = [] \<or> d = content fs (log_file name n)"
      "int (length (content fs1 name)) \<le> mi_maxsize log" "\<forall>f. (\<forall>i \<le> n. f \<noteq> log_file name i) \<longrightarrow> fs1 f = fs f"
      "\<forall>i \<le> n. \<exists>j \<le> n. fs1 (log_file name i) = None \<or> fs1 (log_file name i) = fs (log_file name j)"
    using check_file_ok [OF len assms(2,6,7,8), of os fs] assms(11,12) by blast
  define fs' where "fs' = fs1(name \<mapsto> content fs1 name @ ?line)"
  have "clib_log_write os name ?line fs1 = (0, fs')"
    using assms(10) by (auto simp: clib_log_write_def open_append_def fs'_def content_def split: option.split)
  then have w: "log_write os (Some msg) level 0 log fs = Some (0, fs')"
    using assms(1,3-5,9) c(1) by (simp add: log_write_def)
  have ne: "log_file name i \<noteq> name" if "i \<le> n" "0 < i" for i
  proof -
    have "n < 2 ^ 31" using assms(6,7,12) by (simp add: nat_less_iff)
    then show ?thesis using log_file_inj [OF assms(2), of i 0] that by (auto simp: log_file_def)
  qed
  have h: "history name m fs' = history name m fs1 @ ?line" if "m \<le> n" for m
    using that
  proof (induction m)
    case 0
    then show ?case by (simp add: fs'_def content_def)
  next
    case (Suc m)
    then show ?case using ne [of "Suc m"] by (simp add: fs'_def content_def)
  qed
  have "length ?line \<le> 1023" by (simp add: log_line_def snprintf_def Let_def)
  then have z: "int (length (content fs' name)) \<le> mi_maxsize log + 1023" using c(4) by (simp add: fs'_def content_def)
  have "int (length (content fs' (log_file name i))) \<le> mi_maxsize log + 1023"
    if b: "\<forall>i \<le> n. int (length (content fs (log_file name i))) \<le> mi_maxsize log + 1023" and i: "i \<le> n" for i
  proof (cases "i = 0")
    case True
    then show ?thesis using z by (simp add: log_file_def)
  next
    case False
    then have "content fs' (log_file name i) = content fs1 (log_file name i)" using ne [OF i] by (simp add: fs'_def content_def)
    moreover obtain j where "j \<le> n" "fs1 (log_file name i) = None \<or> fs1 (log_file name i) = fs (log_file name j)" using c(6) i by blast
    ultimately show ?thesis using b assms(8) by (auto simp: content_def)
  qed
  moreover have "fs' f = fs f" if "\<forall>i \<le> n. f \<noteq> log_file name i" for f
  proof -
    have "f \<noteq> name" using that by (metis le0 log_file_def)
    then show ?thesis using that c(5) by (simp add: fs'_def)
  qed
  ultimately show ?thesis using w c(2,3) h [OF order_refl] by (intro exI [of _ fs'] exI [of _ d]) auto
qed

text \<open>A log of two files and ten bytes, whose file is full.\<close>

definition log1 :: clib_log where
  "log1 = \<lparr>ms_file = [97], ms_tformat = [], ms_eol = [10], mi_level = 5, mi_maxfile = 1, mi_maxsize = 3, ms_logtype = [], mi_semopen = False, mi_semid = 0,
     mb_coloring = False, setUins = []\<rparr>"

definition log_os1 :: log_os where
  "log_os1 = \<lparr>lo_open = (\<lambda>_. True), lo_strftime = (\<lambda>_. []), lo_size0 = 0, lo_ftok = (\<lambda>_. -1), lo_semget = (\<lambda>_. (None, None, False)), lo_blocks = (\<lambda>_. False)\<rparr>"

theorem log_keeps_newest_witness:
  "\<exists>fs' d. log_write log_os1 (Some [120]) 1 0 log1 [[97] \<mapsto> [49, 50, 51, 52]] = Some (0, fs') \<and>
     history [97] 1 [[97] \<mapsto> [49, 50, 51, 52]] @ [120, 10] = d @ history [97] 1 fs' \<and> fs' [98] = None"
proof -
  let ?fs = "[[97] \<mapsto> [49, 50, 51, 52]] :: files"
  have l: "log_line log_os1 [120] 0 log1 = [120, 10]" by (simp add: log_line_def log1_def snprintf_def)
  have n: "\<forall>i \<le> 1. [98] \<noteq> log_file [97] i" by (simp add: log_file_def numbered_def snprintf_def)
  have h: "[97] = snprintf 1024 (ms_file log1 @ snprintf 64 (lo_strftime log_os1 (ms_logtype log1)))" "length [97 :: byte] \<le> 1000" "ms_file log1 \<noteq> []" "1 \<le> mi_level log1"
    "[120] \<noteq> ([] :: byte list)" "0 < mi_maxfile log1" "mi_maxfile log1 < 2 ^ 31" "0 < mi_maxsize log1" "\<not> mi_semopen log1" "lo_open log_os1 [97]"
    "?fs [97] \<noteq> None" "1 = nat (mi_maxfile log1)"
    by (simp_all add: log1_def log_os1_def snprintf_def)
  obtain fs' d where "log_write log_os1 (Some [120]) 1 0 log1 ?fs = Some (0, fs')" "history [97] 1 ?fs @ [120, 10] = d @ history [97] 1 fs'"
      "\<forall>f. (\<forall>i \<le> 1. f \<noteq> log_file [97] i) \<longrightarrow> fs' f = ?fs f"
    using log_keeps_newest [where log = log1 and os = log_os1 and name = "[97]" and fs = ?fs and n = 1 and msg = "[120]" and level = 1, OF h] unfolding l by blast
  moreover from this(3) n have "fs' [98] = ?fs [98]" by blast
  ultimately show ?thesis by (intro exI [of _ fs'] exI [of _ d]) simp
qed

section \<open>The log of the framework\<close>

text \<open>\<open>src/core/log.cpp\<close>: a ring of files. \<open>al_leaked\<close> counts the descriptors that are opened and not closed; \<open>fstat\<close> of an open file succeeds.\<close>

abbreviation LOGSIZE :: nat where "LOGSIZE \<equiv> 1 * 1024 * 1024"
abbreviation MAX_PATH_LEN :: nat where "MAX_PATH_LEN \<equiv> 256"

record app_log =
  al_level :: int
  al_stdout :: bool
  al_dir :: "byte list"
  al_appname :: "byte list"
  al_max_file_num :: int
  al_max_file_size :: int
  al_cur_file_pos :: int
  al_leaked :: nat

definition app_log0 :: app_log where
  "app_log0 = \<lparr>al_level = 6, al_stdout = False, al_dir = bytes_of_string ''../log'', al_appname = [], al_max_file_num = 3, al_max_file_size = 50 * 1024 * 1024,
     al_cur_file_pos = 0, al_leaked = 0\<rparr>"

definition init_log :: "byte list \<Rightarrow> byte list option \<Rightarrow> int \<Rightarrow> int \<Rightarrow> app_log \<Rightarrow> app_log" where
  "init_log app dir max_num max_size st =
     (let st = st\<lparr>al_appname := take 31 app\<rparr>;
          st = (case dir of None \<Rightarrow> st | Some d \<Rightarrow> st\<lparr>al_dir := take 127 d\<rparr>);
          st = (if 0 < max_num then st\<lparr>al_max_file_num := max_num\<rparr> else st)
      in if 0 < max_size then st\<lparr>al_max_file_size := max_size\<rparr> else st)"

definition set_log_level :: "int \<Rightarrow> app_log \<Rightarrow> app_log" where
  "set_log_level l st = (if 0 \<le> l then st\<lparr>al_level := (if 4 < l then l else 4)\<rparr> else st)"

definition set_log_stdout :: "bool \<Rightarrow> app_log \<Rightarrow> app_log" where
  "set_log_stdout l st = st\<lparr>al_stdout := l\<rparr>"

definition ring_file :: "app_log \<Rightarrow> byte list" where
  "ring_file st = snprintf (MAX_PATH_LEN - 1) (al_dir st @ [47] @ al_appname st @ [95] @ print_d (word_of_int (al_cur_file_pos st)) @ bytes_of_string ''.log'')"

text \<open>The loop looks for a file that is not full; after the first it truncates.\<close>

partial_function (option) open_loop :: "log_os \<Rightarrow> bool \<Rightarrow> app_log \<Rightarrow> files \<Rightarrow> (byte list option \<times> app_log \<times> files) option" where
  "open_loop os btruncate st fs =
     (if al_appname st = [] then Some (None, st, fs)
      else
        let logfile = ring_file st in
        if \<not> lo_open os logfile then Some (None, st, fs)
        else
          let fs = (if btruncate \<or> fs logfile = None then fs(logfile \<mapsto> []) else fs) in
          if al_max_file_size st \<le> int (length (content fs logfile))
          then open_loop os True (st\<lparr>al_cur_file_pos := (al_cur_file_pos st + 1) mod al_max_file_num st\<rparr>) fs
          else Some (Some logfile, st, fs))"

text \<open>The line: the header, which is shorter than the buffer, and what \<open>vsnprintf\<close> makes of the message in the rest; the position after a message that does not
  fit is that of its terminator.\<close>

definition log_text :: "byte list \<Rightarrow> byte list \<Rightarrow> byte list" where
  "log_text header msg =
     (let room = LOGSIZE - length header - 2;
          buf = (if room \<le> length msg then header @ take (room - 1) msg @ [0] else header @ msg)
      in if last buf \<noteq> 10 then buf @ [10] else buf)"

definition write_log :: "log_os \<Rightarrow> byte list \<Rightarrow> byte list \<Rightarrow> app_log \<Rightarrow> files \<Rightarrow> (app_log \<times> files) option" where
  "write_log os header msg st fs =
     do {
       (f, st, fs) \<leftarrow> open_loop os False st fs;
       case f of None \<Rightarrow> Some (st, fs)
       | Some logfile \<Rightarrow>
           if al_stdout st then Some (st\<lparr>al_leaked := Suc (al_leaked st)\<rparr>, fs)
           else Some (st, fs(logfile \<mapsto> content fs logfile @ log_text header msg))
     }"

text \<open>The loop makes at most one step when files may have a positive size.\<close>

lemma open_loop_ok:
  assumes "0 < al_max_file_size st"
  shows "\<exists>f st' fs'. open_loop os trunc st fs = Some (f, st', fs') \<and> al_leaked st' = al_leaked st \<and> al_stdout st' = al_stdout st \<and>
    st' = st\<lparr>al_cur_file_pos := al_cur_file_pos st'\<rparr> \<and> al_cur_file_pos st' \<in> {al_cur_file_pos st, (al_cur_file_pos st + 1) mod al_max_file_num st} \<and>
    (\<forall>g. f = Some g \<longrightarrow> g = ring_file st' \<and> int (length (content fs' g)) < al_max_file_size st \<and>
       (content fs' g = content fs g \<or> content fs' g = [])) \<and>
    (\<forall>g. f \<noteq> Some g \<longrightarrow> content fs' g = content fs g) \<and> (al_appname st \<noteq> [] \<and> (\<forall>f. lo_open os f) \<longrightarrow> f \<noteq> None)"
proof -
  let ?st = "st\<lparr>al_cur_file_pos := (al_cur_file_pos st + 1) mod al_max_file_num st\<rparr>"
  have id: "st = st\<lparr>al_cur_file_pos := al_cur_file_pos st\<rparr>" by simp
  have T: "open_loop os True st1 fs1 =
     (if al_appname st1 = [] \<or> \<not> lo_open os (ring_file st1) then Some (None, st1, fs1)
      else Some (Some (ring_file st1), st1, fs1(ring_file st1 \<mapsto> [])))" if "0 < al_max_file_size st1" for st1 fs1
    using that by (subst open_loop.simps) (simp add: content_def Let_def)
  show ?thesis
  proof (cases trunc)
    case True
    then show ?thesis using T [OF assms, of fs] assms by (auto simp: content_def)
  next
    case False
    show ?thesis
    proof (cases "al_appname st = [] \<or> \<not> lo_open os (ring_file st) \<or> int (length (content fs (ring_file st))) < al_max_file_size st")
      case True
      then show ?thesis using False assms by (subst open_loop.simps) (auto simp: content_def Let_def split: option.splits)
    next
      case full: False
      then have "fs (ring_file st) \<noteq> None" using assms by (cases "fs (ring_file st)") (auto simp: content_def)
      then have "open_loop os trunc st fs = open_loop os True ?st fs" using False full by (subst open_loop.simps) (auto simp: Let_def)
      then show ?thesis using T [of ?st fs] assms by (auto simp: content_def)
    qed
  qed
qed

text \<open>Writing a line ends. When the file can be opened, the line is at the end of a file of the ring, the current one or, emptied, the next; that file
  is at most one buffer larger than the limit, and no other file changes. With output to the screen switched on instead, the descriptor of the file is
  not closed: every line leaks one.\<close>

lemma log_text_length: "length header + 2 < LOGSIZE \<Longrightarrow> length (log_text header msg) \<le> LOGSIZE"
  by (auto simp: log_text_def Let_def)

lemma write_log_ends:
  assumes size: "0 < al_max_file_size st" and hd: "length header + 2 < LOGSIZE"
  shows "\<exists>st' fs'. write_log os header msg st fs = Some (st', fs') \<and> al_cur_file_pos st' \<in> {al_cur_file_pos st, (al_cur_file_pos st + 1) mod al_max_file_num st} \<and>
    (al_appname st \<noteq> [] \<and> (\<forall>f. lo_open os f) \<longrightarrow>
       (if al_stdout st then al_leaked st' = Suc (al_leaked st)
        else al_leaked st' = al_leaked st \<and> (\<exists>old. (old = content fs (ring_file st') \<or> old = []) \<and>
          content fs' (ring_file st') = old @ log_text header msg \<and> int (length (content fs' (ring_file st'))) < al_max_file_size st + int LOGSIZE) \<and>
          (\<forall>g. g \<noteq> ring_file st' \<longrightarrow> content fs' g = content fs g)))"
proof -
  obtain f st' fs1 where o: "open_loop os False st fs = Some (f, st', fs1)" "al_leaked st' = al_leaked st" "al_stdout st' = al_stdout st"
      "st' = st\<lparr>al_cur_file_pos := al_cur_file_pos st'\<rparr>" "al_cur_file_pos st' \<in> {al_cur_file_pos st, (al_cur_file_pos st + 1) mod al_max_file_num st}"
      "\<forall>g. f = Some g \<longrightarrow> g = ring_file st' \<and> int (length (content fs1 g)) < al_max_file_size st \<and> (content fs1 g = content fs g \<or> content fs1 g = [])"
      "\<forall>g. f \<noteq> Some g \<longrightarrow> content fs1 g = content fs g"
      "al_appname st \<noteq> [] \<and> (\<forall>f. lo_open os f) \<longrightarrow> f \<noteq> None"
    using open_loop_ok [OF size, of os False fs] by blast
  show ?thesis
  proof (cases f)
    case None
    then show ?thesis using o by (intro exI [of _ st'] exI [of _ fs1]) (auto simp: write_log_def)
  next
    case (Some g)
    then have g: "g = ring_file st'" "int (length (content fs1 g)) < al_max_file_size st" "content fs1 g = content fs g \<or> content fs1 g = []" using o(6) by auto
    have l: "length (log_text header msg) \<le> LOGSIZE" by (rule log_text_length) (use hd in simp)
    show ?thesis
    proof (cases "al_stdout st")
      case True
      then show ?thesis using o(1-3,5) Some
        by (intro exI [of _ "st'\<lparr>al_leaked := Suc (al_leaked st')\<rparr>"] exI [of _ fs1]) (simp add: write_log_def)
    next
      case False
      let ?fs = "fs1(g \<mapsto> content fs1 g @ log_text header msg)"
      have c: "content ?fs g = content fs1 g @ log_text header msg" "\<And>h. h \<noteq> g \<Longrightarrow> content ?fs h = content fs h"
        using o(7) Some by (auto simp: content_def)
      have "int (length (content ?fs g)) < al_max_file_size st + int LOGSIZE" using c(1) g(2) l by simp
      then show ?thesis using o(1-3,5) Some False c g(1,3)
        by (intro exI [of _ st'] exI [of _ ?fs]) (auto simp: write_log_def)
    qed
  qed
qed

end
