(* ===== verification/Spec2Isabelle.thy ===== *)
theory Spec2Isabelle
  imports EventLoop Logging
begin

text \<open>
  A verification development of TeenpattiUserServer, the user server of a card game.

  \<^bold>\<open>The program.\<close> One process keeps, in a shared memory segment, a record for every user who is online: the hall server that holds the
  connection, the table, the terminal type, the level of the game server and the time of the last update (\<open>Server/GameUser.h\<close>). Hall and
  game servers connect to it and send packets (\<open>Server/ClientHandler.cpp\<close>): logins and disconnections of clients, users entering and leaving tables,
  servers going down, requests for the table or the hall of a user. Three timers (\<open>Server/Options.cpp\<close>) report statistics, remove users
  who have been offline for five minutes, and remove records that were not updated for hours. Statistics per terminal type and
  level (\<open>Server/Stat.cpp\<close>) are sent to a statistics server (\<open>Server/CBackServer.cpp\<close>), which sends back totals. The addresses of
  game servers and the tables of users after a restart come from memcached.

  \<^bold>\<open>The theories.\<close> From the bottom up:
  \<^item> \<open>Prelude\<close>: the types of C values (\<open>c_int\<close>, \<open>c_short\<close>, \<open>byte\<close> are words), memory as a function from addresses to bytes, byte order, linked lists
    given by a successor function, and the collections \<open>byte_simps\<close> and \<open>packet_simps\<close>.
  \<^item> \<open>DataPacket\<close> (\<open>Server/Data_PacketBase.h\<close>) and \<open>Packet\<close> (\<open>Server/Packet.h\<close>, \<open>Packet.cpp\<close>): packet buffers with their cursor, in host
    and in network byte order, and the substitution cipher with its check code.
  \<^item> \<open>ChunkAlloc\<close>, \<open>HashMap\<close>, \<open>HashMapLists\<close>, \<open>HashMapInv\<close>, \<open>ShmHashMap\<close> (\<open>Server/ChunkAlloc.*\<close>, \<open>HashMap.hpp\<close>, \<open>HashMapImp.hpp\<close>, \<open>ShmHashMap.hpp\<close>,
    \<open>SVShm.cpp\<close>): the allocator of chunks, the hash table with its free list, bucket lists and list of last use, and the segment. Handles
    are integers; an access to a handle that is not a node is undefined. \<open>HashMapInv\<close> states the representation \<open>hm_rep\<close> and proves each operation
    against an association list in order of last use.
  \<^item> \<open>GameUser\<close> (\<open>GameUser.*\<close>, \<open>GameUserSHM.*\<close>): the user record and its bytes, and the store. The interface \<open>user_store\<close> is the contract
    the server relies on; the model of the store is its interpretation \<open>us\<close>.
  \<^item> \<open>StdMap\<close>, \<open>CStrings\<close>: \<open>std::map\<close> as a sorted association list (interface \<open>ordered_map\<close>), \<open>strtok_r\<close>, \<open>atoi\<close>, \<open>%d\<close>, \<open>split_str\<close>.
  \<^item> \<open>IniParser\<close> (\<open>Server/IniFile.*\<close>): the configuration file as bytes, its search for sections and keys, reading and rewriting. The searches for a key
    share the interface \<open>key_search\<close>.
  \<^item> \<open>Stat\<close>, \<open>Options\<close>, \<open>BackServer\<close>, \<open>Server\<close>, \<open>ClientHandler\<close>: the counters, the options with server list, offline list and timers, the connection to
    the statistics server, the timer handlers and the start, and the handlers of packets.
  \<^item> \<open>ServerInv\<close>, \<open>ClientInv\<close>, \<open>ClientPackets\<close>: the invariant \<open>server_ok\<close> (the store is well formed with a list of users, the maps are ordered, and the
    users online of each terminal type are those stored) and that every timer handler and every packet handler returns and keeps it. The interface
    \<open>safe_handler\<close> is the contract of a packet handler; each handler is an interpretation of it.
  \<^item> \<open>Service\<close>: the dispatch, the events of the main loop, and \<open>server_state\<close>, the states reachable from a start on a machine without
    the segment.
  \<^item> \<open>MemPool\<close>, \<open>Cache\<close> (\<open>src/core/mempool.*\<close>, \<open>cache.*\<close>): the pool of blocks and the buffers of a connection, as queues of bytes.
  \<^item> \<open>Decoder\<close> (\<open>include/CCStreamDecoder.h\<close>, \<open>Server/BoyaaDecoder.h\<close>): where a packet ends in a stream.
  \<^item> \<open>Poller\<close> (\<open>src/core/poller.*\<close>): the table of slots and the dispatch of events; \<open>ListHead\<close> and \<open>TimerList\<close> (\<open>include/list.h\<close>,
    \<open>src/core/timerlist.*\<close>, \<open>ICC_Timer_Handler.h\<close>, \<open>Server/Timer.h\<close>): doubly linked lists and the lists of timers, with the interface \<open>timer_client\<close>
    of what a timer's handler owes to the walk over the lists.
  \<^item> \<open>SocketHandler\<close>, \<open>Connection\<close>, \<open>SocketServer\<close> (\<open>src/CCSocketHandler.*\<close>, \<open>src/CCSocketServer.*\<close>, the TCP functions of \<open>src/core/net.cpp\<close>): a
    connection, what it does with a stream of bytes (interface \<open>packet_client\<close>, of which \<open>ClientHandler\<close> is an interpretation), and the
    listening socket.
  \<^item> \<open>Startup\<close>, \<open>EventLoop\<close> (\<open>Server/Main.cpp\<close>, \<open>src/CCReactor.cpp\<close>): \<open>main\<close> up to the event loop and the turns of the loop over the timers of the server.
  \<^item> \<open>Logging\<close> (\<open>Server/clib_log.*\<close>, \<open>src/core/log.cpp\<close>): the log files of the server and of the framework with their rotation.
  \<^item> \<open>Samples\<close>: the concrete inputs at which properties are instantiated.

  \<^bold>\<open>State and effects.\<close> \<open>UserServer\<close> gathers the global objects. A handler is a function from the environment, the packet and the state to an option: the value
  \<^term>\<open>None\<close> is undefined behaviour (an access outside a buffer, a negative length given to \<open>memcpy\<close>, a division by zero, a dangling handle) or
  a loop that does not end. Loops over handles are \<open>partial_function (option)\<close>, so every theorem that a function returns shows that its loop ends. The
  environment \<open>env\<close> holds what one event sees of the outside: the time, the answers of memcached, \<open>rand\<close> after \<open>srand\<close>, the content of each file.
  Operating system calls on shared memory are a parameter \<open>shm_os\<close>. In the model of the handlers, bytes handed to \<open>Send\<close> are appended to \<open>w_sent\<close>;
  \<open>client_OnPacketComplete\<close> of \<open>Connection\<close> hands them to the socket.
  In the theories of the framework the results of system calls are functions of the number of calls made so far (\<open>epoll_ctl\<close> by the log of its
  calls, \<open>send\<close>, \<open>accept\<close> and \<open>connect\<close> by \<open>nt_calls\<close>, the clock by \<open>tl_reads\<close>), so a theorem holds for every behaviour of the kernel that its
  hypotheses allow. Objects are addresses; new ones come from \<open>nt_new\<close> and \<open>tl_new\<close>. An exception that nobody catches is the outcome \<open>Thrown\<close>. There is
  no fuel anywhere: loops are structural or \<open>partial_function (option)\<close>.

  \<^bold>\<open>What is shown.\<close> This theory: in every reachable state the counters of users online agree with the store and every admissible event is handled
  (\<open>online_counts_exact\<close>, \<open>events_handled\<close>); what the timers remove; the effect of logins, room reports, disconnections and servers going down on the
  store, the offline list and the packets sent; and three places where the code does not do what it means to (a full store, an
  oversized packet, a random limit of zero). \<open>EventLoop\<close>, \<open>Startup\<close>: \<open>main\<close> reaches the event loop and from then on no periodic check is lost. \<open>GameUser\<close>: the
  store refines a bounded map, and how the segment is opened. \<open>Packet\<close>: round trip and corruption of encrypted messages, the negative length.
  \<open>BackServer\<close>: the report and the totals. \<open>IniParser\<close>: what is written in a file is read back, what is set is updated, every read ends.
  \<open>Options\<close>: server records of memcached. \<open>Stat\<close>: the counters stay within bounds. \<open>Connection\<close>: what the server sees and what leaves a
  connection depends on the streams of bytes only, not on how the kernel cuts them. \<open>SocketServer\<close>: accepted connections are registered or closed, and two
  cases where they are not. \<open>Poller\<close>: events reach the object that registered them, and no slot is misused. \<open>TimerList\<close>: due timers fire and the walk ends.
  \<open>Logging\<close>: a rotation loses nothing but the oldest file. \<open>Cache\<close>, \<open>MemPool\<close>, \<open>ListHead\<close>, \<open>Decoder\<close>: buffers are queues, blocks are handed out once, links are lists, packets are cut where they end.

  \<^bold>\<open>Assumptions on packets.\<close> \<open>admissible\<close> lists what the server relies on its peers for: a client packet has a length that is not negative and
  arrives while the store has room and the random limit is not zero, and the key of the command that rereads the configuration is a terminated string.
  \<open>env_small\<close> bounds the size of a memcached value, and \<open>server_ok\<close> the capacity of the store by \<open>2 ^ 31\<close>.

  \<^bold>\<open>Not modelled.\<close> The composition of the logs with the handlers, on which they have no effect, and \<open>write_access\<close>, which nothing calls; the XML parser \<open>MarkupSTL\<close>, which is third-party code, and
  \<open>config\<close>, which reads it and is not used by the server; of the framework, \<open>CCReactor::Connect\<close>, the functions of \<open>net.cpp\<close> for UDP and unix sockets,
  \<open>tm_task\<close>, \<open>ConnCache\<close> and \<open>memcheck\<close>, which the server does not call; atomic operations and locks, which the single-threaded server does not
  contend for. The event loop is composed with the timers and with the events of the server; that the bytes on a connection give those events is the subject of
  \<open>Connection\<close>. A process restart on an existing segment is covered by \<open>Init_existing_segment\<close> but is not a start of \<open>server_state\<close>.
\<close>

section \<open>The server as a whole\<close>





text \<open>C9: the offline check, run every five minutes, removes exactly the users listed as offline for five minutes or more, takes them off the
  list, leaves every other user and entry alone and starts its timer again.\<close>

theorem offline_check_removes_expired:
  assumes "server_state os mem w"
  shows "\<exists>w'. ProcessOfflineCheck e w = Some w' \<and>
     (\<forall>k. stored w' k = (case sm_find k (m_OfflineUserMgr (w_opt w)) of
        Some t \<Rightarrow> if 300 \<le> sint (env_now e - t) then None else stored w k | None \<Rightarrow> stored w k)) \<and>
     m_OfflineUserMgr (w_opt w') = filter (\<lambda>(k, t). \<not> 300 \<le> sint (env_now e - t)) (m_OfflineUserMgr (w_opt w)) \<and>
     tm_armed (m_CheckOfflineTimer (w_opt w'))"
proof -
  obtain f U where ok: "server_ok w f U" using server_state_ok [OF assms] by blast
  obtain w' f' U' where r: "ProcessOfflineCheck e w = Some w'" "server_ok w' f' U'"
      "\<forall>k. map_of U' k = (case sm_find k (m_OfflineUserMgr (w_opt w)) of
        Some t \<Rightarrow> if 300 \<le> sint (env_now e - t) then None else map_of U k | None \<Rightarrow> map_of U k)"
      "m_OfflineUserMgr (w_opt w') = filter (\<lambda>(k, t). \<not> 300 \<le> sint (env_now e - t)) (m_OfflineUserMgr (w_opt w))"
      "tm_armed (m_CheckOfflineTimer (w_opt w'))"
    using ProcessOfflineCheck_ok [OF ok, of e] by blast
  then show ?thesis unfolding stored_ok(2) [OF ok] by (intro exI [of _ w']) (simp add: stored_ok(2) [OF r(2)])
qed

theorem offline_check_removes_expired_witness:
  "\<exists>w w'. server_state os_fresh memory0 w \<and> ProcessOfflineCheck env0 w = Some w' \<and> tm_armed (m_CheckOfflineTimer (w_opt w'))"
  using started_0 offline_check_removes_expired [of os_fresh memory0 _ env0] by blast

text \<open>C10: the flush check removes exactly the users whose record is older than an hour, or than two hours for a user at a table, and keeps the
  others in their order.\<close>

theorem flush_check_removes_stale:
  assumes "server_state os mem w"
  shows "\<exists>w'. ProcessFlushCheck e w = Some w' \<and>
     stored_users w' = filter (\<lambda>u. \<not> (if m_nTid u = 0 then 3600 \<le> sint (env_now e - m_nUpdateTime u)
        else 7200 \<le> sint (env_now e - m_nUpdateTime u))) (stored_users w) \<and>
     tm_armed (m_CheckFlushTimer (w_opt w'))"
proof -
  obtain f U where ok: "server_ok w f U" using server_state_ok [OF assms] by blast
  obtain w' f' U' where r: "ProcessFlushCheck e w = Some w'" "server_ok w' f' U'" "U' = filter (\<lambda>(k, u). \<not> stale (env_now e) u) U"
      "tm_armed (m_CheckFlushTimer (w_opt w'))"
    using ProcessFlushCheck_ok [OF ok, of e] by blast
  have "stored_users w' = filter (\<lambda>u. \<not> stale (env_now e) u) (stored_users w)"
    unfolding stored_ok(1) [OF ok] stored_ok(1) [OF r(2)] r(3) by (simp add: filter_map comp_def case_prod_unfold)
  then show ?thesis using r(1,4) by (auto simp: stale_def)
qed

theorem flush_check_removes_stale_witness:
  "\<exists>w w'. server_state os_fresh memory0 w \<and> ProcessFlushCheck env0 w = Some w' \<and> tm_armed (m_CheckFlushTimer (w_opt w'))"
  using started_0 flush_check_removes_stale [of os_fresh memory0 _ env0] by blast

text \<open>C23: the traversal that the start, the flush check and the handlers of a lost server share ends in every reachable state and gives each stored user to
  its loop body exactly once, in order of last use.\<close>

theorem traversal_ends:
  assumes "server_state os mem w"
  shows "visit_users body (m_ShmHashMap (w_gshm w)) (vistor_begin (m_ShmHashMap (w_gshm w))) a = Some (fold body (stored_users w) a)"
proof -
  obtain f U where ok: "server_ok w f U" using server_state_ok [OF assms] by blast
  show ?thesis using visit_users_rep [OF server_okD(1) [OF ok], of body a] by (simp add: stored_ok(1) [OF ok] fold_map comp_def)
qed

theorem traversal_ends_witness:
  "\<exists>w. server_state os_fresh memory0 w \<and>
     visit_users start_user (m_ShmHashMap (w_gshm w)) (vistor_begin (m_ShmHashMap (w_gshm w))) CStat_new = Some (fold start_user (stored_users w) CStat_new)"
proof -
  obtain w where w: "server_state os_fresh memory0 w" using started_0 by blast
  then show ?thesis using traversal_ends [OF w, of start_user CStat_new] by blast
qed

section \<open>What the handlers do\<close>

text \<open>C6: a login of a user already in the store keeps the user's table and records the new hall, terminal type and time; no other user changes.
  When the user was on another hall, that hall is told to kick the user out and to close the connection before the login is
  confirmed; otherwise only the confirmation is sent.\<close>

theorem login_known_user:
  assumes "env_small e" "server_ok w f U" "In_ReadInt p = Some (uid, q1)" "In_ReadShort q1 = Some (t, q)" "0 < sint uid" "stored w uid = Some v"
  shows "\<exists>w' l ms m. ProcessUserLogin e nUid nSvid p w = Some (0, q, w') \<and>
     stored w' = (stored w)(uid \<mapsto> v\<lparr>m_nTerminalType := t, m_nHallServerId := nSvid, m_nUpdateTime := env_now e, m_nServerLevel := l\<rparr>) \<and>
     w_sent w' = w_sent w @ ms @ [m] \<and>
     (if nSvid \<noteq> m_nHallServerId v \<and> m_nHallServerId v \<noteq> -1 then kick_out nUid (m_nHallServerId v) ms else ms = [])"
proof -
  have v: "map_of U uid = Some v" using assms(6) stored_ok(2) [OF assms(2)] by simp
  obtain w' f' V l ms m where r: "ProcessUserLogin e nUid nSvid p w = Some (0, q, w')" "server_ok w' f' V" "length V + f' = length U + f"
      "map_of V = (map_of U)(uid \<mapsto> v\<lparr>m_nTerminalType := t, m_nHallServerId := nSvid, m_nUpdateTime := env_now e, m_nServerLevel := l\<rparr>)"
      "w_sent w' = w_sent w @ ms @ [m]"
      "if nSvid \<noteq> m_nHallServerId v \<and> m_nHallServerId v \<noteq> -1 then kick_out nUid (m_nHallServerId v) ms else ms = []"
    by (rule login_known_result [OF assms(1,3,4,2,5) v, of nUid nSvid])
  show ?thesis
    by (intro exI [of _ w'] exI [of _ l] exI [of _ ms] exI [of _ m] conjI r(1,5,6)) (simp add: r(4) stored_ok(2) [OF assms(2)] stored_ok(2) [OF r(2)])
qed

theorem login_known_user_witness:
  "\<exists>w w' ms m q. stored w 5 = Some user5 \<and> ProcessUserLogin env0 5 9 packet5 w = Some (0, q, w') \<and>
     w_sent w' = w_sent w @ ms @ [m] \<and> kick_out 5 3 ms"
proof -
  obtain w where w: "server_ok w 1 [(5, user5)]" "stored w 5 = Some user5" by (rule user5_state)
  obtain q1 where q1: "In_ReadInt packet5 = Some (5, q1)" "pk_wf 8192 q1" by (rule packet5_reads)
  obtain t q where q: "In_ReadShort q1 = Some (t, q)" by (rule In_ReadShort_total [OF q1(2)])
  have h: "m_nHallServerId user5 = 3" by (simp add: user5_def CGameUser_new_def)
  show ?thesis using login_known_user [OF env_small_0 w(1) q1(1) q _ w(2), of 5 9] w(2) unfolding h by auto
qed

text \<open>C7: a login of a user not in the store, while the store has room, stores the user with the hall, terminal type and time of the login and changes no
  other user.\<close>

theorem login_new_user:
  assumes "env_small e" "server_ok w f U" "In_ReadInt p = Some (uid, q1)" "In_ReadShort q1 = Some (t, q)" "0 < sint uid" "stored w uid = None"
    "has_room w"
  shows "\<exists>w' u. ProcessUserLogin e nUid nSvid p w = Some (0, q, w') \<and> stored w' = (stored w)(uid \<mapsto> u) \<and> m_nUid u = uid \<and>
     m_nTerminalType u = t \<and> m_nHallServerId u = nSvid \<and> m_nUpdateTime u = env_now e"
proof -
  have v: "map_of U uid = None" using assms(6) stored_ok(2) [OF assms(2)] by simp
  have f: "0 < f" using assms(7) has_room_iff [OF assms(2)] by simp
  obtain w' f' V u where r: "ProcessUserLogin e nUid nSvid p w = Some (0, q, w')" "server_ok w' f' V" "length V + f' = length U + f"
      "map_of V = (map_of U)(uid \<mapsto> u)" "m_nUid u = uid" "m_nTerminalType u = t" "m_nHallServerId u = nSvid" "m_nUpdateTime u = env_now e"
    by (rule login_new_result [OF assms(1,3,4,2,5) v f, of nUid nSvid])
  show ?thesis
    by (intro exI [of _ w'] exI [of _ u] conjI r(1,5-8)) (simp add: r(4) stored_ok(2) [OF assms(2)] stored_ok(2) [OF r(2)])
qed

theorem login_new_user_witness:
  "\<exists>w w' u q. stored w 5 = None \<and> ProcessUserLogin env0 5 9 packet5 w = Some (0, q, w') \<and> stored w' 5 = Some u \<and> m_nHallServerId u = 9"
proof -
  obtain w where w: "server_ok w 2 []" by (rule empty_state)
  have n: "stored w 5 = None" "has_room w" using stored_ok(2) [OF w] has_room_iff [OF w] by simp_all
  obtain q1 where q1: "In_ReadInt packet5 = Some (5, q1)" "pk_wf 8192 q1" by (rule packet5_reads)
  obtain t q where q: "In_ReadShort q1 = Some (t, q)" by (rule In_ReadShort_total [OF q1(2)])
  show ?thesis using login_new_user [OF env_small_0 w q1(1) q _ n, of 5 9] n(1) by auto
qed



text \<open>C11: entering a room records the table and the time of a known user and takes over the level of the table's server when that server is known;
  an unknown user changes nothing, and no other user is affected.\<close>

theorem enter_room_records_table:
  assumes "env_small e" "server_ok w f U" "In_ReadInt p = Some (uid, q1)" "In_ReadInt q1 = Some (tid, q)"
  shows "\<exists>w'. ProcessReportUserEnterRoom e p w = Some (0, q, w') \<and>
     stored w' = (case stored w uid of None \<Rightarrow> stored w | Some v \<Rightarrow> (stored w)(uid \<mapsto> v\<lparr>m_nTid := tid, m_nUpdateTime := env_now e,
        m_nServerLevel := (case fst (find_server e (server_of_tid tid) (w_opt w)) of None \<Rightarrow> m_nServerLevel v | Some x \<Rightarrow> ls_nLevel x)\<rparr>))"
proof (cases "map_of U uid")
  case None
  then show ?thesis using enter_result(1) [OF assms None] stored_ok(2) [OF assms(2)] by simp
next
  case (Some v)
  obtain w' where r: "ProcessReportUserEnterRoom e p w = Some (0, q, w')" "server_ok w' f (lru_set uid (v\<lparr>m_nTid := tid, m_nUpdateTime := env_now e,
        m_nServerLevel := (case fst (find_server e (server_of_tid tid) (w_opt w)) of None \<Rightarrow> m_nServerLevel v | Some x \<Rightarrow> ls_nLevel x)\<rparr>) U)"
    using enter_result(2) [OF assms Some] by blast
  then show ?thesis using Some stored_ok(2) [OF assms(2)] stored_ok(2) [OF r(2)] by (simp add: lru_map_of)
qed

theorem enter_room_records_table_witness:
  "\<exists>w w' v q. ProcessReportUserEnterRoom env0 packet5 w = Some (0, q, w') \<and> stored w 5 = Some user5 \<and> stored w' 5 = Some v \<and> m_nTid v = 65537"
proof -
  obtain w where w: "server_ok w 1 [(5, user5)]" "stored w 5 = Some user5" by (rule user5_state)
  obtain q1 q where q: "In_ReadInt packet5 = Some (5, q1)" "In_ReadInt q1 = Some (65537, q)" by (rule packet5_reads)
  obtain w' v where "ProcessReportUserEnterRoom env0 packet5 w = Some (0, q, w')" "stored w' = (stored w)(5 \<mapsto> v)" "m_nTid v = 65537"
    using enter_room_records_table [OF env_small_0 w(1) q] w(2) by fastforce
  then show ?thesis using w(2) by (intro exI [of _ w] exI [of _ w'] exI [of _ v] exI [of _ q]) simp
qed

text \<open>Leaving a room clears the table and the level of a known user; an unknown user changes nothing.\<close>

theorem leave_room_clears_table:
  assumes "server_ok w f U" "In_ReadInt p = Some (uid, q)"
  shows "\<exists>w'. ProcessReportUserLeaveRoom e p w = Some (0, q, w') \<and>
     stored w' = (case stored w uid of None \<Rightarrow> stored w
        | Some v \<Rightarrow> (stored w)(uid \<mapsto> v\<lparr>m_nTid := 0, m_nUpdateTime := env_now e, m_nServerLevel := -1\<rparr>))"
proof (cases "map_of U uid")
  case None
  then show ?thesis using leave_result(1) [OF assms None] stored_ok(2) [OF assms(1)] by simp
next
  case (Some v)
  obtain w' where r: "ProcessReportUserLeaveRoom e p w = Some (0, q, w')"
      "server_ok w' f (lru_set uid (v\<lparr>m_nTid := 0, m_nUpdateTime := env_now e, m_nServerLevel := -1\<rparr>) U)"
    using leave_result(2) [OF assms Some] by blast
  then show ?thesis using Some stored_ok(2) [OF assms(1)] stored_ok(2) [OF r(2)] by (simp add: lru_map_of)
qed

theorem leave_room_clears_table_witness:
  "\<exists>w w' v q. ProcessReportUserLeaveRoom env0 packet5 w = Some (0, q, w') \<and> stored w 5 = Some user5 \<and> stored w' 5 = Some v \<and> m_nTid v = 0"
proof -
  obtain w where w: "server_ok w 1 [(5, user5)]" "stored w 5 = Some user5" by (rule user5_state)
  obtain q1 where q: "In_ReadInt packet5 = Some (5, q1)" by (rule packet5_reads)
  obtain w' v where "ProcessReportUserLeaveRoom env0 packet5 w = Some (0, q1, w')" "stored w' = (stored w)(5 \<mapsto> v)" "m_nTid v = 0"
    using leave_room_clears_table [OF w(1) q, of env0] w(2) by fastforce
  then show ?thesis using w(2) by (intro exI [of _ w] exI [of _ w'] exI [of _ v] exI [of _ q1]) simp
qed

text \<open>C8: when a client disconnects, a user at a table is kept without a hall and listed as offline from now on, and a user who is not at a table is
  removed from the store and from the offline list.\<close>

theorem client_close_outcome:
  assumes "server_ok w f U" "In_ReadInt p = Some (uid, q)"
  shows "\<exists>w'. ProcessClientClose e p w = Some (0, q, w') \<and>
     (case stored w uid of
        None \<Rightarrow> w' = w
      | Some v \<Rightarrow>
          if 0 < sint (m_nTid v)
          then stored w' = (stored w)(uid \<mapsto> v\<lparr>m_nHallServerId := -1, m_nUpdateTime := env_now e\<rparr>) \<and>
            sm_find uid (m_OfflineUserMgr (w_opt w')) = Some (env_now e)
          else stored w' = (stored w)(uid := None) \<and> sm_find uid (m_OfflineUserMgr (w_opt w')) = None)"
proof (cases "map_of U uid")
  case None
  then show ?thesis using close_result(1) [OF assms None] stored_ok(2) [OF assms(1)] by simp
next
  case (Some v)
  have m: "sm_ok (m_OfflineUserMgr (w_opt w))" using server_okD(3) [OF assms(1)] by (simp add: options_ok_def)
  show ?thesis
  proof (cases "0 < sint (m_nTid v)")
    case True
    obtain w' where r: "ProcessClientClose e p w = Some (0, q, w')"
        "server_ok w' f (lru_set uid (v\<lparr>m_nHallServerId := -1, m_nUpdateTime := env_now e\<rparr>) U)" "w_opt w' = AddOfflineUser uid (env_now e) (w_opt w)"
      using close_result(2) [OF assms Some True] by blast
    then show ?thesis using Some True m stored_ok(2) [OF assms(1)] stored_ok(2) [OF r(2)] by (simp add: lru_map_of AddOfflineUser_def sm_find_set)
  next
    case False
    obtain w' where r: "ProcessClientClose e p w = Some (0, q, w')" "server_ok w' (f + 1) (lru_delete uid U)" "w_opt w' = DeleteOfflineUser uid (w_opt w)"
      using close_result(3) [OF assms Some False] by blast
    then show ?thesis using Some False stored_ok(2) [OF assms(1)] stored_ok(2) [OF r(2)]
      by (simp add: lru_map_of DeleteOfflineUser_def sm_find_erase)
  qed
qed

theorem client_close_outcome_witness:
  "\<exists>w w' q. ProcessClientClose env0 packet5 w = Some (0, q, w') \<and> stored w 5 = Some user5 \<and> sm_find 5 (m_OfflineUserMgr (w_opt w')) = Some 1000"
proof -
  obtain w where w: "server_ok w 1 [(5, user5)]" "stored w 5 = Some user5" by (rule user5_state)
  obtain q1 where q: "In_ReadInt packet5 = Some (5, q1)" by (rule packet5_reads)
  have "0 < sint (m_nTid user5)" "env_now env0 = 1000" by (simp_all add: user5_def env0_def CGameUser_new_def)
  then show ?thesis using client_close_outcome [OF w(1) q, of env0] w(2) by auto
qed



text \<open>The answer to a request for the hall of a user carries the user id and the hall recorded in the store, or minus one for an unknown user.\<close>

theorem hall_id_answer:
  assumes "server_ok w f U" "In_ReadInt p = Some (uid, q)"
  shows "\<exists>w' m. ProcessGetUserHallID e p w = Some (0, q, w') \<and> stored w' = stored w \<and> w_sent w' = w_sent w @ [packet_bytes m] \<and>
     build_message GET_USER_HALLID [FInt uid, FInt (case stored w uid of None \<Rightarrow> -1 | Some v \<Rightarrow> m_nHallServerId v)] output_packet0 = Some m"
proof -
  have m: "\<exists>m. build_message GET_USER_HALLID [FInt uid, FInt i] output_packet0 = Some m" for i
    by (rule reply_total [of "[FInt uid, FInt i]" GET_USER_HALLID]) auto
  show ?thesis
  proof (cases "map_of U uid")
    case None
    obtain m where "build_message GET_USER_HALLID [FInt uid, FInt (-1)] output_packet0 = Some m" using m by blast
    moreover have "server_ok (ch_Send m w) f U" using assms(1) by simp
    ultimately show ?thesis using None assms(2) find_user(1) [OF assms(1) None] stored_ok(2) [OF assms(1)] stored_ok(2) [of "ch_Send m w" f U]
      by (intro exI [of _ "ch_Send m w"] exI [of _ m]) (simp add: ProcessGetUserHallID_def, simp add: ch_Send_def)
  next
    case (Some v)
    obtain g where g: "gshm_Find (env_now e) uid CGameUser_default (w_gshm w) = Some (0, v, g)" "server_ok (w\<lparr>w_gshm := g\<rparr>) f (lru_touch uid U)"
      using find_user(2) [OF assms(1) Some] by blast
    obtain m where m: "build_message GET_USER_HALLID [FInt uid, FInt (m_nHallServerId v)] output_packet0 = Some m" using m by blast
    have ok: "server_ok (ch_Send m (w\<lparr>w_gshm := g\<rparr>)) f (lru_touch uid U)" using g(2) by simp
    show ?thesis using m Some assms(2) g(1) stored_ok(2) [OF assms(1)] stored_ok(2) [OF ok]
      by (intro exI [of _ "ch_Send m (w\<lparr>w_gshm := g\<rparr>)"] exI [of _ m]) (simp add: ProcessGetUserHallID_def lru_map_of, simp add: ch_Send_def)
  qed
qed

theorem hall_id_answer_witness:
  "\<exists>w w' m q. ProcessGetUserHallID env0 packet5 w = Some (0, q, w') \<and> w_sent w' = w_sent w @ [packet_bytes m] \<and>
     build_message GET_USER_HALLID [FInt 5, FInt 3] output_packet0 = Some m"
proof -
  obtain w where w: "server_ok w 1 [(5, user5)]" "stored w 5 = Some user5" by (rule user5_state)
  obtain q1 where q: "In_ReadInt packet5 = Some (5, q1)" by (rule packet5_reads)
  have "m_nHallServerId user5 = 3" by (simp add: user5_def CGameUser_new_def)
  then show ?thesis using hall_id_answer [OF w(1) q, of env0] w(2) by auto
qed

section \<open>Servers going down, malformed and oversized packets\<close>

text \<open>C12: when a game server reports that it went down, it leaves the server list and exactly the users at its tables lose table and level.\<close>

theorem game_server_down:
  assumes "server_ok w f U" "In_ReadShort p = Some (sid, q)"
  shows "\<exists>w'. ProcessLogicCore e p w = Some (0, q, w') \<and> GetServer (scast sid) (w_opt w') = None \<and>
     stored w' = (\<lambda>k. map_option (\<lambda>u. if 0 < sint (m_nTid u) \<and> sint (drop_bit 16 (m_nTid u)) = sint sid
        then u\<lparr>m_nTid := 0, m_nServerLevel := -1\<rparr> else u) (stored w k))"
proof -
  let ?w = "w\<lparr>w_opt := DeleteLogicServer (scast sid) (w_opt w)\<rparr>"
  have ok: "server_ok ?w f U" by (rule server_ok_opt [OF assms(1)]) (simp add: server_okD(3) [OF assms(1)])
  obtain w' U' where r: "SetServerUserTid0 e sid ?w = Some w'" "server_ok w' f U'" "w_opt w' = w_opt ?w"
      "map_of U' = (\<lambda>k. map_option (\<lambda>u. if at_server sid u then u\<lparr>m_nTid := 0, m_nServerLevel := -1\<rparr> else u) (map_of U k))"
    using SetServerUserTid0_ok [OF ok, of e sid] by blast
  have "GetServer (scast sid) (w_opt w') = None"
    using r(3) by (auto simp: GetServer_def DeleteLogicServer_def sm_find_erase)
  then show ?thesis using r(1) assms(2)
    by (intro exI [of _ w']) (simp add: ProcessLogicCore_def stored_ok(2) [OF r(2)] stored_ok(2) [OF assms(1)] r(4) at_server_def)
qed

theorem game_server_down_witness:
  "\<exists>w w' sid q. In_ReadShort packet5 = Some (sid, q) \<and> ProcessLogicCore env0 packet5 w = Some (0, q, w') \<and> GetServer (scast sid) (w_opt w') = None"
proof -
  obtain w where w: "server_ok w 1 [(5, user5)]" by (rule user5_state)
  have p: "pk_wf 8192 packet5" by (rule packet5_reads)
  obtain sid q where q: "In_ReadShort packet5 = Some (sid, q)" by (rule In_ReadShort_total [OF p])
  show ?thesis using game_server_down [OF w q, of env0] q by blast
qed

text \<open>C13: when a hall server goes down, exactly its users lose their hall, and those not yet listed as offline are listed from now on; earlier
  entries keep their time.\<close>

theorem hall_server_down:
  assumes "server_ok w f U" "In_ReadInt p = Some (hid, q)"
  shows "\<exists>w'. ProcessHallCore e p w = Some (0, q, w') \<and>
     stored w' = (\<lambda>k. map_option (\<lambda>u. if m_nHallServerId u = hid then u\<lparr>m_nHallServerId := -1\<rparr> else u) (stored w k)) \<and>
     (\<forall>k. sm_find k (m_OfflineUserMgr (w_opt w')) = (case sm_find k (m_OfflineUserMgr (w_opt w)) of Some t \<Rightarrow> Some t
        | None \<Rightarrow> if \<exists>u. stored w k = Some u \<and> m_nHallServerId u = hid then Some (env_now e) else None))"
proof -
  obtain w' U' where r: "SetUserOfflineHallCore e hid w = Some w'" "server_ok w' f U'"
      "map_of U' = (\<lambda>k. map_option (\<lambda>u. if m_nHallServerId u = hid then u\<lparr>m_nHallServerId := -1\<rparr> else u) (map_of U k))"
      "\<forall>k. sm_find k (m_OfflineUserMgr (w_opt w')) = (case sm_find k (m_OfflineUserMgr (w_opt w)) of Some t \<Rightarrow> Some t
        | None \<Rightarrow> if \<exists>u. map_of U k = Some u \<and> m_nHallServerId u = hid then Some (env_now e) else None)"
    using SetUserOfflineHallCore_ok [OF assms(1), of e hid] by blast
  show ?thesis unfolding stored_ok(2) [OF assms(1)]
    by (intro exI [of _ w'] conjI r(4)) (use r(1) assms(2) in \<open>simp_all add: ProcessHallCore_def stored_ok(2) [OF r(2)] r(3)\<close>)
qed

theorem hall_server_down_witness:
  "\<exists>w w' q. ProcessHallCore env0 packet5 w = Some (0, q, w') \<and> stored w 5 = Some user5 \<and> stored w' 5 = Some user5"
proof -
  obtain w where w: "server_ok w 1 [(5, user5)]" "stored w 5 = Some user5" by (rule user5_state)
  obtain q1 where q: "In_ReadInt packet5 = Some (5, q1)" by (rule packet5_reads)
  have h: "m_nHallServerId user5 \<noteq> 5" by (simp add: user5_def CGameUser_new_def)
  obtain w' where r: "ProcessHallCore env0 packet5 w = Some (0, q1, w')"
      "stored w' = (\<lambda>k. map_option (\<lambda>u. if m_nHallServerId u = 5 then u\<lparr>m_nHallServerId := -1\<rparr> else u) (stored w k))"
    using hall_server_down [OF w(1) q, of env0] by blast
  then show ?thesis using w(2) h by (intro exI [of _ w] exI [of _ w'] exI [of _ q1]) simp
qed



text \<open>Data larger than the packet buffer, which the stream decoder lets through up to 10240 bytes, is not copied, and the previous packet of the
  connection is processed a second time.\<close>

theorem oversized_packet_repeats:
  assumes "8192 < len"
  shows "OnPacketComplete e data len p w = ProcessPacket e p w"
  using assms by (simp add: OnPacketComplete_def In_Copy_def Pb_copy_def Dpb_copy_def)

theorem oversized_packet_repeats_witness:
  "OnPacketComplete env0 [] 9000 packet5 server0 = ProcessPacket env0 packet5 server0"
  by (rule oversized_packet_repeats) simp

text \<open>A configuration file with a random limit of zero, the line \<open>RANDCOUNT = 0\<close> in the section \<open>LEVELCOUNT\<close>, is accepted, and the next request for the
  size of a level divides by zero.\<close>

theorem zero_limit_division:
  assumes "env_ini e file = Some (ini_text secs)" "ini_ok secs" "key_ok (bytes_of_string ''RANDCOUNT'') secs"
    and "ini_lookup (bytes_of_string ''LEVELCOUNT'') (bytes_of_string ''RANDCOUNT'') secs = Some (bytes_of_string ''0'')"
    and "In_ReadShort p = Some (n, q)" "0 < sint n"
  shows "\<exists>opt. ReadRandomConfig e file (w_opt w) = Some (0, opt) \<and> ProcessGetRoomLevelNum e' nUid nSvid p (w\<lparr>w_opt := opt\<rparr>) = None"
proof -
  have F: "ini_file (ini_text secs) (IniFile_open e file)" unfolding IniFile_open_def by (rule OpenFile_ok) (rule assms(1))
  have "ini_ReadInt (IniFile_open e file) ''LEVELCOUNT'' ''RANDCOUNT'' 100 = Some (atoi (bytes_of_string ''0''))"
    using IniFile_ReadInt_lookup [OF F assms(2) ini1_ok(2) assms(3)] assms(4) by (simp add: ini_ReadInt_def bytes_of_string_def)
  also have "atoi (bytes_of_string ''0'') = 0" by (simp add: bytes_of_string_def atoi_def is_space_def is_digit_def)
  finally have "ini_ReadInt (IniFile_open e file) ''LEVELCOUNT'' ''RANDCOUNT'' 100 = Some 0" .
  moreover obtain b where "ini_ReadInt (IniFile_open e file) ''LEVELCOUNT'' ''ADDCOUNT'' 0 = Some b" using ini_ReadInt_total [OF F] by blast
  moreover obtain k where "nat (sint n) = Suc k" using assms(6) by (metis gr0_implies_Suc zero_less_nat_eq)
  ultimately show ?thesis using F assms(5) by (simp add: ReadRandomConfig_def ini_file_def ProcessGetRoomLevelNum_def GetRand_def Let_def)
qed

theorem zero_limit_division_witness:
  "\<exists>opt. ReadRandomConfig env_zero (bytes_of_string ''../conf/config.ini'') (w_opt server0) = Some (0, opt) \<and>
     ProcessGetRoomLevelNum env0 5 9 packet_level (server0\<lparr>w_opt := opt\<rparr>) = None"
proof -
  obtain q where q: "In_ReadShort packet_level = Some (1, q)" by (rule packet_level_reads)
  show ?thesis by (rule zero_limit_division [OF _ ini1_ok(1,4) ini1_lookup(2) q]) (simp_all add: env_zero_def)
qed

end
